(* ===== verification/Prelude.thy ===== *)
theory Prelude
  imports Main "HOL-Library.Word"
begin

text \<open>
  Shared vocabulary of the development: machine integers and byte strings, the status codes the
  engine returns, and the little- and big-endian encodings that every on-disk format of the engine
  is built from (the \<open>put\<close>/\<open>get\<close> and \<open>WriteValue\<close>/\<open>ReadValue\<close> helpers of the sources).
  The generic facts are collected in \<open>bytes_simps\<close> and used by \<open>simp add:\<close> in the components.
\<close>

unbundle bit_operations_syntax

named_theorems bytes_simps "lengths and round trips of the byte encodings"

type_synonym byte = "8 word"
type_synonym u16 = "16 word"
type_synonym u32 = "32 word"
type_synonym u64 = "64 word"
type_synonym bytes = "byte list"

text \<open>The status codes of \<open>rocksdb::Status\<close> that the engine produces; messages are dropped.\<close>

datatype status = OK | NotFound | InvalidArgument | IOError | Corruption | NotSupported

subsection \<open>Fixed-width integers as bytes\<close>

primrec put_le :: "nat \<Rightarrow> 'a::len word \<Rightarrow> bytes" where
  "put_le 0 v = []"
| "put_le (Suc n) v = ucast v # put_le n (drop_bit 8 v)"

primrec get_le :: "bytes \<Rightarrow> 'a::len word" where
  "get_le [] = 0"
| "get_le (b # bs) = ucast b OR push_bit 8 (get_le bs)"

definition put_be :: "nat \<Rightarrow> 'a::len word \<Rightarrow> bytes" where
  "put_be n v = rev (put_le n v)"

definition get_be :: "bytes \<Rightarrow> 'a::len word" where
  "get_be bs = foldl (\<lambda>v b. push_bit 8 v OR ucast b) 0 bs"

definition read_le :: "nat \<Rightarrow> bytes \<Rightarrow> ('a::len word \<times> bytes) option" where
  "read_le n bs = (if length bs < n then None else Some (get_le (take n bs), drop n bs))"

lemma length_put_le [simp, bytes_simps]: "length (put_le n v) = n"
  by (induction n arbitrary: v) auto

lemma length_put_be [simp, bytes_simps]: "length (put_be n v) = n"
  by (simp add: put_be_def)

lemma get_le_put_le_take: "get_le (put_le n v) = take_bit (8 * n) v"
proof (induction n arbitrary: v)
  case 0
  show ?case by simp
next
  case (Suc n)
  have "get_le (put_le (Suc n) v) = (ucast (ucast v :: byte) :: 'a word) OR push_bit 8 (take_bit (8 * n) (drop_bit 8 v))"
    by (simp add: Suc)
  also have "\<dots> = take_bit (8 * Suc n) v"
    by (rule bit_word_eqI)
      (auto simp: bit_or_iff bit_push_bit_iff bit_take_bit_iff bit_drop_bit_eq bit_ucast_iff
        not_less le_Suc_ex ac_simps)
  finally show ?case .
qed

lemma get_le_put_le [simp, bytes_simps]:
  fixes v :: "'a::len word"
  assumes "8 * n \<ge> LENGTH('a)"
  shows "get_le (put_le n v) = v"
proof -
  have "take_bit (8 * n) v = v"
    using assms by (auto intro!: bit_word_eqI simp: bit_take_bit_iff dest: bit_imp_le_length)
  then show ?thesis by (simp add: get_le_put_le_take)
qed

lemma get_be_append: "get_be (bs @ [b]) = push_bit 8 (get_be bs) OR ucast b"
  by (simp add: get_be_def)

lemma get_be_rev: "get_be (rev bs) = get_le bs"
  by (induction bs) (simp_all add: get_be_append or.commute, simp add: get_be_def)

lemma get_be_put_be [simp, bytes_simps]:
  fixes v :: "'a::len word"
  shows "8 * n \<ge> LENGTH('a) \<Longrightarrow> get_be (put_be n v) = v"
  by (simp add: put_be_def get_be_rev)

lemma put_le_get_le:
  "8 * length bs \<le> LENGTH('a) \<Longrightarrow> put_le (length bs) (get_le bs :: 'a::len word) = bs"
proof (induction bs)
  case Nil
  show ?case by simp
next
  case (Cons b bs)
  let ?w = "get_le bs :: 'a word"
  have lo: "(ucast (ucast b OR push_bit 8 ?w :: 'a word) :: byte) = b"
    using Cons.prems
    by (intro bit_word_eqI) (auto simp: bit_or_iff bit_push_bit_iff bit_ucast_iff)
  have w: "\<not> bit ?w n" if "8 * length bs \<le> n" for n
  proof -
    have "?w = take_bit (8 * length bs) ?w"
      using Cons.IH Cons.prems get_le_put_le_take [of "length bs" ?w] by simp
    then show ?thesis using that by (metis bit_take_bit_iff not_less)
  qed
  have hi: "drop_bit 8 (ucast b OR push_bit 8 ?w :: 'a word) = ?w"
    using Cons.prems w
    by (intro bit_word_eqI)
      (auto simp: bit_or_iff bit_push_bit_iff bit_ucast_iff bit_drop_bit_eq not_less
        dest: bit_imp_le_length)
  from lo hi Cons show ?case by simp
qed

lemma put_be_get_be:
  "8 * length bs \<le> LENGTH('a) \<Longrightarrow> put_be (length bs) (get_be bs :: 'a::len word) = bs"
  using put_le_get_le [of "rev bs", where 'a = 'a] get_be_rev [of "rev bs", where 'a = 'a]
  by (simp add: put_be_def)

lemma put_le_inject:
  fixes v w :: "'a::len word"
  shows "8 * n \<ge> LENGTH('a) \<Longrightarrow> put_le n v = put_le n w \<longleftrightarrow> v = w"
  by (metis get_le_put_le)

lemma put_be_inject:
  fixes v w :: "'a::len word"
  shows "8 * n \<ge> LENGTH('a) \<Longrightarrow> put_be n v = put_be n w \<longleftrightarrow> v = w"
  by (metis get_be_put_be)

lemma read_le_put_le [simp, bytes_simps]:
  fixes v :: "'a::len word"
  shows "8 * n \<ge> LENGTH('a) \<Longrightarrow> read_le n (put_le n v @ rest) = Some (v, rest)"
  by (simp add: read_le_def)

lemma read_le_SomeD:
  "read_le n bs = Some (v, rest) \<Longrightarrow> length rest = length bs - n \<and> n \<le> length bs"
  by (auto simp: read_le_def split: if_splits)

lemma xor_cancel_right_word: "(a :: 'a::len word) XOR x = b XOR x \<Longrightarrow> a = b"
proof -
  assume "a XOR x = b XOR x"
  then have "(a XOR x) XOR x = (b XOR x) XOR x" by (rule arg_cong)
  then show "a = b" by (simp add: xor.assoc)
qed

lemma xor_cancel_left_word: "(x :: 'a::len word) XOR a = x XOR b \<Longrightarrow> a = b"
  using xor_cancel_right_word [of a x b] by (simp add: xor.commute)

lemma unat_byte_less: "unat (b :: byte) < 256"
  using unsigned_less [of b, where 'a = nat] by simp

lemma ucast_and_255: "(ucast (x AND 0xFF) :: byte) = ucast (x :: u64)"
proof (rule bit_word_eqI)
  fix n assume n: "n < LENGTH(8)"
  have "x AND 0xFF = take_bit 8 x" by (simp add: take_bit_eq_mask mask_eq_exp_minus_1)
  with n show "bit (ucast (x AND 0xFF) :: byte) n = bit (ucast x :: byte) n"
    by (simp add: bit_ucast_iff bit_take_bit_iff)
qed

lemma word_less_plus_1: "(x :: 'a::len word) \<noteq> - 1 \<Longrightarrow> x < x + 1"
proof -
  assume "x \<noteq> - 1"
  then have "x + 1 \<noteq> 0" by (metis add_eq_0_iff2)
  then have "unat (x + 1) = unat x + 1"
    by (metis Suc_eq_plus1 unatSuc add.commute)
  then show ?thesis by (simp add: word_less_nat_alt)
qed

lemma word_bit_zero_iff: "(w :: 'a::len word) = 0 \<longleftrightarrow> (\<forall>k. \<not> bit w k)"
proof
  assume "\<forall>k. \<not> bit w k"
  then show "w = 0" by (intro bit_word_eqI) simp
qed simp

subsection \<open>Maps that are inverse to each other\<close>

definition inverse_maps :: "('a \<rightharpoonup> 'b) \<Rightarrow> ('b \<rightharpoonup> 'a) \<Rightarrow> bool" where
  "inverse_maps f g \<longleftrightarrow> (\<forall>a b. f a = Some b \<longleftrightarrow> g b = Some a)"

lemma inverse_mapsD: "inverse_maps f g \<Longrightarrow> f a = Some b \<longleftrightarrow> g b = Some a"
  by (simp add: inverse_maps_def)

lemma inverse_maps_empty [simp]: "inverse_maps Map.empty Map.empty"
  by (simp add: inverse_maps_def)

lemma inverse_maps_update:
  assumes inv: "inverse_maps f g" and fresh: "g b = None"
  shows "inverse_maps (f(a \<mapsto> b)) ((case f a of None \<Rightarrow> g | Some p \<Rightarrow> g(p := None))(b \<mapsto> a))"
proof (cases "f a")
  case None
  then have "\<And>c. g c \<noteq> Some a" by (metis inv inverse_mapsD option.distinct(1))
  with None fresh show ?thesis using inv by (auto simp: inverse_maps_def)
next
  case (Some p)
  then have "\<And>c. g c = Some a \<longleftrightarrow> c = p" by (metis inv inverse_mapsD option.inject)
  moreover have "f c = Some d \<longleftrightarrow> g d = Some c" for c d using inv by (rule inverse_mapsD)
  ultimately show ?thesis
    unfolding inverse_maps_def Some using fresh by (auto split: if_splits) (metis option.inject)
qed

lemma inverse_maps_delete:
  assumes inv: "inverse_maps f g" and "f a = Some b"
  shows "inverse_maps (f(a := None)) (g(b := None))"
proof -
  have "\<And>c. g c = Some a \<longleftrightarrow> c = b" "\<And>c. f c = Some b \<longleftrightarrow> c = a"
    by (metis assms inverse_mapsD option.inject)+
  then show ?thesis using inv by (auto simp: inverse_maps_def)
qed

subsection \<open>Lists\<close>

lemma take_append_len [simp, bytes_simps]: "length xs = n \<Longrightarrow> take n (xs @ ys) = xs"
  by simp

lemma drop_append_len [simp, bytes_simps]: "length xs = n \<Longrightarrow> drop n (xs @ ys) = ys"
  by simp

end
