(* ===== verification/Ids.thy ===== *)
theory Ids
  imports Prelude
begin

text \<open>
  The identifier ranges of \<open>include/id_types.h\<close>. A real id is what the caller sees, an internal
  id is what the graph and the vector store use; bit 63 of an internal id says whether it is the
  real id itself (a direct id) or was allocated by an update.
\<close>

type_synonym real_id = u64
type_synonym internal_id = u64
type_synonym node_id = u64

definition kUpdateIdBit :: internal_id where
  "kUpdateIdBit = push_bit 63 1"

definition kFirstUpdateId :: internal_id where
  "kFirstUpdateId = kUpdateIdBit"

definition kMaxRealId :: real_id where
  "kMaxRealId = kUpdateIdBit - 1"

definition is_direct_id :: "internal_id \<Rightarrow> bool" where
  "is_direct_id i \<longleftrightarrow> drop_bit 63 i = 0"

definition is_update_id :: "internal_id \<Rightarrow> bool" where
  "is_update_id i \<longleftrightarrow> drop_bit 63 i = 1"

definition update_id_index :: "internal_id \<Rightarrow> internal_id" where
  "update_id_index i = i - kFirstUpdateId"

text \<open>\<open>k_invalid_node_id\<close> of \<open>disk_vector.h\<close>.\<close>

definition k_invalid_node_id :: node_id where
  "k_invalid_node_id = - 1"

lemma drop_bit_63_bit: "drop_bit 63 (i :: u64) = of_bool (bit i 63)"
proof (rule bit_word_eqI)
  fix n assume "n < LENGTH(64)"
  have "bit i (63 + n) \<longleftrightarrow> n = 0 \<and> bit i 63"
    using bit_imp_le_length [of i "63 + n"] by (cases n) auto
  then show "bit (drop_bit 63 i) n \<longleftrightarrow> bit (of_bool (bit i 63) :: u64) n"
    by (auto simp: bit_drop_bit_eq bit_1_iff)
qed

lemma is_direct_iff_bit: "is_direct_id i \<longleftrightarrow> \<not> bit i 63"
  by (simp add: is_direct_id_def drop_bit_63_bit)

lemma is_update_iff_bit: "is_update_id i \<longleftrightarrow> bit i 63"
  by (simp add: is_update_id_def drop_bit_63_bit)

lemma is_update_iff_not_direct: "is_update_id i \<longleftrightarrow> \<not> is_direct_id i"
  by (simp add: is_direct_iff_bit is_update_iff_bit)

lemma kFirstUpdateId_val: "kFirstUpdateId = 9223372036854775808"
  by (simp add: kFirstUpdateId_def kUpdateIdBit_def push_bit_eq_mult)

lemma kMaxRealId_val: "kMaxRealId = 9223372036854775807"
  by (simp add: kMaxRealId_def kUpdateIdBit_def push_bit_eq_mult)

lemma is_direct_unat: "is_direct_id i \<longleftrightarrow> unat i < 2 ^ 63"
proof -
  have "drop_bit 63 i = 0 \<longleftrightarrow> unat (drop_bit 63 i) = 0"
    by (simp add: unat_eq_0)
  also have "unat (drop_bit 63 i) = unat i div 2 ^ 63"
    by (metis drop_bit_eq_div unat_drop_bit_eq)
  finally show ?thesis
    by (simp add: is_direct_id_def div_eq_0_iff)
qed

lemma is_direct_le: "is_direct_id i \<longleftrightarrow> i \<le> kMaxRealId"
  by (auto simp: is_direct_unat word_le_nat_alt kMaxRealId_val)

lemma is_update_unat: "is_update_id i \<longleftrightarrow> 2 ^ 63 \<le> unat i"
  by (auto simp: is_update_iff_not_direct is_direct_unat)

lemma is_update_le: "is_update_id i \<longleftrightarrow> kFirstUpdateId \<le> i"
  by (simp add: is_update_unat word_le_nat_alt kFirstUpdateId_val)

text \<open>The \<open>static_assert\<close>s of the header.\<close>

lemma is_update_minus_one: "is_update_id (- 1)"
  by (simp add: is_update_iff_bit)

lemma id_ranges:
  "is_direct_id 0" "is_direct_id kMaxRealId" "is_update_id kFirstUpdateId"
  "update_id_index kFirstUpdateId = 0" "update_id_index (kFirstUpdateId + 42) = 42"
  "kMaxRealId + 1 = kFirstUpdateId"
  by (simp_all add: is_direct_unat is_update_unat kMaxRealId_val kFirstUpdateId_val
      update_id_index_def)

end
