(* ===== verification/Crc32.thy ===== *)
theory Crc32
  imports Prelude
begin

text \<open>
  \<open>include/crc32.h\<close>: the table-driven reflected CRC-32 that guards operation-log records and
  metadata files. The table loop is \<open>crc_table\<close>, the update loop \<open>crc_update\<close>. The lemmas show
  that the table form computes the bitwise polynomial division and that every corruption confined
  to four consecutive bytes changes the checksum.
\<close>

definition kInit :: u32 where
  "kInit = 0xFFFFFFFF"

definition kPoly :: u32 where
  "kPoly = 0xEDB88320"

definition crc_bit :: "u32 \<Rightarrow> u32" where
  "crc_bit c = (if c AND 1 \<noteq> 0 then kPoly XOR drop_bit 1 c else drop_bit 1 c)"

definition crc_entry :: "u32 \<Rightarrow> u32" where
  "crc_entry i = (crc_bit ^^ 8) i"

definition crc_table :: "u32 list" where
  "crc_table = map (\<lambda>i. crc_entry (of_nat i)) [0..<256]"

definition crc_step :: "u32 \<Rightarrow> byte \<Rightarrow> u32" where
  "crc_step crc b = crc_table ! unat ((crc XOR ucast b) AND 0xFF) XOR drop_bit 8 crc"

definition crc_update :: "u32 \<Rightarrow> bytes \<Rightarrow> u32" where
  "crc_update crc data = foldl crc_step crc data"

definition crc_finish :: "u32 \<Rightarrow> u32" where
  "crc_finish crc = crc XOR 0xFFFFFFFF"

definition crc_value :: "bytes \<Rightarrow> u32" where
  "crc_value data = crc_finish (crc_update kInit data)"

text \<open>The reference: shift the message through the register bit by bit.\<close>

definition crc_bitwise :: "u32 \<Rightarrow> byte \<Rightarrow> u32" where
  "crc_bitwise crc b = (crc_bit ^^ 8) (crc XOR ucast b)"

lemma crc_update_Nil [simp]: "crc_update c [] = c"
  by (simp add: crc_update_def)

lemma crc_update_Cons [simp]: "crc_update c (b # bs) = crc_update (crc_step c b) bs"
  by (simp add: crc_update_def)

lemma crc_update_append [simp]: "crc_update c (xs @ ys) = crc_update (crc_update c xs) ys"
  by (simp add: crc_update_def)

subsection \<open>Linearity and injectivity of one bit step\<close>

lemma and_1_bit: "(c :: u32) AND 1 \<noteq> 0 \<longleftrightarrow> bit c 0"
  by (simp add: and_one_eq odd_iff_mod_2_eq_one bit_0)

lemma crc_bit_alt: "crc_bit c = (if bit c 0 then kPoly else 0) XOR drop_bit 1 c"
  by (simp add: crc_bit_def and_1_bit)

lemma drop_bit_xor_u32: "drop_bit n (x XOR y :: u32) = drop_bit n x XOR drop_bit n y"
  by (rule drop_bit_xor)

lemma crc_bit_xor: "crc_bit (x XOR y) = crc_bit x XOR crc_bit y"
  by (cases "bit x 0"; cases "bit y 0")
    (simp_all add: crc_bit_alt bit_xor_iff drop_bit_xor_u32 xor.assoc xor.left_commute)

lemma crc_bit_0: "crc_bit 0 = 0"
  by (simp add: crc_bit_alt)

lemma crc_bits_xor: "(crc_bit ^^ n) (x XOR y) = (crc_bit ^^ n) x XOR (crc_bit ^^ n) y"
  by (induction n) (simp_all add: crc_bit_xor)

lemma crc_bits_0: "(crc_bit ^^ n) 0 = 0"
  by (induction n) (simp_all add: crc_bit_0)

lemma crc_bit_top: "bit (crc_bit c) 31 \<longleftrightarrow> bit c 0"
proof -
  have "bit kPoly 31" by (simp add: kPoly_def)
  moreover have "\<not> bit (drop_bit 1 c) 31"
    by (auto simp: bit_drop_bit_eq dest: bit_imp_le_length)
  ultimately show ?thesis by (simp add: crc_bit_alt bit_xor_iff)
qed

lemma crc_bit_inj: "crc_bit x = crc_bit y \<Longrightarrow> x = y"
proof -
  assume eq: "crc_bit x = crc_bit y"
  then have b0: "bit x 0 \<longleftrightarrow> bit y 0"
    using crc_bit_top by metis
  have d: "drop_bit 1 x = drop_bit 1 y"
    using eq b0 by (auto simp: crc_bit_alt dest: xor_cancel_left_word split: if_splits)
  show "x = y"
  proof (rule bit_word_eqI)
    fix n
    show "bit x n \<longleftrightarrow> bit y n"
    proof (cases n)
      case 0
      with b0 show ?thesis by simp
    next
      case (Suc m)
      with d show ?thesis by (metis bit_drop_bit_eq comp_apply plus_1_eq_Suc)
    qed
  qed
qed

lemma crc_bits_inj: "(crc_bit ^^ n) x = (crc_bit ^^ n) y \<Longrightarrow> x = y"
  by (induction n) (auto dest: crc_bit_inj)

text \<open>Bits above the ones shifted out only move down.\<close>

lemma crc_bits_high: "(\<forall>i < n. \<not> bit c i) \<Longrightarrow> (crc_bit ^^ n) c = drop_bit n c"
proof (induction n)
  case 0
  show ?case by simp
next
  case (Suc n)
  then have "(crc_bit ^^ n) c = drop_bit n c" by simp
  moreover have "\<not> bit (drop_bit n c) 0"
    using Suc.prems by (simp add: bit_drop_bit_eq)
  ultimately have "crc_bit ((crc_bit ^^ n) c) = drop_bit 1 (drop_bit n c)"
    by (simp add: crc_bit_alt)
  then show ?case by simp
qed

lemma crc_table_nth:
  fixes z :: u32
  shows "crc_table ! unat (z AND 0xFF) = crc_entry (z AND 0xFF)"
proof -
  have "z AND 0xFF \<le> 0xFF" by (rule word_and_le1)
  then have "unat (z AND 0xFF) \<le> unat (0xFF :: u32)" by (simp only: word_le_nat_alt)
  then have "unat (z AND 0xFF) < 256" by simp
  then show ?thesis by (simp add: crc_table_def)
qed

lemma crc_step_bitwise: "crc_step c b = crc_bitwise c b"
proof -
  define z where "z = c XOR ucast b"
  have ff: "bit (0xFF :: u32) n \<longleftrightarrow> n < 8" for n
  proof -
    have "bit (mask 8 :: u32) n \<longleftrightarrow> n < 8" by (auto simp: bit_mask_iff)
    moreover have "(mask 8 :: u32) = 0xFF" by (simp add: mask_eq_exp_minus_1)
    ultimately show ?thesis by (simp only:)
  qed
  have split: "z = (z AND 0xFF) XOR (z AND NOT 0xFF)"
    by (rule bit_word_eqI) (auto simp only: bit_xor_iff bit_and_iff bit_not_iff possible_bit_word)
  have hi: "drop_bit 8 (z AND NOT 0xFF) = drop_bit 8 c"
  proof (rule bit_word_eqI)
    fix n
    have "\<not> bit b (8 + n)" by (auto dest: bit_imp_le_length)
    then have "bit z (8 + n) \<longleftrightarrow> bit c (8 + n)"
      by (auto simp: z_def bit_xor_iff bit_ucast_iff)
    moreover have "bit (z AND NOT 0xFF) (8 + n) \<longleftrightarrow> bit z (8 + n)"
      using bit_imp_le_length [of z "8 + n"]
      by (auto simp only: bit_and_iff bit_not_iff ff possible_bit_word)
    ultimately show "bit (drop_bit 8 (z AND NOT 0xFF)) n \<longleftrightarrow> bit (drop_bit 8 c) n"
      by (simp only: bit_drop_bit_eq comp_apply)
  qed
  have "crc_bitwise c b = (crc_bit ^^ 8) ((z AND 0xFF) XOR (z AND NOT 0xFF))"
    using split by (simp add: crc_bitwise_def z_def)
  also have "\<dots> = (crc_bit ^^ 8) (z AND 0xFF) XOR (crc_bit ^^ 8) (z AND NOT 0xFF)"
    by (rule crc_bits_xor)
  also have "(crc_bit ^^ 8) (z AND NOT 0xFF) = drop_bit 8 (z AND NOT 0xFF)"
    by (rule crc_bits_high) (auto simp only: bit_and_iff bit_not_iff ff)
  finally show ?thesis
    by (simp only: hi crc_step_def crc_table_nth crc_entry_def z_def [symmetric])
qed

subsection \<open>Burst errors\<close>

lemma crc_step_inj: "crc_step c b = crc_step d b \<Longrightarrow> c = d"
proof -
  assume "crc_step c b = crc_step d b"
  then have "c XOR ucast b = d XOR ucast b"
    unfolding crc_step_bitwise crc_bitwise_def by (rule crc_bits_inj)
  then show "c = d" by (rule xor_cancel_right_word)
qed

lemma crc_update_inj: "crc_update c bs = crc_update d bs \<Longrightarrow> c = d"
  by (induction bs arbitrary: c d) (auto dest: crc_step_inj)

lemma crc_bits_add: "(crc_bit ^^ n) ((crc_bit ^^ m) x) = (crc_bit ^^ (n + m)) x"
  by (simp add: funpow_add)

text \<open>
  A window of at most four bytes is absorbed as one 32-bit word: the register after it is the
  word xored into the register before it, shifted by eight positions per byte.
\<close>

lemma crc_update_window:
  "length bs \<le> 4 \<Longrightarrow> crc_update c bs = (crc_bit ^^ (8 * length bs)) (c XOR get_le bs)"
proof (induction bs arbitrary: c)
  case Nil
  show ?case by simp
next
  case (Cons b bs)
  let ?w = "get_le bs :: u32"
  have small: "\<not> bit ?w n" if "8 * length bs \<le> n" for n
  proof -
    have "put_le (length bs) ?w = bs"
      using Cons.prems by (intro put_le_get_le) simp
    then have "?w = take_bit (8 * length bs) ?w"
      using get_le_put_le_take [of "length bs" ?w] by simp
    then show ?thesis using that by (metis bit_take_bit_iff not_less)
  qed
  have dist: "ucast b OR push_bit 8 ?w = ucast b XOR push_bit 8 ?w"
    by (rule bit_word_eqI) (auto simp: bit_or_iff bit_xor_iff bit_push_bit_iff bit_ucast_iff
        dest: bit_imp_le_length)
  have restore: "drop_bit 8 (push_bit 8 ?w) = ?w"
  proof (rule bit_word_eqI)
    fix n
    have "\<not> bit ?w n" if "24 \<le> n"
      using Cons.prems that by (intro small) simp
    then show "bit (drop_bit 8 (push_bit 8 ?w)) n \<longleftrightarrow> bit ?w n"
      by (cases "n < 24") (auto simp: bit_drop_bit_eq bit_push_bit_iff)
  qed
  have shift: "(crc_bit ^^ 8) (push_bit 8 ?w) = ?w"
    by (subst crc_bits_high) (simp_all add: bit_push_bit_iff restore)
  have "crc_update c (b # bs) = (crc_bit ^^ (8 * length bs)) (crc_bitwise c b XOR ?w)"
    using Cons by (simp add: crc_step_bitwise)
  also have "crc_bitwise c b XOR ?w = (crc_bit ^^ 8) ((c XOR ucast b) XOR push_bit 8 ?w)"
    by (simp only: crc_bitwise_def crc_bits_xor shift)
  also have "(c XOR ucast b) XOR push_bit 8 ?w = c XOR get_le (b # bs)"
    by (simp add: dist xor.assoc)
  finally have "crc_update c (b # bs)
      = (crc_bit ^^ (8 * length bs + 8)) (c XOR get_le (b # bs))"
    by (simp only: crc_bits_add)
  then show ?case by (simp add: add.commute)
qed

lemma crc_window_differs:
  assumes "length v = length w" "length v \<le> 4" "v \<noteq> w"
  shows "crc_update c v \<noteq> crc_update c w"
proof
  assume "crc_update c v = crc_update c w"
  with assms have "(crc_bit ^^ (8 * length v)) (c XOR get_le v)
      = (crc_bit ^^ (8 * length v)) (c XOR get_le w)"
    by (simp add: crc_update_window)
  then have "c XOR get_le v = c XOR (get_le w :: u32)" by (rule crc_bits_inj)
  then have "get_le v = (get_le w :: u32)" by (rule xor_cancel_left_word)
  note eq = this
  have v: "put_le (length w) (get_le v :: u32) = v"
    using put_le_get_le [of v, where 'a = 32] assms(1,2) by (simp del: length_put_le)
  have w: "put_le (length w) (get_le w :: u32) = w"
    using put_le_get_le [of w, where 'a = 32] assms(1,2) by (simp del: length_put_le)
  have "v = w" using v [unfolded eq] w by (rule trans [OF sym])
  with assms(3) show False by simp
qed

lemma crc_finish_inj: "crc_finish c = crc_finish d \<longleftrightarrow> c = d"
  unfolding crc_finish_def by (auto dest: xor_cancel_right_word)

lemma crc_update_burst:
  assumes "length v = length w" "length v \<le> 4" "v \<noteq> w"
  shows "crc_update c (p @ v @ s) \<noteq> crc_update c (p @ w @ s)"
  using assms crc_window_differs [OF assms, of "crc_update c p"] by (auto dest: crc_update_inj)

subsection \<open>Properties\<close>

lemma crc_update_bitwise: "crc_update c bs = foldl crc_bitwise c bs"
  by (induction bs arbitrary: c) (simp_all add: crc_step_bitwise)

text \<open>C23: The table-driven checksum is the bitwise division of the message by the reflected
  polynomial, started from all ones and complemented.\<close>

theorem crc_value_is_division: "crc_value bs = NOT (foldl crc_bitwise (- 1) bs)"
proof -
  have "(0xFFFFFFFF :: u32) = - 1" by simp
  then show ?thesis by (simp only: crc_value_def crc_finish_def crc_update_bitwise kInit_def) simp
qed

text \<open>C24: Damage confined to at most four consecutive bytes of a message always changes its
  checksum.\<close>

theorem crc_detects_burst:
  assumes "length v = length w" "length v \<le> 4" "v \<noteq> w"
  shows "crc_value (pre @ v @ post) \<noteq> crc_value (pre @ w @ post)"
  using crc_update_burst [OF assms] by (simp add: crc_value_def crc_finish_inj)

theorem crc_detects_burst_witness: "crc_value ([1] @ [7, 8] @ [2]) \<noteq> crc_value ([1] @ [9, 8] @ [2])"
  by (rule crc_detects_burst) simp_all

end
