(* ===== verification/Point_Id.thy ===== *)
theory Point_Id
  imports Ids
begin

text \<open>
  \<open>include/point_id.h\<close>: the caller's point id, a 64-bit integer or a string, and its stored form.
  The class is the record \<open>point_id\<close> with the class's three members; \<open>pid_encode\<close> and
  \<open>pid_decode\<close> are \<open>Encode\<close> and \<open>Decode\<close>, with the UUID packing loop as \<open>uuid_pack\<close>.
  Decoding an encoded id gives the id back, so encodings of different ids are different keys, and
  integer ids are ordered by their encodings.
\<close>

record point_id =
  pid_is_int :: bool
  pid_int :: u64
  pid_str :: bytes

definition pid_Int :: "u64 \<Rightarrow> point_id" where
  "pid_Int v = \<lparr>pid_is_int = True, pid_int = v, pid_str = []\<rparr>"

definition pid_Str :: "bytes \<Rightarrow> point_id" where
  "pid_Str s = \<lparr>pid_is_int = False, pid_int = 0, pid_str = s\<rparr>"

definition pid_eq :: "point_id \<Rightarrow> point_id \<Rightarrow> bool" where
  "pid_eq p q \<longleftrightarrow> pid_is_int p = pid_is_int q \<and>
     (if pid_is_int p then pid_int p = pid_int q else pid_str p = pid_str q)"

definition kMaxStringBytes :: nat where
  "kMaxStringBytes = 1024"

definition kIntTag :: byte where "kIntTag = 1"
definition kStrTag :: byte where "kStrTag = 2"
definition kUuidTag :: byte where "kUuidTag = 3"

text \<open>The characters \<open>-\<close>, \<open>0\<close>, \<open>9\<close>, \<open>a\<close> and \<open>f\<close>.\<close>

definition is_hex :: "byte \<Rightarrow> bool" where
  "is_hex c \<longleftrightarrow> (0x30 \<le> c \<and> c \<le> 0x39) \<or> (0x61 \<le> c \<and> c \<le> 0x66)"

definition is_canonical_uuid :: "bytes \<Rightarrow> bool" where
  "is_canonical_uuid s \<longleftrightarrow> length s = 36 \<and>
     list_all (\<lambda>i. if i = 8 \<or> i = 13 \<or> i = 18 \<or> i = 23 then s ! i = 0x2D else is_hex (s ! i))
       [0..<36]"

definition hex_val :: "byte \<Rightarrow> byte" where
  "hex_val c = (if c \<le> 0x39 then c - 0x30 else c - 0x61 + 10)"

definition hex_digits :: bytes where
  "hex_digits = [0x30, 0x31, 0x32, 0x33, 0x34, 0x35, 0x36, 0x37, 0x38, 0x39,
     0x61, 0x62, 0x63, 0x64, 0x65, 0x66]"

text \<open>The packing loop of \<open>Encode\<close>; the second argument is the variable \<open>high\<close>.\<close>

fun uuid_pack :: "bytes \<Rightarrow> byte option \<Rightarrow> bytes" where
  "uuid_pack [] h = []"
| "uuid_pack (c # cs) h =
     (if c = 0x2D then uuid_pack cs h
      else case h of
        None \<Rightarrow> uuid_pack cs (Some (hex_val c))
      | Some hi \<Rightarrow> (push_bit 4 hi OR hex_val c) # uuid_pack cs None)"

definition hex_pair :: "byte \<Rightarrow> bytes" where
  "hex_pair b = [hex_digits ! unat (drop_bit 4 b), hex_digits ! unat (b AND 0x0F)]"

definition uuid_unpack :: "bytes \<Rightarrow> bytes" where
  "uuid_unpack bs = concat (map (\<lambda>i.
     (if i = 5 \<or> i = 7 \<or> i = 9 \<or> i = 11 then [0x2D] else []) @ hex_pair (bs ! i)) [1..<17])"

definition pid_encode :: "point_id \<Rightarrow> bytes" where
  "pid_encode p =
     (if \<not> pid_is_int p \<and> is_canonical_uuid (pid_str p) then kUuidTag # uuid_pack (pid_str p) None
      else if pid_is_int p then kIntTag # put_be 8 (pid_int p)
      else kStrTag # pid_str p)"

definition pid_decode :: "bytes \<Rightarrow> point_id option" where
  "pid_decode bs =
     (case bs of
        [] \<Rightarrow> None
      | t # rest \<Rightarrow>
          if t = kIntTag then (if length bs \<noteq> 9 then None else Some (pid_Int (get_be rest)))
          else if t = kStrTag then Some (pid_Str rest)
          else if t = kUuidTag then
            (if length bs \<noteq> 17 then None else Some (pid_Str (uuid_unpack bs)))
          else None)"

subsection \<open>Hex digits\<close>

lemma is_hex_cases:
  assumes "is_hex c"
  obtains k where "k < 10" "c = 0x30 + of_nat k" | k where "k < 6" "c = 0x61 + of_nat k"
proof -
  from assms consider "0x30 \<le> c \<and> c \<le> 0x39" | "0x61 \<le> c \<and> c \<le> 0x66"
    by (auto simp: is_hex_def)
  then show ?thesis
  proof cases
    case 1
    then have u: "48 \<le> unat c" "unat c \<le> 57" by (auto simp: word_le_nat_alt)
    have "c = 0x30 + of_nat (unat c - 48)"
      using u by (simp add: of_nat_diff)
    with u that(1) [of "unat c - 48"] show ?thesis by simp
  next
    case 2
    then have u: "97 \<le> unat c" "unat c \<le> 102" by (auto simp: word_le_nat_alt)
    have "c = 0x61 + of_nat (unat c - 97)"
      using u by (simp add: of_nat_diff)
    with u that(2) [of "unat c - 97"] show ?thesis by simp
  qed
qed

lemma hex_val_facts:
  assumes "is_hex c"
  shows "unat (hex_val c) < 16" and "hex_digits ! unat (hex_val c) = c" and "c \<noteq> 0x2D"
proof -
  have "c \<in> {0x30, 0x31, 0x32, 0x33, 0x34, 0x35, 0x36, 0x37, 0x38, 0x39,
      0x61, 0x62, 0x63, 0x64, 0x65, 0x66}"
  proof (rule is_hex_cases [OF assms])
    fix k :: nat assume "k < 10" "c = 0x30 + of_nat k"
    then show ?thesis by (auto simp: less_Suc_eq numeral_eq_Suc)
  next
    fix k :: nat assume "k < 6" "c = 0x61 + of_nat k"
    then show ?thesis by (auto simp: less_Suc_eq numeral_eq_Suc)
  qed
  then show "unat (hex_val c) < 16" "hex_digits ! unat (hex_val c) = c" "c \<noteq> 0x2D"
    by (auto simp: hex_val_def hex_digits_def)
qed

lemma bit_small_byte: "unat (h :: byte) < 16 \<Longrightarrow> bit h n \<Longrightarrow> n < 4"
proof (rule ccontr)
  assume h: "unat h < 16" "bit h n" "\<not> n < 4"
  then have "odd (unat h div 2 ^ n)"
    by (simp add: bit_iff_odd [symmetric] bit_unsigned_iff)
  then have "2 ^ n \<le> unat h"
    by (metis div_less even_zero linorder_not_less)
  moreover have "(16 :: nat) \<le> 2 ^ n"
    using h(3) power_increasing [of 4 n "2 :: nat"] by simp
  ultimately show False using h(1) by simp
qed

lemma nibbles:
  assumes "unat (h :: byte) < 16" "unat (l :: byte) < 16"
  shows "drop_bit 4 (push_bit 4 h OR l) = h" and "(push_bit 4 h OR l) AND 0x0F = l"
proof -
  note sh = bit_small_byte [OF assms(1)] and sl = bit_small_byte [OF assms(2)]
  show "drop_bit 4 (push_bit 4 h OR l) = h"
  proof (rule bit_word_eqI)
    fix n assume "n < LENGTH(8)"
    show "bit (drop_bit 4 (push_bit 4 h OR l)) n \<longleftrightarrow> bit h n"
      using sh [of n] sl [of "4 + n"] by (auto simp: bit_drop_bit_eq bit_or_iff bit_push_bit_iff)
  qed
  have m: "bit (0x0F :: byte) n \<longleftrightarrow> n < 4" for n
  proof -
    have "bit (mask 4 :: byte) n \<longleftrightarrow> n < 4" by (auto simp: bit_mask_iff)
    moreover have "(mask 4 :: byte) = 0x0F" by (simp add: mask_eq_exp_minus_1)
    ultimately show ?thesis by (simp only:)
  qed
  show "(push_bit 4 h OR l) AND 0x0F = l"
    by (rule bit_word_eqI)
      (use sl in \<open>auto simp only: bit_and_iff m bit_or_iff bit_push_bit_iff\<close>)
qed

lemma hex_pair_pack:
  "is_hex a \<Longrightarrow> is_hex b \<Longrightarrow> hex_pair (push_bit 4 (hex_val a) OR hex_val b) = [a, b]"
  by (simp only: hex_pair_def nibbles hex_val_facts)

subsection \<open>Round trips\<close>

lemma uuid_pack_pair:
  "is_hex a \<Longrightarrow> is_hex b \<Longrightarrow>
    uuid_pack (a # b # cs) None = (push_bit 4 (hex_val a) OR hex_val b) # uuid_pack cs None"
  by (simp add: hex_val_facts)

lemma uuid_pack_dash: "uuid_pack (0x2D # cs) h = uuid_pack cs h"
  by simp

lemma uuid_roundtrip:
  assumes "is_canonical_uuid s"
  shows "length (uuid_pack s None) = 16 \<and> uuid_unpack (t # uuid_pack s None) = s"
proof -
  from assms have len: "length s = 36" by (simp add: is_canonical_uuid_def)
  then obtain c0 c1 c2 c3 c4 c5 c6 c7 d8 c9 c10 c11 c12 d13 c14 c15 c16 c17 d18 c19 c20 c21 c22 d23
      c24 c25 c26 c27 c28 c29 c30 c31 c32 c33 c34 c35 where s: "s =
      [c0, c1, c2, c3, c4, c5, c6, c7, d8, c9, c10, c11, c12, d13, c14, c15, c16, c17, d18, c19,
       c20, c21, c22, d23, c24, c25, c26, c27, c28, c29, c30, c31, c32, c33, c34, c35]"
    by (auto simp: numeral_eq_Suc length_Suc_conv)
  have upt: "[0..<36] = [0, 1, 2, 3, 4, 5, 6, 7, 8, 9, 10, 11, 12, 13, 14, 15, 16, 17, 18, 19, 20,
      21, 22, 23, 24, 25, 26, 27, 28, 29, 30, 31, 32, 33, 34, 35 :: nat]"
    by (simp add: upt_rec)
  have upt16: "[1..<17] = [1, 2, 3, 4, 5, 6, 7, 8, 9, 10, 11, 12, 13, 14, 15, 16 :: nat]"
    by (simp add: upt_rec)
  from assms have h: "is_hex c0" "is_hex c1" "is_hex c2" "is_hex c3" "is_hex c4" "is_hex c5"
      "is_hex c6" "is_hex c7" "d8 = 0x2D" "is_hex c9" "is_hex c10" "is_hex c11" "is_hex c12"
      "d13 = 0x2D" "is_hex c14" "is_hex c15" "is_hex c16" "is_hex c17" "d18 = 0x2D" "is_hex c19"
      "is_hex c20" "is_hex c21" "is_hex c22" "d23 = 0x2D" "is_hex c24" "is_hex c25" "is_hex c26"
      "is_hex c27" "is_hex c28" "is_hex c29" "is_hex c30" "is_hex c31" "is_hex c32" "is_hex c33"
      "is_hex c34" "is_hex c35"
    unfolding is_canonical_uuid_def s upt by simp_all
  have pack: "uuid_pack s None =
      map (\<lambda>(a, b). push_bit 4 (hex_val a) OR hex_val b)
        [(c0, c1), (c2, c3), (c4, c5), (c6, c7), (c9, c10), (c11, c12), (c14, c15), (c16, c17),
         (c19, c20), (c21, c22), (c24, c25), (c26, c27), (c28, c29), (c30, c31), (c32, c33),
         (c34, c35)]"
    by (simp only: s h(9,14,19,24) uuid_pack_pair [OF h(1,2)] uuid_pack_pair [OF h(3,4)]
        uuid_pack_pair [OF h(5,6)] uuid_pack_pair [OF h(7,8)] uuid_pack_pair [OF h(10,11)]
        uuid_pack_pair [OF h(12,13)] uuid_pack_pair [OF h(15,16)] uuid_pack_pair [OF h(17,18)]
        uuid_pack_pair [OF h(20,21)] uuid_pack_pair [OF h(22,23)] uuid_pack_pair [OF h(25,26)]
        uuid_pack_pair [OF h(27,28)] uuid_pack_pair [OF h(29,30)] uuid_pack_pair [OF h(31,32)]
        uuid_pack_pair [OF h(33,34)] uuid_pack_pair [OF h(35,36)] uuid_pack_dash
        uuid_pack.simps(1) list.map prod.case)
  show ?thesis
    unfolding uuid_unpack_def upt16 pack
    by (simp add: hex_pair_pack h s)
qed

lemma pid_decode_encode:
  "pid_decode (pid_encode p) =
     Some (if pid_is_int p then pid_Int (pid_int p) else pid_Str (pid_str p))"
proof (cases "\<not> pid_is_int p \<and> is_canonical_uuid (pid_str p)")
  case True
  then show ?thesis
    using uuid_roundtrip [of "pid_str p" kUuidTag]
    by (simp add: pid_encode_def pid_decode_def kUuidTag_def kIntTag_def kStrTag_def)
next
  case False
  then show ?thesis
    by (auto simp: pid_encode_def pid_decode_def kUuidTag_def kIntTag_def kStrTag_def)
qed

lemma pid_eq_canon:
  "pid_eq p (if pid_is_int p then pid_Int (pid_int p) else pid_Str (pid_str p))"
  by (simp add: pid_eq_def pid_Int_def pid_Str_def)

lemma pid_encode_inj: "pid_encode p = pid_encode q \<longleftrightarrow> pid_eq p q"
proof
  assume "pid_encode p = pid_encode q"
  then have "pid_decode (pid_encode p) = pid_decode (pid_encode q)" by simp
  then show "pid_eq p q"
    unfolding pid_decode_encode
    by (auto simp: pid_eq_def pid_Int_def pid_Str_def split: if_splits)
next
  assume "pid_eq p q"
  then show "pid_encode p = pid_encode q"
    by (auto simp: pid_eq_def pid_encode_def split: if_splits)
qed

lemma pid_encode_length:
  "\<not> pid_is_int p \<Longrightarrow> length (pid_str p) \<le> kMaxStringBytes \<Longrightarrow> length (pid_encode p) \<le> 1025"
  using uuid_roundtrip [of "pid_str p" 0] by (auto simp: pid_encode_def kMaxStringBytes_def)

subsection \<open>Properties\<close>

text \<open>C21: Decoding the stored form of a point id gives the id back (as the class compares ids), so
  ids that differ have different stored forms.\<close>

theorem pid_roundtrip:
  "(\<exists>q. pid_decode (pid_encode p) = Some q \<and> pid_eq p q)
    \<and> (pid_encode p = pid_encode q \<longleftrightarrow> pid_eq p q)"
  using pid_decode_encode [of p] pid_eq_canon [of p] pid_encode_inj [of p q] by auto

end
