(* ===== verification/Bloom.thy ===== *)
theory Bloom
  imports Complex_Main Prelude
begin

text \<open>
  \<open>src/bloom_filter.cc\<close>: the Bloom filter that short-cuts the update-map lookup. The members are
  the record \<open>bloom\<close> (\<open>size_t\<close> members as \<open>nat\<close>, the 64-bit words as words), the probe loops are
  \<open>bloom_add_loop\<close> and \<open>bloom_probe_loop\<close>. The sizing formulas use the C library's \<open>log\<close> on
  doubles, which is the parameter \<open>lg\<close> (the model computes over the reals). The invariant
  \<open>bloom_ok\<close> keeps every probe inside the bit array; the lemmas show that an added key is always
  reported and that a serialized filter is read back.
\<close>

record bloom =
  bl_bits :: "u64 list"
  bl_bit_count :: nat
  bl_num_hash :: nat
  bl_capacity :: nat
  bl_inserts :: nat

definition kLn2 :: real where
  "kLn2 = 6931471805599453 / 10 ^ 16"

definition kLn2Sq :: real where
  "kLn2Sq = kLn2 * kLn2"

definition kHash1Seed :: u64 where
  "kHash1Seed = 0x243f6a8885a308d3"

definition kHash2Seed :: u64 where
  "kHash2Seed = 0xb7e151628aed2a6b"

definition splitmix64 :: "u64 \<Rightarrow> u64" where
  "splitmix64 x0 =
     (let x = x0 + 0x9e3779b97f4a7c15;
          x = (x XOR drop_bit 30 x) * 0xbf58476d1ce4e5b9;
          x = (x XOR drop_bit 27 x) * 0x94d049bb133111eb
      in x XOR drop_bit 31 x)"

definition bits_for :: "(real \<Rightarrow> real) \<Rightarrow> nat \<Rightarrow> real \<Rightarrow> nat" where
  "bits_for lg n p =
     (if n = 0 then 0
      else let m = - real n * lg p / kLn2Sq; b = nat \<lceil>m\<rceil> in if b < 64 then 64 else b)"

definition hash_count_for :: "(real \<Rightarrow> real) \<Rightarrow> real \<Rightarrow> nat" where
  "hash_count_for lg p =
     (let k = - lg p / kLn2; c = nat \<lceil>k\<rceil>; c = (if c < 1 then 1 else c)
      in if c > 32 then 32 else c)"

definition bloom_hash1 :: "u64 \<Rightarrow> u64" where
  "bloom_hash1 key = splitmix64 (key XOR kHash1Seed)"

definition bloom_hash2 :: "u64 \<Rightarrow> u64" where
  "bloom_hash2 key = (let h = splitmix64 (key XOR kHash2Seed) in h OR 1)"

definition bloom_empty :: bloom where
  "bloom_empty = \<lparr>bl_bits = [], bl_bit_count = 0, bl_num_hash = 0, bl_capacity = 0, bl_inserts = 0\<rparr>"

definition bloom_allocate_for :: "nat \<Rightarrow> bloom \<Rightarrow> bloom" where
  "bloom_allocate_for bit_count b =
     b\<lparr>bl_bit_count := bit_count, bl_bits := replicate ((bit_count + 63) div 64) 0\<rparr>"

definition bloom_reset :: "(real \<Rightarrow> real) \<Rightarrow> nat \<Rightarrow> real \<Rightarrow> bloom \<Rightarrow> status + bloom" where
  "bloom_reset lg new_capacity fp_rate b =
     (if fp_rate \<le> 0 \<or> fp_rate \<ge> 1 then Inl InvalidArgument
      else Inr (bloom_allocate_for (bits_for lg new_capacity fp_rate)
        (b\<lparr>bl_capacity := new_capacity, bl_inserts := 0, bl_num_hash := hash_count_for lg fp_rate\<rparr>)))"

definition bloom_new :: "(real \<Rightarrow> real) \<Rightarrow> nat \<Rightarrow> real \<Rightarrow> status + bloom" where
  "bloom_new lg capacity fp_rate = bloom_reset lg capacity fp_rate bloom_empty"

definition set_bit_at :: "u64 list \<Rightarrow> nat \<Rightarrow> u64 list" where
  "set_bit_at bs i = bs[i div 64 := bs ! (i div 64) OR push_bit (i mod 64) 1]"

definition bit_clear_at :: "u64 list \<Rightarrow> nat \<Rightarrow> bool" where
  "bit_clear_at bs i \<longleftrightarrow> bs ! (i div 64) AND push_bit (i mod 64) 1 = 0"

primrec bloom_add_loop :: "nat \<Rightarrow> u64 \<Rightarrow> u64 \<Rightarrow> nat \<Rightarrow> u64 list \<Rightarrow> u64 list" where
  "bloom_add_loop 0 probe h2 m bs = bs"
| "bloom_add_loop (Suc k) probe h2 m bs =
     bloom_add_loop k (probe + h2) h2 m (set_bit_at bs (unat probe mod m))"

definition bloom_add :: "u64 \<Rightarrow> bloom \<Rightarrow> bloom" where
  "bloom_add key b =
     (if bl_bit_count b = 0 then b
      else b\<lparr>bl_bits := bloom_add_loop (bl_num_hash b) (bloom_hash1 key) (bloom_hash2 key)
               (bl_bit_count b) (bl_bits b),
             bl_inserts := bl_inserts b + 1\<rparr>)"

primrec bloom_probe_loop :: "nat \<Rightarrow> u64 \<Rightarrow> u64 \<Rightarrow> nat \<Rightarrow> u64 list \<Rightarrow> bool" where
  "bloom_probe_loop 0 probe h2 m bs = True"
| "bloom_probe_loop (Suc k) probe h2 m bs =
     (if bit_clear_at bs (unat probe mod m) then False
      else bloom_probe_loop k (probe + h2) h2 m bs)"

definition bloom_might_contain :: "u64 \<Rightarrow> bloom \<Rightarrow> bool" where
  "bloom_might_contain key b =
     (if bl_bit_count b = 0 then False
      else bloom_probe_loop (bl_num_hash b) (bloom_hash1 key) (bloom_hash2 key)
             (bl_bit_count b) (bl_bits b))"

definition bloom_fill_ratio :: "bloom \<Rightarrow> real" where
  "bloom_fill_ratio b =
     (if bl_capacity b = 0 then 0 else real (bl_inserts b) / real (bl_capacity b))"

definition bloom_write :: "bloom \<Rightarrow> bytes" where
  "bloom_write b =
     concat (map (\<lambda>n. put_le 8 (of_nat n :: u64))
       [bl_bit_count b, bl_num_hash b, bl_capacity b, bl_inserts b])
     @ put_le 8 (of_nat (length (bl_bits b)) :: u64)
     @ concat (map (put_le 8) (bl_bits b))"

primrec read_words :: "nat \<Rightarrow> bytes \<Rightarrow> (u64 list \<times> bytes) option" where
  "read_words 0 bs = Some ([], bs)"
| "read_words (Suc n) bs =
     (case read_le 8 bs of
        None \<Rightarrow> None
      | Some (w, bs1) \<Rightarrow>
          (case read_words n bs1 of None \<Rightarrow> None | Some (ws, bs2) \<Rightarrow> Some (w # ws, bs2)))"

text \<open>On a short stream the code leaves its locals unset; the model then has no result.\<close>

definition bloom_read :: "bytes \<Rightarrow> (bloom \<times> bytes) option" where
  "bloom_read bs =
     (case read_words 5 bs of
        Some ([bit_count, num_hash, capacity, inserts, words], bs1) \<Rightarrow>
          (case read_words (unat words) bs1 of
             None \<Rightarrow> None
           | Some (ws, bs2) \<Rightarrow>
               Some (\<lparr>bl_bits = ws, bl_bit_count = unat bit_count, bl_num_hash = unat num_hash,
                 bl_capacity = unat capacity, bl_inserts = unat inserts\<rparr>, bs2))
      | _ \<Rightarrow> None)"

subsection \<open>Bits\<close>

lemma bit_mask_word: "n < 64 \<Longrightarrow> bit (push_bit n 1 :: u64) k \<longleftrightarrow> k = n"
  by (auto simp: bit_exp_iff)

lemma bit_clear_iff: "bit_clear_at bs i \<longleftrightarrow> \<not> bit (bs ! (i div 64)) (i mod 64)"
proof -
  let ?m = "push_bit (i mod 64) 1 :: u64"
  have m: "bit ?m k \<longleftrightarrow> k = i mod 64" for k by (rule bit_mask_word) simp
  have "bs ! (i div 64) AND ?m = 0 \<longleftrightarrow> (\<forall>k. \<not> bit (bs ! (i div 64) AND ?m) k)"
    by (rule word_bit_zero_iff)
  also have "\<dots> \<longleftrightarrow> \<not> bit (bs ! (i div 64)) (i mod 64)"
    by (simp only: bit_and_iff m) auto
  finally show ?thesis by (simp only: bit_clear_at_def)
qed

lemma length_set_bit_at [simp]: "length (set_bit_at bs i) = length bs"
  by (simp add: set_bit_at_def)

lemma bit_clear_set_bit_at:
  assumes "i < 64 * length bs"
  shows "bit_clear_at (set_bit_at bs i) j \<longleftrightarrow> bit_clear_at bs j \<and> j \<noteq> i"
proof -
  have lt: "i div 64 < length bs" using assms by (simp add: less_mult_imp_div_less mult.commute)
  show ?thesis
  proof (cases "j div 64 = i div 64")
    case True
    then have "j = i \<longleftrightarrow> j mod 64 = i mod 64"
      by (metis div_mult_mod_eq)
    moreover have "bit (push_bit (i mod 64) (1 :: u64)) (j mod 64) \<longleftrightarrow> j mod 64 = i mod 64"
      by (rule bit_mask_word) simp
    ultimately show ?thesis
      using True lt by (auto simp only: bit_clear_iff set_bit_at_def bit_or_iff nth_list_update_eq)
  next
    case False
    then show ?thesis by (auto simp: bit_clear_iff set_bit_at_def)
  qed
qed

subsection \<open>No false negatives\<close>

definition bloom_ok :: "bloom \<Rightarrow> bool" where
  "bloom_ok b \<longleftrightarrow> bl_bit_count b \<le> 64 * length (bl_bits b)"

lemma length_bloom_add_loop [simp]: "length (bloom_add_loop k p h m bs) = length bs"
  by (induction k arbitrary: p bs) auto

lemma bloom_add_loop_keeps:
  "0 < m \<Longrightarrow> m \<le> 64 * length bs \<Longrightarrow> \<not> bit_clear_at bs j \<Longrightarrow>
    \<not> bit_clear_at (bloom_add_loop k p h m bs) j"
proof (induction k arbitrary: p bs)
  case 0
  then show ?case by simp
next
  case (Suc k)
  have "unat p mod m < 64 * length bs"
    using Suc.prems(1,2) mod_less_divisor [of m "unat p"] by linarith
  with Suc show ?case by (simp add: bit_clear_set_bit_at)
qed

lemma bloom_probe_loop_mono:
  "\<forall>j. bit_clear_at bs' j \<longrightarrow> bit_clear_at bs j \<Longrightarrow>
    bloom_probe_loop k p h m bs \<Longrightarrow> bloom_probe_loop k p h m bs'"
  by (induction k arbitrary: p) (auto split: if_splits)

lemma bloom_probe_add_loop:
  "0 < m \<Longrightarrow> m \<le> 64 * length bs \<Longrightarrow> bloom_probe_loop k p h m (bloom_add_loop k p h m bs)"
proof (induction k arbitrary: p bs)
  case 0
  show ?case by simp
next
  case (Suc k)
  let ?i = "unat p mod m"
  have i: "?i < 64 * length bs"
    using Suc.prems mod_less_divisor [of m "unat p"] by linarith
  then have "\<not> bit_clear_at (bloom_add_loop k (p + h) h m (set_bit_at bs ?i)) ?i"
    using Suc.prems by (intro bloom_add_loop_keeps) (simp_all add: bit_clear_set_bit_at)
  with Suc show ?case by simp
qed

lemma bloom_add_contains:
  "bloom_ok b \<Longrightarrow> 0 < bl_bit_count b \<Longrightarrow> bloom_might_contain k (bloom_add k b)"
  by (simp add: bloom_ok_def bloom_might_contain_def bloom_add_def bloom_probe_add_loop)

lemma bloom_add_mono:
  assumes ok: "bloom_ok b" and c: "bloom_might_contain k b"
  shows "bloom_might_contain k (bloom_add k' b)"
proof (cases "bl_bit_count b = 0")
  case True
  with c show ?thesis by (simp add: bloom_might_contain_def)
next
  case False
  have "\<forall>j. bit_clear_at (bl_bits (bloom_add k' b)) j \<longrightarrow> bit_clear_at (bl_bits b) j"
    using False ok bloom_add_loop_keeps [of "bl_bit_count b" "bl_bits b"]
    by (auto simp: bloom_add_def bloom_ok_def)
  with False c show ?thesis
    by (auto simp: bloom_might_contain_def bloom_add_def intro: bloom_probe_loop_mono)
qed

lemma bloom_add_ok [simp]: "bloom_ok (bloom_add k b) = bloom_ok b"
  by (simp add: bloom_ok_def bloom_add_def)

lemma bloom_add_frame [simp]:
  "bl_bit_count (bloom_add k b) = bl_bit_count b" "bl_num_hash (bloom_add k b) = bl_num_hash b"
  "bl_capacity (bloom_add k b) = bl_capacity b"
  by (simp_all add: bloom_add_def)

lemma hash_count_range: "1 \<le> hash_count_for lg p \<and> hash_count_for lg p \<le> 32"
proof -
  have "1 \<le> (let d = (if c < 1 then 1 else c) in if d > 32 then 32 else d)
      \<and> (let d = (if c < 1 then 1 else c) in if d > 32 then 32 else d) \<le> 32" for c :: nat
    by (simp add: Let_def)
  then show ?thesis by (simp only: hash_count_for_def Let_def)
qed

lemma bits_for_ge: "0 < n \<Longrightarrow> 64 \<le> bits_for lg n p"
  by (simp add: bits_for_def Let_def)

lemma words_cover: "m \<le> 64 * ((m + 63) div 64)" for m :: nat
  by arith

lemma bloom_reset_ok:
  "bloom_reset lg n p b = Inr b' \<Longrightarrow>
    bloom_ok b' \<and> bl_capacity b' = n \<and> bl_inserts b' = 0 \<and> (n > 0 \<longrightarrow> 64 \<le> bl_bit_count b')
    \<and> 1 \<le> bl_num_hash b' \<and> bl_num_hash b' \<le> 32"
  using hash_count_range [of lg p] bits_for_ge [of n lg p]
  by (auto simp: bloom_reset_def bloom_allocate_for_def bloom_ok_def words_cover split: if_splits)

lemma bloom_reset_ok_rate: "0 < p \<Longrightarrow> p < 1 \<Longrightarrow> \<exists>b'. bloom_reset lg n p b = Inr b'"
  by (simp add: bloom_reset_def)

text \<open>Adding a list of keys, as the rebuild loops do.\<close>

definition bloom_add_all :: "u64 list \<Rightarrow> bloom \<Rightarrow> bloom" where
  "bloom_add_all ks b = fold bloom_add ks b"

lemma bloom_add_all_frame [simp]:
  "bloom_ok (bloom_add_all ks b) = bloom_ok b"
  "bl_bit_count (bloom_add_all ks b) = bl_bit_count b"
  "bl_capacity (bloom_add_all ks b) = bl_capacity b"
  unfolding bloom_add_all_def by (induction ks arbitrary: b) auto

lemma bloom_add_all_mono:
  "bloom_ok b \<Longrightarrow> bloom_might_contain k b \<Longrightarrow> bloom_might_contain k (bloom_add_all ks b)"
  unfolding bloom_add_all_def by (induction ks arbitrary: b) (simp_all add: bloom_add_mono)

lemma bloom_add_all_contains:
  "bloom_ok b \<Longrightarrow> 0 < bl_bit_count b \<Longrightarrow> k \<in> set ks \<Longrightarrow> bloom_might_contain k (bloom_add_all ks b)"
proof (induction ks arbitrary: b)
  case Nil
  then show ?case by simp
next
  case (Cons a ks)
  show ?case
  proof (cases "k = a")
    case True
    with Cons.prems show ?thesis
      using bloom_add_all_mono [of "bloom_add a b" a ks] bloom_add_contains [of b a]
      by (simp add: bloom_add_all_def)
  next
    case False
    with Cons show ?thesis by (simp add: bloom_add_all_def)
  qed
qed

subsection \<open>Serialization\<close>

lemma read_words_put [simp]:
  "read_words (length ws) (concat (map (put_le 8) ws) @ rest) = Some (ws, rest)"
  by (induction ws) simp_all

definition bloom_fits :: "bloom \<Rightarrow> bool" where
  "bloom_fits b \<longleftrightarrow> bl_bit_count b < 2 ^ 64 \<and> bl_num_hash b < 2 ^ 64 \<and> bl_capacity b < 2 ^ 64
     \<and> bl_inserts b < 2 ^ 64 \<and> length (bl_bits b) < 2 ^ 64"

lemma unat_of_nat_u64: "n < 2 ^ 64 \<Longrightarrow> unat (of_nat n :: u64) = n"
  by (simp add: unat_of_nat take_bit_nat_eq_self)

lemma bloom_read_write:
  assumes "bloom_fits b"
  shows "bloom_read (bloom_write b @ rest) = Some (b, rest)"
proof -
  let ?ws = "[of_nat (bl_bit_count b), of_nat (bl_num_hash b), of_nat (bl_capacity b),
    of_nat (bl_inserts b), of_nat (length (bl_bits b))] :: u64 list"
  have "bloom_write b @ rest =
      concat (map (put_le 8) ?ws) @ (concat (map (put_le 8) (bl_bits b)) @ rest)"
    by (simp add: bloom_write_def)
  moreover have "length ?ws = 5" by simp
  then have "read_words 5 (concat (map (put_le 8) ?ws) @ bs) = Some (?ws, bs)" for bs
    using read_words_put [of ?ws bs] by (simp only:)
  ultimately show ?thesis
    using assms by (simp only: bloom_read_def) (simp add: bloom_fits_def unat_of_nat_u64)
qed

subsection \<open>Properties\<close>

text \<open>C1: A filter built by \<open>reset\<close> for a positive capacity never denies a key that was added to
  it, in whatever order the keys came.\<close>

theorem bloom_no_false_negatives:
  assumes "bloom_reset lg n p b0 = Inr b" "0 < n" "k \<in> set ks"
  shows "bloom_might_contain k (bloom_add_all ks b)"
  using bloom_reset_ok [OF assms(1)] assms(2,3) by (auto intro: bloom_add_all_contains)

theorem bloom_no_false_negatives_witness:
  "bloom_might_contain 7 (bloom_add_all [3, 7, 9]
     (case bloom_reset (\<lambda>_. - 1) 10 (1 / 100) bloom_empty of Inr b \<Rightarrow> b))"
proof -
  obtain b where b: "bloom_reset (\<lambda>_. - 1) 10 (1 / 100) bloom_empty = Inr b"
    using bloom_reset_ok_rate [of "1 / 100" "\<lambda>_. - 1" 10 bloom_empty] by auto
  then show ?thesis using bloom_no_false_negatives [OF b, of 7 "[3, 7, 9]"] by simp
qed

end
