(* ===== verification/Id_Map.thy ===== *)
theory Id_Map
  imports Ids Bloom "HOL-Library.AList"
begin

text \<open>
  The delete/update primitives of \<open>src/astervec_index.cc\<close> (\<open>resolve_internal\<close>, \<open>resolve_real\<close>,
  \<open>record_update_mapping\<close>, \<open>forget_update_mapping\<close>, \<open>rebuild_bloom_to_locked\<close>) and the inline
  members of \<open>include/astervec_index.h\<close> beside them. The two sparse maps are association lists
  with distinct keys (the iteration order of an \<open>unordered_map\<close> is unspecified; the list is one
  such order), the tombstone set is a list without duplicates. \<open>id_map_ok\<close> says that the two maps
  are inverse to each other, that only update ids are allocated, all below the counter, and that
  the Bloom filter knows every key of the forward map.
\<close>

record id_map =
  updated_real_to_internal :: "(real_id \<times> internal_id) list"
  updated_internal_to_real :: "(internal_id \<times> real_id) list"
  tombstoned_internal_ids :: "internal_id list"
  update_bloom :: bloom
  next_update_internal_id :: internal_id
  bloom_rebuild_count :: nat

definition kBloomRate :: real where
  "kBloomRate = 1 / 100"

definition bloom_reset_default :: "(real \<Rightarrow> real) \<Rightarrow> nat \<Rightarrow> bloom \<Rightarrow> bloom" where
  "bloom_reset_default lg n b =
     (case bloom_reset lg n kBloomRate b of Inr b' \<Rightarrow> b' | Inl _ \<Rightarrow> b)"

definition id_map_init :: "(real \<Rightarrow> real) \<Rightarrow> id_map" where
  "id_map_init lg = \<lparr>updated_real_to_internal = [], updated_internal_to_real = [],
     tombstoned_internal_ids = [], update_bloom = bloom_reset_default lg 512 bloom_empty,
     next_update_internal_id = kFirstUpdateId, bloom_rebuild_count = 0\<rparr>"

definition resolve_internal :: "id_map \<Rightarrow> real_id \<Rightarrow> internal_id" where
  "resolve_internal m r =
     (if \<not> bloom_might_contain r (update_bloom m) then r
      else case map_of (updated_real_to_internal m) r of None \<Rightarrow> r | Some i \<Rightarrow> i)"

definition resolve_real :: "id_map \<Rightarrow> internal_id \<Rightarrow> real_id" where
  "resolve_real m i =
     (if is_direct_id i then i
      else case map_of (updated_internal_to_real m) i of None \<Rightarrow> i | Some r \<Rightarrow> r)"

definition is_tombstoned :: "id_map \<Rightarrow> internal_id \<Rightarrow> bool" where
  "is_tombstoned m i \<longleftrightarrow> i \<in> set (tombstoned_internal_ids m)"

definition tombstone :: "internal_id \<Rightarrow> id_map \<Rightarrow> id_map" where
  "tombstone i m = m\<lparr>tombstoned_internal_ids := List.insert i (tombstoned_internal_ids m)\<rparr>"

text \<open>\<open>is_alive\<close> asks the vector store whether the resolved id exists: the argument \<open>ex\<close>.\<close>

definition is_alive :: "(internal_id \<Rightarrow> bool) \<Rightarrow> id_map \<Rightarrow> real_id \<Rightarrow> bool" where
  "is_alive ex m r =
     (let i = resolve_internal m r in if is_tombstoned m i then False else ex i)"

definition allocate_update_id :: "id_map \<Rightarrow> internal_id \<times> id_map" where
  "allocate_update_id m =
     (next_update_internal_id m, m\<lparr>next_update_internal_id := next_update_internal_id m + 1\<rparr>)"

definition observe_update_id :: "internal_id \<Rightarrow> id_map \<Rightarrow> id_map" where
  "observe_update_id i m =
     (if next_update_internal_id m \<le> i then m\<lparr>next_update_internal_id := i + 1\<rparr> else m)"

definition rebuild_bloom_to :: "(real \<Rightarrow> real) \<Rightarrow> nat \<Rightarrow> id_map \<Rightarrow> id_map" where
  "rebuild_bloom_to lg new_capacity m =
     m\<lparr>update_bloom := bloom_add_all (map fst (updated_real_to_internal m))
          (bloom_reset_default lg new_capacity (update_bloom m)),
       bloom_rebuild_count := bloom_rebuild_count m + 1\<rparr>"

definition record_update_mapping ::
  "(real \<Rightarrow> real) \<Rightarrow> real_id \<Rightarrow> internal_id \<Rightarrow> id_map \<Rightarrow> id_map" where
  "record_update_mapping lg r new_i m =
     (let rev = (case map_of (updated_real_to_internal m) r of
                   None \<Rightarrow> updated_internal_to_real m
                 | Some prev \<Rightarrow> AList.delete prev (updated_internal_to_real m));
          m1 = m\<lparr>updated_real_to_internal := AList.update r new_i (updated_real_to_internal m),
                 updated_internal_to_real := AList.update new_i r rev,
                 update_bloom := bloom_add r (update_bloom m)\<rparr>
      in if bloom_fill_ratio (update_bloom m1) \<ge> 7 / 10
         then rebuild_bloom_to lg (bl_capacity (update_bloom m1) * 2) m1 else m1)"

definition forget_update_mapping :: "real_id \<Rightarrow> id_map \<Rightarrow> id_map" where
  "forget_update_mapping r m =
     (case map_of (updated_real_to_internal m) r of
        None \<Rightarrow> m
      | Some i \<Rightarrow> m\<lparr>updated_internal_to_real := AList.delete i (updated_internal_to_real m),
                    updated_real_to_internal := AList.delete r (updated_real_to_internal m)\<rparr>)"

definition tombstone_ratio :: "nat \<Rightarrow> id_map \<Rightarrow> real" where
  "tombstone_ratio total_inserts_ever m =
     (if total_inserts_ever = 0 then 0
      else real (length (tombstoned_internal_ids m)) / real total_inserts_ever)"

subsection \<open>Invariant\<close>

declare map_of_eq_Some_iff [simp del]

definition bloom_covers :: "id_map \<Rightarrow> bool" where
  "bloom_covers m \<longleftrightarrow> bloom_ok (update_bloom m) \<and> 0 < bl_bit_count (update_bloom m)
     \<and> 0 < bl_capacity (update_bloom m)
     \<and> (\<forall>r \<in> fst ` set (updated_real_to_internal m). bloom_might_contain r (update_bloom m))"

definition id_map_ok :: "id_map \<Rightarrow> bool" where
  "id_map_ok m \<longleftrightarrow> distinct (map fst (updated_real_to_internal m))
     \<and> distinct (map fst (updated_internal_to_real m))
     \<and> distinct (tombstoned_internal_ids m)
     \<and> inverse_maps (map_of (updated_real_to_internal m)) (map_of (updated_internal_to_real m))
     \<and> (\<forall>i \<in> dom (map_of (updated_internal_to_real m)).
              is_update_id i \<and> i < next_update_internal_id m)
     \<and> bloom_covers m"

lemma bloom_reset_default:
  "0 < n \<Longrightarrow> bloom_ok (bloom_reset_default lg n b) \<and> 0 < bl_bit_count (bloom_reset_default lg n b)
    \<and> bl_capacity (bloom_reset_default lg n b) = n"
proof -
  assume "0 < n"
  obtain b' where b': "bloom_reset lg n kBloomRate b = Inr b'"
    using bloom_reset_ok_rate [of kBloomRate lg n b] by (auto simp: kBloomRate_def)
  from bloom_reset_ok [OF this] \<open>0 < n\<close> b' show ?thesis
    by (auto simp: bloom_reset_default_def)
qed

lemma id_map_init_ok: "id_map_ok (id_map_init lg)"
  using bloom_reset_default [of 512 lg bloom_empty]
  by (simp add: id_map_ok_def id_map_init_def bloom_covers_def)

lemma resolve_internal_spec:
  "bloom_covers m \<Longrightarrow> resolve_internal m r =
    (case map_of (updated_real_to_internal m) r of None \<Rightarrow> r | Some i \<Rightarrow> i)"
  by (auto simp: resolve_internal_def bloom_covers_def split: option.splits
      dest!: map_of_SomeD intro: rev_image_eqI)

lemma rebuild_bloom_fields [simp]:
  "updated_real_to_internal (rebuild_bloom_to lg n m) = updated_real_to_internal m"
  "updated_internal_to_real (rebuild_bloom_to lg n m) = updated_internal_to_real m"
  "tombstoned_internal_ids (rebuild_bloom_to lg n m) = tombstoned_internal_ids m"
  "next_update_internal_id (rebuild_bloom_to lg n m) = next_update_internal_id m"
  by (simp_all add: rebuild_bloom_to_def)

lemma rebuild_bloom_covers: "0 < n \<Longrightarrow> bloom_covers (rebuild_bloom_to lg n m)"
  using bloom_reset_default [of n lg "update_bloom m"]
  by (auto simp: bloom_covers_def rebuild_bloom_to_def intro!: bloom_add_all_contains rev_image_eqI)

lemma record_fields:
  "updated_real_to_internal (record_update_mapping lg r i m)
     = AList.update r i (updated_real_to_internal m)"
  "updated_internal_to_real (record_update_mapping lg r i m) = AList.update i r
     (case map_of (updated_real_to_internal m) r of
        None \<Rightarrow> updated_internal_to_real m
      | Some prev \<Rightarrow> AList.delete prev (updated_internal_to_real m))"
  "tombstoned_internal_ids (record_update_mapping lg r i m) = tombstoned_internal_ids m"
  "next_update_internal_id (record_update_mapping lg r i m) = next_update_internal_id m"
  by (simp_all add: record_update_mapping_def Let_def)

lemma record_covers: "bloom_covers m \<Longrightarrow> bloom_covers (record_update_mapping lg r i m)"
proof -
  assume c: "bloom_covers m"
  let ?m1 = "m\<lparr>updated_real_to_internal := AList.update r i (updated_real_to_internal m),
    updated_internal_to_real := AList.update i r
      (case map_of (updated_real_to_internal m) r of None \<Rightarrow> updated_internal_to_real m
       | Some prev \<Rightarrow> AList.delete prev (updated_internal_to_real m)),
    update_bloom := bloom_add r (update_bloom m)\<rparr>"
  have "bloom_covers ?m1"
    using c by (auto simp: bloom_covers_def update_conv' bloom_add_contains intro: bloom_add_mono
        simp flip: dom_map_of_conv_image_fst split: if_splits)
  moreover have "0 < bl_capacity (update_bloom ?m1) * 2"
    using c by (simp add: bloom_covers_def)
  ultimately show ?thesis
    using rebuild_bloom_covers [of "bl_capacity (update_bloom ?m1) * 2" lg ?m1]
    by (simp add: record_update_mapping_def Let_def)
qed

lemma record_maps:
  "map_of (updated_real_to_internal (record_update_mapping lg r i m))
     = (map_of (updated_real_to_internal m))(r \<mapsto> i)"
  "map_of (updated_internal_to_real (record_update_mapping lg r i m))
     = (case map_of (updated_real_to_internal m) r of
          None \<Rightarrow> map_of (updated_internal_to_real m)
        | Some p \<Rightarrow> (map_of (updated_internal_to_real m))(p := None))(i \<mapsto> r)"
  by (auto simp: record_fields update_conv' delete_conv' split: option.splits)

lemma record_ok:
  assumes ok: "id_map_ok m" and upd: "is_update_id i" and lt: "i < next_update_internal_id m"
    and fresh: "map_of (updated_internal_to_real m) i = None"
  shows "id_map_ok (record_update_mapping lg r i m)"
proof -
  let ?m' = "record_update_mapping lg r i m"
  have "inverse_maps (map_of (updated_real_to_internal ?m')) (map_of (updated_internal_to_real ?m'))"
    unfolding record_maps using ok fresh by (intro inverse_maps_update) (auto simp: id_map_ok_def)
  moreover have "distinct (map fst (updated_internal_to_real ?m'))"
    using ok by (auto simp: id_map_ok_def record_fields intro!: distinct_update distinct_delete
        split: option.splits)
  moreover have "\<forall>j \<in> dom (map_of (updated_internal_to_real ?m')).
      is_update_id j \<and> j < next_update_internal_id m"
    using ok upd lt by (auto simp: id_map_ok_def record_maps split: option.splits if_splits)
  ultimately show ?thesis
    using ok record_covers [of m lg r i]
    by (simp add: id_map_ok_def record_fields(1,3,4) distinct_update)
qed

lemma forget_fields [simp]:
  "tombstoned_internal_ids (forget_update_mapping r m) = tombstoned_internal_ids m"
  "next_update_internal_id (forget_update_mapping r m) = next_update_internal_id m"
  "update_bloom (forget_update_mapping r m) = update_bloom m"
  by (simp_all add: forget_update_mapping_def split: option.splits)

lemma forget_fwd:
  "updated_real_to_internal (forget_update_mapping r m)
     = AList.delete r (updated_real_to_internal m)"
  by (simp add: forget_update_mapping_def delete_idem map_of_eq_None_iff split: option.splits)

lemma forget_covers: "bloom_covers m \<Longrightarrow> bloom_covers (forget_update_mapping r m)"
proof -
  assume c: "bloom_covers m"
  have "set (AList.delete r (updated_real_to_internal m)) \<subseteq> set (updated_real_to_internal m)"
    by (auto simp: AList.delete_eq)
  with c show ?thesis by (auto simp: bloom_covers_def forget_fwd)
qed

lemma forget_ok: "id_map_ok m \<Longrightarrow> id_map_ok (forget_update_mapping r m)"
proof (cases "map_of (updated_real_to_internal m) r")
  case None
  then show "id_map_ok m \<Longrightarrow> ?thesis" by (simp add: forget_update_mapping_def)
next
  case (Some i)
  assume ok: "id_map_ok m"
  then have "inverse_maps (map_of (AList.delete r (updated_real_to_internal m)))
      (map_of (AList.delete i (updated_internal_to_real m)))"
    using Some by (simp add: id_map_ok_def delete_conv' inverse_maps_delete)
  moreover have "bloom_covers (forget_update_mapping r m)"
    using ok forget_covers by (simp add: id_map_ok_def)
  ultimately show ?thesis
    using ok Some
    by (simp add: id_map_ok_def forget_update_mapping_def distinct_delete delete_conv')
qed

lemma tombstone_ok: "id_map_ok m \<Longrightarrow> id_map_ok (tombstone i m)"
  by (simp add: id_map_ok_def tombstone_def bloom_covers_def)

lemma is_tombstoned_tombstone [simp]:
  "is_tombstoned (tombstone i m) j \<longleftrightarrow> j = i \<or> is_tombstoned m j"
  by (simp add: is_tombstoned_def tombstone_def)

lemma resolve_tombstone [simp]: "resolve_internal (tombstone i m) r = resolve_internal m r"
  by (simp add: resolve_internal_def tombstone_def)

text \<open>The counter does not wrap while fewer than \<open>2 ^ 63\<close> update ids have been handed out.\<close>

lemma allocate_ok:
  assumes "id_map_ok m" "allocate_update_id m = (i, m')" "next_update_internal_id m \<noteq> - 1"
  shows "id_map_ok m'" "i = next_update_internal_id m" "i < next_update_internal_id m'"
proof -
  from assms have m': "m' = m\<lparr>next_update_internal_id := next_update_internal_id m + 1\<rparr>"
    and i: "i = next_update_internal_id m" by (auto simp: allocate_update_id_def)
  have lt: "next_update_internal_id m < next_update_internal_id m + 1"
    using assms(3) by (rule word_less_plus_1)
  then show "id_map_ok m'" "i = next_update_internal_id m" "i < next_update_internal_id m'"
    using assms(1) i m' less_trans [OF _ lt]
    by (auto simp: id_map_ok_def bloom_covers_def simp del: map_of_eq_Some_iff)
qed

lemma resolve_after_record:
  "bloom_covers m \<Longrightarrow> resolve_internal (record_update_mapping lg r i m) r' =
    (if r' = r then i else resolve_internal m r')"
  by (simp add: resolve_internal_spec record_covers record_fields update_conv')

lemma resolve_after_forget:
  "id_map_ok m \<Longrightarrow> resolve_internal (forget_update_mapping r m) r' =
    (if r' = r then r else resolve_internal m r')"
  using forget_ok [of m r]
  by (simp add: id_map_ok_def resolve_internal_spec forget_fwd delete_conv')

lemma resolve_real_internal:
  assumes ok: "id_map_ok m" and "is_direct_id r"
  shows "resolve_real m (resolve_internal m r) = r"
proof (cases "map_of (updated_real_to_internal m) r")
  case None
  with assms show ?thesis by (simp add: id_map_ok_def resolve_internal_spec resolve_real_def)
next
  case (Some i)
  have inv: "inverse_maps (map_of (updated_real_to_internal m)) (map_of (updated_internal_to_real m))"
    using ok by (simp add: id_map_ok_def)
  then have g: "map_of (updated_internal_to_real m) i = Some r"
    using Some by (simp add: inverse_mapsD)
  with ok have "is_update_id i" by (auto simp: id_map_ok_def)
  moreover have "resolve_internal m r = i"
    using ok Some by (simp add: id_map_ok_def resolve_internal_spec)
  ultimately show "resolve_real m (resolve_internal m r) = r"
    using g by (simp add: resolve_real_def is_update_iff_not_direct)
qed

lemma resolve_internal_inj:
  "id_map_ok m \<Longrightarrow> is_direct_id r \<Longrightarrow> is_direct_id r' \<Longrightarrow>
    resolve_internal m r = resolve_internal m r' \<Longrightarrow> r = r'"
  by (metis resolve_real_internal)

subsection \<open>Reachable states\<close>

text \<open>
  The steps the database drives the maps with: an update allocates an id and records it, a delete
  tombstones and forgets, replay observes ids it reads in the log. The counter must not wrap.
\<close>

definition update_step :: "(real \<Rightarrow> real) \<Rightarrow> real_id \<Rightarrow> id_map \<Rightarrow> id_map" where
  "update_step lg r m = (case allocate_update_id m of (i, m') \<Rightarrow> record_update_mapping lg r i m')"

inductive id_step :: "(real \<Rightarrow> real) \<Rightarrow> id_map \<Rightarrow> id_map \<Rightarrow> bool" for lg where
  allocate: "next_update_internal_id m \<noteq> - 1 \<Longrightarrow> id_step lg m (snd (allocate_update_id m))"
| update: "next_update_internal_id m \<noteq> - 1 \<Longrightarrow> id_step lg m (update_step lg r m)"
| tombstone: "id_step lg m (tombstone i m)"
| forget: "id_step lg m (forget_update_mapping r m)"
| observe: "i \<noteq> - 1 \<Longrightarrow> id_step lg m (observe_update_id i m)"

inductive id_reachable :: "(real \<Rightarrow> real) \<Rightarrow> id_map \<Rightarrow> bool" for lg where
  init: "id_reachable lg (id_map_init lg)"
| step: "id_reachable lg m \<Longrightarrow> id_step lg m m' \<Longrightarrow> id_reachable lg m'"

inductive_cases id_stepE: "id_step lg m m'"

lemma fresh_next: "id_map_ok m \<Longrightarrow> map_of (updated_internal_to_real m) (next_update_internal_id m) = None"
  by (rule ccontr) (force simp: id_map_ok_def)

lemma next_is_update: "id_reachable lg m \<Longrightarrow> is_update_id (next_update_internal_id m)"
proof (induction rule: id_reachable.induct)
  case init
  show ?case using id_ranges(3) by (simp add: id_map_init_def)
next
  case (step m m')
  have up: "is_update_id (i + 1)" if "is_update_id i" "i \<noteq> - 1" for i
    using that word_less_plus_1 [of i] unfolding is_update_le by (meson order.strict_implies_order order.trans)
  from step.hyps(2) step.IH show ?case
  proof (cases rule: id_step.cases)
    case (update r)
    then show ?thesis
      using step.IH up by (simp add: update_step_def allocate_update_id_def record_fields)
  next
    case (observe i)
    then show ?thesis
      using step.IH up is_update_le by (auto simp: observe_update_id_def)
  qed (use up in \<open>auto simp: allocate_update_id_def tombstone_def\<close>)
qed

lemma observe_ok: "id_map_ok m \<Longrightarrow> i \<noteq> - 1 \<Longrightarrow> id_map_ok (observe_update_id i m)"
  using word_less_plus_1 [of i] unfolding observe_update_id_def
  by (auto simp: id_map_ok_def bloom_covers_def dest!: bspec)

lemma id_step_ok:
  assumes "id_step lg m m'" "id_map_ok m" "is_update_id (next_update_internal_id m)"
  shows "id_map_ok m'"
  using assms(1)
proof (cases rule: id_step.cases)
  case allocate
  then show ?thesis using allocate_ok(1) [OF assms(2) prod.collapse [symmetric]] by simp
next
  case (update r)
  let ?i = "next_update_internal_id m" and ?m1 = "snd (allocate_update_id m)"
  have al: "allocate_update_id m = (?i, ?m1)" by (simp add: allocate_update_id_def)
  note a = allocate_ok [OF assms(2) al update(2)]
  have "map_of (updated_internal_to_real ?m1) ?i = None"
    using fresh_next [OF assms(2)] by (simp add: allocate_update_id_def)
  with a assms(3) have "id_map_ok (record_update_mapping lg r ?i ?m1)"
    by (intro record_ok) auto
  then show ?thesis unfolding update(1) update_step_def by (subst al) simp
qed (use assms in \<open>auto intro: tombstone_ok forget_ok observe_ok\<close>)

lemma id_reachable_ok: "id_reachable lg m \<Longrightarrow> id_map_ok m"
  by (induction rule: id_reachable.induct) (auto intro: id_map_init_ok id_step_ok next_is_update)

text \<open>C17: In every state the id maps can reach, translating a caller's id to its internal id and
  back is the identity, two callers' ids never share an internal id, and the internal id of an
  updated key is one the counter has already passed.\<close>

theorem id_map_bijective:
  assumes "id_reachable lg m" "is_direct_id r" "is_direct_id r'"
  shows "resolve_real m (resolve_internal m r) = r
    \<and> (resolve_internal m r = resolve_internal m r' \<longrightarrow> r = r')
    \<and> (resolve_internal m r \<noteq> r \<longrightarrow> is_update_id (resolve_internal m r)
        \<and> resolve_internal m r < next_update_internal_id m)"
proof -
  note ok = id_reachable_ok [OF assms(1)]
  have "resolve_internal m r \<noteq> r \<Longrightarrow> is_update_id (resolve_internal m r)
      \<and> resolve_internal m r < next_update_internal_id m"
    using ok resolve_internal_spec [of m r]
    by (auto simp: id_map_ok_def dest: inverse_mapsD split: option.splits)
  with resolve_real_internal [OF ok assms(2)] resolve_internal_inj [OF ok assms(2,3)] show ?thesis
    by blast
qed

theorem id_map_bijective_witness:
  "\<exists>m. id_reachable (\<lambda>_. - 1) m
    \<and> resolve_real m (resolve_internal m 5) = 5 \<and> resolve_internal m 5 = kFirstUpdateId"
proof -
  define m0 where "m0 = id_map_init (\<lambda>_. - 1)"
  let ?m = "update_step (\<lambda>_. - 1) 5 m0"
  have n: "next_update_internal_id m0 = kFirstUpdateId" by (simp add: m0_def id_map_init_def)
  have r: "id_reachable (\<lambda>_. - 1) ?m"
    by (rule id_reachable.step [OF id_reachable.init])
      (fold m0_def, rule id_step.update, simp add: n kFirstUpdateId_val)
  have c: "bloom_covers (m0\<lparr>next_update_internal_id := x\<rparr>)" for x
    using id_map_init_ok [of "\<lambda>_. - 1", folded m0_def] by (simp add: id_map_ok_def bloom_covers_def)
  have "resolve_internal ?m 5 = kFirstUpdateId"
    using resolve_after_record [OF c, of "\<lambda>_. - 1" 5 kFirstUpdateId _ 5]
    by (simp add: update_step_def allocate_update_id_def n)
  with r id_map_bijective [OF r, of 5 5] show ?thesis by (auto simp: is_direct_unat)
qed

end
