(* ===== verification/Varint.thy ===== *)
theory Varint
  imports Ids
begin

text \<open>
  The neighbour-list encoding of the edge cache (\<open>encodeInto\<close> and \<open>decodeInto\<close> of
  \<open>EdgeLRUCache\<close> in \<open>include/astervec_index.h\<close>): LEB128 varints, or raw 8-byte ids when the
  environment switch turns varints off (the argument \<open>varint\<close>).
\<close>

function varint_put :: "u64 \<Rightarrow> bytes" where
  "varint_put v =
     (if v \<ge> 0x80 then (ucast v OR 0x80) # varint_put (drop_bit 7 v) else [ucast v])"
  by pat_completeness auto
termination
proof (relation "measure unat", goal_cases)
  case 1
  show ?case by simp
next
  case (2 v)
  then have "0 < unat v" by (auto simp: word_le_nat_alt)
  then show ?case
    by (simp add: drop_bit_eq_div unat_div_distrib)
qed

declare varint_put.simps [simp del]

fun varint_get :: "bytes \<Rightarrow> u64 \<Rightarrow> nat \<Rightarrow> (u64 \<times> bytes) option" where
  "varint_get [] v shift = None"
| "varint_get (b # bs) v shift =
     (if b AND 0x80 \<noteq> 0 then varint_get bs (v OR push_bit shift (ucast (b AND 0x7F))) (shift + 7)
      else Some (v OR push_bit shift (ucast b), bs))"

lemma varint_get_shorter: "varint_get bs v s = Some (w, rest) \<Longrightarrow> length rest < length bs"
  by (induction bs v s rule: varint_get.induct) (auto split: if_splits)

function varint_get_all :: "bytes \<Rightarrow> u64 list option" where
  "varint_get_all bs =
     (if bs = [] then Some []
      else case varint_get bs 0 0 of
        None \<Rightarrow> None
      | Some (v, rest) \<Rightarrow> (case varint_get_all rest of None \<Rightarrow> None | Some vs \<Rightarrow> Some (v # vs)))"
  by pat_completeness auto
termination
  by (relation "measure length") (auto dest: varint_get_shorter)

declare varint_get_all.simps [simp del]

definition edge_encode :: "bool \<Rightarrow> node_id list \<Rightarrow> bytes" where
  "edge_encode varint ids = concat (map (if varint then varint_put else put_le 8) ids)"

function raw_get_all :: "bytes \<Rightarrow> u64 list" where
  "raw_get_all bs = (if length bs < 8 then [] else get_le (take 8 bs) # raw_get_all (drop 8 bs))"
  by pat_completeness auto
termination
  by (relation "measure length") auto

declare raw_get_all.simps [simp del]

text \<open>Reading past the end of a truncated varint is undefined in the code: no result here.\<close>

definition edge_decode :: "bool \<Rightarrow> bytes \<Rightarrow> node_id list option" where
  "edge_decode varint enc = (if varint then varint_get_all enc else Some (raw_get_all enc))"

subsection \<open>Round trip\<close>

lemma byte_split_low7:
  fixes v :: u64
  shows "ucast ((ucast v OR 0x80) AND 0x7F :: byte) = v AND 0x7F"
    and "(ucast v OR 0x80 :: byte) AND 0x80 \<noteq> 0"
proof -
  have m7: "bit (0x7F :: 'a::len word) n \<longleftrightarrow> n < 7 \<and> n < LENGTH('a)" for n
  proof -
    have "bit (mask 7 :: 'a word) n \<longleftrightarrow> n < 7 \<and> n < LENGTH('a)" by (auto simp: bit_mask_iff)
    moreover have "(mask 7 :: 'a word) = 0x7F" by (simp add: mask_eq_exp_minus_1)
    ultimately show ?thesis by (simp only:)
  qed
  have b80: "bit (0x80 :: byte) n \<longleftrightarrow> n = 7" for n
    using bit_exp_iff [where 'a = byte, of 7 n] by auto
  show "ucast ((ucast v OR 0x80) AND 0x7F :: byte) = v AND 0x7F"
    by (rule bit_word_eqI) (auto simp only: bit_and_iff m7 b80 bit_or_iff bit_ucast_iff; simp)
  have "bit ((ucast v OR 0x80 :: byte) AND 0x80) 7"
    by (simp only: bit_and_iff bit_or_iff b80) simp
  then show "(ucast v OR 0x80 :: byte) AND 0x80 \<noteq> 0" by (metis bit_0_eq bot_apply bot_bool_def)
qed

lemma small_byte:
  fixes v :: u64
  assumes "\<not> 0x80 \<le> v"
  shows "ucast (ucast v :: byte) = v" and "(ucast v :: byte) AND 0x80 = 0"
proof -
  have u: "unat v < 128" using assms by (simp add: word_le_nat_alt)
  have small: "\<not> bit v n" if "7 \<le> n" for n
  proof
    assume "bit v n"
    then have "odd (unat v div 2 ^ n)" by (simp add: bit_iff_odd [symmetric] bit_unsigned_iff)
    then have "2 ^ n \<le> unat v" by (metis div_less even_zero linorder_not_less)
    moreover have "(2 :: nat) ^ 7 \<le> 2 ^ n" using that by (intro power_increasing) auto
    ultimately show False using u by simp
  qed
  show "ucast (ucast v :: byte) = v"
    by (rule bit_word_eqI) (use small in \<open>auto simp: bit_ucast_iff not_less intro: ccontr\<close>)
  have b80: "bit (0x80 :: byte) n \<longleftrightarrow> n = 7" for n
    using bit_exp_iff [where 'a = byte, of 7 n] by auto
  show "(ucast v :: byte) AND 0x80 = 0"
    unfolding word_bit_zero_iff by (auto simp only: bit_and_iff b80 bit_ucast_iff small)
qed

lemma low7_or_high: "(v AND 0x7F) OR push_bit 7 (drop_bit 7 v) = (v :: u64)"
proof (rule bit_word_eqI)
  fix n assume "n < LENGTH(64)"
  have m7: "bit (0x7F :: u64) n \<longleftrightarrow> n < 7"
  proof -
    have "bit (mask 7 :: u64) n \<longleftrightarrow> n < 7" by (auto simp: bit_mask_iff)
    moreover have "(mask 7 :: u64) = 0x7F" by (simp add: mask_eq_exp_minus_1)
    ultimately show ?thesis by (simp only:)
  qed
  show "bit ((v AND 0x7F) OR push_bit 7 (drop_bit 7 v)) n \<longleftrightarrow> bit v n"
    using \<open>n < LENGTH(64)\<close>
    by (auto simp only: bit_or_iff bit_and_iff m7 bit_push_bit_iff bit_drop_bit_eq comp_apply
        possible_bit_word le_add_diff_inverse not_le)
qed

lemma varint_get_put:
  "varint_get (varint_put v @ rest) acc s = Some (acc OR push_bit s v, rest)"
proof (induction v arbitrary: acc s rule: varint_put.induct)
  case (1 v)
  show ?case
  proof (cases "v \<ge> 0x80")
    case True
    have "push_bit s (v AND 0x7F) OR push_bit (s + 7) (drop_bit 7 v)
        = push_bit s ((v AND 0x7F) OR push_bit 7 (drop_bit 7 v))"
      by (simp only: push_bit_or push_bit_push_bit add.commute)
    then have eq: "push_bit s (v AND 0x7F) OR push_bit (s + 7) (drop_bit 7 v) = push_bit s v"
      by (simp only: low7_or_high)
    show ?thesis
      using True 1 [OF True]
      by (subst varint_put.simps) (simp add: byte_split_low7 or.assoc eq del: push_bit_and push_bit_or)
  next
    case False
    then show ?thesis by (subst varint_put.simps) (simp add: small_byte)
  qed
qed

lemma varint_put_nonempty: "varint_put v \<noteq> []"
  by (subst varint_put.simps) simp

lemma varint_get_all_put: "varint_get_all (concat (map varint_put ids)) = Some ids"
proof (induction ids)
  case Nil
  show ?case by (subst varint_get_all.simps) simp
next
  case (Cons v ids)
  then show ?case
    by (subst varint_get_all.simps) (simp add: varint_put_nonempty varint_get_put)
qed

lemma raw_get_all_put: "raw_get_all (concat (map (put_le 8) ids)) = ids"
proof (induction ids)
  case Nil
  show ?case by (subst raw_get_all.simps) simp
next
  case (Cons v ids)
  then show ?case by (subst raw_get_all.simps) simp
qed

lemma edge_decode_encode [simp]: "edge_decode varint (edge_encode varint ids) = Some ids"
  by (simp add: edge_decode_def edge_encode_def varint_get_all_put raw_get_all_put)

text \<open>Ids below \<open>2 ^ 28\<close> take at most four bytes, half of the raw form.\<close>

lemma varint_put_length: "unat v < 128 ^ n \<Longrightarrow> 0 < n \<Longrightarrow> length (varint_put v) \<le> n"
proof (induction v arbitrary: n rule: varint_put.induct)
  case (1 v)
  show ?case
  proof (cases "v \<ge> 0x80")
    case True
    then have big: "128 \<le> unat v" by (simp add: word_le_nat_alt)
    with "1.prems" obtain m where n: "n = Suc m" "0 < m"
      by (cases n; cases "n = 1") auto
    have "unat (drop_bit 7 v) = unat v div 128"
      by (simp add: drop_bit_eq_div unat_div_distrib)
    then have "unat (drop_bit 7 v) < 128 ^ m"
      using "1.prems" n by (simp add: less_mult_imp_div_less)
    with "1.IH" [OF True] n True show ?thesis by (subst varint_put.simps) auto
  next
    case False
    with "1.prems" show ?thesis by (subst varint_put.simps) simp
  qed
qed

end
