(* ===== verification/Probe_Table.thy ===== *)
theory Probe_Table
  imports Ids
begin

text \<open>
  The id-to-slot table of an edge-cache shard (\<open>hhash\<close>, \<open>find\<close>, \<open>hinsert\<close>, \<open>herase\<close> of
  \<open>EdgeLRUCache::Shard\<close>, \<open>include/astervec_index.h\<close>): open addressing with a Fibonacci hash,
  linear probing and backward-shift deletion over a power-of-two table. The loops take fuel, \<open>None\<close>
  being a loop that has not ended; \<open>table_ok\<close> (every entry is reachable from its home position, keys
  are distinct, one position is empty) makes the table's size enough fuel. The proofs work on the
  cyclic distance \<open>cdist\<close> between positions.
\<close>

text \<open>\<open>EdgeLRUCache::kInvalid\<close>.\<close>

definition kInvalid :: nat where
  "kInvalid = 0xFFFFFFFF"

record probe_table =
  hkeys :: "node_id list"
  hvals :: "nat list"
  hmask :: u64

definition hhash :: "u64 \<Rightarrow> node_id \<Rightarrow> u64" where
  "hhash msk nid = drop_bit 32 (nid * 0x9E3779B97F4A7C15) AND msk"

fun probe_from :: "nat \<Rightarrow> node_id list \<Rightarrow> u64 \<Rightarrow> node_id \<Rightarrow> u64 \<Rightarrow> u64 option" where
  "probe_from 0 keys msk nid i = None"
| "probe_from (Suc fuel) keys msk nid i =
     (if keys ! unat i = k_invalid_node_id \<or> keys ! unat i = nid then Some i
      else probe_from fuel keys msk nid ((i + 1) AND msk))"

definition ht_find :: "probe_table \<Rightarrow> node_id \<Rightarrow> nat option" where
  "ht_find t nid =
     (case probe_from (length (hkeys t)) (hkeys t) (hmask t) nid (hhash (hmask t) nid) of
        None \<Rightarrow> None
      | Some i \<Rightarrow> Some (if hkeys t ! unat i \<noteq> k_invalid_node_id then hvals t ! unat i else kInvalid))"

definition ht_insert :: "node_id \<Rightarrow> nat \<Rightarrow> probe_table \<Rightarrow> probe_table option" where
  "ht_insert nid val t =
     (case probe_from (length (hkeys t)) (hkeys t) (hmask t) nid (hhash (hmask t) nid) of
        None \<Rightarrow> None
      | Some i \<Rightarrow>
          Some (if hkeys t ! unat i \<noteq> k_invalid_node_id then t\<lparr>hvals := (hvals t)[unat i := val]\<rparr>
                else t\<lparr>hkeys := (hkeys t)[unat i := nid], hvals := (hvals t)[unat i := val]\<rparr>))"

fun shift_loop ::
  "nat \<Rightarrow> u64 \<Rightarrow> node_id list \<Rightarrow> nat list \<Rightarrow> u64 \<Rightarrow> u64 \<Rightarrow> (node_id list \<times> nat list \<times> u64) option" where
  "shift_loop 0 msk keys vals i j = None"
| "shift_loop (Suc fuel) msk keys vals i j0 =
     (let j = (j0 + 1) AND msk in
      if keys ! unat j = k_invalid_node_id then Some (keys, vals, i)
      else let home = hhash msk (keys ! unat j) in
        if (j - home) AND msk \<ge> (j - i) AND msk
        then shift_loop fuel msk (keys[unat i := keys ! unat j]) (vals[unat i := vals ! unat j]) j j
        else shift_loop fuel msk keys vals i j)"

definition ht_erase :: "node_id \<Rightarrow> probe_table \<Rightarrow> probe_table option" where
  "ht_erase nid t =
     (case probe_from (length (hkeys t)) (hkeys t) (hmask t) nid (hhash (hmask t) nid) of
        None \<Rightarrow> None
      | Some i \<Rightarrow>
          if hkeys t ! unat i = k_invalid_node_id then Some t
          else (case shift_loop (length (hkeys t)) (hmask t) (hkeys t) (hvals t) i i of
                  None \<Rightarrow> None
                | Some (keys, vals, h) \<Rightarrow>
                    Some (t\<lparr>hkeys := keys[unat h := k_invalid_node_id], hvals := vals\<rparr>)))"

text \<open>The capacity loop of \<open>Shard::init\<close>.\<close>

function hcap_loop :: "nat \<Rightarrow> nat \<Rightarrow> nat" where
  "hcap_loop hcap want = (if 0 < hcap \<and> hcap < want then hcap_loop (hcap * 2) want else hcap)"
  by pat_completeness auto
termination
  by (relation "measure (\<lambda>(hcap, want). want - hcap)") auto

declare hcap_loop.simps [simp del]

definition ht_init :: "nat \<Rightarrow> probe_table" where
  "ht_init capacity =
     (let want = (if capacity < 8 then 16 else capacity * 2); hcap = hcap_loop 1 want
      in \<lparr>hkeys = replicate hcap k_invalid_node_id, hvals = replicate hcap 0, hmask = of_nat (hcap - 1)\<rparr>)"

subsection \<open>Cyclic distance\<close>

definition cdist :: "nat \<Rightarrow> nat \<Rightarrow> nat \<Rightarrow> nat" where
  "cdist N i j = (if i \<le> j then j - i else j + N - i)"

definition cnext :: "nat \<Rightarrow> nat \<Rightarrow> nat" where
  "cnext N j = (if Suc j = N then 0 else Suc j)"

lemma cnext_less: "j < N \<Longrightarrow> cnext N j < N"
  by (auto simp: cnext_def)

lemma cdist_less: "i < N \<Longrightarrow> j < N \<Longrightarrow> cdist N i j < N"
  by (auto simp: cdist_def)

lemma cdist_0_iff: "i < N \<Longrightarrow> j < N \<Longrightarrow> cdist N i j = 0 \<longleftrightarrow> i = j"
  by (auto simp: cdist_def)

lemma cdist_inject: "i < N \<Longrightarrow> j < N \<Longrightarrow> k < N \<Longrightarrow> cdist N i j = cdist N i k \<longleftrightarrow> j = k"
  by (auto simp: cdist_def)

lemma cdist_next: "i < N \<Longrightarrow> j < N \<Longrightarrow> cnext N j \<noteq> i \<Longrightarrow> cdist N i (cnext N j) = Suc (cdist N i j)"
  by (auto simp: cdist_def cnext_def)

lemma cdist_next_left: "i < N \<Longrightarrow> j < N \<Longrightarrow> i \<noteq> j \<Longrightarrow> cdist N i j = Suc (cdist N (cnext N i) j)"
  by (auto simp: cdist_def cnext_def)

lemma cdist_trans:
  "h < N \<Longrightarrow> i < N \<Longrightarrow> p < N \<Longrightarrow> cdist N h i \<le> cdist N h p \<longleftrightarrow>
    cdist N h p = cdist N h i + cdist N i p"
  by (auto simp: cdist_def)

lemma cdist_between:
  "h < N \<Longrightarrow> i < N \<Longrightarrow> p < N \<Longrightarrow> e < N \<Longrightarrow> cdist N h i < cdist N h p \<Longrightarrow>
    cdist N i e < cdist N i p \<Longrightarrow> cdist N h e < cdist N h p"
  by (auto simp: cdist_def split: if_splits)

subsection \<open>Abstract tables\<close>

text \<open>
  An abstract table is a function from positions to entries; \<open>reach_ok\<close> with a hole \<open>i\<close> says
  that probing from an entry's home meets no empty position but \<open>i\<close> before the entry.
\<close>

definition reach_ok :: "nat \<Rightarrow> ('e \<Rightarrow> nat) \<Rightarrow> (nat \<Rightarrow> 'e option) \<Rightarrow> (nat \<Rightarrow> bool) \<Rightarrow> bool" where
  "reach_ok N home T hole \<longleftrightarrow> (\<forall>p < N. \<forall>x. T p = Some x \<longrightarrow> home x < N \<and>
     (\<forall>q < N. cdist N (home x) q < cdist N (home x) p \<longrightarrow> T q \<noteq> None \<or> hole q))"

definition shift_inv :: "nat \<Rightarrow> ('e \<Rightarrow> nat) \<Rightarrow> (nat \<Rightarrow> 'e option) \<Rightarrow> nat \<Rightarrow> nat \<Rightarrow> bool" where
  "shift_inv N home T i j \<longleftrightarrow> i < N \<and> j < N \<and> T i = None \<and> reach_ok N home T (\<lambda>q. q = i)
     \<and> (\<forall>p < N. 0 < cdist N i p \<and> cdist N i p \<le> cdist N i j \<longrightarrow>
          (\<exists>x. T p = Some x \<and> \<not> cdist N (home x) i < cdist N (home x) p))"

lemma shift_start:
  assumes "reach_ok N home T (\<lambda>_. False)" "i < N"
  shows "shift_inv N home (T(i := None)) i i"
  using assms by (auto simp: shift_inv_def reach_ok_def cdist_def)

lemma shift_stop:
  assumes inv: "shift_inv N home T i j" and e: "T (cnext N j) = None"
  shows "reach_ok N home T (\<lambda>_. False)"
  unfolding reach_ok_def
proof (intro allI impI conjI)
  fix p x
  assume p: "p < N" "T p = Some x"
  from inv have ij: "i < N" "j < N" "T i = None" and reach: "reach_ok N home T (\<lambda>q. q = i)"
    and scan: "\<And>p. p < N \<Longrightarrow> 0 < cdist N i p \<Longrightarrow> cdist N i p \<le> cdist N i j \<Longrightarrow>
      \<exists>x. T p = Some x \<and> \<not> cdist N (home x) i < cdist N (home x) p"
    by (auto simp: shift_inv_def)
  from reach p show h: "home x < N" by (simp add: reach_ok_def)
  fix q assume q: "q < N" "cdist N (home x) q < cdist N (home x) p"
  from reach p q have "T q \<noteq> None \<or> q = i" by (simp add: reach_ok_def)
  moreover have False if "q = i"
  proof -
    have "p \<noteq> i" using p ij by auto
    then have pos: "0 < cdist N i p" using p ij cdist_0_iff [of i N p] by auto
    show False
    proof (cases "cdist N i p \<le> cdist N i j")
      case True
      with scan [OF p(1) pos] p q that show False by auto
    next
      case False
      let ?e = "cnext N j"
      have "?e \<noteq> p" using e p by auto
      have eN: "?e < N" using ij cnext_less by auto
      have "cdist N i ?e < cdist N i p"
      proof (cases "?e = i")
        case True
        with ij have "cdist N i ?e = 0" by (simp add: cdist_def)
        with pos show ?thesis by simp
      next
        case nz: False
        then have "cdist N i ?e = Suc (cdist N i j)" using ij by (intro cdist_next) auto
        with False \<open>?e \<noteq> p\<close> show ?thesis
          using cdist_inject [of i N p ?e] p(1) eN ij(1) by (metis Suc_leI le_neq_implies_less not_le)
      qed
      then have lt: "cdist N (home x) ?e < cdist N (home x) p"
        using cdist_between [of "home x" N i p ?e] h ij p(1) eN q that by auto
      with reach p eN have "T ?e \<noteq> None \<or> ?e = i" by (simp add: reach_ok_def)
      with e have "?e = i" by auto
      then have "Suc (cdist N i j) = N" using ij by (auto simp: cdist_def cnext_def split: if_splits)
      moreover have "cdist N i p < N" using cdist_less ij(1) p(1) by auto
      ultimately show False using False by simp
    qed
  qed
  ultimately show "T q \<noteq> None \<or> False" by auto
qed

lemma shift_skip:
  assumes inv: "shift_inv N home T i j" and y: "T (cnext N j) = Some y" and ne: "cnext N j \<noteq> i"
    and c: "\<not> cdist N (home y) (cnext N j) \<ge> cdist N i (cnext N j)"
  shows "shift_inv N home T i (cnext N j)"
proof -
  let ?e = "cnext N j"
  from inv have ij: "i < N" "j < N" by (auto simp: shift_inv_def)
  then have e: "?e < N" "cdist N i ?e = Suc (cdist N i j)"
    using cnext_less ne by (auto intro!: cdist_next)
  from inv y e have h: "home y < N" by (auto simp: shift_inv_def reach_ok_def)
  have "\<not> cdist N (home y) i < cdist N (home y) ?e"
    using c cdist_trans [of "home y" N i ?e] h ij(1) e(1) by auto
  moreover have "p = ?e" if "p < N" "cdist N i p = cdist N i ?e" for p
    using that cdist_inject [of i N p ?e] ij e by auto
  ultimately show ?thesis
    using inv y e unfolding shift_inv_def by (metis le_Suc_eq)
qed

lemma shift_move:
  assumes inv: "shift_inv N home T i j" and y: "T (cnext N j) = Some y"
    and c: "cdist N (home y) (cnext N j) \<ge> cdist N i (cnext N j)"
  shows "shift_inv N home (T(i := Some y, cnext N j := None)) (cnext N j) (cnext N j)"
proof -
  let ?e = "cnext N j"
  from inv have ij: "i < N" "j < N" "T i = None" and reach: "reach_ok N home T (\<lambda>q. q = i)"
    by (auto simp: shift_inv_def)
  then have e: "?e < N" "?e \<noteq> i" using cnext_less y by auto
  from reach y e have h: "home y < N" by (auto simp: reach_ok_def)
  have le: "cdist N (home y) i \<le> cdist N (home y) ?e"
    using c h ij(1) e(1) by (auto simp: cdist_def split: if_splits)
  have "reach_ok N home (T(i := Some y, ?e := None)) (\<lambda>q. q = ?e)"
    unfolding reach_ok_def
  proof (intro allI impI conjI)
    fix p x assume p: "p < N" and x: "(T(i := Some y, ?e := None)) p = Some x"
    then show "home x < N" using reach h by (auto simp: reach_ok_def split: if_splits)
    fix q assume q: "q < N" "cdist N (home x) q < cdist N (home x) p"
    show "(T(i := Some y, ?e := None)) q \<noteq> None \<or> q = ?e"
    proof (cases "p = i")
      case True
      with x e have "x = y" by auto
      with q True le have "cdist N (home y) q < cdist N (home y) ?e" by simp
      with reach y e q have "T q \<noteq> None \<or> q = i" by (auto simp: reach_ok_def)
      then show ?thesis by auto
    next
      case False
      with x have "T p = Some x" by (auto split: if_splits)
      with reach p q have "T q \<noteq> None \<or> q = i" by (auto simp: reach_ok_def)
      then show ?thesis by auto
    qed
  qed
  moreover have "cdist N ?e ?e = 0" by (simp add: cdist_def)
  ultimately show ?thesis
    using e by (auto simp: shift_inv_def)
qed

definition entries :: "nat \<Rightarrow> (nat \<Rightarrow> 'e option) \<Rightarrow> 'e set" where
  "entries N T = {x. \<exists>p < N. T p = Some x}"

definition apart :: "nat \<Rightarrow> (nat \<Rightarrow> ('k \<times> 'v) option) \<Rightarrow> bool" where
  "apart N T \<longleftrightarrow> (\<forall>p < N. \<forall>q < N. \<forall>x v w. T p = Some (x, v) \<longrightarrow> T q = Some (x, w) \<longrightarrow> p = q)"

lemma moved_from:
  assumes "(T(i := Some y, j := None)) p = Some x" "T j = Some y" "j < N" "p < N"
  shows "p \<noteq> j" "T (if p = i then j else p) = Some x" "(if p = i then j else p) < N"
  using assms by (auto split: if_splits)

lemma entries_move:
  assumes "i < N" "j < N" "T i = None" "T j = Some y"
  shows "entries N (T(i := Some y, j := None)) = entries N T"
proof
  show "entries N (T(i := Some y, j := None)) \<subseteq> entries N T"
  proof
    fix x assume "x \<in> entries N (T(i := Some y, j := None))"
    then obtain p where p: "p < N" "(T(i := Some y, j := None)) p = Some x"
      unfolding entries_def by blast
    show "x \<in> entries N T"
      using moved_from(2,3) [where T = T and i = i and j = j and y = y, OF p(2) assms(4,2) p(1)]
      unfolding entries_def by blast
  qed
  show "entries N T \<subseteq> entries N (T(i := Some y, j := None))"
  proof
    fix x assume "x \<in> entries N T"
    then obtain p where p: "p < N" "T p = Some x" by (auto simp: entries_def)
    then have "(T(i := Some y, j := None)) (if p = j then i else p) = Some x"
      using assms by auto
    moreover have "(if p = j then i else p) < N" using p assms by simp
    ultimately show "x \<in> entries N (T(i := Some y, j := None))" unfolding entries_def by blast
  qed
qed

lemma apart_move:
  assumes ap: "apart N T" and "j < N" "T i = None" "T j = Some y"
  shows "apart N (T(i := Some y, j := None))"
  unfolding apart_def
proof (intro allI impI)
  fix p q x v w
  assume p: "p < N" "(T(i := Some y, j := None)) p = Some (x, v)"
    and q: "q < N" "(T(i := Some y, j := None)) q = Some (x, w)"
  note mp = moved_from [where T = T and i = i and j = j and y = y, OF p(2) assms(4,2) p(1)]
    and mq = moved_from [where T = T and i = i and j = j and y = y, OF q(2) assms(4,2) q(1)]
  have "(if p = i then j else p) = (if q = i then j else q)"
    using ap mp(2,3) mq(2,3) unfolding apart_def by blast
  then show "p = q" using mp(1) mq(1) by (auto split: if_splits)
qed

lemma apart_erase: "apart N T \<Longrightarrow> apart N (T(i := None))"
  unfolding apart_def by auto

lemma apart_insert:
  "apart N T \<Longrightarrow> (\<forall>v. (x, v) \<notin> entries N T) \<Longrightarrow> apart N (T(i := Some (x, w)))"
  unfolding apart_def entries_def by auto

lemma reach_ok_insert:
  assumes "reach_ok N home T (\<lambda>_. False)" "home x < N"
    and "\<And>q. q < N \<Longrightarrow> cdist N (home x) q < cdist N (home x) i \<Longrightarrow> T q \<noteq> None"
  shows "reach_ok N home (T(i := Some x)) (\<lambda>_. False)"
  using assms unfolding reach_ok_def by auto

text \<open>An entry's home position depends on its key only, so overwriting a value keeps the order.\<close>

lemma reach_ok_value:
  assumes "reach_ok N home T (\<lambda>_. False)" "T i = Some y" "home x = home y"
  shows "reach_ok N home (T(i := Some x)) (\<lambda>_. False)"
  using assms unfolding reach_ok_def by auto

subsection \<open>From words to positions\<close>

definition pow2_size :: "nat \<Rightarrow> u64 \<Rightarrow> bool" where
  "pow2_size N msk \<longleftrightarrow> (\<exists>k \<le> 63. N = 2 ^ k \<and> msk = mask k)"

lemma unat_and_msk:
  assumes "pow2_size N msk"
  shows "unat (w AND msk) = unat w mod N"
proof -
  from assms obtain k where k: "k \<le> 63" "N = 2 ^ k" "msk = mask k" by (auto simp: pow2_size_def)
  have "unat (w AND msk) = unat (take_bit k w)" by (simp add: k take_bit_eq_mask)
  also have "\<dots> = unat w mod 2 ^ k" by (simp only: unsigned_take_bit_eq) (simp only: take_bit_eq_mod)
  finally show ?thesis by (simp add: k)
qed

lemma pow2_size_pos:
  assumes "pow2_size N msk"
  shows "0 < N" "N dvd 2 ^ 64" "N \<le> 2 ^ 63"
proof -
  from assms obtain k where k: "k \<le> 63" "N = 2 ^ k" by (auto simp: pow2_size_def)
  then show "0 < N" by simp
  from k show "N dvd 2 ^ 64" using le_imp_power_dvd [of k 64 "2 :: nat"] by simp
  from k show "N \<le> 2 ^ 63" by (metis one_le_numeral power_increasing)
qed

lemma unat_next:
  assumes "pow2_size N msk" "unat i < N"
  shows "unat ((i + 1) AND msk) = cnext N (unat i)"
proof -
  have "unat i < 2 ^ 63" using pow2_size_pos(3) [OF assms(1)] assms(2) by linarith
  then have "unat (i + 1) = Suc (unat i)"
    by (subst unat_word_ariths(1)) simp
  then show ?thesis using assms by (simp add: unat_and_msk cnext_def)
qed

lemma unat_dist:
  assumes "pow2_size N msk" "unat h < N" "unat j < N"
  shows "unat ((j - h) AND msk) = cdist N (unat h) (unat j)"
proof (cases "h \<le> j")
  case True
  then have "unat (j - h) = unat j - unat h" by (rule unat_sub)
  then show ?thesis
    using True assms by (auto simp: unat_and_msk cdist_def word_le_nat_alt)
next
  case False
  then have hj: "unat j < unat h" by (simp add: word_le_nat_alt)
  from pow2_size_pos(2) [OF assms(1)] obtain c where c: "2 ^ 64 = N * c" by (rule dvdE)
  obtain d where d: "c = Suc d" using c by (cases c) auto
  have "unat (j - h) = unat j + 2 ^ 64 - unat h"
    using False unat_sub_if' [of j h] by (simp add: word_le_nat_alt)
  also have "\<dots> = (unat j + N - unat h) + N * d"
    using assms(2) hj unfolding c d by simp
  finally have "unat (j - h) mod N = (unat j + N - unat h) mod N" by simp
  also have "\<dots> = unat j + N - unat h" using hj assms by (simp add: mod_less)
  finally show ?thesis using assms hj by (simp add: unat_and_msk cdist_def)
qed

subsection \<open>The table operations\<close>

definition tab :: "node_id list \<Rightarrow> nat list \<Rightarrow> nat \<Rightarrow> (node_id \<times> nat) option" where
  "tab keys vals p = (if keys ! p = k_invalid_node_id then None else Some (keys ! p, vals ! p))"

definition home_of :: "u64 \<Rightarrow> node_id \<times> nat \<Rightarrow> nat" where
  "home_of msk x = unat (hhash msk (fst x))"

definition table_ok :: "probe_table \<Rightarrow> bool" where
  "table_ok t \<longleftrightarrow> pow2_size (length (hkeys t)) (hmask t) \<and> length (hvals t) = length (hkeys t)
     \<and> reach_ok (length (hkeys t)) (home_of (hmask t)) (tab (hkeys t) (hvals t)) (\<lambda>_. False)
     \<and> apart (length (hkeys t)) (tab (hkeys t) (hvals t))"

definition ht_map :: "probe_table \<Rightarrow> node_id \<Rightarrow> nat option" where
  "ht_map t = map_of (filter (\<lambda>(k, _). k \<noteq> k_invalid_node_id) (zip (hkeys t) (hvals t)))"

lemma home_less: "pow2_size N msk \<Longrightarrow> home_of msk x < N"
  using pow2_size_pos(1) [of N msk] by (simp add: home_of_def hhash_def unat_and_msk)

lemma ht_map_Some:
  assumes "table_ok t"
  shows "ht_map t x = Some v \<longleftrightarrow> (x, v) \<in> entries (length (hkeys t)) (tab (hkeys t) (hvals t))"
proof -
  let ?N = "length (hkeys t)" and ?T = "tab (hkeys t) (hvals t)"
  let ?xs = "filter (\<lambda>(k, _). k \<noteq> k_invalid_node_id) (zip (hkeys t) (hvals t))"
  from assms have len: "length (hvals t) = ?N" and ap: "apart ?N ?T" by (simp_all add: table_ok_def)
  have mem: "(x, v) \<in> set ?xs \<longleftrightarrow> (x, v) \<in> entries ?N ?T" for x v
    using len by (auto simp: entries_def tab_def set_zip)
  have "(x, v) \<in> entries ?N ?T \<Longrightarrow> (x, w) \<in> entries ?N ?T \<Longrightarrow> v = w" for x v w
    proof -
    assume "(x, v) \<in> entries ?N ?T" "(x, w) \<in> entries ?N ?T"
    then obtain p q where "p < ?N" "?T p = Some (x, v)" "q < ?N" "?T q = Some (x, w)"
      unfolding entries_def by blast
    with ap show "v = w" unfolding apart_def by (metis Pair_inject option.inject)
  qed
  with mem have uniq: "(x, v) \<in> set ?xs \<Longrightarrow> (x, w) \<in> set ?xs \<Longrightarrow> v = w" for x v w by blast
  show ?thesis
  proof
    assume "ht_map t x = Some v"
    then show "(x, v) \<in> entries ?N ?T" unfolding ht_map_def using mem map_of_SomeD by metis
  next
    assume a: "(x, v) \<in> entries ?N ?T"
    then have "(x, v) \<in> set ?xs" using mem by blast
    then obtain w where w: "map_of ?xs x = Some w" by (metis weak_map_of_SomeI)
    then have "(x, w) \<in> set ?xs" by (rule map_of_SomeD)
    with \<open>(x, v) \<in> set ?xs\<close> have "v = w" by (rule uniq)
    with w show "ht_map t x = Some v" by (simp only: ht_map_def)
  qed
qed

lemma ht_map_invalid: "ht_map t k_invalid_node_id = None"
  by (auto simp: ht_map_def map_of_eq_None_iff)

text \<open>A table with fewer keys than positions has an empty position.\<close>

lemma table_has_empty:
  assumes "table_ok t" "card (dom (ht_map t)) < length (hkeys t)"
  shows "\<exists>e < length (hkeys t). hkeys t ! e = k_invalid_node_id"
proof (rule ccontr)
  assume "\<not> ?thesis"
  then have full: "tab (hkeys t) (hvals t) p = Some (hkeys t ! p, hvals t ! p)"
    if "p < length (hkeys t)" for p using that by (auto simp: tab_def)
  have "inj_on ((!) (hkeys t)) {..<length (hkeys t)}"
    using assms(1) full unfolding table_ok_def apart_def inj_on_def by (metis lessThan_iff)
  moreover have "(!) (hkeys t) ` {..<length (hkeys t)} \<subseteq> dom (ht_map t)"
  proof
    fix x assume "x \<in> (!) (hkeys t) ` {..<length (hkeys t)}"
    then obtain p where "p < length (hkeys t)" "x = hkeys t ! p" by auto
    with full have "(x, hvals t ! p) \<in> entries (length (hkeys t)) (tab (hkeys t) (hvals t))"
      by (auto simp: entries_def)
    with assms(1) show "x \<in> dom (ht_map t)" by (auto simp: ht_map_Some [symmetric])
  qed
  moreover have "finite (dom (ht_map t))" by (simp add: ht_map_def finite_dom_map_of)
  ultimately have "card {..<length (hkeys t)} \<le> card (dom (ht_map t))"
    by (metis card_inj_on_le)
  with assms(2) show False by simp
qed

lemma probe_stops:
  assumes "pow2_size (length keys) msk" "e < length keys" "keys ! e = k_invalid_node_id"
    and "unat i < length keys" "cdist (length keys) (unat i) e < fuel"
  shows "\<exists>j. probe_from fuel keys msk x i = Some j \<and> unat j < length keys
    \<and> (keys ! unat j = k_invalid_node_id \<or> keys ! unat j = x)
    \<and> (\<forall>q < length keys. cdist (length keys) (unat i) q < cdist (length keys) (unat i) (unat j) \<longrightarrow>
          keys ! q \<noteq> k_invalid_node_id \<and> keys ! q \<noteq> x)"
  using assms(4,5)
proof (induction fuel arbitrary: i)
  case 0
  then show ?case by simp
next
  case (Suc fuel)
  let ?N = "length keys" and ?i = "(i + 1) AND msk"
  show ?case
  proof (cases "keys ! unat i = k_invalid_node_id \<or> keys ! unat i = x")
    case True
    with Suc.prems show ?thesis by (intro exI [of _ i]) (auto simp: cdist_def)
  next
    case False
    with assms(3) have ne: "unat i \<noteq> e" by auto
    have i': "unat ?i = cnext ?N (unat i)" using assms(1) Suc.prems(1) by (rule unat_next)
    then have iN: "unat ?i < ?N" using Suc.prems(1) cnext_less by simp
    have "cdist ?N (unat i) e = Suc (cdist ?N (unat ?i) e)"
      unfolding i' using Suc.prems(1) assms(2) ne by (rule cdist_next_left)
    with Suc.prems(2) have "cdist ?N (unat ?i) e < fuel" by simp
    from Suc.IH [OF iN this] obtain j where j: "probe_from fuel keys msk x ?i = Some j"
      "unat j < ?N" "keys ! unat j = k_invalid_node_id \<or> keys ! unat j = x"
      and before: "\<And>q. q < ?N \<Longrightarrow> cdist ?N (unat ?i) q < cdist ?N (unat ?i) (unat j) \<Longrightarrow>
        keys ! q \<noteq> k_invalid_node_id \<and> keys ! q \<noteq> x" by blast
    have "keys ! q \<noteq> k_invalid_node_id \<and> keys ! q \<noteq> x"
      if q: "q < ?N" "cdist ?N (unat i) q < cdist ?N (unat i) (unat j)" for q
    proof (cases "q = unat i")
      case True
      with False show ?thesis by simp
    next
      case nq: False
      have "unat j \<noteq> unat i" using q by (auto simp: cdist_def)
      then have "cdist ?N (unat i) (unat j) = Suc (cdist ?N (unat ?i) (unat j))"
        unfolding i' using Suc.prems(1) j(2) by (intro cdist_next_left) auto
      moreover have "cdist ?N (unat i) q = Suc (cdist ?N (unat ?i) q)"
        unfolding i' using Suc.prems(1) q(1) nq by (intro cdist_next_left) auto
      ultimately show ?thesis using before [of q] q by simp
    qed
    with False j show ?thesis by auto
  qed
qed

lemma tab_update:
  "p < length keys \<Longrightarrow> length vals = length keys \<Longrightarrow>
    tab (keys[p := k]) (vals[p := v]) =
      (tab keys vals)(p := if k = k_invalid_node_id then None else Some (k, v))"
  by (auto simp: tab_def fun_eq_iff nth_list_update)

lemma tab_clear:
  "p < length keys \<Longrightarrow> tab (keys[p := k_invalid_node_id]) vals = (tab keys vals)(p := None)"
  by (auto simp: tab_def fun_eq_iff nth_list_update)

lemma tab_Some: "keys ! p \<noteq> k_invalid_node_id \<Longrightarrow> tab keys vals p = Some (keys ! p, vals ! p)"
  by (simp add: tab_def)

text \<open>The shift loop ends at the first empty position and keeps the entries in reach.\<close>

lemma shift_loop_ok:
  assumes "pow2_size (length keys) msk" "length vals = length keys"
    and "shift_inv (length keys) (home_of msk) ((tab keys vals)(unat i := None)) (unat i) (unat j)"
    and "apart (length keys) ((tab keys vals)(unat i := None))"
    and "keys ! unat i \<noteq> k_invalid_node_id" "e < length keys" "keys ! e = k_invalid_node_id"
    and "cdist (length keys) (unat i) (unat j) < cdist (length keys) (unat i) e"
    and "cdist (length keys) (unat j) e \<le> fuel"
  shows "\<exists>keys' vals' h. shift_loop fuel msk keys vals i j = Some (keys', vals', h)
    \<and> length keys' = length keys \<and> length vals' = length keys \<and> unat h < length keys
    \<and> reach_ok (length keys) (home_of msk) ((tab keys' vals')(unat h := None)) (\<lambda>_. False)
    \<and> apart (length keys) ((tab keys' vals')(unat h := None))
    \<and> entries (length keys) ((tab keys' vals')(unat h := None))
        = entries (length keys) ((tab keys vals)(unat i := None))"
  using assms
proof (induction fuel arbitrary: keys vals i j)
  case 0
  then have "unat j < length keys" by (simp add: shift_inv_def)
  with 0 have "unat j = e" using cdist_0_iff [of "unat j" "length keys" e] by simp
  with 0 show ?case by simp
next
  case (Suc fuel)
  let ?N = "length keys" and ?e = "(j + 1) AND msk"
  let ?T = "(tab keys vals)(unat i := None)"
  note pw = Suc.prems(1) and inv = Suc.prems(3) and ahead = Suc.prems(8)
  from inv have iN: "unat i < ?N" and jN: "unat j < ?N" by (simp_all add: shift_inv_def)
  have e': "unat ?e = cnext ?N (unat j)" using pw jN by (rule unat_next)
  with jN have eN: "unat ?e < ?N" by (simp add: cnext_less)
  have jne: "unat j \<noteq> e" using ahead by auto
  have ne: "unat ?e \<noteq> unat i"
  proof
    assume "unat ?e = unat i"
    then have "Suc (cdist ?N (unat i) (unat j)) = ?N"
      using iN jN unfolding e' by (auto simp: cdist_def cnext_def split: if_splits)
    with ahead cdist_less [OF iN Suc.prems(6)] show False by simp
  qed
  have step: "cdist ?N (unat j) e = Suc (cdist ?N (unat ?e) e)"
    unfolding e' using jN Suc.prems(6) jne by (rule cdist_next_left)
  with Suc.prems(9) have fuel: "cdist ?N (unat ?e) e \<le> fuel" by simp
  show ?case
  proof (cases "keys ! unat ?e = k_invalid_node_id")
    case True
    then have "?T (cnext ?N (unat j)) = None" by (simp add: tab_def e' [symmetric])
    with inv have "reach_ok ?N (home_of msk) ?T (\<lambda>_. False)" by (rule shift_stop)
    with True Suc.prems(2,4) iN show ?thesis by (simp del: fun_upd_apply)
  next
    case False
    let ?y = "(keys ! unat ?e, vals ! unat ?e)"
    from False ne have y: "?T (cnext ?N (unat j)) = Some ?y"
      by (simp add: tab_def e' [symmetric])
    have hN: "home_of msk ?y < ?N" using pw by (rule home_less)
    have guard: "(?e - hhash msk (keys ! unat ?e)) AND msk \<ge> (?e - i) AND msk \<longleftrightarrow>
        cdist ?N (home_of msk ?y) (unat ?e) \<ge> cdist ?N (unat i) (unat ?e)"
      using pw iN eN hN by (simp add: word_le_nat_alt unat_dist home_of_def)
    have ej: "unat ?e \<noteq> e" using False Suc.prems(7) by auto
    show ?thesis
    proof (cases "(?e - hhash msk (keys ! unat ?e)) AND msk \<ge> (?e - i) AND msk")
      case True
      let ?keys = "keys[unat i := keys ! unat ?e]" and ?vals = "vals[unat i := vals ! unat ?e]"
      have T': "(tab ?keys ?vals)(unat ?e := None) = ?T(unat i := Some ?y, unat ?e := None)"
        using iN Suc.prems(2) False by (simp add: tab_update fun_eq_iff)
      have "shift_inv ?N (home_of msk) (?T(unat i := Some ?y, unat ?e := None)) (unat ?e) (unat ?e)"
        using shift_move [OF inv y] True guard e' by (simp del: fun_upd_apply)
      moreover have "apart ?N (?T(unat i := Some ?y, unat ?e := None))"
        by (rule apart_move [OF Suc.prems(4) eN]) (use y e' in simp_all)
      moreover have ent: "entries ?N (?T(unat i := Some ?y, unat ?e := None)) = entries ?N ?T"
        by (rule entries_move [OF iN eN]) (use y e' in simp_all)
      moreover have "cdist ?N (unat ?e) (unat ?e) < cdist ?N (unat ?e) e"
        using ej eN Suc.prems(6) cdist_0_iff [of "unat ?e" ?N e] by (simp add: cdist_def)
      moreover have "?keys ! e = k_invalid_node_id"
        using Suc.prems(5,6,7) by (cases "unat i = e") auto
      ultimately have "\<exists>keys' vals' h. shift_loop fuel msk ?keys ?vals ?e ?e = Some (keys', vals', h)
          \<and> length keys' = ?N \<and> length vals' = ?N \<and> unat h < ?N
          \<and> reach_ok ?N (home_of msk) ((tab keys' vals')(unat h := None)) (\<lambda>_. False)
          \<and> apart ?N ((tab keys' vals')(unat h := None))
          \<and> entries ?N ((tab keys' vals')(unat h := None)) = entries ?N ?T"
        using Suc.IH [of ?keys ?vals ?e ?e] pw Suc.prems(2,6) fuel False ne
        by (simp add: T' del: fun_upd_apply)
      with True False show ?thesis by (simp add: Let_def del: fun_upd_apply)
    next
      case nomove: False
      have "shift_inv ?N (home_of msk) ?T (unat i) (unat ?e)"
        using shift_skip [OF inv y] nomove guard ne e' by (simp del: fun_upd_apply)
      moreover have "cdist ?N (unat i) (unat ?e) < cdist ?N (unat i) e"
      proof -
        have "cdist ?N (unat i) (unat ?e) = Suc (cdist ?N (unat i) (unat j))"
          unfolding e' using iN jN ne e' by (intro cdist_next) auto
        moreover have "cdist ?N (unat i) (unat ?e) \<noteq> cdist ?N (unat i) e"
          using cdist_inject [OF iN eN Suc.prems(6)] ej by simp
        ultimately show ?thesis using ahead by simp
      qed
      ultimately show ?thesis
        using Suc.IH [of keys vals i ?e] Suc.prems(1,2,4,5,6,7) fuel nomove False
        by (simp add: Let_def del: fun_upd_apply)
    qed
  qed
qed

lemma probe_ok:
  assumes "table_ok t" "card (dom (ht_map t)) < length (hkeys t)" "x \<noteq> k_invalid_node_id"
  obtains j where
    "probe_from (length (hkeys t)) (hkeys t) (hmask t) x (hhash (hmask t) x) = Some j"
    "unat j < length (hkeys t)"
    "hkeys t ! unat j = k_invalid_node_id \<Longrightarrow> ht_map t x = None"
    "hkeys t ! unat j \<noteq> k_invalid_node_id \<Longrightarrow>
      hkeys t ! unat j = x \<and> ht_map t x = Some (hvals t ! unat j)"
    "\<And>q. q < length (hkeys t) \<Longrightarrow>
      cdist (length (hkeys t)) (unat (hhash (hmask t) x)) q
        < cdist (length (hkeys t)) (unat (hhash (hmask t) x)) (unat j) \<Longrightarrow>
      hkeys t ! q \<noteq> k_invalid_node_id"
proof -
  let ?N = "length (hkeys t)" and ?h = "hhash (hmask t) x" and ?T = "tab (hkeys t) (hvals t)"
  from assms(1) have pw: "pow2_size ?N (hmask t)"
    and reach: "reach_ok ?N (home_of (hmask t)) ?T (\<lambda>_. False)" by (simp_all add: table_ok_def)
  obtain e where e: "e < ?N" "hkeys t ! e = k_invalid_node_id"
    using table_has_empty [OF assms(1,2)] by blast
  have hN: "unat ?h < ?N" using home_less [OF pw, of "(x, 0)"] by (simp add: home_of_def)
  obtain j where j: "probe_from ?N (hkeys t) (hmask t) x ?h = Some j" "unat j < ?N"
      "hkeys t ! unat j = k_invalid_node_id \<or> hkeys t ! unat j = x"
    and before: "\<And>q. q < ?N \<Longrightarrow> cdist ?N (unat ?h) q < cdist ?N (unat ?h) (unat j) \<Longrightarrow>
      hkeys t ! q \<noteq> k_invalid_node_id \<and> hkeys t ! q \<noteq> x"
    using probe_stops [OF pw e hN cdist_less [OF hN e(1)]] by blast
  have absent: "ht_map t x = None" if emp: "hkeys t ! unat j = k_invalid_node_id"
  proof (rule ccontr)
    assume "ht_map t x \<noteq> None"
    then obtain v where "(x, v) \<in> entries ?N ?T" using ht_map_Some [OF assms(1)] by blast
    then obtain p where p: "p < ?N" "?T p = Some (x, v)" by (auto simp: entries_def)
    then have kp: "hkeys t ! p = x" by (auto simp: tab_def split: if_splits)
    with emp assms(3) have "p \<noteq> unat j" by auto
    then have "cdist ?N (unat ?h) p \<noteq> cdist ?N (unat ?h) (unat j)"
      using cdist_inject [OF hN p(1) j(2)] by simp
    moreover have "\<not> cdist ?N (unat ?h) p < cdist ?N (unat ?h) (unat j)"
      using before p(1) kp by blast
    ultimately have "cdist ?N (unat ?h) (unat j) < cdist ?N (unat ?h) p" by simp
    with reach p j(2) have "?T (unat j) \<noteq> None" by (auto simp: reach_ok_def home_of_def)
    with emp show False by (simp add: tab_def)
  qed
  have present: "hkeys t ! unat j = x \<and> ht_map t x = Some (hvals t ! unat j)"
    if ne: "hkeys t ! unat j \<noteq> k_invalid_node_id"
  proof -
    from ne j(3) have k: "hkeys t ! unat j = x" by simp
    with ne have "?T (unat j) = Some (x, hvals t ! unat j)" by (simp add: tab_def)
    with j(2) have "(x, hvals t ! unat j) \<in> entries ?N ?T" by (auto simp: entries_def)
    with k show ?thesis using ht_map_Some [OF assms(1)] by simp
  qed
  show ?thesis using that [OF j(1,2) absent present] before by blast
qed

lemma ht_map_eqI:
  assumes "table_ok t" "\<And>y v. m y = Some v \<longleftrightarrow>
    (y, v) \<in> entries (length (hkeys t)) (tab (hkeys t) (hvals t))"
  shows "ht_map t = m"
proof
  fix y
  have "ht_map t y = Some v \<longleftrightarrow> m y = Some v" for v
    using ht_map_Some [OF assms(1)] assms(2) by simp
  then show "ht_map t y = m y" by (cases "m y") (metis option.exhaust)+
qed

theorem ht_find_ok:
  assumes "table_ok t" "card (dom (ht_map t)) < length (hkeys t)" "x \<noteq> k_invalid_node_id"
  shows "ht_find t x = Some (case ht_map t x of None \<Rightarrow> kInvalid | Some v \<Rightarrow> v)"
proof -
  obtain j where j: "probe_from (length (hkeys t)) (hkeys t) (hmask t) x (hhash (hmask t) x) = Some j"
    "hkeys t ! unat j = k_invalid_node_id \<Longrightarrow> ht_map t x = None"
    "hkeys t ! unat j \<noteq> k_invalid_node_id \<Longrightarrow>
      hkeys t ! unat j = x \<and> ht_map t x = Some (hvals t ! unat j)"
    by (rule probe_ok [OF assms]) blast
  show ?thesis
  proof (cases "hkeys t ! unat j = k_invalid_node_id")
    case True
    with j show ?thesis by (simp add: ht_find_def)
  next
    case False
    with j show ?thesis by (simp add: ht_find_def)
  qed
qed

lemma entries_update:
  assumes "p < N" "\<And>v. T p = Some v \<Longrightarrow> fst v = x" "apart N T" "T p = None \<Longrightarrow> \<forall>v. (x, v) \<notin> entries N T"
  shows "(y, v) \<in> entries N (T(p := Some (x, w))) \<longleftrightarrow>
    (if y = x then v = w else (y, v) \<in> entries N T)"
proof (cases "y = x")
  case True
  have "q = p" if "q < N" "T q = Some (x, v)" for q
  proof (cases "T p")
    case None
    with assms(4) that show ?thesis by (auto simp: entries_def)
  next
    case (Some z)
    with assms(2) obtain u where "T p = Some (x, u)" by (cases z) auto
    with assms(1,3) that show ?thesis unfolding apart_def by blast
  qed
  with True assms(1) show ?thesis by (auto simp: entries_def)
next
  case False
  have "q \<noteq> p" if "T q = Some (y, v)" for q
    using that assms(2) [of "(y, v)"] False by auto
  with False show ?thesis by (auto simp: entries_def)
qed

theorem ht_insert_ok:
  assumes ok: "table_ok t" and room: "card (dom (ht_map t)) < length (hkeys t)"
    and x: "x \<noteq> k_invalid_node_id"
  shows "\<exists>t'. ht_insert x w t = Some t' \<and> table_ok t' \<and> ht_map t' = (ht_map t)(x \<mapsto> w)
    \<and> length (hkeys t') = length (hkeys t)"
proof -
  let ?N = "length (hkeys t)" and ?T = "tab (hkeys t) (hvals t)"
  obtain j where j: "probe_from ?N (hkeys t) (hmask t) x (hhash (hmask t) x) = Some j"
      "unat j < ?N" "hkeys t ! unat j = k_invalid_node_id \<Longrightarrow> ht_map t x = None"
      "hkeys t ! unat j \<noteq> k_invalid_node_id \<Longrightarrow>
        hkeys t ! unat j = x \<and> ht_map t x = Some (hvals t ! unat j)"
    and before: "\<And>q. q < ?N \<Longrightarrow> cdist ?N (unat (hhash (hmask t) x)) q
        < cdist ?N (unat (hhash (hmask t) x)) (unat j) \<Longrightarrow> hkeys t ! q \<noteq> k_invalid_node_id"
    by (rule probe_ok [OF ok room x]) blast
  from ok have pw: "pow2_size ?N (hmask t)" and len: "length (hvals t) = ?N"
    and reach: "reach_ok ?N (home_of (hmask t)) ?T (\<lambda>_. False)" and ap: "apart ?N ?T"
    by (simp_all add: table_ok_def)
  define t' where "t' = t\<lparr>hkeys := (hkeys t)[unat j := x], hvals := (hvals t)[unat j := w]\<rparr>"
  have ins: "ht_insert x w t = Some t'"
  proof (cases "hkeys t ! unat j = k_invalid_node_id")
    case False
    with j(4) have "(hkeys t)[unat j := x] = hkeys t" by (metis list_update_id)
    with False j(1) show ?thesis by (simp add: ht_insert_def t'_def)
  qed (simp add: ht_insert_def t'_def j(1))
  have T': "tab (hkeys t') (hvals t') = ?T(unat j := Some (x, w))"
    using x j(2) len by (simp add: t'_def tab_update)
  have at: "fst v = x" if "?T (unat j) = Some v" for v
    using that j(4) by (auto simp: tab_def split: if_splits)
  have none: "\<forall>v. (x, v) \<notin> entries ?N ?T" if "?T (unat j) = None"
    using that j(3) by (auto simp: tab_def ht_map_Some [OF ok, symmetric] split: if_splits)
  have ap': "apart ?N (?T(unat j := Some (x, w)))"
  proof (cases "?T (unat j)")
    case None
    with ap none show ?thesis by (blast intro: apart_insert)
  next
    case (Some z)
    then have "?T (unat j) = Some (x, snd z)" using at [OF Some] by (cases z) simp
    with ap j(2) show ?thesis unfolding apart_def fun_upd_apply by (metis Pair_inject option.inject)
  qed
  have reach': "reach_ok ?N (home_of (hmask t)) (?T(unat j := Some (x, w))) (\<lambda>_. False)"
    using reach home_less [OF pw] before
    by (intro reach_ok_insert) (auto simp: home_of_def tab_def)
  have lens: "length (hkeys t') = ?N" "length (hvals t') = ?N" "hmask t' = hmask t"
    using len by (simp_all add: t'_def)
  have ok': "table_ok t'"
    unfolding table_ok_def lens T' using pw ap' reach' by simp
  moreover have "(y, v) \<in> entries ?N (?T(unat j := Some (x, w))) \<longleftrightarrow>
      (if y = x then v = w else (y, v) \<in> entries ?N ?T)" for y v
    using j(2) at ap none by (rule entries_update)
  then have "ht_map t' = (ht_map t)(x \<mapsto> w)"
    by (intro ht_map_eqI [OF ok'], unfold lens T') (auto simp: ht_map_Some [OF ok])
  ultimately show ?thesis using ins lens by blast
qed

theorem ht_erase_ok:
  assumes ok: "table_ok t" and room: "card (dom (ht_map t)) < length (hkeys t)"
    and x: "x \<noteq> k_invalid_node_id"
  shows "\<exists>t'. ht_erase x t = Some t' \<and> table_ok t' \<and> ht_map t' = (ht_map t)(x := None)
    \<and> length (hkeys t') = length (hkeys t)"
proof -
  let ?N = "length (hkeys t)" and ?T = "tab (hkeys t) (hvals t)"
  obtain i where i: "probe_from ?N (hkeys t) (hmask t) x (hhash (hmask t) x) = Some i"
      "unat i < ?N" "hkeys t ! unat i = k_invalid_node_id \<Longrightarrow> ht_map t x = None"
      "hkeys t ! unat i \<noteq> k_invalid_node_id \<Longrightarrow>
        hkeys t ! unat i = x \<and> ht_map t x = Some (hvals t ! unat i)"
    by (rule probe_ok [OF ok room x]) blast
  show ?thesis
  proof (cases "hkeys t ! unat i = k_invalid_node_id")
    case True
    with i(1,3) ok show ?thesis by (auto simp: ht_erase_def fun_upd_idem)
  next
    case False
    from ok have pw: "pow2_size ?N (hmask t)" and len: "length (hvals t) = ?N"
      and reach: "reach_ok ?N (home_of (hmask t)) ?T (\<lambda>_. False)" and ap: "apart ?N ?T"
      by (simp_all add: table_ok_def)
    obtain e where e: "e < ?N" "hkeys t ! e = k_invalid_node_id"
      using table_has_empty [OF ok room] by blast
    have ie: "unat i \<noteq> e" using False e(2) by auto
    have ahead: "cdist ?N (unat i) (unat i) < cdist ?N (unat i) e"
      using ie i(2) e(1) cdist_0_iff [of "unat i" ?N e] by (simp add: cdist_def)
    have fuel: "cdist ?N (unat i) e \<le> ?N" using cdist_less [OF i(2) e(1)] by simp
    obtain keys vals h where loop: "shift_loop ?N (hmask t) (hkeys t) (hvals t) i i = Some (keys, vals, h)"
      and l: "length keys = ?N" "length vals = ?N" "unat h < ?N"
      and r: "reach_ok ?N (home_of (hmask t)) ((tab keys vals)(unat h := None)) (\<lambda>_. False)"
      and a: "apart ?N ((tab keys vals)(unat h := None))"
      and ent: "entries ?N ((tab keys vals)(unat h := None)) = entries ?N (?T(unat i := None))"
      using shift_loop_ok [OF pw len shift_start [OF reach i(2)] apart_erase [OF ap] False e ahead fuel]
      by blast
    define t' where "t' = t\<lparr>hkeys := keys[unat h := k_invalid_node_id], hvals := vals\<rparr>"
    have er: "ht_erase x t = Some t'" using False i(1) loop by (simp add: ht_erase_def t'_def)
    have T': "tab (hkeys t') (hvals t') = (tab keys vals)(unat h := None)"
      using l by (simp add: t'_def tab_clear)
    have lens: "length (hkeys t') = ?N" "length (hvals t') = ?N" "hmask t' = hmask t"
      using l by (simp_all add: t'_def)
    have ok': "table_ok t'" unfolding table_ok_def lens T' using pw r a by simp
    have at: "?T (unat i) = Some (x, hvals t ! unat i)" using False i(4) by (simp add: tab_def)
    have "(y, v) \<in> entries ?N (?T(unat i := None)) \<longleftrightarrow> y \<noteq> x \<and> (y, v) \<in> entries ?N ?T" for y v
    proof
      assume "(y, v) \<in> entries ?N (?T(unat i := None))"
      then obtain p where "p < ?N" "p \<noteq> unat i" "?T p = Some (y, v)"
        by (auto simp: entries_def split: if_splits)
      with ap at i(2) show "y \<noteq> x \<and> (y, v) \<in> entries ?N ?T"
        unfolding apart_def entries_def by blast
    next
      assume "y \<noteq> x \<and> (y, v) \<in> entries ?N ?T"
      then obtain p where "p < ?N" "?T p = Some (y, v)" "y \<noteq> x" by (auto simp: entries_def)
      with at show "(y, v) \<in> entries ?N (?T(unat i := None))"
        unfolding entries_def by (intro CollectI exI [of _ p]) auto
    qed
    then have "ht_map t' = (ht_map t)(x := None)"
      by (intro ht_map_eqI [OF ok'], unfold lens T' ent) (auto simp: ht_map_Some [OF ok])
    with er ok' lens show ?thesis by blast
  qed
qed

lemma hcap_loop_pow2:
  "\<exists>k. hcap_loop (2 ^ j) want = 2 ^ k \<and> want \<le> 2 ^ k"
proof (induction "(2 :: nat) ^ j" want arbitrary: j rule: hcap_loop.induct)
  case (1 want)
  show ?case
  proof (cases "(2 :: nat) ^ j < want")
    case True
    then have "\<exists>k. hcap_loop (2 ^ Suc j) want = 2 ^ k \<and> want \<le> 2 ^ k"
      by (intro 1) simp_all
    with True show ?thesis by (subst hcap_loop.simps) (simp add: mult.commute)
  next
    case False
    then show ?thesis by (subst hcap_loop.simps) auto
  qed
qed

text \<open>The loop stops below twice the wanted size, so a shard's table fits in memory addresses.\<close>

lemma hcap_loop_bound: "0 < hcap \<Longrightarrow> hcap < 2 * want \<Longrightarrow> hcap_loop hcap want < 2 * want"
proof (induction hcap want rule: hcap_loop.induct)
  case (1 hcap want)
  show ?case
    using 1 by (subst hcap_loop.simps) simp
qed

theorem ht_init_ok:
  assumes "capacity < 2 ^ 60"
  shows "table_ok (ht_init capacity)" "ht_map (ht_init capacity) = Map.empty"
    "2 * capacity \<le> length (hkeys (ht_init capacity))" "0 < length (hkeys (ht_init capacity))"
proof -
  let ?want = "if capacity < 8 then 16 else capacity * 2"
  obtain k where k: "hcap_loop 1 ?want = 2 ^ k" "?want \<le> 2 ^ k"
    using hcap_loop_pow2 [of 0 ?want] by auto
  have "(2 :: nat) ^ k < 2 * ?want"
    using hcap_loop_bound [of 1 ?want] by (simp only: k) (simp split: if_splits)
  also have "\<dots> \<le> 2 ^ 62" using assms by simp
  finally have "k < 62" by (rule power_less_imp_less_exp [rotated]) simp
  have m: "(of_nat (2 ^ k - 1) :: u64) = mask k"
    by (simp add: mask_eq_exp_minus_1 of_nat_diff)
  let ?t = "ht_init capacity"
  have keys: "hkeys ?t = replicate (2 ^ k) k_invalid_node_id" "hvals ?t = replicate (2 ^ k) 0"
    "hmask ?t = mask k"
    using k(1) m by (simp_all add: ht_init_def Let_def)
  have T: "tab (hkeys ?t) (hvals ?t) p = None" if "p < 2 ^ k" for p
    using that by (simp add: tab_def keys)
  show "table_ok ?t"
    unfolding table_ok_def reach_ok_def apart_def
    using T \<open>k < 62\<close> by (auto simp: keys pow2_size_def intro!: exI [of _ k])
  show "ht_map ?t = Map.empty"
    by (simp add: ht_map_def keys zip_replicate)
  show "2 * capacity \<le> length (hkeys ?t)" "0 < length (hkeys ?t)"
    using k(2) by (auto simp: keys split: if_splits)
qed

end
