(* ===== verification/Edge_Cache.thy ===== *)
theory Edge_Cache
  imports Varint Probe_Table "HOL-Library.AList"
begin

text \<open>
  The sharded cache of level-0 edge lists, \<open>EdgeLRUCache\<close> of \<open>include/astervec_index.h\<close>. A shard is
  an arena of slots threaded by two intrusive lists (the use order through \<open>prev\<close>/\<open>next\<close>, the free
  slots through \<open>next\<close>) beside the probe table of \<open>Probe_Table\<close>; indices are the code's
  \<open>uint32_t\<close>, \<open>kInvalid\<close> being no slot. A shard refines a bounded list of keys in use order
  (\<open>lru_put\<close>, \<open>lru_erase\<close>), and the whole cache the interface \<open>edge_lookup\<close>: it never returns
  anything but what was last put for the id.
\<close>

subsection \<open>A shard\<close>

record slot =
  skey :: node_id
  senc :: bytes
  sprev :: nat
  snext :: nat

definition slot0 :: slot where
  "slot0 = \<lparr>skey = 0, senc = [], sprev = kInvalid, snext = kInvalid\<rparr>"

record shard =
  slots :: "slot list"
  htab :: probe_table
  scap :: nat
  scount :: nat
  shead :: nat
  stail :: nat
  free_head :: nat

definition shard_init :: "nat \<Rightarrow> shard" where
  "shard_init capacity = \<lparr>slots = [], htab = ht_init capacity, scap = capacity, scount = 0,
     shead = kInvalid, stail = kInvalid, free_head = kInvalid\<rparr>"

definition set_prev :: "nat \<Rightarrow> nat \<Rightarrow> shard \<Rightarrow> shard" where
  "set_prev i v s = s\<lparr>slots := (slots s)[i := (slots s ! i)\<lparr>sprev := v\<rparr>]\<rparr>"

definition set_next :: "nat \<Rightarrow> nat \<Rightarrow> shard \<Rightarrow> shard" where
  "set_next i v s = s\<lparr>slots := (slots s)[i := (slots s ! i)\<lparr>snext := v\<rparr>]\<rparr>"

definition set_enc :: "nat \<Rightarrow> bytes \<Rightarrow> shard \<Rightarrow> shard" where
  "set_enc i v s = s\<lparr>slots := (slots s)[i := (slots s ! i)\<lparr>senc := v\<rparr>]\<rparr>"

definition set_key :: "nat \<Rightarrow> node_id \<Rightarrow> shard \<Rightarrow> shard" where
  "set_key i v s = s\<lparr>slots := (slots s)[i := (slots s ! i)\<lparr>skey := v\<rparr>]\<rparr>"

definition link_front :: "nat \<Rightarrow> shard \<Rightarrow> shard" where
  "link_front slot s0 =
     (let s1 = set_next slot (shead s0) (set_prev slot kInvalid s0);
          s2 = (if shead s1 \<noteq> kInvalid then set_prev (shead s1) slot s1 else s1);
          s3 = s2\<lparr>shead := slot\<rparr>
      in if stail s3 = kInvalid then s3\<lparr>stail := slot\<rparr> else s3)"

definition unlink :: "nat \<Rightarrow> shard \<Rightarrow> shard" where
  "unlink slot s0 =
     (let p = sprev (slots s0 ! slot); n = snext (slots s0 ! slot);
          s1 = (if p \<noteq> kInvalid then set_next p n s0 else s0\<lparr>shead := n\<rparr>);
          s2 = (if n \<noteq> kInvalid then set_prev n p s1 else s1\<lparr>stail := p\<rparr>)
      in set_next slot kInvalid (set_prev slot kInvalid s2))"

definition move_to_front :: "nat \<Rightarrow> shard \<Rightarrow> shard" where
  "move_to_front slot s = (if shead s = slot then s else link_front slot (unlink slot s))"

text \<open>
  \<open>get\<close>, \<open>put\<close> and \<open>erase\<close> under the shard's lock; \<open>None\<close> is a probe loop that does not end. \<open>put\<close>
  also says whether it evicted, \<open>erase\<close> whether the id was there (the two counters).
\<close>

definition shard_get :: "node_id \<Rightarrow> shard \<Rightarrow> bytes option option" where
  "shard_get nid s =
     (case ht_find (htab s) nid of
        None \<Rightarrow> None
      | Some i \<Rightarrow> Some (if i = kInvalid then None else Some (senc (slots s ! i))))"

definition shard_take_slot :: "shard \<Rightarrow> (nat \<times> shard \<times> bool) option" where
  "shard_take_slot s =
     (if scount s \<ge> scap s then
        (let i = stail s in
         case ht_erase (skey (slots s ! i)) (htab s) of
           None \<Rightarrow> None
         | Some h \<Rightarrow> Some (i, (unlink i (s\<lparr>htab := h\<rparr>))\<lparr>scount := scount s - 1\<rparr>, True))
      else if free_head s \<noteq> kInvalid then
        (let i = free_head s in
         Some (i, set_next i kInvalid (s\<lparr>free_head := snext (slots s ! i)\<rparr>), False))
      else Some (length (slots s), s\<lparr>slots := slots s @ [slot0]\<rparr>, False))"

definition shard_put :: "node_id \<Rightarrow> bytes \<Rightarrow> shard \<Rightarrow> (shard \<times> bool) option" where
  "shard_put nid e s =
     (case ht_find (htab s) nid of
        None \<Rightarrow> None
      | Some i \<Rightarrow>
          if i \<noteq> kInvalid then Some (move_to_front i (set_enc i e s), False)
          else (case shard_take_slot s of
                  None \<Rightarrow> None
                | Some (j, s1, evicted) \<Rightarrow>
                    (let s2 = link_front j (set_enc j e (set_key j nid s1)) in
                     case ht_insert nid j (htab s2) of
                       None \<Rightarrow> None
                     | Some h \<Rightarrow> Some (s2\<lparr>htab := h, scount := scount s2 + 1\<rparr>, evicted))))"

definition shard_erase :: "node_id \<Rightarrow> shard \<Rightarrow> (shard \<times> bool) option" where
  "shard_erase nid s =
     (case ht_find (htab s) nid of
        None \<Rightarrow> None
      | Some i \<Rightarrow>
          if i = kInvalid then Some (s, False)
          else (let s1 = unlink i s in
                case ht_erase nid (htab s1) of
                  None \<Rightarrow> None
                | Some h \<Rightarrow>
                    (let s2 = set_enc i [] (s1\<lparr>htab := h, scount := scount s1 - 1\<rparr>)
                     in Some ((set_next i (free_head s2) s2)\<lparr>free_head := i\<rparr>, True))))"

subsection \<open>Chains of slots\<close>

fun lseg :: "(nat \<Rightarrow> nat) \<Rightarrow> nat \<Rightarrow> nat list \<Rightarrow> nat \<Rightarrow> bool" where
  "lseg f p [] q \<longleftrightarrow> p = q"
| "lseg f p (x # xs) q \<longleftrightarrow> p = x \<and> lseg f (f x) xs q"

lemma lseg_append: "lseg f p (xs @ ys) q \<longleftrightarrow> (\<exists>r. lseg f p xs r \<and> lseg f r ys q)"
  by (induction xs arbitrary: p) auto

lemma lseg_cong: "(\<And>x. x \<in> set xs \<Longrightarrow> f x = g x) \<Longrightarrow> lseg f p xs q = lseg g p xs q"
  by (induction xs arbitrary: p) auto

lemma lseg_upd [simp]: "x \<notin> set xs \<Longrightarrow> lseg (f(x := v)) p xs q = lseg f p xs q"
  by (rule lseg_cong) auto

lemma lseg_at: "lseg f h (xs @ x # ys) q \<Longrightarrow> f x = (case ys of [] \<Rightarrow> q | y # _ \<Rightarrow> y)"
  by (auto simp: lseg_append split: list.splits)

lemma lseg_remove:
  assumes "lseg f h (xs @ x # ys) q" "distinct (xs @ x # ys)"
  shows "lseg (if xs = [] then f else f(last xs := f x)) (if xs = [] then f x else h) (xs @ ys) q"
proof (cases xs rule: rev_cases)
  case Nil
  with assms show ?thesis by simp
next
  case (snoc zs z)
  with assms show ?thesis by (auto simp: lseg_append)
qed

lemma lseg_snoc:
  assumes "lseg f h xs q" "x \<notin> set xs" "distinct xs" "q \<notin> set xs"
  shows "lseg ((if xs = [] then f else f(last xs := x))(x := q)) (if xs = [] then x else h) (xs @ [x]) q"
proof (cases xs rule: rev_cases)
  case Nil
  with assms show ?thesis by simp
next
  case (snoc zs z)
  with assms show ?thesis by (auto simp: lseg_append)
qed

abbreviation nxt :: "shard \<Rightarrow> nat \<Rightarrow> nat" where "nxt s i \<equiv> snext (slots s ! i)"
abbreviation prv :: "shard \<Rightarrow> nat \<Rightarrow> nat" where "prv s i \<equiv> sprev (slots s ! i)"

definition dll :: "shard \<Rightarrow> nat list \<Rightarrow> bool" where
  "dll s ord \<longleftrightarrow> distinct ord \<and> kInvalid \<notin> set ord \<and> set ord \<subseteq> {..<length (slots s)}
     \<and> lseg (nxt s) (shead s) ord kInvalid \<and> lseg (prv s) (stail s) (rev ord) kInvalid"

lemma dll_head: "dll s ord \<Longrightarrow> shead s = (case ord of [] \<Rightarrow> kInvalid | x # _ \<Rightarrow> x)"
  by (cases ord) (auto simp: dll_def)

lemma dll_tail: "dll s ord \<Longrightarrow> stail s = (if ord = [] then kInvalid else last ord)"
  by (cases ord rule: rev_cases) (auto simp: dll_def)

named_theorems slot_simps

lemma set_fields [simp]:
  "htab (set_prev i v s) = htab s" "htab (set_next i v s) = htab s" "htab (set_enc i e s) = htab s"
  "htab (set_key i k s) = htab s"
  "scap (set_prev i v s) = scap s" "scap (set_next i v s) = scap s" "scap (set_enc i e s) = scap s"
  "scap (set_key i k s) = scap s"
  "scount (set_prev i v s) = scount s" "scount (set_next i v s) = scount s"
  "scount (set_enc i e s) = scount s" "scount (set_key i k s) = scount s"
  "free_head (set_prev i v s) = free_head s" "free_head (set_next i v s) = free_head s"
  "free_head (set_enc i e s) = free_head s" "free_head (set_key i k s) = free_head s"
  "shead (set_prev i v s) = shead s" "shead (set_next i v s) = shead s"
  "shead (set_enc i e s) = shead s" "shead (set_key i k s) = shead s"
  "stail (set_prev i v s) = stail s" "stail (set_next i v s) = stail s"
  "stail (set_enc i e s) = stail s" "stail (set_key i k s) = stail s"
  "length (slots (set_prev i v s)) = length (slots s)"
  "length (slots (set_next i v s)) = length (slots s)"
  "length (slots (set_enc i e s)) = length (slots s)"
  "length (slots (set_key i k s)) = length (slots s)"
  by (simp_all add: set_prev_def set_next_def set_enc_def set_key_def)

lemma set_slot [slot_simps]:
  assumes "i < length (slots s)"
  shows "slots (set_prev i v s) ! j = (if i = j then (slots s ! j)\<lparr>sprev := v\<rparr> else slots s ! j)"
    "slots (set_next i v s) ! j = (if i = j then (slots s ! j)\<lparr>snext := v\<rparr> else slots s ! j)"
    "slots (set_enc i e s) ! j = (if i = j then (slots s ! j)\<lparr>senc := e\<rparr> else slots s ! j)"
    "slots (set_key i k s) ! j = (if i = j then (slots s ! j)\<lparr>skey := k\<rparr> else slots s ! j)"
  using assms by (simp_all add: set_prev_def set_next_def set_enc_def set_key_def)

text \<open>The use-order fields a link or unlink changes, as functions of the slot.\<close>

lemma link_front_fields:
  assumes "x < length (slots s)" "shead s = kInvalid \<or> shead s < length (slots s)" "shead s \<noteq> x"
  shows "nxt (link_front x s) = (nxt s)(x := shead s)"
    "prv (link_front x s) = (if shead s = kInvalid then prv s else (prv s)(shead s := x))(x := kInvalid)"
    "shead (link_front x s) = x" "stail (link_front x s) = (if stail s = kInvalid then x else stail s)"
    "length (slots (link_front x s)) = length (slots s)"
  using assms by (auto simp: link_front_def Let_def fun_eq_iff slot_simps)

lemma unlink_fields:
  assumes "x < length (slots s)" "prv s x = kInvalid \<or> prv s x < length (slots s)"
    "nxt s x = kInvalid \<or> nxt s x < length (slots s)" "prv s x \<noteq> x" "nxt s x \<noteq> x"
  shows "nxt (unlink x s) = (if prv s x = kInvalid then nxt s else (nxt s)(prv s x := nxt s x))(x := kInvalid)"
    "prv (unlink x s) = (if nxt s x = kInvalid then prv s else (prv s)(nxt s x := prv s x))(x := kInvalid)"
    "shead (unlink x s) = (if prv s x = kInvalid then nxt s x else shead s)"
    "stail (unlink x s) = (if nxt s x = kInvalid then prv s x else stail s)"
    "length (slots (unlink x s)) = length (slots s)"
  using assms by (auto simp: unlink_def Let_def fun_eq_iff slot_simps)

lemma link_front_same [simp]:
  "htab (link_front x s) = htab s" "scap (link_front x s) = scap s"
  "scount (link_front x s) = scount s" "free_head (link_front x s) = free_head s"
  by (simp_all add: link_front_def Let_def)

lemma unlink_same [simp]:
  "htab (unlink x s) = htab s" "scap (unlink x s) = scap s"
  "scount (unlink x s) = scount s" "free_head (unlink x s) = free_head s"
  by (simp_all add: unlink_def Let_def)

lemma dll_link_front:
  assumes "dll s ord" "x \<notin> set ord" "x < length (slots s)" "x \<noteq> kInvalid"
  shows "dll (link_front x s) (x # ord)"
proof -
  have h: "shead s = (case ord of [] \<Rightarrow> kInvalid | y # _ \<Rightarrow> y)"
    and t: "stail s = (if ord = [] then kInvalid else last ord)"
    using dll_head dll_tail assms(1) by blast+
  have "shead s = kInvalid \<or> shead s < length (slots s)" "shead s \<noteq> x"
    using assms h by (auto simp: dll_def split: list.splits)
  note f = link_front_fields [OF assms(3) this]
  have "lseg ((nxt s)(x := shead s)) x (x # ord) kInvalid"
    using assms by (simp add: dll_def)
  moreover have "lseg ((if shead s = kInvalid then prv s else (prv s)(shead s := x))(x := kInvalid))
      (if stail s = kInvalid then x else stail s) (rev ord @ [x]) kInvalid"
  proof (cases ord)
    case Nil
    with h t show ?thesis by simp
  next
    case (Cons y ys)
    have "last ord \<in> set ord" using Cons by simp
    then have "last ord \<noteq> kInvalid" using assms(1) unfolding dll_def by metis
    with h t Cons have "stail s \<noteq> kInvalid" "shead s = y" "y \<noteq> kInvalid"
      using assms(1) by (auto simp: dll_def)
    with Cons show ?thesis
      using lseg_snoc [of "prv s" "stail s" "rev ord" kInvalid x] assms by (simp add: dll_def)
  qed
  ultimately show ?thesis using assms unfolding dll_def f by simp
qed

lemma dll_unlink:
  assumes "dll s (xs @ x # ys)"
  shows "dll (unlink x s) (xs @ ys)"
    "nxt (unlink x s) = (if xs = [] then nxt s else (nxt s)(last xs := nxt s x))(x := kInvalid)"
proof -
  have d: "distinct (xs @ x # ys)" "kInvalid \<notin> set (xs @ x # ys)"
    "set (xs @ x # ys) \<subseteq> {..<length (slots s)}"
    and n: "lseg (nxt s) (shead s) (xs @ x # ys) kInvalid"
    and p: "lseg (prv s) (stail s) (rev ys @ x # rev xs) kInvalid"
    using assms by (simp_all add: dll_def)
  have nx: "nxt s x = (case ys of [] \<Rightarrow> kInvalid | y # _ \<Rightarrow> y)" by (rule lseg_at [OF n])
  have px: "prv s x = (if xs = [] then kInvalid else last xs)"
    using lseg_at [OF p] by (cases xs rule: rev_cases) auto
  have "y < length (slots s) \<and> y \<noteq> kInvalid \<and> y \<noteq> x" if "y \<in> set xs" for y
    using that d by auto
  then have ne: "last xs < length (slots s)" "last xs \<noteq> kInvalid" "last xs \<noteq> x" if "xs \<noteq> []"
    using last_in_set [OF that] by blast+
  have "x < length (slots s)" "prv s x = kInvalid \<or> prv s x < length (slots s)"
    "nxt s x = kInvalid \<or> nxt s x < length (slots s)" "prv s x \<noteq> x" "nxt s x \<noteq> x"
    using d ne unfolding nx px by (auto split: list.splits)
  note f = unlink_fields [OF this]
  have pk: "prv s x = kInvalid \<longleftrightarrow> xs = []" using d(2) ne unfolding px by auto
  have nk: "nxt s x = kInvalid \<longleftrightarrow> ys = []" using d(2) unfolding nx by (auto split: list.splits)
  show nxt: "nxt (unlink x s) = (if xs = [] then nxt s else (nxt s)(last xs := nxt s x))(x := kInvalid)"
    unfolding f pk by (simp add: px)
  have prv: "prv (unlink x s) =
      (if rev ys = [] then prv s else (prv s)(last (rev ys) := prv s x))(x := kInvalid)"
    unfolding f nk by (cases ys) (simp_all add: nx)
  have hd: "shead (unlink x s) = (if xs = [] then nxt s x else shead s)" unfolding f pk by simp
  have tl: "stail (unlink x s) = (if rev ys = [] then prv s x else stail s)" unfolding f nk by simp
  have "lseg (nxt (unlink x s)) (shead (unlink x s)) (xs @ ys) kInvalid"
    unfolding nxt hd using lseg_remove [OF n d(1)] d(1) by (subst lseg_upd) auto
  moreover have "lseg (prv (unlink x s)) (stail (unlink x s)) (rev ys @ rev xs) kInvalid"
    unfolding prv tl using lseg_remove [OF p] d(1) by (subst lseg_upd) (auto simp: Int_commute)
  ultimately show "dll (unlink x s) (xs @ ys)"
    using d by (simp add: dll_def f(5))
qed

subsection \<open>A shard refines a bounded list in use order\<close>

definition lru_put :: "nat \<Rightarrow> 'k \<Rightarrow> 'e \<Rightarrow> ('k \<times> 'e) list \<Rightarrow> ('k \<times> 'e) list" where
  "lru_put cap k e L =
     (k, e) # (if map_of L k \<noteq> None then AList.delete k L
               else if cap \<le> length L then butlast L else L)"

definition lru_erase :: "'k \<Rightarrow> ('k \<times> 'e) list \<Rightarrow> ('k \<times> 'e) list" where
  "lru_erase k L = AList.delete k L"

definition entry :: "shard \<Rightarrow> nat \<Rightarrow> node_id \<times> bytes" where
  "entry s i = (skey (slots s ! i), senc (slots s ! i))"

text \<open>\<open>ord\<close> is the list of used slots from head to tail, \<open>fl\<close> that of free slots.\<close>

definition shard_inv :: "shard \<Rightarrow> nat list \<Rightarrow> nat list \<Rightarrow> bool" where
  "shard_inv s ord fl \<longleftrightarrow> dll s ord
     \<and> distinct fl \<and> set fl \<inter> set ord = {} \<and> set fl \<union> set ord = {..<length (slots s)}
     \<and> lseg (nxt s) (free_head s) fl kInvalid
     \<and> scount s = length ord \<and> length (slots s) \<le> scap s \<and> 0 < scap s \<and> scap s < kInvalid
     \<and> scap s < length (hkeys (htab s))
     \<and> table_ok (htab s) \<and> distinct (map (\<lambda>i. skey (slots s ! i)) ord)
     \<and> ht_map (htab s) = map_of (map (\<lambda>i. (skey (slots s ! i), i)) ord)"

lemma shard_invI:
  assumes "dll s ord" "distinct fl" "set fl \<inter> set ord = {}" "set fl \<union> set ord = {..<length (slots s)}"
    "lseg (nxt s) (free_head s) fl kInvalid"
    "scount s = length ord" "length (slots s) \<le> scap s" "0 < scap s" "scap s < kInvalid"
    "scap s < length (hkeys (htab s))" "table_ok (htab s)"
    "distinct (map (\<lambda>i. skey (slots s ! i)) ord)"
    "ht_map (htab s) = map_of (map (\<lambda>i. (skey (slots s ! i), i)) ord)"
  shows "shard_inv s ord fl"
  unfolding shard_inv_def using assms by blast

lemma shard_invD:
  assumes "shard_inv s ord fl"
  shows "dll s ord" "distinct fl" "set fl \<inter> set ord = {}" "set fl \<union> set ord = {..<length (slots s)}"
    "lseg (nxt s) (free_head s) fl kInvalid"
    "scount s = length ord" "length (slots s) \<le> scap s" "0 < scap s" "scap s < kInvalid"
    "scap s < length (hkeys (htab s))" "table_ok (htab s)"
    "distinct (map (\<lambda>i. skey (slots s ! i)) ord)"
    "ht_map (htab s) = map_of (map (\<lambda>i. (skey (slots s ! i), i)) ord)"
  using assms unfolding shard_inv_def by blast+

text \<open>The used slots, read off the arena.\<close>

fun chain :: "nat \<Rightarrow> shard \<Rightarrow> nat \<Rightarrow> nat list" where
  "chain 0 s i = []"
| "chain (Suc n) s i = (if i = kInvalid then [] else i # chain n s (nxt s i))"

definition shard_view :: "shard \<Rightarrow> (node_id \<times> bytes) list" where
  "shard_view s = map (entry s) (chain (length (slots s)) s (shead s))"

lemma chain_lseg:
  "lseg (nxt s) p xs kInvalid \<Longrightarrow> kInvalid \<notin> set xs \<Longrightarrow> length xs \<le> n \<Longrightarrow> chain n s p = xs"
proof (induction xs arbitrary: p n)
  case Nil
  then show ?case by (cases n) auto
next
  case (Cons x xs)
  then show ?case by (cases n) auto
qed

lemma card_bound:
  assumes "distinct xs" "set xs \<subseteq> {..<n}"
  shows "length xs \<le> (n :: nat)"
  using card_mono [OF finite_lessThan assms(2)] distinct_card [OF assms(1)] by simp

lemma shard_view_eq: "shard_inv s ord fl \<Longrightarrow> shard_view s = map (entry s) ord"
  unfolding shard_view_def shard_inv_def dll_def
  using card_bound [of ord "length (slots s)"] by (auto intro: arg_cong [OF chain_lseg])

lemma shard_inv_facts:
  assumes "shard_inv s ord fl"
  shows "dll s ord" "table_ok (htab s)" "card (dom (ht_map (htab s))) < length (hkeys (htab s))"
    "ht_map (htab s) = map_of (map (\<lambda>i. (skey (slots s ! i), i)) ord)"
    "\<And>i. i \<in> set ord \<Longrightarrow> i < length (slots s)" "\<And>i. i \<in> set ord \<Longrightarrow> i \<noteq> kInvalid"
    "\<And>i. i \<in> set ord \<Longrightarrow> skey (slots s ! i) \<noteq> k_invalid_node_id"
proof -
  show d: "dll s ord" and "table_ok (htab s)"
    and m: "ht_map (htab s) = map_of (map (\<lambda>i. (skey (slots s ! i), i)) ord)"
    using assms by (auto simp: shard_inv_def)
  show sub: "i < length (slots s)" "i \<noteq> kInvalid" if "i \<in> set ord" for i
    using d that by (auto simp: dll_def)
  have "length ord \<le> length (slots s)" using d by (intro card_bound) (auto simp: dll_def)
  moreover have "card (dom (ht_map (htab s))) \<le> length ord"
    unfolding m dom_map_of_conv_image_fst by (rule order.trans [OF card_image_le])
      (auto intro: order.trans [OF card_image_le card_length] simp: image_image)
  ultimately show "card (dom (ht_map (htab s))) < length (hkeys (htab s))"
    using assms by (simp add: shard_inv_def)
  fix i assume i: "i \<in> set ord"
  have "ht_map (htab s) (skey (slots s ! i)) \<noteq> None"
    unfolding m map_of_eq_None_iff using i by force
  then show "skey (slots s ! i) \<noteq> k_invalid_node_id"
    using ht_map_invalid by metis
qed

lemma option_eqI: "(\<And>j. u = Some j \<longleftrightarrow> v = Some j) \<Longrightarrow> u = v"
  by (metis option.exhaust)

lemma map_of_index:
  assumes "distinct (map k ord)"
  shows "map_of (map (\<lambda>i. (k i, i)) ord) x = Some i \<longleftrightarrow> i \<in> set ord \<and> k i = x"
proof -
  have "distinct (map fst (map (\<lambda>i. (k i, i)) ord))" using assms by (simp add: comp_def)
  then show ?thesis by (auto simp: map_of_eq_Some_iff)
qed

lemma map_of_index_perm:
  assumes "distinct (map k xs)" "distinct (map k ys)" "set xs = set ys"
  shows "map_of (map (\<lambda>i. (k i, i)) xs) = map_of (map (\<lambda>i. (k i, i)) ys)"
proof
  fix x
  have "map_of (map (\<lambda>i. (k i, i)) xs) x = Some j \<longleftrightarrow> map_of (map (\<lambda>i. (k i, i)) ys) x = Some j" for j
    by (simp only: map_of_index [OF assms(1)] map_of_index [OF assms(2)] assms(3))
  then show "map_of (map (\<lambda>i. (k i, i)) xs) x = map_of (map (\<lambda>i. (k i, i)) ys) x"
    by (metis option.exhaust)
qed

lemma map_of_index_remove:
  assumes "distinct (map k (xs @ i # ys))"
  shows "(map_of (map (\<lambda>i. (k i, i)) (xs @ i # ys)))(k i := None)
    = map_of (map (\<lambda>i. (k i, i)) (xs @ ys))"
proof
  fix x
  have d: "distinct (map k (xs @ ys))" using assms by auto
  have "k i \<notin> k ` (set xs \<union> set ys)" using assms by (simp add: image_Un)
  then have "k j \<noteq> k i" if "j \<in> set xs \<union> set ys" for j using that by (metis imageI)
  then have "map_of (map (\<lambda>i. (k i, i)) (xs @ ys)) x = Some j \<longleftrightarrow>
      x \<noteq> k i \<and> map_of (map (\<lambda>i. (k i, i)) (xs @ i # ys)) x = Some j" for j
    unfolding map_of_index [OF assms] map_of_index [OF d] by auto
  then have "((map_of (map (\<lambda>i. (k i, i)) (xs @ i # ys)))(k i := None)) x = Some j
      \<longleftrightarrow> map_of (map (\<lambda>i. (k i, i)) (xs @ ys)) x = Some j" for j
    by (cases "x = k i") (simp_all only: fun_upd_apply if_True if_False option.distinct simp_thms)
  then show "((map_of (map (\<lambda>i. (k i, i)) (xs @ i # ys)))(k i := None)) x
      = map_of (map (\<lambda>i. (k i, i)) (xs @ ys)) x"
    by (rule option_eqI)
qed

lemma find_cases:
  assumes inv: "shard_inv s ord fl" and x: "x \<noteq> k_invalid_node_id"
  shows "(ht_find (htab s) x = Some kInvalid \<and> map_of (shard_view s) x = None
      \<and> (\<forall>i \<in> set ord. skey (slots s ! i) \<noteq> x))
    \<or> (\<exists>i \<in> set ord. ht_find (htab s) x = Some i \<and> skey (slots s ! i) = x
      \<and> map_of (shard_view s) x = Some (senc (slots s ! i)))"
proof (cases "ht_map (htab s) x")
  case None
  then have "ht_find (htab s) x = Some kInvalid"
    using ht_find_ok [OF shard_inv_facts(2,3) [OF inv] x] by simp
  moreover have "\<forall>i \<in> set ord. skey (slots s ! i) \<noteq> x"
    using None unfolding shard_inv_facts(4) [OF inv] map_of_eq_None_iff by force
  ultimately show ?thesis
    unfolding shard_view_eq [OF inv] by (force simp: map_of_eq_None_iff entry_def)
next
  case (Some i)
  then have f: "ht_find (htab s) x = Some i"
    using ht_find_ok [OF shard_inv_facts(2,3) [OF inv] x] by simp
  have dk: "distinct (map (\<lambda>i. skey (slots s ! i)) ord)" using inv by (simp add: shard_inv_def)
  then have i: "i \<in> set ord" "skey (slots s ! i) = x"
    using Some unfolding shard_inv_facts(4) [OF inv] by (simp_all add: map_of_index)
  have "distinct (map fst (map (entry s) ord))" using dk by (simp add: entry_def comp_def)
  moreover have "(x, senc (slots s ! i)) \<in> set (map (entry s) ord)"
    using i by (force simp: entry_def)
  ultimately have "map_of (map (entry s) ord) x = Some (senc (slots s ! i))"
    by (rule map_of_is_SomeI)
  with f i show ?thesis unfolding shard_view_eq [OF inv] by blast
qed

lemma shard_get_ok:
  assumes inv: "shard_inv s ord fl" and x: "x \<noteq> k_invalid_node_id"
  shows "shard_get x s = Some (map_of (shard_view s) x)"
  using find_cases [OF inv x] shard_inv_facts(6) [OF inv] by (auto simp: shard_get_def)

lemma shard_init_ok:
  assumes "0 < capacity" "capacity < kInvalid"
  shows "shard_inv (shard_init capacity) [] []" "shard_view (shard_init capacity) = []"
proof -
  have "capacity < 2 ^ 60" using assms by (simp add: kInvalid_def)
  note h = ht_init_ok [OF this]
  show "shard_inv (shard_init capacity) [] []"
    using assms h by (simp add: shard_inv_def shard_init_def dll_def)
  show "shard_view (shard_init capacity) = []" by (simp add: shard_view_def shard_init_def)
qed

lemma entry_set:
  "entry (set_prev i v s) = entry s" "entry (set_next i v s) = entry s"
  "skey (slots (set_prev i v s) ! j) = skey (slots s ! j)"
  "skey (slots (set_next i v s) ! j) = skey (slots s ! j)"
  "skey (slots (set_enc i e s) ! j) = skey (slots s ! j)"
proof -
  show "entry (set_prev i v s) = entry s" "entry (set_next i v s) = entry s"
    by (rule ext, cases "i < length (slots s)";
        simp add: entry_def set_prev_def set_next_def nth_list_update list_update_beyond)+
  then show "skey (slots (set_prev i v s) ! j) = skey (slots s ! j)"
    "skey (slots (set_next i v s) ! j) = skey (slots s ! j)"
    by (metis entry_def fst_conv)+
  show "skey (slots (set_enc i e s) ! j) = skey (slots s ! j)"
    by (cases "i < length (slots s)")
      (simp_all add: set_enc_def nth_list_update list_update_beyond)
qed

lemma entry_link:
  "entry (link_front x s) = entry s" "entry (unlink x s) = entry s"
  "skey (slots (link_front x s) ! j) = skey (slots s ! j)"
  "skey (slots (unlink x s) ! j) = skey (slots s ! j)"
  "entry (s\<lparr>htab := t\<rparr>) = entry s" "entry (s\<lparr>scount := n\<rparr>) = entry s"
  "entry (s\<lparr>free_head := n\<rparr>) = entry s" "entry (s\<lparr>shead := n\<rparr>) = entry s"
  "entry (s\<lparr>stail := n\<rparr>) = entry s"
proof -
  have up: "entry (s\<lparr>htab := t\<rparr>) = entry s" "entry (s\<lparr>scount := n\<rparr>) = entry s"
    "entry (s\<lparr>free_head := n\<rparr>) = entry s" "entry (s\<lparr>shead := n\<rparr>) = entry s"
    "entry (s\<lparr>stail := n\<rparr>) = entry s" for s t n
    by (simp_all add: fun_eq_iff entry_def)
  show "entry (s\<lparr>htab := t\<rparr>) = entry s" "entry (s\<lparr>scount := n\<rparr>) = entry s"
    "entry (s\<lparr>free_head := n\<rparr>) = entry s" "entry (s\<lparr>shead := n\<rparr>) = entry s"
    "entry (s\<lparr>stail := n\<rparr>) = entry s"
    by (rule up)+
  show l: "entry (link_front x s) = entry s" and u: "entry (unlink x s) = entry s"
    by (simp_all add: link_front_def unlink_def Let_def entry_set up)
  show "skey (slots (link_front x s) ! j) = skey (slots s ! j)"
    "skey (slots (unlink x s) ! j) = skey (slots s ! j)"
    using fun_cong [OF l, of j] fun_cong [OF u, of j] by (simp_all add: entry_def)
qed

lemma dll_cong:
  "slots s = slots t \<Longrightarrow> shead s = shead t \<Longrightarrow> stail s = stail t \<Longrightarrow> dll s = dll t"
  by (simp add: dll_def fun_eq_iff)

lemma set_enc_inv:
  assumes "shard_inv s ord fl" "i \<in> set ord"
  shows "shard_inv (set_enc i e s) ord fl"
proof -
  have "i < length (slots s)" using assms shard_inv_facts(5) by blast
  then have "nxt (set_enc i e s) = nxt s" "prv (set_enc i e s) = prv s"
    by (auto simp: fun_eq_iff slot_simps)
  then show ?thesis using assms(1) by (simp add: shard_inv_def dll_def entry_set)
qed

lemma delete_middle:
  assumes "distinct (map (\<lambda>i. skey (slots s ! i)) (xs @ i # ys))"
  shows "AList.delete (skey (slots s ! i)) (map (entry s) (xs @ i # ys)) = map (entry s) (xs @ ys)"
proof -
  let ?P = "\<lambda>(k', _). skey (slots s ! i) \<noteq> k'"
  have "skey (slots s ! i) \<noteq> skey (slots s ! j)" if "j \<in> set xs \<union> set ys" for j
    using assms that by force
  then have "filter ?P (map (entry s) zs) = map (entry s) zs" if "set zs \<subseteq> set xs \<union> set ys" for zs
    using that by (induction zs) (simp_all add: entry_def)
  then show ?thesis by (simp add: AList.delete_eq) (simp add: entry_def)
qed

lemma nxt_free:
  assumes "shard_inv s (xs @ i # ys) fl"
  shows "lseg (nxt (unlink i s)) (free_head s) fl kInvalid"
proof -
  have dis: "i \<notin> set fl" "xs \<noteq> [] \<Longrightarrow> last xs \<notin> set fl"
    using assms last_in_set [of xs] unfolding shard_inv_def by auto
  have d: "dll s (xs @ i # ys)" and fr: "lseg (nxt s) (free_head s) fl kInvalid"
    using assms by (simp_all add: shard_inv_def)
  show ?thesis unfolding dll_unlink(2) [OF d] using dis fr by (simp split: if_splits)
qed

lemma move_to_front_inv:
  assumes inv: "shard_inv s (xs @ i # ys) fl"
  shows "shard_inv (move_to_front i s) (i # xs @ ys) fl" "entry (move_to_front i s) = entry s"
proof -
  note facts = shard_inv_facts [OF inv]
  have iN: "i < length (slots s)" "i \<noteq> kInvalid" using facts(5,6) by auto
  show "entry (move_to_front i s) = entry s" by (simp add: move_to_front_def entry_link)
  show "shard_inv (move_to_front i s) (i # xs @ ys) fl"
  proof (cases "xs = []")
    case True
    then have "shead s = i" using dll_head [OF facts(1)] by simp
    with True inv show ?thesis by (simp add: move_to_front_def)
  next
    case False
    have d: "distinct (xs @ i # ys)" using facts(1) by (simp add: dll_def)
    have "shead s = hd xs" using dll_head [OF facts(1)] False by (cases xs) auto
    then have hd: "shead s \<noteq> i" using d False by (cases xs) auto
    let ?u = "unlink i s"
    have du: "dll ?u (xs @ ys)" by (rule dll_unlink(1) [OF facts(1)])
    have len: "length (slots ?u) = length (slots s)"
      by (simp add: unlink_def Let_def)
    have dl: "dll (link_front i ?u) (i # xs @ ys)"
      using du d iN len by (intro dll_link_front) auto
    have hu: "shead ?u = (case xs @ ys of [] \<Rightarrow> kInvalid | y # _ \<Rightarrow> y)"
      by (rule dll_head [OF du])
    have "shead ?u = kInvalid \<or> shead ?u \<in> set (xs @ ys)"
      unfolding hu by (cases "xs @ ys") auto
    then have h: "shead ?u = kInvalid \<or> shead ?u < length (slots ?u)" "shead ?u \<noteq> i"
      using d iN facts(5) len by auto
    have "nxt (link_front i ?u) = (nxt ?u)(i := shead ?u)"
      using iN len h by (intro link_front_fields) simp_all
    moreover have "i \<notin> set fl" using inv by (auto simp: shard_inv_def)
    ultimately have fr: "lseg (nxt (link_front i ?u)) (free_head s) fl kInvalid"
      using nxt_free [OF inv] by simp
    have dk: "distinct (map (\<lambda>i. skey (slots s ! i)) (xs @ i # ys))"
      and m: "ht_map (htab s) = map_of (map (\<lambda>i. (skey (slots s ! i), i)) (xs @ i # ys))"
      using inv by (simp_all add: shard_inv_def)
    have dk': "distinct (map (\<lambda>i. skey (slots s ! i)) (i # xs @ ys))" using dk by auto
    have same: "set (i # xs @ ys) = set (xs @ i # ys)" "length (i # xs @ ys) = length (xs @ i # ys)"
      by auto
    have m': "ht_map (htab s) = map_of (map (\<lambda>i. (skey (slots s ! i), i)) (i # xs @ ys))"
      unfolding m by (rule map_of_index_perm [OF dk dk' same(1) [symmetric]])
    have len': "length (slots (link_front i ?u)) = length (slots s)"
      using len by (simp add: link_front_def Let_def)
    have "shard_inv (link_front i ?u) (i # xs @ ys) fl"
    proof (rule shard_invI [OF dl shard_invD(2) [OF inv]])
      show "set fl \<inter> set (i # xs @ ys) = {}" "set fl \<union> set (i # xs @ ys) = {..<length (slots (link_front i ?u))}"
        unfolding same len' by (fact shard_invD [OF inv])+
      show "lseg (nxt (link_front i ?u)) (free_head (link_front i ?u)) fl kInvalid"
        using fr by simp
      show "scount (link_front i ?u) = length (i # xs @ ys)"
        using shard_invD(6) [OF inv] same(2) by simp
      show "distinct (map (\<lambda>j. skey (slots (link_front i ?u) ! j)) (i # xs @ ys))"
        unfolding entry_link by (rule dk')
      show "ht_map (htab (link_front i ?u))
          = map_of (map (\<lambda>j. (skey (slots (link_front i ?u) ! j), j)) (i # xs @ ys))"
        unfolding entry_link link_front_same unlink_same by (rule m')
    qed (use shard_invD [OF inv] len' in simp_all)
    with hd show ?thesis by (simp add: move_to_front_def)
  qed
qed

text \<open>After a slot \<open>i\<close> was taken for a new entry: neither used nor free.\<close>

definition slot_taken :: "shard \<Rightarrow> nat list \<Rightarrow> nat list \<Rightarrow> nat \<Rightarrow> bool" where
  "slot_taken s ord fl i \<longleftrightarrow> dll s ord
     \<and> distinct fl \<and> set fl \<inter> set ord = {} \<and> i \<notin> set fl \<union> set ord
     \<and> insert i (set fl \<union> set ord) = {..<length (slots s)}
     \<and> lseg (nxt s) (free_head s) fl kInvalid
     \<and> scount s = length ord \<and> length (slots s) \<le> scap s \<and> 0 < scap s \<and> scap s < kInvalid
     \<and> scap s < length (hkeys (htab s))
     \<and> table_ok (htab s) \<and> distinct (map (\<lambda>i. skey (slots s ! i)) ord)
     \<and> ht_map (htab s) = map_of (map (\<lambda>i. (skey (slots s ! i), i)) ord)"

lemma take_evict:
  assumes inv: "shard_inv s ord fl" and full: "scount s \<ge> scap s"
  shows "\<exists>s1 i. shard_take_slot s = Some (i, s1, True) \<and> slot_taken s1 (butlast ord) fl i
    \<and> map (entry s1) (butlast ord) = butlast (shard_view s) \<and> scap s1 = scap s"
proof -
  have ne: "ord \<noteq> []" using shard_invD(6,8) [OF inv] full by auto
  define xs i where xs: "xs = butlast ord" and i: "i = last ord"
  have ord: "ord = xs @ [i]" using ne by (simp add: xs i)
  note inv' = inv [unfolded ord] and D = shard_invD [OF inv, unfolded ord]
  have tail: "stail s = i" using dll_tail [OF shard_invD(1) [OF inv]] ne by (simp add: i)
  let ?k = "skey (slots s ! i)"
  have kne: "?k \<noteq> k_invalid_node_id" using shard_inv_facts(7) [OF inv'] by simp
  obtain h where h: "ht_erase ?k (htab s) = Some h" "table_ok h"
      "ht_map h = (ht_map (htab s))(?k := None)" "length (hkeys h) = length (hkeys (htab s))"
    using ht_erase_ok [OF shard_inv_facts(2,3) [OF inv] kne] by blast
  define s1 where "s1 = (unlink i (s\<lparr>htab := h\<rparr>))\<lparr>scount := scount s - 1\<rparr>"
  have take: "shard_take_slot s = Some (i, s1, True)"
    using full h(1) by (simp add: shard_take_slot_def tail s1_def Let_def)
  have u: "unlink i (s\<lparr>htab := h\<rparr>) = (unlink i s)\<lparr>htab := h\<rparr>"
    by (simp add: unlink_def Let_def set_prev_def set_next_def)
  have s1: "slots s1 = slots (unlink i s)" "shead s1 = shead (unlink i s)"
    "stail s1 = stail (unlink i s)" "htab s1 = h" "scap s1 = scap s" "free_head s1 = free_head s"
    "scount s1 = scount s - 1" unfolding s1_def u by simp_all
  have len: "length (slots s1) = length (slots s)" by (simp add: s1(1) unlink_def Let_def)
  have keys: "skey (slots s1 ! j) = skey (slots s ! j)" for j by (simp add: s1(1) entry_link)
  have dx: "distinct (map (\<lambda>j. skey (slots s ! j)) xs)" "?k \<notin> (\<lambda>j. skey (slots s ! j)) ` set xs"
    using D(12) by auto
  have eq: "map_of (map (\<lambda>j. (skey (slots s ! j), j)) xs) x
      = (if x = ?k then None else map_of (map (\<lambda>j. (skey (slots s ! j), j)) (xs @ [i])) x)" for x
    using dx(2) by (auto simp: map_add_def map_of_eq_None_iff image_image split: option.splits)
  have m: "ht_map h = map_of (map (\<lambda>j. (skey (slots s ! j), j)) xs)"
    unfolding h(3) D(13) by (rule ext) (simp only: fun_upd_apply eq)
  have "slot_taken s1 xs fl i"
    unfolding slot_taken_def
  proof (intro conjI)
    show "dll s1 xs"
      using dll_unlink(1) [OF D(1)] dll_cong [OF s1(1,2,3)] by simp
    show "lseg (nxt s1) (free_head s1) fl kInvalid"
      unfolding s1 using nxt_free [OF inv'] .
    have "i \<notin> set xs" using D(1) by (auto simp: dll_def)
    then show "i \<notin> set fl \<union> set xs" using D(3) by auto
    show "insert i (set fl \<union> set xs) = {..<length (slots s1)}" using D(4) len by auto
    show "ht_map (htab s1) = map_of (map (\<lambda>j. (skey (slots s1 ! j), j)) xs)"
      unfolding keys s1(4) by (rule m)
    show "distinct (map (\<lambda>j. skey (slots s1 ! j)) xs)" unfolding keys by (rule dx(1))
  qed (use D h s1 len in \<open>auto simp del: fun_upd_apply\<close>)
  moreover have "map (entry s1) xs = butlast (shard_view s)"
    unfolding shard_view_eq [OF inv] by (simp add: ord entry_def s1(1) fun_eq_iff)
      (metis entry_def entry_link(2) prod.inject)
  ultimately show ?thesis using take s1(5) unfolding xs by blast
qed

lemma take_free:
  assumes inv: "shard_inv s ord fl" and room: "\<not> scount s \<ge> scap s" "free_head s \<noteq> kInvalid"
  shows "\<exists>s1 i fl'. shard_take_slot s = Some (i, s1, False) \<and> slot_taken s1 ord fl' i
    \<and> map (entry s1) ord = shard_view s \<and> scap s1 = scap s"
proof -
  note D = shard_invD [OF inv]
  from D(5) room(2) obtain fl' where fl: "fl = free_head s # fl'" by (cases fl) auto
  let ?i = "free_head s"
  let ?s1 = "set_next ?i kInvalid (s\<lparr>free_head := nxt s ?i\<rparr>)"
  have iN: "?i < length (slots s)" using D(4) fl by auto
  have n: "nxt ?s1 = (nxt s)(?i := kInvalid)" "prv ?s1 = prv s"
    using iN by (auto simp: fun_eq_iff slot_simps)
  have keys: "skey (slots ?s1 ! j) = skey (slots s ! j)" for j
    using iN by (simp add: slot_simps)
  have "slot_taken ?s1 ord fl' ?i"
    unfolding slot_taken_def keys
  proof (intro conjI)
    have "?i \<notin> set ord" using D(3) fl by auto
    then show "dll ?s1 ord" using D(1) unfolding dll_def n by simp
    show "lseg (nxt ?s1) (free_head ?s1) fl' kInvalid"
      unfolding n using D(2,5) fl by simp
    show "insert ?i (set fl' \<union> set ord) = {..<length (slots ?s1)}" using D(4) fl by auto
  qed (use D fl in auto)
  moreover have "map (entry ?s1) ord = shard_view s"
    unfolding shard_view_eq [OF inv] by (simp add: entry_set entry_link)
  moreover have "shard_take_slot s = Some (?i, ?s1, False)"
    using room by (simp add: shard_take_slot_def Let_def)
  ultimately show ?thesis by auto
qed

lemma take_grow:
  assumes inv: "shard_inv s ord fl" and room: "\<not> scount s \<ge> scap s" "free_head s = kInvalid"
  shows "\<exists>s1 i. shard_take_slot s = Some (i, s1, False) \<and> slot_taken s1 ord [] i
    \<and> map (entry s1) ord = shard_view s \<and> scap s1 = scap s"
proof -
  note D = shard_invD [OF inv]
  let ?n = "length (slots s)" and ?s1 = "s\<lparr>slots := slots s @ [slot0]\<rparr>"
  have "fl = []"
  proof (cases fl)
    case (Cons f fl')
    with D(5) room(2) have "kInvalid < ?n" using D(4) by auto
    with D(7,9) show ?thesis by simp
  qed simp
  then have ord: "set ord = {..<?n}" and "distinct ord" using D(1,4) by (auto simp: dll_def)
  then have "length ord = ?n" by (metis card_lessThan distinct_card)
  with room D(6) have room': "Suc ?n \<le> scap s" by simp
  have old: "slots ?s1 ! j = slots s ! j" if "j \<in> set ord" for j
    using that ord by (simp add: nth_append)
  have "lseg (nxt ?s1) p ord q = lseg (nxt s) p ord q"
    "lseg (prv ?s1) p (rev ord) q = lseg (prv s) p (rev ord) q" for p q
    by (rule lseg_cong, simp only: old set_rev)+
  then have "dll ?s1 ord" using D(1) ord by (auto simp: dll_def)
  moreover have mk: "map (\<lambda>j. skey (slots ?s1 ! j)) ord = map (\<lambda>j. skey (slots s ! j)) ord"
    "map (\<lambda>j. (skey (slots ?s1 ! j), j)) ord = map (\<lambda>j. (skey (slots s ! j), j)) ord"
    by (rule map_cong; simp only: old)+
  have "slot_taken ?s1 ord [] ?n"
    unfolding slot_taken_def mk
  proof (intro conjI)
    show "dll ?s1 ord" by fact
    show "scount ?s1 = length ord" "0 < scap ?s1" "scap ?s1 < kInvalid"
      "scap ?s1 < length (hkeys (htab ?s1))" "table_ok (htab ?s1)"
      "distinct (map (\<lambda>j. skey (slots s ! j)) ord)"
      "ht_map (htab ?s1) = map_of (map (\<lambda>j. (skey (slots s ! j), j)) ord)"
      using D(6-13) by simp_all
  qed (simp_all add: ord room' room(2) lessThan_Suc)
  moreover have "map (entry ?s1) ord = shard_view s"
    unfolding shard_view_eq [OF inv] using old by (simp add: entry_def)
  moreover have "shard_take_slot s = Some (?n, ?s1, False)"
    using room by (simp add: shard_take_slot_def)
  ultimately show ?thesis by auto
qed

lemma slot_taken_link:
  assumes t: "slot_taken s1 ord fl i" and k: "k \<noteq> k_invalid_node_id" and room: "length ord < scap s1"
    and new: "\<forall>j \<in> set ord. skey (slots s1 ! j) \<noteq> k"
  shows "\<exists>h s2. ht_insert k i (htab s1) = Some h
    \<and> s2 = link_front i (set_enc i e (set_key i k s1))
    \<and> shard_inv (s2\<lparr>htab := h, scount := scount s1 + 1\<rparr>) (i # ord) fl
    \<and> map (entry (s2\<lparr>htab := h, scount := scount s1 + 1\<rparr>)) (i # ord) = (k, e) # map (entry s1) ord"
proof -
  from t have d: "dll s1 ord" and i: "i \<notin> set fl" "i \<notin> set ord"
    and sets: "set fl \<inter> set ord = {}" "insert i (set fl \<union> set ord) = {..<length (slots s1)}"
    and fl: "distinct fl" "lseg (nxt s1) (free_head s1) fl kInvalid"
    and n: "scount s1 = length ord" "length (slots s1) \<le> scap s1" "0 < scap s1" "scap s1 < kInvalid"
      "scap s1 < length (hkeys (htab s1))"
    and tb: "table_ok (htab s1)" "distinct (map (\<lambda>i. skey (slots s1 ! i)) ord)"
      "ht_map (htab s1) = map_of (map (\<lambda>i. (skey (slots s1 ! i), i)) ord)"
    unfolding slot_taken_def by blast+
  have iN: "i < length (slots s1)" using sets(2) by auto
  with n have iK: "i \<noteq> kInvalid" by linarith
  have "card (dom (ht_map (htab s1))) \<le> length ord"
    unfolding tb(3) dom_map_of_conv_image_fst by (rule order.trans [OF card_image_le])
      (auto intro: order.trans [OF card_image_le card_length] simp: image_image)
  with room n have "card (dom (ht_map (htab s1))) < length (hkeys (htab s1))" by linarith
  from ht_insert_ok [OF tb(1) this k] obtain h where h: "ht_insert k i (htab s1) = Some h"
    "table_ok h" "ht_map h = (ht_map (htab s1))(k \<mapsto> i)" "length (hkeys h) = length (hkeys (htab s1))"
    by blast
  define s' where "s' = set_enc i e (set_key i k s1)"
  define s2 where "s2 = link_front i s'"
  define s3 where "s3 = s2\<lparr>htab := h, scount := scount s1 + 1\<rparr>"
  have f': "nxt s' = nxt s1" "prv s' = prv s1"
    using iN by (auto simp: s'_def fun_eq_iff slot_simps)
  have key': "skey (slots s' ! j) = (if i = j then k else skey (slots s1 ! j))"
    "senc (slots s' ! j) = (if i = j then e else senc (slots s1 ! j))" for j
    using iN by (auto simp: s'_def slot_simps)
  have d': "dll s' ord" using d f' by (simp add: dll_def) (simp add: s'_def)
  have iN': "i < length (slots s')" using iN by (simp add: s'_def)
  have d2: "dll s2 (i # ord)" unfolding s2_def using d' i(2) iN' iK by (rule dll_link_front)
  have "shead s' = kInvalid \<or> shead s' \<in> set ord" using dll_head [OF d'] by (cases ord) auto
  then have hd: "shead s' = kInvalid \<or> shead s' < length (slots s')" "shead s' \<noteq> i"
    using d' i(2) iK by (auto simp: dll_def)
  have n2: "nxt s2 = (nxt s1)(i := shead s')"
    unfolding s2_def link_front_fields [OF iN' hd] f' ..
  have s3: "slots s3 = slots s2" "htab s3 = h" "scount s3 = length (i # ord)" "scap s3 = scap s1"
    "free_head s3 = free_head s1" "shead s3 = shead s2" "stail s3 = stail s2"
    by (simp_all add: s3_def s2_def s'_def n)
  have len: "length (slots s3) = length (slots s1)"
    by (simp add: s3(1) s2_def s'_def link_front_def Let_def)
  have ent: "entry s3 j = (if i = j then (k, e) else entry s1 j)" for j
    using fun_cong [OF entry_link(1) [of i s'], of j] key' by (simp add: entry_def s3(1) s2_def)
  then have key3: "skey (slots s3 ! j) = (if i = j then k else skey (slots s1 ! j))" for j
    by (metis entry_def fst_conv)
  have "shard_inv s3 (i # ord) fl"
  proof (rule shard_invI)
    show "dll s3 (i # ord)" using d2 dll_cong [OF s3(1,6,7)] by simp
    show "set fl \<inter> set (i # ord) = {}" "set fl \<union> set (i # ord) = {..<length (slots s3)}"
      using sets i(1) len by auto
    show "lseg (nxt s3) (free_head s3) fl kInvalid"
      using fl(2) i(1) by (simp add: s3 n2)
    have "map (\<lambda>j. skey (slots s3 ! j)) ord = map (\<lambda>j. skey (slots s1 ! j)) ord"
      using i(2) by (auto simp: key3)
    then have "distinct (map (\<lambda>j. skey (slots s3 ! j)) ord)" using tb(2) by (simp only:)
    then show "distinct (map (\<lambda>j. skey (slots s3 ! j)) (i # ord))"
      using new i(2) by (auto simp: key3)
    have "map (\<lambda>j. (skey (slots s3 ! j), j)) ord = map (\<lambda>j. (skey (slots s1 ! j), j)) ord"
      using i(2) by (auto simp: key3)
    then show "ht_map (htab s3) = map_of (map (\<lambda>j. (skey (slots s3 ! j), j)) (i # ord))"
      unfolding s3(2) h(3) tb(3) list.map map_of.simps fst_conv snd_conv by (simp only: key3 refl if_True)
  qed (use fl(1) h n s3 len in auto)
  moreover have "map (entry s3) (i # ord) = (k, e) # map (entry s1) ord"
    using i(2) by (auto simp: ent)
  ultimately show ?thesis
    unfolding s3_def using h(1) s2_def s'_def by (intro exI [of _ h] exI [of _ s2] conjI) simp_all
qed

theorem shard_put_ok:
  assumes inv: "shard_inv s ord fl" and k: "k \<noteq> k_invalid_node_id"
  shows "\<exists>s' b ord' fl'. shard_put k e s = Some (s', b) \<and> shard_inv s' ord' fl' \<and> scap s' = scap s
    \<and> shard_view s' = lru_put (scap s) k e (shard_view s)"
  using find_cases [OF inv k]
proof (elim disjE conjE bexE)
  fix i
  assume f: "ht_find (htab s) k = Some i" and i: "i \<in> set ord" "skey (slots s ! i) = k"
    and m: "map_of (shard_view s) k = Some (senc (slots s ! i))"
  obtain xs ys where ord: "ord = xs @ i # ys" using i(1) by (auto dest: split_list)
  have iN: "i < length (slots s)" "i \<noteq> kInvalid" using shard_inv_facts(5,6) [OF inv i(1)] by auto
  let ?t = "set_enc i e s"
  have inv': "shard_inv ?t (xs @ i # ys) fl" using set_enc_inv [OF inv i(1)] ord by simp
  note M = move_to_front_inv [OF inv']
  have d: "i \<notin> set xs" "i \<notin> set ys" using shard_invD(1) [OF inv] ord by (auto simp: dll_def)
  have "shard_view (move_to_front i ?t) = map (entry ?t) (i # xs @ ys)"
    using shard_view_eq [OF M(1)] M(2) by simp
  also have "\<dots> = (k, e) # map (entry s) (xs @ ys)"
    using iN d i(2) by (auto simp: entry_def slot_simps)
  also have "map (entry s) (xs @ ys) = AList.delete k (shard_view s)"
    unfolding shard_view_eq [OF inv] ord i(2) [symmetric]
    by (rule delete_middle [symmetric]) (use shard_invD(12) [OF inv] ord in simp)
  finally have "shard_view (move_to_front i ?t) = lru_put (scap s) k e (shard_view s)"
    using m by (simp add: lru_put_def)
  moreover have "scap (move_to_front i ?t) = scap s" by (simp add: move_to_front_def)
  ultimately show ?thesis using f iN M(1) by (auto simp: shard_put_def)
next
  assume f: "ht_find (htab s) k = Some kInvalid" and m: "map_of (shard_view s) k = None"
    and new: "\<forall>i \<in> set ord. skey (slots s ! i) \<noteq> k"
  note D = shard_invD [OF inv]
  let ?full = "scount s \<ge> scap s"
  have "\<exists>s1 i fl' b. shard_take_slot s = Some (i, s1, b)
      \<and> slot_taken s1 (if ?full then butlast ord else ord) fl' i
      \<and> map (entry s1) (if ?full then butlast ord else ord)
          = (if ?full then butlast (shard_view s) else shard_view s) \<and> scap s1 = scap s"
    using take_evict [OF inv] take_free [OF inv] take_grow [OF inv] by (cases ?full) (simp, blast)+
  then obtain s1 i fl' b ord' where take: "shard_take_slot s = Some (i, s1, b)"
    and ord': "ord' = (if ?full then butlast ord else ord)"
    and t: "slot_taken s1 ord' fl' i"
    and v: "map (entry s1) ord' = (if ?full then butlast (shard_view s) else shard_view s)"
    and c: "scap s1 = scap s" by blast
  have len: "length (shard_view s) = length ord" by (simp add: shard_view_eq [OF inv])
  have "length ord \<le> scap s"
  proof -
    have "distinct ord" "set ord \<subseteq> {..<length (slots s)}" using D(1) by (simp_all add: dll_def)
    from card_bound [OF this] D(7) show ?thesis by simp
  qed
  then have room: "length ord' < scap s1" using D(6,8) c ord' by auto
  have "set (map (entry s1) ord') \<subseteq> set (shard_view s)"
    unfolding v by (auto dest: in_set_butlastD)
  moreover have "fst p \<noteq> k" if "p \<in> set (shard_view s)" for p
    using that m by (auto simp: map_of_eq_None_iff)
  ultimately have "\<forall>j \<in> set ord'. skey (slots s1 ! j) \<noteq> k" by (force simp: entry_def)
  note link = slot_taken_link [OF t k room this, of e]
  obtain h s2 where h: "ht_insert k i (htab s1) = Some h"
    and s2: "s2 = link_front i (set_enc i e (set_key i k s1))"
    and inv2: "shard_inv (s2\<lparr>htab := h, scount := scount s1 + 1\<rparr>) (i # ord') fl'"
    and v2: "map (entry (s2\<lparr>htab := h, scount := scount s1 + 1\<rparr>)) (i # ord') = (k, e) # map (entry s1) ord'"
    using link by (elim exE conjE) (rule that)
  have s2': "scount s2 = scount s1" "htab s2 = htab s1" by (simp_all add: s2)
  have "shard_put k e s = Some (s2\<lparr>htab := h, scount := scount s1 + 1\<rparr>, b)"
    unfolding shard_put_def f take Let_def option.case prod.case s2 [symmetric] s2' h by simp
  moreover have "shard_view (s2\<lparr>htab := h, scount := scount s1 + 1\<rparr>) = lru_put (scap s) k e (shard_view s)"
    unfolding shard_view_eq [OF inv2] v2 v lru_put_def using m len D(6) by simp
  moreover have "scap (s2\<lparr>htab := h, scount := scount s1 + 1\<rparr>) = scap s" using c s2 by simp
  ultimately show ?thesis using inv2 by blast
qed

theorem shard_erase_ok:
  assumes inv: "shard_inv s ord fl" and k: "k \<noteq> k_invalid_node_id"
  shows "\<exists>s' ord' fl'. shard_erase k s = Some (s', map_of (shard_view s) k \<noteq> None)
    \<and> shard_inv s' ord' fl' \<and> scap s' = scap s \<and> shard_view s' = lru_erase k (shard_view s)"
  using find_cases [OF inv k]
proof (elim disjE conjE bexE)
  assume "ht_find (htab s) k = Some kInvalid" and m: "map_of (shard_view s) k = None"
  moreover from m have "AList.delete k (shard_view s) = shard_view s"
    by (simp add: map_of_eq_None_iff)
  ultimately show ?thesis using inv by (auto simp: shard_erase_def lru_erase_def)
next
  fix i
  assume f: "ht_find (htab s) k = Some i" and i: "i \<in> set ord" "skey (slots s ! i) = k"
    and m: "map_of (shard_view s) k = Some (senc (slots s ! i))"
  obtain xs ys where ord: "ord = xs @ i # ys" using i(1) by (auto dest: split_list)
  note inv' = inv [unfolded ord] and D = shard_invD [OF inv, unfolded ord]
  have iN: "i < length (slots s)" "i \<noteq> kInvalid" using shard_inv_facts(5,6) [OF inv i(1)] by auto
  obtain h where h: "ht_erase k (htab s) = Some h" "table_ok h"
      "ht_map h = (ht_map (htab s))(k := None)" "length (hkeys h) = length (hkeys (htab s))"
    using ht_erase_ok [OF shard_inv_facts(2,3) [OF inv] k] by blast
  let ?u = "unlink i s"
  define s2 where "s2 = set_enc i [] (?u\<lparr>htab := h, scount := scount s - 1\<rparr>)"
  define s3 where "s3 = (set_next i (free_head s) s2)\<lparr>free_head := i\<rparr>"
  have er: "shard_erase k s = Some (s3, True)"
    using f iN h(1) by (simp add: shard_erase_def Let_def s3_def s2_def)
  have lu: "length (slots ?u) = length (slots s)" by (simp add: unlink_def Let_def)
  have len: "length (slots s3) = length (slots s)" using lu by (simp add: s3_def s2_def)
  have fields: "nxt s3 = (nxt ?u)(i := free_head s)" "prv s3 = prv ?u" "shead s3 = shead ?u"
    "stail s3 = stail ?u" "htab s3 = h" "scap s3 = scap s" "free_head s3 = i"
    "scount s3 = length (xs @ ys)"
    using iN lu D(6) by (auto simp: s3_def s2_def fun_eq_iff slot_simps)
  have iout: "i \<notin> set xs" "i \<notin> set ys" "i \<notin> set fl" using D(1,3) by (auto simp: dll_def)
  have ent: "entry s3 j = entry s j" if "j \<noteq> i" for j
    using that iN lu fun_cong [OF entry_link(2) [of i s], of j]
    by (simp add: s3_def s2_def entry_def slot_simps)
  then have key: "skey (slots s3 ! j) = skey (slots s ! j)" if "j \<noteq> i" for j
    using that by (metis entry_def fst_conv)
  have "shard_inv s3 (xs @ ys) (i # fl)"
  proof (rule shard_invI)
    show "dll s3 (xs @ ys)"
      using dll_unlink(1) [OF D(1)] iout unfolding dll_def fields by (simp add: len lu)
    show "lseg (nxt s3) (free_head s3) (i # fl) kInvalid"
      using nxt_free [OF inv'] iout unfolding fields by simp
    have ks: "map (\<lambda>j. skey (slots s3 ! j)) (xs @ ys) = map (\<lambda>j. skey (slots s ! j)) (xs @ ys)"
      by (rule map_cong [OF refl key]) (use iout in auto)
    show dk: "distinct (map (\<lambda>j. skey (slots s3 ! j)) (xs @ ys))"
      unfolding ks using D(12) by auto
    have ks': "map (\<lambda>j. (skey (slots s3 ! j), j)) (xs @ ys) = map (\<lambda>j. (skey (slots s ! j), j)) (xs @ ys)"
      by (rule map_cong [OF refl], subst key) (use iout in auto)
    show "ht_map (htab s3) = map_of (map (\<lambda>j. (skey (slots s3 ! j), j)) (xs @ ys))"
      unfolding ks' fields(5) h(3) D(13) i(2) [symmetric] by (rule map_of_index_remove [OF D(12)])
    show "set (i # fl) \<inter> set (xs @ ys) = {}" "set (i # fl) \<union> set (xs @ ys) = {..<length (slots s3)}"
      using D(3,4) iout len by auto
  qed (use D h len iout fields in auto)
  moreover have "map (entry s3) (xs @ ys) = lru_erase k (shard_view s)"
  proof -
    have "map (entry s3) (xs @ ys) = map (entry s) (xs @ ys)"
      by (rule map_cong [OF refl ent]) (use iout in auto)
    also have "\<dots> = AList.delete k (map (entry s) (xs @ i # ys))"
      unfolding i(2) [symmetric] by (rule delete_middle [symmetric, OF D(12)])
    finally show ?thesis unfolding lru_erase_def shard_view_eq [OF inv] ord .
  qed
  ultimately show ?thesis
    using er m fields(6) shard_view_eq [of s3 "xs @ ys" "i # fl"] by auto
qed

subsection \<open>The cache\<close>

record edge_cache =
  ec_capacity :: nat
  ec_shards :: "shard list"
  hits :: u64
  misses :: u64
  evictions :: u64
  invalidations :: u64

definition kNumShards :: nat where
  "kNumShards = 64"

definition edge_cache_init :: "nat \<Rightarrow> edge_cache" where
  "edge_cache_init cap = \<lparr>ec_capacity = cap,
     ec_shards = replicate kNumShards (shard_init (max 1 (cap div kNumShards))),
     hits = 0, misses = 0, evictions = 0, invalidations = 0\<rparr>"

definition shard_for :: "node_id \<Rightarrow> nat" where
  "shard_for nid =
     (let h1 = nid XOR drop_bit 33 nid; h2 = h1 * 0xff51afd7ed558ccd; h3 = h2 XOR drop_bit 33 h2
      in unat h3 mod kNumShards)"

text \<open>
  The cache's operations, \<open>varint\<close> being the latched switch of the encoding. \<open>None\<close> is a call that
  does not return a value (a probe loop that does not end, a decode that reads past its bytes).
\<close>

definition ec_get :: "bool \<Rightarrow> node_id \<Rightarrow> edge_cache \<Rightarrow> (node_id list option \<times> edge_cache) option" where
  "ec_get varint nid c =
     (case shard_get nid (ec_shards c ! shard_for nid) of
        None \<Rightarrow> None
      | Some None \<Rightarrow> Some (None, c\<lparr>misses := misses c + 1\<rparr>)
      | Some (Some e) \<Rightarrow>
          (case edge_decode varint e of
             None \<Rightarrow> None
           | Some ns \<Rightarrow> Some (Some ns, c\<lparr>hits := hits c + 1\<rparr>)))"

definition ec_put :: "bool \<Rightarrow> node_id \<Rightarrow> node_id list \<Rightarrow> edge_cache \<Rightarrow> edge_cache option" where
  "ec_put varint nid ns c =
     (case shard_put nid (edge_encode varint ns) (ec_shards c ! shard_for nid) of
        None \<Rightarrow> None
      | Some (s, evicted) \<Rightarrow>
          Some (c\<lparr>ec_shards := (ec_shards c)[shard_for nid := s],
                  evictions := evictions c + of_bool evicted\<rparr>))"

definition ec_erase :: "node_id \<Rightarrow> edge_cache \<Rightarrow> edge_cache option" where
  "ec_erase nid c =
     (case shard_erase nid (ec_shards c ! shard_for nid) of
        None \<Rightarrow> None
      | Some (s, found) \<Rightarrow>
          Some (c\<lparr>ec_shards := (ec_shards c)[shard_for nid := s],
                  invalidations := invalidations c + of_bool found\<rparr>))"

text \<open>A shard's entries are encodings; \<open>ec_view\<close> is what the cache holds for an id.\<close>

definition shard_ok :: "bool \<Rightarrow> nat \<Rightarrow> shard \<Rightarrow> bool" where
  "shard_ok varint cap s \<longleftrightarrow> (\<exists>ord fl. shard_inv s ord fl) \<and> scap s = cap
     \<and> (\<forall>(k, e) \<in> set (shard_view s). \<exists>ns. e = edge_encode varint ns)"

definition edge_cache_ok :: "bool \<Rightarrow> edge_cache \<Rightarrow> bool" where
  "edge_cache_ok varint c \<longleftrightarrow> length (ec_shards c) = kNumShards
     \<and> (\<forall>s \<in> set (ec_shards c). shard_ok varint (max 1 (ec_capacity c div kNumShards)) s)"

definition ec_view :: "bool \<Rightarrow> edge_cache \<Rightarrow> node_id \<rightharpoonup> node_id list" where
  "ec_view varint c nid =
     Option.bind (map_of (shard_view (ec_shards c ! shard_for nid)) nid) (edge_decode varint)"

subsection \<open>The interface its client uses\<close>

text \<open>
  A lookup cache over keys \<open>ok_key\<close>: \<open>get\<close> answers from the view, \<open>put\<close> makes its entry visible
  and may drop others, \<open>erase\<close> hides its entry.
\<close>

locale edge_lookup =
  fixes inv :: "'c \<Rightarrow> bool" and ok_key :: "'k \<Rightarrow> bool" and view :: "'c \<Rightarrow> 'k \<rightharpoonup> 'v"
    and get :: "'k \<Rightarrow> 'c \<Rightarrow> ('v option \<times> 'c) option"
    and put :: "'k \<Rightarrow> 'v \<Rightarrow> 'c \<Rightarrow> 'c option"
    and erase :: "'k \<Rightarrow> 'c \<Rightarrow> 'c option"
  assumes get_law: "inv c \<Longrightarrow> ok_key k \<Longrightarrow> \<exists>c'. get k c = Some (view c k, c') \<and> inv c' \<and> view c' = view c"
    and put_law: "inv c \<Longrightarrow> ok_key k \<Longrightarrow>
      \<exists>c'. put k v c = Some c' \<and> inv c' \<and> view c' \<subseteq>\<^sub>m (view c)(k \<mapsto> v) \<and> view c' k = Some v"
    and erase_law: "inv c \<Longrightarrow> ok_key k \<Longrightarrow>
      \<exists>c'. erase k c = Some c' \<and> inv c' \<and> view c' = (view c)(k := None)"

text \<open>The way \<open>getEdgesCached\<close> uses a cache over a loader.\<close>

definition read_through ::
  "('k \<Rightarrow> 'c \<Rightarrow> ('v option \<times> 'c) option) \<Rightarrow> ('k \<Rightarrow> 'v \<Rightarrow> 'c \<Rightarrow> 'c option)
    \<Rightarrow> ('k \<Rightarrow> 'v) \<Rightarrow> 'k \<Rightarrow> 'c \<Rightarrow> ('v \<times> 'c) option" where
  "read_through get put load k c =
     (case get k c of
        None \<Rightarrow> None
      | Some (Some v, c') \<Rightarrow> Some (v, c')
      | Some (None, c') \<Rightarrow> (case put k (load k) c' of None \<Rightarrow> None | Some c'' \<Rightarrow> Some (load k, c'')))"

fun erase_all :: "('k \<Rightarrow> 'c \<Rightarrow> 'c option) \<Rightarrow> 'k list \<Rightarrow> 'c \<Rightarrow> 'c option" where
  "erase_all erase [] c = Some c"
| "erase_all erase (k # ks) c = (case erase k c of None \<Rightarrow> None | Some c' \<Rightarrow> erase_all erase ks c')"

context edge_lookup
begin

definition coherent :: "('k \<Rightarrow> 'v) \<Rightarrow> 'c \<Rightarrow> bool" where
  "coherent load c \<longleftrightarrow> inv c \<and> view c \<subseteq>\<^sub>m (\<lambda>k. Some (load k))"

text \<open>A coherent cache is transparent: reading through it is reading the loader.\<close>

lemma read_through_ok:
  assumes "coherent load c" "ok_key k"
  shows "\<exists>c'. read_through get put load k c = Some (load k, c') \<and> coherent load c'"
proof -
  from assms obtain c1 where g: "get k c = Some (view c k, c1)" "inv c1" "view c1 = view c"
    using get_law unfolding coherent_def by blast
  show ?thesis
  proof (cases "view c k")
    case (Some v)
    then have "v = load k" using assms(1) by (force simp: coherent_def map_le_def)
    with Some g assms(1) show ?thesis by (simp add: read_through_def coherent_def)
  next
    case None
    obtain c2 where p: "put k (load k) c1 = Some c2" "inv c2" "view c2 \<subseteq>\<^sub>m (view c1)(k \<mapsto> load k)"
      using put_law [OF g(2) assms(2)] by blast
    have "view c2 \<subseteq>\<^sub>m (\<lambda>k. Some (load k))"
      using p(3) assms(1) g(3) unfolding coherent_def map_le_def
      by (metis (mono_tags, lifting) domI domIff fun_upd_apply)
    with None g(1) p show ?thesis by (simp add: read_through_def coherent_def)
  qed
qed

text \<open>Erasing the keys whose values changed keeps the cache coherent.\<close>

lemma erase_all_ok:
  "coherent load c \<Longrightarrow> \<forall>k \<in> set ks. ok_key k \<Longrightarrow> 
    (\<And>k. load' k \<noteq> load k \<Longrightarrow> k \<in> set ks \<or> view c k = None) \<Longrightarrow>
    \<exists>c'. erase_all erase ks c = Some c' \<and> coherent load' c'"
proof -
  have aux: "inv c \<Longrightarrow> \<forall>k \<in> set ks. ok_key k \<Longrightarrow>
      \<exists>c'. erase_all erase ks c = Some c' \<and> inv c' \<and> view c' = (view c) |` (- set ks)"
  proof (induction ks arbitrary: c)
    case Nil
    then show ?case by simp
  next
    case (Cons k ks)
    then obtain c1 where c1: "erase k c = Some c1" "inv c1" "view c1 = (view c)(k := None)"
      using erase_law by (metis list.set_intros(1))
    from Cons.IH [OF c1(2)] Cons.prems(2) obtain c2 where
      "erase_all erase ks c1 = Some c2" "inv c2" "view c2 = (view c1) |` (- set ks)" by auto
    with c1 show ?case by (auto simp: restrict_map_def fun_eq_iff)
  qed
  assume "coherent load c" "\<forall>k \<in> set ks. ok_key k"
    and diff: "\<And>k. load' k \<noteq> load k \<Longrightarrow> k \<in> set ks \<or> view c k = None"
  moreover from aux this(1,2) obtain c' where c': "erase_all erase ks c = Some c'" "inv c'"
    "view c' = (view c) |` (- set ks)" unfolding coherent_def by blast
  moreover have "view c' \<subseteq>\<^sub>m (\<lambda>k. Some (load' k))"
    unfolding map_le_def
  proof
    fix k assume "k \<in> dom (view c')"
    with c'(3) have "k \<notin> set ks" "view c' k = view c k" "k \<in> dom (view c)"
      by (auto simp: restrict_map_def split: if_splits)
    with diff \<open>coherent load c\<close> show "view c' k = Some (load' k)"
      unfolding coherent_def map_le_def by (metis domIff)
  qed
  ultimately show ?thesis unfolding coherent_def by blast
qed

end

subsection \<open>The cache provides the interface\<close>

lemma shard_for_less: "shard_for nid < kNumShards"
  by (simp add: shard_for_def Let_def kNumShards_def)

lemma ok_shard:
  assumes "edge_cache_ok varint c"
  shows "shard_ok varint (max 1 (ec_capacity c div kNumShards)) (ec_shards c ! shard_for nid)"
  using assms shard_for_less [of nid] by (simp add: edge_cache_ok_def)

lemma edge_cache_ok_update:
  assumes "edge_cache_ok varint c" "shard_ok varint (max 1 (ec_capacity c div kNumShards)) s"
  shows "edge_cache_ok varint (c\<lparr>ec_shards := (ec_shards c)[i := s], evictions := a, invalidations := b\<rparr>)"
  using assms by (auto simp: edge_cache_ok_def dest!: set_update_subset_insert [THEN subsetD])

lemma edge_cache_init_ok:
  assumes "cap < 2 ^ 32"
  shows "edge_cache_ok varint (edge_cache_init cap)" "ec_view varint (edge_cache_init cap) = Map.empty"
proof -
  have c: "0 < max 1 (cap div kNumShards)" "max 1 (cap div kNumShards) < kInvalid"
    using assms by (auto simp: kNumShards_def kInvalid_def)
  note s = shard_init_ok [OF c]
  show "edge_cache_ok varint (edge_cache_init cap)"
    using s by (auto simp: edge_cache_ok_def edge_cache_init_def shard_ok_def shard_init_def)
  show "ec_view varint (edge_cache_init cap) = Map.empty"
    using s shard_for_less by (simp add: ec_view_def edge_cache_init_def fun_eq_iff)
qed

lemma ec_view_update:
  assumes "length (ec_shards c) = kNumShards" "shard_for nid = i"
  shows "ec_view varint (c\<lparr>ec_shards := (ec_shards c)[i := s], evictions := a, invalidations := b\<rparr>) k =
    (if shard_for k = i then Option.bind (map_of (shard_view s) k) (edge_decode varint)
     else ec_view varint c k)"
  using assms shard_for_less [of nid] by (simp add: ec_view_def)

lemma lru_put_map: "map_of (lru_put cap k e L) \<subseteq>\<^sub>m (map_of L)(k \<mapsto> e)"
proof -
  have "map_of (butlast L) \<subseteq>\<^sub>m map_of L"
    by (cases L rule: rev_cases) (auto simp: map_add_le_mapI)
  then show ?thesis
    by (auto simp: lru_put_def map_le_def delete_conv' split: if_splits)
qed

lemma lru_erase_map: "map_of (lru_erase k L) = (map_of L)(k := None)"
  by (simp add: lru_erase_def delete_conv')

lemma shard_put_keeps:
  assumes "shard_ok varint cap s" "k \<noteq> k_invalid_node_id"
  shows "\<exists>s' b. shard_put k (edge_encode varint ns) s = Some (s', b) \<and> shard_ok varint cap s'
    \<and> map_of (shard_view s') \<subseteq>\<^sub>m (map_of (shard_view s))(k \<mapsto> edge_encode varint ns)
    \<and> map_of (shard_view s') k = Some (edge_encode varint ns)"
proof -
  from assms(1) obtain ord fl where inv: "shard_inv s ord fl" by (auto simp: shard_ok_def)
  from shard_put_ok [OF inv assms(2), of "edge_encode varint ns"] obtain s' b ord' fl' where
    p: "shard_put k (edge_encode varint ns) s = Some (s', b)" "shard_inv s' ord' fl'" "scap s' = scap s"
    "shard_view s' = lru_put (scap s) k (edge_encode varint ns) (shard_view s)" by blast
  have "set (shard_view s') \<subseteq> insert (k, edge_encode varint ns) (set (shard_view s))"
    unfolding p(4) lru_put_def by (auto simp: AList.delete_eq dest: in_set_butlastD)
  with assms(1) p(2,3) have "shard_ok varint cap s'" by (auto simp: shard_ok_def)
  moreover have "map_of (shard_view s') k = Some (edge_encode varint ns)"
    by (simp add: p(4) lru_put_def)
  moreover have "map_of (shard_view s') \<subseteq>\<^sub>m (map_of (shard_view s))(k \<mapsto> edge_encode varint ns)"
    unfolding p(4) by (rule lru_put_map)
  ultimately show ?thesis using p(1) by blast
qed

lemma shard_erase_keeps:
  assumes "shard_ok varint cap s" "k \<noteq> k_invalid_node_id"
  shows "\<exists>s' b. shard_erase k s = Some (s', b) \<and> shard_ok varint cap s'
    \<and> map_of (shard_view s') = (map_of (shard_view s))(k := None)"
proof -
  from assms(1) obtain ord fl where inv: "shard_inv s ord fl" by (auto simp: shard_ok_def)
  from shard_erase_ok [OF inv assms(2)] obtain s' b ord' fl' where
    p: "shard_erase k s = Some (s', b)" "shard_inv s' ord' fl'" "scap s' = scap s"
    "shard_view s' = lru_erase k (shard_view s)" by blast
  have "set (shard_view s') \<subseteq> set (shard_view s)"
    unfolding p(4) lru_erase_def by (auto simp: AList.delete_eq)
  with assms(1) p(2,3) have "shard_ok varint cap s'" by (auto simp: shard_ok_def)
  with p lru_erase_map show ?thesis by (metis)
qed

lemma ec_get_law:
  assumes "edge_cache_ok varint c" "k \<noteq> k_invalid_node_id"
  shows "\<exists>c'. ec_get varint k c = Some (ec_view varint c k, c') \<and> edge_cache_ok varint c'
    \<and> ec_view varint c' = ec_view varint c"
proof -
  let ?s = "ec_shards c ! shard_for k"
  obtain ord fl where inv: "shard_inv ?s ord fl"
    and enc: "\<And>k e. (k, e) \<in> set (shard_view ?s) \<Longrightarrow> \<exists>ns. e = edge_encode varint ns"
    using ok_shard [OF assms(1), of k] unfolding shard_ok_def by blast
  have get: "shard_get k ?s = Some (map_of (shard_view ?s) k)"
    by (rule shard_get_ok [OF inv assms(2)])
  have same: "edge_cache_ok varint (c\<lparr>misses := m\<rparr>) = edge_cache_ok varint c"
    "edge_cache_ok varint (c\<lparr>hits := m\<rparr>) = edge_cache_ok varint c"
    "ec_view varint (c\<lparr>misses := m\<rparr>) = ec_view varint c"
    "ec_view varint (c\<lparr>hits := m\<rparr>) = ec_view varint c" for m
    by (simp_all add: edge_cache_ok_def ec_view_def fun_eq_iff)
  show ?thesis
  proof (cases "map_of (shard_view ?s) k")
    case None
    then have "ec_view varint c k = None" by (simp add: ec_view_def)
    with None get assms(1) show ?thesis by (simp add: ec_get_def same)
  next
    case (Some e)
    from enc [OF map_of_SomeD [OF Some]] obtain ns where e: "e = edge_encode varint ns" ..
    then have "ec_view varint c k = Some ns" using Some by (simp add: ec_view_def edge_decode_encode)
    with Some e get assms(1) show ?thesis by (simp add: ec_get_def same edge_decode_encode)
  qed
qed

lemma ec_put_law:
  assumes "edge_cache_ok varint c" "k \<noteq> k_invalid_node_id"
  shows "\<exists>c'. ec_put varint k ns c = Some c' \<and> edge_cache_ok varint c'
    \<and> ec_view varint c' \<subseteq>\<^sub>m (ec_view varint c)(k \<mapsto> ns) \<and> ec_view varint c' k = Some ns"
proof -
  let ?i = "shard_for k" and ?e = "edge_encode varint ns"
  obtain s' b where p: "shard_put k ?e (ec_shards c ! ?i) = Some (s', b)"
    "shard_ok varint (max 1 (ec_capacity c div kNumShards)) s'"
    "map_of (shard_view s') \<subseteq>\<^sub>m (map_of (shard_view (ec_shards c ! ?i)))(k \<mapsto> ?e)"
    "map_of (shard_view s') k = Some ?e"
    using shard_put_keeps [OF ok_shard [OF assms(1)] assms(2)] by blast
  let ?c' = "c\<lparr>ec_shards := (ec_shards c)[?i := s'], evictions := evictions c + of_bool b,
    invalidations := invalidations c\<rparr>"
  have put: "ec_put varint k ns c = Some ?c'" using p(1) by (simp add: ec_put_def)
  have ok: "edge_cache_ok varint ?c'" using assms(1) p(2) by (rule edge_cache_ok_update)
  have len: "length (ec_shards c) = kNumShards" using assms(1) by (simp add: edge_cache_ok_def)
  note view = ec_view_update [OF len refl [of ?i]]
  have k: "ec_view varint ?c' k = Some ns"
    unfolding view by (simp add: p(4) edge_decode_encode)
  have "ec_view varint ?c' j = ec_view varint c j \<or> ec_view varint ?c' j = None" if "j \<noteq> k" for j
  proof (cases "shard_for j = ?i \<and> map_of (shard_view s') j \<noteq> None")
    case True
    then have "map_of (shard_view s') j = map_of (shard_view (ec_shards c ! ?i)) j"
      using p(3) that unfolding map_le_def by (metis domIff fun_upd_apply)
    with True show ?thesis unfolding view by (simp add: ec_view_def)
  next
    case False
    then show ?thesis unfolding view by auto
  qed
  then have "ec_view varint ?c' \<subseteq>\<^sub>m (ec_view varint c)(k \<mapsto> ns)"
    using k unfolding map_le_def by (metis domIff fun_upd_apply)
  with put ok k show ?thesis by blast
qed

lemma ec_erase_law:
  assumes "edge_cache_ok varint c" "k \<noteq> k_invalid_node_id"
  shows "\<exists>c'. ec_erase k c = Some c' \<and> edge_cache_ok varint c'
    \<and> ec_view varint c' = (ec_view varint c)(k := None)"
proof -
  let ?i = "shard_for k"
  obtain s' b where p: "shard_erase k (ec_shards c ! ?i) = Some (s', b)"
    "shard_ok varint (max 1 (ec_capacity c div kNumShards)) s'"
    "map_of (shard_view s') = (map_of (shard_view (ec_shards c ! ?i)))(k := None)"
    using shard_erase_keeps [OF ok_shard [OF assms(1)] assms(2)] by blast
  let ?c' = "c\<lparr>ec_shards := (ec_shards c)[?i := s'], evictions := evictions c,
    invalidations := invalidations c + of_bool b\<rparr>"
  have er: "ec_erase k c = Some ?c'" using p(1) by (simp add: ec_erase_def)
  have ok: "edge_cache_ok varint ?c'" using assms(1) p(2) by (rule edge_cache_ok_update)
  have len: "length (ec_shards c) = kNumShards" using assms(1) by (simp add: edge_cache_ok_def)
  have "ec_view varint ?c' = (ec_view varint c)(k := None)"
    by (rule ext, subst ec_view_update [OF len refl [of ?i]])
      (auto simp: p(3) ec_view_def)
  with er ok show ?thesis by blast
qed

interpretation ec: edge_lookup "edge_cache_ok varint" "\<lambda>k. k \<noteq> k_invalid_node_id" "ec_view varint"
    "ec_get varint" "ec_put varint" ec_erase for varint
  by unfold_locales (blast intro: ec_get_law ec_put_law ec_erase_law)+

subsection \<open>Properties\<close>

text \<open>C19: Storing a list in a shard puts it at the front of the use order; when the shard is full
  exactly the entry at the back goes. The arena with its two intrusive lists and the probe table
  implement this bounded list, and no probe loop runs forever.\<close>

theorem edge_shard_refines_lru:
  assumes "shard_inv s ord fl" "k \<noteq> k_invalid_node_id"
  shows "\<exists>s' b ord' fl'. shard_put k e s = Some (s', b) \<and> shard_inv s' ord' fl'
    \<and> shard_view s' = lru_put (scap s) k e (shard_view s)
    \<and> shard_get k s' = Some (Some e)"
proof -
  obtain s' b ord' fl' where p: "shard_put k e s = Some (s', b)" "shard_inv s' ord' fl'"
    "shard_view s' = lru_put (scap s) k e (shard_view s)"
    using shard_put_ok [OF assms, of e] by blast
  moreover have "shard_get k s' = Some (Some e)"
    using shard_get_ok [OF p(2) assms(2)] by (simp add: p(3) lru_put_def)
  ultimately show ?thesis by (intro exI conjI)
qed

theorem edge_shard_refines_lru_witness:
  "\<exists>s' b. shard_put 9 [4] (shard_init 2) = Some (s', b) \<and> shard_get 9 s' = Some (Some [4])"
  using edge_shard_refines_lru [OF shard_init_ok(1) [of 2], of 9 "[4]"]
  by (auto simp: kInvalid_def k_invalid_node_id_def)

text \<open>C18: The cache is transparent: reading neighbour lists through it gives what the store holds,
  whatever was evicted, and after a write followed by erasing the written ids it is still so for
  the new contents.\<close>

theorem edge_cache_transparent:
  assumes "ec.coherent varint load c" "k \<noteq> k_invalid_node_id"
    and "\<forall>j \<in> set ks. j \<noteq> k_invalid_node_id" "\<And>j. load' j \<noteq> load j \<Longrightarrow> j \<in> set ks"
  shows "\<exists>c1 c2 c3. read_through (ec_get varint) (ec_put varint) load k c = Some (load k, c1)
    \<and> erase_all ec_erase ks c1 = Some c2
    \<and> read_through (ec_get varint) (ec_put varint) load' k c2 = Some (load' k, c3)
    \<and> ec.coherent varint load' c3"
proof -
  obtain c1 where c1: "read_through (ec_get varint) (ec_put varint) load k c = Some (load k, c1)"
    "ec.coherent varint load c1"
    using ec.read_through_ok [OF assms(1,2)] by blast
  obtain c2 where c2: "erase_all ec_erase ks c1 = Some c2" "ec.coherent varint load' c2"
    using ec.erase_all_ok [OF c1(2) assms(3)] assms(4) by blast
  with c1 ec.read_through_ok [OF c2(2) assms(2)] show ?thesis by blast
qed

theorem edge_cache_transparent_witness:
  "\<exists>c1 c2 c3. read_through (ec_get True) (ec_put True) (\<lambda>_. [1, 2]) 7 (edge_cache_init 100)
      = Some ([1, 2], c1)
    \<and> erase_all ec_erase [7] c1 = Some c2
    \<and> read_through (ec_get True) (ec_put True) (\<lambda>k. if k = 7 then [3] else [1, 2]) 7 c2
      = Some ([3], c3)"
proof -
  let ?load = "\<lambda>k :: u64. if k = 7 then [3] else [1, 2] :: u64 list"
  have c: "ec.coherent True (\<lambda>_. [1, 2]) (edge_cache_init 100)"
    using edge_cache_init_ok [of 100 True] by (simp add: ec.coherent_def)
  have k: "(7 :: u64) \<noteq> k_invalid_node_id" by (simp add: k_invalid_node_id_def)
  have "\<forall>j \<in> set [7]. j \<noteq> k_invalid_node_id" using k by simp
  moreover have "?load j \<noteq> [1, 2] \<Longrightarrow> j \<in> set [7]" for j by (simp split: if_splits)
  ultimately obtain c1 c2 c3 where
    "read_through (ec_get True) (ec_put True) (\<lambda>_. [1, 2]) 7 (edge_cache_init 100) = Some ([1, 2], c1)"
    "erase_all ec_erase [7] c1 = Some c2"
    "read_through (ec_get True) (ec_put True) ?load 7 c2 = Some (?load 7, c3)"
    using edge_cache_transparent [OF c k, of "[7]" ?load] by blast
  then show ?thesis by (intro exI conjI) (assumption | simp only: if_True refl)+
qed

end
