(* ===== verification/Search_Scratch.thy ===== *)
theory Search_Scratch
  imports Ids "HOL-Library.AList"
begin

text \<open>
  The per-thread search scratch, \<open>SearchScratch\<close> of \<open>include/astervec_index.h\<close>: the set of visited
  ids of one search, kept in a dense array of 16-bit epochs for direct ids and a map of 32-bit
  versions for the others, both with a counter that wraps around and then clears. \<open>dense\<close> is the
  latched environment switch. The scratch refines a set that \<open>beginSearch\<close> empties.
\<close>

record search_scratch =
  visited_map :: "(node_id \<times> u32) list"
  visited_version :: u32
  visited_dense :: "u16 list"
  dense_version :: u16

definition search_scratch_init :: search_scratch where
  "search_scratch_init =
     \<lparr>visited_map = [], visited_version = 0, visited_dense = [], dense_version = 0\<rparr>"

definition beginSearch :: "bool \<Rightarrow> search_scratch \<Rightarrow> search_scratch" where
  "beginSearch dense s0 =
     (let s1 = s0\<lparr>visited_version := visited_version s0 + 1\<rparr>;
          s2 = (if visited_version s1 = 0 then s1\<lparr>visited_map := [], visited_version := 1\<rparr> else s1)
      in if dense then
           (let s3 = s2\<lparr>dense_version := dense_version s2 + 1\<rparr>
            in if dense_version s3 = 0
               then s3\<lparr>visited_dense := replicate (length (visited_dense s3)) 0, dense_version := 1\<rparr>
               else s3)
         else s2)"

text \<open>\<open>vector::resize\<close> to a larger size.\<close>

definition grow :: "nat \<Rightarrow> 'a \<Rightarrow> 'a list \<Rightarrow> 'a list" where
  "grow n x xs = xs @ replicate (n - length xs) x"

definition visitedInsert :: "bool \<Rightarrow> node_id \<Rightarrow> search_scratch \<Rightarrow> bool \<times> search_scratch" where
  "visitedInsert dense nid s =
     (if dense \<and> drop_bit 63 nid = 0 then
        (let i = unat nid;
             s1 = (if i \<ge> length (visited_dense s)
                   then s\<lparr>visited_dense := grow (i + 4096) 0 (visited_dense s)\<rparr> else s)
         in if visited_dense s1 ! i = dense_version s1 then (False, s1)
            else (True, s1\<lparr>visited_dense := (visited_dense s1)[i := dense_version s1]\<rparr>))
      else (case map_of (visited_map s) nid of
              None \<Rightarrow> (True, s\<lparr>visited_map := AList.update nid (visited_version s) (visited_map s)\<rparr>)
            | Some v \<Rightarrow>
                if v \<noteq> visited_version s
                then (True, s\<lparr>visited_map := AList.update nid (visited_version s) (visited_map s)\<rparr>)
                else (False, s)))"

text \<open>The set a scratch stands for, and the invariant: no entry is from a future search.\<close>

definition visited :: "bool \<Rightarrow> search_scratch \<Rightarrow> node_id set" where
  "visited dense s = {n. if dense \<and> is_direct_id n
     then unat n < length (visited_dense s) \<and> visited_dense s ! unat n = dense_version s
     else map_of (visited_map s) n = Some (visited_version s)}"

definition scratch_ok :: "bool \<Rightarrow> search_scratch \<Rightarrow> bool" where
  "scratch_ok dense s \<longleftrightarrow> (\<forall>(n, v) \<in> set (visited_map s). v \<le> visited_version s)
     \<and> (dense \<longrightarrow> (\<forall>v \<in> set (visited_dense s). v \<le> dense_version s))"

definition scratch_started :: "bool \<Rightarrow> search_scratch \<Rightarrow> bool" where
  "scratch_started dense s \<longleftrightarrow> scratch_ok dense s \<and> (dense \<longrightarrow> dense_version s \<noteq> 0)"

lemma scratch_ok_init: "scratch_ok dense search_scratch_init"
  by (simp add: scratch_ok_def search_scratch_init_def)

lemma succ_gt:
  fixes v w :: "'a::len word"
  assumes "v \<le> w" "w + 1 \<noteq> 0"
  shows "v \<noteq> w + 1" "v \<le> w + 1"
proof -
  from assms(2) have "w \<noteq> - 1" by (metis add.left_inverse)
  then have "w < w + 1" by (rule word_less_plus_1)
  with assms(1) show "v \<noteq> w + 1" "v \<le> w + 1" by auto
qed

lemma beginSearch_ok:
  assumes "scratch_ok dense s"
  shows "scratch_started dense (beginSearch dense s)" "visited dense (beginSearch dense s) = {}"
proof -
  let ?t = "beginSearch dense s"
  have m: "v \<le> visited_version ?t \<and> v \<noteq> visited_version ?t" if "(n, v) \<in> set (visited_map ?t)" for n v
    using that assms succ_gt [of v "visited_version s"]
    by (auto simp: beginSearch_def Let_def scratch_ok_def split: if_splits)
  have d: "v \<le> dense_version ?t \<and> v \<noteq> dense_version ?t" if "v \<in> set (visited_dense ?t)" dense for v
    using that assms succ_gt [of v "dense_version s"]
    by (auto simp: beginSearch_def Let_def scratch_ok_def split: if_splits)
  have "dense \<Longrightarrow> dense_version ?t \<noteq> 0" by (simp add: beginSearch_def Let_def)
  with m d show "scratch_started dense ?t" by (auto simp: scratch_started_def scratch_ok_def)
  show "visited dense ?t = {}"
    using m d map_of_SomeD by (fastforce simp: visited_def split: if_splits)
qed

lemma nth_grow: "n < k \<Longrightarrow> grow k x xs ! n = (if n < length xs then xs ! n else x)"
  by (simp add: grow_def nth_append)

lemma set_grow: "set (grow k x xs) \<subseteq> insert x (set xs)"
  by (auto simp: grow_def)

lemma set_update_pair: "set (AList.update k v al) \<subseteq> insert (k, v) (set al)"
  by (induction al) auto

lemma visited_direct:
  "dense \<Longrightarrow> is_direct_id n \<Longrightarrow> n \<in> visited dense s \<longleftrightarrow>
    unat n < length (visited_dense s) \<and> visited_dense s ! unat n = dense_version s"
  "\<not> (dense \<and> is_direct_id n) \<Longrightarrow> n \<in> visited dense s \<longleftrightarrow> map_of (visited_map s) n = Some (visited_version s)"
  by (auto simp: visited_def)

lemma visitedInsert_dense:
  assumes st: "scratch_started dense s" and n: "dense" "is_direct_id n"
  shows "fst (visitedInsert dense n s) \<longleftrightarrow> n \<notin> visited dense s"
    "visited dense (snd (visitedInsert dense n s)) = insert n (visited dense s)"
    "scratch_started dense (snd (visitedInsert dense n s))"
proof -
  define xs where "xs = (if unat n \<ge> length (visited_dense s)
    then grow (unat n + 4096) 0 (visited_dense s) else visited_dense s)"
  have len: "unat n < length xs" "length (visited_dense s) \<le> length xs"
    by (auto simp: xs_def grow_def)
  have nz: "dense_version s \<noteq> 0" using st n by (simp add: scratch_started_def)
  have at: "i < length xs \<and> xs ! i = dense_version s \<longleftrightarrow>
      i < length (visited_dense s) \<and> visited_dense s ! i = dense_version s" for i
    using nz by (auto simp: xs_def grow_def nth_append split: if_splits)
  have ins: "visitedInsert dense n s =
      (if xs ! unat n = dense_version s then (False, s\<lparr>visited_dense := xs\<rparr>)
       else (True, s\<lparr>visited_dense := xs[unat n := dense_version s]\<rparr>))"
    using n by (simp add: visitedInsert_def is_direct_id_def Let_def xs_def)
  have mem: "n \<in> visited dense s \<longleftrightarrow> xs ! unat n = dense_version s"
    using visited_direct(1) [OF n] at [of "unat n"] len(1) by simp
  then show "fst (visitedInsert dense n s) \<longleftrightarrow> n \<notin> visited dense s" by (simp add: ins)
  have v0: "visited dense (s\<lparr>visited_dense := xs\<rparr>) = visited dense s"
    by (simp add: visited_def at)
  have v1: "visited dense (s\<lparr>visited_dense := xs[unat n := dense_version s]\<rparr>) = insert n (visited dense s)"
  proof (rule set_eqI)
    fix m
    show "m \<in> visited dense (s\<lparr>visited_dense := xs[unat n := dense_version s]\<rparr>)
        \<longleftrightarrow> m \<in> insert n (visited dense s)"
    proof (cases "is_direct_id m")
      case True
      have "m = n \<longleftrightarrow> unat m = unat n" by (simp add: word_unat_eq_iff)
      with True show ?thesis
        using at [of "unat m"] len(1) n(1) visited_direct(1) [OF n(1) True]
        by (auto simp: nth_list_update)
    next
      case False
      with n(2) have "m \<noteq> n" by auto
      with False show ?thesis by (simp add: visited_def)
    qed
  qed
  show "visited dense (snd (visitedInsert dense n s)) = insert n (visited dense s)"
    using mem by (auto simp: ins v0 v1)
  have "set xs \<subseteq> insert 0 (set (visited_dense s))"
    by (auto simp: xs_def grow_def)
  with st n(1) have le: "v \<le> dense_version s" if "v \<in> set xs" for v
    using that by (auto simp: scratch_started_def scratch_ok_def)
  then have "v \<le> dense_version s" if "v \<in> set (xs[unat n := dense_version s])" for v
    using that set_update_subset_insert [of xs "unat n" "dense_version s"] by auto
  with le show "scratch_started dense (snd (visitedInsert dense n s))"
    using st by (auto simp: ins scratch_started_def scratch_ok_def)
qed

lemma visitedInsert_map:
  assumes st: "scratch_started dense s" and n: "\<not> (dense \<and> is_direct_id n)"
  shows "fst (visitedInsert dense n s) \<longleftrightarrow> n \<notin> visited dense s"
    "visited dense (snd (visitedInsert dense n s)) = insert n (visited dense s)"
    "scratch_started dense (snd (visitedInsert dense n s))"
proof -
  let ?t = "s\<lparr>visited_map := AList.update n (visited_version s) (visited_map s)\<rparr>"
  have mem: "n \<in> visited dense s \<longleftrightarrow> map_of (visited_map s) n = Some (visited_version s)"
    using n by (rule visited_direct(2))
  have ins: "visitedInsert dense n s = (if n \<in> visited dense s then (False, s) else (True, ?t))"
    using n unfolding mem by (auto simp: visitedInsert_def is_direct_id_def split: option.split)
  then show "fst (visitedInsert dense n s) \<longleftrightarrow> n \<notin> visited dense s" by simp
  have "visited dense ?t = insert n (visited dense s)"
    using n by (auto simp: visited_def update_conv' split: if_splits)
  then show "visited dense (snd (visitedInsert dense n s)) = insert n (visited dense s)"
    by (auto simp: ins)
  have "v \<le> visited_version s" if "(m, v) \<in> set (AList.update n (visited_version s) (visited_map s))" for m v
    using that st set_update_pair [of n "visited_version s" "visited_map s"]
    by (auto simp: scratch_started_def scratch_ok_def)
  then show "scratch_started dense (snd (visitedInsert dense n s))"
    using st by (auto simp: ins scratch_started_def scratch_ok_def)
qed

lemmas visitedInsert_ok = visitedInsert_dense visitedInsert_map

subsection \<open>Properties\<close>

fun visit_all :: "bool \<Rightarrow> node_id list \<Rightarrow> search_scratch \<Rightarrow> search_scratch" where
  "visit_all dense [] s = s"
| "visit_all dense (n # ns) s = visit_all dense ns (snd (visitedInsert dense n s))"

lemma visit_all_ok:
  "scratch_started dense s \<Longrightarrow> scratch_started dense (visit_all dense ns s)
    \<and> visited dense (visit_all dense ns s) = set ns \<union> visited dense s"
proof (induction ns arbitrary: s)
  case (Cons n ns)
  note step = visitedInsert_ok(2,3,5,6) [OF Cons.prems]
  show ?case
  proof (cases "dense \<and> is_direct_id n")
    case True
    then show ?thesis using Cons.IH [OF step(2)] step(1) by simp
  next
    case False
    then show ?thesis using Cons.IH [OF step(4)] step(3) by simp
  qed
qed simp

text \<open>C1: In a search that has visited the ids \<open>ns\<close>, \<open>visitedInsert\<close> answers true exactly for an
  id not among them, on the dense and on the map path, whatever earlier searches left behind and
  across the wrap-around of both counters; and the scratch is fit for the next search.\<close>

theorem visited_set_semantics:
  assumes "scratch_ok dense s"
  shows "fst (visitedInsert dense n (visit_all dense ns (beginSearch dense s))) = (n \<notin> set ns)
    \<and> scratch_ok dense (visit_all dense ns (beginSearch dense s))"
proof -
  have v: "scratch_started dense (visit_all dense ns (beginSearch dense s))"
    "visited dense (visit_all dense ns (beginSearch dense s)) = set ns"
    using visit_all_ok [OF beginSearch_ok(1) [OF assms]] beginSearch_ok(2) [OF assms] by simp_all
  have "scratch_ok dense (visit_all dense ns (beginSearch dense s))"
    using v(1) by (simp add: scratch_started_def)
  moreover have "fst (visitedInsert dense n (visit_all dense ns (beginSearch dense s))) = (n \<notin> set ns)"
    using v visitedInsert_ok(1,4) [OF v(1), of n] by (cases "dense \<and> is_direct_id n") simp_all
  ultimately show ?thesis by blast
qed

theorem visited_set_semantics_witness:
  "\<not> fst (visitedInsert True 5 (visit_all True [3, 5, kFirstUpdateId] (beginSearch True search_scratch_init)))"
  using visited_set_semantics [OF scratch_ok_init, of True 5 "[3, 5, kFirstUpdateId]"] by simp

end
