(* ===== verification/Op_Log.thy ===== *)
theory Op_Log
  imports Crc32
begin

text \<open>
  The operation log, \<open>src/oplog.cc\<close> and \<open>include/oplog.h\<close>. A log directory is the list of its
  segments (first lsn, bytes) in lsn order, which is what \<open>listSegments\<close> returns; \<open>seg_name\<close> and
  \<open>seg_parse\<close> are the file names. The outcomes of the operating system's calls are the record
  \<open>log_io\<close>, so that every error path is a branch. \<open>log_scan\<close> is \<open>Scan\<close> with its callback as a state
  transformer; \<open>log_accepted\<close> is the reference for what it delivers. The invariant \<open>log_ok\<close> ties an
  open log to the records a later scan will deliver.
\<close>

subsection \<open>Records\<close>

text \<open>\<open>OpType\<close>: an enum over \<open>uint8_t\<close>, so a scanned record may hold any byte.\<close>

type_synonym op_type = byte

definition kOpInsert :: op_type where "kOpInsert = 1"
definition kOpUpdate :: op_type where "kOpUpdate = 2"
definition kOpDelete :: op_type where "kOpDelete = 3"
definition kOpAbort :: op_type where "kOpAbort = 4"

record op_record =
  lsn :: u64
  op :: op_type
  encoding :: byte
  real_id :: u64
  internal_id :: u64
  aux :: u64
  recbytes :: bytes
  reckey :: bytes
  payload :: bytes

definition kPrefixBytes :: nat where "kPrefixBytes = 8"
definition kFixedBody :: nat where "kFixedBody = 46"
definition kMaxBodyBytes :: nat where "kMaxBodyBytes = 67108864"
definition kDefaultSegmentBytes :: nat where "kDefaultSegmentBytes = 67108864"

text \<open>The record's bytes after its lsn, and the whole record as \<open>Append\<close> lays it out.\<close>

definition body_rest :: "op_record \<Rightarrow> bytes" where
  "body_rest r = put_le 1 (op r) @ put_le 1 (encoding r) @ put_le 8 (real_id r)
     @ put_le 8 (internal_id r) @ put_le 8 (aux r)
     @ put_le 4 (of_nat (length (recbytes r)) :: u32) @ recbytes r
     @ put_le 4 (of_nat (length (reckey r)) :: u32) @ reckey r
     @ put_le 4 (of_nat (length (payload r)) :: u32) @ payload r"

definition body_size :: "op_record \<Rightarrow> nat" where
  "body_size r = kFixedBody + length (recbytes r) + length (reckey r) + length (payload r)"

definition body_crc :: "bytes \<Rightarrow> bytes \<Rightarrow> u32" where
  "body_crc rest lsn_bytes = crc_finish (crc_update (crc_update kInit rest) lsn_bytes)"

definition encode_record :: "u64 \<Rightarrow> op_record \<Rightarrow> bytes" where
  "encode_record l r =
     put_le 4 (of_nat (body_size r) :: u32) @ put_le 4 (body_crc (body_rest r) (put_le 8 l))
     @ put_le 8 l @ body_rest r"

text \<open>The parse of a body of at least \<open>kFixedBody\<close> bytes, and one step of the scan loop.\<close>

definition parse_body :: "bytes \<Rightarrow> op_record option" where
  "parse_body b =
     (let p0 = drop 38 b; rec_len = unat (get_le (take 4 (drop 34 b)) :: u32) in
      if rec_len > length p0 - 8 then None
      else let p1 = drop rec_len p0; key_len = unat (get_le (take 4 p1) :: u32); p2 = drop 4 p1 in
        if key_len > length p2 - 4 then None
        else let p3 = drop key_len p2; pay_len = unat (get_le (take 4 p3) :: u32); p4 = drop 4 p3 in
          if pay_len \<noteq> length p4 then None
          else Some \<lparr>lsn = get_le (take 8 b), op = b ! 8, encoding = b ! 9,
                 real_id = get_le (take 8 (drop 10 b)), internal_id = get_le (take 8 (drop 18 b)),
                 aux = get_le (take 8 (drop 26 b)), recbytes = take rec_len p0,
                 reckey = take key_len p2, payload = p4\<rparr>)"

definition decode_record :: "bytes \<Rightarrow> (op_record \<times> bytes) option" where
  "decode_record bs =
     (if length bs < kPrefixBytes then None
      else let body_len = unat (get_le (take 4 bs) :: u32); crc = get_le (take 4 (drop 4 bs));
               rest = drop kPrefixBytes bs in
        if body_len < kFixedBody \<or> body_len > kMaxBodyBytes \<or> length rest < body_len then None
        else let body = take body_len rest in
          if body_crc (drop 8 body) (take 8 body) \<noteq> crc then None
          else (case parse_body body of None \<Rightarrow> None | Some r \<Rightarrow> Some (r, drop body_len rest)))"

lemma decode_record_shorter: "decode_record bs = Some (r, rest) \<Longrightarrow> length rest < length bs"
  by (auto simp: decode_record_def Let_def kPrefixBytes_def split: if_splits option.splits)

subsection \<open>Segment files\<close>

type_synonym log_dir = "(u64 \<times> bytes) list"

definition digit :: "nat \<Rightarrow> byte" where
  "digit d = 0x30 + of_nat d"

primrec digits :: "nat \<Rightarrow> nat \<Rightarrow> bytes" where
  "digits 0 n = []"
| "digits (Suc k) n = digits k (n div 10) @ [digit (n mod 10)]"

definition log_suffix :: bytes where
  "log_suffix = [0x2E, 0x6C, 0x6F, 0x67]"

definition seg_name :: "u64 \<Rightarrow> bytes" where
  "seg_name first_lsn = digits 20 (unat first_lsn) @ log_suffix"

text \<open>\<open>None\<close>: not a segment name; \<open>stoull\<close> throws on a number that does not fit.\<close>

datatype name_result = Other | Seg u64 | Throws

definition seg_parse :: "bytes \<Rightarrow> name_result" where
  "seg_parse name =
     (if length name \<noteq> 24 \<or> drop 20 name \<noteq> log_suffix then Other
      else if \<not> list_all (\<lambda>c. 0x30 \<le> c \<and> c \<le> 0x39) (take 20 name) then Other
      else let n = foldl (\<lambda>n c. n * 10 + unat (c - 0x30)) 0 (take 20 name)
           in if n < 2 ^ 64 then Seg (of_nat n) else Throws)"

subsection \<open>Scan\<close>

record scan_stats =
  st_records :: nat
  st_last_lsn :: u64
  st_dropped :: nat
  st_gap :: bool

definition scan_stats0 :: scan_stats where
  "scan_stats0 = \<lparr>st_records = 0, st_last_lsn = 0, st_dropped = 0, st_gap = False\<rparr>"

text \<open>
  The loop over one segment: \<open>Inl\<close> leaves \<open>Scan\<close> with a status, \<open>Inr\<close> goes on with the next
  expected lsn. The callback \<open>fn\<close> updates the caller's state and returns a status.
\<close>

type_synonym 's scan_state = "scan_stats \<times> u64 \<times> 's"

function scan_loop ::
  "u64 \<Rightarrow> (op_record \<Rightarrow> 's \<Rightarrow> status \<times> 's) \<Rightarrow> bytes \<Rightarrow> 's scan_state
    \<Rightarrow> (status \<times> scan_stats \<times> 's) + 's scan_state" where
  "scan_loop from fn bs (st, expected, s) =
     (case decode_record bs of
        None \<Rightarrow> Inr (st\<lparr>st_dropped := st_dropped st + length bs\<rparr>, expected, s)
      | Some (r, rest) \<Rightarrow>
          if lsn r < from then scan_loop from fn rest (st, expected, s)
          else if lsn r \<noteq> expected then Inl (OK, st\<lparr>st_gap := True\<rparr>, s)
          else (case fn r s of (status, s') \<Rightarrow>
            if status \<noteq> OK then Inl (status, st, s')
            else scan_loop from fn rest
              (st\<lparr>st_records := st_records st + 1, st_last_lsn := lsn r\<rparr>, expected + 1, s')))"
  by pat_completeness auto
termination
  by (relation "measure (\<lambda>(from, fn, bs, st). length bs)") (auto dest: decode_record_shorter)

declare scan_loop.simps [simp del]

text \<open>\<open>rd f\<close>: the segment file can be opened.\<close>

fun scan_segs ::
  "(u64 \<Rightarrow> bool) \<Rightarrow> u64 \<Rightarrow> (op_record \<Rightarrow> 's \<Rightarrow> status \<times> 's) \<Rightarrow> log_dir \<Rightarrow> 's scan_state
    \<Rightarrow> (status \<times> scan_stats \<times> 's) + 's scan_state" where
  "scan_segs rd from fn [] x = Inr x"
| "scan_segs rd from fn ((f, c) # segs) (st, e, s) =
     (if segs \<noteq> [] \<and> fst (hd segs) \<le> from then scan_segs rd from fn segs (st, e, s)
      else if \<not> rd f then Inl (IOError, st, s)
      else (case scan_loop from fn c (st, e, s) of
              Inl x \<Rightarrow> Inl x
            | Inr x' \<Rightarrow> scan_segs rd from fn segs x'))"

definition log_scan ::
  "(u64 \<Rightarrow> bool) \<Rightarrow> log_dir \<Rightarrow> u64 \<Rightarrow> (op_record \<Rightarrow> 's \<Rightarrow> status \<times> 's) \<Rightarrow> 's
    \<Rightarrow> status \<times> scan_stats \<times> 's" where
  "log_scan rd d from fn s =
     (case scan_segs rd from fn d (scan_stats0, from, s) of
        Inl e \<Rightarrow> e
      | Inr (st, expected, s') \<Rightarrow> (OK, st, s'))"

definition log_disk_bytes :: "log_dir \<Rightarrow> nat" where
  "log_disk_bytes d = sum_list (map (length \<circ> snd) d)"

subsection \<open>The open log\<close>

record oplog =
  log_segs :: log_dir
  next_lsn :: u64
  segment_bytes :: nat
  log_fd :: bool
  log_offset :: nat
  log_broken :: bool

record log_io =
  io_mkdir :: bool
  io_remove :: "u64 \<Rightarrow> bool"
  io_open :: bool
  io_sync :: bool
  io_write :: "nat option"
  io_truncate :: bool

text \<open>The call that creates or truncates the file named after \<open>next_lsn\<close>.\<close>

definition open_file :: "u64 \<Rightarrow> log_dir \<Rightarrow> log_dir" where
  "open_file f d = filter (\<lambda>(g, _). g < f) d @ [(f, [])] @ filter (\<lambda>(g, _). f < g) d"

definition open_segment :: "log_io \<Rightarrow> oplog \<Rightarrow> status \<times> oplog" where
  "open_segment io lg =
     (if \<not> io_open io then (IOError, lg\<lparr>log_fd := False\<rparr>)
      else let lg1 = lg\<lparr>log_segs := open_file (next_lsn lg) (log_segs lg), log_fd := True, log_offset := 0\<rparr>
        in if \<not> io_sync io then (IOError, lg1) else (OK, lg1))"

fun remove_stale :: "log_io \<Rightarrow> u64 \<Rightarrow> log_dir \<Rightarrow> bool \<times> log_dir" where
  "remove_stale io n [] = (True, [])"
| "remove_stale io n ((f, c) # d) =
     (if f \<ge> n
      then (if io_remove io f then remove_stale io n d else (False, (f, c) # d))
      else (case remove_stale io n d of (ok, d') \<Rightarrow> (ok, (f, c) # d')))"

definition log_open :: "log_io \<Rightarrow> log_dir \<Rightarrow> u64 \<Rightarrow> nat \<Rightarrow> status \<times> log_dir \<times> oplog option" where
  "log_open io d n seg_bytes =
     (if n = 0 then (InvalidArgument, d, None)
      else if \<not> io_mkdir io then (IOError, d, None)
      else case remove_stale io n d of (ok, d') \<Rightarrow>
        if \<not> ok then (IOError, d', None)
        else case open_segment io \<lparr>log_segs = d', next_lsn = n,
               segment_bytes = (if seg_bytes = 0 then kDefaultSegmentBytes else seg_bytes),
               log_fd = False, log_offset = 0, log_broken = False\<rparr> of
          (s, lg) \<Rightarrow> if s \<noteq> OK then (s, log_segs lg, None) else (OK, log_segs lg, Some lg))"

text \<open>Writes go to the segment opened last, at its end (\<open>O_APPEND\<close>).\<close>

definition write_last :: "bytes \<Rightarrow> log_dir \<Rightarrow> log_dir" where
  "write_last bs d = (if d = [] then [] else butlast d @ [(fst (last d), snd (last d) @ bs)])"

definition truncate_last :: "nat \<Rightarrow> log_dir \<Rightarrow> log_dir" where
  "truncate_last n d = (if d = [] then [] else butlast d @ [(fst (last d), take n (snd (last d)))])"

definition log_append :: "log_io \<Rightarrow> op_record \<Rightarrow> oplog \<Rightarrow> (status + u64) \<times> oplog" where
  "log_append io r lg0 =
     (if body_size r > kMaxBodyBytes then (Inl InvalidArgument, lg0)
      else if log_broken lg0 then (Inl IOError, lg0)
      else case (if log_offset lg0 \<ge> segment_bytes lg0 then open_segment io lg0 else (OK, lg0)) of
        (s, lg) \<Rightarrow>
          if s \<noteq> OK then (Inl s, lg\<lparr>log_broken := True\<rparr>)
          else let l = next_lsn lg; buf = encode_record l r in
            case io_write io of
              Some k \<Rightarrow>
                (let lg1 = lg\<lparr>log_segs := write_last (take k buf) (log_segs lg)\<rparr>
                 in if io_truncate io
                    then (Inl IOError, lg1\<lparr>log_segs := truncate_last (log_offset lg) (log_segs lg1)\<rparr>)
                    else (Inl IOError, lg1\<lparr>log_broken := True\<rparr>))
            | None \<Rightarrow>
                (Inr l, lg\<lparr>log_segs := write_last buf (log_segs lg),
                          log_offset := log_offset lg + length buf, next_lsn := next_lsn lg + 1\<rparr>))"

definition log_last_lsn :: "oplog \<Rightarrow> u64" where
  "log_last_lsn lg = next_lsn lg - 1"

fun truncate_below :: "log_io \<Rightarrow> u64 \<Rightarrow> log_dir \<Rightarrow> status \<times> log_dir" where
  "truncate_below io l ((f, c) # (g, c') # d) =
     (if g > l then (OK, (f, c) # (g, c') # d)
      else if io_remove io f then truncate_below io l ((g, c') # d)
      else (IOError, (f, c) # (g, c') # d))"
| "truncate_below io l d = (OK, d)"

definition log_truncate_below :: "log_io \<Rightarrow> u64 \<Rightarrow> oplog \<Rightarrow> status \<times> oplog" where
  "log_truncate_below io l lg =
     (case truncate_below io l (log_segs lg) of (s, d) \<Rightarrow> (s, lg\<lparr>log_segs := d\<rparr>))"

lemma unat_u64_lt: "unat (x :: u64) < 2 ^ 64"
  using unsigned_less [of x, where 'a = nat] by simp

lemma unat_plus_1: "(x :: 'a::len word) \<noteq> - 1 \<Longrightarrow> unat (x + 1) = Suc (unat x)"
  by (metis Suc_eq_plus1 add.commute add_eq_0_iff2 unatSuc)

subsection \<open>Records are read back\<close>

lemma length_body_rest: "length (body_rest r) + 8 = body_size r"
  by (simp add: body_rest_def body_size_def kFixedBody_def)

lemma unat_len32: "n < 2 ^ 32 \<Longrightarrow> unat (of_nat n :: u32) = n"
  by (simp add: unat_of_nat take_bit_nat_eq_self)

lemma take_app: "length xs = n \<Longrightarrow> take n (xs @ ys) = xs"
  by simp

lemma drop_app: "length xs \<le> n \<Longrightarrow> drop n (xs @ ys) = drop (n - length xs) ys"
  by simp

lemma parse_body_encode:
  assumes "body_size r \<le> kMaxBodyBytes"
  shows "parse_body (put_le 8 l @ body_rest r) = Some (r\<lparr>lsn := l\<rparr>)"
proof -
  have n: "length (recbytes r) < 2 ^ 32" "length (reckey r) < 2 ^ 32" "length (payload r) < 2 ^ 32"
    using assms by (auto simp: body_size_def kMaxBodyBytes_def)
  have b: "put_le (Suc 0) x = [x]" for x :: byte by simp
  have d1: "drop 10 (put_le 8 l @ body_rest r) = put_le 8 (real_id r) @ drop 10 (body_rest r)"
    by (simp add: body_rest_def)
  have d2: "drop 18 (put_le 8 l @ body_rest r) = put_le 8 (internal_id r) @ drop 18 (body_rest r)"
    by (simp add: body_rest_def)
  have d3: "drop 26 (put_le 8 l @ body_rest r) = put_le 8 (aux r) @ drop 26 (body_rest r)"
    by (simp add: body_rest_def)
  have d4: "drop 34 (put_le 8 l @ body_rest r)
      = put_le 4 (of_nat (length (recbytes r)) :: u32) @ drop 30 (body_rest r)"
    by (simp add: body_rest_def)
  have d5: "drop 38 (put_le 8 l @ body_rest r) = recbytes r
      @ put_le 4 (of_nat (length (reckey r)) :: u32) @ reckey r
      @ put_le 4 (of_nat (length (payload r)) :: u32) @ payload r"
    by (simp add: body_rest_def)
  have o: "(put_le 8 l @ body_rest r) ! 8 = op r" "(put_le 8 l @ body_rest r) ! 9 = encoding r"
    by (simp_all add: body_rest_def nth_append b)
  show ?thesis
    unfolding parse_body_def d1 d2 d3 d4 d5 o Let_def
    by (simp add: n [THEN unat_len32] take_app drop_app)
qed

lemma length_encode: "length (encode_record l r) = kPrefixBytes + body_size r"
  using length_body_rest [of r] by (simp add: encode_record_def kPrefixBytes_def)

lemma decode_encode:
  assumes "body_size r \<le> kMaxBodyBytes"
  shows "decode_record (encode_record l r @ tail) = Some (r\<lparr>lsn := l\<rparr>, tail)"
proof -
  let ?body = "put_le 8 l @ body_rest r"
  have len: "length ?body = body_size r" using length_body_rest [of r] by simp
  have n: "body_size r < 2 ^ 32" using assms by (simp add: kMaxBodyBytes_def)
  have e: "encode_record l r @ tail = put_le 4 (of_nat (body_size r) :: u32)
      @ put_le 4 (body_crc (body_rest r) (put_le 8 l)) @ ?body @ tail"
    by (simp add: encode_record_def)
  have t: "take 4 (encode_record l r @ tail) = put_le 4 (of_nat (body_size r) :: u32)"
    "take 4 (drop 4 (encode_record l r @ tail)) = put_le 4 (body_crc (body_rest r) (put_le 8 l))"
    "drop kPrefixBytes (encode_record l r @ tail) = ?body @ tail"
    unfolding e kPrefixBytes_def by simp_all
  have le: "\<not> length (encode_record l r @ tail) < kPrefixBytes" "kFixedBody \<le> body_size r"
    by (simp_all add: length_encode body_size_def)
  show ?thesis
    unfolding decode_record_def t Let_def
    using assms le len parse_body_encode [OF assms, of l]
    by (simp add: n [THEN unat_len32] take_app drop_app)
qed

text \<open>A record is judged by its own bytes: what follows it does not matter.\<close>

lemma decode_append:
  assumes "decode_record bs = Some (r, rest)"
  shows "decode_record (bs @ t) = Some (r, rest @ t)"
proof -
  have "8 \<le> length bs" using assms by (auto simp: decode_record_def kPrefixBytes_def split: if_splits)
  then have "take 4 (bs @ t) = take 4 bs" "take 4 (drop 4 (bs @ t)) = take 4 (drop 4 bs)"
    "drop 8 (bs @ t) = drop 8 bs @ t" by simp_all
  then show ?thesis
    using assms unfolding decode_record_def kPrefixBytes_def Let_def
    by (auto split: if_splits option.splits)
qed

lemma decode_torn:
  assumes "body_size r \<le> kMaxBodyBytes" "k < length (encode_record l r)"
  shows "decode_record (take k (encode_record l r)) = None"
proof (rule ccontr)
  assume "decode_record (take k (encode_record l r)) \<noteq> None"
  then obtain r' rest where d: "decode_record (take k (encode_record l r)) = Some (r', rest)" by auto
  from decode_append [OF this, of "drop k (encode_record l r)"]
  have "decode_record (encode_record l r) = Some (r', rest @ drop k (encode_record l r))" by simp
  moreover have "decode_record (encode_record l r) = Some (r\<lparr>lsn := l\<rparr>, [])"
    using decode_encode [OF assms(1), of l "[]"] by simp
  ultimately show False using assms(2) by simp
qed

subsection \<open>What a segment holds\<close>

function parse_seg :: "bytes \<Rightarrow> op_record list" where
  "parse_seg bs = (case decode_record bs of None \<Rightarrow> [] | Some (r, rest) \<Rightarrow> r # parse_seg rest)"
  by pat_completeness auto
termination
  by (relation "measure length") (auto dest: decode_record_shorter)

function seg_left :: "bytes \<Rightarrow> bytes" where
  "seg_left bs = (case decode_record bs of None \<Rightarrow> bs | Some (r, rest) \<Rightarrow> seg_left rest)"
  by pat_completeness auto
termination
  by (relation "measure length") (auto dest: decode_record_shorter)

declare parse_seg.simps [simp del] seg_left.simps [simp del]

lemma decode_Nil [simp]: "decode_record [] = None"
  by (simp add: decode_record_def kPrefixBytes_def)

lemma parse_seg_None [simp]: "decode_record bs = None \<Longrightarrow> parse_seg bs = []"
  by (subst parse_seg.simps) simp

lemma parse_seg_Some [simp]: "decode_record bs = Some (r, rest) \<Longrightarrow> parse_seg bs = r # parse_seg rest"
  by (subst parse_seg.simps) simp

lemma parse_seg_append: "seg_left bs = [] \<Longrightarrow> parse_seg (bs @ t) = parse_seg bs @ parse_seg t
    \<and> seg_left (bs @ t) = seg_left t"
proof (induction bs rule: parse_seg.induct)
  case (1 bs)
  show ?case
  proof (cases "decode_record bs")
    case None
    with 1(2) have "bs = []" by (subst (asm) seg_left.simps) simp
    then show ?thesis by simp
  next
    case (Some p)
    then obtain r rest where d: "decode_record bs = Some (r, rest)" by (cases p) auto
    with 1(2) have "seg_left rest = []" by (subst (asm) seg_left.simps) simp
    with 1(1) [OF d refl] d decode_append [OF d, of t] seg_left.simps [of "bs @ t"] show ?thesis
      by simp
  qed
qed

lemma parse_seg_take: "\<exists>t. parse_seg bs = parse_seg (take k bs) @ t"
proof (induction bs arbitrary: k rule: parse_seg.induct)
  case (1 bs)
  show ?case
  proof (cases "decode_record (take k bs)")
    case (Some p)
    then obtain r rest where d: "decode_record (take k bs) = Some (r, rest)" by (cases p) auto
    from decode_append [OF d, of "drop k bs"] have d': "decode_record bs = Some (r, rest @ drop k bs)"
      by simp
    from 1 [OF d' refl, of "length rest"] d d' show ?thesis by simp
  qed simp
qed

subsection \<open>What a scan delivers\<close>

fun contig :: "u64 \<Rightarrow> op_record list \<Rightarrow> op_record list" where
  "contig e [] = []"
| "contig e (r # rs) = (if lsn r = e then r # contig (e + 1) rs else [])"

fun deliver :: "(op_record \<Rightarrow> 's \<Rightarrow> status \<times> 's) \<Rightarrow> op_record list \<Rightarrow> 's \<Rightarrow> status \<times> 's" where
  "deliver fn [] s = (OK, s)"
| "deliver fn (r # rs) s =
     (case fn r s of (status, s') \<Rightarrow> if status \<noteq> OK then (status, s') else deliver fn rs s')"

fun relevant :: "u64 \<Rightarrow> log_dir \<Rightarrow> log_dir" where
  "relevant from [] = []"
| "relevant from ((f, c) # segs) =
     (if segs \<noteq> [] \<and> fst (hd segs) \<le> from then relevant from segs else (f, c) # relevant from segs)"

definition records_from :: "u64 \<Rightarrow> log_dir \<Rightarrow> op_record list" where
  "records_from from d = filter (\<lambda>r. from \<le> lsn r) (concat (map (parse_seg \<circ> snd) d))"

definition log_accepted :: "u64 \<Rightarrow> log_dir \<Rightarrow> op_record list" where
  "log_accepted from d = contig from (records_from from (relevant from d))"

lemma scan_loop_deliver:
  "scan_loop from fn bs (st, e, s) = Inl (status, st', s') \<Longrightarrow>
    deliver fn (contig e (filter (\<lambda>r. from \<le> lsn r) (parse_seg bs) @ mo)) s = (status, s')"
  "scan_loop from fn bs (st, e, s) = Inr (st', e', s') \<Longrightarrow>
    deliver fn (contig e (filter (\<lambda>r. from \<le> lsn r) (parse_seg bs) @ mo)) s
      = deliver fn (contig e' mo) s'"
proof (induction bs arbitrary: st e s rule: parse_seg.induct)
  case (1 bs)
  {
    case 1
    then show ?case
      by (subst (asm) scan_loop.simps)
        (auto simp: "1.IH" not_le split: option.splits if_splits prod.splits)
  next
    case 2
    then show ?case
      by (subst (asm) scan_loop.simps)
        (auto simp: "1.IH" not_le split: option.splits if_splits prod.splits)
  }
qed

lemma records_from_Cons:
  "records_from from ((f, c) # d) = filter (\<lambda>r. from \<le> lsn r) (parse_seg c) @ records_from from d"
  by (simp add: records_from_def)

lemma scan_segs_deliver:
  assumes "\<forall>(f, c) \<in> set (relevant from d). rd f"
  shows "(case scan_segs rd from fn d (st, e, s) of
      Inl (status, st', s') \<Rightarrow> (status, s') | Inr (st', e', s') \<Rightarrow> (OK, s'))
    = deliver fn (contig e (records_from from (relevant from d))) s"
  using assms
proof (induction d arbitrary: st e s)
  case Nil
  then show ?case by (simp add: records_from_def)
next
  case (Cons p d)
  obtain f c where p: "p = (f, c)" by (cases p)
  show ?case
  proof (cases "d \<noteq> [] \<and> fst (hd d) \<le> from")
    case True
    with Cons show ?thesis by (simp add: p)
  next
    case False
    with Cons.prems have rd: "rd f" "\<forall>(f, c) \<in> set (relevant from d). rd f" by (auto simp: p)
    show ?thesis
    proof (cases "scan_loop from fn c (st, e, s)")
      case (Inl x)
      then show ?thesis
        using rd False scan_loop_deliver(1) [of "from" fn c st e s]
        by (cases x; cases d) (simp_all add: p records_from_Cons)
    next
      case (Inr x)
      then show ?thesis
        using rd False scan_loop_deliver(2) [of "from" fn c st e s] Cons.IH [OF rd(2)]
        by (cases x; cases d) (simp_all add: p records_from_Cons)
    qed
  qed
qed

lemma log_scan_deliver:
  assumes "\<forall>(f, c) \<in> set (relevant from d). rd f" "log_scan rd d from fn s = (status, st, s')"
  shows "deliver fn (log_accepted from d) s = (status, s')"
  using scan_segs_deliver [OF assms(1), of fn scan_stats0 "from" s] assms(2)
  by (auto simp: log_scan_def log_accepted_def split: sum.splits prod.splits)

subsection \<open>The invariant of an open log\<close>

definition lsns :: "op_record list \<Rightarrow> nat list" where
  "lsns rs = map (\<lambda>r. unat (lsn r)) rs"

text \<open>
  The segments are in lsn order; each holds consecutive records from its first lsn, none reaching
  into the next segment, the last ending below \<open>n\<close>.
\<close>

fun chain_ok :: "log_dir \<Rightarrow> nat \<Rightarrow> bool" where
  "chain_ok [] n \<longleftrightarrow> True"
| "chain_ok ((f, c) # d) n \<longleftrightarrow>
     lsns (parse_seg c) = [unat f ..< unat f + length (parse_seg c)]
     \<and> unat f + length (parse_seg c) \<le> (if d = [] then n else unat (fst (hd d)))
     \<and> (d \<noteq> [] \<longrightarrow> f < fst (hd d)) \<and> chain_ok d n"

text \<open>Between \<open>from\<close> and \<open>n\<close> no record is missing.\<close>

definition complete_from :: "u64 \<Rightarrow> log_dir \<Rightarrow> nat \<Rightarrow> bool" where
  "complete_from from d n \<longleftrightarrow> unat from \<le> n \<and> lsns (records_from from d) = [unat from ..< n]"

definition log_ok :: "u64 \<Rightarrow> oplog \<Rightarrow> bool" where
  "log_ok from lg \<longleftrightarrow> log_segs lg \<noteq> [] \<and> log_fd lg \<and> \<not> log_broken lg \<and> 0 < segment_bytes lg
     \<and> chain_ok (log_segs lg) (unat (next_lsn lg))
     \<and> complete_from from (log_segs lg) (unat (next_lsn lg))
     \<and> seg_left (snd (last (log_segs lg))) = []
     \<and> log_offset lg = length (snd (last (log_segs lg)))
     \<and> unat (fst (last (log_segs lg))) + length (parse_seg (snd (last (log_segs lg))))
         = unat (next_lsn lg)"

lemma lsns_simps [simp]:
  "lsns [] = []" "lsns (r # rs) = unat (lsn r) # lsns rs" "lsns (xs @ ys) = lsns xs @ lsns ys"
  "length (lsns rs) = length rs"
  by (simp_all add: lsns_def)

lemma contig_complete:
  "lsns rs = [unat e ..< n] \<Longrightarrow> n < 2 ^ 64 \<Longrightarrow> contig e rs = rs"
proof (induction rs arbitrary: e)
  case Nil
  show ?case by simp
next
  case (Cons r rs)
  have lt: "unat e < n" using Cons.prems(1) by (cases "unat e < n") auto
  then have up: "[unat e ..< n] = unat e # [Suc (unat e) ..< n]" by (rule upt_conv_Cons)
  with Cons.prems have "lsn r = e" "lsns rs = [Suc (unat e) ..< n]"
    by (simp_all add: word_unat_eq_iff)
  moreover have "unat (e + 1) = Suc (unat e)"
    using lt Cons.prems(2) by (subst unat_word_ariths(1)) simp
  ultimately show ?case using Cons.IH [of "e + 1"] Cons.prems(2) by simp
qed

lemma chain_head: "chain_ok d n \<Longrightarrow> d \<noteq> [] \<Longrightarrow> unat (fst (hd d)) \<le> n"
proof (induction d)
  case (Cons p d)
  then show ?case by (cases p; cases d) (auto simp: word_less_nat_alt)
qed simp

lemma chain_below:
  "chain_ok d n \<Longrightarrow> (f, c) \<in> set d \<Longrightarrow> r \<in> set (parse_seg c) \<Longrightarrow> unat (lsn r) < n"
proof (induction d)
  case (Cons p d)
  obtain g b where p: "p = (g, b)" by (cases p)
  have first: "unat (lsn r) < unat g + length (parse_seg b)" if "r \<in> set (parse_seg b)"
  proof -
    have "unat (lsn r) \<in> set (lsns (parse_seg b))" using that by (auto simp: lsns_def)
    with Cons.prems(1) show ?thesis by (simp add: p)
  qed
  have below: "unat (fst (hd d)) \<le> n" if "d \<noteq> []"
    using that Cons.prems(1) chain_head [of d n] by (simp add: p)
  show ?case
  proof (cases "(f, c) = (g, b)")
    case True
    with Cons.prems have "unat (lsn r) < unat g + length (parse_seg b)" using first by simp
    with Cons.prems(1) below show ?thesis by (auto simp: p split: if_splits)
  next
    case False
    with Cons.prems have "(f, c) \<in> set d" by (auto simp: p)
    with Cons.IH Cons.prems show ?thesis by (simp add: p)
  qed
qed simp

text \<open>Segments the scan skips hold no record it wants.\<close>

lemma relevant_records:
  "chain_ok d n \<Longrightarrow> records_from from (relevant from d) = records_from from d"
proof (induction d)
  case (Cons p d)
  obtain f c where p: "p = (f, c)" by (cases p)
  show ?case
  proof (cases "d \<noteq> [] \<and> fst (hd d) \<le> from")
    case True
    have "\<not> from \<le> lsn r" if "r \<in> set (parse_seg c)" for r
    proof -
      have "unat (lsn r) \<in> set (lsns (parse_seg c))" using that by (auto simp: lsns_def)
      with Cons.prems True have "unat (lsn r) < unat (fst (hd d))" by (auto simp: p)
      with True show ?thesis by (auto simp: word_le_nat_alt)
    qed
    then have "filter (\<lambda>r. from \<le> lsn r) (parse_seg c) = []" by (simp add: filter_empty_conv)
    with True Cons show ?thesis by (simp add: p records_from_Cons)
  next
    case False
    with Cons show ?thesis by (cases d) (simp_all add: p records_from_Cons)
  qed
qed simp

lemma log_accepted_complete:
  assumes "chain_ok d m" "complete_from from d n" "n < 2 ^ 64"
  shows "log_accepted from d = records_from from d"
  using assms unfolding log_accepted_def relevant_records [OF assms(1)]
  by (auto simp: complete_from_def intro: contig_complete)

lemma log_ok_accepted:
  "log_ok from lg \<Longrightarrow> log_accepted from (log_segs lg) = records_from from (log_segs lg)"
  using unsigned_less [of "next_lsn lg"] unfolding log_ok_def
  by (intro log_accepted_complete [of _ "unat (next_lsn lg)"]) auto

lemma records_from_append: "records_from from (d @ d') = records_from from d @ records_from from d'"
  by (simp add: records_from_def)

lemma chain_ok_snoc:
  "chain_ok (d @ [(f, c)]) n \<longleftrightarrow> chain_ok d (unat f) \<and> (d \<noteq> [] \<longrightarrow> fst (last d) < f)
    \<and> lsns (parse_seg c) = [unat f ..< unat f + length (parse_seg c)]
    \<and> unat f + length (parse_seg c) \<le> n"
proof (induction d)
  case (Cons p d)
  obtain g b where p: "p = (g, b)" by (cases p)
  show ?case
  proof (cases d)
    case (Cons q d')
    with Cons.IH show ?thesis by (cases q) (auto simp: p)
  qed (auto simp: p)
qed auto

lemma last_split:
  assumes "log_segs lg \<noteq> []"
  obtains d f c where "log_segs lg = d @ [(f, c)]"
  using assms by (metis append_butlast_last_id surj_pair)

lemma log_ok_last:
  assumes "log_segs lg = d @ [(f, c)]"
  shows "log_ok from lg \<longleftrightarrow> log_fd lg \<and> \<not> log_broken lg \<and> 0 < segment_bytes lg
     \<and> chain_ok (d @ [(f, c)]) (unat (next_lsn lg))
     \<and> complete_from from (d @ [(f, c)]) (unat (next_lsn lg))
     \<and> seg_left c = [] \<and> log_offset lg = length c
     \<and> unat f + length (parse_seg c) = unat (next_lsn lg)"
  using assms by (simp add: log_ok_def)

lemma seg_left_Nil [simp]: "seg_left [] = []"
  by (subst seg_left.simps) simp

lemma seg_full_nonempty: "seg_left c = [] \<Longrightarrow> c \<noteq> [] \<Longrightarrow> parse_seg c \<noteq> []"
  by (cases "decode_record c") (auto simp: seg_left.simps [of c])

text \<open>Starting a new segment changes no record.\<close>

lemma open_file_snoc: "\<forall>(g, _) \<in> set d. g < f \<Longrightarrow> open_file f d = d @ [(f, [])]"
proof -
  assume a: "\<forall>(g, _) \<in> set d. g < f"
  then have "filter (\<lambda>(g, _). g < f) d = d" "filter (\<lambda>(g, _). f < g) d = []"
    by (force intro: filter_True simp: filter_empty_conv)+
  then show ?thesis by (simp add: open_file_def)
qed

lemma chain_ok_le: "chain_ok d n \<Longrightarrow> n \<le> m \<Longrightarrow> chain_ok d m"
  by (induction d) (auto split: if_splits)

lemma chain_ok_sorted: "chain_ok (d @ [(f, c)]) n \<Longrightarrow> (g, b) \<in> set d \<Longrightarrow> g < f"
proof (induction d arbitrary: f c n rule: rev_induct)
  case (snoc p d)
  obtain h a where p: "p = (h, a)" by (cases p)
  from snoc.prems(1) have "chain_ok (d @ [(h, a)]) (unat f)" "h < f"
    unfolding p chain_ok_snoc [of _ f] by simp_all
  with snoc.IH [of h a "unat f"] snoc.prems(2) show ?case by (auto simp: p)
qed simp

lemma new_segment:
  assumes ok: "log_ok from lg" and roll: "0 < log_offset lg"
    and lg': "lg' = lg\<lparr>log_segs := open_file (next_lsn lg) (log_segs lg), log_fd := True, log_offset := 0\<rparr>"
  shows "log_ok from lg'" "records_from from (log_segs lg') = records_from from (log_segs lg)"
proof -
  have "log_segs lg \<noteq> []" using ok by (simp add: log_ok_def)
  then obtain d f c where segs: "log_segs lg = d @ [(f, c)]" by (rule last_split)
  note ok' = ok [unfolded log_ok_last [OF segs]]
  have "c \<noteq> []" using ok' roll by auto
  with ok' have "parse_seg c \<noteq> []" using seg_full_nonempty by blast
  then have f: "f < next_lsn lg" using ok' by (cases "parse_seg c") (auto simp: word_less_nat_alt)
  then have "\<forall>(g, _) \<in> set (log_segs lg). g < next_lsn lg"
    using chain_ok_sorted ok' unfolding segs by (fastforce intro: order.strict_trans)
  then have segs': "log_segs lg' = (d @ [(f, c)]) @ [(next_lsn lg, [])]"
    by (simp add: lg' open_file_snoc) (simp add: segs)
  show rec: "records_from from (log_segs lg') = records_from from (log_segs lg)"
    by (simp add: segs' segs records_from_append records_from_def)
  have "chain_ok ((d @ [(f, c)]) @ [(next_lsn lg, [])]) (unat (next_lsn lg))"
    using ok' f by (subst chain_ok_snoc) simp
  moreover have "complete_from from ((d @ [(f, c)]) @ [(next_lsn lg, [])]) (unat (next_lsn lg))"
    using ok' by (simp add: complete_from_def records_from_append records_from_def)
  ultimately show "log_ok from lg'"
    unfolding log_ok_last [OF segs'] using ok' by (simp add: lg')
qed

lemma open_segment_cases:
  assumes "open_segment io lg = (st, lg')"
  obtains "st \<noteq> OK" "lg' = lg\<lparr>log_fd := False\<rparr>"
  | "lg' = lg\<lparr>log_segs := open_file (next_lsn lg) (log_segs lg), log_fd := True, log_offset := 0\<rparr>"
  using assms by (auto simp: open_segment_def Let_def split: if_splits)

lemma write_last_snoc: "write_last bs (d @ [(f, c)]) = d @ [(f, c @ bs)]"
  by (simp add: write_last_def)

lemma truncate_last_snoc: "truncate_last n (d @ [(f, c)]) = d @ [(f, take n c)]"
  by (simp add: truncate_last_def)

text \<open>Bytes that hold no whole record, written at the end, are not seen by a scan.\<close>

lemma torn_tail_invisible:
  assumes "log_segs lg = d @ [(f, c)]" "log_ok from lg" "decode_record t = None"
  shows "log_accepted from (d @ [(f, c @ t)]) = records_from from (log_segs lg)"
    "chain_ok (d @ [(f, c @ t)]) (unat (next_lsn lg))"
proof -
  note ok = assms(2) [unfolded log_ok_last [OF assms(1)]]
  have p: "parse_seg (c @ t) = parse_seg c" using parse_seg_append [of c t] ok assms(3) by simp
  show ch: "chain_ok (d @ [(f, c @ t)]) (unat (next_lsn lg))"
    using ok unfolding chain_ok_snoc p by simp
  have rec: "records_from from (d @ [(f, c @ t)]) = records_from from (log_segs lg)"
    by (simp add: assms(1) records_from_append records_from_Cons p)
  have "complete_from from (d @ [(f, c @ t)]) (unat (next_lsn lg))"
    using ok unfolding complete_from_def rec assms(1) by simp
  moreover have "unat (next_lsn lg) < 2 ^ 64" using unsigned_less [of "next_lsn lg"] by simp
  ultimately show
    "log_accepted from (d @ [(f, c @ t)]) = records_from from (log_segs lg)"
    using log_accepted_complete [OF ch] rec by metis
qed

text \<open>The segment \<open>Append\<close> writes to.\<close>

definition roll_segment :: "log_io \<Rightarrow> oplog \<Rightarrow> status \<times> oplog" where
  "roll_segment io lg =
     (if log_offset lg \<ge> segment_bytes lg then open_segment io lg else (OK, lg))"

lemma roll_segment_ok:
  assumes ok: "log_ok from lg0" and r: "roll_segment io lg0 = (st, lg)"
  shows "log_accepted from (log_segs lg) = log_accepted from (log_segs lg0)"
    "next_lsn lg = next_lsn lg0" "st = OK \<Longrightarrow> log_ok from lg"
proof -
  have "log_accepted from (log_segs lg) = log_accepted from (log_segs lg0)
    \<and> next_lsn lg = next_lsn lg0 \<and> (st = OK \<longrightarrow> log_ok from lg)"
  proof (cases "log_offset lg0 \<ge> segment_bytes lg0")
    case True
    with ok have pos: "0 < log_offset lg0" unfolding log_ok_def by linarith
    from r True have "open_segment io lg0 = (st, lg)" by (simp add: roll_segment_def)
    then show ?thesis
    proof (cases rule: open_segment_cases)
      case 2
      note n = new_segment [OF ok pos 2]
      show ?thesis
        using n(1) log_ok_accepted [OF n(1)] log_ok_accepted [OF ok] n(2) by (simp add: 2)
    qed simp
  next
    case False
    with r ok show ?thesis by (simp add: roll_segment_def)
  qed
  then show "log_accepted from (log_segs lg) = log_accepted from (log_segs lg0)"
    "next_lsn lg = next_lsn lg0" "st = OK \<Longrightarrow> log_ok from lg" by blast+
qed

lemma log_append_alt: "log_append io r lg0 =
     (if body_size r > kMaxBodyBytes then (Inl InvalidArgument, lg0)
      else if log_broken lg0 then (Inl IOError, lg0)
      else case roll_segment io lg0 of
        (s, lg) \<Rightarrow>
          if s \<noteq> OK then (Inl s, lg\<lparr>log_broken := True\<rparr>)
          else let l = next_lsn lg; buf = encode_record l r in
            case io_write io of
              Some k \<Rightarrow>
                (let lg1 = lg\<lparr>log_segs := write_last (take k buf) (log_segs lg)\<rparr>
                 in if io_truncate io
                    then (Inl IOError, lg1\<lparr>log_segs := truncate_last (log_offset lg) (log_segs lg1)\<rparr>)
                    else (Inl IOError, lg1\<lparr>log_broken := True\<rparr>))
            | None \<Rightarrow>
                (Inr l, lg\<lparr>log_segs := write_last buf (log_segs lg),
                          log_offset := log_offset lg + length buf, next_lsn := next_lsn lg + 1\<rparr>))"
  by (simp only: log_append_def roll_segment_def)

theorem log_append_ok:
  assumes ok: "log_ok from lg0" and room: "next_lsn lg0 \<noteq> - 1"
    and ap: "log_append io r lg0 = (Inr l, lg')"
  shows "l = next_lsn lg0" "log_ok from lg'" "next_lsn lg' = next_lsn lg0 + 1"
    "log_accepted from (log_segs lg') = log_accepted from (log_segs lg0) @ [r\<lparr>lsn := l\<rparr>]"
proof -
  obtain lg where roll: "roll_segment io lg0 = (OK, lg)"
    and size: "body_size r \<le> kMaxBodyBytes"
    and l: "l = next_lsn lg" and lg': "lg' = lg\<lparr>log_segs := write_last (encode_record l r) (log_segs lg),
      log_offset := log_offset lg + length (encode_record l r), next_lsn := next_lsn lg + 1\<rparr>"
    using ap by (auto simp: log_append_alt Let_def split: if_splits prod.splits option.splits)
  note R = roll_segment_ok [OF ok roll]
  note ok1 = R(3) [OF refl] and n1 = R(2)
  show "l = next_lsn lg0" "next_lsn lg' = next_lsn lg0 + 1" using l n1 lg' by simp_all
  have "log_segs lg \<noteq> []" using ok1 by (simp add: log_ok_def)
  then obtain d f c where segs: "log_segs lg = d @ [(f, c)]" by (rule last_split)
  note ok2 = ok1 [unfolded log_ok_last [OF segs]]
  have segs': "log_segs lg' = d @ [(f, c @ encode_record l r)]"
    by (simp add: lg' segs write_last_snoc)
  have dec: "decode_record (encode_record l r) = Some (r\<lparr>lsn := l\<rparr>, [])"
    using decode_encode [OF size, of l "[]"] by simp
  then have p: "parse_seg (c @ encode_record l r) = parse_seg c @ [r\<lparr>lsn := l\<rparr>]"
    and left: "seg_left (c @ encode_record l r) = []"
    using parse_seg_append [of c "encode_record l r"] ok2 seg_left.simps [of "encode_record l r"]
    by simp_all
  have nx: "unat (next_lsn lg') = Suc (unat (next_lsn lg))"
    using word_less_plus_1 [OF room] n1 unat_plus_1 [OF room] by (simp add: lg')
  have lsn_l: "unat l = unat f + length (parse_seg c)" using ok2 l by simp
  have ch: "chain_ok (log_segs lg') (unat (next_lsn lg'))"
    using ok2 lsn_l nx unfolding segs' chain_ok_snoc p by simp
  have "from \<le> l" using ok1 l by (simp add: log_ok_def complete_from_def word_le_nat_alt)
  then have rec: "records_from from (log_segs lg') = records_from from (log_segs lg) @ [r\<lparr>lsn := l\<rparr>]"
    by (simp add: segs' segs records_from_append records_from_Cons p records_from_def)
  have cf: "complete_from from (log_segs lg') (unat (next_lsn lg'))"
    using ok1 l unfolding log_ok_def complete_from_def rec nx by simp
  show "log_ok from lg'"
    unfolding log_ok_last [OF segs'] using ok2 ch cf p left nx
    by (simp add: segs') (simp add: lg')
  then show "log_accepted from (log_segs lg') = log_accepted from (log_segs lg0) @ [r\<lparr>lsn := l\<rparr>]"
    using log_ok_accepted [of "from" lg'] log_ok_accepted [OF ok1] rec R(1) by simp
qed

theorem log_append_fail:
  assumes ok: "log_ok from lg0"
    and ap: "log_append io r lg0 = (Inl e, lg')"
    and short: "\<And>k. io_write io = Some k \<Longrightarrow> k < kPrefixBytes + body_size r"
  shows "log_accepted from (log_segs lg') = log_accepted from (log_segs lg0)"
    "next_lsn lg' = next_lsn lg0" "\<not> log_broken lg' \<Longrightarrow> log_ok from lg'"
proof -
  have nb: "\<not> log_broken lg0" using ok by (simp add: log_ok_def)
  have "log_accepted from (log_segs lg') = log_accepted from (log_segs lg0)
    \<and> next_lsn lg' = next_lsn lg0 \<and> (\<not> log_broken lg' \<longrightarrow> log_ok from lg')"
  proof (cases "body_size r > kMaxBodyBytes")
    case True
    with ap ok show ?thesis by (simp add: log_append_alt)
  next
    case size: False
    obtain st lg where roll: "roll_segment io lg0 = (st, lg)" by fastforce
    note R = roll_segment_ok [OF ok roll]
    show ?thesis
    proof (cases "st = OK")
      case False
      with ap size nb roll R show ?thesis by (auto simp: log_append_alt)
    next
      case True
      note ok1 = R(3) [OF True]
      have "log_segs lg \<noteq> []" using ok1 by (simp add: log_ok_def)
      then obtain d f c where segs: "log_segs lg = d @ [(f, c)]" by (rule last_split)
      note ok2 = ok1 [unfolded log_ok_last [OF segs]]
      let ?buf = "encode_record (next_lsn lg) r"
      obtain k where k: "io_write io = Some k"
        using ap size nb roll True by (auto simp: log_append_alt Let_def split: option.splits)
      from short [OF k] have torn: "decode_record (take k ?buf) = None"
        using size by (intro decode_torn) (simp_all add: length_encode)
      note T = torn_tail_invisible [OF segs ok1 torn]
      have w: "write_last (take k ?buf) (log_segs lg) = d @ [(f, c @ take k ?buf)]"
        by (simp add: segs write_last_snoc)
      show ?thesis
      proof (cases "io_truncate io")
        case True
        have "lg' = lg" using ap size nb roll \<open>st = OK\<close> k True w ok2 segs
          by (auto simp: log_append_alt Let_def truncate_last_snoc)
        with R ok1 show ?thesis by simp
      next
        case False
        have "lg' = lg\<lparr>log_segs := d @ [(f, c @ take k ?buf)], log_broken := True\<rparr>"
          using ap size nb roll \<open>st = OK\<close> k False w by (auto simp: log_append_alt Let_def)
        with T R log_ok_accepted [OF ok1] show ?thesis by simp
      qed
    qed
  qed
  then show "log_accepted from (log_segs lg') = log_accepted from (log_segs lg0)"
    "next_lsn lg' = next_lsn lg0" "\<not> log_broken lg' \<Longrightarrow> log_ok from lg'" by blast+
qed

subsection \<open>Reopening after a crash\<close>

lemma remove_stale_ok: "remove_stale io n d = (True, d') \<Longrightarrow> d' = filter (\<lambda>(f, _). f < n) d"
  by (induction io n d arbitrary: d' rule: remove_stale.induct)
    (auto split: if_splits prod.splits)

lemma chain_ok_heads: "chain_ok ((f, c) # d) n \<Longrightarrow> (g, b) \<in> set d \<Longrightarrow> f < g"
proof (induction d arbitrary: f c)
  case (Cons p d)
  obtain h a where p: "p = (h, a)" by (cases p)
  from Cons.prems(1) have "f < h" "chain_ok ((h, a) # d) n" by (simp_all add: p)
  with Cons.IH [of h a] Cons.prems(2) show ?case by (auto simp: p)
qed simp

lemma chain_ok_filter:
  "chain_ok d m \<Longrightarrow> \<forall>(f, c) \<in> set d. \<forall>r \<in> set (parse_seg c). lsn r < n \<Longrightarrow>
    chain_ok (filter (\<lambda>(f, _). f < n) d) (unat n)"
proof (induction d)
  case (Cons p d)
  obtain f c where p: "p = (f, c)" by (cases p)
  have rest: "chain_ok (filter (\<lambda>(f, _). f < n) d) (unat n)" using Cons by (simp add: p)
  show ?case
  proof (cases "f < n")
    case False
    have "\<not> g < n" if "(g, b) \<in> set d" for g b
      using chain_ok_heads [OF Cons.prems(1) [unfolded p] that] False by auto
    then have "filter (\<lambda>(f, _). f < n) (p # d) = []" using False by (auto simp: p filter_empty_conv)
    then show ?thesis by simp
  next
    case True
    have len: "unat f + length (parse_seg c) \<le> unat n"
    proof (cases "parse_seg c = []")
      case False
      have "unat f + length (parse_seg c) - 1 \<in> set (lsns (parse_seg c))"
        using False Cons.prems(1) by (auto simp: p Suc_le_eq simp flip: length_greater_0_conv)
      then obtain r where "r \<in> set (parse_seg c)" "unat (lsn r) = unat f + length (parse_seg c) - 1"
        by (auto simp: lsns_def)
      with Cons.prems(2) show ?thesis by (fastforce simp: p word_less_nat_alt)
    qed (use True in \<open>simp add: word_less_nat_alt\<close>)
    have hd: "fst (hd (filter (\<lambda>(f, _). f < n) d)) = fst (hd d)" "d \<noteq> []"
      if ne: "filter (\<lambda>(f, _). f < n) d \<noteq> []"
    proof -
      show "d \<noteq> []" using ne by auto
      then obtain g b d' where d: "d = (g, b) # d'" by (cases d) auto
      have "g < n"
      proof (rule ccontr)
        assume "\<not> g < n"
        moreover have "\<not> h < n" if "(h, a) \<in> set d'" for h a
          using chain_ok_heads [of g b d' m h a] Cons.prems(1) that \<open>\<not> g < n\<close> by (auto simp: p d)
        ultimately show False using ne by (auto simp: d filter_empty_conv)
      qed
      then show "fst (hd (filter (\<lambda>(f, _). f < n) d)) = fst (hd d)" by (simp add: d)
    qed
    show ?thesis using True rest len hd Cons.prems(1) by (auto simp: p)
  qed
qed simp

lemma records_mem: "r \<in> set (records_from from d) \<longleftrightarrow>
    (\<exists>(f, c) \<in> set d. r \<in> set (parse_seg c) \<and> from \<le> lsn r)"
  unfolding records_from_def by (auto simp: split_beta)

lemma drop_empty_segs:
  "(\<And>f c. (f, c) \<in> set d \<Longrightarrow> \<not> P f \<Longrightarrow> parse_seg c = []) \<Longrightarrow>
    concat (map (parse_seg \<circ> snd) (filter (\<lambda>(f, _). P f) d)) = concat (map (parse_seg \<circ> snd) d)"
proof (induction d)
  case (Cons p d)
  obtain f c where p: "p = (f, c)" by (cases p)
  have "concat (map (parse_seg \<circ> snd) (filter (\<lambda>(f, _). P f) d)) = concat (map (parse_seg \<circ> snd) d)"
    by (rule Cons.IH) (use Cons.prems in auto)
  moreover have "\<not> P f \<Longrightarrow> parse_seg c = []" using Cons.prems [of f c] p by simp
  ultimately show ?case by (cases "P f") (simp_all add: p comp_def)
qed simp

theorem log_open_ok:
  assumes ch: "chain_ok d m" and co: "complete_from from d (unat n)"
    and op: "log_open io d n seg_bytes = (OK, d', Some lg)"
  shows "log_ok from lg" "d' = log_segs lg" "next_lsn lg = n"
    "log_accepted from d' = log_accepted from d"
proof -
  let ?d = "filter (\<lambda>(f, _). f < n) d"
  have d': "d' = open_file n ?d" and lg: "log_segs lg = d'" "next_lsn lg = n" "log_fd lg"
    "\<not> log_broken lg" "log_offset lg = 0" "0 < segment_bytes lg"
    using op remove_stale_ok
    by (auto simp: log_open_def open_segment_def Let_def kDefaultSegmentBytes_def
        split: if_splits prod.splits)
  show "d' = log_segs lg" "next_lsn lg = n" using lg by simp_all
  have fl: "from \<le> n" using co by (simp add: complete_from_def word_le_nat_alt)
  have below: "lsn r < n" if "r \<in> set (records_from from d)" for r
  proof -
    have "unat (lsn r) \<in> set (lsns (records_from from d))" using that by (auto simp: lsns_def)
    with co show ?thesis by (simp add: complete_from_def word_less_nat_alt)
  qed
  have all: "\<forall>(f, c) \<in> set d. \<forall>r \<in> set (parse_seg c). lsn r < n"
  proof (intro ballI, clarify)
    fix f c r assume "(f, c) \<in> set d" "r \<in> set (parse_seg c)"
    then show "lsn r < n" using below [of r] fl by (cases "from \<le> lsn r") (auto simp: records_mem)
  qed
  have ge: "f \<le> lsn r" if "(f, c) \<in> set d" "r \<in> set (parse_seg c)" for f c r
    using ch that
  proof (induction d)
    case (Cons p d)
    have "unat (lsn r) \<in> set (lsns (parse_seg c))" using Cons.prems(3) by (auto simp: lsns_def)
    with Cons show ?case by (cases p) (auto simp: word_le_nat_alt)
  qed simp
  have "records_from from ?d = records_from from d"
  proof -
    have "parse_seg c = []" if "(f, c) \<in> set d" "\<not> f < n" for f c
    proof (rule ccontr)
      assume "parse_seg c \<noteq> []"
      then obtain r where "r \<in> set (parse_seg c)" by (cases "parse_seg c") auto
      with all ge that show False by fastforce
    qed
    from drop_empty_segs [of d "\<lambda>f. f < n", OF this] show ?thesis unfolding records_from_def by simp
  qed
  moreover have opened: "open_file n ?d = ?d @ [(n, [])]" by (rule open_file_snoc) auto
  ultimately have rec: "records_from from d' = records_from from d"
    by (simp add: d' records_from_append records_from_def)
  have chd: "chain_ok ?d (unat n)" using ch all by (rule chain_ok_filter)
  have segs: "log_segs lg = ?d @ [(n, [])]" by (simp add: lg(1) d' opened)
  have "last ?d \<in> set ?d" if "?d \<noteq> []" using that by (rule last_in_set)
  then have "fst (last ?d) < n" if "?d \<noteq> []" using that by auto
  then have "chain_ok (?d @ [(n, [])]) (unat n)" using chd by (simp add: chain_ok_snoc)
  moreover have "complete_from from (?d @ [(n, [])]) (unat n)"
    using co rec unfolding complete_from_def d' opened by simp
  ultimately show ok: "log_ok from lg"
    unfolding log_ok_last [OF segs] using lg by simp
  have "log_accepted from d = records_from from d"
    using log_accepted_complete [OF ch co] unsigned_less [of n] by simp
  with log_ok_accepted [OF ok] rec lg show "log_accepted from d' = log_accepted from d" by simp
qed

text \<open>A crash may lose any part of what the last segment's file held.\<close>

lemma crash_prefix:
  assumes ok: "log_ok from lg" and segs: "log_segs lg = d @ [(f, c)]"
    and d'_def: "d' = d @ [(f, take k c)]"
  shows "\<exists>t. log_accepted from (log_segs lg) = log_accepted from d' @ t"
    "chain_ok d' (unat (next_lsn lg))"
    "complete_from from d' (unat from + length (log_accepted from d'))"
proof -
  note ok' = ok [unfolded log_ok_last [OF segs]]
  obtain t where t: "parse_seg c = parse_seg (take k c) @ t" using parse_seg_take by blast
  let ?p = "parse_seg (take k c)"
  have pre: "xs = [a ..< a + length xs]" if "xs @ ys = [a ..< b]" for xs ys a b
  proof -
    have "xs = take (length xs) [a ..< b]" using that by (metis append_eq_conv_conj)
    moreover have "length xs \<le> b - a" using arg_cong [OF that, of length] by simp
    ultimately show ?thesis by (cases "a \<le> b") (simp_all add: take_upt)
  qed
  have "lsns ?p = [unat f ..< unat f + length ?p]"
    using ok' pre [of "lsns ?p" "lsns t"] by (simp add: chain_ok_snoc t)
  then show ch: "chain_ok d' (unat (next_lsn lg))"
    using ok' t unfolding d'_def by (simp add: chain_ok_snoc)
  let ?t = "filter (\<lambda>r. from \<le> lsn r) t"
  have rec: "records_from from (log_segs lg) = records_from from d' @ ?t"
    by (simp add: segs d'_def records_from_append records_from_Cons t records_from_def)
  have "lsns (records_from from d') @ lsns ?t = [unat from ..< unat (next_lsn lg)]"
    using ok rec by (simp add: log_ok_def complete_from_def)
  note pr = pre [OF this]
  have len: "length (records_from from d') \<le> unat (next_lsn lg) - unat from"
    using arg_cong [OF \<open>lsns (records_from from d') @ lsns ?t = _\<close>, of length] by simp
  have co: "complete_from from d' (unat from + length (records_from from d'))"
    using pr by (simp add: complete_from_def)
  have "unat from + length (records_from from d') < 2 ^ 64"
    using len ok unat_u64_lt [of "next_lsn lg"] unfolding log_ok_def complete_from_def by linarith
  then have acc: "log_accepted from d' = records_from from d'"
    unfolding log_accepted_def relevant_records [OF ch]
    using co by (auto simp: complete_from_def intro: contig_complete)
  show "complete_from from d' (unat from + length (log_accepted from d'))" using co acc by simp
  show "\<exists>t. log_accepted from (log_segs lg) = log_accepted from d' @ t"
    using rec acc log_ok_accepted [OF ok] by simp
qed

subsection \<open>Truncation\<close>

lemma truncate_below_ok:
  assumes "chain_ok d m" "truncate_below io l d = (st, d')" "l \<le> from"
  shows "chain_ok d' m \<and> records_from from d' = records_from from d
    \<and> (d \<noteq> [] \<longrightarrow> d' \<noteq> [] \<and> last d' = last d)"
  using assms
proof (induction io l d rule: truncate_below.induct)
  case (1 io l f c g c' d)
  show ?case
  proof (cases "g > l \<or> \<not> io_remove io f")
    case True
    with 1(3) have "d' = (f, c) # (g, c') # d" by (auto split: if_splits)
    with 1(2) show ?thesis by simp
  next
    case False
    then have gl: "g \<le> l" by auto
    have "\<not> from \<le> lsn r" if "r \<in> set (parse_seg c)" for r
    proof -
      have "unat (lsn r) \<in> set (lsns (parse_seg c))" using that by (auto simp: lsns_def)
      with 1(2) have "unat (lsn r) < unat g" by auto
      with gl 1(4) show ?thesis by (auto simp: word_le_nat_alt)
    qed
    then have none: "filter (\<lambda>r. from \<le> lsn r) (parse_seg c) = []" by (simp add: filter_empty_conv)
    have "chain_ok ((g, c') # d) m" "truncate_below io l ((g, c') # d) = (st, d')"
      using 1(2,3) False by simp_all
    with 1(1) [OF _ _ this 1(4)] False none show ?thesis
      unfolding records_from_Cons [of _ f] by simp
  qed
qed auto

theorem log_truncate_ok:
  assumes ok: "log_ok from lg" and t: "log_truncate_below io l lg = (st, lg')" and "l \<le> from"
  shows "log_ok from lg'" "log_accepted from (log_segs lg') = log_accepted from (log_segs lg)"
    "next_lsn lg' = next_lsn lg"
proof -
  obtain d' where d': "truncate_below io l (log_segs lg) = (st, d')" "lg' = lg\<lparr>log_segs := d'\<rparr>"
    using t by (auto simp: log_truncate_below_def split: prod.splits)
  have ch: "chain_ok (log_segs lg) (unat (next_lsn lg))" "log_segs lg \<noteq> []" using ok by (auto simp: log_ok_def)
  note T = truncate_below_ok [OF ch(1) d'(1) assms(3)]
  show ok': "log_ok from lg'"
    using ok T ch(2) by (simp add: log_ok_def complete_from_def d'(2))
  show "log_accepted from (log_segs lg') = log_accepted from (log_segs lg)"
    using log_ok_accepted [OF ok'] log_ok_accepted [OF ok] T by (simp add: d'(2))
  show "next_lsn lg' = next_lsn lg" by (simp add: d'(2))
qed

subsection \<open>Segment names\<close>

lemma length_digits [simp]: "length (digits k n) = k"
  by (induction k arbitrary: n) auto

lemma digit_val: "d < 10 \<Longrightarrow> unat (digit d - 0x30) = d \<and> 0x30 \<le> digit d \<and> digit d \<le> 0x39"
proof -
  assume "d < 10"
  then have "d \<in> {0, 1, 2, 3, 4, 5, 6, 7, 8, 9}" by auto
  then show ?thesis by (auto simp: digit_def)
qed

lemma digits_value: "foldl (\<lambda>n c. n * 10 + unat (c - 0x30)) a (digits k n) = a * 10 ^ k + n mod 10 ^ k"
proof (induction k arbitrary: n)
  case (Suc k)
  have "n mod 10 ^ Suc k = 10 * (n div 10 mod 10 ^ k) + n mod 10"
    by (simp add: mod_mult2_eq)
  with Suc digit_val [of "n mod 10"] show ?case by (simp add: algebra_simps)
qed simp

lemma digits_range: "list_all (\<lambda>c. 0x30 \<le> c \<and> c \<le> 0x39) (digits k n)"
  by (induction k arbitrary: n) (auto simp: digit_val)

lemma seg_parse_name: "seg_parse (seg_name f) = Seg f"
proof -
  have "unat f mod 10 ^ 20 = unat f" using unat_u64_lt [of f] by simp
  then have "foldl (\<lambda>n c. n * 10 + unat (c - 0x30)) 0 (digits 20 (unat f)) = unat f"
    using digits_value [of 0 20 "unat f"] by simp
  then show ?thesis
    using unat_u64_lt [of f] digits_range [of 20 "unat f"]
    by (simp add: seg_parse_def seg_name_def Let_def log_suffix_def)
qed

subsection \<open>Properties\<close>

definition io_good :: log_io where
  "io_good = \<lparr>io_mkdir = True, io_remove = (\<lambda>_. True), io_open = True, io_sync = True,
     io_write = None, io_truncate = True\<rparr>"

definition sample_record :: op_record where
  "sample_record = \<lparr>lsn = 0, op = kOpInsert, encoding = 0, real_id = 7, internal_id = 7, aux = 0,
     recbytes = [1, 2], reckey = [], payload = []\<rparr>"

definition fresh_log :: oplog where
  "fresh_log = \<lparr>log_segs = [(1, [])], next_lsn = 1, segment_bytes = kDefaultSegmentBytes,
     log_fd = True, log_offset = 0, log_broken = False\<rparr>"

lemma fresh_log_open: "log_open io_good [] 1 0 = (OK, log_segs fresh_log, Some fresh_log)"
  by (simp add: log_open_def open_segment_def open_file_def Let_def io_good_def fresh_log_def)

lemma fresh_log_ok: "log_ok 1 fresh_log"
  by (rule log_open_ok(1) [OF _ _ fresh_log_open, of 0]) (simp_all add: complete_from_def records_from_def)

lemma fresh_log_empty: "log_accepted 1 (log_segs fresh_log) = []"
  by (simp add: log_ok_accepted [OF fresh_log_ok]) (simp add: fresh_log_def records_from_def)

text \<open>C11: A scan hands to its callback, in order and until the callback fails, exactly the records
  that are whole, at or above the start lsn, and consecutive from it; a torn or corrupt record ends
  its segment and the first missing lsn ends the scan.\<close>

theorem log_scan_reference:
  assumes "\<forall>(f, c) \<in> set (relevant from d). rd f"
  shows "(case log_scan rd d from fn s of (status, st, s') \<Rightarrow> (status, s'))
    = deliver fn (log_accepted from d) s"
proof (cases "log_scan rd d from fn s")
  case (fields status st s')
  with log_scan_deliver [OF assms fields] show ?thesis by simp
qed

theorem log_scan_reference_witness:
  "(case log_scan (\<lambda>f. f < 9) [(1, encode_record 1 sample_record @ [0]), (7, [])] 1 (\<lambda>r rs. (OK, r # rs)) []
      of (status, st, rs) \<Rightarrow> (status, rs))
    = deliver (\<lambda>r rs. (OK, r # rs)) (log_accepted 1 [(1, encode_record 1 sample_record @ [0]), (7, [])]) []"
  by (rule log_scan_reference) simp

text \<open>C10: Appending either succeeds, and a later scan delivers one record more, or fails, and a later
  scan delivers what it did before: also when the write stopped in the middle of the record, and
  even when the torn bytes could not be cut off again. A log that is not broken stays fit for use.\<close>

theorem log_append_atomic:
  assumes "log_ok from lg" "next_lsn lg \<noteq> - 1" "log_append io r lg = (res, lg')"
    and "\<And>k. io_write io = Some k \<Longrightarrow> k < kPrefixBytes + body_size r"
  shows "case res of
      Inr l \<Rightarrow> l = next_lsn lg \<and> log_ok from lg' \<and> next_lsn lg' = l + 1
        \<and> log_accepted from (log_segs lg') = log_accepted from (log_segs lg) @ [r\<lparr>lsn := l\<rparr>]
    | Inl e \<Rightarrow> log_accepted from (log_segs lg') = log_accepted from (log_segs lg)
        \<and> next_lsn lg' = next_lsn lg \<and> (\<not> log_broken lg' \<longrightarrow> log_ok from lg')"
proof (cases res)
  case (Inl e)
  with log_append_fail [OF assms(1) _ assms(4)] assms(3) show ?thesis by auto
next
  case (Inr l)
  with log_append_ok [OF assms(1,2)] assms(3) show ?thesis by auto
qed

theorem log_append_atomic_witness:
  "\<exists>lg'. log_append io_good sample_record fresh_log = (Inr 1, lg') \<and> log_ok 1 lg'
    \<and> log_accepted 1 (log_segs lg') = [sample_record\<lparr>lsn := 1\<rparr>]"
proof -
  let ?res = "log_append io_good sample_record fresh_log"
  have "fst ?res = Inr 1"
    by (simp add: log_append_def io_good_def fresh_log_def sample_record_def body_size_def
        kFixedBody_def kMaxBodyBytes_def kDefaultSegmentBytes_def Let_def)
  then obtain lg' where ap: "?res = (Inr 1, lg')" by (metis prod.collapse)
  have "next_lsn fresh_log \<noteq> - 1" by (simp add: fresh_log_def)
  moreover have "io_write io_good = None" by (simp add: io_good_def)
  ultimately show ?thesis
    using log_append_atomic [OF fresh_log_ok _ ap] ap fresh_log_empty by simp
qed



text \<open>C12: Truncating the log below an lsn, completely or until a file cannot be removed, keeps every
  record a scan from that lsn or later delivers, and the segment being written.\<close>

theorem log_truncate_keeps:
  assumes "log_ok from lg" "log_truncate_below io l lg = (st, lg')" "l \<le> from"
  shows "log_ok from lg' \<and> log_accepted from (log_segs lg') = log_accepted from (log_segs lg)"
  using log_truncate_ok [OF assms] by blast

theorem log_truncate_keeps_witness: "log_ok 1 (snd (log_truncate_below io_good 1 fresh_log))"
  using log_truncate_keeps [OF fresh_log_ok, of io_good 1] by (metis order.refl prod.collapse)

text \<open>The name of a segment file is read back as the segment's first lsn.\<close>

theorem log_name_roundtrip: "seg_parse (seg_name f) = Seg f"
  by (rule seg_parse_name)

end
