(* ===== verification/Json.thy ===== *)
theory Json
  imports Prelude Complex_Main "HOL-Library.AList" "HOL-Library.Char_ord" "HOL-Library.List_Lexorder"
begin

text \<open>
  JSON values as the engine's JSON library represents them (\<open>third_party/json/json.hpp\<close>): three kinds
  of numbers, and objects as lists of members in key order. \<open>json_eq\<close> and \<open>json_less\<close> are the
  library's \<open>operator==\<close> and \<open>operator<\<close> (\<open>JSON_IMPLEMENT_OPERATOR\<close>), with its conversions between
  the kinds of numbers; \<open>merge_patch\<close> is its member of that name. Texts are bytes; parsing and
  printing are parameters of the theories that use them.
\<close>

datatype json =
    JNull
  | JBool bool
  | JInt int
  | JUInt nat
  | JFloat rat
  | JStr string
  | JArr "json list"
  | JObj "(string \<times> json) list"

fun is_object :: "json \<Rightarrow> bool" where
  "is_object (JObj _) = True" | "is_object _ = False"

fun is_array :: "json \<Rightarrow> bool" where
  "is_array (JArr _) = True" | "is_array _ = False"

fun is_number :: "json \<Rightarrow> bool" where
  "is_number (JInt _) = True" | "is_number (JUInt _) = True" | "is_number (JFloat _) = True"
| "is_number _ = False"

fun is_string :: "json \<Rightarrow> bool" where
  "is_string (JStr _) = True" | "is_string _ = False"

fun is_boolean :: "json \<Rightarrow> bool" where
  "is_boolean (JBool _) = True" | "is_boolean _ = False"

text \<open>
  \<open>static_cast<double>\<close> of a 64-bit integer: the nearest number with 53 significant bits, ties to
  even. The second is \<open>static_cast<int64_t>\<close> of an unsigned one.
\<close>

fun excess_bits :: "nat \<Rightarrow> nat" where
  "excess_bits n = (if n < 2 ^ 53 then 0 else Suc (excess_bits (n div 2)))"

declare excess_bits.simps [simp del]

definition dbl_nat :: "nat \<Rightarrow> nat" where
  "dbl_nat n =
     (let k = excess_bits n; q = n div 2 ^ k; r = n mod 2 ^ k
      in if k = 0 then n
         else if 2 * r > 2 ^ k \<or> (2 * r = 2 ^ k \<and> odd q) then (q + 1) * 2 ^ k else q * 2 ^ k)"

definition to_double :: "int \<Rightarrow> rat" where
  "to_double i = (if i < 0 then - of_nat (dbl_nat (nat (- i))) else of_nat (dbl_nat (nat i)))"

definition to_signed :: "nat \<Rightarrow> int" where
  "to_signed n = (if n < 2 ^ 63 then int n else int n - 2 ^ 64)"

text \<open>The two operands a comparison of numbers compares.\<close>

fun num_operands :: "json \<Rightarrow> json \<Rightarrow> (rat \<times> rat) option" where
  "num_operands (JInt i) (JInt j) = Some (of_int i, of_int j)"
| "num_operands (JUInt m) (JUInt n) = Some (of_nat m, of_nat n)"
| "num_operands (JFloat f) (JFloat g) = Some (f, g)"
| "num_operands (JInt i) (JFloat g) = Some (to_double i, g)"
| "num_operands (JFloat f) (JInt j) = Some (f, to_double j)"
| "num_operands (JUInt m) (JFloat g) = Some (to_double (int m), g)"
| "num_operands (JFloat f) (JUInt n) = Some (f, to_double (int n))"
| "num_operands (JUInt m) (JInt j) = Some (of_int (to_signed m), of_int j)"
| "num_operands (JInt i) (JUInt n) = Some (of_int i, of_int (to_signed n))"
| "num_operands _ _ = None"

fun json_eq :: "json \<Rightarrow> json \<Rightarrow> bool"
  and json_eq_list :: "json list \<Rightarrow> json list \<Rightarrow> bool"
  and json_eq_obj :: "(string \<times> json) list \<Rightarrow> (string \<times> json) list \<Rightarrow> bool" where
  "json_eq JNull b = (b = JNull)"
| "json_eq (JBool x) b = (b = JBool x)"
| "json_eq (JStr s) b = (b = JStr s)"
| "json_eq (JArr xs) b = (case b of JArr ys \<Rightarrow> json_eq_list xs ys | _ \<Rightarrow> False)"
| "json_eq (JObj xs) b = (case b of JObj ys \<Rightarrow> json_eq_obj xs ys | _ \<Rightarrow> False)"
| "json_eq (JInt i) b = (case num_operands (JInt i) b of None \<Rightarrow> False | Some (x, y) \<Rightarrow> x = y)"
| "json_eq (JUInt n) b = (case num_operands (JUInt n) b of None \<Rightarrow> False | Some (x, y) \<Rightarrow> x = y)"
| "json_eq (JFloat f) b = (case num_operands (JFloat f) b of None \<Rightarrow> False | Some (x, y) \<Rightarrow> x = y)"
| "json_eq_list [] [] = True"
| "json_eq_list (x # xs) (y # ys) = (json_eq x y \<and> json_eq_list xs ys)"
| "json_eq_list _ _ = False"
| "json_eq_obj [] [] = True"
| "json_eq_obj ((k, x) # xs) ((l, y) # ys) = (k = l \<and> json_eq x y \<and> json_eq_obj xs ys)"
| "json_eq_obj _ _ = False"

text \<open>\<open>operator<\<close> on two numbers or two strings, the only operands the engine gives it.\<close>

fun json_less :: "json \<Rightarrow> json \<Rightarrow> bool" where
  "json_less (JStr s) (JStr t) = (s < t)"
| "json_less a b = (case num_operands a b of None \<Rightarrow> False | Some (x, y) \<Rightarrow> x < y)"

text \<open>Members in key order: what \<open>operator[]\<close> and \<open>erase\<close> do on an object.\<close>

fun obj_update :: "string \<Rightarrow> json \<Rightarrow> (string \<times> json) list \<Rightarrow> (string \<times> json) list" where
  "obj_update k v [] = [(k, v)]"
| "obj_update k v ((l, w) # m) =
     (if k = l then (k, v) # m else if k < l then (k, v) # (l, w) # m else (l, w) # obj_update k v m)"

definition obj_erase :: "string \<Rightarrow> (string \<times> json) list \<Rightarrow> (string \<times> json) list" where
  "obj_erase k m = filter (\<lambda>(l, _). l \<noteq> k) m"

definition obj_get :: "string \<Rightarrow> (string \<times> json) list \<Rightarrow> json" where
  "obj_get k m = (case map_of m k of None \<Rightarrow> JNull | Some v \<Rightarrow> v)"

fun members :: "json \<Rightarrow> (string \<times> json) list" where
  "members (JObj m) = m" | "members _ = []"

fun merge_patch :: "json \<Rightarrow> json \<Rightarrow> json"
  and merge_members :: "(string \<times> json) list \<Rightarrow> (string \<times> json) list \<Rightarrow> (string \<times> json) list" where
  "merge_patch doc (JObj p) = JObj (merge_members (members doc) p)"
| "merge_patch doc p = p"
| "merge_members m [] = m"
| "merge_members m ((k, v) # p) =
     merge_members (if v = JNull then obj_erase k m
                    else obj_update k (merge_patch (obj_get k m) v) m) p"

subsection \<open>Facts\<close>

lemma num_operands_swap:
  "num_operands a b = (case num_operands b a of None \<Rightarrow> None | Some (x, y) \<Rightarrow> Some (y, x))"
  by (cases a; cases b) simp_all

lemma num_operands_number: "num_operands a b \<noteq> None \<longleftrightarrow> is_number a \<and> is_number b"
  by (cases a; cases b) simp_all

lemma json_eq_refl: "json_eq a a"
proof (induction a)
  case (JArr xs)
  then show ?case by (simp, induction xs) auto
next
  case (JObj m)
  have "(\<forall>(k, v) \<in> set m. json_eq v v) \<Longrightarrow> json_eq_obj m m" by (induction m) auto
  moreover have "\<forall>(k, v) \<in> set m. json_eq v v" using JObj by fastforce
  ultimately show ?case by simp
qed auto

lemma map_of_obj_update: "map_of (obj_update k v m) = (map_of m)(k \<mapsto> v)"
  by (induction m) auto

lemma map_of_obj_erase: "map_of (obj_erase k m) = (map_of m)(k := None)"
  by (induction m) (auto simp: obj_erase_def)

lemma sorted_obj_update: "sorted (map fst m) \<Longrightarrow> distinct (map fst m) \<Longrightarrow>
    sorted (map fst (obj_update k v m)) \<and> distinct (map fst (obj_update k v m))
    \<and> set (map fst (obj_update k v m)) = insert k (set (map fst m))"
  by (induction m) force+

text \<open>What a patch leaves under a key: RFC 7396 for one level.\<close>

lemma merge_members_get:
  "distinct (map fst p) \<Longrightarrow> map_of (merge_members m p) k =
    (case map_of p k of
       None \<Rightarrow> map_of m k
     | Some v \<Rightarrow> if v = JNull then None else Some (merge_patch (obj_get k m) v))"
proof (induction p arbitrary: m)
  case (Cons q p)
  obtain l v where q: "q = (l, v)" by (cases q)
  have "map_of p l = None" using Cons.prems by (simp add: q map_of_eq_None_iff)
  with Cons show ?case
    by (auto simp: q map_of_obj_update map_of_obj_erase obj_get_def split: option.split)
qed simp

end
