(* ===== verification/Meta_Filter.thy ===== *)
theory Meta_Filter
  imports Json
begin

text \<open>
  Metadata filters, \<open>src/metadata.cc\<close> and \<open>include/metadata.h\<close>: the parser of the Mongo-style filter
  language with its caps on input size and nesting, and the matcher with its own depth guard.
  \<open>sat\<close> is the reference semantics of a predicate, without a guard: the matcher computes it on
  predicates at most \<open>kMaxPredicateDepth\<close> high, and the height of what the parser accepts is bounded.
\<close>

datatype pred_kind =
  PEq | PNe | PGt | PGte | PLt | PLte | PIn | PNin | PExists | PContainsAny | PContainsAll | PAnd | POr

datatype predicate = Predicate
  (pkind: pred_kind) (ppath: "string list") (pvalue: json) (pvalues: "json list")
  (pexists: bool) (pchildren: "predicate list")

definition predicate0 :: predicate where
  "predicate0 = Predicate PAnd [] JNull [] True []"

definition kMaxFilterJsonBytes :: nat where "kMaxFilterJsonBytes = 8 * 1024"
definition kMaxPredicateDepth :: nat where "kMaxPredicateDepth = 32"

text \<open>\<open>Resolve\<close>: follow a path; \<open>None\<close> is the null pointer.\<close>

fun resolve :: "json \<Rightarrow> string list \<Rightarrow> json option" where
  "resolve cur [] = Some cur"
| "resolve cur (seg # path) =
     (case cur of
        JObj m \<Rightarrow> (case map_of m seg of None \<Rightarrow> None | Some v \<Rightarrow> resolve v path)
      | _ \<Rightarrow> None)"

definition same_ordering_kind :: "json \<Rightarrow> json \<Rightarrow> bool" where
  "same_ordering_kind a b \<longleftrightarrow> (is_number a \<and> is_number b) \<or> (is_string a \<and> is_string b)"

definition compare_ordered :: "json option \<Rightarrow> json \<Rightarrow> (json \<Rightarrow> json \<Rightarrow> bool) \<Rightarrow> bool" where
  "compare_ordered v rhs cmp =
     (case v of None \<Rightarrow> False | Some a \<Rightarrow> if \<not> same_ordering_kind a rhs then False else cmp a rhs)"

text \<open>\<open>SplitPath\<close>; the second argument is the segment read so far.\<close>

fun split_loop :: "string \<Rightarrow> string \<Rightarrow> string list" where
  "split_loop [] seg = [seg]"
| "split_loop (c # cs) seg = (if c = CHR ''.'' then seg # split_loop cs [] else split_loop cs (seg @ [c]))"

definition split_path :: "string \<Rightarrow> string list" where
  "split_path s = split_loop s []"

subsection \<open>The parser\<close>

definition op_kind :: "string \<Rightarrow> pred_kind option" where
  "op_kind opn =
     (if opn = ''$eq'' then Some PEq else if opn = ''$ne'' then Some PNe else if opn = ''$gt'' then Some PGt
      else if opn = ''$gte'' then Some PGte else if opn = ''$lt'' then Some PLt
      else if opn = ''$lte'' then Some PLte else if opn = ''$in'' then Some PIn
      else if opn = ''$nin'' then Some PNin else if opn = ''$contains_any'' then Some PContainsAny
      else if opn = ''$contains_all'' then Some PContainsAll else if opn = ''$exists'' then Some PExists
      else None)"

definition parse_operator :: "string list \<Rightarrow> string \<Rightarrow> json \<Rightarrow> status + predicate" where
  "parse_operator p opn arg =
     (case op_kind opn of
        None \<Rightarrow> Inl InvalidArgument
      | Some k \<Rightarrow>
          if k \<in> {PIn, PNin, PContainsAny, PContainsAll} then
            (case arg of JArr els \<Rightarrow> Inr (Predicate k p JNull els True []) | _ \<Rightarrow> Inl InvalidArgument)
          else if k = PExists then
            (case arg of JBool b \<Rightarrow> Inr (Predicate k p JNull [] b []) | _ \<Rightarrow> Inl InvalidArgument)
          else Inr (Predicate k p arg [] True []))"

fun parse_operators :: "string list \<Rightarrow> (string \<times> json) list \<Rightarrow> status + predicate list" where
  "parse_operators p [] = Inr []"
| "parse_operators p ((opn, arg) # m) =
     (case parse_operator p opn arg of
        Inl e \<Rightarrow> Inl e
      | Inr leaf \<Rightarrow> (case parse_operators p m of Inl e \<Rightarrow> Inl e | Inr ls \<Rightarrow> Inr (leaf # ls)))"

text \<open>One child stands for itself, any other number is a conjunction.\<close>

definition conjunction :: "predicate list \<Rightarrow> predicate" where
  "conjunction cs = (if length cs = 1 then hd cs else Predicate PAnd [] JNull [] True cs)"

definition parse_operator_object :: "string list \<Rightarrow> json \<Rightarrow> status + predicate" where
  "parse_operator_object p obj =
     (case obj of
        JObj m \<Rightarrow> (case parse_operators p m of Inl e \<Rightarrow> Inl e | Inr ls \<Rightarrow> Inr (conjunction ls))
      | _ \<Rightarrow> Inl InvalidArgument)"

definition is_op_key :: "string \<Rightarrow> bool" where
  "is_op_key k \<longleftrightarrow> k \<noteq> [] \<and> hd k = CHR ''$''"

definition parse_field :: "string \<Rightarrow> json \<Rightarrow> status + predicate" where
  "parse_field key val =
     (let p = split_path key; m = members val;
          has_op = list_ex (\<lambda>(k, _). is_op_key k) m;
          has_non_op = list_ex (\<lambda>(k, _). \<not> is_op_key k) m;
          is_operator_object = (is_object val \<and> m \<noteq> [] \<and> \<not> has_non_op)
      in if has_op \<and> has_non_op then Inl InvalidArgument
         else if is_operator_object then parse_operator_object p val
         else Inr (Predicate PEq p val [] True []))"

fun parse_object :: "json \<Rightarrow> nat \<Rightarrow> status + predicate"
  and parse_members :: "(string \<times> json) list \<Rightarrow> nat \<Rightarrow> status + predicate list"
  and parse_logical_array :: "json \<Rightarrow> pred_kind \<Rightarrow> nat \<Rightarrow> status + predicate"
  and parse_elements :: "json list \<Rightarrow> nat \<Rightarrow> status + predicate list" where
  "parse_object obj depth =
     (if depth > kMaxPredicateDepth then Inl InvalidArgument
      else case obj of
        JObj m \<Rightarrow> (case parse_members m depth of Inl e \<Rightarrow> Inl e | Inr cs \<Rightarrow> Inr (conjunction cs))
      | _ \<Rightarrow> Inl InvalidArgument)"
| "parse_members [] depth = Inr []"
| "parse_members ((key, val) # m) depth =
     (case (if key = ''$and'' \<or> key = ''$or''
            then parse_logical_array val (if key = ''$and'' then PAnd else POr) (depth + 1)
            else parse_field key val) of
        Inl e \<Rightarrow> Inl e
      | Inr c \<Rightarrow> (case parse_members m depth of Inl e \<Rightarrow> Inl e | Inr cs \<Rightarrow> Inr (c # cs)))"
| "parse_logical_array arr k depth =
     (if depth > kMaxPredicateDepth then Inl InvalidArgument
      else case arr of
        JArr els \<Rightarrow> (case parse_elements els depth of
                        Inl e \<Rightarrow> Inl e
                      | Inr cs \<Rightarrow> Inr (Predicate k [] JNull [] True cs))
      | _ \<Rightarrow> Inl InvalidArgument)"
| "parse_elements [] depth = Inr []"
| "parse_elements (el # els) depth =
     (if \<not> is_object el then Inl InvalidArgument
      else case parse_object el (depth + 1) of
        Inl e \<Rightarrow> Inl e
      | Inr c \<Rightarrow> (case parse_elements els depth of Inl e \<Rightarrow> Inl e | Inr cs \<Rightarrow> Inr (c # cs)))"

text \<open>\<open>isspace\<close> in the C locale.\<close>

definition is_space :: "byte \<Rightarrow> bool" where
  "is_space c \<longleftrightarrow> c = 0x20 \<or> (0x09 \<le> c \<and> c \<le> 0x0D)"

definition trim :: "bytes \<Rightarrow> bytes" where
  "trim s = rev (dropWhile is_space (rev (dropWhile is_space s)))"

text \<open>The library's text parser is the argument \<open>parse\<close>, \<open>None\<close> being an exception.\<close>

definition parse_predicate :: "(bytes \<Rightarrow> json option) \<Rightarrow> bytes \<Rightarrow> status + predicate" where
  "parse_predicate parse s =
     (let t = trim s in
      if t = [] \<or> t = [0x7B, 0x7D] then Inr predicate0
      else if length t > kMaxFilterJsonBytes then Inl InvalidArgument
      else case parse t of None \<Rightarrow> Inl InvalidArgument | Some j \<Rightarrow> parse_object j 0)"

subsection \<open>The matcher\<close>

definition match_leaf :: "predicate \<Rightarrow> json option \<Rightarrow> bool" where
  "match_leaf p v =
     (case pkind p of
        PEq \<Rightarrow> (case v of None \<Rightarrow> False | Some a \<Rightarrow> json_eq a (pvalue p))
      | PNe \<Rightarrow> (case v of None \<Rightarrow> True | Some a \<Rightarrow> \<not> json_eq a (pvalue p))
      | PGt \<Rightarrow> compare_ordered v (pvalue p) (\<lambda>a b. json_less b a)
      | PGte \<Rightarrow> compare_ordered v (pvalue p) (\<lambda>a b. \<not> json_less a b)
      | PLt \<Rightarrow> compare_ordered v (pvalue p) json_less
      | PLte \<Rightarrow> compare_ordered v (pvalue p) (\<lambda>a b. \<not> json_less b a)
      | PIn \<Rightarrow> (case v of None \<Rightarrow> False | Some a \<Rightarrow> list_ex (\<lambda>x. json_eq a x) (pvalues p))
      | PNin \<Rightarrow> (case v of None \<Rightarrow> True | Some a \<Rightarrow> \<not> list_ex (\<lambda>x. json_eq a x) (pvalues p))
      | PExists \<Rightarrow> (v \<noteq> None) = pexists p
      | PContainsAny \<Rightarrow>
          (case v of Some (JArr els) \<Rightarrow> list_ex (\<lambda>t. list_ex (\<lambda>el. json_eq el t) els) (pvalues p)
           | _ \<Rightarrow> False)
      | PContainsAll \<Rightarrow>
          (case v of Some (JArr els) \<Rightarrow> list_all (\<lambda>t. list_ex (\<lambda>el. json_eq el t) els) (pvalues p)
           | _ \<Rightarrow> False)
      | _ \<Rightarrow> False)"

fun matches_with_depth :: "predicate \<Rightarrow> json \<Rightarrow> nat \<Rightarrow> bool" where
  "matches_with_depth (Predicate k pa v vs e cs) doc depth =
     (if depth > kMaxPredicateDepth then False
      else if k = PAnd then list_all (\<lambda>c. matches_with_depth c doc (depth + 1)) cs
      else if k = POr then list_ex (\<lambda>c. matches_with_depth c doc (depth + 1)) cs
      else match_leaf (Predicate k pa v vs e cs) (resolve doc pa))"

definition pred_matches :: "predicate \<Rightarrow> json \<Rightarrow> bool" where
  "pred_matches p doc = matches_with_depth p doc 0"

subsection \<open>Reference semantics\<close>

fun sat :: "predicate \<Rightarrow> json \<Rightarrow> bool" where
  "sat (Predicate k pa v vs e cs) doc =
     (if k = PAnd then list_all (\<lambda>c. sat c doc) cs
      else if k = POr then list_ex (\<lambda>c. sat c doc) cs
      else match_leaf (Predicate k pa v vs e cs) (resolve doc pa))"

fun height :: "predicate \<Rightarrow> nat" where
  "height (Predicate k pa v vs e cs) =
     (if k = PAnd \<or> k = POr then fold max (map (\<lambda>c. Suc (height c)) cs) 0 else 0)"

text \<open>The filter language itself, on the JSON of the filter.\<close>

definition op_holds :: "string \<Rightarrow> json \<Rightarrow> json option \<Rightarrow> bool" where
  "op_holds opn arg v =
     (if opn = ''$exists'' then (v \<noteq> None) = (arg = JBool True)
      else case v of
        None \<Rightarrow> opn = ''$ne'' \<or> opn = ''$nin''
      | Some a \<Rightarrow>
          if opn = ''$eq'' then json_eq a arg
          else if opn = ''$ne'' then \<not> json_eq a arg
          else if opn = ''$in'' then (case arg of JArr xs \<Rightarrow> \<exists>x \<in> set xs. json_eq a x | _ \<Rightarrow> False)
          else if opn = ''$nin'' then (case arg of JArr xs \<Rightarrow> \<forall>x \<in> set xs. \<not> json_eq a x | _ \<Rightarrow> False)
          else if opn = ''$contains_any'' then
            (case (arg, a) of (JArr xs, JArr els) \<Rightarrow> \<exists>x \<in> set xs. \<exists>el \<in> set els. json_eq el x | _ \<Rightarrow> False)
          else if opn = ''$contains_all'' then
            (case (arg, a) of (JArr xs, JArr els) \<Rightarrow> \<forall>x \<in> set xs. \<exists>el \<in> set els. json_eq el x | _ \<Rightarrow> False)
          else same_ordering_kind a arg \<and>
            (if opn = ''$gt'' then json_less arg a else if opn = ''$gte'' then \<not> json_less a arg
             else if opn = ''$lt'' then json_less a arg else \<not> json_less arg a))"

definition field_holds :: "string \<Rightarrow> json \<Rightarrow> json \<Rightarrow> bool" where
  "field_holds key val doc =
     (let v = resolve doc (split_path key)
      in if is_object val \<and> members val \<noteq> [] \<and> (\<forall>(k, _) \<in> set (members val). is_op_key k)
         then \<forall>(k, arg) \<in> set (members val). op_holds k arg v
         else op_holds ''$eq'' val v)"

fun filter_holds :: "json \<Rightarrow> json \<Rightarrow> bool"
  and members_hold :: "(string \<times> json) list \<Rightarrow> json \<Rightarrow> bool"
  and sub_hold :: "(bool list \<Rightarrow> bool) \<Rightarrow> json \<Rightarrow> json \<Rightarrow> bool"
  and elements_hold :: "json list \<Rightarrow> json \<Rightarrow> bool list" where
  "filter_holds j doc = (case j of JObj m \<Rightarrow> members_hold m doc | _ \<Rightarrow> False)"
| "members_hold [] doc = True"
| "members_hold ((k, v) # m) doc =
     ((if k = ''$and'' then sub_hold (list_all (\<lambda>b. b)) v doc
       else if k = ''$or'' then sub_hold (list_ex (\<lambda>b. b)) v doc
       else field_holds k v doc) \<and> members_hold m doc)"
| "sub_hold q j doc = (case j of JArr els \<Rightarrow> q (elements_hold els doc) | _ \<Rightarrow> False)"
| "elements_hold [] doc = []"
| "elements_hold (el # els) doc = filter_holds el doc # elements_hold els doc"

text \<open>How deep \<open>$and\<close> and \<open>$or\<close> are nested in a filter.\<close>

fun nest :: "json \<Rightarrow> nat" and nest_members :: "(string \<times> json) list \<Rightarrow> nat"
  and nest_array :: "json \<Rightarrow> nat" and nest_list :: "json list \<Rightarrow> nat" where
  "nest j = (case j of JObj m \<Rightarrow> nest_members m | _ \<Rightarrow> 0)"
| "nest_members [] = 0"
| "nest_members ((k, v) # m) =
     max (if k = ''$and'' \<or> k = ''$or'' then nest_array v else 0) (nest_members m)"
| "nest_array j = (case j of JArr els \<Rightarrow> Suc (nest_list els) | _ \<Rightarrow> 0)"
| "nest_list [] = 0"
| "nest_list (el # els) = max (nest el) (nest_list els)"

subsection \<open>The matcher against the reference\<close>

lemma fold_max_le: "x \<in> set xs \<Longrightarrow> x \<le> fold max xs (a :: nat)"
proof -
  have "Max (set (a # xs)) = fold max xs a" by (rule Max.set_eq_fold)
  moreover assume "x \<in> set xs"
  ultimately show ?thesis by (metis List.finite_set Max_ge list.set_intros(2))
qed

lemma height_child: "k = PAnd \<or> k = POr \<Longrightarrow> c \<in> set cs \<Longrightarrow> Suc (height c) \<le> height (Predicate k pa v vs e cs)"
  by (auto intro!: fold_max_le)

lemma fold_max_bound: "(\<forall>x \<in> set xs. x \<le> b) \<Longrightarrow> a \<le> b \<Longrightarrow> fold max xs a \<le> (b :: nat)"
  by (induction xs arbitrary: a) auto

lemma matches_sat: "height p + d \<le> kMaxPredicateDepth \<Longrightarrow> matches_with_depth p doc d = sat p doc"
proof (induction p arbitrary: d)
  case (Predicate k pa v vs e cs)
  have child: "matches_with_depth c doc (Suc d) = sat c doc" if "c \<in> set cs" "k = PAnd \<or> k = POr" for c
    using Predicate.IH [OF that(1), of "Suc d"] Predicate.prems
      height_child [OF that(2,1), of pa v vs e] by linarith
  have "\<not> d > kMaxPredicateDepth" using Predicate.prems by linarith
  then show ?case
    using child by (auto simp: list_all_iff list_ex_iff)
qed

lemma sat_conjunction: "sat (conjunction cs) doc = (\<forall>c \<in> set cs. sat c doc)"
  by (cases cs rule: remdups_adj.cases) (auto simp: conjunction_def list_all_iff)

lemma height_conjunction: "\<forall>c \<in> set cs. height c \<le> b \<Longrightarrow> height (conjunction cs) \<le> Suc b"
  by (cases cs rule: remdups_adj.cases)
    (auto simp: conjunction_def intro!: fold_max_bound)

lemma op_kind_cases:
  assumes "op_kind opn = Some k"
  obtains "opn = ''$eq''" "k = PEq" | "opn = ''$ne''" "k = PNe" | "opn = ''$gt''" "k = PGt"
  | "opn = ''$gte''" "k = PGte" | "opn = ''$lt''" "k = PLt" | "opn = ''$lte''" "k = PLte"
  | "opn = ''$in''" "k = PIn" | "opn = ''$nin''" "k = PNin"
  | "opn = ''$contains_any''" "k = PContainsAny" | "opn = ''$contains_all''" "k = PContainsAll"
  | "opn = ''$exists''" "k = PExists"
  using assms unfolding op_kind_def by (simp split: if_splits)

lemma compare_ordered_Some:
  "compare_ordered v rhs cmp = (case v of None \<Rightarrow> False | Some a \<Rightarrow> same_ordering_kind a rhs \<and> cmp a rhs)"
  by (auto simp: compare_ordered_def split: option.split)

lemma parse_operator_leaf:
  assumes "parse_operator p opn arg = Inr q"
  shows "height q = 0 \<and> sat q doc = op_holds opn arg (resolve doc p)"
proof (cases "op_kind opn")
  case None
  with assms show ?thesis by (simp add: parse_operator_def)
next
  case (Some k)
  note p = assms [unfolded parse_operator_def Some option.case]
  note defs = op_holds_def match_leaf_def compare_ordered_Some list_ex_iff list_all_iff
  from Some show ?thesis
  proof (cases rule: op_kind_cases)
    case 1
    with p show ?thesis by (auto simp: defs split: option.split)
  next
    case 2
    with p show ?thesis by (auto simp: defs split: option.split)
  next
    case 3
    with p show ?thesis by (auto simp: defs split: option.split)
  next
    case 4
    with p show ?thesis by (auto simp: defs split: option.split)
  next
    case 5
    with p show ?thesis by (auto simp: defs split: option.split)
  next
    case 6
    with p show ?thesis by (auto simp: defs split: option.split)
  next
    case 7
    with p show ?thesis by (cases arg) (auto simp: defs split: option.split)
  next
    case 8
    with p show ?thesis by (cases arg) (auto simp: defs split: option.split)
  next
    case 9
    with p show ?thesis by (cases arg; auto simp: defs split: option.split json.split; blast)
  next
    case 10
    with p show ?thesis by (cases arg) (auto simp: defs split: option.split json.split)
  next
    case 11
    with p show ?thesis by (cases arg) (auto simp: defs split: option.split)
  qed
qed

lemma parse_operators_leaves:
  "parse_operators p m = Inr ls \<Longrightarrow> (\<forall>q \<in> set ls. height q = 0)
    \<and> (\<forall>q \<in> set ls. sat q doc) = (\<forall>(k, arg) \<in> set m. op_holds k arg (resolve doc p))"
proof (induction m arbitrary: ls)
  case (Cons x m)
  obtain k arg where x: "x = (k, arg)" by (cases x)
  with Cons.prems obtain q ls' where q: "parse_operator p k arg = Inr q"
    "parse_operators p m = Inr ls'" "ls = q # ls'" by (auto split: sum.splits)
  from Cons.IH [OF q(2)] parse_operator_leaf [OF q(1), of doc] show ?case
    by (simp add: x q(3))
qed simp

lemma parse_field_sem:
  assumes "parse_field key val = Inr c"
  shows "height c \<le> 1 \<and> sat c doc = field_holds key val doc"
proof -
  let ?m = "members val"
  have ex: "list_ex (\<lambda>(k, _). \<not> is_op_key k) ?m \<longleftrightarrow> \<not> (\<forall>(k, _) \<in> set ?m. is_op_key k)"
    by (auto simp: list_ex_iff)
  show ?thesis
  proof (cases "is_object val \<and> ?m \<noteq> [] \<and> (\<forall>(k, _) \<in> set ?m. is_op_key k)")
    case True
    then obtain m where val: "val = JObj m" by (cases val) auto
    from assms True have "parse_operator_object (split_path key) val = Inr c"
      unfolding parse_field_def Let_def ex by (simp split: if_splits)
    then obtain ls where ls: "parse_operators (split_path key) m = Inr ls" "c = conjunction ls"
      by (auto simp: parse_operator_object_def val split: sum.splits)
    from parse_operators_leaves [OF ls(1), of doc] height_conjunction [of ls 0] True
    show ?thesis by (simp add: field_holds_def Let_def ls(2) sat_conjunction val)
  next
    case False
    from assms False have c: "c = Predicate PEq (split_path key) val [] True []"
      unfolding parse_field_def Let_def ex by (auto split: if_splits)
    have f: "field_holds key val doc = op_holds ''$eq'' val (resolve doc (split_path key))"
      unfolding field_holds_def Let_def by (rule if_not_P [OF False])
    show ?thesis unfolding f by (auto simp: c match_leaf_def op_holds_def split: option.split)
  qed
qed

text \<open>What the parser builds means what the filter says, and is not much higher than the filter.\<close>

lemma parse_sem:
  "parse_object obj d = Inr p \<Longrightarrow> sat p doc = filter_holds obj doc"
  "parse_members m d = Inr cs \<Longrightarrow> (\<forall>c \<in> set cs. sat c doc) = members_hold m doc"
  "parse_logical_array arr k d = Inr p \<Longrightarrow>
    (k = PAnd \<longrightarrow> sat p doc = sub_hold (list_all (\<lambda>b. b)) arr doc)
    \<and> (k = POr \<longrightarrow> sat p doc = sub_hold (list_ex (\<lambda>b. b)) arr doc)"
  "parse_elements els d = Inr cs \<Longrightarrow> map (\<lambda>c. sat c doc) cs = elements_hold els doc"
proof (induction obj d and m d and arr k d and els d arbitrary: p and cs and p and cs
    rule: parse_object_parse_members_parse_logical_array_parse_elements.induct)
  case (1 obj depth)
  then show ?case by (cases obj) (auto simp: sat_conjunction split: if_splits sum.splits)
next
  case (3 key val m depth)
  then show ?case
    by (auto split: if_splits sum.splits simp: parse_field_sem)
next
  case (4 arr k depth)
  then obtain els cs where m: "arr = JArr els" "parse_elements els depth = Inr cs"
    "p = Predicate k [] JNull [] True cs" "\<not> depth > kMaxPredicateDepth"
    by (cases arr) (auto split: if_splits sum.splits)
  from 4(1) [OF m(4,1,2)] have e: "elements_hold els doc = map (\<lambda>c. sat c doc) cs" by simp
  show ?case by (simp add: m(1,3) e list_all_iff list_ex_iff)
next
  case (6 el els depth)
  then show ?case by (auto split: if_splits sum.splits)
qed auto

lemma parse_height:
  "parse_object obj d = Inr p \<Longrightarrow> height p + d \<le> 34 \<and> height p \<le> 2 * nest obj + 2"
  "parse_members m d = Inr cs \<Longrightarrow> d \<le> 32 \<Longrightarrow>
    \<forall>c \<in> set cs. height c + d \<le> 33 \<and> height c \<le> 2 * nest_members m + 1"
  "parse_logical_array arr k d = Inr p \<Longrightarrow> height p + d \<le> 34 \<and> height p \<le> 2 * nest_array arr + 1"
  "parse_elements els d = Inr cs \<Longrightarrow> \<forall>c \<in> set cs. height c + d \<le> 33 \<and> height c \<le> 2 * nest_list els + 2"
proof (induction obj d and m d and arr k d and els d arbitrary: p and cs and p and cs
    rule: parse_object_parse_members_parse_logical_array_parse_elements.induct)
  case (1 obj depth)
  then obtain m cs where m: "obj = JObj m" "parse_members m depth = Inr cs" "p = conjunction cs"
    "depth \<le> 32" by (cases obj) (auto simp: kMaxPredicateDepth_def split: if_splits sum.splits)
  have "\<forall>c \<in> set cs. height c + depth \<le> 33 \<and> height c \<le> 2 * nest_members m + 1"
    using 1(1) m by (auto simp: kMaxPredicateDepth_def)
  then have "\<forall>c \<in> set cs. height c \<le> 33 - depth" "\<forall>c \<in> set cs. height c \<le> 2 * nest_members m + 1"
    by auto
  from height_conjunction [OF this(1)] height_conjunction [OF this(2)] m show ?case by auto
next
  case (3 key val m depth)
  let ?log = "key = ''$and'' \<or> key = ''$or''"
  let ?first = "if ?log then parse_logical_array val (if key = ''$and'' then PAnd else POr) (depth + 1)
    else parse_field key val"
  obtain c cs' where c: "?first = Inr c" "parse_members m depth = Inr cs'" "cs = c # cs'"
    using 3(3) unfolding parse_members.simps(2)
    by (auto split: sum.splits simp del: parse_logical_array.simps if_split)
  have "height c + depth \<le> 33 \<and> height c \<le> 2 * nest_members ((key, val) # m) + 1"
  proof (cases ?log)
    case True
    with c(1) have "parse_logical_array val (if key = ''$and'' then PAnd else POr) (depth + 1) = Inr c"
      by (simp only: if_True)
    from 3(1) [OF True this] True show ?thesis by auto
  next
    case False
    with c(1) have "parse_field key val = Inr c" by (simp only: if_False)
    from parse_field_sem [OF this, of JNull] 3(4) show ?thesis by auto
  qed
  moreover have "\<forall>c \<in> set cs'. height c + depth \<le> 33 \<and> height c \<le> 2 * nest_members m + 1"
    using 3(2) [OF c(1,2) 3(4)] .
  ultimately show ?case unfolding c(3) by auto
next
  case (4 arr k depth)
  then obtain els cs where m: "arr = JArr els" "parse_elements els depth = Inr cs"
    "p = Predicate k [] JNull [] True cs" "depth \<le> 32"
    by (cases arr) (auto simp: kMaxPredicateDepth_def split: if_splits sum.splits)
  have "\<forall>c \<in> set cs. height c + depth \<le> 33 \<and> height c \<le> 2 * nest_list els + 2"
    using 4(1) m by (auto simp: kMaxPredicateDepth_def)
  then have "\<forall>c \<in> set cs. Suc (height c) \<le> 34 - depth" "\<forall>c \<in> set cs. Suc (height c) \<le> 2 * nest_array arr + 1"
    using m(1) by auto
  then have "height p \<le> 34 - depth" "height p \<le> 2 * nest_array arr + 1"
    unfolding m(3) by (auto intro!: fold_max_bound)
  with m(4) show ?case by auto
next
  case (6 el els depth)
  obtain c cs' where c: "is_object el" "parse_object el (depth + 1) = Inr c"
    "parse_elements els depth = Inr cs'" "cs = c # cs'"
    using 6(3) unfolding parse_elements.simps(2)
    by (auto split: sum.splits if_splits simp del: parse_object.simps)
  have n: "\<not> \<not> is_object el" using c(1) by simp
  have "height c + (depth + 1) \<le> 34 \<and> height c \<le> 2 * nest el + 2" by (rule 6(1) [OF n c(2)])
  moreover have "\<forall>c \<in> set cs'. height c + depth \<le> 33 \<and> height c \<le> 2 * nest_list els + 2"
    by (rule 6(2) [OF n c(2,3)])
  ultimately show ?case unfolding c(4) by auto
qed auto

subsection \<open>Paths\<close>

lemma split_loop_nonempty: "split_loop cs seg \<noteq> []"
  by (induction cs seg rule: split_loop.induct) auto

text \<open>Joining with dots.\<close>

fun join_path :: "string list \<Rightarrow> string" where
  "join_path [] = []"
| "join_path [s] = s"
| "join_path (s # t # ss) = s @ CHR ''.'' # join_path (t # ss)"

lemma join_split_loop: "join_path (split_loop cs seg) = seg @ cs"
proof (induction cs seg rule: split_loop.induct)
  case (2 c cs seg)
  then show ?case using split_loop_nonempty [of cs "[]"] by (cases "split_loop cs []") auto
qed simp

lemma split_loop_segs: "CHR ''.'' \<notin> set seg \<Longrightarrow> s \<in> set (split_loop cs seg) \<Longrightarrow> CHR ''.'' \<notin> set s"
  by (induction cs seg rule: split_loop.induct) (auto split: if_splits)

subsection \<open>A deeply nested filter\<close>

primrec deep_filter :: "nat \<Rightarrow> json" where
  "deep_filter 0 = JObj [(''x'', JUInt 1), (''y'', JUInt 1)]"
| "deep_filter (Suc n) = JObj [(''$and'', JArr [deep_filter n]), (''x'', JUInt 1)]"

definition deep_doc :: json where
  "deep_doc = JObj [(''x'', JUInt 1), (''y'', JUInt 1)]"

primrec deep_pred :: "nat \<Rightarrow> predicate" where
  "deep_pred 0 = Predicate PAnd [] JNull [] True
     [Predicate PEq [''x''] (JUInt 1) [] True [], Predicate PEq [''y''] (JUInt 1) [] True []]"
| "deep_pred (Suc n) = Predicate PAnd [] JNull [] True
     [Predicate PAnd [] JNull [] True [deep_pred n], Predicate PEq [''x''] (JUInt 1) [] True []]"

lemma parse_deep: "2 * n + d \<le> 32 \<Longrightarrow> parse_object (deep_filter n) d = Inr (deep_pred n)"
proof (induction n arbitrary: d)
  case 0
  then show ?case
    by (simp add: kMaxPredicateDepth_def parse_field_def split_path_def conjunction_def)
next
  case (Suc n)
  have "parse_object (deep_filter n) (Suc (Suc d)) = Inr (deep_pred n)"
    by (rule Suc.IH) (use Suc.prems in simp)
  moreover have "is_object (deep_filter n)" by (cases n) simp_all
  ultimately show ?case using Suc.prems
    by (simp add: kMaxPredicateDepth_def parse_field_def split_path_def conjunction_def
        del: parse_object.simps add: parse_object.simps [of "JObj m" for m])
qed

lemma deep_unmatched: "2 * n + d = 32 \<Longrightarrow> \<not> matches_with_depth (deep_pred n) doc d"
  by (induction n arbitrary: d) (simp_all add: kMaxPredicateDepth_def)

lemma deep_holds: "filter_holds (deep_filter n) deep_doc"
  by (induction n)
    (simp_all add: deep_doc_def field_holds_def split_path_def op_holds_def)

subsection \<open>Properties\<close>


definition sample_filter :: json where
  "sample_filter = JObj [(''a.b'', JObj [(''$gt'', JUInt 3)]), (''c'', JStr ''x'')]"

definition sample_doc :: json where
  "sample_doc = JObj [(''a'', JObj [(''b'', JInt 5)]), (''c'', JStr ''x'')]"


text \<open>C16: The parser accepts filters nested more deeply than the matcher follows: such a filter can
  hold for a document and still be answered with no match.\<close>

theorem filter_deep_nesting_misjudged:
  "\<exists>j p doc. parse_object j 0 = Inr p \<and> filter_holds j doc \<and> \<not> pred_matches p doc"
  using parse_deep [of 16 0] deep_unmatched [of 16 0] deep_holds [of 16]
  unfolding pred_matches_def by auto

text \<open>A filter key is split into the segments between its dots, none of them containing a dot;
  the empty key has one, empty, segment.\<close>

theorem split_path_segments:
  "join_path (split_path s) = s \<and> split_path s \<noteq> [] \<and> list_all (\<lambda>seg. CHR ''.'' \<notin> set seg) (split_path s)"
  using join_split_loop [of s "[]"] split_loop_nonempty [of s "[]"] split_loop_segs [of "[]" _ s]
  by (auto simp: split_path_def list_all_iff)

end
