(* ===== verification/Metadata_Store.thy ===== *)
theory Metadata_Store
  imports Ids Json
begin

text \<open>
  The payload store, \<open>src/metadata_store.cc\<close>: one JSON text per id and, in keyed stores, the map
  between point keys and dense ids in both directions. The key-value engine below it (RocksDB) is
  not part of the repository: it is the argument \<open>api\<close>, and \<open>kv_contract\<close> states what it documents
  (point reads, atomic write batches, iteration in bytewise order) over a view of its contents.
  The text form of JSON is the pair of arguments \<open>dump\<close> and \<open>parse\<close>.
\<close>

datatype cf = CfMeta | CfIds

text \<open>A batch: column family, key, and the value put or \<open>None\<close> for a deletion.\<close>

type_synonym kv_op = "cf \<times> bytes \<times> bytes option"

record 'db kv_api =
  kv_get :: "'db \<Rightarrow> cf \<Rightarrow> bytes \<Rightarrow> status + bytes"
  kv_write :: "kv_op list \<Rightarrow> 'db \<Rightarrow> status \<times> 'db"
  kv_seek_prev :: "'db \<Rightarrow> cf \<Rightarrow> bytes \<Rightarrow> status + bytes option"

type_synonym kv_view = "cf \<Rightarrow> bytes \<Rightarrow> bytes option"

fun apply_op :: "kv_op \<Rightarrow> kv_view \<Rightarrow> kv_view" where
  "apply_op (c, k, v) m = m(c := (m c)(k := v))"

definition apply_batch :: "kv_op list \<Rightarrow> kv_view \<Rightarrow> kv_view" where
  "apply_batch ops m = fold apply_op ops m"

definition kv_contract :: "'db kv_api \<Rightarrow> ('db \<Rightarrow> kv_view) \<Rightarrow> bool" where
  "kv_contract api vw \<longleftrightarrow>
     (\<forall>db c k v. kv_get api db c k = Inr v \<longrightarrow> vw db c k = Some v)
   \<and> (\<forall>db c k e. kv_get api db c k = Inl e \<longrightarrow> e \<noteq> OK \<and> (e = NotFound \<longrightarrow> vw db c k = None))
   \<and> (\<forall>ops db st db'. kv_write api ops db = (st, db') \<longrightarrow>
        vw db' = apply_batch ops (vw db) \<or> (st \<noteq> OK \<and> vw db' = vw db))
   \<and> (\<forall>db c k l. kv_seek_prev api db c k = Inr (Some l) \<longrightarrow>
        l \<in> dom (vw db c) \<and> l \<le> k \<and> (\<forall>l' \<in> dom (vw db c). l' \<le> k \<longrightarrow> l' \<le> l))
   \<and> (\<forall>db c k. kv_seek_prev api db c k = Inr None \<longrightarrow> (\<forall>l \<in> dom (vw db c). \<not> l \<le> k))
   \<and> (\<forall>db c k e. kv_seek_prev api db c k = Inl e \<longrightarrow> e \<noteq> OK)"

record 'db meta_store =
  ms_db :: 'db
  has_id_map :: bool
  point_gets :: nat
  parses :: nat

definition kForwardPrefix :: byte where "kForwardPrefix = 0x6B"
definition kReversePrefix :: byte where "kReversePrefix = 0x72"

primrec encode_key_loop :: "nat \<Rightarrow> node_id \<Rightarrow> bytes \<Rightarrow> bytes" where
  "encode_key_loop 0 i out = out"
| "encode_key_loop (Suc n) i out = encode_key_loop n (drop_bit 8 i) (out[n := ucast (i AND 0xFF)])"

definition encode_key :: "node_id \<Rightarrow> bytes" where
  "encode_key i = encode_key_loop 8 i (replicate 8 0)"

definition decode_key :: "bytes \<Rightarrow> node_id" where
  "decode_key v = foldl (\<lambda>i b. push_bit 8 i OR ucast b) 0 v"

subsection \<open>Payload rows\<close>

definition ms_put :: "'db kv_api \<Rightarrow> node_id \<Rightarrow> bytes \<Rightarrow> 'db meta_store \<Rightarrow> status \<times> 'db meta_store" where
  "ms_put api i js s =
     (case kv_write api [(CfMeta, encode_key i, Some js)] (ms_db s) of (st, db) \<Rightarrow> (st, s\<lparr>ms_db := db\<rparr>))"

definition ms_put_doc ::
  "'db kv_api \<Rightarrow> (json \<Rightarrow> bytes) \<Rightarrow> node_id \<Rightarrow> json \<Rightarrow> 'db meta_store \<Rightarrow> status \<times> 'db meta_store" where
  "ms_put_doc api dump i doc s = ms_put api i (dump doc) s"

definition ms_put_batch ::
  "'db kv_api \<Rightarrow> (node_id \<times> bytes) list \<Rightarrow> 'db meta_store \<Rightarrow> status \<times> 'db meta_store" where
  "ms_put_batch api items s =
     (case kv_write api (map (\<lambda>(i, js). (CfMeta, encode_key i, Some js)) items) (ms_db s) of
        (st, db) \<Rightarrow> (st, s\<lparr>ms_db := db\<rparr>))"

definition ms_get :: "'db kv_api \<Rightarrow> node_id \<Rightarrow> 'db meta_store \<Rightarrow> (status + bytes) \<times> 'db meta_store" where
  "ms_get api i s =
     (let s = s\<lparr>point_gets := point_gets s + 1\<rparr> in (kv_get api (ms_db s) CfMeta (encode_key i), s))"

definition ms_get_doc ::
  "'db kv_api \<Rightarrow> (bytes \<Rightarrow> json option) \<Rightarrow> node_id \<Rightarrow> 'db meta_store \<Rightarrow> (status + json) \<times> 'db meta_store" where
  "ms_get_doc api parse i s0 =
     (case ms_get api i s0 of
        (Inl e, s) \<Rightarrow> (Inl e, s)
      | (Inr bs, s) \<Rightarrow>
          let s = s\<lparr>parses := parses s + 1\<rparr>
          in (case parse bs of None \<Rightarrow> Inl Corruption | Some doc \<Rightarrow> Inr doc, s))"

definition ms_delete :: "'db kv_api \<Rightarrow> node_id \<Rightarrow> 'db meta_store \<Rightarrow> status \<times> 'db meta_store" where
  "ms_delete api i s =
     (case kv_write api [(CfMeta, encode_key i, None)] (ms_db s) of (st, db) \<Rightarrow> (st, s\<lparr>ms_db := db\<rparr>))"

definition ms_update ::
  "'db kv_api \<Rightarrow> (json \<Rightarrow> bytes) \<Rightarrow> (bytes \<Rightarrow> json option) \<Rightarrow> node_id \<Rightarrow> json \<Rightarrow> 'db meta_store
     \<Rightarrow> status \<times> 'db meta_store" where
  "ms_update api dump parse i patch s0 =
     (case ms_get_doc api parse i s0 of
        (Inl e, s) \<Rightarrow> if e = NotFound then ms_put_doc api dump i (merge_patch (JObj []) patch) s else (e, s)
      | (Inr existing, s) \<Rightarrow> ms_put_doc api dump i (merge_patch existing patch) s)"

definition ms_delete_keys ::
  "'db kv_api \<Rightarrow> (json \<Rightarrow> bytes) \<Rightarrow> (bytes \<Rightarrow> json option) \<Rightarrow> node_id \<Rightarrow> string list \<Rightarrow> 'db meta_store
     \<Rightarrow> status \<times> 'db meta_store" where
  "ms_delete_keys api dump parse i ks s0 =
     (case ms_get_doc api parse i s0 of
        (Inl e, s) \<Rightarrow> (e, s)
      | (Inr (JObj m), s) \<Rightarrow> ms_put_doc api dump i (JObj (fold obj_erase ks m)) s
      | (Inr _, s) \<Rightarrow> (InvalidArgument, s))"

subsection \<open>The point id map\<close>

definition lookup_key :: "'db kv_api \<Rightarrow> bytes \<Rightarrow> 'db meta_store \<Rightarrow> status + node_id" where
  "lookup_key api key s =
     (if \<not> has_id_map s then Inl NotSupported
      else case kv_get api (ms_db s) CfIds (kForwardPrefix # key) of
        Inl e \<Rightarrow> Inl e
      | Inr v \<Rightarrow> if length v \<noteq> 8 then Inl Corruption else Inr (decode_key v))"

definition reverse_lookup :: "'db kv_api \<Rightarrow> node_id \<Rightarrow> 'db meta_store \<Rightarrow> status + bytes" where
  "reverse_lookup api dense s =
     (if \<not> has_id_map s then Inl NotSupported
      else kv_get api (ms_db s) CfIds (kReversePrefix # encode_key dense))"

definition key_ops :: "bytes \<times> node_id \<Rightarrow> kv_op list" where
  "key_ops kd = (case kd of (key, dense) \<Rightarrow>
     [(CfIds, kForwardPrefix # key, Some (encode_key dense)),
      (CfIds, kReversePrefix # encode_key dense, Some key)])"

definition put_keys ::
  "'db kv_api \<Rightarrow> (bytes \<times> node_id) list \<Rightarrow> 'db meta_store \<Rightarrow> status \<times> 'db meta_store" where
  "put_keys api items s =
     (if \<not> has_id_map s then (NotSupported, s)
      else case kv_write api (concat (map key_ops items)) (ms_db s) of (st, db) \<Rightarrow> (st, s\<lparr>ms_db := db\<rparr>))"

definition put_key ::
  "'db kv_api \<Rightarrow> bytes \<Rightarrow> node_id \<Rightarrow> 'db meta_store \<Rightarrow> status \<times> 'db meta_store" where
  "put_key api key dense s = put_keys api [(key, dense)] s"

text \<open>\<open>Inr None\<close>: the map is empty.\<close>

definition max_mapped_id :: "'db kv_api \<Rightarrow> 'db meta_store \<Rightarrow> status + node_id option" where
  "max_mapped_id api s =
     (if \<not> has_id_map s then Inl NotSupported
      else case kv_seek_prev api (ms_db s) CfIds [kReversePrefix + 1] of
        Inl e \<Rightarrow> Inl e
      | Inr None \<Rightarrow> Inr None
      | Inr (Some k) \<Rightarrow>
          if k \<noteq> [] \<and> hd k = kReversePrefix
          then (if length k \<noteq> 9 then Inl Corruption else Inr (Some (decode_key (tl k))))
          else Inr None)"

subsection \<open>Encoded keys\<close>

lemma encode_key_be: "encode_key i = put_be 8 i"
proof -
  have l: "length xs = n + m' \<Longrightarrow> encode_key_loop n i xs = put_be n i @ drop n xs" for n m' and xs :: bytes
  proof (induction n arbitrary: i xs m')
    case (Suc n)
    then have "drop n (xs[n := ucast i :: byte]) = ucast i # drop (Suc n) xs"
      by (metis Cons_nth_drop_Suc add.commute add_Suc_right drop_update_cancel length_list_update
          less_add_Suc1 lessI nth_list_update_eq)
    with Suc.IH [of "xs[n := ucast i]" "Suc m'" "drop_bit 8 i"] Suc.prems show ?case
      by (simp add: ucast_and_255 put_be_def)
  qed (simp add: put_be_def)
  show ?thesis using l [of "replicate 8 0" 8 0] by (simp add: encode_key_def)
qed

lemma length_encode_key [simp]: "length (encode_key i) = 8"
  by (simp add: encode_key_be)

lemma decode_encode_key [simp]: "decode_key (encode_key i) = i"
  using get_be_put_be [of 8 i] by (simp add: encode_key_be decode_key_def get_be_def)

lemma encode_key_inject [simp]: "encode_key i = encode_key j \<longleftrightarrow> i = j"
  by (metis decode_encode_key)

text \<open>Big-endian texts of one length are ordered like the numbers.\<close>

definition nval :: "bytes \<Rightarrow> nat" where
  "nval bs = foldl (\<lambda>n b. n * 256 + unat b) 0 bs"

lemma nval_append [simp]: "nval (bs @ [b]) = nval bs * 256 + unat b"
  by (simp add: nval_def)

lemma lex_append_last:
  "length xs = length ys \<Longrightarrow> xs @ [a] < ys @ [b] \<longleftrightarrow> xs < ys \<or> xs = ys \<and> (a :: byte) < b"
  by (induction xs ys rule: list_induct2) auto

lemma nval_less: "length xs = length ys \<Longrightarrow> nval xs < nval ys \<longleftrightarrow> xs < ys"
proof (induction "length xs" arbitrary: xs ys)
  case (Suc n)
  obtain xs' a ys' b where xy: "xs = xs' @ [a]" "ys = ys' @ [b]" "length xs' = n" "length ys' = n"
    using Suc.hyps(2) Suc.prems by (metis length_Suc_conv_rev)
  have lt: "nval xs' < nval ys' \<longleftrightarrow> xs' < ys'" "nval ys' < nval xs' \<longleftrightarrow> ys' < xs'"
    using Suc.hyps(1) xy(3,4) by simp_all
  have "unat a < 256" "unat b < 256" by (rule unat_byte_less)+
  then have "nval xs < nval ys \<longleftrightarrow> nval xs' < nval ys' \<or> nval xs' = nval ys' \<and> a < b"
    unfolding xy(1,2) nval_append word_less_nat_alt by auto
  also have "\<dots> \<longleftrightarrow> xs' < ys' \<or> xs' = ys' \<and> a < b" using lt by (metis linorder_less_linear)
  finally show ?case using xy by (simp add: lex_append_last)
qed simp

lemma unat_get_be: "8 * length bs \<le> 64 \<Longrightarrow> unat (get_be bs :: u64) = nval bs \<and> nval bs < 256 ^ length bs"
proof (induction bs rule: rev_induct)
  case (snoc b bs)
  then have IH: "unat (get_be bs :: u64) = nval bs" "nval bs < 256 ^ length bs" by simp_all
  have b: "unat b < 256" by (rule unat_byte_less)
  have "(256 :: nat) ^ length bs \<le> 256 ^ 7" by (rule power_increasing) (use snoc.prems in simp_all)
  with IH(2) have lt: "nval bs * 256 + unat b < 2 ^ 64" using b by simp
  have "push_bit 8 (get_be bs) OR (ucast b :: u64) = push_bit 8 (get_be bs) + ucast b"
    by (rule disjunctive_add [symmetric])
      (auto simp: bit_push_bit_iff bit_ucast_iff not_less dest: bit_imp_le_length)
  moreover have "take_bit 64 (unat b) = unat b" using b by (simp add: take_bit_nat_eq_self)
  ultimately have "unat (get_be (bs @ [b]) :: u64) = (nval bs * 256 + unat b) mod 2 ^ 64"
    by (simp add: get_be_append push_bit_eq_mult unat_word_ariths IH(1) unsigned_ucast_eq mod_simps)
  with lt IH(2) b show ?case by simp
qed (simp add: get_be_def nval_def)

lemma encode_key_less: "encode_key i < encode_key j \<longleftrightarrow> i < j"
proof -
  have "nval (encode_key k) = unat k" for k :: node_id
    using unat_get_be [of "encode_key k"] by (simp add: encode_key_be)
  then show ?thesis using nval_less [of "encode_key i" "encode_key j"] by (simp add: word_less_nat_alt)
qed

subsection \<open>What the store holds\<close>

definition row :: "kv_view \<Rightarrow> node_id \<Rightarrow> bytes option" where
  "row m i = m CfMeta (encode_key i)"

definition fwd :: "kv_view \<Rightarrow> bytes \<Rightarrow> node_id option" where
  "fwd m key = map_option decode_key (m CfIds (kForwardPrefix # key))"

definition rev_key :: "kv_view \<Rightarrow> node_id \<Rightarrow> bytes option" where
  "rev_key m d = m CfIds (kReversePrefix # encode_key d)"

text \<open>Every entry of the id map has the form the store writes, and the two directions agree.\<close>

definition ids_ok :: "kv_view \<Rightarrow> bool" where
  "ids_ok m \<longleftrightarrow>
     (\<forall>k. m CfIds k \<noteq> None \<longrightarrow>
        (\<exists>key. k = kForwardPrefix # key) \<or> (\<exists>d. k = kReversePrefix # encode_key d))
   \<and> (\<forall>key v. m CfIds (kForwardPrefix # key) = Some v \<longrightarrow> (\<exists>d. v = encode_key d))
   \<and> inverse_maps (fwd m) (rev_key m)"

lemma prefixes_differ [simp]: "kForwardPrefix \<noteq> kReversePrefix" "kReversePrefix \<noteq> kForwardPrefix"
  by (simp_all add: kForwardPrefix_def kReversePrefix_def)

lemma kv_get_InrD: "kv_contract api vw \<Longrightarrow> kv_get api db c k = Inr v \<Longrightarrow> vw db c k = Some v"
  unfolding kv_contract_def by (elim conjE) simp

lemma kv_get_InlD:
  "kv_contract api vw \<Longrightarrow> kv_get api db c k = Inl e \<Longrightarrow> e \<noteq> OK \<and> (e = NotFound \<longrightarrow> vw db c k = None)"
  unfolding kv_contract_def by (elim conjE) simp

lemma kv_write_cases:
  "kv_contract api vw \<Longrightarrow> kv_write api ops db = (st, db') \<Longrightarrow>
    vw db' = apply_batch ops (vw db) \<or> st \<noteq> OK \<and> vw db' = vw db"
  by (drule kv_contract_def [THEN iffD1, THEN conjunct2, THEN conjunct2, THEN conjunct1])
    (elim allE impE, assumption, assumption)

lemma kv_write_OKD:
  "kv_contract api vw \<Longrightarrow> kv_write api ops db = (OK, db') \<Longrightarrow> vw db' = apply_batch ops (vw db)"
  by (drule (1) kv_write_cases) simp

lemma kv_seek_SomeD:
  "kv_contract api vw \<Longrightarrow> kv_seek_prev api db c k = Inr (Some l) \<Longrightarrow>
    l \<in> dom (vw db c) \<and> l \<le> k \<and> (\<forall>l' \<in> dom (vw db c). l' \<le> k \<longrightarrow> l' \<le> l)"
  by (drule kv_contract_def [THEN iffD1, THEN conjunct2, THEN conjunct2, THEN conjunct2, THEN conjunct1])
    (elim allE impE, assumption, assumption)

lemma kv_seek_NoneD:
  "kv_contract api vw \<Longrightarrow> kv_seek_prev api db c k = Inr None \<Longrightarrow> \<forall>l \<in> dom (vw db c). \<not> l \<le> k"
  by (drule kv_contract_def [THEN iffD1, THEN conjunct2, THEN conjunct2, THEN conjunct2, THEN conjunct2,
        THEN conjunct1])
    (elim allE impE, assumption, assumption)

lemma kv_seek_InlD: "kv_contract api vw \<Longrightarrow> kv_seek_prev api db c k = Inl e \<Longrightarrow> e \<noteq> OK"
  unfolding kv_contract_def by (elim conjE) fast

lemma apply_batch_simps [simp]:
  "apply_batch [] m = m"
  "apply_batch (x # ops) m = apply_batch ops (apply_op x m)"
  "apply_batch (ops @ ops') m = apply_batch ops' (apply_batch ops m)"
  by (simp_all add: apply_batch_def)

lemma row_apply [simp]:
  "row (apply_op (CfMeta, encode_key i, v) m) = (row m)(i := v)"
  "row (apply_op (CfIds, k, v) m) = row m"
  "apply_op (CfMeta, k, v) m CfIds = m CfIds"
  by (auto simp: row_def fun_eq_iff)

declare apply_op.simps [simp del]

lemma rows_apply_batch:
  "row (apply_batch (map (\<lambda>(i, js). (CfMeta, encode_key i, Some js)) items) m) =
     fold (\<lambda>(i, js) r. r(i \<mapsto> js)) items (row m)
   \<and> apply_batch (map (\<lambda>(i, js). (CfMeta, encode_key i, Some js)) items) m CfIds = m CfIds"
  by (induction items arbitrary: m) (auto simp del: fun_upd_apply)

subsection \<open>The id map\<close>

lemma fwd_key_ops: "fwd (apply_batch (key_ops (key, d)) m) = (fwd m)(key \<mapsto> d)"
  by (auto simp: fwd_def key_ops_def apply_op.simps fun_eq_iff)

lemma rev_key_ops: "rev_key (apply_batch (key_ops (key, d)) m) = (rev_key m)(d \<mapsto> key)"
  by (auto simp: rev_key_def key_ops_def apply_op.simps fun_eq_iff)

text \<open>Recording a pair anew, or a pair of ids not yet in the map.\<close>

definition key_fits :: "kv_view \<Rightarrow> bytes \<times> node_id \<Rightarrow> bool" where
  "key_fits m kd = (case kd of (key, d) \<Rightarrow> fwd m key = Some d \<or> (fwd m key = None \<and> rev_key m d = None))"

lemma ids_ok_key_ops:
  assumes ok: "ids_ok m" and fits: "key_fits m (key, d)"
  shows "ids_ok (apply_batch (key_ops (key, d)) m)"
proof -
  let ?m = "apply_batch (key_ops (key, d)) m"
  have inv: "inverse_maps (fwd m) (rev_key m)" using ok by (simp add: ids_ok_def)
  have "inverse_maps ((fwd m)(key \<mapsto> d)) ((rev_key m)(d \<mapsto> key))"
  proof (cases "fwd m key")
    case None
    with fits inverse_maps_update [OF inv, of d key] show ?thesis by (simp add: key_fits_def)
  next
    case (Some d')
    with fits have "fwd m key = Some d" by (simp add: key_fits_def)
    moreover from this have "rev_key m d = Some key" using inverse_mapsD [OF inv] by blast
    ultimately show ?thesis using inv by (simp add: fun_upd_idem)
  qed
  then have "inverse_maps (fwd ?m) (rev_key ?m)" unfolding fwd_key_ops rev_key_ops .
  moreover have "\<exists>d'. v = encode_key d'" if "?m CfIds (kForwardPrefix # k) = Some v" for k v
    using that ok by (cases "k = key") (auto simp: key_ops_def apply_op.simps ids_ok_def)
  moreover have "(\<exists>k'. k = kForwardPrefix # k') \<or> (\<exists>d'. k = kReversePrefix # encode_key d')"
    if "?m CfIds k \<noteq> None" for k
    using that ok
    by (cases "k = kForwardPrefix # key"; cases "k = kReversePrefix # encode_key d")
      (auto simp: key_ops_def apply_op.simps ids_ok_def)
  ultimately show ?thesis unfolding ids_ok_def by blast
qed

lemma ids_ok_batch:
  assumes "ids_ok m" "distinct (map fst items)" "distinct (map snd items)"
    and "\<forall>(key, d) \<in> set items. fwd m key = None \<and> rev_key m d = None"
  shows "ids_ok (apply_batch (concat (map key_ops items)) m)
    \<and> fwd (apply_batch (concat (map key_ops items)) m) = fwd m ++ map_of items"
  using assms
proof (induction items arbitrary: m)
  case (Cons x items)
  obtain key d where x: "x = (key, d)" by (cases x)
  let ?m = "apply_batch (key_ops (key, d)) m"
  have "ids_ok ?m" by (rule ids_ok_key_ops [OF Cons.prems(1)]) (use Cons.prems(4) in \<open>simp add: x key_fits_def\<close>)
  moreover have "\<forall>(k, e) \<in> set items. fwd ?m k = None \<and> rev_key ?m e = None"
    using Cons.prems(2-4) by (force simp: x fwd_key_ops rev_key_ops)
  ultimately have IH: "ids_ok (apply_batch (concat (map key_ops items)) ?m)
    \<and> fwd (apply_batch (concat (map key_ops items)) ?m) = fwd ?m ++ map_of items"
    using Cons.IH [of ?m] Cons.prems(2,3) by simp
  have "map_of items key = None" using Cons.prems(2) by (simp add: x map_of_eq_None_iff)
  then have f: "fwd m ++ map_of (x # items) = fwd ?m ++ map_of items"
    by (auto simp: x fwd_key_ops map_add_def fun_eq_iff split: option.split)
  have "apply_batch (concat (map key_ops (x # items))) m = apply_batch (concat (map key_ops items)) ?m"
    by (simp add: x)
  with IH show ?case unfolding f by (simp only:)
qed simp

lemma rev_dom_le:
  assumes "ids_ok m" "l \<in> dom (m CfIds)" "l \<le> [kReversePrefix + 1]"
    "\<forall>l' \<in> dom (m CfIds). l' \<le> [kReversePrefix + 1] \<longrightarrow> l' \<le> l" "rev_key m d \<noteq> None"
  shows "\<exists>e. l = kReversePrefix # encode_key e \<and> d \<le> e"
proof -
  have lt: "kReversePrefix < kReversePrefix + 1" "kForwardPrefix < kReversePrefix"
    by (simp_all add: kReversePrefix_def kForwardPrefix_def)
  have "kReversePrefix # encode_key d \<in> dom (m CfIds)" using assms(5) by (auto simp: rev_key_def)
  moreover have "kReversePrefix # encode_key d \<le> [kReversePrefix + 1]" using lt by simp
  ultimately have le: "kReversePrefix # encode_key d \<le> l" using assms(4) by blast
  from assms(1,2) have "(\<exists>key. l = kForwardPrefix # key) \<or> (\<exists>e. l = kReversePrefix # encode_key e)"
    unfolding ids_ok_def by (elim conjE allE [of _ l]) auto
  with le lt(2) obtain e where l: "l = kReversePrefix # encode_key e" by auto
  with le have "\<not> e < d" by (simp add: encode_key_less not_less flip: linorder_not_less)
  with l show ?thesis by (auto simp: not_less)
qed

lemma ms_get_doc_cases:
  assumes "kv_contract api vw" "ms_get_doc api parse i s = (r, s')"
  shows "ms_db s' = ms_db s \<and> has_id_map s' = has_id_map s \<and>
    (case r of
       Inr d \<Rightarrow> (\<exists>bs. row (vw (ms_db s)) i = Some bs \<and> parse bs = Some d)
     | Inl e \<Rightarrow> e \<noteq> OK \<and> (e = NotFound \<longrightarrow> row (vw (ms_db s)) i = None))"
  using assms(2) kv_get_InrD [OF assms(1), of "ms_db s" CfMeta "encode_key i"]
    kv_get_InlD [OF assms(1), of "ms_db s" CfMeta "encode_key i"]
  by (auto simp: ms_get_doc_def ms_get_def row_def Let_def split: sum.splits option.splits prod.splits)

lemma ms_put_cases:
  assumes "kv_contract api vw" "ms_put api i js s = (st, s')"
  shows "has_id_map s' = has_id_map s \<and> vw (ms_db s') CfIds = vw (ms_db s) CfIds \<and>
    (row (vw (ms_db s')) = (row (vw (ms_db s)))(i \<mapsto> js) \<or> st \<noteq> OK \<and> row (vw (ms_db s')) = row (vw (ms_db s)))"
proof -
  obtain db where w: "kv_write api [(CfMeta, encode_key i, Some js)] (ms_db s) = (st, db)" "s' = s\<lparr>ms_db := db\<rparr>"
    using assms(2) by (auto simp: ms_put_def split: prod.splits)
  from kv_write_cases [OF assms(1) w(1)] show ?thesis
    by (auto simp: w(2) simp del: fun_upd_apply)
qed

subsection \<open>A store in memory\<close>

text \<open>The contract has a model: a list of entries.\<close>

fun mem_op :: "kv_op \<Rightarrow> ((cf \<times> bytes) \<times> bytes) list \<Rightarrow> ((cf \<times> bytes) \<times> bytes) list" where
  "mem_op (c, k, Some v) db = AList.update (c, k) v db"
| "mem_op (c, k, None) db = AList.delete (c, k) db"

fun prev_key :: "bytes \<Rightarrow> bytes list \<Rightarrow> bytes option" where
  "prev_key k [] = None"
| "prev_key k (l # ls) =
     (case prev_key k ls of
        None \<Rightarrow> if l \<le> k then Some l else None
      | Some l' \<Rightarrow> if l \<le> k then Some (max l l') else Some l')"

definition mem_kv :: "((cf \<times> bytes) \<times> bytes) list kv_api" where
  "mem_kv = \<lparr>
     kv_get = (\<lambda>db c k. case map_of db (c, k) of None \<Rightarrow> Inl NotFound | Some v \<Rightarrow> Inr v),
     kv_write = (\<lambda>ops db. (OK, fold mem_op ops db)),
     kv_seek_prev = (\<lambda>db c k. Inr (prev_key k (map (\<lambda>((_, l), _). l) (filter (\<lambda>((c', _), _). c' = c) db))))\<rparr>"

definition mem_view :: "((cf \<times> bytes) \<times> bytes) list \<Rightarrow> kv_view" where
  "mem_view db c k = map_of db (c, k)"

lemma mem_view_op: "mem_view (mem_op x db) = apply_op x (mem_view db)"
proof (cases "(x, db)" rule: mem_op.cases)
  case (1 c k v)
  then show ?thesis by (auto simp: mem_view_def apply_op.simps fun_eq_iff update_conv')
next
  case (2 c k)
  then show ?thesis by (auto simp: mem_view_def apply_op.simps fun_eq_iff delete_conv')
qed

lemma mem_view_write: "mem_view (fold mem_op ops db) = apply_batch ops (mem_view db)"
  by (induction ops arbitrary: db) (auto simp: mem_view_op)

lemma mem_dom: "dom (mem_view db c) = set (map (\<lambda>((_, l), _). l) (filter (\<lambda>((c', _), _). c' = c) db))"
proof -
  have "dom (mem_view db c) = {l. (c, l) \<in> fst ` set db}"
    by (rule set_eqI) (simp add: mem_view_def domIff map_of_eq_None_iff del: not_None_eq)
  also have "\<dots> = set (map (\<lambda>((_, l), _). l) (filter (\<lambda>((c', _), _). c' = c) db))"
    by (force simp: image_iff)
  finally show ?thesis .
qed

lemma prev_key_spec:
  "case prev_key k ls of
     None \<Rightarrow> \<forall>l \<in> set ls. \<not> l \<le> k
   | Some l \<Rightarrow> l \<in> set ls \<and> l \<le> k \<and> (\<forall>l' \<in> set ls. l' \<le> k \<longrightarrow> l' \<le> l)"
  by (induction ls) (auto simp: max_def split: option.splits)

lemma mem_kv_contract: "kv_contract mem_kv mem_view"
proof -
  let ?ls = "\<lambda>db c. map (\<lambda>((_, l), _). l) (filter (\<lambda>((c', _), _). c' = c) db)"
  have get: "kv_get mem_kv db c k = (case mem_view db c k of None \<Rightarrow> Inl NotFound | Some v \<Rightarrow> Inr v)" for db c k
    by (simp add: mem_kv_def mem_view_def)
  have wr: "kv_write mem_kv ops db = (OK, fold mem_op ops db)" for ops db by (simp add: mem_kv_def)
  have seek: "kv_seek_prev mem_kv db c k = Inr (prev_key k (?ls db c))" for db c k
    by (simp add: mem_kv_def)
  have some: "l \<in> dom (mem_view db c) \<and> l \<le> k \<and> (\<forall>l' \<in> dom (mem_view db c). l' \<le> k \<longrightarrow> l' \<le> l)"
    if "kv_seek_prev mem_kv db c k = Inr (Some l)" for db c k l
  proof -
    from that have p: "prev_key k (?ls db c) = Some l" by (simp only: seek sum.inject)
    show ?thesis
      using prev_key_spec [where k = k and ls = "?ls db c"] unfolding p option.case mem_dom .
  qed
  have none: "\<forall>l \<in> dom (mem_view db c). \<not> l \<le> k" if "kv_seek_prev mem_kv db c k = Inr None" for db c k
  proof -
    from that have p: "prev_key k (?ls db c) = None" by (simp only: seek sum.inject)
    show ?thesis
      using prev_key_spec [where k = k and ls = "?ls db c"] unfolding p option.case mem_dom .
  qed
  show ?thesis
    unfolding kv_contract_def
    by (intro conjI allI impI some none)
      (auto simp: get wr mem_view_write seek split: option.splits)
qed

subsection \<open>Properties\<close>

text \<open>C15: Updating a payload changes no other row and no id, and when it succeeds the row holds the
  JSON merge patch (RFC 7396) of the old payload, an empty object if there was none: a member named
  in the patch is merged, or removed by a null, every other member is kept.\<close>

theorem payload_update_merges:
  assumes "kv_contract api vw" "distinct (map fst p)"
    and "ms_update api dump parse i (JObj p) s = (st, s')"
  shows "(\<forall>j. j \<noteq> i \<longrightarrow> row (vw (ms_db s')) j = row (vw (ms_db s)) j)
    \<and> vw (ms_db s') CfIds = vw (ms_db s) CfIds
    \<and> (st \<noteq> OK \<or> (\<exists>old new.
        (case row (vw (ms_db s)) i of None \<Rightarrow> old = JObj [] | Some bs \<Rightarrow> parse bs = Some old)
      \<and> row (vw (ms_db s')) i = Some (dump (JObj new))
      \<and> (\<forall>k. map_of new k = (case map_of p k of
            None \<Rightarrow> map_of (members old) k
          | Some v \<Rightarrow> if v = JNull then None else Some (merge_patch (obj_get k (members old)) v)))))"
proof -
  obtain r s1 where g: "ms_get_doc api parse i s = (r, s1)" by (cases "ms_get_doc api parse i s")
  note G = ms_get_doc_cases [OF assms(1) g]
  show ?thesis
  proof (cases "case r of Inl e \<Rightarrow> e = NotFound | Inr d \<Rightarrow> True")
    case False
    then have "s' = s1 \<and> st \<noteq> OK"
      using G assms(3) by (auto simp: ms_update_def g split: sum.splits)
    with G show ?thesis by simp
  next
    case True
    define old where "old = (case r of Inl e \<Rightarrow> JObj [] | Inr d \<Rightarrow> d)"
    have "ms_put api i (dump (merge_patch old (JObj p))) s1 = (st, s')"
      using True assms(3) by (auto simp: ms_update_def g old_def ms_put_doc_def split: sum.splits)
    note P = ms_put_cases [OF assms(1) this]
    have "case row (vw (ms_db s)) i of None \<Rightarrow> old = JObj [] | Some bs \<Rightarrow> parse bs = Some old"
      using True G by (auto simp: old_def split: sum.splits)
    moreover have "\<forall>k. map_of (merge_members (members old) p) k = (case map_of p k of
            None \<Rightarrow> map_of (members old) k
          | Some v \<Rightarrow> if v = JNull then None else Some (merge_patch (obj_get k (members old)) v))"
      by (intro allI merge_members_get assms(2))
    moreover have "st \<noteq> OK \<or> row (vw (ms_db s')) i = Some (dump (JObj (merge_members (members old) p)))"
      using P by auto
    moreover have "row (vw (ms_db s')) j = row (vw (ms_db s)) j" if "j \<noteq> i" for j
      using P G that by auto
    moreover have "vw (ms_db s') CfIds = vw (ms_db s) CfIds" using P G by simp
    ultimately show ?thesis by blast
  qed
qed

definition sample_store :: "((cf \<times> bytes) \<times> bytes) list meta_store" where
  "sample_store = \<lparr>ms_db = [((CfMeta, encode_key 5), [1])], has_id_map = True, point_gets = 0, parses = 0\<rparr>"

definition sample_parse :: "bytes \<Rightarrow> json option" where
  "sample_parse bs = (if bs = [1] then Some (JObj [(''a'', JInt 1)]) else None)"

definition sample_dump :: "json \<Rightarrow> bytes" where
  "sample_dump d = (if d = JObj [(''a'', JInt 1), (''b'', JInt 2)] then [2] else [3])"

theorem payload_update_merges_witness:
  "\<exists>s'. ms_update mem_kv sample_dump sample_parse 5 (JObj [(''b'', JInt 2)]) sample_store = (OK, s')
    \<and> row (mem_view (ms_db s')) 5 = Some [2] \<and> row (mem_view (ms_db s')) 6 = None"
proof -
  let ?r = "ms_update mem_kv sample_dump sample_parse 5 (JObj [(''b'', JInt 2)]) sample_store"
  have r: "fst ?r = OK \<and> row (mem_view (ms_db (snd ?r))) 5 = Some [2]"
    by (simp add: ms_update_def ms_get_doc_def ms_get_def ms_put_doc_def ms_put_def mem_kv_def sample_store_def
        sample_parse_def sample_dump_def obj_get_def row_def mem_view_def Let_def)
  then obtain s' where s': "?r = (OK, s')" by (metis prod.collapse)
  have "row (mem_view (ms_db s')) 6 = row (mem_view (ms_db sample_store)) 6"
    using payload_update_merges [OF mem_kv_contract _ s'] by simp
  also have "\<dots> = None" by (simp add: row_def mem_view_def sample_store_def)
  finally show ?thesis using r s' by simp
qed

text \<open>C14: After a batch of fresh pairs has been recorded, the id map still translates both ways
  consistently: a key that is found is found again from its dense id, no two keys share a dense id,
  and the keys of the batch have the ids it gave them.\<close>

theorem keyed_ids_bijective:
  assumes "kv_contract api vw" "ids_ok (vw (ms_db s))"
    and "distinct (map fst items)" "distinct (map snd items)"
    and "\<forall>(key, d) \<in> set items. fwd (vw (ms_db s)) key = None \<and> rev_key (vw (ms_db s)) d = None"
    and "put_keys api items s = (OK, s')"
  shows "ids_ok (vw (ms_db s'))
    \<and> (\<forall>key d key'. lookup_key api key s' = Inr d \<longrightarrow> reverse_lookup api d s' = Inr key' \<longrightarrow> key' = key)
    \<and> (\<forall>key key' d. lookup_key api key s' = Inr d \<longrightarrow> lookup_key api key' s' = Inr d \<longrightarrow> key' = key)
    \<and> (\<forall>(key, d) \<in> set items. lookup_key api key s' \<noteq> Inl NotFound
         \<and> (\<forall>d'. lookup_key api key s' = Inr d' \<longrightarrow> d' = d))"
proof -
  let ?m = "vw (ms_db s)" and ?m' = "vw (ms_db s')"
  from assms(6) obtain db where w: "kv_write api (concat (map key_ops items)) (ms_db s) = (OK, db)"
    "s' = s\<lparr>ms_db := db\<rparr>" "has_id_map s"
    by (auto simp: put_keys_def split: if_splits prod.splits)
  have m': "?m' = apply_batch (concat (map key_ops items)) ?m"
    using kv_write_OKD [OF assms(1) w(1)] by (simp add: w(2))
  have ok: "ids_ok ?m'" and f: "fwd ?m' = fwd ?m ++ map_of items"
    using ids_ok_batch [OF assms(2-5)] unfolding m' by blast+
  then have inv: "inverse_maps (fwd ?m') (rev_key ?m')" by (simp add: ids_ok_def)
  have fwdI: "fwd ?m' key = Some d" if "lookup_key api key s' = Inr d" for key d
    using that kv_get_InrD [OF assms(1), of "ms_db s'" CfIds "kForwardPrefix # key"]
    by (auto simp: lookup_key_def fwd_def split: if_splits sum.splits)
  have revI: "rev_key ?m' d = Some key" if "reverse_lookup api d s' = Inr key" for key d
    using that kv_get_InrD [OF assms(1), of "ms_db s'" CfIds "kReversePrefix # encode_key d"]
    by (auto simp: reverse_lookup_def rev_key_def split: if_splits)
  have nf: "fwd ?m' key = None" if "lookup_key api key s' = Inl NotFound" for key
    using that w(2,3) kv_get_InlD [OF assms(1), of "ms_db s'" CfIds "kForwardPrefix # key"]
    by (auto simp: lookup_key_def fwd_def split: if_splits sum.splits)
  have new: "fwd ?m' key = Some d" if "(key, d) \<in> set items" for key d
    unfolding f using map_of_is_SomeI [OF assms(3) that] by (simp add: map_add_def)
  show ?thesis
    using ok fwdI revI nf new inverse_mapsD [OF inv]
    by (auto, (metis option.inject option.distinct(1))+)
qed

lemma ids_ok_empty: "\<forall>k. m CfIds k = None \<Longrightarrow> ids_ok m"
  by (auto simp: ids_ok_def fwd_def rev_key_def inverse_maps_def)

theorem keyed_ids_bijective_witness:
  "\<exists>s'. put_keys mem_kv [([9], 0), ([8, 7], 1)] sample_store = (OK, s')
    \<and> ids_ok (mem_view (ms_db s')) \<and> lookup_key mem_kv [9] s' \<noteq> Inl NotFound"
proof -
  let ?r = "put_keys mem_kv [([9], 0), ([8, 7], 1)] sample_store"
  have "fst ?r = OK" by (simp add: put_keys_def mem_kv_def sample_store_def)
  then obtain s' where s': "?r = (OK, s')" by (metis prod.collapse)
  have e: "mem_view (ms_db sample_store) CfIds k = None" for k
    by (simp add: mem_view_def sample_store_def)
  show ?thesis
    using keyed_ids_bijective [OF mem_kv_contract _ _ _ _ s'] s'
    by (simp add: ids_ok_empty e fwd_def rev_key_def)
qed

text \<open>C1: What \<open>MaxMappedId\<close> answers is the largest dense id in the map, and nothing exactly when the
  map is empty; it never calls a consistent map corrupt.\<close>

theorem max_mapped_id_largest:
  assumes "kv_contract api vw" "ids_ok (vw (ms_db s))" "max_mapped_id api s = r"
    and "\<And>c k. kv_seek_prev api (ms_db s) c k \<noteq> Inl Corruption"
  shows "case r of
      Inl e \<Rightarrow> e \<noteq> Corruption \<and> e \<noteq> OK
    | Inr None \<Rightarrow> \<forall>d. rev_key (vw (ms_db s)) d = None
    | Inr (Some d) \<Rightarrow> rev_key (vw (ms_db s)) d \<noteq> None
        \<and> (\<forall>d'. rev_key (vw (ms_db s)) d' \<noteq> None \<longrightarrow> d' \<le> d)"
proof (cases "has_id_map s")
  case False
  with assms(3) show ?thesis by (auto simp: max_mapped_id_def)
next
  case True
  let ?m = "vw (ms_db s)" and ?seek = "kv_seek_prev api (ms_db s) CfIds [kReversePrefix + 1]"
  consider e where "?seek = Inl e" | "?seek = Inr None" | l where "?seek = Inr (Some l)"
    by (metis not_Some_eq obj_sumE)
  then show ?thesis
  proof cases
    case 1
    with assms(1,3) True assms(4) [of CfIds "[kReversePrefix + 1]"] kv_seek_InlD [OF assms(1) 1]
    show ?thesis by (auto simp: max_mapped_id_def)
  next
    case 2
    note no = kv_seek_NoneD [OF assms(1) 2]
    have "rev_key ?m d = None" for d
    proof (rule ccontr)
      assume "rev_key ?m d \<noteq> None"
      then have "kReversePrefix # encode_key d \<in> dom (?m CfIds)" by (auto simp: rev_key_def)
      moreover have "kReversePrefix # encode_key d \<le> [kReversePrefix + 1]" by (simp add: kReversePrefix_def)
      ultimately show False using no by blast
    qed
    with 2 assms(3) True show ?thesis by (auto simp: max_mapped_id_def)
  next
    case 3
    note l = kv_seek_SomeD [OF assms(1) 3]
    have max: "\<exists>e. l = kReversePrefix # encode_key e \<and> d \<le> e" if "rev_key ?m d \<noteq> None" for d
      using rev_dom_le [OF assms(2) _ _ _ that] l by blast
    have "l \<noteq> []" using l assms(2) by (auto simp: ids_ok_def)
    show ?thesis
    proof (cases "hd l = kReversePrefix")
      case True
      have "(\<exists>key. l = kForwardPrefix # key) \<or> (\<exists>e. l = kReversePrefix # encode_key e)"
        using l assms(2) unfolding ids_ok_def by (elim conjE allE [of _ l]) auto
      with True obtain e where e: "l = kReversePrefix # encode_key e" by auto
      have "rev_key ?m e \<noteq> None" using l by (auto simp: rev_key_def e)
      moreover have "d \<le> e" if "rev_key ?m d \<noteq> None" for d using max [OF that] by (auto simp: e)
      moreover have "r = Inr (Some e)"
        using 3 assms(3) \<open>has_id_map s\<close> by (simp add: max_mapped_id_def e)
      ultimately show ?thesis by simp
    next
      case False
      then have "r = Inr None" using 3 assms(3) \<open>has_id_map s\<close> by (simp add: max_mapped_id_def)
      moreover have "rev_key ?m d = None" for d
        using max [of d] False by (cases "rev_key ?m d") auto
      ultimately show ?thesis by simp
    qed
  qed
qed

theorem max_mapped_id_largest_witness: "max_mapped_id mem_kv sample_store = Inr None"
proof -
  have e: "mem_view (ms_db sample_store) CfIds k = None" for k
    by (simp add: mem_view_def sample_store_def)
  obtain r where r: "max_mapped_id mem_kv sample_store = r" by simp
  have "kv_seek_prev mem_kv (ms_db sample_store) c k \<noteq> Inl Corruption" for c k
    by (simp add: mem_kv_def)
  from max_mapped_id_largest [OF mem_kv_contract _ r this]
  have "case r of Inl e \<Rightarrow> True | Inr None \<Rightarrow> True | Inr (Some d) \<Rightarrow> False"
    by (auto simp: ids_ok_empty e rev_key_def split: sum.splits option.splits)
  moreover have "\<exists>x. r = Inr x"
    using r by (auto simp: max_mapped_id_def mem_kv_def sample_store_def)
  ultimately show ?thesis using r by (auto split: option.splits)
qed

end
