(* ===== verification/Float_Ops.thy ===== *)
theory Float_Ops
  imports Ids Complex_Main
begin

text \<open>
  Single precision arithmetic and the two scalar quantisers. A \<open>float\<close> is its bit pattern; the
  operations of the floating-point unit are the record \<open>float_ops\<close>, a parameter of the model, and
  every loop over them is written out. \<open>AsterVec::quantizeNodePoint\<close> (\<open>src/astervec_index.cc\<close>) works
  on the points of upper-layer nodes, \<open>PagedVectorStorage::quantize\<close> (\<open>include/disk_vector.h\<close>) on the
  records of the vector file; they round differently.
\<close>

type_synonym vec = "u32 list"

record float_ops =
  fl_lt :: "u32 \<Rightarrow> u32 \<Rightarrow> bool"
  fl_add :: "u32 \<Rightarrow> u32 \<Rightarrow> u32"
  fl_sub :: "u32 \<Rightarrow> u32 \<Rightarrow> u32"
  fl_mul :: "u32 \<Rightarrow> u32 \<Rightarrow> u32"
  fl_div :: "u32 \<Rightarrow> u32 \<Rightarrow> u32"
  fl_of :: "rat \<Rightarrow> u32"
  fl_trunc :: "u32 \<Rightarrow> int"

text \<open>The smallest and the largest element, from the first on.\<close>

definition fl_bounds :: "float_ops \<Rightarrow> vec \<Rightarrow> u32 \<times> u32" where
  "fl_bounds F v =
     fold (\<lambda>x (lo, hi). (if fl_lt F x lo then x else lo, if fl_lt F hi x then x else hi)) (tl v) (hd v, hd v)"

definition fl_range :: "float_ops \<Rightarrow> u32 \<Rightarrow> u32 \<Rightarrow> u32" where
  "fl_range F lo hi =
     (let r = fl_sub F hi lo; tiny = fl_of F (1 / 10 ^ 10) in if fl_lt F r tiny then tiny else r)"

definition clamp_byte :: "int \<Rightarrow> byte" where
  "clamp_byte q = (if q < 0 then 0 else if q > 255 then 255 else word_of_int q)"

subsection \<open>Points of nodes\<close>

definition node_quantize :: "float_ops \<Rightarrow> vec \<Rightarrow> bytes \<times> u32 \<times> u32" where
  "node_quantize F v =
     (case fl_bounds F v of
        (lo, hi) \<Rightarrow>
          (map (\<lambda>x. clamp_byte (fl_trunc F (fl_add F (fl_mul F (fl_div F (fl_sub F x lo) (fl_range F lo hi))
                  (fl_of F 255)) (fl_of F (1 / 2))))) v, lo, hi))"

definition node_dequantize :: "float_ops \<Rightarrow> bytes \<Rightarrow> u32 \<Rightarrow> u32 \<Rightarrow> vec" where
  "node_dequantize F q lo hi =
     (let range = fl_sub F hi lo
      in map (\<lambda>b. fl_add F lo (fl_mul F range (fl_div F (fl_of F (of_nat (unat b))) (fl_of F 255)))) q)"

lemma node_quantize_dim:
  "node_quantize F v = (q, lo, hi) \<Longrightarrow> length q = length v"
  by (auto simp: node_quantize_def split: prod.splits)

lemma node_dequantize_dim [simp]: "length (node_dequantize F q lo hi) = length q"
  by (simp add: node_dequantize_def)

subsection \<open>Records of the vector file\<close>

text \<open>A record holds the bounds and one byte per element.\<close>

definition disk_quantize :: "float_ops \<Rightarrow> vec \<Rightarrow> bytes" where
  "disk_quantize F v =
     (case fl_bounds F v of
        (lo, hi) \<Rightarrow> let scale = fl_div F (fl_of F 255) (fl_range F lo hi) in
          put_le 4 lo @ put_le 4 hi
          @ map (\<lambda>x. clamp_byte (fl_trunc F (fl_add F (fl_mul F (fl_sub F x lo) scale) (fl_of F (1 / 2))))) v)"

definition disk_dequantize :: "float_ops \<Rightarrow> bytes \<Rightarrow> vec" where
  "disk_dequantize F r =
     (let lo = get_le (take 4 r); hi = get_le (take 4 (drop 4 r));
          inv_scale = fl_div F (fl_sub F hi lo) (fl_of F 255)
      in map (\<lambda>b. fl_add F (fl_mul F (fl_of F (of_nat (unat b))) inv_scale) lo) (drop 8 r))"

lemma length_disk_quantize [simp]: "length (disk_quantize F v) = length v + 8"
  by (simp add: disk_quantize_def Let_def split: prod.split)

lemma length_disk_dequantize [simp]: "length (disk_dequantize F r) = length r - 8"
  by (simp add: disk_dequantize_def Let_def)

end
