(* ===== verification/Action.thy ===== *)
theory Action
  imports Prelude
begin

text \<open>
  Sequential code with state, exceptions and loops. An action maps a state to \<open>None\<close> when it does
  not return, to \<open>Some (Inl (), s)\<close> when it throws in state \<open>s\<close> (what was changed before the throw
  stays changed), and to \<open>Some (Inr a, s)\<close> when it returns \<open>a\<close>. \<open>wp m s P Q\<close> says that \<open>m\<close> started in
  \<open>s\<close> returns with \<open>P\<close> or throws with \<open>Q\<close>; it is a total correctness statement. The rules in
  \<open>wp_intro\<close> are used by \<open>intro\<close>, one per construct.
\<close>

named_theorems wp_intro "introduction rules of wp"

type_synonym ('s, 'a) action = "'s \<Rightarrow> ((unit + 'a) \<times> 's) option"

definition ret :: "'a \<Rightarrow> ('s, 'a) action" where
  "ret a s = Some (Inr a, s)"

definition throw :: "('s, 'a) action" where
  "throw s = Some (Inl (), s)"

definition diverge :: "('s, 'a) action" where
  "diverge s = None"

definition bnd :: "('s, 'a) action \<Rightarrow> ('a \<Rightarrow> ('s, 'b) action) \<Rightarrow> ('s, 'b) action" where
  "bnd m f s =
     (case m s of
        None \<Rightarrow> None
      | Some (Inl e, s') \<Rightarrow> Some (Inl e, s')
      | Some (Inr a, s') \<Rightarrow> f a s')"

definition get :: "('s \<Rightarrow> 'a) \<Rightarrow> ('s, 'a) action" where
  "get f s = Some (Inr (f s), s)"

definition modify :: "('s \<Rightarrow> 's) \<Rightarrow> ('s, unit) action" where
  "modify f s = Some (Inr (), f s)"

text \<open>A state transformer with a result, and a possibly missing value.\<close>

definition upd :: "('s \<Rightarrow> 'a \<times> 's) \<Rightarrow> ('s, 'a) action" where
  "upd f s = (case f s of (a, s') \<Rightarrow> Some (Inr a, s'))"

definition val :: "'a option \<Rightarrow> ('s, 'a) action" where
  "val x = (case x of None \<Rightarrow> throw | Some a \<Rightarrow> ret a)"

text \<open>\<open>try { m } catch (...) { h }\<close>.\<close>

definition catching :: "('s, 'a) action \<Rightarrow> ('s, 'a) action \<Rightarrow> ('s, 'a) action" where
  "catching m h s =
     (case m s of
        None \<Rightarrow> None
      | Some (Inl e, s') \<Rightarrow> h s'
      | Some (Inr a, s') \<Rightarrow> Some (Inr a, s'))"

text \<open>A loop over the elements of a list, passing an accumulator.\<close>

fun for_each :: "'x list \<Rightarrow> ('x \<Rightarrow> 'a \<Rightarrow> ('s, 'a) action) \<Rightarrow> 'a \<Rightarrow> ('s, 'a) action" where
  "for_each [] body a = ret a"
| "for_each (x # xs) body a = bnd (body x a) (for_each xs body)"

text \<open>Results of all elements.\<close>

fun collect :: "('x \<Rightarrow> ('s, 'a) action) \<Rightarrow> 'x list \<Rightarrow> ('s, 'a list) action" where
  "collect f [] = ret []"
| "collect f (x # xs) = bnd (f x) (\<lambda>a. bnd (collect f xs) (\<lambda>as. ret (a # as)))"

subsection \<open>Loops that may not end\<close>

lemma bnd_mono [partial_function_mono]:
  fixes m :: "('x \<Rightarrow> 'y option) \<Rightarrow> ('s, 'a) action"
    and k :: "('x \<Rightarrow> 'y option) \<Rightarrow> 'a \<Rightarrow> ('s, 'b) action"
  assumes "\<And>s. mono_option (\<lambda>f. m f s)" "\<And>a s. mono_option (\<lambda>f. k f a s)"
  shows "mono_option (\<lambda>f. bnd (m f) (k f) s)"
  unfolding bnd_def
proof (rule monotoneI)
  fix f g :: "'x \<Rightarrow> 'y option"
  assume fg: "fun_ord (flat_ord None) f g"
  have m: "flat_ord None (m f s) (m g s)" using assms(1) fg by (rule monotoneD [of _ _ _ f g])
  have k: "flat_ord None (k f a t) (k g a t)" for a t using assms(2) fg by (rule monotoneD [of _ _ _ f g])
  show "flat_ord None
      (case m f s of None \<Rightarrow> None | Some (Inl e, s') \<Rightarrow> Some (Inl e, s') | Some (Inr a, s') \<Rightarrow> k f a s')
      (case m g s of None \<Rightarrow> None | Some (Inl e, s') \<Rightarrow> Some (Inl e, s') | Some (Inr a, s') \<Rightarrow> k g a s')"
  proof (cases "m f s")
    case None
    then show ?thesis by (simp add: flat_ord_def)
  next
    case (Some p)
    then have "m g s = Some p" using m by (simp add: flat_ord_def)
    with Some k show ?thesis by (simp add: flat_ord_def split: sum.split prod.split)
  qed
qed

subsection \<open>Total correctness\<close>

definition wp :: "('s, 'a) action \<Rightarrow> 's \<Rightarrow> ('a \<Rightarrow> 's \<Rightarrow> bool) \<Rightarrow> ('s \<Rightarrow> bool) \<Rightarrow> bool" where
  "wp m s P Q =
     (case m s of None \<Rightarrow> False | Some (Inl _, s') \<Rightarrow> Q s' | Some (Inr a, s') \<Rightarrow> P a s')"

definition no_throw :: "'s \<Rightarrow> bool" where
  "no_throw s = False"

lemma wp_ret [wp_intro]: "P a s \<Longrightarrow> wp (ret a) s P Q"
  by (simp add: wp_def ret_def)

lemma wp_throw [wp_intro]: "Q s \<Longrightarrow> wp throw s P Q"
  by (simp add: wp_def throw_def)

lemma wp_bnd [wp_intro]: "wp m s (\<lambda>a s'. wp (f a) s' P Q) Q \<Longrightarrow> wp (bnd m f) s P Q"
  by (auto simp: wp_def bnd_def split: option.splits sum.splits prod.splits)

lemma wp_get [wp_intro]: "P (f s) s \<Longrightarrow> wp (get f) s P Q"
  by (simp add: wp_def get_def)

lemma wp_modify [wp_intro]: "P () (f s) \<Longrightarrow> wp (modify f) s P Q"
  by (simp add: wp_def modify_def)

lemma wp_upd [wp_intro]: "(\<And>a s'. f s = (a, s') \<Longrightarrow> P a s') \<Longrightarrow> wp (upd f) s P Q"
  by (simp add: wp_def upd_def split: prod.splits)

lemma wp_val [wp_intro]: "(x = None \<Longrightarrow> Q s) \<Longrightarrow> (\<And>a. x = Some a \<Longrightarrow> P a s) \<Longrightarrow> wp (val x) s P Q"
  by (simp add: wp_def val_def throw_def ret_def split: option.splits)

lemma wp_catching [wp_intro]: "wp m s P (\<lambda>s'. wp h s' P Q) \<Longrightarrow> wp (catching m h) s P Q"
  by (auto simp: wp_def catching_def split: option.splits sum.splits prod.splits)

lemma wp_if [wp_intro]:
  "(b \<Longrightarrow> wp m s P Q) \<Longrightarrow> (\<not> b \<Longrightarrow> wp m' s P Q) \<Longrightarrow> wp (if b then m else m') s P Q"
  by simp

lemma wp_conseq:
  "wp m s P Q \<Longrightarrow> (\<And>a s'. P a s' \<Longrightarrow> P' a s') \<Longrightarrow> (\<And>s'. Q s' \<Longrightarrow> Q' s') \<Longrightarrow> wp m s P' Q'"
  by (auto simp: wp_def split: option.splits sum.splits)

lemma wp_conj: "wp m s P Q \<Longrightarrow> wp m s P' Q' \<Longrightarrow> wp m s (\<lambda>a s'. P a s' \<and> P' a s') (\<lambda>s'. Q s' \<and> Q' s')"
  by (auto simp: wp_def split: option.splits sum.splits)

lemma wp_value: "wp m s P no_throw \<longleftrightarrow> (\<exists>a s'. m s = Some (Inr a, s') \<and> P a s')"
  by (auto simp: wp_def no_throw_def split: option.splits sum.splits)

lemma wp_result: "m s = Some (r, s') \<Longrightarrow> wp m s P Q \<longleftrightarrow> (case r of Inl _ \<Rightarrow> Q s' | Inr a \<Rightarrow> P a s')"
  by (simp add: wp_def)

text \<open>A loop keeps an invariant over the elements still to come.\<close>

lemma wp_for_each:
  assumes "I xs a s"
    and "\<And>x xs a s. I (x # xs) a s \<Longrightarrow> wp (body x a) s (I xs) Q"
    and "\<And>a s. I [] a s \<Longrightarrow> P a s"
  shows "wp (for_each xs body a) s P Q"
  using assms(1)
proof (induction xs arbitrary: a s)
  case Nil
  then show ?case by (simp add: wp_ret assms(3))
next
  case (Cons x xs)
  show ?case
    unfolding for_each.simps
    by (rule wp_bnd, rule wp_conseq [OF assms(2) [OF Cons.prems] Cons.IH])
qed

text \<open>Sequencing: what the first action gives is what the second starts from.\<close>

lemma wp_seq:
  "wp m s A Q' \<Longrightarrow> (\<And>a s'. A a s' \<Longrightarrow> wp (f a) s' P Q) \<Longrightarrow> (\<And>s'. Q' s' \<Longrightarrow> Q s') \<Longrightarrow> wp (bnd m f) s P Q"
  by (rule wp_bnd, erule wp_conseq)

lemma wp_state: "m s = m' s \<Longrightarrow> wp m' s P Q \<Longrightarrow> wp m s P Q"
  by (simp add: wp_def)

end
