(* ===== verification/Vector_Store.thy ===== *)
theory Vector_Store
  imports Float_Ops Action
begin

text \<open>
  The vector store interface \<open>IVectorStorage\<close> of \<open>include/disk_vector.h\<close> and its plain layout
  \<open>BasicVectorStorage\<close>. A vector is the list of its \<open>float\<close> bit patterns, a file the list of its
  bytes. The interface is the record \<open>vstore\<close> of its virtual functions and the locale
  \<open>vector_store\<close> of what the index relies on: a store is a map from ids to the decoded records,
  a call may throw only where the medium is \<open>faulty\<close>.
\<close>

subsection \<open>Files as byte lists\<close>

definition pread :: "nat \<Rightarrow> nat \<Rightarrow> bytes \<Rightarrow> bytes" where
  "pread off n f = take n (drop off f)"

definition zero_fill :: "nat \<Rightarrow> bytes \<Rightarrow> bytes" where
  "zero_fill n f = f @ replicate (n - length f) 0"

definition patch :: "nat \<Rightarrow> bytes \<Rightarrow> bytes \<Rightarrow> bytes" where
  "patch off d f = take off (zero_fill off f) @ d @ drop (off + length d) f"

lemma length_zero_fill [simp]: "length (zero_fill n f) = max n (length f)"
  by (simp add: zero_fill_def)

lemma length_patch [simp]: "length (patch off d f) = max (off + length d) (length f)"
  by (simp add: patch_def)

lemma nth_patch:
  "i < length (patch off d f) \<Longrightarrow> patch off d f ! i =
     (if off \<le> i \<and> i < off + length d then d ! (i - off) else if i < length f then f ! i else 0)"
proof -
  assume i: "i < length (patch off d f)"
  have l: "length (take off (zero_fill off f)) = off" by simp
  have "take off (zero_fill off f) ! i = (if i < length f then f ! i else 0)" if "i < off"
    using that by (simp add: zero_fill_def nth_append)
  with i show ?thesis by (auto simp: patch_def nth_append l)
qed

lemma length_pread [simp]: "length (pread off n f) = min n (length f - off)"
  by (simp add: pread_def)

lemma nth_pread: "i < n \<Longrightarrow> off + i < length f \<Longrightarrow> pread off n f ! i = f ! (off + i)"
  by (simp add: pread_def)

lemma pread_patch_same [simp]: "pread off (length d) (patch off d f) = d"
  by (simp add: pread_def patch_def)

lemma pread_patch_other:
  assumes "off' + n \<le> length f" "off' + n \<le> off \<or> off + length d \<le> off'"
  shows "pread off' n (patch off d f) = pread off' n f"
  using assms by (intro nth_equalityI) (auto simp: nth_pread nth_patch)

subsection \<open>Records of floats\<close>

fun floats :: "bytes \<Rightarrow> vec" where
  "floats (a # b # c # d # bs) = get_le [a, b, c, d] # floats bs"
| "floats _ = []"

definition float_bytes :: "vec \<Rightarrow> bytes" where
  "float_bytes v = concat (map (put_le 4) v)"

lemma length_float_bytes [simp]: "length (float_bytes v) = 4 * length v"
  by (induction v) (simp_all add: float_bytes_def)

lemma floats_float_bytes [simp]: "floats (float_bytes v) = v"
proof (induction v)
  case (Cons x v)
  have "put_le 4 x = [ucast x, ucast (drop_bit 8 x), ucast (drop_bit 8 (drop_bit 8 x)),
      ucast (drop_bit 8 (drop_bit 8 (drop_bit 8 x)))]"
    by (simp add: eval_nat_numeral)
  moreover have "get_le (put_le 4 x) = x" by simp
  ultimately show ?case using Cons by (simp add: float_bytes_def)
qed (simp add: float_bytes_def)

lemma length_floats: "length (floats bs) = length bs div 4"
  by (induction bs rule: floats.induct) auto

subsection \<open>The interface\<close>

text \<open>Calls are actions on the store.\<close>

record 's vstore =
  vs_store :: "node_id \<Rightarrow> vec \<Rightarrow> node_id \<Rightarrow> ('s, unit) action"
  vs_store_encoded :: "node_id \<Rightarrow> bytes \<Rightarrow> node_id \<Rightarrow> ('s, unit) action"
  vs_record_size :: nat
  vs_encode :: "vec \<Rightarrow> bytes"
  vs_decode :: "bytes \<Rightarrow> vec"
  vs_read :: "node_id \<Rightarrow> ('s, vec) action"
  vs_read_batch :: "node_id list \<Rightarrow> ('s, vec list) action"
  vs_exists :: "node_id \<Rightarrow> 's \<Rightarrow> bool"
  vs_has_location :: "node_id \<Rightarrow> 's \<Rightarrow> bool"

text \<open>A call that only reads leaves the contents alone.\<close>

definition same_store ::
  "'s vstore \<Rightarrow> ('s \<Rightarrow> bool) \<Rightarrow> ('s \<Rightarrow> node_id \<rightharpoonup> vec) \<Rightarrow> ('s \<Rightarrow> node_id \<Rightarrow> bool) \<Rightarrow> 's \<Rightarrow> 's \<Rightarrow> bool" where
  "same_store ops iv view writable s s' \<longleftrightarrow>
     iv s' \<and> view s' = view s \<and> writable s' = writable s \<and> (\<forall>m. vs_exists ops m s' = vs_exists ops m s)"

text \<open>A store changes the record of one id.\<close>

definition stored_store ::
  "'s vstore \<Rightarrow> ('s \<Rightarrow> bool) \<Rightarrow> ('s \<Rightarrow> node_id \<rightharpoonup> vec) \<Rightarrow> node_id \<Rightarrow> 's \<Rightarrow> 's \<Rightarrow> bool" where
  "stored_store ops iv view n s s' \<longleftrightarrow>
     iv s' \<and> (\<forall>m. m \<noteq> n \<longrightarrow> view s' m = view s m \<and> vs_exists ops m s' = vs_exists ops m s)"

locale vector_store =
  fixes ops :: "'s vstore" and dim :: nat and faulty :: bool
    and inv :: "'s \<Rightarrow> bool" and view :: "'s \<Rightarrow> node_id \<rightharpoonup> vec" and writable :: "'s \<Rightarrow> node_id \<Rightarrow> bool"
  assumes read_law: "inv s \<Longrightarrow> view s n = Some v \<Longrightarrow>
      wp (vs_read ops n) s (\<lambda>r s'. r = v \<and> same_store ops inv view writable s s')
        (\<lambda>s'. faulty \<and> same_store ops inv view writable s s')"
    and batch_law: "inv s \<Longrightarrow> \<forall>n \<in> set ns. view s n \<noteq> None \<Longrightarrow>
      wp (vs_read_batch ops ns) s (\<lambda>r s'. r = map (\<lambda>n. the (view s n)) ns \<and> same_store ops inv view writable s s')
        (\<lambda>s'. faulty \<and> same_store ops inv view writable s s')"
    and location_law: "inv s \<Longrightarrow> vs_has_location ops n s \<longleftrightarrow> view s n \<noteq> None"
    and exists_law: "inv s \<Longrightarrow> vs_exists ops n s \<Longrightarrow> view s n \<noteq> None"
    and dim_law: "inv s \<Longrightarrow> view s n = Some v \<Longrightarrow> length v = dim"
    and store_law: "inv s \<Longrightarrow> writable s n \<Longrightarrow> length v = dim \<Longrightarrow> wp (vs_store ops n v key) s
        (\<lambda>_ s'. stored_store ops inv view n s s' \<and> view s' n = Some (vs_decode ops (vs_encode ops v)) \<and> vs_exists ops n s')
        (\<lambda>s'. faulty \<and> stored_store ops inv view n s s')"
    and store_encoded_law: "inv s \<Longrightarrow> writable s n \<Longrightarrow> length b = vs_record_size ops \<Longrightarrow> wp (vs_store_encoded ops n b key) s
        (\<lambda>_ s'. stored_store ops inv view n s s' \<and> view s' n = Some (vs_decode ops b) \<and> vs_exists ops n s')
        (\<lambda>s'. faulty \<and> stored_store ops inv view n s s')"
    and encode_law: "length v = dim \<Longrightarrow> length (vs_encode ops v) = vs_record_size ops"

text \<open>The default \<open>readVectorsBatchFlat\<close>: one read after the other.\<close>

abbreviation read_each :: "(node_id \<Rightarrow> ('s, vec) action) \<Rightarrow> node_id list \<Rightarrow> ('s, vec list) action" where
  "read_each \<equiv> collect"

lemma wp_read_each:
  assumes "\<And>s n v. I s \<Longrightarrow> V s n = Some v \<Longrightarrow> wp (rd n) s (\<lambda>r s'. r = v \<and> I s' \<and> V s' = V s \<and> A s' = A s)
      (\<lambda>s'. faulty \<and> I s' \<and> V s' = V s \<and> A s' = A s)"
    and "I s" "\<forall>n \<in> set ns. V s n \<noteq> None"
  shows "wp (read_each rd ns) s (\<lambda>r s'. r = map (\<lambda>n. the (V s n)) ns \<and> I s' \<and> V s' = V s \<and> A s' = A s)
    (\<lambda>s'. faulty \<and> I s' \<and> V s' = V s \<and> A s' = A s)"
  using assms(2,3)
proof (induction ns arbitrary: s)
  case Nil
  then show ?case by (simp add: wp_ret)
next
  case (Cons n ns)
  then obtain v where v: "V s n = Some v" by auto
  have "wp (bnd (rd n) (\<lambda>a. bnd (read_each rd ns) (\<lambda>as. ret (a # as)))) s
    (\<lambda>r s'. r = map (\<lambda>n. the (V s n)) (n # ns) \<and> I s' \<and> V s' = V s \<and> A s' = A s)
    (\<lambda>s'. faulty \<and> I s' \<and> V s' = V s \<and> A s' = A s)"
  proof (rule wp_bnd, rule wp_conseq [OF assms(1) [OF Cons.prems(1) v]])
    fix a s1 assume a: "a = v \<and> I s1 \<and> V s1 = V s \<and> A s1 = A s"
    have "wp (read_each rd ns) s1 (\<lambda>r s'. r = map (\<lambda>n. the (V s1 n)) ns \<and> I s' \<and> V s' = V s1 \<and> A s' = A s1)
      (\<lambda>s'. faulty \<and> I s' \<and> V s' = V s1 \<and> A s' = A s1)"
      using Cons.IH [of s1] Cons.prems(2) a by simp
    then show "wp (bnd (read_each rd ns) (\<lambda>as. ret (a # as))) s1
      (\<lambda>r s'. r = map (\<lambda>n. the (V s n)) (n # ns) \<and> I s' \<and> V s' = V s \<and> A s' = A s)
      (\<lambda>s'. faulty \<and> I s' \<and> V s' = V s \<and> A s' = A s)"
      by (intro wp_bnd) (use a v in \<open>auto elim!: wp_conseq intro!: wp_ret\<close>)
  qed
  then show ?case by simp
qed

subsection \<open>The plain layout\<close>

text \<open>
  \<open>BasicVectorStorage\<close>: record \<open>i\<close> at offset \<open>i * dim * 4\<close>, and a file of delete markers, cached in
  \<open>deletedFlags_\<close>. \<open>io\<close> is the medium: the \<open>n\<close>-th write or read works (\<open>None\<close>) or fails after
  some bytes; \<open>bs_good\<close> is the data stream's state, which no code path clears.
\<close>

record basic_store =
  bs_dim :: nat
  bs_total :: nat
  bs_file :: bytes
  bs_good :: bool
  bs_del :: bytes
  bs_flags :: bytes
  bs_clock :: nat

type_synonym medium = "nat \<Rightarrow> nat option"

definition tick :: "basic_store \<Rightarrow> basic_store" where
  "tick s = s\<lparr>bs_clock := bs_clock s + 1\<rparr>"

definition writeDeleteFlag :: "medium \<Rightarrow> node_id \<Rightarrow> bool \<Rightarrow> basic_store \<Rightarrow> bool \<times> basic_store" where
  "writeDeleteFlag io i deleted s =
     (let v = (if deleted then 1 else 0);
          s1 = s\<lparr>bs_flags := (bs_flags s)[unat i := v]\<rparr>
      in case io (bs_clock s) of
           None \<Rightarrow> (True, tick (s1\<lparr>bs_del := patch (unat i) [v] (bs_del s)\<rparr>))
         | Some _ \<Rightarrow> (False, tick s1))"

definition basic_write :: "medium \<Rightarrow> nat \<Rightarrow> bytes \<Rightarrow> basic_store \<Rightarrow> bool \<times> basic_store" where
  "basic_write io off b s =
     (if \<not> bs_good s then (False, s)
      else case io (bs_clock s) of
             None \<Rightarrow> (True, tick (s\<lparr>bs_file := patch off b (bs_file s)\<rparr>))
           | Some k \<Rightarrow> (False, tick (s\<lparr>bs_file := patch off (take k b) (bs_file s), bs_good := False\<rparr>)))"

definition basic_store_encoded :: "medium \<Rightarrow> node_id \<Rightarrow> bytes \<Rightarrow> node_id \<Rightarrow> basic_store \<Rightarrow> bool \<times> basic_store" where
  "basic_store_encoded io i b key s =
     (if unat i \<ge> bs_total s then (False, s)
      else case basic_write io (unat i * bs_dim s * 4) (take (bs_dim s * 4) b) s of
             (False, s1) \<Rightarrow> (False, s1)
           | (True, s1) \<Rightarrow>
               if bs_flags s1 ! unat i \<noteq> 0 then writeDeleteFlag io i False s1 else (True, s1))"

definition basic_store_vector :: "medium \<Rightarrow> node_id \<Rightarrow> vec \<Rightarrow> node_id \<Rightarrow> basic_store \<Rightarrow> bool \<times> basic_store" where
  "basic_store_vector io i v key s =
     (if length v \<noteq> bs_dim s then (False, s) else basic_store_encoded io i (float_bytes v) i s)"

definition basic_read :: "medium \<Rightarrow> node_id \<Rightarrow> basic_store \<Rightarrow> vec option \<times> basic_store" where
  "basic_read io i s =
     (if unat i \<ge> bs_total s then (None, s)
      else if \<not> bs_good s then (None, s)
      else let off = unat i * bs_dim s * 4; n = bs_dim s * 4 in
        if io (bs_clock s) \<noteq> None \<or> length (bs_file s) < off + n
        then (None, tick (s\<lparr>bs_good := False\<rparr>))
        else (Some (floats (pread off n (bs_file s))), tick s))"

definition basic_delete :: "medium \<Rightarrow> node_id \<Rightarrow> basic_store \<Rightarrow> bool \<times> basic_store" where
  "basic_delete io i s =
     (if unat i \<ge> bs_total s then (False, s)
      else if bs_flags s ! unat i = 0 then writeDeleteFlag io i True s else (True, s))"

definition basic_exists :: "node_id \<Rightarrow> basic_store \<Rightarrow> bool" where
  "basic_exists i s \<longleftrightarrow> unat i < bs_total s \<and> bs_flags s ! unat i = 0"

definition basic_has_location :: "node_id \<Rightarrow> basic_store \<Rightarrow> bool" where
  "basic_has_location i s \<longleftrightarrow> unat i < bs_total s"

text \<open>The constructor, on the contents the two files have (\<open>[]\<close> for a file it creates), all of its
  streams working: files too short are extended with zeros, then the markers are loaded.\<close>

definition ensureDeleteFileSize :: "nat \<Rightarrow> bytes \<Rightarrow> bytes" where
  "ensureDeleteFileSize n f = (if length f < n then patch (n - 1) [0] f else f)"

definition basic_open :: "nat \<Rightarrow> nat \<Rightarrow> bytes \<Rightarrow> bytes \<Rightarrow> basic_store option" where
  "basic_open dims n file del =
     (if dims = 0 then None
      else let size = dims * n * 4;
               f = (if length file < size then patch (size - 1) [0] file else file);
               d = ensureDeleteFileSize n del
           in Some \<lparr>bs_dim = dims, bs_total = n, bs_file = f, bs_good = True, bs_del = d,
                    bs_flags = take n d, bs_clock = 0\<rparr>)"

text \<open>A call that throws has returned \<open>False\<close> or \<open>None\<close> above.\<close>

definition done_or_throw :: "('s \<Rightarrow> bool \<times> 's) \<Rightarrow> ('s, unit) action" where
  "done_or_throw f s = (case f s of (ok, s') \<Rightarrow> Some (if ok then Inr () else Inl (), s'))"

definition some_or_throw :: "('s \<Rightarrow> 'a option \<times> 's) \<Rightarrow> ('s, 'a) action" where
  "some_or_throw f s = (case f s of (x, s') \<Rightarrow> Some (case x of None \<Rightarrow> Inl () | Some a \<Rightarrow> Inr a, s'))"

lemma wp_done_or_throw: "wp (done_or_throw f) s P Q \<longleftrightarrow> (case f s of (ok, s') \<Rightarrow> if ok then P () s' else Q s')"
  by (simp add: wp_def done_or_throw_def split: prod.split)

lemma wp_some_or_throw:
  "wp (some_or_throw f) s P Q \<longleftrightarrow> (case f s of (x, s') \<Rightarrow> case x of None \<Rightarrow> Q s' | Some a \<Rightarrow> P a s')"
  by (simp add: wp_def some_or_throw_def split: prod.split option.split)

definition basic_ops :: "nat \<Rightarrow> medium \<Rightarrow> basic_store vstore" where
  "basic_ops dims io =
     \<lparr>vs_store = (\<lambda>n v key. done_or_throw (basic_store_vector io n v key)),
      vs_store_encoded = (\<lambda>n b key. done_or_throw (basic_store_encoded io n b key)),
      vs_record_size = dims * 4, vs_encode = float_bytes, vs_decode = floats,
      vs_read = (\<lambda>n. some_or_throw (basic_read io n)), vs_read_batch = read_each (\<lambda>n. some_or_throw (basic_read io n)),
      vs_exists = basic_exists, vs_has_location = basic_has_location\<rparr>"

subsection \<open>The plain layout is a vector store\<close>

definition basic_faulty :: "medium \<Rightarrow> bool" where
  "basic_faulty io \<longleftrightarrow> (\<exists>n. io n \<noteq> None)"

definition basic_inv :: "nat \<Rightarrow> medium \<Rightarrow> basic_store \<Rightarrow> bool" where
  "basic_inv dims io s \<longleftrightarrow> 0 < dims \<and> bs_dim s = dims \<and> bs_total s * dims * 4 \<le> length (bs_file s)
     \<and> length (bs_flags s) = bs_total s \<and> (bs_good s \<or> basic_faulty io)"

definition basic_view :: "basic_store \<Rightarrow> node_id \<rightharpoonup> vec" where
  "basic_view s i =
     (if unat i < bs_total s then Some (floats (pread (unat i * bs_dim s * 4) (bs_dim s * 4) (bs_file s))) else None)"

definition basic_writable :: "basic_store \<Rightarrow> node_id \<Rightarrow> bool" where
  "basic_writable s i \<longleftrightarrow> unat i < bs_total s"

lemma record_end: "i < n \<Longrightarrow> i * d * 4 + d * 4 \<le> n * d * (4 :: nat)"
proof -
  assume "i < n"
  then have "Suc i * (d * 4) \<le> n * (d * 4)" by (intro mult_le_mono1) simp
  then show ?thesis by (simp add: mult.assoc add.commute)
qed

lemma record_apart: "i \<noteq> j \<Longrightarrow> i * d * 4 + d * 4 \<le> j * d * 4 \<or> j * d * 4 + d * 4 \<le> i * d * (4 :: nat)"
  using record_end [of i j d] record_end [of j i d] by (cases "i < j") auto

lemma basic_write_ok:
  assumes inv: "basic_inv dims io s" and i: "unat i < bs_total s" and b: "length b = dims * 4"
    and w: "basic_write io (unat i * bs_dim s * 4) b s = (ok, s')"
  shows "basic_inv dims io s' \<and> bs_total s' = bs_total s \<and> bs_flags s' = bs_flags s
    \<and> (\<forall>m. m \<noteq> i \<longrightarrow> basic_view s' m = basic_view s m)
    \<and> (if ok then basic_view s' i = Some (floats b) else basic_faulty io)"
proof -
  let ?off = "unat i * bs_dim s * 4"
  note I = inv [unfolded basic_inv_def]
  have e: "?off + dims * 4 \<le> length (bs_file s)"
    using record_end [OF i, of dims] I by simp
  have other: "pread (unat m * bs_dim s * 4) (bs_dim s * 4) (patch ?off d (bs_file s))
      = pread (unat m * bs_dim s * 4) (bs_dim s * 4) (bs_file s)"
    if "m \<noteq> i" "unat m < bs_total s" "length d \<le> dims * 4" for m d
  proof -
    have "unat m \<noteq> unat i" using that(1) by (simp add: word_unat_eq_iff)
    from record_apart [OF this, of dims] record_end [OF that(2), of dims] I that(3)
    show ?thesis by (intro pread_patch_other) auto
  qed
  show ?thesis
  proof (cases "bs_good s")
    case False
    then show ?thesis using w I inv by (simp add: basic_write_def)
  next
    case good: True
    show ?thesis
    proof (cases "io (bs_clock s)")
      case None
      then have s': "s' = tick (s\<lparr>bs_file := patch ?off b (bs_file s)\<rparr>)" "ok"
        using w good by (simp_all add: basic_write_def)
      show ?thesis using I i b e other pread_patch_same [of ?off b]
        by (auto simp: s' tick_def basic_inv_def basic_view_def)
    next
      case (Some k)
      then have s': "s' = tick (s\<lparr>bs_file := patch ?off (take k b) (bs_file s), bs_good := False\<rparr>)" "\<not> ok"
        "basic_faulty io"
        using w good by (auto simp: basic_write_def basic_faulty_def)
      show ?thesis using I i b e other
        by (auto simp: s' tick_def basic_inv_def basic_view_def)
    qed
  qed
qed


lemma basic_store_encoded_ok:
  assumes inv: "basic_inv dims io s" and i: "unat i < bs_total s" and b: "length b = dims * 4"
    and w: "basic_store_encoded io i b key s = (ok, s')"
  shows "basic_inv dims io s' \<and> bs_total s' = bs_total s
    \<and> (\<forall>m. m \<noteq> i \<longrightarrow> basic_view s' m = basic_view s m \<and> basic_exists m s' = basic_exists m s)
    \<and> (if ok then basic_view s' i = Some (floats b) \<and> basic_exists i s' else basic_faulty io)"
proof -
  have d: "bs_dim s = dims" using inv by (simp add: basic_inv_def)
  obtain ok1 s1 where w1: "basic_write io (unat i * bs_dim s * 4) b s = (ok1, s1)" by force
  note W = basic_write_ok [OF inv i b w1]
  have ne: "unat m \<noteq> unat i" if "m \<noteq> i" for m using that by (simp add: word_unat_eq_iff)
  have ex: "basic_exists m s1 = basic_exists m s" for m using W by (simp add: basic_exists_def)
  show ?thesis
  proof (cases "ok1 \<and> bs_flags s1 ! unat i \<noteq> 0")
    case False
    then have "s' = s1" "ok = ok1" using w w1 i b d by (auto simp: basic_store_encoded_def split: if_splits bool.splits)
    then show ?thesis using W ex False i by (auto simp: basic_exists_def)
  next
    case True
    then have f: "writeDeleteFlag io i False s1 = (ok, s')"
      using w w1 i b d by (simp add: basic_store_encoded_def)
    have fl: "bs_flags s' = (bs_flags s1)[unat i := 0]" "bs_total s' = bs_total s1" "bs_dim s' = bs_dim s1"
      "bs_file s' = bs_file s1" "bs_good s' = bs_good s1" "\<not> ok \<Longrightarrow> basic_faulty io"
      using f by (auto simp: writeDeleteFlag_def tick_def Let_def basic_faulty_def split: option.splits)
    have v: "basic_view s' = basic_view s1" by (simp add: fun_eq_iff basic_view_def fl)
    have "basic_exists m s' = basic_exists m s1" if "m \<noteq> i" for m
      using ne [OF that] by (simp add: basic_exists_def fl)
    moreover have "basic_exists i s'" using W i inv by (simp add: basic_exists_def fl basic_inv_def)
    ultimately show ?thesis using W True ex by (auto simp: v fl basic_inv_def)
  qed
qed

lemma basic_read_ok:
  assumes inv: "basic_inv dims io s" and v: "basic_view s i = Some v" and r: "basic_read io i s = (x, s')"
  shows "basic_inv dims io s' \<and> basic_view s' = basic_view s \<and> bs_total s' = bs_total s \<and> bs_flags s' = bs_flags s
    \<and> (x = Some v \<or> basic_faulty io \<and> x = None)"
proof -
  have i: "unat i < bs_total s" using v by (simp add: basic_view_def split: if_splits)
  have e: "unat i * bs_dim s * 4 + bs_dim s * 4 \<le> length (bs_file s)"
    using record_end [OF i, of "bs_dim s"] inv by (simp add: basic_inv_def)
  show ?thesis
    using r v i e inv by (auto simp: basic_read_def Let_def basic_inv_def basic_faulty_def basic_view_def
      tick_def fun_eq_iff split: if_splits)
qed

lemma basic_reads:
  assumes "basic_inv dims io s" "basic_view s n = Some v"
  shows "wp (some_or_throw (basic_read io n)) s
    (\<lambda>r s'. r = v \<and> basic_inv dims io s' \<and> basic_view s' = basic_view s \<and> (bs_total s', bs_flags s') = (bs_total s, bs_flags s))
    (\<lambda>s'. basic_faulty io \<and> basic_inv dims io s' \<and> basic_view s' = basic_view s \<and> (bs_total s', bs_flags s') = (bs_total s, bs_flags s))"
proof -
  obtain x s' where r: "basic_read io n s = (x, s')" by force
  from basic_read_ok [OF assms r] show ?thesis by (auto simp: wp_some_or_throw r split: option.split)
qed

lemma basic_stores:
  assumes "basic_inv dims io s" "unat n < bs_total s" "length b = dims * 4"
  shows "wp (done_or_throw (basic_store_encoded io n b key)) s
    (\<lambda>_ s'. stored_store (basic_ops dims io) (basic_inv dims io) basic_view n s s'
       \<and> basic_view s' n = Some (floats b) \<and> basic_exists n s')
    (\<lambda>s'. basic_faulty io \<and> stored_store (basic_ops dims io) (basic_inv dims io) basic_view n s s')"
proof -
  obtain ok s' where w: "basic_store_encoded io n b key s = (ok, s')" by force
  from basic_store_encoded_ok [OF assms w] show ?thesis
    by (auto simp: wp_done_or_throw w stored_store_def basic_ops_def basic_writable_def)
qed

lemma basic_same:
  assumes "wp m s (\<lambda>r s'. r = v \<and> basic_inv dims io s' \<and> basic_view s' = basic_view s \<and> (bs_total s', bs_flags s') = (bs_total s, bs_flags s))
    (\<lambda>s'. basic_faulty io \<and> basic_inv dims io s' \<and> basic_view s' = basic_view s \<and> (bs_total s', bs_flags s') = (bs_total s, bs_flags s))"
  shows "wp m s (\<lambda>r s'. r = v \<and> same_store (basic_ops dims io) (basic_inv dims io) basic_view basic_writable s s')
    (\<lambda>s'. basic_faulty io \<and> same_store (basic_ops dims io) (basic_inv dims io) basic_view basic_writable s s')"
  by (rule wp_conseq [OF assms])
    (auto simp: basic_ops_def same_store_def basic_writable_def basic_exists_def fun_eq_iff)

lemma basic_vector_store:
  "vector_store (basic_ops dims io) dims (basic_faulty io) (basic_inv dims io) basic_view basic_writable"
proof (unfold_locales, goal_cases)
  case (1 s n v)
  from basic_same [OF basic_reads [OF 1]] show ?case by (simp add: basic_ops_def)
next
  case (2 s ns)
  have "wp (read_each (\<lambda>n. some_or_throw (basic_read io n)) ns) s
    (\<lambda>r s'. r = map (\<lambda>n. the (basic_view s n)) ns \<and> basic_inv dims io s' \<and> basic_view s' = basic_view s
       \<and> (bs_total s', bs_flags s') = (bs_total s, bs_flags s))
    (\<lambda>s'. basic_faulty io \<and> basic_inv dims io s' \<and> basic_view s' = basic_view s
       \<and> (bs_total s', bs_flags s') = (bs_total s, bs_flags s))"
    by (rule wp_read_each [OF basic_reads 2])
  from basic_same [OF this] show ?case by (simp add: basic_ops_def)
next
  case (3 s n)
  then show ?case by (simp add: basic_ops_def basic_has_location_def basic_view_def)
next
  case (4 s n)
  then show ?case by (simp add: basic_ops_def basic_exists_def basic_view_def)
next
  case (5 s n v)
  then show ?case using record_end [of "unat n" "bs_total s" dims]
    by (auto simp: basic_view_def length_floats basic_inv_def split: if_splits)
next
  case (6 s n v key)
  then have "basic_store_vector io n v key s = basic_store_encoded io n (float_bytes v) n s"
    by (simp add: basic_store_vector_def basic_inv_def)
  then have "done_or_throw (basic_store_vector io n v key) s = done_or_throw (basic_store_encoded io n (float_bytes v) n) s"
    by (simp add: done_or_throw_def)
  then show ?case using basic_stores [of dims io s n "float_bytes v" n] 6
    by (simp add: wp_def basic_ops_def basic_writable_def)
next
  case (7 s n b key)
  then show ?case using basic_stores [of dims io s n b key] by (simp add: basic_ops_def basic_writable_def)
next
  case (8 v)
  then show ?case by (simp add: basic_ops_def)
qed

interpretation basic: vector_store "basic_ops dims io" dims "basic_faulty io" "basic_inv dims io" basic_view basic_writable
  for dims io
  by (rule basic_vector_store)

end
