(* ===== verification/Paged_Store.thy ===== *)
theory Paged_Store
  imports Vector_Store "HOL-Library.AList"
begin

text \<open>
  \<open>PagedVectorStorage\<close> of \<open>include/disk_vector.h\<close>, the default layout of the vector file: 8-bit
  records in 4 KB pages grouped by section, one write buffer per open section, a direct-mapped page
  cache with a rotating hand. The locks are left out: every operation is one atomic step. The medium
  answers the \<open>n\<close>-th file operation: \<open>None\<close>, it works, or \<open>Some k\<close>, it fails after \<open>k\<close> bytes. Both
  file descriptors are open, as \<open>openFile\<close> leaves them, so the paths over the \<open>fstream\<close> are left
  out, and so are the pool of recycled buffers and the counters, which hold no contents.
\<close>

subsection \<open>State\<close>

definition kPageSize :: nat where "kPageSize = 4096"
definition kNumSectionShards :: nat where "kNumSectionShards = 64"

record page_meta =
  pm_section :: int
  pm_used :: nat

record write_buf =
  wb_data :: bytes
  wb_page :: nat

record section_shard =
  sh_open :: "(nat \<times> nat list) list"
  sh_free :: "(nat \<times> (nat \<times> nat) list) list"
  sh_bufs :: "(nat \<times> write_buf) list"
  sh_order :: "nat list"

record page_buf =
  pb_data :: bytes
  pb_page :: "nat option"

record paged_store =
  ps_dim :: nat
  ps_total :: nat
  ps_file :: bytes
  ps_del :: bytes
  ps_flags :: bytes
  ps_idToPage :: "int list"
  ps_idToSlot :: "nat list"
  ps_pages :: "page_meta list"
  ps_keyToIdx :: "(node_id \<times> nat) list"
  ps_idxToKey :: "node_id list"
  ps_updates :: "(node_id \<times> int \<times> nat) list"
  ps_shards :: "section_shard list"
  ps_buf_count :: nat
  ps_buf_cap :: nat
  ps_max_cached :: nat
  ps_slots :: "page_buf list"
  ps_pageToSlot :: "int list"
  ps_cached :: nat
  ps_hand :: nat
  ps_clock :: nat

type_synonym 'a ps = "(paged_store, 'a) action"

definition record_size :: "paged_store \<Rightarrow> nat" where
  "record_size s = ps_dim s + 8"

definition vectors_per_page :: "paged_store \<Rightarrow> nat" where
  "vectors_per_page s = kPageSize div record_size s"

definition slot_offset :: "paged_store \<Rightarrow> nat \<Rightarrow> nat" where
  "slot_offset s slot = slot * record_size s"

text \<open>The next answer of the medium.\<close>

definition io_step :: "medium \<Rightarrow> nat option ps" where
  "io_step io = upd (\<lambda>s. (io (ps_clock s), s\<lparr>ps_clock := ps_clock s + 1\<rparr>))"

subsection \<open>Locations\<close>

definition page_of :: "node_id \<Rightarrow> paged_store \<Rightarrow> int" where
  "page_of n s =
     (if is_direct_id n then
        if unat n < ps_total s then ps_idToPage s ! unat n
        else if unat n \<ge> length (ps_idToPage s) then - 1
        else ps_idToPage s ! unat n
      else case map_of (ps_updates s) n of None \<Rightarrow> - 1 | Some (p, _) \<Rightarrow> p)"

definition slot_of :: "node_id \<Rightarrow> paged_store \<Rightarrow> nat" where
  "slot_of n s =
     (if is_direct_id n then
        if unat n < ps_total s then ps_idToSlot s ! unat n
        else if unat n \<ge> length (ps_idToSlot s) then 0
        else ps_idToSlot s ! unat n
      else case map_of (ps_updates s) n of None \<Rightarrow> 0 | Some (_, l) \<Rightarrow> l)"

definition is_deleted_at :: "node_id \<Rightarrow> paged_store \<Rightarrow> bool" where
  "is_deleted_at n s \<longleftrightarrow> is_direct_id n \<and> unat n < ps_total s \<and> ps_flags s ! unat n \<noteq> 0"

text \<open>The capacity doubles until it suffices.\<close>

function double_to :: "nat \<Rightarrow> nat \<Rightarrow> nat" where
  "double_to t m = (if t = 0 \<or> m \<le> t then t else double_to (2 * t) m)"
  by auto

termination by (relation "measure (\<lambda>(t, m). m - t)") auto

declare double_to.simps [simp del]

definition expandCapacity :: "medium \<Rightarrow> nat \<Rightarrow> unit ps" where
  "expandCapacity io least =
     bnd (get id) (\<lambda>s.
     if least \<le> ps_total s then ret ()
     else let target = double_to (if ps_total s = 0 then least else ps_total s) least;
              grow = (\<lambda>s. s\<lparr>ps_idToPage := ps_idToPage s @ replicate (target - length (ps_idToPage s)) (- 1),
                            ps_idToSlot := ps_idToSlot s @ replicate (target - length (ps_idToSlot s)) 0,
                            ps_flags := ps_flags s @ replicate (target - length (ps_flags s)) 0,
                            ps_total := target\<rparr>)
          in bnd (if length (ps_del s) < target then
                    bnd (io_step io) (\<lambda>r.
                      if r \<noteq> None then throw
                      else modify (\<lambda>s. s\<lparr>ps_del := patch (target - 1) [0] (ps_del s)\<rparr>))
                  else ret ()) (\<lambda>_. modify grow))"

definition ensure_dense_capacity :: "medium \<Rightarrow> node_id \<Rightarrow> unit ps" where
  "ensure_dense_capacity io n =
     bnd (get ps_total) (\<lambda>total.
     if is_direct_id n \<and> unat n \<ge> total then expandCapacity io (unat n + 1) else ret ())"

definition assign_location :: "node_id \<Rightarrow> nat \<Rightarrow> nat \<Rightarrow> unit ps" where
  "assign_location n page slot =
     (if is_direct_id n then
        if page > 2 ^ 31 - 1 then throw
        else modify (\<lambda>s. s\<lparr>ps_idToPage := (ps_idToPage s)[unat n := int page],
                          ps_idToSlot := (ps_idToSlot s)[unat n := slot]\<rparr>)
      else modify (\<lambda>s. s\<lparr>ps_updates := AList.update n (int page, slot) (ps_updates s)\<rparr>))"

definition paged_writeDeleteFlag :: "medium \<Rightarrow> node_id \<Rightarrow> bool \<Rightarrow> unit ps" where
  "paged_writeDeleteFlag io n deleted =
     (let v = (if deleted then 1 else 0) in
      bnd (modify (\<lambda>s. s\<lparr>ps_flags := (ps_flags s)[unat n := v]\<rparr>)) (\<lambda>_.
      bnd (io_step io) (\<lambda>r.
        if r \<noteq> None then throw else modify (\<lambda>s. s\<lparr>ps_del := patch (unat n) [v] (ps_del s)\<rparr>))))"

definition mark_deleted_at :: "medium \<Rightarrow> node_id \<Rightarrow> bool \<Rightarrow> unit ps" where
  "mark_deleted_at io n deleted =
     bnd (get id) (\<lambda>s.
     if is_direct_id n \<and> unat n < ps_total s \<and> (ps_flags s ! unat n \<noteq> 0) \<noteq> deleted
     then paged_writeDeleteFlag io n deleted else ret ())"

subsection \<open>The page cache\<close>

definition cacheSlotOf :: "nat \<Rightarrow> paged_store \<Rightarrow> nat option" where
  "cacheSlotOf p s =
     (if p < length (ps_pageToSlot s) \<and> ps_pageToSlot s ! p \<ge> 0 then Some (nat (ps_pageToSlot s ! p)) else None)"

definition resetPageCache :: "paged_store \<Rightarrow> paged_store" where
  "resetPageCache s =
     s\<lparr>ps_slots := map (pb_page_update (\<lambda>_. None)) (ps_slots s),
       ps_pageToSlot := map (\<lambda>_. - 1) (ps_pageToSlot s), ps_cached := 0, ps_hand := 0\<rparr>"

definition setMaxCachedPages :: "nat \<Rightarrow> paged_store \<Rightarrow> paged_store" where
  "setMaxCachedPages m s =
     (let s = s\<lparr>ps_max_cached := m\<rparr>
      in if m = 0 \<or> ps_cached s > m then (resetPageCache s)\<lparr>ps_slots := []\<rparr> else s)"

definition put_slot :: "nat \<Rightarrow> (bytes \<Rightarrow> bytes) \<Rightarrow> paged_store \<Rightarrow> paged_store" where
  "put_slot c f s = s\<lparr>ps_slots := (ps_slots s)[c := pb_data_update f (ps_slots s ! c)]\<rparr>"

definition updateCacheAfterWrite :: "nat \<Rightarrow> nat \<Rightarrow> bytes \<Rightarrow> paged_store \<Rightarrow> paged_store" where
  "updateCacheAfterWrite p slot rec s =
     (if ps_max_cached s = 0 then s
      else case cacheSlotOf p s of
             None \<Rightarrow> s
           | Some c \<Rightarrow> if slot_offset s slot + record_size s > length (pb_data (ps_slots s ! c)) then s
                       else put_slot c (patch (slot_offset s slot) rec) s)"

subsection \<open>Section shards and write buffers\<close>

definition shard_of :: "paged_store \<Rightarrow> nat \<Rightarrow> section_shard" where
  "shard_of s idx = ps_shards s ! (idx mod kNumSectionShards)"

definition on_shard :: "nat \<Rightarrow> (section_shard \<Rightarrow> section_shard) \<Rightarrow> paged_store \<Rightarrow> paged_store" where
  "on_shard idx f s =
     s\<lparr>ps_shards := (ps_shards s)[idx mod kNumSectionShards := f (shard_of s idx)]\<rparr>"

definition buf_of :: "nat \<Rightarrow> paged_store \<Rightarrow> write_buf option" where
  "buf_of idx s = map_of (sh_bufs (shard_of s idx)) idx"

definition section_of_page :: "nat \<Rightarrow> paged_store \<Rightarrow> int" where
  "section_of_page p s = (if p \<ge> length (ps_pages s) then - 1 else pm_section (ps_pages s ! p))"

text \<open>The result of the page write is not looked at.\<close>

definition flushSectionWriteBuf :: "medium \<Rightarrow> write_buf \<Rightarrow> unit ps" where
  "flushSectionWriteBuf io b =
     bnd (io_step io) (\<lambda>r.
     bnd (modify (\<lambda>s. s\<lparr>ps_file := patch (wb_page b * kPageSize)
            (case r of None \<Rightarrow> wb_data b | Some k \<Rightarrow> take k (wb_data b)) (ps_file s)\<rparr>)) (\<lambda>_.
     modify (\<lambda>s. case cacheSlotOf (wb_page b) s of
                   None \<Rightarrow> s
                 | Some c \<Rightarrow> put_slot c (\<lambda>_. wb_data b) s)))"

definition drop_buf :: "nat \<Rightarrow> paged_store \<Rightarrow> paged_store" where
  "drop_buf idx s = (on_shard idx (sh_bufs_update (AList.delete idx)) s)\<lparr>ps_buf_count := ps_buf_count s - 1\<rparr>"

text \<open>Eviction over the cap: the oldest live buffer first, stale entries dropped, the section's own
  entry put back. It need not end unless another live buffer is queued.\<close>

partial_function (option) evict_loop ::
  "medium \<Rightarrow> nat \<Rightarrow> paged_store \<Rightarrow> ((unit + unit) \<times> paged_store) option" where
  "evict_loop io idx s =
     (let sh = shard_of s idx; cap = max 1 (ps_buf_cap s div kNumSectionShards) in
      case sh_order sh of
        [] \<Rightarrow> Some (Inr (), s)
      | victim # rest \<Rightarrow>
          if length (sh_bufs sh) \<le> cap then Some (Inr (), s)
          else bnd (if victim = idx then modify (on_shard idx (sh_order_update (\<lambda>_. rest @ [victim])))
                    else bnd (modify (on_shard idx (sh_order_update (\<lambda>_. rest)))) (\<lambda>_.
                         case map_of (sh_bufs sh) victim of
                           None \<Rightarrow> ret ()
                         | Some b \<Rightarrow> bnd (flushSectionWriteBuf io b) (\<lambda>_. modify (drop_buf victim))))
                 (\<lambda>_. evict_loop io idx) s)"

definition newSectionBuffer :: "medium \<Rightarrow> nat \<Rightarrow> nat \<Rightarrow> unit ps" where
  "newSectionBuffer io idx p =
     bnd (modify (\<lambda>s. (on_shard idx (sh_bufs_update (AList.update idx
            \<lparr>wb_data = replicate kPageSize 0, wb_page = p\<rparr>)) s)\<lparr>ps_buf_count := ps_buf_count s + 1\<rparr>)) (\<lambda>_.
     bnd (get ps_buf_cap) (\<lambda>cap.
     if cap > 0 then bnd (modify (on_shard idx (sh_order_update (\<lambda>l. l @ [idx])))) (\<lambda>_. evict_loop io idx)
     else ret ()))"

text \<open>False: the buffer does not hold the page and the write starts inside it.\<close>

definition writeToSectionBuffer :: "medium \<Rightarrow> nat \<Rightarrow> nat \<Rightarrow> nat \<Rightarrow> bytes \<Rightarrow> bool ps" where
  "writeToSectionBuffer io idx p slot rec =
     bnd (get (buf_of idx)) (\<lambda>b.
     if (case b of None \<Rightarrow> True | Some b \<Rightarrow> wb_page b \<noteq> p) \<and> slot \<noteq> 0 then ret False
     else
       bnd (if b = None then newSectionBuffer io idx p else ret ()) (\<lambda>_.
       bnd (case b of
              None \<Rightarrow> ret ()
            | Some b \<Rightarrow>
                if wb_page b \<noteq> p then
                  bnd (flushSectionWriteBuf io b) (\<lambda>_.
                  modify (on_shard idx (sh_bufs_update (AList.update idx
                    \<lparr>wb_data = replicate kPageSize 0, wb_page = p\<rparr>))))
                else ret ()) (\<lambda>_.
       bnd (modify (\<lambda>s. on_shard idx (sh_bufs_update (AList.map_entry idx
              (wb_data_update (patch (slot_offset s slot) rec)))) s)) (\<lambda>_.
       bnd (get id) (\<lambda>s.
       bnd (if slot + 1 \<ge> vectors_per_page s then
              (case buf_of idx s of
                 None \<Rightarrow> ret ()
               | Some b \<Rightarrow> bnd (flushSectionWriteBuf io b) (\<lambda>_. modify (drop_buf idx)))
            else ret ()) (\<lambda>_.
       bnd (modify (updateCacheAfterWrite p slot rec)) (\<lambda>_.
       ret True)))))))"

text \<open>\<open>overlayWriteBuf\<close> and the two \<open>tryReadFromWriteBuf\<close>: the buffer that holds a page.\<close>

definition page_buffer :: "nat \<Rightarrow> paged_store \<Rightarrow> bytes option" where
  "page_buffer p s =
     (if ps_buf_count s = 0 then None
      else if section_of_page p s < 0 then None
      else case buf_of (nat (section_of_page p s)) s of
             None \<Rightarrow> None
           | Some b \<Rightarrow> if wb_page b \<noteq> p then None else Some (wb_data b))"

definition overlayWriteBuf :: "nat \<Rightarrow> bytes \<Rightarrow> paged_store \<Rightarrow> bytes" where
  "overlayWriteBuf p d s = (case page_buffer p s of None \<Rightarrow> d | Some b \<Rightarrow> b)"

definition tryReadFromWriteBuf :: "float_ops \<Rightarrow> nat \<Rightarrow> nat \<Rightarrow> paged_store \<Rightarrow> vec option" where
  "tryReadFromWriteBuf F p slot s =
     map_option (\<lambda>d. disk_dequantize F (pread (slot_offset s slot) (record_size s) d)) (page_buffer p s)"

subsection \<open>Loading pages\<close>

text \<open>A short or failed read leaves zeros.\<close>

definition read_page :: "medium \<Rightarrow> nat \<Rightarrow> bytes ps" where
  "read_page io p =
     bnd (io_step io) (\<lambda>r.
     get (\<lambda>s. zero_fill kPageSize
       (case r of None \<Rightarrow> pread (p * kPageSize) kPageSize (ps_file s)
                | Some k \<Rightarrow> take k (pread (p * kPageSize) kPageSize (ps_file s)))))"

definition publish_page :: "nat \<Rightarrow> bytes \<Rightarrow> paged_store \<Rightarrow> paged_store" where
  "publish_page p d s =
     (let c = (if ps_cached s < ps_max_cached s then ps_cached s else ps_hand s);
          s1 = (if ps_cached s < ps_max_cached s
                then s\<lparr>ps_cached := ps_cached s + 1,
                       ps_slots := ps_slots s @ replicate (ps_cached s + 1 - length (ps_slots s)) \<lparr>pb_data = [], pb_page = None\<rparr>\<rparr>
                else (case pb_page (ps_slots s ! ps_hand s) of
                        None \<Rightarrow> s
                      | Some v \<Rightarrow> if v < length (ps_pageToSlot s)
                                  then s\<lparr>ps_pageToSlot := (ps_pageToSlot s)[v := - 1]\<rparr> else s)
                     \<lparr>ps_hand := (ps_hand s + 1) mod ps_max_cached s\<rparr>);
          s2 = s1\<lparr>ps_slots := (ps_slots s1)[c := \<lparr>pb_data = d, pb_page = Some p\<rparr>]\<rparr>;
          s3 = (if p \<ge> length (ps_pageToSlot s2)
                then s2\<lparr>ps_pageToSlot := ps_pageToSlot s2 @ replicate (p + 1024 - length (ps_pageToSlot s2)) (- 1)\<rparr> else s2)
      in s3\<lparr>ps_pageToSlot := (ps_pageToSlot s3)[p := int c]\<rparr>)"

definition loadPageToCache :: "medium \<Rightarrow> nat \<Rightarrow> unit ps" where
  "loadPageToCache io p =
     bnd (get id) (\<lambda>s.
     if ps_max_cached s = 0 then ret ()
     else if cacheSlotOf p s \<noteq> None then ret ()
     else bnd (read_page io p) (\<lambda>d. modify (\<lambda>s. publish_page p (overlayWriteBuf p d s) s)))"

definition tryReadFromCache :: "float_ops \<Rightarrow> nat \<Rightarrow> nat \<Rightarrow> paged_store \<Rightarrow> vec option" where
  "tryReadFromCache F p slot s =
     (if ps_max_cached s = 0 then None
      else case cacheSlotOf p s of
             None \<Rightarrow> None
           | Some c \<Rightarrow>
               if slot_offset s slot + record_size s > length (pb_data (ps_slots s ! c)) then None
               else Some (disk_dequantize F (pread (slot_offset s slot) (record_size s) (pb_data (ps_slots s ! c)))))"

text \<open>\<open>directReadRecord\<close> looks at no result: a short read leaves zeros in the buffer.\<close>

definition directReadRecord :: "float_ops \<Rightarrow> medium \<Rightarrow> nat \<Rightarrow> nat \<Rightarrow> vec ps" where
  "directReadRecord F io p slot =
     bnd (get (tryReadFromWriteBuf F p slot)) (\<lambda>hit.
     case hit of
       Some v \<Rightarrow> ret v
     | None \<Rightarrow>
         bnd (io_step io) (\<lambda>r.
         get (\<lambda>s. let d = pread (p * kPageSize + slot_offset s slot) (record_size s) (ps_file s)
                  in disk_dequantize F (zero_fill (record_size s) (case r of None \<Rightarrow> d | Some k \<Rightarrow> take k d)))))"

text \<open>Short writes are continued; a failure throws after the bytes written so far.\<close>

definition writeRecord :: "medium \<Rightarrow> nat \<Rightarrow> nat \<Rightarrow> bytes \<Rightarrow> unit ps" where
  "writeRecord io p slot rec =
     bnd (io_step io) (\<lambda>r.
     bnd (modify (\<lambda>s. s\<lparr>ps_file := patch (p * kPageSize + slot_offset s slot)
            (case r of None \<Rightarrow> rec | Some k \<Rightarrow> take k rec) (ps_file s)\<rparr>)) (\<lambda>_.
     if r \<noteq> None then throw else ret ()))"

subsection \<open>Slot allocation\<close>

definition section_index :: "node_id \<Rightarrow> nat ps" where
  "section_index key = upd (\<lambda>s.
     case map_of (ps_keyToIdx s) key of
       Some i \<Rightarrow> (i, s)
     | None \<Rightarrow> (length (ps_idxToKey s),
                s\<lparr>ps_keyToIdx := AList.update key (length (ps_idxToKey s)) (ps_keyToIdx s),
                  ps_idxToKey := ps_idxToKey s @ [key]\<rparr>))"

definition list_at :: "nat \<Rightarrow> (nat \<times> 'a list) list \<Rightarrow> 'a list" where
  "list_at idx m = (case map_of m idx of None \<Rightarrow> [] | Some l \<Rightarrow> l)"

text \<open>A free slot of the section, else the next slot of its last open page.\<close>

definition take_free :: "nat \<Rightarrow> (nat \<times> nat) option ps" where
  "take_free idx = upd (\<lambda>s.
     let free = list_at idx (sh_free (shard_of s idx)) in
     if free \<noteq> [] then (Some (last free), on_shard idx (sh_free_update (AList.update idx (butlast free))) s)
     else let opens = list_at idx (sh_open (shard_of s idx)) in
       if opens = [] then (None, s)
       else let p = last opens; used = pm_used (ps_pages s ! p) in
         if used < vectors_per_page s then
           (Some (p, used),
            (on_shard idx (sh_open_update (AList.update idx
               (if used + 1 < vectors_per_page s then opens else butlast opens))) s)
            \<lparr>ps_pages := (ps_pages s)[p := (ps_pages s ! p)\<lparr>pm_used := used + 1\<rparr>]\<rparr>)
         else (None, on_shard idx (sh_open_update (AList.update idx (butlast opens))) s))"

definition ensurePageAllocated :: "medium \<Rightarrow> nat \<Rightarrow> unit ps" where
  "ensurePageAllocated io p =
     bnd (get (length \<circ> ps_file)) (\<lambda>size.
     if size < (p + 1) * kPageSize then
       bnd (io_step io) (\<lambda>r. case r of
         None \<Rightarrow> modify (\<lambda>s. s\<lparr>ps_file := patch ((p + 1) * kPageSize - 1) [0] (ps_file s)\<rparr>)
       | Some _ \<Rightarrow> ret ())
     else ret ())"

definition fresh_page :: "medium \<Rightarrow> nat \<Rightarrow> nat ps" where
  "fresh_page io idx =
     bnd (get (length \<circ> ps_pages)) (\<lambda>p.
     bnd (modify (\<lambda>s. s\<lparr>ps_pages := ps_pages s @ [\<lparr>pm_section = int idx, pm_used = 1\<rparr>]\<rparr>)) (\<lambda>_.
     bnd (ensurePageAllocated io p) (\<lambda>_.
     bnd (modify (\<lambda>s. if vectors_per_page s > 1
            then on_shard idx (sh_open_update (\<lambda>m. AList.update idx (list_at idx m @ [p]) m)) s else s)) (\<lambda>_.
     ret p))))"

definition allocateSlotForSection :: "medium \<Rightarrow> node_id \<Rightarrow> (nat \<times> nat \<times> nat) ps" where
  "allocateSlotForSection io key =
     bnd (section_index key) (\<lambda>idx.
     bnd (take_free idx) (\<lambda>r.
     case r of
       Some (p, slot) \<Rightarrow> ret (p, slot, idx)
     | None \<Rightarrow> bnd (fresh_page io idx) (\<lambda>p. ret (p, 0, idx))))"

subsection \<open>The interface\<close>

definition paged_store_encoded :: "medium \<Rightarrow> node_id \<Rightarrow> bytes \<Rightarrow> node_id \<Rightarrow> unit ps" where
  "paged_store_encoded io n rec key =
     bnd (ensure_dense_capacity io n) (\<lambda>_.
     bnd (get (\<lambda>s. (page_of n s, slot_of n s))) (\<lambda>(cur, slot).
     if cur \<ge> 0 then
       bnd (writeRecord io (nat cur) slot rec) (\<lambda>_.
       bnd (modify (updateCacheAfterWrite (nat cur) slot rec)) (\<lambda>_.
       mark_deleted_at io n False))
     else
       bnd (allocateSlotForSection io key) (\<lambda>(p, slot, idx).
       bnd (writeToSectionBuffer io idx p slot rec) (\<lambda>done.
       bnd (if done then ret ()
            else bnd (writeRecord io p slot rec) (\<lambda>_. modify (updateCacheAfterWrite p slot rec))) (\<lambda>_.
       bnd (mark_deleted_at io n False) (\<lambda>_.
       assign_location n p slot))))))"

definition paged_store_vector :: "float_ops \<Rightarrow> medium \<Rightarrow> node_id \<Rightarrow> vec \<Rightarrow> node_id \<Rightarrow> unit ps" where
  "paged_store_vector F io n v key =
     bnd (get ps_dim) (\<lambda>d.
     if length v \<noteq> d then throw else paged_store_encoded io n (disk_quantize F v) key)"

definition paged_has_location :: "node_id \<Rightarrow> paged_store \<Rightarrow> bool" where
  "paged_has_location n s \<longleftrightarrow> page_of n s \<ge> 0"

definition paged_exists :: "node_id \<Rightarrow> paged_store \<Rightarrow> bool" where
  "paged_exists n s \<longleftrightarrow> \<not> is_deleted_at n s \<and> page_of n s \<ge> 0"

definition readDirect :: "float_ops \<Rightarrow> medium \<Rightarrow> nat \<Rightarrow> nat \<Rightarrow> vec ps" where
  "readDirect F io p slot =
     bnd (io_step io) (\<lambda>r.
     bnd (get (\<lambda>s. (pread (p * kPageSize + slot_offset s slot) (record_size s) (ps_file s), record_size s))) (\<lambda>(d, n).
     if r \<noteq> None \<or> length d \<noteq> n then throw else ret (disk_dequantize F d)))"

definition paged_read :: "float_ops \<Rightarrow> medium \<Rightarrow> node_id \<Rightarrow> vec ps" where
  "paged_read F io n =
     bnd (get (\<lambda>s. (page_of n s, slot_of n s))) (\<lambda>(cur, slot).
     if cur < 0 then throw
     else let p = nat cur in
       bnd (get (tryReadFromWriteBuf F p slot)) (\<lambda>hit.
       case hit of Some v \<Rightarrow> ret v | None \<Rightarrow>
       bnd (get (tryReadFromCache F p slot)) (\<lambda>hit.
       case hit of Some v \<Rightarrow> ret v | None \<Rightarrow>
       bnd (loadPageToCache io p) (\<lambda>_.
       bnd (get (tryReadFromCache F p slot)) (\<lambda>hit.
       case hit of Some v \<Rightarrow> ret v | None \<Rightarrow> readDirect F io p slot)))))"

text \<open>The batch read in its passes: the write buffers, the cache, then the missing pages in page order.
  An entry of \<open>miss\<close> is an index of the output with its page and slot.\<close>

type_synonym miss = "nat \<times> nat \<times> nat"

definition batch_buffers :: "float_ops \<Rightarrow> node_id list \<Rightarrow> (vec list \<times> miss list) ps" where
  "batch_buffers F ns =
     for_each (zip [0..<length ns] ns) (\<lambda>(i, n) (out, miss).
       bnd (get (\<lambda>s. (page_of n s, slot_of n s))) (\<lambda>(cur, slot).
       if cur < 0 then throw
       else bnd (get (tryReadFromWriteBuf F (nat cur) slot)) (\<lambda>hit.
            ret (case hit of Some v \<Rightarrow> (out[i := v], miss) | None \<Rightarrow> (out, miss @ [(i, nat cur, slot)])))))
       (replicate (length ns) [], [])"

definition cached_record :: "float_ops \<Rightarrow> nat \<Rightarrow> nat \<Rightarrow> paged_store \<Rightarrow> vec option" where
  "cached_record F p slot s =
     map_option (\<lambda>c. disk_dequantize F (pread (slot_offset s slot) (record_size s) (pb_data (ps_slots s ! c)))) (cacheSlotOf p s)"

definition batch_cached :: "float_ops \<Rightarrow> vec list \<times> miss list \<Rightarrow> (vec list \<times> miss list) ps" where
  "batch_cached F om =
     for_each (snd om) (\<lambda>(i, p, slot) (out, miss).
       bnd (get (\<lambda>s. if ps_max_cached s > 0 then cached_record F p slot s else None)) (\<lambda>hit.
       ret (case hit of Some v \<Rightarrow> (out[i := v], miss) | None \<Rightarrow> (out, miss @ [(i, p, slot)])))) (fst om, [])"

definition batch_load :: "float_ops \<Rightarrow> medium \<Rightarrow> vec list \<times> miss list \<Rightarrow> vec list ps" where
  "batch_load F io om =
     (let miss = sort_key (\<lambda>(i, p, slot). p) (snd om) in
      bnd (for_each (remdups_adj (map (\<lambda>(i, p, slot). p) miss)) (\<lambda>p _. loadPageToCache io p) ()) (\<lambda>_.
      for_each miss (\<lambda>(i, p, slot) out.
        bnd (get (cached_record F p slot)) (\<lambda>hit.
        case hit of
          Some v \<Rightarrow> ret (out[i := v])
        | None \<Rightarrow> bnd (directReadRecord F io p slot) (\<lambda>v. ret (out[i := v])))) (fst om)))"

definition paged_read_batch :: "float_ops \<Rightarrow> medium \<Rightarrow> node_id list \<Rightarrow> vec list ps" where
  "paged_read_batch F io ns =
     bnd (batch_buffers F ns) (\<lambda>om.
     if snd om = [] then ret (fst om)
     else bnd (batch_cached F om) (\<lambda>om.
     if snd om = [] then ret (fst om) else batch_load F io om))"

definition paged_prefetch :: "medium \<Rightarrow> node_id list \<Rightarrow> unit ps" where
  "paged_prefetch io ns =
     bnd (get id) (\<lambda>s.
     if ps_max_cached s = 0 then ret ()
     else for_each (remdups (map (\<lambda>n. nat (page_of n s)) (filter (\<lambda>n. page_of n s \<ge> 0) ns)))
            (\<lambda>p _. loadPageToCache io p) ())"

text \<open>\<open>readVectorsBatch\<close>: page by page, every page loaded once. \<open>unordered_map\<close> fixes no order of the
  pages; the model takes them as they come.\<close>

definition readVectorsBatch :: "float_ops \<Rightarrow> medium \<Rightarrow> node_id list \<Rightarrow> vec list ps" where
  "readVectorsBatch F io ns =
     bnd (get id) (\<lambda>s.
     if \<exists>n \<in> set ns. page_of n s < 0 then throw
     else for_each (remdups (map (\<lambda>n. nat (page_of n s)) ns)) (\<lambda>p out.
            bnd (loadPageToCache io p) (\<lambda>_.
            for_each (filter (\<lambda>i. nat (page_of (ns ! i) s) = p) [0..<length ns]) (\<lambda>i out.
              bnd (get (tryReadFromCache F p (slot_of (ns ! i) s))) (\<lambda>hit.
              case hit of
                Some v \<Rightarrow> ret (out[i := v])
              | None \<Rightarrow> bnd (directReadRecord F io p (slot_of (ns ! i) s)) (\<lambda>v. ret (out[i := v])))) out))
          (replicate (length ns) []))"

text \<open>\<open>deleteVector\<close> does nothing: the index keeps the tombstones.\<close>

definition paged_deleteVector :: "node_id \<Rightarrow> unit ps" where
  "paged_deleteVector n = ret ()"

text \<open>\<open>flushWrites\<close> shard by shard; \<open>syncData\<close> reports the two \<open>fsync\<close> calls only.\<close>

definition flush_shard :: "medium \<Rightarrow> nat \<Rightarrow> unit ps" where
  "flush_shard io i =
     bnd (get (\<lambda>s. map snd (sh_bufs (ps_shards s ! i)))) (\<lambda>bs.
     bnd (for_each bs (\<lambda>b _. flushSectionWriteBuf io b) ()) (\<lambda>_.
     modify (\<lambda>s. s\<lparr>ps_shards := (ps_shards s)[i := (ps_shards s ! i)\<lparr>sh_bufs := [], sh_order := []\<rparr>]\<rparr>)))"

definition flushWrites :: "medium \<Rightarrow> unit ps" where
  "flushWrites io =
     bnd (for_each [0..<kNumSectionShards] (\<lambda>i _. flush_shard io i) ()) (\<lambda>_.
     modify (ps_buf_count_update (\<lambda>_. 0)))"

definition syncData :: "medium \<Rightarrow> bool ps" where
  "syncData io =
     bnd (flushWrites io) (\<lambda>_. bnd (io_step io) (\<lambda>r1.
     if r1 \<noteq> None then ret False else bnd (io_step io) (\<lambda>r2. ret (r2 = None))))"

text \<open>The constructor on the contents of the two files.\<close>

definition paged_open :: "nat \<Rightarrow> nat \<Rightarrow> nat \<Rightarrow> nat \<Rightarrow> bytes \<Rightarrow> bytes \<Rightarrow> paged_store option" where
  "paged_open dims capacity cached_pages buf_cap file del =
     (if dims = 0 \<or> dims + 8 > kPageSize then None
      else let d = ensureDeleteFileSize capacity del in
        Some \<lparr>ps_dim = dims, ps_total = capacity, ps_file = file, ps_del = d, ps_flags = take capacity d,
              ps_idToPage = replicate capacity (- 1), ps_idToSlot = replicate capacity 0,
              ps_pages = [], ps_keyToIdx = [], ps_idxToKey = [], ps_updates = [],
              ps_shards = replicate kNumSectionShards \<lparr>sh_open = [], sh_free = [], sh_bufs = [], sh_order = []\<rparr>,
              ps_buf_count = 0, ps_buf_cap = buf_cap, ps_max_cached = cached_pages,
              ps_slots = [], ps_pageToSlot = [], ps_cached = 0, ps_hand = 0, ps_clock = 0\<rparr>)"

definition paged_ops :: "nat \<Rightarrow> float_ops \<Rightarrow> medium \<Rightarrow> paged_store vstore" where
  "paged_ops dims F io =
     \<lparr>vs_store = paged_store_vector F io, vs_store_encoded = paged_store_encoded io,
      vs_record_size = dims + 8, vs_encode = disk_quantize F, vs_decode = disk_dequantize F,
      vs_read = paged_read F io, vs_read_batch = paged_read_batch F io,
      vs_exists = paged_exists, vs_has_location = paged_has_location\<rparr>"

end
