(* ===== verification/Paged_Refine.thy ===== *)
theory Paged_Refine
  imports Paged_Store
begin

text \<open>
  On a medium that works the paged store is a map from ids to decoded records. \<open>page_bytes\<close> is the
  content of a page: its write buffer if one holds it, else the file. The invariant says that located
  slots are pairwise different and in use, that a buffer belongs to the section of its page and is
  queued for eviction, and that a cached page equals the page; while a record is on its way
  (\<open>patched\<close>) the cached copy may still miss it.
\<close>

definition steady :: "medium \<Rightarrow> bool" where
  "steady io \<longleftrightarrow> (\<forall>n. io n = None)"

subsection \<open>Patches of pages\<close>

lemma pread_inside:
  assumes "off + length d \<le> n" "a + n \<le> length f"
  shows "pread a n (patch (a + off) d f) = patch off d (pread a n f)"
  using assms by (intro nth_equalityI) (auto simp: nth_pread nth_patch)

lemma patch_again:
  "off + length d \<le> length f \<Longrightarrow> patch off d (patch off d f) = patch off d f"
  by (intro nth_equalityI) (auto simp: nth_patch)

lemma patch_whole: "length d = length f \<Longrightarrow> patch 0 d f = d"
  by (simp add: patch_def zero_fill_def)

lemma zero_fill_full [simp]: "n \<le> length f \<Longrightarrow> zero_fill n f = f"
  by (simp add: zero_fill_def)

lemma pages_apart: "p \<noteq> q \<Longrightarrow> p * k + k \<le> q * k \<or> q * k + k \<le> p * (k :: nat)"
proof -
  assume "p \<noteq> q"
  then have "Suc p \<le> q \<or> Suc q \<le> p" by auto
  then have "Suc p * k \<le> q * k \<or> Suc q * k \<le> p * k" using mult_le_mono1 by blast
  then show ?thesis by (simp add: add.commute)
qed

lemma page_end: "p < n \<Longrightarrow> p * k + k \<le> n * (k :: nat)"
proof -
  assume "p < n"
  then have "Suc p * k \<le> n * k" by (intro mult_le_mono1) simp
  then show ?thesis by (simp add: add.commute)
qed

lemma kPageSize_pos [simp]: "0 < kPageSize"
  by (simp add: kPageSize_def)

lemma kNumSectionShards_pos [simp]: "0 < kNumSectionShards"
  by (simp add: kNumSectionShards_def)

subsection \<open>Shards\<close>

definition shards_ok :: "paged_store \<Rightarrow> bool" where
  "shards_ok s \<longleftrightarrow> length (ps_shards s) = kNumSectionShards"

lemma shard_of_on_shard:
  "shards_ok s \<Longrightarrow> shard_of (on_shard i f s) j
     = (if j mod kNumSectionShards = i mod kNumSectionShards then f (shard_of s i) else shard_of s j)"
  by (auto simp: shard_of_def on_shard_def shards_ok_def)

lemma shards_ok_on_shard [simp]: "shards_ok (on_shard i f s) = shards_ok s"
  by (simp add: shards_ok_def on_shard_def)

lemma on_shard_fields [simp]:
  "ps_dim (on_shard i f s) = ps_dim s" "ps_total (on_shard i f s) = ps_total s" "ps_file (on_shard i f s) = ps_file s"
  "ps_del (on_shard i f s) = ps_del s" "ps_flags (on_shard i f s) = ps_flags s"
  "ps_idToPage (on_shard i f s) = ps_idToPage s" "ps_idToSlot (on_shard i f s) = ps_idToSlot s"
  "ps_pages (on_shard i f s) = ps_pages s" "ps_updates (on_shard i f s) = ps_updates s"
  "ps_keyToIdx (on_shard i f s) = ps_keyToIdx s" "ps_idxToKey (on_shard i f s) = ps_idxToKey s"
  "ps_buf_count (on_shard i f s) = ps_buf_count s" "ps_buf_cap (on_shard i f s) = ps_buf_cap s"
  "ps_max_cached (on_shard i f s) = ps_max_cached s" "ps_slots (on_shard i f s) = ps_slots s"
  "ps_pageToSlot (on_shard i f s) = ps_pageToSlot s" "ps_cached (on_shard i f s) = ps_cached s"
  "ps_hand (on_shard i f s) = ps_hand s" "ps_clock (on_shard i f s) = ps_clock s"
  by (simp_all add: on_shard_def)

definition total_bufs :: "paged_store \<Rightarrow> nat" where
  "total_bufs s = sum_list (map (length \<circ> sh_bufs) (ps_shards s))"

lemma total_bufs_on_shard:
  assumes "shards_ok s"
  shows "total_bufs (on_shard i f s) + length (sh_bufs (shard_of s i)) = total_bufs s + length (sh_bufs (f (shard_of s i)))"
proof -
  let ?i = "i mod kNumSectionShards" and ?l = "map (length \<circ> sh_bufs) (ps_shards s)"
  have i: "?i < length ?l" using assms by (simp add: shards_ok_def)
  then have "?l ! ?i \<le> sum_list ?l" by (rule elem_le_sum_list)
  moreover have "total_bufs (on_shard i f s) = sum_list (?l[?i := length (sh_bufs (f (shard_of s i)))])"
    by (simp add: total_bufs_def on_shard_def map_update)
  ultimately show ?thesis using sum_list_update [OF i] i by (simp add: total_bufs_def shard_of_def)
qed

lemma total_bufs_zero:
  assumes "shards_ok s" "total_bufs s = 0"
  shows "sh_bufs (shard_of s i) = []"
proof -
  have "length (sh_bufs (shard_of s i)) \<in> set (map (length \<circ> sh_bufs) (ps_shards s))"
    using assms(1) by (force simp: shard_of_def shards_ok_def)
  then show ?thesis using assms(2) by (auto simp: total_bufs_def sum_list_eq_0_iff)
qed

subsection \<open>The content of pages\<close>

definition holding :: "paged_store \<Rightarrow> nat \<Rightarrow> bytes option" where
  "holding s p =
     (if section_of_page p s < 0 then None
      else case buf_of (nat (section_of_page p s)) s of
             None \<Rightarrow> None
           | Some b \<Rightarrow> if wb_page b \<noteq> p then None else Some (wb_data b))"

definition page_bytes :: "paged_store \<Rightarrow> nat \<Rightarrow> bytes" where
  "page_bytes s p = (case holding s p of Some d \<Rightarrow> d | None \<Rightarrow> pread (p * kPageSize) kPageSize (ps_file s))"

definition loc :: "paged_store \<Rightarrow> node_id \<Rightarrow> nat \<times> nat" where
  "loc s n = (nat (page_of n s), slot_of n s)"

definition rec_at :: "paged_store \<Rightarrow> nat \<Rightarrow> nat \<Rightarrow> bytes" where
  "rec_at s p l = pread (slot_offset s l) (record_size s) (page_bytes s p)"

definition paged_view :: "float_ops \<Rightarrow> paged_store \<Rightarrow> node_id \<rightharpoonup> vec" where
  "paged_view F s n =
     (if page_of n s \<ge> 0 then Some (disk_dequantize F (rec_at s (nat (page_of n s)) (slot_of n s))) else None)"

definition paged_writable :: "paged_store \<Rightarrow> node_id \<Rightarrow> bool" where
  "paged_writable s n \<longleftrightarrow> page_of n s < 0 \<and> length (ps_pages s) < 2 ^ 31"

subsection \<open>The invariant\<close>

definition geometry :: "paged_store \<Rightarrow> bool" where
  "geometry s \<longleftrightarrow> 0 < ps_dim s \<and> record_size s \<le> kPageSize
     \<and> length (ps_idToPage s) = ps_total s \<and> length (ps_idToSlot s) = ps_total s \<and> length (ps_flags s) = ps_total s"

definition locs_ok :: "paged_store \<Rightarrow> bool" where
  "locs_ok s \<longleftrightarrow>
     (\<forall>n. page_of n s \<ge> 0 \<longrightarrow> nat (page_of n s) < length (ps_pages s) \<and> slot_of n s < pm_used (ps_pages s ! nat (page_of n s)))
   \<and> (\<forall>n m. page_of n s \<ge> 0 \<longrightarrow> page_of m s \<ge> 0 \<longrightarrow> loc s n = loc s m \<longrightarrow> n = m)"

definition pages_ok :: "paged_store \<Rightarrow> bool" where
  "pages_ok s \<longleftrightarrow> length (ps_pages s) * kPageSize \<le> length (ps_file s)
     \<and> (\<forall>p < length (ps_pages s). 1 \<le> pm_used (ps_pages s ! p) \<and> pm_used (ps_pages s ! p) \<le> vectors_per_page s
          \<and> 0 \<le> pm_section (ps_pages s ! p))"

definition buf_fits :: "paged_store \<Rightarrow> nat \<Rightarrow> write_buf \<Rightarrow> bool" where
  "buf_fits s k b \<longleftrightarrow> wb_page b < length (ps_pages s) \<and> pm_section (ps_pages s ! wb_page b) = int k
     \<and> length (wb_data b) = kPageSize"

definition shard_fits :: "paged_store \<Rightarrow> nat \<Rightarrow> section_shard \<Rightarrow> bool" where
  "shard_fits s i sh \<longleftrightarrow> distinct (map fst (sh_bufs sh))
   \<and> (\<forall>k b. map_of (sh_bufs sh) k = Some b \<longrightarrow> k mod kNumSectionShards = i mod kNumSectionShards
        \<and> buf_fits s k b \<and> (0 < ps_buf_cap s \<longrightarrow> k \<in> set (sh_order sh)))
   \<and> (\<forall>k \<in> set (sh_order sh). k mod kNumSectionShards = i mod kNumSectionShards)"

definition bufs_ok :: "paged_store \<Rightarrow> bool" where
  "bufs_ok s \<longleftrightarrow> shards_ok s \<and> total_bufs s \<le> ps_buf_count s \<and> (\<forall>i. shard_fits s i (shard_of s i))"

definition lists_ok :: "paged_store \<Rightarrow> bool" where
  "lists_ok s \<longleftrightarrow>
     (\<forall>i p. p \<in> set (list_at i (sh_open (shard_of s i))) \<longrightarrow> p < length (ps_pages s) \<and> pm_section (ps_pages s ! p) = int i)
   \<and> (\<forall>i p l. (p, l) \<in> set (list_at i (sh_free (shard_of s i))) \<longrightarrow> p < length (ps_pages s) \<and> pm_section (ps_pages s ! p) = int i
        \<and> l \<noteq> 0 \<and> l < pm_used (ps_pages s ! p) \<and> (\<forall>n. page_of n s \<ge> 0 \<longrightarrow> loc s n \<noteq> (p, l)))
   \<and> (\<forall>i. distinct (list_at i (sh_free (shard_of s i))))"

definition page_cache_ok :: "(nat \<Rightarrow> bytes \<Rightarrow> bytes) \<Rightarrow> paged_store \<Rightarrow> bool" where
  "page_cache_ok fx s \<longleftrightarrow> ps_cached s \<le> length (ps_slots s) \<and> ps_cached s \<le> ps_max_cached s
   \<and> (0 < ps_max_cached s \<longrightarrow> ps_hand s < ps_max_cached s)
   \<and> (\<forall>p c. cacheSlotOf p s = Some c \<longrightarrow> c < ps_cached s \<and> p < length (ps_pages s) \<and> pb_page (ps_slots s ! c) = Some p
        \<and> length (pb_data (ps_slots s ! c)) = kPageSize \<and> fx p (pb_data (ps_slots s ! c)) = page_bytes s p)"

definition paged_inv :: "medium \<Rightarrow> (nat \<Rightarrow> bytes \<Rightarrow> bytes) \<Rightarrow> paged_store \<Rightarrow> bool" where
  "paged_inv io fx s \<longleftrightarrow> steady io \<and> geometry s \<and> locs_ok s \<and> pages_ok s \<and> bufs_ok s \<and> lists_ok s \<and> page_cache_ok fx s"

definition unpatched :: "nat \<Rightarrow> bytes \<Rightarrow> bytes" where
  "unpatched p d = d"

definition patched :: "nat \<Rightarrow> nat \<Rightarrow> bytes \<Rightarrow> nat \<Rightarrow> bytes \<Rightarrow> bytes" where
  "patched q off rec p d = (if p = q then patch off rec d else d)"

subsection \<open>Consequences\<close>

lemma page_buffer_holding: "bufs_ok s \<Longrightarrow> page_buffer p s = holding s p"
  using total_bufs_zero [of s] by (auto simp: bufs_ok_def page_buffer_def holding_def buf_of_def)

lemma holding_buf:
  "holding s p = Some d \<longleftrightarrow> (\<exists>b. 0 \<le> section_of_page p s \<and> buf_of (nat (section_of_page p s)) s = Some b
     \<and> wb_page b = p \<and> wb_data b = d)"
  by (auto simp: holding_def split: option.splits)

lemma buf_fits_of: "bufs_ok s \<Longrightarrow> buf_of k s = Some b \<Longrightarrow> buf_fits s k b"
  unfolding bufs_ok_def shard_fits_def buf_of_def by blast

lemma holding_of_buf:
  assumes "bufs_ok s" "buf_of k s = Some b"
  shows "holding s (wb_page b) = Some (wb_data b)"
  using buf_fits_of [OF assms] assms(2) by (simp add: holding_def section_of_page_def buf_fits_def)

lemma page_in_file:
  assumes "pages_ok s" "p < length (ps_pages s)"
  shows "p * kPageSize + kPageSize \<le> length (ps_file s)"
proof -
  have "length (ps_pages s) * kPageSize \<le> length (ps_file s)" using assms(1) by (simp add: pages_ok_def)
  with page_end [OF assms(2)] show ?thesis by (rule order_trans)
qed

lemma length_page_bytes:
  assumes "bufs_ok s" "pages_ok s" "p < length (ps_pages s)"
  shows "length (page_bytes s p) = kPageSize"
proof (cases "holding s p")
  case None
  then show ?thesis using page_in_file [OF assms(2,3)] by (simp add: page_bytes_def)
next
  case (Some d)
  then obtain b where "buf_of (nat (section_of_page p s)) s = Some b" "wb_data b = d" by (auto simp: holding_buf)
  then show ?thesis using buf_fits_of [OF assms(1)] Some by (auto simp: page_bytes_def buf_fits_def)
qed

lemma slot_end:
  assumes "geometry s" "l < vectors_per_page s"
  shows "slot_offset s l + record_size s \<le> kPageSize"
proof -
  have "l * record_size s + record_size s \<le> vectors_per_page s * record_size s"
    using page_end [OF assms(2)] .
  also have "\<dots> \<le> kPageSize" by (simp add: vectors_per_page_def)
  finally show ?thesis by (simp add: slot_offset_def)
qed

lemma slots_apart: "l \<noteq> k \<Longrightarrow> slot_offset s l + record_size s \<le> slot_offset s k \<or> slot_offset s k + record_size s \<le> slot_offset s l"
  unfolding slot_offset_def by (rule pages_apart)

lemma steady_step: "steady io \<Longrightarrow> P None (s\<lparr>ps_clock := ps_clock s + 1\<rparr>) \<Longrightarrow> wp (io_step io) s P Q"
  by (simp add: io_step_def steady_def wp_def upd_def)

subsection \<open>What buffers and cache leave alone\<close>

definition core where
  "core s = (ps_dim s, ps_total s, ps_idToPage s, ps_idToSlot s, ps_updates s, ps_pages s, ps_flags s, ps_del s,
     ps_buf_cap s, ps_max_cached s, ps_keyToIdx s, ps_idxToKey s, length (ps_shards s),
     (\<lambda>i. sh_open (shard_of s i)), (\<lambda>i. sh_free (shard_of s i)))"

lemma core_locs:
  assumes "core s' = core s"
  shows "page_of n s' = page_of n s" "slot_of n s' = slot_of n s" "loc s' n = loc s n"
    "record_size s' = record_size s" "vectors_per_page s' = vectors_per_page s" "slot_offset s' l = slot_offset s l"
    "section_of_page p s' = section_of_page p s" "ps_pages s' = ps_pages s"
    "paged_exists n s' = paged_exists n s" "paged_writable s' n = paged_writable s n"
  using assms by (simp_all add: core_def page_of_def slot_of_def loc_def record_size_def vectors_per_page_def
    slot_offset_def section_of_page_def paged_exists_def is_deleted_at_def paged_writable_def)

lemma core_ok:
  assumes "core s' = core s"
  shows "geometry s' = geometry s" "locs_ok s' = locs_ok s" "lists_ok s' = lists_ok s" "shards_ok s' = shards_ok s"
proof -
  show "shards_ok s' = shards_ok s" using assms by (simp add: core_def shards_ok_def)
  show "geometry s' = geometry s" using assms by (simp add: core_def geometry_def record_size_def)
  show "locs_ok s' = locs_ok s" by (simp add: locs_ok_def core_locs [OF assms])
  have o: "sh_open (shard_of s' i) = sh_open (shard_of s i)" "sh_free (shard_of s' i) = sh_free (shard_of s i)" for i
    using assms by (auto simp: core_def fun_eq_iff)
  show "lists_ok s' = lists_ok s" by (simp add: lists_ok_def core_locs [OF assms] o)
qed

lemma core_on_shard:
  assumes "shards_ok s" "\<And>sh. sh_open (f sh) = sh_open sh" "\<And>sh. sh_free (f sh) = sh_free sh"
  shows "core (on_shard i f s) = core s"
proof -
  have "sh_open (shard_of (on_shard i f s) j) = sh_open (shard_of s j) \<and> sh_free (shard_of (on_shard i f s) j) = sh_free (shard_of s j)" for j
    using assms by (simp add: shard_of_on_shard) (simp add: shard_of_def)
  then show ?thesis by (simp add: core_def) (simp add: on_shard_def)
qed

text \<open>The pages keep their content, and so the records.\<close>

definition same_bytes :: "paged_store \<Rightarrow> paged_store \<Rightarrow> bool" where
  "same_bytes s s' \<longleftrightarrow> core s' = core s \<and> (\<forall>p < length (ps_pages s). page_bytes s' p = page_bytes s p)"

lemma same_bytes_refl: "same_bytes s s"
  by (simp add: same_bytes_def)

lemma same_bytes_trans: "same_bytes s s' \<Longrightarrow> same_bytes s' s'' \<Longrightarrow> same_bytes s s''"
  unfolding same_bytes_def using core_locs(8) by metis

lemma same_bytes_view:
  assumes "same_bytes s s'" "locs_ok s"
  shows "paged_view F s' = paged_view F s"
proof
  fix n
  have c: "core s' = core s" using assms(1) by (simp add: same_bytes_def)
  show "paged_view F s' n = paged_view F s n"
  proof (cases "page_of n s \<ge> 0")
    case True
    then have "page_bytes s' (nat (page_of n s)) = page_bytes s (nat (page_of n s))"
      using assms by (simp add: same_bytes_def locs_ok_def)
    then show ?thesis by (simp add: paged_view_def rec_at_def core_locs [OF c])
  qed (simp add: paged_view_def core_locs [OF c])
qed

subsection \<open>Flushing a buffer\<close>

definition flush_slots :: "write_buf \<Rightarrow> paged_store \<Rightarrow> page_buf list" where
  "flush_slots b s = (case cacheSlotOf (wb_page b) s of
     None \<Rightarrow> ps_slots s
   | Some c \<Rightarrow> (ps_slots s)[c := pb_data_update (\<lambda>_. wb_data b) (ps_slots s ! c)])"

definition flushed :: "write_buf \<Rightarrow> paged_store \<Rightarrow> paged_store" where
  "flushed b s = s\<lparr>ps_clock := ps_clock s + 1, ps_file := patch (wb_page b * kPageSize) (wb_data b) (ps_file s),
     ps_slots := flush_slots b s\<rparr>"

lemma cacheSlotOf_fields [simp]:
  "cacheSlotOf p (s\<lparr>ps_clock := x\<rparr>) = cacheSlotOf p s" "cacheSlotOf p (s\<lparr>ps_file := f\<rparr>) = cacheSlotOf p s"
  "cacheSlotOf p (s\<lparr>ps_slots := g\<rparr>) = cacheSlotOf p s" "cacheSlotOf p (on_shard i h s) = cacheSlotOf p s"
  "cacheSlotOf p (s\<lparr>ps_buf_count := y\<rparr>) = cacheSlotOf p s"
  by (simp_all add: cacheSlotOf_def)

lemma wp_flush:
  assumes "steady io" "P () (flushed b s)"
  shows "wp (flushSectionWriteBuf io b) s P Q"
  unfolding flushSectionWriteBuf_def
proof (rule wp_bnd, rule steady_step [OF assms(1)], rule wp_bnd, rule wp_modify, rule wp_modify, unfold option.case)
  let ?s = "s\<lparr>ps_clock := ps_clock s + 1, ps_file := patch (wb_page b * kPageSize) (wb_data b) (ps_file s)\<rparr>"
  have "flushed b s = (case cacheSlotOf (wb_page b) ?s of None \<Rightarrow> ?s | Some c \<Rightarrow> put_slot c (\<lambda>_. wb_data b) ?s)"
    by (simp add: flushed_def flush_slots_def put_slot_def split: option.split)
  then show "P () (case cacheSlotOf (wb_page b) (s\<lparr>ps_clock := ps_clock s + 1,
        ps_file := patch (wb_page b * kPageSize) (wb_data b) (ps_file (s\<lparr>ps_clock := ps_clock s + 1\<rparr>))\<rparr>) of
      None \<Rightarrow> s\<lparr>ps_clock := ps_clock s + 1, ps_file := patch (wb_page b * kPageSize) (wb_data b) (ps_file (s\<lparr>ps_clock := ps_clock s + 1\<rparr>))\<rparr>
    | Some c \<Rightarrow> put_slot c (\<lambda>_. wb_data b) (s\<lparr>ps_clock := ps_clock s + 1,
        ps_file := patch (wb_page b * kPageSize) (wb_data b) (ps_file (s\<lparr>ps_clock := ps_clock s + 1\<rparr>))\<rparr>))"
    using assms(2) by (simp split: option.splits)
qed

lemma flushed_fields [simp]:
  "core (flushed b s) = core s" "ps_shards (flushed b s) = ps_shards s" "ps_buf_count (flushed b s) = ps_buf_count s"
  "ps_pages (flushed b s) = ps_pages s" "ps_cached (flushed b s) = ps_cached s" "ps_hand (flushed b s) = ps_hand s"
  "ps_max_cached (flushed b s) = ps_max_cached s" "cacheSlotOf p (flushed b s) = cacheSlotOf p s"
  "length (ps_slots (flushed b s)) = length (ps_slots s)" "shard_of (flushed b s) = shard_of s"
  "ps_file (flushed b s) = patch (wb_page b * kPageSize) (wb_data b) (ps_file s)" "ps_buf_cap (flushed b s) = ps_buf_cap s"
  by (simp_all add: flushed_def flush_slots_def core_def shard_of_def cacheSlotOf_def fun_eq_iff split: option.split)

lemma flushed_slot:
  "c < length (ps_slots s) \<Longrightarrow> ps_slots (flushed b s) ! c = (if cacheSlotOf (wb_page b) s = Some c
     then pb_data_update (\<lambda>_. wb_data b) (ps_slots s ! c) else ps_slots s ! c)"
  by (simp add: flushed_def flush_slots_def nth_list_update split: option.split)

lemma holding_cong:
  "ps_shards s' = ps_shards s \<Longrightarrow> ps_pages s' = ps_pages s \<Longrightarrow> holding s' p = holding s p"
  by (simp add: holding_def section_of_page_def buf_of_def shard_of_def)

lemma page_bytes_cong: "holding s' p = holding s p \<Longrightarrow> ps_file s' = ps_file s \<Longrightarrow> page_bytes s' p = page_bytes s p"
  by (simp add: page_bytes_def split: option.split)

lemma bufs_ok_cong:
  "ps_shards s' = ps_shards s \<Longrightarrow> ps_pages s' = ps_pages s \<Longrightarrow> ps_buf_count s' = ps_buf_count s \<Longrightarrow> ps_buf_cap s' = ps_buf_cap s
    \<Longrightarrow> bufs_ok s' = bufs_ok s"
  by (simp add: bufs_ok_def shard_fits_def shards_ok_def total_bufs_def shard_of_def buf_fits_def)

lemma flushed_bytes:
  assumes "pages_ok s" "bufs_ok s" "buf_of k s = Some b" "p < length (ps_pages s)"
  shows "page_bytes (flushed b s) p = page_bytes s p"
    "pread (wb_page b * kPageSize) kPageSize (ps_file (flushed b s)) = wb_data b"
proof -
  have d: "length (wb_data b) = kPageSize" using buf_fits_of [OF assms(2,3)] by (simp add: buf_fits_def)
  show "pread (wb_page b * kPageSize) kPageSize (ps_file (flushed b s)) = wb_data b"
    using pread_patch_same [of "wb_page b * kPageSize" "wb_data b" "ps_file s"] d by simp
  have h: "holding (flushed b s) p = holding s p" by (rule holding_cong) simp_all
  show "page_bytes (flushed b s) p = page_bytes s p"
  proof (cases "holding s p")
    case None
    then have "p \<noteq> wb_page b" using holding_of_buf [OF assms(2,3)] by auto
    from pages_apart [OF this, of kPageSize] have "pread (p * kPageSize) kPageSize (ps_file (flushed b s)) = pread (p * kPageSize) kPageSize (ps_file s)"
      using page_in_file [OF assms(1,4)] d by (simp add: pread_patch_other)
    then show ?thesis using None h by (simp add: page_bytes_def)
  qed (use h in \<open>simp add: page_bytes_def\<close>)
qed

lemma flushed_inv:
  assumes "paged_inv io fx s" "buf_of k s = Some b" "fx (wb_page b) (wb_data b) = wb_data b"
  shows "paged_inv io fx (flushed b s)" "same_bytes s (flushed b s)"
proof -
  note I = assms(1) [unfolded paged_inv_def]
  have P: "page_bytes (flushed b s) p = page_bytes s p" if "p < length (ps_pages s)" for p
    using flushed_bytes(1) [OF _ _ assms(2) that] I by blast
  show "same_bytes s (flushed b s)" using P by (simp add: same_bytes_def)
  have f: "buf_fits s k b" using buf_fits_of [OF _ assms(2)] I by blast
  have d: "page_bytes s (wb_page b) = wb_data b" using holding_of_buf [OF _ assms(2)] I by (simp add: page_bytes_def)
  have "pages_ok (flushed b s)" using I f
    by (auto simp: pages_ok_def core_locs(5) [OF flushed_fields(1)] le_max_iff_disj)
  moreover have "bufs_ok (flushed b s)" using I bufs_ok_cong [of "flushed b s" s] by simp
  moreover have "page_cache_ok fx (flushed b s)"
    unfolding page_cache_ok_def
  proof (intro conjI allI impI)
    fix p c assume "cacheSlotOf p (flushed b s) = Some c"
    then have c: "cacheSlotOf p s = Some c" by simp
    then have C: "c < ps_cached s" "p < length (ps_pages s)" "pb_page (ps_slots s ! c) = Some p" "ps_cached s \<le> length (ps_slots s)"
      "length (pb_data (ps_slots s ! c)) = kPageSize" "fx p (pb_data (ps_slots s ! c)) = page_bytes s p"
      using I by (auto simp: page_cache_ok_def)
    have "c < length (ps_slots s)" using C(1,4) by linarith
    have "p = wb_page b" if "cacheSlotOf (wb_page b) s = Some c" using I that C(3) by (auto simp: page_cache_ok_def)
    then show "c < ps_cached (flushed b s)" "p < length (ps_pages (flushed b s))" "pb_page (ps_slots (flushed b s) ! c) = Some p"
      "length (pb_data (ps_slots (flushed b s) ! c)) = kPageSize"
      "fx p (pb_data (ps_slots (flushed b s) ! c)) = page_bytes (flushed b s) p"
      using C P [OF C(2)] f d assms(3) \<open>c < length (ps_slots s)\<close> by (auto simp: flushed_slot buf_fits_def)
  qed (use I in \<open>auto simp: page_cache_ok_def\<close>)
  ultimately show "paged_inv io fx (flushed b s)" using I by (simp add: paged_inv_def core_ok [OF flushed_fields(1)])
qed

subsection \<open>Dropping and replacing buffers\<close>

lemma length_delete_key:
  "distinct (map fst al) \<Longrightarrow> k \<in> set (map fst al) \<Longrightarrow> length (AList.delete k al) + 1 = length al"
proof (induction al)
  case (Cons x al)
  show ?case
  proof (cases "fst x = k")
    case True
    then have "k \<notin> set (map fst al)" using Cons.prems(1) by auto
    then show ?thesis using True by (simp add: delete_idem)
  qed (use Cons in auto)
qed simp

lemma buf_of_on_shard:
  assumes "shards_ok s"
  shows "buf_of k (on_shard i f s) = (if k mod kNumSectionShards = i mod kNumSectionShards
    then map_of (sh_bufs (f (shard_of s i))) k else buf_of k s)"
  by (simp add: buf_of_def shard_of_on_shard [OF assms])

lemma shard_of_mod: "k mod kNumSectionShards = i mod kNumSectionShards \<Longrightarrow> shard_of s k = shard_of s i"
  by (simp add: shard_of_def)

lemma shard_of_count [simp]: "shard_of (s\<lparr>ps_buf_count := y\<rparr>) = shard_of s" "buf_of k (s\<lparr>ps_buf_count := y\<rparr>) = buf_of k s"
  by (simp_all add: shard_of_def buf_of_def fun_eq_iff)

lemma core_count [simp]: "core (s\<lparr>ps_buf_count := y\<rparr>) = core s"
  by (simp add: core_def)

lemma bufs_ok_on_shard:
  assumes "bufs_ok s" "shard_fits s i (f (shard_of s i))"
    and "y + length (sh_bufs (shard_of s i)) = ps_buf_count s + length (sh_bufs (f (shard_of s i)))"
  shows "bufs_ok ((on_shard i f s)\<lparr>ps_buf_count := y\<rparr>)"
proof -
  let ?s = "(on_shard i f s)\<lparr>ps_buf_count := y\<rparr>"
  have s: "shards_ok s" "total_bufs s \<le> ps_buf_count s" "\<And>j. shard_fits s j (shard_of s j)"
    using assms(1) by (simp_all add: bufs_ok_def)
  have "total_bufs ?s = total_bufs (on_shard i f s)" by (simp add: total_bufs_def)
  then have "total_bufs ?s \<le> ps_buf_count ?s" using total_bufs_on_shard [OF s(1), of i f] assms(3) s(2) by simp
  moreover have "shards_ok ?s" using s(1) by (simp add: shards_ok_def on_shard_def)
  moreover have "shard_fits ?s j sh = shard_fits s j sh" for j sh by (simp add: shard_fits_def buf_fits_def)
  moreover have "shard_fits s j (f (shard_of s i))" if "j mod kNumSectionShards = i mod kNumSectionShards" for j
    using assms(2) that by (simp add: shard_fits_def)
  ultimately show ?thesis using s(3) by (simp add: bufs_ok_def shard_of_on_shard [OF s(1)])
qed

lemma bufs_fit: "bufs_ok s \<Longrightarrow> shard_fits s i (shard_of s i)"
  by (simp add: bufs_ok_def)

lemma drop_buf_of: "shards_ok s \<Longrightarrow> buf_of k (drop_buf i s) = (if k = i then None else buf_of k s)"
  by (simp add: drop_buf_def buf_of_on_shard delete_conv) (simp add: buf_of_def shard_of_def)

lemma core_drop: "shards_ok s \<Longrightarrow> core (drop_buf i s) = core s"
  by (simp add: drop_buf_def core_on_shard)

lemma holding_drop:
  assumes "shards_ok s"
  shows "holding (drop_buf i s) p = (if section_of_page p s = int i then None else holding s p)"
proof -
  have "nat (section_of_page p s) = i \<longleftrightarrow> section_of_page p s = int i" if "0 \<le> section_of_page p s" using that by auto
  then show ?thesis by (auto simp: holding_def core_locs [OF core_drop [OF assms]] drop_buf_of [OF assms])
qed

lemma drop_bufs_ok:
  assumes "bufs_ok s" "buf_of i s = Some b"
  shows "bufs_ok (drop_buf i s)"
proof -
  note fit = bufs_fit [OF assms(1), of i, unfolded shard_fits_def]
  have "i \<in> set (map fst (sh_bufs (shard_of s i)))" using assms(2) by (force simp: buf_of_def dest: map_of_SomeD)
  then have l: "length (AList.delete i (sh_bufs (shard_of s i))) + 1 = length (sh_bufs (shard_of s i))"
    using fit by (intro length_delete_key) auto
  have "length (sh_bufs (shard_of s i)) \<le> total_bufs s"
    using total_bufs_on_shard [of s i "sh_bufs_update (\<lambda>_. [])"] assms(1) by (simp add: bufs_ok_def)
  then have c: "ps_buf_count s - 1 + length (sh_bufs (shard_of s i))
      = ps_buf_count s + length (sh_bufs (sh_bufs_update (AList.delete i) (shard_of s i)))"
    using l assms(1) by (simp add: bufs_ok_def)
  have "shard_fits s i (sh_bufs_update (AList.delete i) (shard_of s i))"
    using fit by (auto simp: shard_fits_def distinct_delete delete_conv' split: if_splits)
  from bufs_ok_on_shard [where f = "sh_bufs_update (AList.delete i)", OF assms(1) this c] show ?thesis by (simp add: drop_buf_def)
qed

text \<open>A buffer whose page the file already holds can be dropped.\<close>

lemma dropped_inv:
  assumes "paged_inv io fx s" "buf_of i s = Some b" "pread (wb_page b * kPageSize) kPageSize (ps_file s) = wb_data b"
  shows "paged_inv io fx (drop_buf i s)" "same_bytes s (drop_buf i s)"
proof -
  note I = assms(1) [unfolded paged_inv_def]
  have s: "shards_ok s" using I by (simp add: bufs_ok_def)
  note C = core_drop [OF s, of i]
  have f: "ps_file (drop_buf i s) = ps_file s" by (simp add: drop_buf_def)
  have P: "page_bytes (drop_buf i s) p = page_bytes s p" for p
  proof (cases "section_of_page p s = int i")
    case True
    then have "holding s p = None \<or> p = wb_page b \<and> holding s p = Some (wb_data b)"
      using assms(2) by (auto simp: holding_def)
    then show ?thesis using True assms(3) by (auto simp: page_bytes_def holding_drop [OF s] f)
  next
    case False
    then show ?thesis by (intro page_bytes_cong f) (simp add: holding_drop [OF s])
  qed
  then show "same_bytes s (drop_buf i s)" by (simp add: same_bytes_def C)
  have "page_cache_ok fx (drop_buf i s)"
    using I P by (simp add: page_cache_ok_def) (simp add: drop_buf_def)
  moreover have "pages_ok (drop_buf i s)" using I by (simp add: pages_ok_def core_locs [OF C] f)
  moreover have "bufs_ok (drop_buf i s)" using I drop_bufs_ok [OF _ assms(2)] by blast
  ultimately show "paged_inv io fx (drop_buf i s)" using I by (simp add: paged_inv_def core_ok [OF C])
qed

text \<open>Flush and drop: what the eviction does with a victim.\<close>

lemma wp_flush_drop:
  assumes "paged_inv io fx s" "buf_of k s = Some b" "fx (wb_page b) (wb_data b) = wb_data b"
    and "\<And>s'. paged_inv io fx s' \<Longrightarrow> same_bytes s s' \<Longrightarrow> ps_shards s' = ps_shards (drop_buf k s) \<Longrightarrow> P () s'"
  shows "wp (bnd (flushSectionWriteBuf io b) (\<lambda>_. modify (drop_buf k))) s P Q"
proof (rule wp_bnd, rule wp_flush)
  note I = assms(1) [unfolded paged_inv_def]
  show "steady io" using I by simp
  note F = flushed_inv [OF assms(1-3)]
  have b: "buf_of k (flushed b s) = Some b" using assms(2) by (simp add: buf_of_def)
  have "wb_page b < length (ps_pages s)" using buf_fits_of [OF _ assms(2)] I by (simp add: buf_fits_def)
  then have "pread (wb_page b * kPageSize) kPageSize (ps_file (flushed b s)) = wb_data b"
    using flushed_bytes(2) [OF _ _ assms(2)] I by blast
  note D = dropped_inv [OF F(1) b this]
  show "wp (modify (drop_buf k)) (flushed b s) P Q"
  proof (rule wp_modify, rule assms(4) [OF D(1) same_bytes_trans [OF F(2) D(2)]])
    show "ps_shards (drop_buf k (flushed b s)) = ps_shards (drop_buf k s)"
      by (simp add: drop_buf_def on_shard_def)
  qed
qed

subsection \<open>Eviction ends\<close>

lemma queue_inv:
  assumes "paged_inv io fx s" "set (sh_order (shard_of s i)) \<inter> set (map fst (sh_bufs (shard_of s i))) \<subseteq> set l"
    "\<forall>k \<in> set l. k mod kNumSectionShards = i mod kNumSectionShards"
  shows "paged_inv io fx (on_shard i (sh_order_update (\<lambda>_. l)) s)" "same_bytes s (on_shard i (sh_order_update (\<lambda>_. l)) s)"
    "shard_of (on_shard i (sh_order_update (\<lambda>_. l)) s) i = (shard_of s i)\<lparr>sh_order := l\<rparr>"
    "buf_of k (on_shard i (sh_order_update (\<lambda>_. l)) s) = buf_of k s"
proof -
  let ?s = "on_shard i (sh_order_update (\<lambda>_. l)) s"
  note I = assms(1) [unfolded paged_inv_def]
  have s: "shards_ok s" using I by (simp add: bufs_ok_def)
  have C: "core ?s = core s" by (simp add: core_on_shard [OF s])
  show "shard_of ?s i = (shard_of s i)\<lparr>sh_order := l\<rparr>" by (simp add: shard_of_on_shard [OF s])
  have b: "buf_of k ?s = buf_of k s" for k by (simp add: buf_of_on_shard [OF s]) (simp add: buf_of_def shard_of_def)
  then show "buf_of k ?s = buf_of k s" .
  have P: "page_bytes ?s p = page_bytes s p" for p
    by (rule page_bytes_cong) (simp_all add: holding_def core_locs [OF C] b)
  then show "same_bytes s ?s" by (simp add: same_bytes_def C)
  have "shard_fits s i (sh_order_update (\<lambda>_. l) (shard_of s i))"
    using bufs_fit [of s i] I assms(2,3) by (force simp: shard_fits_def dest: map_of_SomeD)
  then have "bufs_ok (?s\<lparr>ps_buf_count := ps_buf_count s\<rparr>)"
    using I by (intro bufs_ok_on_shard) auto
  moreover have "?s\<lparr>ps_buf_count := ps_buf_count s\<rparr> = ?s" by (simp add: on_shard_def)
  ultimately have "bufs_ok ?s" by simp
  moreover have "page_cache_ok fx ?s" using I P by (simp add: page_cache_ok_def)
  moreover have "pages_ok ?s" using I by (simp add: pages_ok_def core_locs [OF C])
  ultimately show "paged_inv io fx ?s" using I by (simp add: paged_inv_def core_ok [OF C])
qed

text \<open>The loop ends: a buffer over the cap leaves a queue entry other than the section's own, and
  every turn brings it forward or removes one.\<close>

lemma flushed_on_shard: "flushed b (on_shard i f s) = on_shard i f (flushed b s)"
  by (simp add: flushed_def flush_slots_def on_shard_def shard_of_def cacheSlotOf_def)

lemma drop_on_shard:
  assumes "shards_ok s" "v mod kNumSectionShards = i mod kNumSectionShards"
  shows "on_shard i (sh_order_update f) (drop_buf v s) = drop_buf v (on_shard i (sh_order_update f) s)"
  using assms by (cases s; cases "ps_shards s ! (i mod kNumSectionShards)")
    (simp add: on_shard_def drop_buf_def shard_of_def shards_ok_def)

lemma wp_evict_loop:
  assumes "paged_inv io fx s" "\<And>p d. p \<noteq> q \<Longrightarrow> fx p d = d" "\<exists>b. buf_of i s = Some b \<and> wb_page b = q" "0 < ps_buf_cap s"
  shows "wp (evict_loop io i) s (\<lambda>_ s'. paged_inv io fx s' \<and> same_bytes s s' \<and> buf_of i s' = buf_of i s) Q"
  using assms
proof (induction "(length (filter (\<lambda>k. k \<noteq> i) (sh_order (shard_of s i))), length (takeWhile (\<lambda>k. k = i) (sh_order (shard_of s i))))"
    arbitrary: s rule: wf_induct_rule [OF wf_lex_prod [OF wf_less_than wf_less_than]])
  case 1
  let ?sh = "shard_of s i" and ?post = "\<lambda>_ s'. paged_inv io fx s' \<and> same_bytes s s' \<and> buf_of i s' = buf_of i s"
  note I = "1.prems"(1) [unfolded paged_inv_def]
  have s: "shards_ok s" using I by (simp add: bufs_ok_def)
  have stop: "wp (\<lambda>s. Some (Inr (), s)) s ?post Q" using "1.prems" same_bytes_refl by (simp add: wp_def)
  show ?case
  proof (cases "sh_order ?sh")
    case Nil
    then show ?thesis by (intro wp_state [OF _ stop]) (simp add: evict_loop.simps [of io i s] Let_def)
  next
    case (Cons v rest)
    show ?thesis
    proof (cases "length (sh_bufs ?sh) \<le> max 1 (ps_buf_cap s div kNumSectionShards)")
      case True
      then show ?thesis using Cons by (intro wp_state [OF _ stop]) (simp add: evict_loop.simps [of io i s] Let_def)
    next
      case over: False
      have again: "wp (evict_loop io i) s' ?post Q"
        if "paged_inv io fx s'" "same_bytes s s'" "buf_of i s' = buf_of i s"
          "((length (filter (\<lambda>k. k \<noteq> i) (sh_order (shard_of s' i))), length (takeWhile (\<lambda>k. k = i) (sh_order (shard_of s' i)))),
            length (filter (\<lambda>k. k \<noteq> i) (sh_order ?sh)), length (takeWhile (\<lambda>k. k = i) (sh_order ?sh))) \<in> less_than <*lex*> less_than" for s'
      proof -
        have "ps_buf_cap s' = ps_buf_cap s" using that(2) by (simp add: same_bytes_def core_def)
        then have "wp (evict_loop io i) s' (\<lambda>_ s''. paged_inv io fx s'' \<and> same_bytes s' s'' \<and> buf_of i s'' = buf_of i s') Q"
          using "1.hyps" [OF that(4) that(1)] "1.prems" that(3) by simp
        then show ?thesis by (rule wp_conseq) (use that same_bytes_trans in auto)
      qed
      have fits: "shard_fits s i ?sh" using I bufs_fit by blast
      have turn: "wp (bnd (if v = i then modify (on_shard i (sh_order_update (\<lambda>_. rest @ [v])))
          else bnd (modify (on_shard i (sh_order_update (\<lambda>_. rest)))) (\<lambda>_.
               case map_of (sh_bufs ?sh) v of None \<Rightarrow> ret ()
               | Some b \<Rightarrow> bnd (flushSectionWriteBuf io b) (\<lambda>_. modify (drop_buf v)))) (\<lambda>_. evict_loop io i)) s ?post Q"
      proof (cases "v = i")
        case True
        have "\<exists>k \<in> set (map fst (sh_bufs ?sh)). k \<noteq> i"
        proof (rule ccontr)
          assume "\<not> ?thesis"
          then have "set (map fst (sh_bufs ?sh)) \<subseteq> {i}" by blast
          then have "card (set (map fst (sh_bufs ?sh))) \<le> 1" using card_mono [of "{i}"] by fastforce
          moreover have "card (set (map fst (sh_bufs ?sh))) = length (sh_bufs ?sh)"
            using fits by (simp add: shard_fits_def distinct_card del: set_map)
          ultimately show False using over by simp
        qed
        then obtain k b where "map_of (sh_bufs ?sh) k = Some b" "k \<noteq> i" by (metis map_of_eq_None_iff not_None_eq set_map)
        then have "k \<in> set (sh_order ?sh)" using fits "1.prems"(4) unfolding shard_fits_def by blast
        then have k: "k \<in> set rest" using Cons True \<open>k \<noteq> i\<close> by simp
        let ?s = "on_shard i (sh_order_update (\<lambda>_. rest @ [v])) s"
        have Qi: "set (sh_order ?sh) \<inter> set (map fst (sh_bufs ?sh)) \<subseteq> set (rest @ [v])"
          "\<forall>k \<in> set (rest @ [v]). k mod kNumSectionShards = i mod kNumSectionShards"
          using Cons fits by (auto simp: shard_fits_def)
        note q = queue_inv [OF "1.prems"(1) Qi]
        have "takeWhile (\<lambda>k. k = i) (rest @ [v]) = takeWhile (\<lambda>k. k = i) rest"
          using k \<open>k \<noteq> i\<close> by (intro takeWhile_append1) auto
        then have "wp (evict_loop io i) ?s ?post Q"
          using True Cons by (intro again q) (simp add: q(3) [unfolded True])
        then show ?thesis using True by (simp add: wp_bnd wp_modify)
      next
        case False
        let ?s = "on_shard i (sh_order_update (\<lambda>_. rest)) s"
        have vi: "v mod kNumSectionShards = i mod kNumSectionShards" using Cons fits by (simp add: shard_fits_def)
        then have sv: "shard_of s v = ?sh" by (rule shard_of_mod)
        show ?thesis
        proof (cases "map_of (sh_bufs ?sh) v")
          case None
          then have Qi: "set (sh_order ?sh) \<inter> set (map fst (sh_bufs ?sh)) \<subseteq> set rest"
            "\<forall>k \<in> set rest. k mod kNumSectionShards = i mod kNumSectionShards"
            using Cons fits by (auto simp: shard_fits_def map_of_eq_None_iff)
          note q = queue_inv [OF "1.prems"(1) Qi]
          have "wp (evict_loop io i) ?s ?post Q" using False Cons by (intro again q) (simp add: q(3))
          then show ?thesis using False None by (simp add: wp_bnd wp_modify wp_ret)
        next
          case (Some b)
          then have b: "buf_of v s = Some b" by (simp add: buf_of_def sv)
          then have bv: "buf_of v (flushed b s) = Some b" by (simp add: buf_of_def)
          have fits_b: "buf_fits s v b" using I buf_fits_of [OF _ b] by blast
          have "wb_page b \<noteq> q"
          proof
            assume "wb_page b = q"
            then obtain b' where "buf_of i s = Some b'" "wb_page b' = wb_page b" using "1.prems"(3) by auto
            then have "int i = int v" using fits_b I buf_fits_of [of s i b'] by (simp add: buf_fits_def)
            then show False using False by simp
          qed
          then have fx: "fx (wb_page b) (wb_data b) = wb_data b" by (rule "1.prems"(2))
          note F = flushed_inv [OF "1.prems"(1) b fx]
          have "wb_page b < length (ps_pages s)" using fits_b by (simp add: buf_fits_def)
          then have "pread (wb_page b * kPageSize) kPageSize (ps_file (flushed b s)) = wb_data b"
            using flushed_bytes(2) [OF _ _ b] I by blast
          note D = dropped_inv [OF F(1) bv this]
          let ?d = "drop_buf v (flushed b s)"
          have sh: "shard_of ?d i = sh_bufs_update (AList.delete v) ?sh"
            using s vi by (simp add: drop_buf_def on_shard_def shard_of_def shards_ok_def)
          have Qi: "set (sh_order (shard_of ?d i)) \<inter> set (map fst (sh_bufs (shard_of ?d i))) \<subseteq> set rest"
            "\<forall>k \<in> set rest. k mod kNumSectionShards = i mod kNumSectionShards"
            using Cons fits by (auto simp: sh shard_fits_def delete_keys)
          note q = queue_inv [OF D(1) Qi]
          have "on_shard i (sh_order_update (\<lambda>_. rest)) ?d = drop_buf v (flushed b ?s)"
            unfolding flushed_on_shard using s vi by (intro drop_on_shard) (simp_all add: shards_ok_def)
          moreover have "wp (evict_loop io i) (on_shard i (sh_order_update (\<lambda>_. rest)) ?d) ?post Q"
          proof (rule again [OF q(1)])
            show "same_bytes s (on_shard i (sh_order_update (\<lambda>_. rest)) ?d)"
              using F(2) D(2) q(2) same_bytes_trans by blast
            have "shards_ok (flushed b s)" using s by (simp add: shards_ok_def)
            then show "buf_of i (on_shard i (sh_order_update (\<lambda>_. rest)) ?d) = buf_of i s"
              using False by (simp add: q(4) drop_buf_of) (simp add: buf_of_def)
          qed (use Cons False in \<open>simp add: q(3)\<close>)
          ultimately show ?thesis
            using False Some I by (simp add: wp_bnd wp_modify wp_flush)
        qed
      qed
      then show ?thesis
        using over Cons by (intro wp_state [OF _ turn]) (simp add: evict_loop.simps [of io i s] Let_def)
    qed
  qed
qed

subsection \<open>Writing a record\<close>

lemma length_bytes: "paged_inv io fx s \<Longrightarrow> p < length (ps_pages s) \<Longrightarrow> length (page_bytes s p) = kPageSize"
  using length_page_bytes by (auto simp: paged_inv_def)

text \<open>A section's buffer is set: the file has the page it held before, unless that is the same page.\<close>

lemma set_buf_inv:
  assumes "paged_inv io fx s" "bufs_ok s'" "s' = (on_shard i g s)\<lparr>ps_buf_count := y\<rparr>"
    and "\<And>sh. sh_open (g sh) = sh_open sh" "\<And>sh. sh_free (g sh) = sh_free sh"
    and "\<And>k. buf_of k s' = (if k = i then Some \<lparr>wb_data = d, wb_page = p\<rparr> else buf_of k s)"
    and old: "\<And>b. buf_of i s = Some b \<Longrightarrow> wb_page b = p \<or> pread (wb_page b * kPageSize) kPageSize (ps_file s) = wb_data b"
    and p: "p < length (ps_pages s)" "pm_section (ps_pages s ! p) = int i"
    and cache: "\<And>c. cacheSlotOf p s = Some c \<Longrightarrow> fx' p (pb_data (ps_slots s ! c)) = d" "\<And>q x. q \<noteq> p \<Longrightarrow> fx' q x = fx q x"
  shows "paged_inv io fx' s'" "core s' = core s"
    "\<And>q. q < length (ps_pages s) \<Longrightarrow> page_bytes s' q = (if q = p then d else page_bytes s q)"
proof -
  note I = assms(1) [unfolded paged_inv_def]
  have s: "shards_ok s" using I by (simp add: bufs_ok_def)
  have C: "core s' = core s" unfolding assms(3) by (simp add: core_on_shard [OF s assms(4,5)])
  then show "core s' = core s" .
  have f: "ps_file s' = ps_file s" by (simp add: assms(3))
  have sp: "section_of_page p s = int i" using p by (simp add: section_of_page_def)
  have P: "page_bytes s' q = (if q = p then d else page_bytes s q)" for q
  proof (cases "section_of_page q s = int i")
    case True
    then have h: "holding s' q = (if q = p then Some d else None)" by (simp add: holding_def core_locs(7) [OF C] assms(6))
    show ?thesis
    proof (cases "q = p")
      case False
      have "page_bytes s q = pread (q * kPageSize) kPageSize (ps_file s)"
      proof (cases "holding s q")
        case (Some x)
        then obtain b where "buf_of i s = Some b" "wb_page b = q" "wb_data b = x" using True by (auto simp: holding_buf)
        then show ?thesis using old [of b] False Some by (simp add: page_bytes_def)
      qed (simp add: page_bytes_def)
      then show ?thesis using h False f by (simp add: page_bytes_def)
    qed (use h in \<open>simp add: page_bytes_def\<close>)
  next
    case False
    then have "q \<noteq> p" using sp by auto
    have "nat (section_of_page q s) \<noteq> i" if "0 \<le> section_of_page q s" using False that by auto
    then have "holding s' q = holding s q" by (simp add: holding_def core_locs(7) [OF C] assms(6))
    from page_bytes_cong [OF this f] show ?thesis using \<open>q \<noteq> p\<close> by (simp only: if_False)
  qed
  then show "\<And>q. q < length (ps_pages s) \<Longrightarrow> page_bytes s' q = (if q = p then d else page_bytes s q)" .
  have c: "cacheSlotOf q s' = cacheSlotOf q s" "ps_slots s' = ps_slots s" "ps_cached s' = ps_cached s" "ps_hand s' = ps_hand s"
    "ps_max_cached s' = ps_max_cached s" "ps_pages s' = ps_pages s" for q
    unfolding assms(3) by simp_all
  have "page_cache_ok fx' s'"
    unfolding page_cache_ok_def c
  proof (intro conjI allI impI)
    fix q k assume q: "cacheSlotOf q s = Some k"
    then show "k < ps_cached s" "q < length (ps_pages s)" "pb_page (ps_slots s ! k) = Some q"
      "length (pb_data (ps_slots s ! k)) = kPageSize" using I by (auto simp: page_cache_ok_def)
    show "fx' q (pb_data (ps_slots s ! k)) = page_bytes s' q"
      using q cache I by (cases "q = p") (auto simp: P page_cache_ok_def)
  qed (use I in \<open>auto simp: page_cache_ok_def\<close>)
  moreover have "pages_ok s'" using I by (simp add: pages_ok_def core_locs [OF C] f)
  ultimately show "paged_inv io fx' s'" using I assms(2) by (simp add: paged_inv_def core_ok [OF C])
qed

lemma put_slot_fields [simp]:
  "core (put_slot c g s) = core s" "ps_file (put_slot c g s) = ps_file s" "ps_shards (put_slot c g s) = ps_shards s"
  "ps_buf_count (put_slot c g s) = ps_buf_count s" "ps_buf_cap (put_slot c g s) = ps_buf_cap s"
  "ps_pages (put_slot c g s) = ps_pages s" "ps_cached (put_slot c g s) = ps_cached s"
  "ps_hand (put_slot c g s) = ps_hand s" "ps_max_cached (put_slot c g s) = ps_max_cached s"
  "cacheSlotOf p (put_slot c g s) = cacheSlotOf p s" "length (ps_slots (put_slot c g s)) = length (ps_slots s)"
  by (simp_all add: put_slot_def core_def shard_of_def cacheSlotOf_def)

text \<open>The cached copy catches up.\<close>

lemma updated_inv:
  assumes "paged_inv io (patched p (slot_offset s l) rec) s" "length rec = record_size s"
    "slot_offset s l + record_size s \<le> kPageSize"
  shows "paged_inv io unpatched (updateCacheAfterWrite p l rec s)" "same_bytes s (updateCacheAfterWrite p l rec s)"
    "ps_shards (updateCacheAfterWrite p l rec s) = ps_shards s"
proof -
  note I = assms(1) [unfolded paged_inv_def]
  let ?s = "updateCacheAfterWrite p l rec s"
  have C: "core ?s = core s" "ps_shards ?s = ps_shards s" "ps_file ?s = ps_file s" "ps_pages ?s = ps_pages s"
    "ps_buf_count ?s = ps_buf_count s" "ps_buf_cap ?s = ps_buf_cap s" "\<And>q. cacheSlotOf q ?s = cacheSlotOf q s"
    "ps_cached ?s = ps_cached s" "ps_hand ?s = ps_hand s" "ps_max_cached ?s = ps_max_cached s"
    "length (ps_slots ?s) = length (ps_slots s)"
    by (simp_all add: updateCacheAfterWrite_def split: option.split)
  then show "ps_shards ?s = ps_shards s" by simp
  have P: "page_bytes ?s q = page_bytes s q" for q
    by (rule page_bytes_cong, rule holding_cong) (simp_all add: C)
  then show "same_bytes s ?s" using C(1) by (simp add: same_bytes_def)
  have "page_cache_ok unpatched ?s"
    unfolding page_cache_ok_def C P
  proof (intro conjI allI impI)
    fix q k assume q: "cacheSlotOf q s = Some k"
    then have Q: "k < ps_cached s" "q < length (ps_pages s)" "pb_page (ps_slots s ! k) = Some q" "ps_cached s \<le> length (ps_slots s)"
      "length (pb_data (ps_slots s ! k)) = kPageSize" "patched p (slot_offset s l) rec q (pb_data (ps_slots s ! k)) = page_bytes s q"
      "ps_cached s \<le> ps_max_cached s"
      using I by (auto simp: page_cache_ok_def)
    then have k: "k < length (ps_slots s)" "ps_max_cached s \<noteq> 0" by linarith+
    show "k < ps_cached s" "q < length (ps_pages s)" by fact+
    have slot: "ps_slots ?s ! k = (if q = p then pb_data_update (patch (slot_offset s l) rec) (ps_slots s ! k) else ps_slots s ! k)"
    proof (cases "cacheSlotOf p s")
      case None
      then show ?thesis using q by (auto simp: updateCacheAfterWrite_def)
    next
      case (Some c)
      then have c: "pb_page (ps_slots s ! c) = Some p" "length (pb_data (ps_slots s ! c)) = kPageSize" using I by (auto simp: page_cache_ok_def)
      then have "k = c \<longleftrightarrow> q = p" using Q(3) q Some by auto
      then show ?thesis using Some c k assms(3) by (auto simp: updateCacheAfterWrite_def put_slot_def nth_list_update)
    qed
    show "pb_page (ps_slots ?s ! k) = Some q" "length (pb_data (ps_slots ?s ! k)) = kPageSize"
      using Q slot assms(2,3) by simp_all
    show "unpatched q (pb_data (ps_slots ?s ! k)) = page_bytes s q" using Q(6) slot by (cases "q = p") (simp_all add: unpatched_def patched_def)
  qed (use I in \<open>auto simp: page_cache_ok_def\<close>)
  moreover have "bufs_ok ?s" using I bufs_ok_cong [OF C(2,4,5,6)] by simp
  moreover have "pages_ok ?s" using I by (simp add: pages_ok_def core_locs [OF C(1)] C)
  ultimately show "paged_inv io unpatched ?s" using I by (simp add: paged_inv_def core_ok [OF C(1)])
qed

end
