(* ===== verification/Paged_Write.thy ===== *)
theory Paged_Write
  imports Paged_Refine
begin

text \<open>
  Writing a record into the pages: through the section's write buffer, or directly where the buffer
  would lose what the file holds. Only the record's slot changes.
\<close>

text \<open>A page without records, which the cache has not seen.\<close>

definition fresh_at :: "paged_store \<Rightarrow> nat \<Rightarrow> bool" where
  "fresh_at s p \<longleftrightarrow> cacheSlotOf p s = None \<and> (\<forall>n. page_of n s \<ge> 0 \<longrightarrow> nat (page_of n s) \<noteq> p)"

text \<open>The contents after a record is written to slot \<open>l\<close> of page \<open>p\<close>; on a fresh page the rest of
  the page may change too.\<close>

definition wrote :: "paged_store \<Rightarrow> nat \<Rightarrow> nat \<Rightarrow> bytes \<Rightarrow> paged_store \<Rightarrow> bool" where
  "wrote s p l rec s' \<longleftrightarrow> core s' = core s
     \<and> (\<forall>q < length (ps_pages s). q \<noteq> p \<longrightarrow> page_bytes s' q = page_bytes s q)
     \<and> (\<exists>base. page_bytes s' p = patch (slot_offset s l) rec base \<and> length base = kPageSize
          \<and> (base = page_bytes s p \<or> (\<forall>n. page_of n s \<ge> 0 \<longrightarrow> nat (page_of n s) \<noteq> p)))"

lemma wrote_same: "wrote s p l rec s' \<Longrightarrow> same_bytes s' s'' \<Longrightarrow> p < length (ps_pages s) \<Longrightarrow> wrote s p l rec s''"
  unfolding wrote_def same_bytes_def using core_locs(8) by (metis (no_types, lifting))

lemma same_wrote:
  assumes "same_bytes s s'" "wrote s' p l rec s''" "p < length (ps_pages s)"
  shows "wrote s p l rec s''"
proof -
  have c: "core s' = core s" using assms(1) by (simp add: same_bytes_def)
  show ?thesis using assms unfolding wrote_def same_bytes_def core_locs [OF c] by (metis (no_types, lifting))
qed

lemma wrote_view:
  assumes "wrote s p l rec s'" "locs_ok s" "geometry s" "length rec = record_size s" "p < length (ps_pages s)"
    and "l < vectors_per_page s" "pages_ok s" "\<And>n. page_of n s \<ge> 0 \<Longrightarrow> loc s n \<noteq> (p, l)"
  shows "rec_at s' p l = rec" "paged_view F s' = paged_view F s"
proof -
  have C: "core s' = core s" using assms(1) by (simp add: wrote_def)
  obtain base where b: "page_bytes s' p = patch (slot_offset s l) rec base" "length base = kPageSize"
    "base = page_bytes s p \<or> (\<forall>n. page_of n s \<ge> 0 \<longrightarrow> nat (page_of n s) \<noteq> p)"
    using assms(1) unfolding wrote_def by blast
  show "rec_at s' p l = rec"
    using pread_patch_same [of "slot_offset s l" rec base] by (simp add: rec_at_def core_locs [OF C] b(1) assms(4))
  show "paged_view F s' = paged_view F s"
  proof
    fix n
    show "paged_view F s' n = paged_view F s n"
    proof (cases "page_of n s \<ge> 0")
      case True
      let ?q = "nat (page_of n s)" and ?k = "slot_of n s"
      have q: "?q < length (ps_pages s)" using True assms(2) by (simp add: locs_ok_def)
      have "rec_at s' ?q ?k = rec_at s ?q ?k"
      proof (cases "?q = p")
        case False
        then have "page_bytes s' ?q = page_bytes s ?q" using assms(1) q by (simp add: wrote_def)
        then show ?thesis by (simp add: rec_at_def core_locs [OF C])
      next
        case same: True
        then have base: "base = page_bytes s p" using b(3) True by blast
        have "?k \<noteq> l" using assms(8) [OF True] same by (auto simp: loc_def)
        from slots_apart [OF this, of s] have apart: "slot_offset s ?k + record_size s \<le> slot_offset s l
            \<or> slot_offset s l + length rec \<le> slot_offset s ?k" using assms(4) by simp
        have "?k < vectors_per_page s" using True assms(2,7) same by (fastforce simp: locs_ok_def pages_ok_def)
        from slot_end [OF assms(3) this] have "slot_offset s ?k + record_size s \<le> length base" using b(2) by simp
        from pread_patch_other [OF this apart] show ?thesis
          by (simp add: rec_at_def core_locs [OF C] same b(1) base)
      qed
      then show ?thesis by (simp add: paged_view_def core_locs [OF C])
    qed (simp add: paged_view_def core_locs [OF C])
  qed
qed

subsection \<open>The section's buffer holds the page\<close>

definition ready :: "medium \<Rightarrow> paged_store \<Rightarrow> nat \<Rightarrow> nat \<Rightarrow> paged_store \<Rightarrow> bool" where
  "ready io s idx p s' \<longleftrightarrow> paged_inv io unpatched s' \<and> core s' = core s
     \<and> (\<forall>q < length (ps_pages s). q \<noteq> p \<longrightarrow> page_bytes s' q = page_bytes s q)
     \<and> (\<exists>d. buf_of idx s' = Some \<lparr>wb_data = d, wb_page = p\<rparr>
          \<and> (d = page_bytes s p \<or> (\<forall>n. page_of n s \<ge> 0 \<longrightarrow> nat (page_of n s) \<noteq> p)))"

lemma ready_already:
  assumes "paged_inv io unpatched s" "buf_of idx s = Some b" "wb_page b = p"
  shows "ready io s idx p s"
proof -
  have "bufs_ok s" using assms(1) by (simp add: paged_inv_def)
  from holding_of_buf [OF this assms(2)] have "page_bytes s p = wb_data b" using assms(3) by (simp add: page_bytes_def)
  then have "buf_of idx s = Some \<lparr>wb_data = page_bytes s p, wb_page = p\<rparr>" using assms(2,3) by (cases b) simp
  then show ?thesis using assms(1) by (auto simp: ready_def)
qed

lemma on_shard_twice:
  "shards_ok s \<Longrightarrow> on_shard i g (on_shard i f s) = on_shard i (\<lambda>sh. g (f sh)) s"
  by (simp add: on_shard_def shard_of_def shards_ok_def)

lemma on_shard_count [simp]: "on_shard i g (s\<lparr>ps_buf_count := y\<rparr>) = (on_shard i g s)\<lparr>ps_buf_count := y\<rparr>"
  by (simp add: on_shard_def shard_of_def)

text \<open>A buffer of zeros for a fresh page, queued where buffers are limited.\<close>

abbreviation zero_buf :: "nat \<Rightarrow> write_buf" where
  "zero_buf p \<equiv> \<lparr>wb_data = replicate kPageSize 0, wb_page = p\<rparr>"

lemma zero_buf_ready:
  assumes "paged_inv io unpatched s" "fresh_at s p" "p < length (ps_pages s)" "pm_section (ps_pages s ! p) = int idx"
    and "bufs_ok s'" "s' = (on_shard idx g s)\<lparr>ps_buf_count := y\<rparr>"
    and "\<And>sh. sh_open (g sh) = sh_open sh" "\<And>sh. sh_free (g sh) = sh_free sh" "\<And>sh. sh_bufs (g sh) = AList.update idx (zero_buf p) (sh_bufs sh)"
    and "\<And>b. buf_of idx s = Some b \<Longrightarrow> wb_page b = p \<or> pread (wb_page b * kPageSize) kPageSize (ps_file s) = wb_data b"
  shows "ready io s idx p s'" "buf_of idx s' = Some (zero_buf p)"
proof -
  have s: "shards_ok s" using assms(1) by (simp add: paged_inv_def bufs_ok_def)
  have B: "buf_of k s' = (if k = idx then Some (zero_buf p) else buf_of k s)" for k
    unfolding assms(6) shard_of_count buf_of_on_shard [OF s] assms(9)
    by (simp add: update_conv buf_of_def shard_of_def)
  then show "buf_of idx s' = Some (zero_buf p)" by simp
  have c: "cacheSlotOf p s = None" "\<forall>n. page_of n s \<ge> 0 \<longrightarrow> nat (page_of n s) \<noteq> p" using assms(2) by (simp_all add: fresh_at_def)
  note S = set_buf_inv [OF assms(1,5,6,7,8) B assms(10,3,4)]
  have "paged_inv io unpatched s'" "core s' = core s"
    "\<And>q. q < length (ps_pages s) \<Longrightarrow> page_bytes s' q = (if q = p then replicate kPageSize 0 else page_bytes s q)"
    by (rule S; simp add: c)+
  then show "ready io s idx p s'" using B c(2) by (auto simp: ready_def)
qed

lemma length_update_key:
  "length (AList.update k v al) = (if k \<in> fst ` set al then length al else length al + 1)"
  by (induction al) auto

lemma inserted_bufs_ok:
  assumes "bufs_ok s" "buf_of idx s = None" "p < length (ps_pages s)" "pm_section (ps_pages s ! p) = int idx"
    and "\<And>sh. sh_bufs (g sh) = AList.update idx (zero_buf p) (sh_bufs sh)"
    and "\<And>sh. sh_order (g sh) = (if 0 < ps_buf_cap s then sh_order sh @ [idx] else sh_order sh)"
  shows "bufs_ok ((on_shard idx g s)\<lparr>ps_buf_count := ps_buf_count s + 1\<rparr>)"
proof (rule bufs_ok_on_shard [OF assms(1)])
  note fit = bufs_fit [OF assms(1), of idx, unfolded shard_fits_def]
  have idx: "idx \<notin> fst ` set (sh_bufs (shard_of s idx))" using assms(2) by (simp add: buf_of_def map_of_eq_None_iff)
  then show "ps_buf_count s + 1 + length (sh_bufs (shard_of s idx)) = ps_buf_count s + length (sh_bufs (g (shard_of s idx)))"
    by (simp add: assms(5) length_update_key)
  show "shard_fits s idx (g (shard_of s idx))"
    using fit assms(3,4) by (auto simp: shard_fits_def assms(5,6) update_conv distinct_update buf_fits_def)
qed

lemma moved_bufs_ok:
  assumes "bufs_ok s" "buf_of idx s = Some b" "buf_fits s idx b'"
    and "\<And>sh. sh_bufs (g sh) = AList.update idx b' (sh_bufs sh)" "\<And>sh. sh_order (g sh) = sh_order sh"
  shows "bufs_ok ((on_shard idx g s)\<lparr>ps_buf_count := ps_buf_count s\<rparr>)"
proof (rule bufs_ok_on_shard [OF assms(1)])
  note fit = bufs_fit [OF assms(1), of idx, unfolded shard_fits_def]
  have idx: "idx \<in> fst ` set (sh_bufs (shard_of s idx))" using assms(2) by (force simp: buf_of_def dest: map_of_SomeD)
  then show "ps_buf_count s + length (sh_bufs (shard_of s idx)) = ps_buf_count s + length (sh_bufs (g (shard_of s idx)))"
    by (simp add: assms(4) length_update_key)
  show "shard_fits s idx (g (shard_of s idx))"
    unfolding shard_fits_def assms(4,5)
  proof (intro conjI allI impI)
    fix k b'' assume k: "map_of (AList.update idx b' (sh_bufs (shard_of s idx))) k = Some b''"
    then have "\<exists>b. map_of (sh_bufs (shard_of s idx)) k = Some b" "b'' = b' \<and> k = idx \<or> map_of (sh_bufs (shard_of s idx)) k = Some b''"
      using assms(2) by (auto simp: update_conv buf_of_def split: if_splits)
    then show "k mod kNumSectionShards = idx mod kNumSectionShards" "buf_fits s k b''"
      "0 < ps_buf_cap s \<Longrightarrow> k \<in> set (sh_order (shard_of s idx))"
      using fit assms(3) by blast+
  qed (use fit in \<open>simp_all add: distinct_update\<close>)
qed

lemma wp_newSectionBuffer:
  assumes "paged_inv io unpatched s" "fresh_at s p" "p < length (ps_pages s)" "pm_section (ps_pages s ! p) = int idx"
    and none: "buf_of idx s = None"
  shows "wp (newSectionBuffer io idx p) s (\<lambda>_. ready io s idx p) Q"
proof -
  have b: "bufs_ok s" "shards_ok s" using assms(1) by (simp_all add: paged_inv_def bufs_ok_def)
  let ?f = "sh_bufs_update (AList.update idx (zero_buf p))" and ?h = "sh_order_update (\<lambda>l. l @ [idx])"
  let ?s = "\<lambda>g. (on_shard idx g s)\<lparr>ps_buf_count := ps_buf_count s + 1\<rparr>"
  show ?thesis
  proof (cases "0 < ps_buf_cap s")
    case False
    have "bufs_ok (?s ?f)" by (rule inserted_bufs_ok [OF b(1) none assms(3,4)]) (use False in simp_all)
    from zero_buf_ready(1) [OF assms(1-4) this refl] none False show ?thesis
      unfolding newSectionBuffer_def by (auto intro!: wp_intro)
  next
    case True
    have "bufs_ok (?s (\<lambda>sh. ?h (?f sh)))" by (rule inserted_bufs_ok [OF b(1) none assms(3,4)]) (use True in simp_all)
    note Z = zero_buf_ready [OF assms(1-4) this refl]
    have R: "ready io s idx p (?s (\<lambda>sh. ?h (?f sh)))" "buf_of idx (?s (\<lambda>sh. ?h (?f sh))) = Some (zero_buf p)"
      by (rule Z; simp add: none)+
    have e: "on_shard idx ?h (?s ?f) = ?s (\<lambda>sh. ?h (?f sh))" by (simp add: on_shard_twice [OF b(2)])
    have "wp (evict_loop io idx) (?s (\<lambda>sh. ?h (?f sh))) (\<lambda>_. ready io s idx p) Q"
    proof (rule wp_conseq [OF wp_evict_loop [where fx = unpatched and q = p]])
      show "paged_inv io unpatched (?s (\<lambda>sh. ?h (?f sh)))" using R(1) by (simp add: ready_def)
      show "unpatched q d = d" for q d by (simp add: unpatched_def)
      show "\<exists>b. buf_of idx (?s (\<lambda>sh. ?h (?f sh))) = Some b \<and> wb_page b = p" using R(2) by simp
      show "0 < ps_buf_cap (?s (\<lambda>sh. ?h (?f sh)))" using True by simp
      fix s' assume P: "paged_inv io unpatched s' \<and> same_bytes (?s (\<lambda>sh. ?h (?f sh))) s' \<and> buf_of idx s' = buf_of idx (?s (\<lambda>sh. ?h (?f sh)))"
      have "length (ps_pages (?s (\<lambda>sh. ?h (?f sh)))) = length (ps_pages s)" by simp
      then show "ready io s idx p s'" using P R unfolding ready_def same_bytes_def by metis
    qed
    then show ?thesis using True unfolding newSectionBuffer_def
      by (intro wp_bnd wp_modify wp_get) (simp, intro wp_bnd wp_modify, simp add: on_shard_twice [OF b(2)])
  qed
qed

lemma wp_moveSectionBuffer:
  assumes "paged_inv io unpatched s" "fresh_at s p" "p < length (ps_pages s)" "pm_section (ps_pages s ! p) = int idx"
    and b: "buf_of idx s = Some b"
  shows "wp (bnd (flushSectionWriteBuf io b) (\<lambda>_. modify (on_shard idx (sh_bufs_update (AList.update idx (zero_buf p))))))
    s (\<lambda>_. ready io s idx p) Q"
proof (rule wp_bnd, rule wp_flush, goal_cases)
  case 1
  then show ?case using assms(1) by (simp add: paged_inv_def)
next
  case 2
  have I: "pages_ok s" "bufs_ok s" using assms(1) by (simp_all add: paged_inv_def)
  let ?g = "sh_bufs_update (AList.update idx (zero_buf p))" and ?f = "flushed b s"
  note F = flushed_inv [OF assms(1) b unpatched_def]
  have C: "core ?f = core s" using F(2) by (simp add: same_bytes_def)
  have bf: "buf_of idx ?f = Some b" using b by (simp add: buf_of_def)
  have ok: "bufs_ok ?f" using F(1) by (simp add: paged_inv_def)
  have e: "(on_shard idx ?g ?f)\<lparr>ps_buf_count := ps_buf_count ?f\<rparr> = on_shard idx ?g ?f" by (simp add: on_shard_def)
  have "bufs_ok ((on_shard idx ?g ?f)\<lparr>ps_buf_count := ps_buf_count ?f\<rparr>)"
    by (rule moved_bufs_ok [OF ok bf]) (use assms(3,4) in \<open>simp_all add: buf_fits_def\<close>)
  then have "bufs_ok (on_shard idx ?g ?f)" unfolding e .
  moreover have "fresh_at ?f p" using assms(2) by (simp add: fresh_at_def core_locs [OF C])
  moreover have "pread (wb_page b' * kPageSize) kPageSize (ps_file ?f) = wb_data b'" if "buf_of idx ?f = Some b'" for b'
    using that bf flushed_bytes(2) [OF I b, of "wb_page b"] buf_fits_of [OF I(2) b] by (simp add: buf_fits_def)
  ultimately have "ready io ?f idx p (on_shard idx ?g ?f)"
    using zero_buf_ready(1) [OF F(1), where p = p and idx = idx and s' = "on_shard idx ?g ?f" and g = ?g and y = "ps_buf_count ?f",
      OF _ _ _ _ e [symmetric]] assms(3,4) by simp
  then have "ready io s idx p (on_shard idx ?g ?f)"
    using F(2) assms(3) by (simp add: ready_def same_bytes_def core_locs [OF C])
  then show ?case by (intro wp_modify)
qed

subsection \<open>The record goes into the buffer\<close>

lemma length_map_entry: "length (AList.map_entry k f al) = length al"
  by (induction al) auto

lemma patched_bufs_ok:
  assumes "bufs_ok s" "buf_of idx s = Some \<lparr>wb_data = d, wb_page = p\<rparr>" "off + length rec \<le> kPageSize"
  shows "bufs_ok (on_shard idx (sh_bufs_update (AList.map_entry idx (wb_data_update (patch off rec)))) s)"
proof -
  let ?g = "sh_bufs_update (AList.map_entry idx (wb_data_update (patch off rec)))"
  note fit = bufs_fit [OF assms(1), of idx, unfolded shard_fits_def]
  have d: "buf_fits s idx \<lparr>wb_data = d, wb_page = p\<rparr>" by (rule buf_fits_of [OF assms(1,2)])
  have "bufs_ok ((on_shard idx ?g s)\<lparr>ps_buf_count := ps_buf_count s\<rparr>)"
  proof (rule bufs_ok_on_shard [OF assms(1)])
    show "shard_fits s idx (?g (shard_of s idx))"
      unfolding shard_fits_def
    proof (intro conjI allI impI)
      fix k b assume k: "map_of (sh_bufs (?g (shard_of s idx))) k = Some b"
      then have "\<exists>b'. map_of (sh_bufs (shard_of s idx)) k = Some b'" "k \<noteq> idx \<Longrightarrow> map_of (sh_bufs (shard_of s idx)) k = Some b"
        "k = idx \<Longrightarrow> b = \<lparr>wb_data = patch off rec d, wb_page = p\<rparr>"
        using assms(2) by (auto simp: map_of_map_entry buf_of_def split: if_splits option.splits)
      then show "k mod kNumSectionShards = idx mod kNumSectionShards" "buf_fits s k b"
        "0 < ps_buf_cap s \<Longrightarrow> k \<in> set (sh_order (?g (shard_of s idx)))"
        using fit d assms(3) by (cases "k = idx"; simp add: buf_fits_def; blast)+
    qed (use fit in \<open>simp_all add: dom_map_entry distinct_map_entry\<close>)
  qed (simp add: length_map_entry)
  then show ?thesis by (simp add: on_shard_def)
qed

text \<open>The buffer's new content, and the cached copy that still misses the record.\<close>

lemma patched_inv:
  assumes "paged_inv io unpatched s" "buf_of idx s = Some \<lparr>wb_data = d, wb_page = p\<rparr>"
    and "length rec = record_size s" "slot_offset s l + record_size s \<le> kPageSize"
    and "s' = on_shard idx (sh_bufs_update (AList.map_entry idx (wb_data_update (patch (slot_offset s l) rec)))) s"
  shows "paged_inv io (patched p (slot_offset s l) rec) s'" "core s' = core s"
    "buf_of idx s' = Some \<lparr>wb_data = patch (slot_offset s l) rec d, wb_page = p\<rparr>"
    "page_bytes s' p = patch (slot_offset s l) rec d" "page_bytes s p = d" "length d = kPageSize"
    "\<And>q. q < length (ps_pages s) \<Longrightarrow> q \<noteq> p \<Longrightarrow> page_bytes s' q = page_bytes s q"
proof -
  let ?g = "sh_bufs_update (AList.map_entry idx (wb_data_update (patch (slot_offset s l) rec)))" and ?d = "patch (slot_offset s l) rec d"
  have I: "bufs_ok s" "shards_ok s" "page_cache_ok unpatched s" using assms(1) by (simp_all add: paged_inv_def bufs_ok_def)
  have fit: "p < length (ps_pages s)" "pm_section (ps_pages s ! p) = int idx" "length d = kPageSize"
    using buf_fits_of [OF I(1) assms(2)] by (simp_all add: buf_fits_def)
  show "length d = kPageSize" by fact
  have pb: "page_bytes s p = d" using holding_of_buf [OF I(1) assms(2)] by (simp add: page_bytes_def)
  then show "page_bytes s p = d" .
  have B: "buf_of k s' = (if k = idx then Some \<lparr>wb_data = ?d, wb_page = p\<rparr> else buf_of k s)" for k
    using assms(2) unfolding assms(5) buf_of_on_shard [OF I(2)]
    by (simp add: map_of_map_entry) (auto simp: buf_of_def shard_of_def)
  then show "buf_of idx s' = Some \<lparr>wb_data = ?d, wb_page = p\<rparr>" by simp
  have ok: "bufs_ok s'" unfolding assms(5) using assms(3,4) by (intro patched_bufs_ok [OF I(1) assms(2)]) simp
  have e: "s' = (on_shard idx ?g s)\<lparr>ps_buf_count := ps_buf_count s\<rparr>" unfolding assms(5) by (simp add: on_shard_def)
  have old: "wb_page b = p \<or> pread (wb_page b * kPageSize) kPageSize (ps_file s) = wb_data b" if "buf_of idx s = Some b" for b
    using that assms(2) by auto
  have c: "patched p (slot_offset s l) rec p (pb_data (ps_slots s ! c)) = ?d" if "cacheSlotOf p s = Some c" for c
    using that I(3) pb by (auto simp: page_cache_ok_def patched_def unpatched_def)
  have o: "patched p (slot_offset s l) rec q x = unpatched q x" if "q \<noteq> p" for q x using that by (simp add: patched_def unpatched_def)
  note S = set_buf_inv [where g = ?g and fx' = "patched p (slot_offset s l) rec", OF assms(1) ok e _ _ B old fit(1,2) c o]
  show "paged_inv io (patched p (slot_offset s l) rec) s'" "core s' = core s" by (rule S; simp)+
  have P: "\<And>q. q < length (ps_pages s) \<Longrightarrow> page_bytes s' q = (if q = p then ?d else page_bytes s q)" by (rule S; simp)
  then show "page_bytes s' p = ?d" "\<And>q. q < length (ps_pages s) \<Longrightarrow> q \<noteq> p \<Longrightarrow> page_bytes s' q = page_bytes s q"
    using fit(1) by simp_all
qed

lemma wp_writeToSectionBuffer:
  assumes inv: "paged_inv io unpatched s" and p: "p < length (ps_pages s)" "pm_section (ps_pages s ! p) = int idx"
    and l: "l < vectors_per_page s" "length rec = record_size s" "l = 0 \<Longrightarrow> fresh_at s p"
  shows "wp (writeToSectionBuffer io idx p l rec) s
    (\<lambda>done s'. if done then paged_inv io unpatched s' \<and> wrote s p l rec s' else s' = s \<and> holding s p = None) Q"
proof -
  let ?off = "slot_offset s l" and ?b = "buf_of idx s"
  let ?post = "\<lambda>done s'. if done then paged_inv io unpatched s' \<and> wrote s p l rec s' else s' = s \<and> holding s p = None"
  have I: "geometry s" "pages_ok s" "steady io" using inv by (simp_all add: paged_inv_def)
  note end_l = slot_end [OF I(1) l(1)]
  show ?thesis
  proof (cases "(case ?b of None \<Rightarrow> True | Some b \<Rightarrow> wb_page b \<noteq> p) \<and> l \<noteq> 0")
    case True
    then have "holding s p = None" using p by (auto simp: holding_def section_of_page_def split: option.split)
    then show ?thesis unfolding writeToSectionBuffer_def using True by (intro wp_bnd wp_get) (simp add: wp_ret)
  next
    case False
    have step1: "wp (if ?b = None then newSectionBuffer io idx p else ret ()) s
        (\<lambda>_ s1. if ?b = None then ready io s idx p s1 else s1 = s) Q"
      using False l(3) wp_newSectionBuffer [OF inv _ p] by (auto intro: wp_ret)
    have step2: "wp (case ?b of None \<Rightarrow> ret ()
        | Some b \<Rightarrow> if wb_page b \<noteq> p then bnd (flushSectionWriteBuf io b) (\<lambda>_.
             modify (on_shard idx (sh_bufs_update (AList.update idx (zero_buf p))))) else ret ()) s1
        (\<lambda>_. ready io s idx p) Q" if "if ?b = None then ready io s idx p s1 else s1 = s" for s1
      using that False l(3) wp_moveSectionBuffer [OF inv _ p] ready_already [OF inv, of idx]
      by (auto split: option.splits intro!: wp_ret)
    have rest: "wp (bnd (modify (\<lambda>s. on_shard idx (sh_bufs_update (AList.map_entry idx
              (wb_data_update (patch (slot_offset s l) rec)))) s)) (\<lambda>_.
       bnd (get id) (\<lambda>s.
       bnd (if l + 1 \<ge> vectors_per_page s then
              (case buf_of idx s of
                 None \<Rightarrow> ret ()
               | Some b \<Rightarrow> bnd (flushSectionWriteBuf io b) (\<lambda>_. modify (drop_buf idx)))
            else ret ()) (\<lambda>_.
       bnd (modify (updateCacheAfterWrite p l rec)) (\<lambda>_.
       ret True))))) s2 ?post Q" if R: "ready io s idx p s2" for s2
    proof -
      obtain d where d: "buf_of idx s2 = Some \<lparr>wb_data = d, wb_page = p\<rparr>" "d = page_bytes s p \<or> (\<forall>n. page_of n s \<ge> 0 \<longrightarrow> nat (page_of n s) \<noteq> p)"
        and R': "paged_inv io unpatched s2" "core s2 = core s" using R unfolding ready_def by blast
      note C = core_locs [OF R'(2)]
      define s3 where "s3 = on_shard idx (sh_bufs_update (AList.map_entry idx (wb_data_update (patch (slot_offset s2 l) rec)))) s2"
      note P = patched_inv [OF R'(1) d(1) _ _ s3_def, unfolded C, OF l(2) end_l]
      have C3: "core s3 = core s" using P(2) R'(2) by simp
      have w3: "wrote s p l rec s3" using R P d(2) C3 unfolding wrote_def ready_def C by auto
      have fin: "wp (bnd (modify (updateCacheAfterWrite p l rec)) (\<lambda>_. ret True)) s4 ?post Q"
        if "paged_inv io (patched p ?off rec) s4" "same_bytes s3 s4" for s4
      proof -
        have "core s4 = core s" using that(2) C3 by (simp add: same_bytes_def)
        note C4 = core_locs [OF this]
        note U = updated_inv [of io p s4 l rec, unfolded C4, OF that(1) l(2) end_l]
        have "wrote s p l rec (updateCacheAfterWrite p l rec s4)"
          using wrote_same [OF w3 same_bytes_trans [OF that(2) U(2)] p(1)] .
        then show ?thesis using U(1) by (intro wp_bnd wp_modify wp_ret) simp
      qed
      have "wp (if l + 1 \<ge> vectors_per_page s3 then
              (case buf_of idx s3 of
                 None \<Rightarrow> ret ()
               | Some b \<Rightarrow> bnd (flushSectionWriteBuf io b) (\<lambda>_. modify (drop_buf idx)))
            else ret ()) s3 (\<lambda>_ s4. paged_inv io (patched p ?off rec) s4 \<and> same_bytes s3 s4) Q"
        unfolding P(3)
        using P(1) same_bytes_refl l(2) end_l P(6)
        by (auto intro!: wp_ret wp_flush_drop [OF P(1,3)] simp: patched_def patch_again)
      then show ?thesis
        by (intro wp_bnd wp_modify, fold s3_def) (intro wp_get, unfold id_apply, erule wp_seq; use fin in blast)
    qed
    show ?thesis unfolding writeToSectionBuffer_def
      by (intro wp_bnd wp_get, simp only: if_not_P [OF False])
        (rule wp_seq [OF step1 wp_seq [OF step2 rest]]; simp)
  qed
qed

subsection \<open>The record goes into the file\<close>

lemma wp_write_direct:
  assumes inv: "paged_inv io unpatched s" and p: "p < length (ps_pages s)" "holding s p = None"
    and l: "l < vectors_per_page s" "length rec = record_size s"
  shows "wp (bnd (writeRecord io p l rec) (\<lambda>_. modify (updateCacheAfterWrite p l rec))) s
    (\<lambda>_ s'. paged_inv io unpatched s' \<and> wrote s p l rec s') Q"
proof -
  let ?off = "slot_offset s l"
  define s1 where "s1 = s\<lparr>ps_clock := ps_clock s + 1, ps_file := patch (p * kPageSize + ?off) rec (ps_file s)\<rparr>"
  have I: "geometry s" "pages_ok s" "steady io" "bufs_ok s" "page_cache_ok unpatched s" using inv by (simp_all add: paged_inv_def)
  note end_l = slot_end [OF I(1) l(1)]
  have C: "core s1 = core s" by (simp add: s1_def core_def shard_of_def)
  have h: "holding s1 q = holding s q" for q by (rule holding_cong) (simp_all add: s1_def)
  have Pp: "page_bytes s1 p = patch ?off rec (page_bytes s p)"
    using p(2) h page_in_file [OF I(2) p(1)] end_l l(2) by (simp add: page_bytes_def s1_def pread_inside)
  have P: "page_bytes s1 q = page_bytes s q" if "q < length (ps_pages s)" "q \<noteq> p" for q
  proof (cases "holding s q")
    case None
    have "q * kPageSize + kPageSize \<le> p * kPageSize + ?off \<or> p * kPageSize + ?off + length rec \<le> q * kPageSize"
      using pages_apart [OF that(2), of kPageSize] end_l l(2) by linarith
    with page_in_file [OF I(2) that(1)] have "pread (q * kPageSize) kPageSize (ps_file s1) = pread (q * kPageSize) kPageSize (ps_file s)"
      unfolding s1_def by (simp add: pread_patch_other)
    then show ?thesis using None by (simp add: page_bytes_def h)
  qed (simp add: page_bytes_def h)
  have c1: "cacheSlotOf q s1 = cacheSlotOf q s" "ps_slots s1 = ps_slots s" "ps_cached s1 = ps_cached s" "ps_hand s1 = ps_hand s"
    "ps_max_cached s1 = ps_max_cached s" "ps_pages s1 = ps_pages s" for q
    by (simp_all add: s1_def)
  have "page_cache_ok (patched p ?off rec) s1"
    unfolding page_cache_ok_def c1
  proof (intro conjI allI impI)
    fix q k assume q: "cacheSlotOf q s = Some k"
    then have Q: "k < ps_cached s" "q < length (ps_pages s)" "pb_page (ps_slots s ! k) = Some q"
      "length (pb_data (ps_slots s ! k)) = kPageSize" "pb_data (ps_slots s ! k) = page_bytes s q"
      using I(5) unfolding page_cache_ok_def unpatched_def by blast+
    then show "k < ps_cached s" "q < length (ps_pages s)" "pb_page (ps_slots s ! k) = Some q"
      "length (pb_data (ps_slots s ! k)) = kPageSize" by simp_all
    show "patched p ?off rec q (pb_data (ps_slots s ! k)) = page_bytes s1 q"
      using Pp P [OF Q(2)] Q(5) by (simp add: patched_def)
  qed (use I(5) in \<open>auto simp: page_cache_ok_def\<close>)
  moreover have "bufs_ok s1" using I(4) bufs_ok_cong [of s1 s] by (simp add: s1_def)
  moreover have "pages_ok s1" using I(2) by (simp add: pages_ok_def core_locs(5) [OF C]) (simp add: s1_def max_def)
  ultimately have inv1: "paged_inv io (patched p (slot_offset s1 l) rec) s1"
    using inv by (simp add: paged_inv_def core_ok [OF C] core_locs [OF C])
  have "wrote s p l rec s1" using C P Pp length_bytes [OF inv p(1)] unfolding wrote_def by blast
  note U = updated_inv [OF inv1, unfolded core_locs [OF C], OF l(2) end_l]
  have "wrote s p l rec (updateCacheAfterWrite p l rec s1)" by (rule wrote_same [OF \<open>wrote s p l rec s1\<close> U(2) p(1)])
  moreover have "wp (writeRecord io p l rec) s (\<lambda>_ s'. s' = s1) Q"
    unfolding writeRecord_def by (intro wp_bnd steady_step [OF I(3)] wp_modify) (simp add: wp_ret s1_def slot_offset_def record_size_def)
  ultimately show ?thesis using U(1) by (elim wp_seq) (auto intro: wp_modify)
qed

subsection \<open>Regrouping pages and free slots\<close>

text \<open>Allocation changes the pages' metadata and the sections' lists, not what pages hold.\<close>

definition kept :: "paged_store \<Rightarrow> paged_store \<Rightarrow> bool" where
  "kept s s' \<longleftrightarrow> (\<forall>n. page_of n s' = page_of n s \<and> slot_of n s' = slot_of n s \<and> is_deleted_at n s' = is_deleted_at n s)
     \<and> ps_dim s' = ps_dim s \<and> ps_total s \<le> ps_total s' \<and> (\<forall>p < length (ps_pages s). p < length (ps_pages s') \<and> page_bytes s' p = page_bytes s p)"

lemma kept_trans: "kept s s' \<Longrightarrow> kept s' s'' \<Longrightarrow> kept s s''"
  unfolding kept_def by (metis order_trans)

lemma same_kept: "same_bytes s s' \<Longrightarrow> kept s s'"
proof -
  assume a: "same_bytes s s'"
  then have c: "core s' = core s" by (simp add: same_bytes_def)
  then have "ps_dim s' = ps_dim s" "ps_total s' = ps_total s" "is_deleted_at n s' = is_deleted_at n s" for n
    by (simp_all add: core_def is_deleted_at_def)
  then show ?thesis using a by (simp add: kept_def same_bytes_def core_locs [OF c])
qed

lemma kept_view: "kept s s' \<Longrightarrow> locs_ok s \<Longrightarrow> paged_view F s' = paged_view F s"
  by (rule ext) (simp add: paged_view_def rec_at_def slot_offset_def record_size_def kept_def locs_ok_def)

definition regrouped :: "paged_store \<Rightarrow> paged_store \<Rightarrow> bool" where
  "regrouped s s' \<longleftrightarrow>
     (ps_dim s', ps_total s', ps_idToPage s', ps_idToSlot s', ps_updates s', ps_flags s', ps_buf_cap s', ps_buf_count s')
       = (ps_dim s, ps_total s, ps_idToPage s, ps_idToSlot s, ps_updates s, ps_flags s, ps_buf_cap s, ps_buf_count s)
   \<and> (ps_max_cached s', ps_slots s', ps_pageToSlot s', ps_cached s', ps_hand s')
       = (ps_max_cached s, ps_slots s, ps_pageToSlot s, ps_cached s, ps_hand s)
   \<and> map sh_bufs (ps_shards s') = map sh_bufs (ps_shards s) \<and> map sh_order (ps_shards s') = map sh_order (ps_shards s)
   \<and> (\<forall>p < length (ps_pages s). p < length (ps_pages s') \<and> pm_section (ps_pages s' ! p) = pm_section (ps_pages s ! p)
        \<and> pm_used (ps_pages s ! p) \<le> pm_used (ps_pages s' ! p)
        \<and> pread (p * kPageSize) kPageSize (ps_file s') = pread (p * kPageSize) kPageSize (ps_file s))"

lemma regrouped_inv:
  assumes "paged_inv io fx s" "regrouped s s'" "pages_ok s'" "lists_ok s'"
  shows "paged_inv io fx s'" "kept s s'"
proof -
  note I = assms(1) [unfolded paged_inv_def] and R = assms(2) [unfolded regrouped_def prod.inject]
  have s: "length (ps_shards s) = kNumSectionShards" "shards_ok s" using I by (simp_all add: bufs_ok_def shards_ok_def)
  have len: "length (ps_shards s') = kNumSectionShards" using R s by (metis length_map)
  have sh: "sh_bufs (shard_of s' i) = sh_bufs (shard_of s i)" "sh_order (shard_of s' i) = sh_order (shard_of s i)" for i
    using R s(1) len unfolding shard_of_def by (metis kNumSectionShards_pos mod_less_divisor nth_map)+
  have loc: "page_of n s' = page_of n s" "slot_of n s' = slot_of n s" "is_deleted_at n s' = is_deleted_at n s" for n
    using R by (simp_all add: page_of_def slot_of_def is_deleted_at_def)
  have sec: "section_of_page p s' = section_of_page p s" if "p < length (ps_pages s)" for p
  proof -
    have "p < length (ps_pages s')" "pm_section (ps_pages s' ! p) = pm_section (ps_pages s ! p)" using R that by blast+
    then show ?thesis using that by (simp add: section_of_page_def)
  qed
  have B: "buf_of k s' = buf_of k s" for k by (simp add: buf_of_def sh)
  have P: "page_bytes s' p = page_bytes s p" if "p < length (ps_pages s)" for p
    using R that by (simp add: page_bytes_def holding_def sec B split: option.split)
  show "kept s s'" using R P by (simp add: kept_def loc)
  have "geometry s'" using I R by (simp add: geometry_def record_size_def)
  moreover have "locs_ok s'"
  proof -
    have "nat (page_of n s) < length (ps_pages s') \<and> slot_of n s < pm_used (ps_pages s' ! nat (page_of n s))"
      if "page_of n s \<ge> 0" for n
      using I R that unfolding locs_ok_def by (metis less_le_trans)
    moreover have "loc s' n = loc s n" for n by (simp add: loc_def loc)
    ultimately show ?thesis using I by (simp add: locs_ok_def loc)
  qed
  moreover have "bufs_ok s'"
  proof -
    have "map (length \<circ> sh_bufs) (ps_shards s') = map length (map sh_bufs (ps_shards s'))" by simp
    also have "\<dots> = map (length \<circ> sh_bufs) (ps_shards s)" using R by simp
    finally have "total_bufs s' = total_bufs s" by (simp add: total_bufs_def)
    moreover have "buf_fits s' k b" if "buf_fits s k b" for k b using that R by (simp add: buf_fits_def)
    moreover have "ps_buf_cap s' = ps_buf_cap s" "ps_buf_count s' = ps_buf_count s" using R by simp_all
    ultimately show ?thesis using I len unfolding bufs_ok_def shard_fits_def sh shards_ok_def by simp
  qed
  moreover have "page_cache_ok fx s'"
  proof -
    have "cacheSlotOf p s' = cacheSlotOf p s" for p using R by (simp add: cacheSlotOf_def)
    then show ?thesis using I R P by (auto simp: page_cache_ok_def)
  qed
  ultimately show "paged_inv io fx s'" using I assms(3,4) by (simp add: paged_inv_def)
qed

end
