(* ===== verification/Paged_Alloc.thy ===== *)
theory Paged_Alloc
  imports Paged_Write
begin

text \<open>
  Slots for new records and the whole store operation: the free list, the last open page or a fresh
  page gives a slot nobody uses, the record is written there, and only then the id gets its location.
\<close>

subsection \<open>Sections' lists\<close>

lemma list_at_update [simp]: "list_at i (AList.update k l m) = (if i = k then l else list_at i m)"
  by (simp add: list_at_def update_conv)

lemma lists_on_shard:
  assumes "shards_ok s" "\<And>sh. sel (f sh) = AList.update idx (new sh) (sel sh)"
  shows "list_at i (sel (shard_of (on_shard idx f s) i)) = (if i = idx then new (shard_of s idx) else list_at i (sel (shard_of s i)))"
proof (cases "i mod kNumSectionShards = idx mod kNumSectionShards")
  case True
  then show ?thesis using shard_of_mod [OF True, of s] by (simp add: shard_of_on_shard [OF assms(1)] assms(2))
next
  case False
  then have "i \<noteq> idx" by auto
  then show ?thesis using False by (simp add: shard_of_on_shard [OF assms(1)])
qed

lemma lists_other_on_shard:
  assumes "shards_ok s" "\<And>sh. sel (f sh) = sel sh"
  shows "sel (shard_of (on_shard idx f s) i) = sel (shard_of s i)"
proof (cases "i mod kNumSectionShards = idx mod kNumSectionShards")
  case True
  then show ?thesis using shard_of_mod [OF True, of s] by (simp add: shard_of_on_shard [OF assms(1)] assms(2))
qed (simp add: shard_of_on_shard [OF assms(1)])

lemma maps_on_shard:
  assumes "shards_ok s" "\<And>sh. sel (f sh) = sel sh"
  shows "map sel (ps_shards (on_shard idx f s)) = map sel (ps_shards s)"
proof -
  have "idx mod kNumSectionShards < length (ps_shards s)" using assms(1) by (simp add: shards_ok_def)
  then show ?thesis unfolding on_shard_def shard_of_def
    by (simp add: map_update assms(2) list_update_same_conv)
qed

definition unused_slot :: "paged_store \<Rightarrow> nat \<Rightarrow> nat \<Rightarrow> bool" where
  "unused_slot s p l \<longleftrightarrow> p < length (ps_pages s) \<and> l < pm_used (ps_pages s ! p)
     \<and> (\<forall>n. page_of n s \<ge> 0 \<longrightarrow> loc s n \<noteq> (p, l)) \<and> (\<forall>i. (p, l) \<notin> set (list_at i (sh_free (shard_of s i))))"

definition reserved :: "paged_store \<Rightarrow> nat \<Rightarrow> nat \<Rightarrow> nat \<Rightarrow> bool" where
  "reserved s p l idx \<longleftrightarrow> p < length (ps_pages s) \<and> pm_section (ps_pages s ! p) = int idx \<and> l < pm_used (ps_pages s ! p)
     \<and> (\<forall>n. page_of n s \<ge> 0 \<longrightarrow> loc s n \<noteq> (p, l)) \<and> (\<forall>i. (p, l) \<notin> set (list_at i (sh_free (shard_of s i))))
     \<and> (l = 0 \<longrightarrow> fresh_at s p)"

lemma reserved_unused: "reserved s p l idx \<Longrightarrow> unused_slot s p l"
  by (simp add: reserved_def unused_slot_def)

lemma core_unused: "core s' = core s \<Longrightarrow> unused_slot s' p l = unused_slot s p l"
proof -
  assume C: "core s' = core s"
  then have "sh_free (shard_of s' i) = sh_free (shard_of s i)" for i by (simp add: core_def fun_eq_iff)
  then show ?thesis by (simp add: unused_slot_def core_locs [OF C])
qed

subsection \<open>Section index\<close>

lemma wp_section_index:
  assumes "paged_inv io fx s"
  shows "wp (section_index key) s (\<lambda>_ s'. paged_inv io fx s' \<and> kept s s' \<and> ps_pages s' = ps_pages s) Q"
proof -
  have I: "pages_ok s" "lists_ok s" using assms by (simp_all add: paged_inv_def)
  let ?s = "s\<lparr>ps_keyToIdx := AList.update key (length (ps_idxToKey s)) (ps_keyToIdx s), ps_idxToKey := ps_idxToKey s @ [key]\<rparr>"
  have "regrouped s ?s" by (simp add: regrouped_def)
  moreover have "pages_ok ?s" using I(1) by (simp add: pages_ok_def vectors_per_page_def record_size_def)
  moreover have "lists_ok ?s"
  proof -
    have "page_of n ?s = page_of n s" "loc ?s n = loc s n" "shard_of ?s i = shard_of s i" for n i
      by (simp_all add: page_of_def loc_def slot_of_def shard_of_def)
    then show ?thesis using I(2) by (simp add: lists_ok_def)
  qed
  ultimately have "paged_inv io fx ?s" "kept s ?s" using regrouped_inv [OF assms] by blast+
  moreover have "kept s s" by (simp add: kept_def)
  ultimately show ?thesis unfolding section_index_def
    using assms by (intro wp_upd) (auto split: option.splits)
qed

subsection \<open>A free slot or the next slot of an open page\<close>

lemma take_free_slot:
  assumes "paged_inv io fx s" "list_at idx (sh_free (shard_of s idx)) \<noteq> []"
    and "(p, l) = last (list_at idx (sh_free (shard_of s idx)))"
    and "s' = on_shard idx (sh_free_update (AList.update idx (butlast (list_at idx (sh_free (shard_of s idx)))))) s"
  shows "paged_inv io fx s'" "kept s s'" "reserved s' p l idx" "ps_pages s' = ps_pages s"
proof -
  let ?free = "list_at idx (sh_free (shard_of s idx))"
  have I: "pages_ok s" "lists_ok s" "shards_ok s" using assms(1) by (simp_all add: paged_inv_def bufs_ok_def)
  have free: "list_at i (sh_free (shard_of s' i)) = (if i = idx then butlast ?free else list_at i (sh_free (shard_of s i)))" for i
    unfolding assms(4) by (rule lists_on_shard [OF I(3)]) simp
  have opens: "sh_open (shard_of s' i) = sh_open (shard_of s i)" for i
    unfolding assms(4) by (rule lists_other_on_shard [OF I(3)]) simp
  have f: "page_of n s' = page_of n s" "loc s' n = loc s n" "ps_pages s' = ps_pages s" for n
    by (simp_all add: assms(4) page_of_def loc_def slot_of_def)
  then show "ps_pages s' = ps_pages s" by simp
  have split: "?free = butlast ?free @ [(p, l)]" using assms(2,3) by simp
  then have mem: "(p, l) \<in> set ?free" by (metis in_set_conv_decomp)
  have d: "distinct (butlast ?free) \<and> (p, l) \<notin> set (butlast ?free)"
    using I(2) split unfolding lists_ok_def by (metis distinct_butlast not_distinct_conv_prefix)
  have r: "regrouped s s'" unfolding assms(4) regrouped_def by (simp add: maps_on_shard [OF I(3)])
  have "pages_ok s'" using I(1) by (simp add: assms(4) pages_ok_def vectors_per_page_def record_size_def)
  moreover have "lists_ok s'"
    using I(2) d unfolding lists_ok_def free opens f by (auto dest: in_set_butlastD)
  ultimately show "paged_inv io fx s'" "kept s s'" using regrouped_inv [OF assms(1) r] by blast+
  have "p < length (ps_pages s) \<and> pm_section (ps_pages s ! p) = int idx \<and> l \<noteq> 0 \<and> l < pm_used (ps_pages s ! p)
      \<and> (\<forall>n. page_of n s \<ge> 0 \<longrightarrow> loc s n \<noteq> (p, l))"
    using I(2) mem unfolding lists_ok_def by blast
  moreover have "(p, l) \<notin> set (list_at i (sh_free (shard_of s i)))" if "i \<noteq> idx" for i
    using I(2) that calculation unfolding lists_ok_def by (metis of_nat_eq_iff)
  ultimately show "reserved s' p l idx" using d by (auto simp: reserved_def f free)
qed

lemma take_open_slot:
  assumes inv: "paged_inv io fx s" and p: "p \<in> set (list_at idx (sh_open (shard_of s idx)))"
    and u: "pm_used (ps_pages s ! p) < vectors_per_page s" and o: "set opens \<subseteq> set (list_at idx (sh_open (shard_of s idx)))"
    and s': "s' = (on_shard idx (sh_open_update (AList.update idx opens)) s)
      \<lparr>ps_pages := (ps_pages s)[p := (ps_pages s ! p)\<lparr>pm_used := pm_used (ps_pages s ! p) + 1\<rparr>]\<rparr>"
  shows "paged_inv io fx s'" "kept s s'" "reserved s' p (pm_used (ps_pages s ! p)) idx" "length (ps_pages s') = length (ps_pages s)"
proof -
  let ?u = "pm_used (ps_pages s ! p)" and ?t = "on_shard idx (sh_open_update (AList.update idx opens)) s"
  have I: "pages_ok s" "lists_ok s" "shards_ok s" "locs_ok s" using inv by (simp_all add: paged_inv_def bufs_ok_def)
  have P: "p < length (ps_pages s)" "pm_section (ps_pages s ! p) = int idx" using I(2) p unfolding lists_ok_def by blast+
  have sh: "shard_of s' i = shard_of ?t i" for i by (simp add: s' shard_of_def)
  have opens: "list_at i (sh_open (shard_of s' i)) = (if i = idx then opens else list_at i (sh_open (shard_of s i)))" for i
    unfolding sh by (rule lists_on_shard [OF I(3)]) simp
  have free: "sh_free (shard_of s' i) = sh_free (shard_of s i)" for i
    unfolding sh by (rule lists_other_on_shard [OF I(3)]) simp
  have f: "page_of n s' = page_of n s" "loc s' n = loc s n" "length (ps_pages s') = length (ps_pages s)"
    "pm_section (ps_pages s' ! q) = pm_section (ps_pages s ! q)"
    "pm_used (ps_pages s' ! q) = (if q = p then ?u + 1 else pm_used (ps_pages s ! q))" for n q
    using P by (simp_all add: s' page_of_def loc_def slot_of_def nth_list_update)
  then show "length (ps_pages s') = length (ps_pages s)" by simp
  have r: "regrouped s s'" using f(3-5) unfolding regrouped_def s' by (simp add: maps_on_shard [OF I(3)])
  have "pages_ok s'"
    using I(1) u unfolding pages_ok_def f by (simp add: s' vectors_per_page_def record_size_def)
  moreover have "lists_ok s'"
    using I(2) o unfolding lists_ok_def free opens f by (auto split: if_splits intro: less_SucI)
  ultimately show "paged_inv io fx s'" "kept s s'" using regrouped_inv [OF inv r] by blast+
  have "(p, ?u) \<notin> set (list_at i (sh_free (shard_of s i)))" for i
    using I(2) unfolding lists_ok_def by blast
  moreover have "page_of n s \<ge> 0 \<Longrightarrow> loc s n \<noteq> (p, ?u)" for n
    using I(4) unfolding locs_ok_def loc_def by (metis less_irrefl prod.inject)
  moreover have "?u \<noteq> 0" using I(1) P unfolding pages_ok_def by fastforce
  ultimately show "reserved s' p ?u idx" using P by (simp add: reserved_def f free)
qed

lemma set_opens_inv:
  assumes inv: "paged_inv io fx s" and o: "\<And>p. p \<in> set opens \<Longrightarrow> p < length (ps_pages s) \<and> pm_section (ps_pages s ! p) = int idx"
    and s': "s' = on_shard idx (sh_open_update (AList.update idx opens)) s"
  shows "paged_inv io fx s'" "kept s s'" "ps_pages s' = ps_pages s" "reserved s' p l i = reserved s p l i"
proof -
  have I: "pages_ok s" "lists_ok s" "shards_ok s" using inv by (simp_all add: paged_inv_def bufs_ok_def)
  have opens: "list_at i (sh_open (shard_of s' i)) = (if i = idx then opens else list_at i (sh_open (shard_of s i)))" for i
    unfolding s' by (rule lists_on_shard [OF I(3)]) simp
  have free: "sh_free (shard_of s' i) = sh_free (shard_of s i)" for i
    unfolding s' by (rule lists_other_on_shard [OF I(3)]) simp
  have f: "page_of n s' = page_of n s" "loc s' n = loc s n" "ps_pages s' = ps_pages s" "cacheSlotOf q s' = cacheSlotOf q s" for n q
    by (simp_all add: s' page_of_def loc_def slot_of_def)
  then show "ps_pages s' = ps_pages s" by simp
  show "reserved s' p l i = reserved s p l i" by (simp add: reserved_def fresh_at_def f free)
  have r: "regrouped s s'" unfolding s' regrouped_def by (simp add: maps_on_shard [OF I(3)])
  have "pages_ok s'" using I(1) by (simp add: s' pages_ok_def vectors_per_page_def record_size_def)
  moreover have "lists_ok s'" using I(2) o unfolding lists_ok_def free opens f by (auto split: if_splits)
  ultimately show "paged_inv io fx s'" "kept s s'" using regrouped_inv [OF inv r] by blast+
qed

lemma wp_take_free:
  assumes inv: "paged_inv io fx s"
  shows "wp (take_free idx) s (\<lambda>r s'. paged_inv io fx s' \<and> kept s s' \<and> length (ps_pages s') = length (ps_pages s)
    \<and> (case r of None \<Rightarrow> True | Some (p, l) \<Rightarrow> reserved s' p l idx)) Q"
  unfolding take_free_def
proof (rule wp_upd)
  fix r s' assume e: "(let free = list_at idx (sh_free (shard_of s idx)) in
     if free \<noteq> [] then (Some (last free), on_shard idx (sh_free_update (AList.update idx (butlast free))) s)
     else let opens = list_at idx (sh_open (shard_of s idx)) in
       if opens = [] then (None, s)
       else let p = last opens; used = pm_used (ps_pages s ! p) in
         if used < vectors_per_page s then
           (Some (p, used),
            (on_shard idx (sh_open_update (AList.update idx
               (if used + 1 < vectors_per_page s then opens else butlast opens))) s)
            \<lparr>ps_pages := (ps_pages s)[p := (ps_pages s ! p)\<lparr>pm_used := used + 1\<rparr>]\<rparr>)
         else (None, on_shard idx (sh_open_update (AList.update idx (butlast opens))) s)) = (r, s')"
  let ?free = "list_at idx (sh_free (shard_of s idx))" and ?opens = "list_at idx (sh_open (shard_of s idx))"
  have oks: "p < length (ps_pages s) \<and> pm_section (ps_pages s ! p) = int idx" if "p \<in> set (butlast ?opens)" for p
    using inv that by (auto simp: paged_inv_def lists_ok_def dest: in_set_butlastD)
  consider "?free \<noteq> []" | "?free = []" "?opens = []"
    | "?free = []" "?opens \<noteq> []" "pm_used (ps_pages s ! last ?opens) < vectors_per_page s"
    | "?free = []" "?opens \<noteq> []" "\<not> pm_used (ps_pages s ! last ?opens) < vectors_per_page s" by blast
  then show "paged_inv io fx s' \<and> kept s s' \<and> length (ps_pages s') = length (ps_pages s)
    \<and> (case r of None \<Rightarrow> True | Some (p, l) \<Rightarrow> reserved s' p l idx)"
  proof cases
    case 1
    obtain p l where pl: "(p, l) = last ?free" by (metis surj_pair)
    with 1 e have "r = Some (p, l)" "s' = on_shard idx (sh_free_update (AList.update idx (butlast ?free))) s" by (simp_all add: Let_def)
    then show ?thesis using take_free_slot [OF inv 1 pl] by simp
  next
    case 2
    then show ?thesis using e inv by (auto simp: kept_def)
  next
    case 3
    let ?p = "last ?opens" and ?o = "if pm_used (ps_pages s ! last ?opens) + 1 < vectors_per_page s then ?opens else butlast ?opens"
    have r: "r = Some (?p, pm_used (ps_pages s ! ?p))"
      "s' = (on_shard idx (sh_open_update (AList.update idx ?o)) s)
        \<lparr>ps_pages := (ps_pages s)[?p := (ps_pages s ! ?p)\<lparr>pm_used := pm_used (ps_pages s ! ?p) + 1\<rparr>]\<rparr>"
      using 3 e by (simp_all add: Let_def)
    have "set ?o \<subseteq> set ?opens" by (auto dest: in_set_butlastD)
    then show ?thesis using take_open_slot [OF inv _ 3(3) _ r(2)] 3(2) r(1) by simp
  next
    case 4
    with e have r: "r = None" "s' = on_shard idx (sh_open_update (AList.update idx (butlast ?opens))) s" by (simp_all add: Let_def)
    show ?thesis using set_opens_inv(1-3) [OF inv oks r(2)] r(1) by simp
  qed
qed

subsection \<open>A fresh page\<close>

lemma wp_ensurePageAllocated:
  assumes "steady io" "\<And>s'. s' = s\<lparr>ps_clock := ps_clock s', ps_file := ps_file s'\<rparr> \<Longrightarrow> (p + 1) * kPageSize \<le> length (ps_file s')
    \<Longrightarrow> (\<And>a n. a + n \<le> length (ps_file s) \<Longrightarrow> pread a n (ps_file s') = pread a n (ps_file s)) \<Longrightarrow> P () s'"
  shows "wp (ensurePageAllocated io p) s P Q"
proof (cases "length (ps_file s) < (p + 1) * kPageSize")
  case True
  let ?s = "s\<lparr>ps_clock := ps_clock s + 1, ps_file := patch ((p + 1) * kPageSize - 1) [0] (ps_file s)\<rparr>"
  have "P () ?s"
  proof (rule assms(2))
    show "(p + 1) * kPageSize \<le> length (ps_file ?s)" by simp
    show "pread a n (ps_file ?s) = pread a n (ps_file s)" if "a + n \<le> length (ps_file s)" for a n
      using that True by (simp add: pread_patch_other)
  qed simp
  then show ?thesis using True unfolding ensurePageAllocated_def
    by (intro wp_bnd wp_get) (simp, intro wp_bnd steady_step [OF assms(1)], simp add: wp_modify)
next
  case False
  then have "P () s" by (intro assms(2)) simp_all
  with False show ?thesis unfolding ensurePageAllocated_def by (intro wp_bnd wp_get) (simp add: wp_ret)
qed

lemma wp_fresh_page:
  assumes inv: "paged_inv io fx s"
  shows "wp (fresh_page io idx) s (\<lambda>p s'. paged_inv io fx s' \<and> kept s s' \<and> length (ps_pages s') = length (ps_pages s) + 1
    \<and> reserved s' p 0 idx) Q"
proof -
  let ?p = "length (ps_pages s)" and ?s1 = "s\<lparr>ps_pages := ps_pages s @ [\<lparr>pm_section = int idx, pm_used = 1\<rparr>]\<rparr>"
  let ?s2 = "\<lambda>s'. ?s1\<lparr>ps_clock := ps_clock s', ps_file := ps_file s'\<rparr>"
  note I = inv [unfolded paged_inv_def]
  have fresh: "paged_inv io fx s2 \<and> kept s s2 \<and> length (ps_pages s2) = ?p + 1 \<and> reserved s2 ?p 0 idx \<and> pm_section (ps_pages s2 ! ?p) = int idx
      \<and> ps_shards s2 = ps_shards s \<and> (\<forall>q < ?p. ps_pages s2 ! q = ps_pages s ! q)"
    if s2: "s2 = ?s1\<lparr>ps_clock := c, ps_file := fl\<rparr>" and fle: "(?p + 1) * kPageSize \<le> length fl"
      "\<And>a n. a + n \<le> length (ps_file s) \<Longrightarrow> pread a n fl = pread a n (ps_file s)" for s2 c fl
  proof -
    have f: "page_of n s2 = page_of n s" "loc s2 n = loc s n" "shard_of s2 = shard_of s" "cacheSlotOf q s2 = cacheSlotOf q s" for n q
      by (simp_all add: s2 page_of_def loc_def slot_of_def shard_of_def cacheSlotOf_def fun_eq_iff)
    have pages: "ps_pages s2 = ps_pages s @ [\<lparr>pm_section = int idx, pm_used = 1\<rparr>]" by (simp add: s2)
    have nth: "ps_pages s2 ! q = (if q < ?p then ps_pages s ! q else \<lparr>pm_section = int idx, pm_used = 1\<rparr>)" if "q \<le> ?p" for q
      using that by (simp add: pages nth_append)
    have r: "regrouped s s2" using fle(2) page_in_file I by (simp add: regrouped_def s2 nth_append)
    have v: "1 \<le> vectors_per_page s2"
      using I by (simp add: geometry_def vectors_per_page_def record_size_def s2 div_greater_zero_iff Suc_le_eq)
    have pok: "pages_ok s2"
      unfolding pages_ok_def
    proof (intro conjI allI impI)
      fix q assume q: "q < length (ps_pages s2)"
      then show "1 \<le> pm_used (ps_pages s2 ! q)" "pm_used (ps_pages s2 ! q) \<le> vectors_per_page s2" "0 \<le> pm_section (ps_pages s2 ! q)"
        using I v by (auto simp: nth pages pages_ok_def s2 vectors_per_page_def record_size_def nth_append)
    qed (use fle(1) in \<open>simp add: s2\<close>)
    have old: "q \<noteq> ?p" if "q \<in> set (list_at i (sh_open (shard_of s i))) \<or> (\<exists>l. (q, l) \<in> set (list_at i (sh_free (shard_of s i))))" for q i
      using I that unfolding lists_ok_def by (metis less_irrefl)
    have lok: "lists_ok s2"
    proof -
      have l: "lists_ok s" using I by blast
      have up: "q < length (ps_pages s2) \<and> ps_pages s2 ! q = ps_pages s ! q" if "q < ?p" for q
        using that by (simp add: pages nth_append)
      have o1: "q < length (ps_pages s2) \<and> pm_section (ps_pages s2 ! q) = int i" if "q \<in> set (list_at i (sh_open (shard_of s i)))" for i q
      proof -
        have "q < ?p \<and> pm_section (ps_pages s ! q) = int i" using l that unfolding lists_ok_def by blast
        then show ?thesis using up by simp
      qed
      have o2: "q < length (ps_pages s2) \<and> pm_section (ps_pages s2 ! q) = int i \<and> l \<noteq> 0 \<and> l < pm_used (ps_pages s2 ! q)
          \<and> (\<forall>n. page_of n s \<ge> 0 \<longrightarrow> loc s n \<noteq> (q, l))" if "(q, l) \<in> set (list_at i (sh_free (shard_of s i)))" for i q l
      proof -
        have "q < ?p \<and> pm_section (ps_pages s ! q) = int i \<and> l \<noteq> 0 \<and> l < pm_used (ps_pages s ! q)
          \<and> (\<forall>n. page_of n s \<ge> 0 \<longrightarrow> loc s n \<noteq> (q, l))" using l that unfolding lists_ok_def by blast
        then show ?thesis using up by simp
      qed
      have A: "\<forall>i q. q \<in> set (list_at i (sh_open (shard_of s i))) \<longrightarrow> q < length (ps_pages s2) \<and> pm_section (ps_pages s2 ! q) = int i"
        "\<forall>i q l. (q, l) \<in> set (list_at i (sh_free (shard_of s i))) \<longrightarrow> q < length (ps_pages s2) \<and> pm_section (ps_pages s2 ! q) = int i
          \<and> l \<noteq> 0 \<and> l < pm_used (ps_pages s2 ! q) \<and> (\<forall>n. page_of n s \<ge> 0 \<longrightarrow> loc s n \<noteq> (q, l))"
        by (intro allI impI, erule o1) (intro allI impI, erule o2)
      have "\<forall>i. distinct (list_at i (sh_free (shard_of s i)))" using l unfolding lists_ok_def by blast
      then show ?thesis unfolding lists_ok_def f by (intro conjI A)
    qed
    have "paged_inv io fx s2" "kept s s2" using regrouped_inv [OF inv r pok lok] by blast+
    moreover have un: "nat (page_of n s) \<noteq> ?p" if "page_of n s \<ge> 0" for n
      using I that unfolding locs_ok_def by (metis less_irrefl)
    moreover have "cacheSlotOf ?p s = None"
      using I unfolding page_cache_ok_def by (metis less_irrefl not_None_eq)
    ultimately have "fresh_at s2 ?p" by (simp add: fresh_at_def f)
    moreover have "loc s n \<noteq> (?p, 0)" if "page_of n s \<ge> 0" for n
      using un [OF that] by (simp add: loc_def)
    moreover note \<open>paged_inv io fx s2\<close> \<open>kept s s2\<close>
    moreover have "ps_shards s2 = ps_shards s" by (simp add: s2)
    ultimately show ?thesis using old by (auto simp: reserved_def f pages nth_append)
  qed
  have opened: "paged_inv io fx s3 \<and> kept s s3 \<and> length (ps_pages s3) = ?p + 1 \<and> reserved s3 ?p 0 idx"
    if "s2 = ?s1\<lparr>ps_clock := c, ps_file := fl\<rparr>" "(?p + 1) * kPageSize \<le> length fl"
      "\<And>a n. a + n \<le> length (ps_file s) \<Longrightarrow> pread a n fl = pread a n (ps_file s)"
      "s3 = (if vectors_per_page s2 > 1 then on_shard idx (sh_open_update (\<lambda>m. AList.update idx (list_at idx m @ [?p]) m)) s2 else s2)"
    for s2 s3 c fl
  proof -
    note F = fresh [OF that(1-3)]
    show ?thesis
    proof (cases "vectors_per_page s2 > 1")
      case True
      have sh: "shard_of s2 i = shard_of s i" for i using F by (simp add: shard_of_def)
      have "s3 = on_shard idx (sh_open_update (AList.update idx (list_at idx (sh_open (shard_of s2 idx)) @ [?p]))) s2"
        using True that(4) by (cases "shard_of s2 idx") (simp add: on_shard_def)
      moreover have "q < length (ps_pages s2) \<and> pm_section (ps_pages s2 ! q) = int idx"
        if "q \<in> set (list_at idx (sh_open (shard_of s2 idx)) @ [?p])" for q
      proof (cases "q = ?p")
        case False
        then have "q < ?p \<and> pm_section (ps_pages s ! q) = int idx" using that I by (simp add: sh lists_ok_def)
        then show ?thesis using F by simp
      qed (use F in simp)
      ultimately have "paged_inv io fx s3" "kept s2 s3" "ps_pages s3 = ps_pages s2" "reserved s3 ?p 0 idx = reserved s2 ?p 0 idx"
        using set_opens_inv [of io fx s2 "list_at idx (sh_open (shard_of s2 idx)) @ [?p]" idx s3] F by blast+
      then show ?thesis using F kept_trans by auto
    qed (use F that(4) in simp)
  qed
  show ?thesis unfolding fresh_page_def
  proof (intro wp_bnd wp_get wp_modify wp_ensurePageAllocated, goal_cases)
    case 1
    then show ?case using I by simp
  next
    case (2 s2)
    let ?s3 = "if 1 < vectors_per_page s2
      then on_shard idx (sh_open_update (\<lambda>m. AList.update idx (list_at idx m @ [(length \<circ> ps_pages) s]) m)) s2 else s2"
    show ?case
    proof (rule wp_ret)
      have r: "pread a n (ps_file s2) = pread a n (ps_file s)" if "a + n \<le> length (ps_file s)" for a n
        using 2(3) [of a n] that by simp
      have l: "(?p + 1) * kPageSize \<le> length (ps_file s2)" using 2(2) by simp
      show "paged_inv io fx ?s3 \<and> kept s ?s3 \<and> length (ps_pages ?s3) = ?p + 1 \<and> reserved ?s3 ((length \<circ> ps_pages) s) 0 idx"
        unfolding o_apply by (rule opened [OF 2(1) l r refl])
    qed
  qed
qed

lemma wp_allocate:
  assumes "paged_inv io fx s"
  shows "wp (allocateSlotForSection io key) s (\<lambda>(p, l, idx) s'. paged_inv io fx s' \<and> kept s s' \<and> reserved s' p l idx
    \<and> length (ps_pages s') \<le> length (ps_pages s) + 1) Q"
  unfolding allocateSlotForSection_def
proof (rule wp_seq [OF wp_section_index [OF assms]])
  fix idx s1 assume 1: "paged_inv io fx s1 \<and> kept s s1 \<and> ps_pages s1 = ps_pages s"
  show "wp (bnd (take_free idx) (\<lambda>r. case r of Some (p, slot) \<Rightarrow> ret (p, slot, idx)
       | None \<Rightarrow> bnd (fresh_page io idx) (\<lambda>p. ret (p, 0, idx)))) s1
     (\<lambda>(p, l, idx) s'. paged_inv io fx s' \<and> kept s s' \<and> reserved s' p l idx \<and> length (ps_pages s') \<le> length (ps_pages s) + 1) Q"
  proof (rule wp_seq [OF wp_take_free [OF conjunct1 [OF 1]]])
    fix r s2 assume 2: "paged_inv io fx s2 \<and> kept s1 s2 \<and> length (ps_pages s2) = length (ps_pages s1)
      \<and> (case r of None \<Rightarrow> True | Some (p, l) \<Rightarrow> reserved s2 p l idx)"
    have k: "kept s s2" using 1 2 kept_trans by blast
    show "wp (case r of Some (p, slot) \<Rightarrow> ret (p, slot, idx) | None \<Rightarrow> bnd (fresh_page io idx) (\<lambda>p. ret (p, 0, idx))) s2
       (\<lambda>(p, l, idx) s'. paged_inv io fx s' \<and> kept s s' \<and> reserved s' p l idx \<and> length (ps_pages s') \<le> length (ps_pages s) + 1) Q"
    proof (cases r)
      case None
      show ?thesis unfolding None option.case
        by (rule wp_seq [OF wp_fresh_page [OF conjunct1 [OF 2]]]) (use 1 2 kept_trans [OF k] in \<open>simp_all add: wp_ret\<close>)
    next
      case (Some a)
      then show ?thesis using 1 2 k by (cases a) (auto intro!: wp_ret)
    qed
  qed
qed

subsection \<open>Capacity, deletion markers and locations\<close>

lemma double_to: "0 < t \<Longrightarrow> m \<le> double_to t m \<and> t \<le> double_to t m"
proof (induction t m rule: double_to.induct)
  case (1 t m)
  show ?case
  proof (cases "m \<le> t")
    case False
    then show ?thesis using 1 by (subst (1 2) double_to.simps) auto
  qed (use 1 in \<open>subst (1 2) double_to.simps, simp\<close>)
qed

lemma kept_refl: "kept s s"
  by (simp add: kept_def)

text \<open>Changes of the tables the pages do not depend on.\<close>

lemma tables_inv:
  assumes inv: "paged_inv io fx s"
    and s': "s' = s\<lparr>ps_del := d, ps_flags := fl, ps_total := t, ps_idToPage := ip, ps_idToSlot := is, ps_updates := u, ps_clock := c\<rparr>"
    and geo: "length ip = t" "length is = t" "length fl = t"
    and loc: "locs_ok s'" "\<And>n i. page_of n s' \<ge> 0 \<Longrightarrow> page_of n s \<ge> 0 \<and> loc s' n = loc s n
       \<or> loc s' n \<notin> set (list_at i (sh_free (shard_of s i)))"
  shows "paged_inv io fx s'" "page_bytes s' p = page_bytes s p"
proof -
  note I = inv [unfolded paged_inv_def]
  have h: "holding s' p = holding s p" for p by (rule holding_cong) (simp_all add: s')
  have P: "page_bytes s' p = page_bytes s p" for p by (rule page_bytes_cong [OF h]) (simp add: s')
  then show "page_bytes s' p = page_bytes s p" .
  have sh: "shard_of s' i = shard_of s i" for i by (simp add: s' shard_of_def)
  have "geometry s'" using I geo by (simp add: geometry_def record_size_def s')
  moreover have "pages_ok s'" using I by (simp add: pages_ok_def vectors_per_page_def record_size_def s')
  moreover have "bufs_ok s'" using I bufs_ok_cong [of s' s] by (simp add: s')
  moreover have "lists_ok s'"
  proof -
    have "loc s' n \<noteq> (p, l)" if "page_of n s' \<ge> 0" "(p, l) \<in> set (list_at i (sh_free (shard_of s i)))" for n i p l
      using loc(2) [OF that(1), of i] that(2) I unfolding lists_ok_def by metis
    moreover have "ps_pages s' = ps_pages s" by (simp add: s')
    ultimately show ?thesis using I unfolding lists_ok_def sh by simp
  qed
  moreover have "page_cache_ok fx s'"
  proof -
    have "cacheSlotOf p s' = cacheSlotOf p s" for p by (simp add: s' cacheSlotOf_def)
    then show ?thesis using I by (simp add: page_cache_ok_def P) (simp add: s')
  qed
  ultimately show "paged_inv io fx s'" using I loc(1) by (simp add: paged_inv_def)
qed

lemma wp_ensure_dense:
  assumes inv: "paged_inv io fx s"
  shows "wp (ensure_dense_capacity io n) s (\<lambda>_ s'. paged_inv io fx s' \<and> kept s s' \<and> ps_pages s' = ps_pages s
    \<and> (is_direct_id n \<longrightarrow> unat n < ps_total s')) Q"
proof -
  let ?post = "\<lambda>s'. paged_inv io fx s' \<and> kept s s' \<and> ps_pages s' = ps_pages s \<and> (is_direct_id n \<longrightarrow> unat n < ps_total s')"
  note I = inv [unfolded paged_inv_def]
  show ?thesis
  proof (cases "is_direct_id n \<and> unat n \<ge> ps_total s")
    case False
    then have "?post s" using inv kept_refl by auto
    then show ?thesis using False unfolding ensure_dense_capacity_def by (intro wp_bnd wp_get) (auto intro: wp_ret)
  next
    case True
    define t where "t = double_to (if ps_total s = 0 then unat n + 1 else ps_total s) (unat n + 1)"
    have t: "unat n < t" "ps_total s \<le> t" unfolding t_def
      using double_to [of "if ps_total s = 0 then unat n + 1 else ps_total s" "unat n + 1"] by auto
    let ?grow = "\<lambda>s. s\<lparr>ps_idToPage := ps_idToPage s @ replicate (t - length (ps_idToPage s)) (- 1),
                            ps_idToSlot := ps_idToSlot s @ replicate (t - length (ps_idToSlot s)) 0,
                            ps_flags := ps_flags s @ replicate (t - length (ps_flags s)) 0,
                            ps_total := t\<rparr>"
    have len: "length (ps_idToPage s) = ps_total s" "length (ps_idToSlot s) = ps_total s" "length (ps_flags s) = ps_total s"
      using I by (simp_all add: geometry_def)
    have grown: "?post s2" if s1: "s1 = s\<lparr>ps_clock := c, ps_del := d\<rparr>" and s2: "s2 = ?grow s1" for s1 s2 c d
    proof -
      have f: "page_of m s2 = page_of m s" "slot_of m s2 = slot_of m s" "is_deleted_at m s2 = is_deleted_at m s" for m
        using t(2) len by (auto simp: s1 s2 page_of_def slot_of_def is_deleted_at_def nth_append)
      have g: "ps_pages s2 = ps_pages s" "ps_dim s2 = ps_dim s" "ps_total s2 = t" "length (ps_idToPage s2) = t"
        "length (ps_idToSlot s2) = t" "length (ps_flags s2) = t"
        using t(2) len by (simp_all add: s1 s2)
      have e: "s2 = s\<lparr>ps_del := ps_del s2, ps_flags := ps_flags s2, ps_total := t, ps_idToPage := ps_idToPage s2,
          ps_idToSlot := ps_idToSlot s2, ps_updates := ps_updates s, ps_clock := c\<rparr>" by (simp add: s1 s2)
      have "locs_ok s2" using I unfolding locs_ok_def loc_def f by (simp add: g)
      then have "paged_inv io fx s2" "page_bytes s2 p = page_bytes s p" for p
        by (auto intro!: tables_inv [OF inv e] simp: f loc_def g)
      then show ?thesis using t by (simp add: kept_def f g)
    qed
    have "wp (if length (ps_del s) < t then bnd (io_step io) (\<lambda>r.
                      if r \<noteq> None then throw
                      else modify (\<lambda>s. s\<lparr>ps_del := patch (t - 1) [0] (ps_del s)\<rparr>)) else ret ()) s
       (\<lambda>_ s1. ?post (?grow s1)) Q"
    proof (cases "length (ps_del s) < t")
      case grow: True
      let ?s1 = "s\<lparr>ps_clock := ps_clock s + 1, ps_del := patch (t - 1) [0] (ps_del s)\<rparr>"
      have "?post (?grow ?s1)" by (rule grown [OF refl refl])
      then have "wp (modify (\<lambda>s. s\<lparr>ps_del := patch (t - 1) [0] (ps_del s)\<rparr>)) (s\<lparr>ps_clock := ps_clock s + 1\<rparr>)
          (\<lambda>_ s1. ?post (?grow s1)) Q" by (intro wp_modify) simp
      then show ?thesis using grow I by (simp only: if_True) (intro wp_bnd steady_step, simp_all)
    next
      case no: False
      have "s = s\<lparr>ps_clock := ps_clock s, ps_del := ps_del s\<rparr>" by simp
      from grown [OF this refl] have "?post (?grow s)" .
      then show ?thesis using no by (simp add: wp_ret)
    qed
    note W = this
    have c: "\<not> unat n + 1 \<le> ps_total s" using True by simp
    show ?thesis unfolding ensure_dense_capacity_def expandCapacity_def Let_def
      by (intro wp_bnd wp_get, simp only: if_P [OF True], intro wp_bnd wp_get, simp only: id_apply if_not_P [OF c] t_def [symmetric],
          rule wp_bnd, rule wp_conseq [OF W]) (rule wp_modify)
  qed
qed

lemma wp_unmark:
  assumes inv: "paged_inv io fx s"
  shows "wp (mark_deleted_at io n False) s (\<lambda>_ s'. paged_inv io fx s' \<and> \<not> is_deleted_at n s'
    \<and> (\<exists>d fl c. s' = s\<lparr>ps_del := d, ps_flags := fl, ps_clock := c\<rparr>) \<and> (\<forall>m. m \<noteq> n \<longrightarrow> is_deleted_at m s' = is_deleted_at m s)) Q"
proof -
  let ?post = "\<lambda>s'. paged_inv io fx s' \<and> \<not> is_deleted_at n s'
    \<and> (\<exists>d fl c. s' = s\<lparr>ps_del := d, ps_flags := fl, ps_clock := c\<rparr>) \<and> (\<forall>m. m \<noteq> n \<longrightarrow> is_deleted_at m s' = is_deleted_at m s)"
  note I = inv [unfolded paged_inv_def]
  show ?thesis
  proof (cases "is_direct_id n \<and> unat n < ps_total s \<and> ps_flags s ! unat n \<noteq> 0")
    case False
    have "s = s\<lparr>ps_del := ps_del s, ps_flags := ps_flags s, ps_clock := ps_clock s\<rparr>" by simp
    moreover have "\<not> is_deleted_at n s" using False by (auto simp: is_deleted_at_def)
    ultimately have "?post s" using inv by blast
    then show ?thesis using False unfolding mark_deleted_at_def by (intro wp_bnd wp_get) (auto simp: wp_ret)
  next
    case True
    have len: "length (ps_idToPage s) = ps_total s" "length (ps_idToSlot s) = ps_total s" "length (ps_flags s) = ps_total s"
      using I by (simp_all add: geometry_def)
    have unmarked: "?post s2" if s2: "s2 = s\<lparr>ps_del := d, ps_flags := (ps_flags s)[unat n := 0], ps_clock := c\<rparr>" for s2 d c
    proof -
      have f: "page_of m s2 = page_of m s" "slot_of m s2 = slot_of m s" "ps_pages s2 = ps_pages s" for m
        by (simp_all add: s2 page_of_def slot_of_def)
      have e: "s2 = s\<lparr>ps_del := d, ps_flags := (ps_flags s)[unat n := 0], ps_total := ps_total s, ps_idToPage := ps_idToPage s,
          ps_idToSlot := ps_idToSlot s, ps_updates := ps_updates s, ps_clock := c\<rparr>" by (simp add: s2)
      have "locs_ok s2" using I unfolding locs_ok_def loc_def f by simp
      then have "paged_inv io fx s2" using len by (intro tables_inv [OF inv e]) (simp_all add: f loc_def)
      moreover have "is_deleted_at m s2 = (m \<noteq> n \<and> is_deleted_at m s)" for m
        using True len by (auto simp: s2 is_deleted_at_def nth_list_update word_unat_eq_iff)
      ultimately show "?post s2" using s2 by auto
    qed
    have "?post (s\<lparr>ps_flags := (ps_flags s)[unat n := 0], ps_clock := ps_clock s + 1, ps_del := patch (unat n) [0] (ps_del s)\<rparr>)"
      by (rule unmarked [where d = "patch (unat n) [0] (ps_del s)" and c = "ps_clock s + 1"]) simp
    then show ?thesis using True I unfolding mark_deleted_at_def paged_writeDeleteFlag_def Let_def
      by (intro wp_bnd wp_get) (simp, intro wp_bnd wp_modify steady_step, simp_all add: wp_modify)
  qed
qed

subsection \<open>The location is published\<close>

lemma wp_assign:
  assumes inv: "paged_inv io fx s" and r: "unused_slot s p l" and n: "is_direct_id n \<Longrightarrow> unat n < ps_total s" "length (ps_pages s) \<le> 2 ^ 31"
  shows "wp (assign_location n p l) s (\<lambda>_ s'. paged_inv io fx s' \<and> page_of n s' = int p \<and> slot_of n s' = l
    \<and> (\<forall>m. m \<noteq> n \<longrightarrow> page_of m s' = page_of m s \<and> slot_of m s' = slot_of m s) \<and> (\<forall>m. is_deleted_at m s' = is_deleted_at m s)
    \<and> ps_dim s' = ps_dim s \<and> (\<forall>q. page_bytes s' q = page_bytes s q)) Q"
proof -
  note I = inv [unfolded paged_inv_def]
  have len: "length (ps_idToPage s) = ps_total s" "length (ps_idToSlot s) = ps_total s" "length (ps_flags s) = ps_total s"
    using I by (simp_all add: geometry_def)
  have p: "p < length (ps_pages s)" using r by (simp add: unused_slot_def)
  have moved: "paged_inv io fx s2 \<and> (\<forall>q. page_bytes s2 q = page_bytes s q)"
    if s2: "s2 = s\<lparr>ps_idToPage := ip, ps_idToSlot := is, ps_updates := u\<rparr>" "length ip = ps_total s" "length is = ps_total s"
      and loc: "page_of n s2 = int p" "slot_of n s2 = l" "\<And>m. m \<noteq> n \<Longrightarrow> page_of m s2 = page_of m s \<and> slot_of m s2 = slot_of m s"
    for s2 ip "is" u
  proof -
    have e: "s2 = s\<lparr>ps_del := ps_del s, ps_flags := ps_flags s, ps_total := ps_total s, ps_idToPage := ip,
          ps_idToSlot := is, ps_updates := u, ps_clock := ps_clock s\<rparr>" using s2(1) by simp
    have L: "loc s2 n = (p, l)" "\<And>m. m \<noteq> n \<Longrightarrow> loc s2 m = loc s m" using loc by (simp_all add: loc_def)
    have pages: "ps_pages s2 = ps_pages s" by (simp add: s2(1))
    have "locs_ok s2"
      unfolding locs_ok_def pages
    proof (intro conjI allI impI)
      fix m assume "0 \<le> page_of m s2"
      then show "nat (page_of m s2) < length (ps_pages s)" "slot_of m s2 < pm_used (ps_pages s ! nat (page_of m s2))"
        using I r loc by (cases "m = n"; simp add: locs_ok_def unused_slot_def)+
    next
      fix m k assume "0 \<le> page_of m s2" "0 \<le> page_of k s2" "loc s2 m = loc s2 k"
      then show "m = k"
        using I r loc L unfolding locs_ok_def unused_slot_def by (cases "m = n"; cases "k = n") metis+
    qed
    moreover have "page_of m s2 \<ge> 0 \<Longrightarrow> page_of m s \<ge> 0 \<and> loc s2 m = loc s m \<or> loc s2 m \<notin> set (list_at i (sh_free (shard_of s i)))" for m i
      using r loc L by (cases "m = n") (simp_all add: unused_slot_def)
    ultimately show ?thesis using tables_inv [OF inv e s2(2,3) len(3)] by blast
  qed
  show ?thesis
  proof (cases "is_direct_id n")
    case False
    let ?s = "s\<lparr>ps_updates := AList.update n (int p, l) (ps_updates s)\<rparr>"
    have f: "page_of n ?s = int p" "slot_of n ?s = l" "m \<noteq> n \<Longrightarrow> page_of m ?s = page_of m s \<and> slot_of m ?s = slot_of m s" for m
      using False by (simp_all add: page_of_def slot_of_def update_conv)
    have "?s = s\<lparr>ps_idToPage := ps_idToPage s, ps_idToSlot := ps_idToSlot s, ps_updates := ps_updates ?s\<rparr>" by simp
    from moved [OF this len(1,2) f] show ?thesis using False f unfolding assign_location_def
      by (simp add: wp_modify is_deleted_at_def)
  next
    case True
    let ?s = "s\<lparr>ps_idToPage := (ps_idToPage s)[unat n := int p], ps_idToSlot := (ps_idToSlot s)[unat n := l]\<rparr>"
    have f: "page_of n ?s = int p" "slot_of n ?s = l" "m \<noteq> n \<Longrightarrow> page_of m ?s = page_of m s \<and> slot_of m ?s = slot_of m s" for m
      using True n len by (auto simp: page_of_def slot_of_def nth_list_update word_unat_eq_iff)
    have e: "?s = s\<lparr>ps_idToPage := ps_idToPage ?s, ps_idToSlot := ps_idToSlot ?s, ps_updates := ps_updates s\<rparr>" by simp
    have "paged_inv io fx ?s \<and> (\<forall>q. page_bytes ?s q = page_bytes s q)"
      by (rule moved [OF e _ _ f]) (simp_all add: len)
    moreover have "\<not> p > 2 ^ 31 - 1" using p n(2) by simp
    ultimately show ?thesis using True f unfolding assign_location_def
      by (simp add: wp_modify is_deleted_at_def)
  qed
qed

subsection \<open>Storing a new record\<close>

definition stored_new :: "medium \<Rightarrow> node_id \<Rightarrow> bytes \<Rightarrow> paged_store \<Rightarrow> paged_store \<Rightarrow> bool" where
  "stored_new io n rec s s' \<longleftrightarrow> paged_inv io unpatched s' \<and> ps_dim s' = ps_dim s \<and> page_of n s' \<ge> 0
     \<and> rec_at s' (nat (page_of n s')) (slot_of n s') = rec \<and> \<not> is_deleted_at n s'
     \<and> (\<forall>m. m \<noteq> n \<longrightarrow> page_of m s' = page_of m s \<and> is_deleted_at m s' = is_deleted_at m s
          \<and> (\<forall>F. paged_view F s' m = paged_view F s m))"

lemma wp_write_record:
  assumes inv: "paged_inv io unpatched s" and r: "reserved s p l idx" and rec: "length rec = record_size s"
    and k: "\<And>s'. paged_inv io unpatched s' \<Longrightarrow> wrote s p l rec s' \<Longrightarrow> wp m s' P Q"
  shows "wp (bnd (writeToSectionBuffer io idx p l rec) (\<lambda>done.
       bnd (if done then ret () else bnd (writeRecord io p l rec) (\<lambda>_. modify (updateCacheAfterWrite p l rec))) (\<lambda>_. m))) s P Q"
proof -
  have p: "p < length (ps_pages s)" "pm_section (ps_pages s ! p) = int idx" "l = 0 \<Longrightarrow> fresh_at s p"
    using r by (simp_all add: reserved_def)
  have l: "l < vectors_per_page s" using r inv unfolding reserved_def paged_inv_def pages_ok_def by fastforce
  show ?thesis
  proof (rule wp_seq [OF wp_writeToSectionBuffer [OF inv p(1,2) l rec p(3)]])
    fix dn s1 assume 1: "if dn then paged_inv io unpatched s1 \<and> wrote s p l rec s1 else s1 = s \<and> holding s p = None"
    have "wp (if dn then ret () else bnd (writeRecord io p l rec) (\<lambda>_. modify (updateCacheAfterWrite p l rec))) s1
        (\<lambda>_ s'. paged_inv io unpatched s' \<and> wrote s p l rec s') Q"
      using 1 wp_write_direct [OF inv p(1) _ l rec] by (cases dn) (simp_all add: wp_ret)
    then show "wp (bnd (if dn then ret () else bnd (writeRecord io p l rec) (\<lambda>_. modify (updateCacheAfterWrite p l rec)))
        (\<lambda>_. m)) s1 P Q" by (rule wp_seq) (use k in auto)
  qed
qed

lemma wp_store_new:
  assumes inv: "paged_inv io unpatched s" and n: "page_of n s < 0" and b: "length (ps_pages s) < 2 ^ 31" and rec: "length rec = record_size s"
  shows "wp (paged_store_encoded io n rec key) s (\<lambda>_. stored_new io n rec s) Q"
  unfolding paged_store_encoded_def
proof (rule wp_seq [OF wp_ensure_dense [OF inv]], rule wp_bnd, rule wp_get, unfold prod.case)
  fix s1 assume 1: "paged_inv io unpatched s1 \<and> kept s s1 \<and> ps_pages s1 = ps_pages s \<and> (is_direct_id n \<longrightarrow> unat n < ps_total s1)"
  have n1: "\<not> page_of n s1 \<ge> 0" using 1 n by (simp add: kept_def)
  show "wp (if page_of n s1 \<ge> 0 then
       bnd (writeRecord io (nat (page_of n s1)) (slot_of n s1) rec) (\<lambda>_.
       bnd (modify (updateCacheAfterWrite (nat (page_of n s1)) (slot_of n s1) rec)) (\<lambda>_.
       mark_deleted_at io n False))
     else
       bnd (allocateSlotForSection io key) (\<lambda>(p, slot, idx).
       bnd (writeToSectionBuffer io idx p slot rec) (\<lambda>done.
       bnd (if done then ret ()
            else bnd (writeRecord io p slot rec) (\<lambda>_. modify (updateCacheAfterWrite p slot rec))) (\<lambda>_.
       bnd (mark_deleted_at io n False) (\<lambda>_.
       assign_location n p slot))))) s1 (\<lambda>_. stored_new io n rec s) Q"
    unfolding if_not_P [OF n1]
  proof (rule wp_seq [OF wp_allocate [OF conjunct1 [OF 1]]], clarify)
    fix p l idx s2 assume 2: "paged_inv io unpatched s2" "kept s1 s2" "reserved s2 p l idx" "length (ps_pages s2) \<le> length (ps_pages s1) + 1"
    have k: "kept s s2" using 1 2 kept_trans by blast
    have l0: "locs_ok s" using inv by (simp add: paged_inv_def)
    have n2: "\<not> page_of n s2 \<ge> 0" using n1 2(2) by (simp add: kept_def)
    have tot: "is_direct_id n \<Longrightarrow> unat n < ps_total s2" using 1 2(2) unfolding kept_def by (meson less_le_trans)
    have dim: "ps_dim s2 = ps_dim s" using k by (simp add: kept_def)
    then have rec2: "length rec = record_size s2" using rec by (simp add: record_size_def)
    have I2: "locs_ok s2" "geometry s2" "pages_ok s2" using 2(1) by (simp_all add: paged_inv_def)
    have p: "p < length (ps_pages s2)" "l < vectors_per_page s2" "\<And>m. page_of m s2 \<ge> 0 \<Longrightarrow> loc s2 m \<noteq> (p, l)"
      using 2(3) I2(3) unfolding reserved_def pages_ok_def by (auto intro: less_le_trans)
    show "wp (bnd (writeToSectionBuffer io idx p l rec) (\<lambda>done.
       bnd (if done then ret () else bnd (writeRecord io p l rec) (\<lambda>_. modify (updateCacheAfterWrite p l rec))) (\<lambda>_.
       bnd (mark_deleted_at io n False) (\<lambda>_. assign_location n p l)))) s2 (\<lambda>_. stored_new io n rec s) Q"
    proof (rule wp_write_record [OF 2(1,3) rec2])
      fix s3 assume 3: "paged_inv io unpatched s3" "wrote s2 p l rec s3"
      have C: "core s3 = core s2" using 3(2) by (simp add: wrote_def)
      note V3 = wrote_view [OF 3(2) I2(1,2) rec2 p(1,2) I2(3) p(3)]
      have del3: "is_deleted_at m s3 = is_deleted_at m s2" "ps_dim s3 = ps_dim s2" "ps_total s3 = ps_total s2" for m
        using C by (simp_all add: is_deleted_at_def core_def)
      show "wp (bnd (mark_deleted_at io n False) (\<lambda>_. assign_location n p l)) s3 (\<lambda>_. stored_new io n rec s) Q"
      proof (rule wp_seq [OF wp_unmark [OF 3(1)]], clarify)
        fix s4 d fl c
        let ?s4 = "s3\<lparr>ps_del := d, ps_flags := fl, ps_clock := c\<rparr>"
        assume 4: "paged_inv io unpatched ?s4" "\<not> is_deleted_at n ?s4" "\<forall>m. m \<noteq> n \<longrightarrow> is_deleted_at m ?s4 = is_deleted_at m s3"
        have "page_bytes ?s4 q = page_bytes s3 q" for q
          by (rule page_bytes_cong, rule holding_cong) simp_all
        then have f4: "page_of m ?s4 = page_of m s3" "slot_of m ?s4 = slot_of m s3" "page_bytes ?s4 q = page_bytes s3 q" for m q
          by (simp_all add: page_of_def slot_of_def)
        have v4: "paged_view F ?s4 m = paged_view F s3 m" for F m
          by (simp add: paged_view_def rec_at_def f4 slot_offset_def record_size_def)
        have "unused_slot ?s4 p l = unused_slot s3 p l"
          by (simp add: unused_slot_def f4 loc_def) (simp add: shard_of_def)
        then have u4: "unused_slot ?s4 p l" using core_unused [OF C] reserved_unused [OF 2(3)] by simp
        have t4: "is_direct_id n \<Longrightarrow> unat n < ps_total ?s4" using tot del3 by simp
        have b4: "length (ps_pages ?s4) \<le> 2 ^ 31" using 1 2(4) b core_locs(8) [OF C] by simp
        show "wp (assign_location n p l) ?s4 (\<lambda>_. stored_new io n rec s) Q"
        proof (rule wp_conseq [OF wp_assign [OF 4(1) u4 t4 b4]])
          fix s5 assume 5: "paged_inv io unpatched s5 \<and> page_of n s5 = int p \<and> slot_of n s5 = l
            \<and> (\<forall>m. m \<noteq> n \<longrightarrow> page_of m s5 = page_of m ?s4 \<and> slot_of m s5 = slot_of m ?s4) \<and> (\<forall>m. is_deleted_at m s5 = is_deleted_at m ?s4)
            \<and> ps_dim s5 = ps_dim ?s4 \<and> (\<forall>q. page_bytes s5 q = page_bytes ?s4 q)"
          have d5: "ps_dim s5 = ps_dim s" using 5 del3 dim by simp
          have "rec_at s5 p l = rec_at s3 p l" using 5 f4 by (simp add: rec_at_def slot_offset_def record_size_def)
          then have "rec_at s5 p l = rec" using V3(1) by simp
          moreover have "page_of m s5 = page_of m s \<and> is_deleted_at m s5 = is_deleted_at m s \<and> paged_view F s5 m = paged_view F s m"
            if m: "m \<noteq> n" for m F
          proof -
            have "paged_view F s5 m = paged_view F ?s4 m" using 5 m by (simp add: paged_view_def rec_at_def slot_offset_def record_size_def)
            also have "\<dots> = paged_view F s2 m" using v4 V3(2) by simp
            also have "\<dots> = paged_view F s m" using kept_view [OF k l0] by simp
            finally have "paged_view F s5 m = paged_view F s m" .
            moreover have "page_of m s5 = page_of m s2" using 5 m f4(1) core_locs(1) [OF C] by simp
            moreover have "is_deleted_at m s5 = is_deleted_at m s2" using 5 m 4(3) del3(1) by simp
            moreover have "page_of m s2 = page_of m s" "is_deleted_at m s2 = is_deleted_at m s" using k by (simp_all add: kept_def)
            ultimately show ?thesis by simp
          qed
          ultimately show "stored_new io n rec s s5" using 5 4(2) d5 by (simp add: stored_new_def)
        qed
      qed
    qed
  qed
qed

end
