(* ===== verification/Paged_Read.thy ===== *)
theory Paged_Read
  imports Paged_Alloc
begin

text \<open>
  Reads of the paged store: a write buffer, the cache or the file give the record, and loading a page
  into the cache leaves the contents alone. With the writes this makes the paged layout a
  \<open>vector_store\<close> on a medium that works.
\<close>

subsection \<open>Hits\<close>

lemma write_buf_hit:
  assumes "paged_inv io fx s"
  shows "tryReadFromWriteBuf F p l s = map_option (\<lambda>d. disk_dequantize F (rec_at s p l)) (holding s p)"
proof -
  have "bufs_ok s" using assms by (simp add: paged_inv_def)
  from page_buffer_holding [OF this] show ?thesis
    by (cases "holding s p") (simp_all add: tryReadFromWriteBuf_def rec_at_def page_bytes_def)
qed

lemma overlay_page:
  assumes "paged_inv io fx s"
  shows "overlayWriteBuf p (pread (p * kPageSize) kPageSize (ps_file s)) s = page_bytes s p"
proof -
  have "bufs_ok s" using assms by (simp add: paged_inv_def)
  from page_buffer_holding [OF this] show ?thesis by (simp add: overlayWriteBuf_def page_bytes_def)
qed

lemma cached_data:
  assumes "paged_inv io unpatched s" "cacheSlotOf p s = Some c"
  shows "pb_data (ps_slots s ! c) = page_bytes s p" "p < length (ps_pages s)" "length (pb_data (ps_slots s ! c)) = kPageSize"
  using assms unfolding paged_inv_def page_cache_ok_def unpatched_def by blast+

lemma cache_hit:
  assumes "paged_inv io unpatched s" "l < vectors_per_page s"
  shows "tryReadFromCache F p l s = (if ps_max_cached s = 0 then None else cached_record F p l s)"
    "cached_record F p l s = map_option (\<lambda>c. disk_dequantize F (rec_at s p l)) (cacheSlotOf p s)"
proof -
  have g: "geometry s" using assms(1) by (simp add: paged_inv_def)
  note e = slot_end [OF g assms(2)]
  have d: "pb_data (ps_slots s ! c) = page_bytes s p" "length (page_bytes s p) = kPageSize" if "cacheSlotOf p s = Some c" for c
    using cached_data [OF assms(1) that] by simp_all
  show "tryReadFromCache F p l s = (if ps_max_cached s = 0 then None else cached_record F p l s)"
    using e d by (auto simp: tryReadFromCache_def cached_record_def split: option.split)
  show "cached_record F p l s = map_option (\<lambda>c. disk_dequantize F (rec_at s p l)) (cacheSlotOf p s)"
    using d by (cases "cacheSlotOf p s") (auto simp: cached_record_def rec_at_def)
qed

lemma record_in_file:
  assumes "paged_inv io fx s" "holding s p = None" "p < length (ps_pages s)" "l < vectors_per_page s"
  shows "pread (p * kPageSize + slot_offset s l) (record_size s) (ps_file s) = rec_at s p l" "length (rec_at s p l) = record_size s"
proof -
  have g: "geometry s" "pages_ok s" using assms(1) by (simp_all add: paged_inv_def)
  note e = slot_end [OF g(1) assms(4)] and f = page_in_file [OF g(2) assms(3)]
  show "pread (p * kPageSize + slot_offset s l) (record_size s) (ps_file s) = rec_at s p l"
    using e f assms(2) by (intro nth_equalityI) (auto simp: rec_at_def page_bytes_def nth_pread add.assoc)
  show "length (rec_at s p l) = record_size s"
    using e length_bytes [OF assms(1,3)] by (simp add: rec_at_def)
qed

text \<open>What a read leaves: the contents and the buffers.\<close>

definition undisturbed :: "medium \<Rightarrow> paged_store \<Rightarrow> paged_store \<Rightarrow> bool" where
  "undisturbed io s s' \<longleftrightarrow> paged_inv io unpatched s' \<and> same_bytes s s' \<and> ps_shards s' = ps_shards s"

lemma undisturbed_trans: "undisturbed io s s' \<Longrightarrow> undisturbed io s' s'' \<Longrightarrow> undisturbed io s s''"
  unfolding undisturbed_def using same_bytes_trans by metis

lemma undisturbed_refl: "paged_inv io unpatched s \<Longrightarrow> undisturbed io s s"
  by (simp add: undisturbed_def same_bytes_refl)

lemma undisturbed_core: "undisturbed io s s' \<Longrightarrow> core s' = core s"
  by (simp add: undisturbed_def same_bytes_def)

lemma undisturbed_locs:
  assumes "undisturbed io s s'"
  shows "page_of n s' = page_of n s" "slot_of n s' = slot_of n s" "vectors_per_page s' = vectors_per_page s"
    "ps_pages s' = ps_pages s" "holding s' p = holding s p" "p < length (ps_pages s) \<Longrightarrow> rec_at s' p l = rec_at s p l"
proof -
  note C = core_locs [OF undisturbed_core [OF assms]]
  show "page_of n s' = page_of n s" "slot_of n s' = slot_of n s" "vectors_per_page s' = vectors_per_page s" "ps_pages s' = ps_pages s"
    by (rule C)+
  show "holding s' p = holding s p" by (rule holding_cong [OF _ C(8)]) (use assms in \<open>simp add: undisturbed_def\<close>)
  show "p < length (ps_pages s) \<Longrightarrow> rec_at s' p l = rec_at s p l"
    using assms by (simp add: rec_at_def C undisturbed_def same_bytes_def)
qed

subsection \<open>Loading a page\<close>

lemma publish_fields [simp]:
  "core (publish_page p d s) = core s" "ps_file (publish_page p d s) = ps_file s" "ps_shards (publish_page p d s) = ps_shards s"
  "ps_buf_count (publish_page p d s) = ps_buf_count s" "ps_buf_cap (publish_page p d s) = ps_buf_cap s"
  "ps_pages (publish_page p d s) = ps_pages s" "ps_max_cached (publish_page p d s) = ps_max_cached s"
  by (simp_all add: publish_page_def Let_def core_def shard_of_def split: option.split)

definition slot_in :: "int list \<Rightarrow> nat \<Rightarrow> nat option" where
  "slot_in l q = (if q < length l \<and> l ! q \<ge> 0 then Some (nat (l ! q)) else None)"

definition grown_to :: "nat \<Rightarrow> int list \<Rightarrow> int list" where
  "grown_to p l = (if p \<ge> length l then l @ replicate (p + 1024 - length l) (- 1) else l)"

lemma slot_in_grown [simp]: "slot_in (grown_to p l) q = slot_in l q"
  by (auto simp: slot_in_def grown_to_def nth_append)

lemma slot_in_put: "slot_in ((grown_to p l)[p := int c]) q = (if q = p then Some c else slot_in l q)"
proof -
  have "p < length (grown_to p l)" by (auto simp: grown_to_def)
  then have "slot_in ((grown_to p l)[p := int c]) q = (if q = p then Some c else slot_in (grown_to p l) q)"
    unfolding slot_in_def by (simp add: nth_list_update)
  then show ?thesis by simp
qed

lemma slot_in_clear: "slot_in (l[v := - 1]) q = (if q = v then None else slot_in l q)"
  by (auto simp: slot_in_def nth_list_update)

lemma cacheSlotOf_slot_in: "cacheSlotOf q s = slot_in (ps_pageToSlot s) q"
  by (simp add: cacheSlotOf_def slot_in_def)

lemma publish_append:
  assumes "ps_cached s < ps_max_cached s"
  shows "publish_page p d s = s\<lparr>ps_cached := ps_cached s + 1,
    ps_slots := (ps_slots s @ replicate (ps_cached s + 1 - length (ps_slots s)) \<lparr>pb_data = [], pb_page = None\<rparr>)[ps_cached s := \<lparr>pb_data = d, pb_page = Some p\<rparr>],
    ps_pageToSlot := (grown_to p (ps_pageToSlot s))[p := int (ps_cached s)]\<rparr>"
  using assms by (simp add: publish_page_def Let_def grown_to_def)

lemma publish_evict:
  assumes "\<not> ps_cached s < ps_max_cached s"
  shows "publish_page p d s = s\<lparr>ps_hand := (ps_hand s + 1) mod ps_max_cached s,
    ps_slots := (ps_slots s)[ps_hand s := \<lparr>pb_data = d, pb_page = Some p\<rparr>],
    ps_pageToSlot := (grown_to p (case pb_page (ps_slots s ! ps_hand s) of None \<Rightarrow> ps_pageToSlot s
       | Some v \<Rightarrow> (ps_pageToSlot s)[v := - 1]))[p := int (ps_hand s)]\<rparr>"
  using assms by (cases s) (auto simp: publish_page_def Let_def grown_to_def not_less list_update_beyond split: option.split)

lemma published_cache:
  assumes "page_cache_ok fx s" "0 < ps_max_cached s" "cacheSlotOf p s = None" "p < length (ps_pages s)" "length d = kPageSize"
    and "fx p d = page_bytes s p" "\<And>q. page_bytes (publish_page p d s) q = page_bytes s q"
  shows "page_cache_ok fx (publish_page p d s)"
proof -
  have K: "ps_cached s \<le> length (ps_slots s)" "ps_cached s \<le> ps_max_cached s" "ps_hand s < ps_max_cached s"
    using assms(1,2) by (simp_all add: page_cache_ok_def)
  have old: "k < ps_cached s" "q < length (ps_pages s)" "pb_page (ps_slots s ! k) = Some q"
    "length (pb_data (ps_slots s ! k)) = kPageSize" "fx q (pb_data (ps_slots s ! k)) = page_bytes s q" if "cacheSlotOf q s = Some k" for q k
    using assms(1) that unfolding page_cache_ok_def by blast+
  show ?thesis
  proof (cases "ps_cached s < ps_max_cached s")
    case True
    let ?s = "publish_page p d s"
    have slots: "ps_slots ?s ! k = (if k = ps_cached s then \<lparr>pb_data = d, pb_page = Some p\<rparr> else ps_slots s ! k)" if "k \<le> ps_cached s" for k
      using K(1) that by (auto simp: publish_append [OF True] nth_append nth_list_update)
    have cs: "cacheSlotOf q ?s = (if q = p then Some (ps_cached s) else cacheSlotOf q s)" for q
      unfolding cacheSlotOf_slot_in by (simp add: publish_append [OF True] slot_in_put)
    have f: "ps_cached ?s = ps_cached s + 1" "ps_hand ?s = ps_hand s" "ps_cached s + 1 \<le> length (ps_slots ?s)"
      by (simp_all add: publish_append [OF True])
    show ?thesis
      unfolding page_cache_ok_def assms(7)
    proof (intro conjI allI impI)
      fix q k assume q: "cacheSlotOf q ?s = Some k"
      show "k < ps_cached ?s" "q < length (ps_pages ?s)" "pb_page (ps_slots ?s ! k) = Some q"
        "length (pb_data (ps_slots ?s ! k)) = kPageSize" "fx q (pb_data (ps_slots ?s ! k)) = page_bytes s q"
        using q old [of q k] assms(4-6) by (cases "q = p"; auto simp: cs f slots)+
    qed (use K True f in simp_all)
  next
    case False
    let ?s = "publish_page p d s"
    have slots: "ps_slots ?s ! k = (if k = ps_hand s then \<lparr>pb_data = d, pb_page = Some p\<rparr> else ps_slots s ! k)" if "k < ps_cached s" for k
      using K(1) that by (auto simp: publish_evict [OF False] nth_list_update)
    have cs: "cacheSlotOf q ?s = (if q = p then Some (ps_hand s) else if pb_page (ps_slots s ! ps_hand s) = Some q then None else cacheSlotOf q s)" for q
      unfolding cacheSlotOf_slot_in by (auto simp: publish_evict [OF False] slot_in_put slot_in_clear split: option.split)
    have f: "ps_cached ?s = ps_cached s" "ps_hand ?s < ps_max_cached s" "length (ps_slots ?s) = length (ps_slots s)"
      using assms(2) by (simp_all add: publish_evict [OF False])
    show ?thesis
      unfolding page_cache_ok_def assms(7)
    proof (intro conjI allI impI)
      fix q k assume q: "cacheSlotOf q ?s = Some k"
      show "k < ps_cached ?s" "q < length (ps_pages ?s)" "pb_page (ps_slots ?s ! k) = Some q"
        "length (pb_data (ps_slots ?s ! k)) = kPageSize" "fx q (pb_data (ps_slots ?s ! k)) = page_bytes s q"
        using q old [of q k] assms(4-6) K False by (cases "q = p"; auto simp: cs f slots split: if_splits)+
    qed (use K False f in simp_all)
  qed
qed

lemma wp_loadPageToCache:
  assumes inv: "paged_inv io unpatched s" and p: "p < length (ps_pages s)"
  shows "wp (loadPageToCache io p) s (\<lambda>_. undisturbed io s) Q"
proof (cases "ps_max_cached s = 0 \<or> cacheSlotOf p s \<noteq> None")
  case True
  then show ?thesis unfolding loadPageToCache_def using undisturbed_refl [OF inv] by (intro wp_bnd wp_get) (auto simp: wp_ret)
next
  case False
  define s1 where "s1 = s\<lparr>ps_clock := ps_clock s + 1\<rparr>"
  have C1: "core s1 = core s" by (simp add: s1_def core_def shard_of_def)
  have P1: "page_bytes s1 q = page_bytes s q" for q by (rule page_bytes_cong, rule holding_cong) (simp_all add: s1_def)
  have I: "pages_ok s" "bufs_ok s" "page_cache_ok unpatched s" "steady io" using inv by (simp_all add: paged_inv_def)
  have "bufs_ok s1" using I(2) bufs_ok_cong [of s1 s] by (simp add: s1_def)
  moreover have "page_cache_ok unpatched s1" using I(3) by (simp add: page_cache_ok_def P1) (simp add: s1_def)
  moreover have "pages_ok s1" using I(1) by (simp add: pages_ok_def core_locs [OF C1]) (simp add: s1_def)
  ultimately have inv1: "paged_inv io unpatched s1" using inv by (simp add: paged_inv_def core_ok [OF C1])
  define d where "d = overlayWriteBuf p (pread (p * kPageSize) kPageSize (ps_file s1)) s1"
  have d: "d = page_bytes s1 p" unfolding d_def by (rule overlay_page [OF inv1])
  let ?s = "publish_page p d s1"
  have P: "page_bytes ?s q = page_bytes s1 q" for q by (rule page_bytes_cong, rule holding_cong) simp_all
  have "cacheSlotOf p s1 = None" "0 < ps_max_cached s1" using False by (simp_all add: s1_def)
  moreover have p1: "p < length (ps_pages s1)" using p by (simp add: s1_def)
  moreover have "page_cache_ok unpatched s1" using inv1 by (simp add: paged_inv_def)
  moreover have "length d = kPageSize" "unpatched p d = page_bytes s1 p"
    using length_bytes [OF inv1 p1] by (simp_all add: d unpatched_def)
  ultimately have "page_cache_ok unpatched ?s" using P by (intro published_cache)
  moreover have "bufs_ok ?s" using \<open>bufs_ok s1\<close> bufs_ok_cong [of ?s s1] by simp
  moreover have C: "core ?s = core s1" by simp
  moreover have "pages_ok ?s" using \<open>pages_ok s1\<close> by (simp add: pages_ok_def core_locs [OF C])
  ultimately have "paged_inv io unpatched ?s" using inv1 by (simp add: paged_inv_def core_ok [OF C])
  moreover have "same_bytes s ?s" using P P1 C1 by (simp add: same_bytes_def)
  moreover have "zero_fill kPageSize (pread (p * kPageSize) kPageSize (ps_file s1)) = pread (p * kPageSize) kPageSize (ps_file s1)"
    using page_in_file [OF \<open>pages_ok s1\<close> p1] by simp
  moreover have "ps_shards ?s = ps_shards s" by (simp add: s1_def)
  ultimately show ?thesis
    using False unfolding loadPageToCache_def read_page_def
    by (intro wp_bnd wp_get) (simp, intro wp_bnd steady_step [OF I(4)] wp_get wp_modify, fold s1_def, simp add: d_def undisturbed_def)
qed

subsection \<open>Reads\<close>

lemma wp_readDirect:
  assumes "paged_inv io unpatched s" "holding s p = None" "p < length (ps_pages s)" "l < vectors_per_page s"
  shows "wp (readDirect F io p l) s (\<lambda>v s'. v = disk_dequantize F (rec_at s p l) \<and> undisturbed io s s') Q"
    "wp (directReadRecord F io p l) s (\<lambda>v s'. v = disk_dequantize F (rec_at s p l) \<and> undisturbed io s s') Q"
proof -
  define s1 where "s1 = s\<lparr>ps_clock := ps_clock s + 1\<rparr>"
  have C1: "core s1 = core s" by (simp add: s1_def core_def shard_of_def)
  have P1: "page_bytes s1 q = page_bytes s q" for q by (rule page_bytes_cong, rule holding_cong) (simp_all add: s1_def)
  have I: "pages_ok s" "bufs_ok s" "page_cache_ok unpatched s" "steady io" using assms(1) by (simp_all add: paged_inv_def)
  have "bufs_ok s1" using I(2) bufs_ok_cong [of s1 s] by (simp add: s1_def)
  moreover have "page_cache_ok unpatched s1" using I(3) by (simp add: page_cache_ok_def P1) (simp add: s1_def)
  moreover have "pages_ok s1" using I(1) by (simp add: pages_ok_def core_locs [OF C1]) (simp add: s1_def)
  ultimately have inv1: "paged_inv io unpatched s1" "same_bytes s s1"
    using assms(1) P1 C1 by (simp_all add: paged_inv_def core_ok [OF C1] same_bytes_def)
  have "holding s1 p = None" using assms(2) holding_cong [of s1 s p] by (simp add: s1_def)
  moreover have "p < length (ps_pages s1)" "l < vectors_per_page s1" using assms(3,4) by (simp_all add: core_locs [OF C1])
  moreover have r: "rec_at s1 p l = rec_at s p l" by (simp add: rec_at_def P1 core_locs [OF C1])
  ultimately have R: "pread (p * kPageSize + slot_offset s1 l) (record_size s1) (ps_file s1) = rec_at s p l"
    "length (rec_at s p l) = record_size s1" using record_in_file [OF inv1(1)] by metis+
  have u1: "undisturbed io s s1" using inv1 by (simp add: undisturbed_def) (simp add: s1_def)
  show "wp (readDirect F io p l) s (\<lambda>v s'. v = disk_dequantize F (rec_at s p l) \<and> undisturbed io s s') Q"
    unfolding readDirect_def
    by (intro wp_bnd steady_step [OF I(4)] wp_get, fold s1_def) (simp add: R u1 wp_ret)
  have "tryReadFromWriteBuf F p l s = None" using write_buf_hit [OF assms(1)] assms(2) by simp
  then show "wp (directReadRecord F io p l) s (\<lambda>v s'. v = disk_dequantize F (rec_at s p l) \<and> undisturbed io s s') Q"
    unfolding directReadRecord_def
    by (intro wp_bnd wp_get) (simp, intro wp_bnd steady_step [OF I(4)] wp_get, fold s1_def, simp add: R u1)
qed

lemma located:
  assumes "paged_inv io fx s" "page_of n s \<ge> 0"
  shows "nat (page_of n s) < length (ps_pages s)" "slot_of n s < vectors_per_page s"
proof -
  have I: "locs_ok s" "pages_ok s" using assms(1) by (simp_all add: paged_inv_def)
  then show "nat (page_of n s) < length (ps_pages s)" using assms(2) by (simp add: locs_ok_def)
  with I assms(2) show "slot_of n s < vectors_per_page s" unfolding locs_ok_def pages_ok_def by (meson less_le_trans)
qed

lemma wp_paged_read:
  assumes inv: "paged_inv io unpatched s" and v: "paged_view F s n = Some v"
  shows "wp (paged_read F io n) s (\<lambda>r s'. r = v \<and> undisturbed io s s') Q"
proof -
  have n: "\<not> page_of n s < 0" "v = disk_dequantize F (rec_at s (nat (page_of n s)) (slot_of n s))"
    using v by (simp_all add: paged_view_def split: if_splits)
  let ?p = "nat (page_of n s)" and ?l = "slot_of n s"
  have L: "?p < length (ps_pages s)" "?l < vectors_per_page s" using located [OF inv] n(1) by simp_all
  have step: "wp (bnd (get (tryReadFromCache F ?p ?l)) (\<lambda>hit. case hit of Some v \<Rightarrow> ret v | None \<Rightarrow> m)) s1
      (\<lambda>r s'. r = v \<and> undisturbed io s s') Q"
    if u: "undisturbed io s s1" and m: "wp m s1 (\<lambda>r s'. r = v \<and> undisturbed io s s') Q" for s1 m
  proof -
    have "paged_inv io unpatched s1" using u by (simp add: undisturbed_def)
    note hit = cache_hit [OF this, of ?l F ?p, unfolded undisturbed_locs [OF u], OF L(2)]
    show ?thesis using m u n(2) undisturbed_locs(6) [OF u L(1)]
      by (intro wp_bnd wp_get) (auto simp: hit wp_ret split: option.split)
  qed
  have direct: "wp (readDirect F io ?p ?l) s1 (\<lambda>r s'. r = v \<and> undisturbed io s s') Q"
    if u: "undisturbed io s s1" and h: "holding s ?p = None" for s1
  proof -
    note l = undisturbed_locs [OF u]
    have "paged_inv io unpatched s1" using u by (simp add: undisturbed_def)
    from wp_readDirect(1) [OF this, of ?p ?l F Q] show ?thesis
      using h L n(2) l undisturbed_trans [OF u] by (auto elim: wp_conseq)
  qed
  have "wp (bnd (get (tryReadFromWriteBuf F ?p ?l)) (\<lambda>hit.
       case hit of Some v \<Rightarrow> ret v | None \<Rightarrow>
       bnd (get (tryReadFromCache F ?p ?l)) (\<lambda>hit.
       case hit of Some v \<Rightarrow> ret v | None \<Rightarrow>
       bnd (loadPageToCache io ?p) (\<lambda>_.
       bnd (get (tryReadFromCache F ?p ?l)) (\<lambda>hit.
       case hit of Some v \<Rightarrow> ret v | None \<Rightarrow> readDirect F io ?p ?l))))) s
     (\<lambda>r s'. r = v \<and> undisturbed io s s') Q"
  proof (rule wp_bnd, rule wp_get, cases "holding s ?p")
    case (Some d)
    then show "wp (case tryReadFromWriteBuf F ?p ?l s of Some v \<Rightarrow> ret v | None \<Rightarrow>
       bnd (get (tryReadFromCache F ?p ?l)) (\<lambda>hit.
       case hit of Some v \<Rightarrow> ret v | None \<Rightarrow>
       bnd (loadPageToCache io ?p) (\<lambda>_.
       bnd (get (tryReadFromCache F ?p ?l)) (\<lambda>hit.
       case hit of Some v \<Rightarrow> ret v | None \<Rightarrow> readDirect F io ?p ?l)))) s
     (\<lambda>r s'. r = v \<and> undisturbed io s s') Q"
      using undisturbed_refl [OF inv] n(2) by (simp add: write_buf_hit [OF inv] wp_ret)
  next
    case None
    have "wp (bnd (loadPageToCache io ?p) (\<lambda>_.
       bnd (get (tryReadFromCache F ?p ?l)) (\<lambda>hit.
       case hit of Some v \<Rightarrow> ret v | None \<Rightarrow> readDirect F io ?p ?l))) s (\<lambda>r s'. r = v \<and> undisturbed io s s') Q"
      by (rule wp_seq [OF wp_loadPageToCache [OF inv L(1)]], rule step, assumption, rule direct [OF _ None])
    from step [OF undisturbed_refl [OF inv] this] None
    show "wp (case tryReadFromWriteBuf F ?p ?l s of Some v \<Rightarrow> ret v | None \<Rightarrow>
       bnd (get (tryReadFromCache F ?p ?l)) (\<lambda>hit.
       case hit of Some v \<Rightarrow> ret v | None \<Rightarrow>
       bnd (loadPageToCache io ?p) (\<lambda>_.
       bnd (get (tryReadFromCache F ?p ?l)) (\<lambda>hit.
       case hit of Some v \<Rightarrow> ret v | None \<Rightarrow> readDirect F io ?p ?l)))) s
     (\<lambda>r s'. r = v \<and> undisturbed io s s') Q"
      by (simp add: write_buf_hit [OF inv])
  qed
  then show ?thesis
    unfolding paged_read_def Let_def by (intro wp_bnd [OF wp_get]) (simp only: prod.case if_not_P [OF n(1)])
qed

subsection \<open>Batch reads\<close>

text \<open>\<open>M\<close> holds what is still to be filled in.\<close>

definition batch_inv :: "float_ops \<Rightarrow> paged_store \<Rightarrow> node_id list \<Rightarrow> vec list \<Rightarrow> miss set \<Rightarrow> bool" where
  "batch_inv F s ns out M \<longleftrightarrow> length out = length ns \<and> (\<forall>(i, p, l) \<in> M. i < length ns \<and> (p, l) = loc s (ns ! i))
     \<and> (\<forall>i < length ns. out ! i = the (paged_view F s (ns ! i)) \<or> (\<exists>p l. (i, p, l) \<in> M))"

definition unbuffered :: "paged_store \<Rightarrow> miss set \<Rightarrow> bool" where
  "unbuffered s M \<longleftrightarrow> (\<forall>(i, p, l) \<in> M. holding s p = None)"

definition asked :: "paged_store \<Rightarrow> (nat \<times> node_id) list \<Rightarrow> miss set" where
  "asked s xs = (\<lambda>(i, n). (i, nat (page_of n s), slot_of n s)) ` set xs"

lemma batch_done: "batch_inv F s ns out {} \<Longrightarrow> out = map (\<lambda>n. the (paged_view F s n)) ns"
  by (intro nth_equalityI) (auto simp: batch_inv_def)

lemma batch_start: "length out = length ns \<Longrightarrow> batch_inv F s ns out (asked s (zip [0..<length ns] ns))"
  by (force simp: batch_inv_def loc_def in_set_zip asked_def)

lemma batch_entry:
  assumes "paged_inv io fx s" "\<forall>n \<in> set ns. paged_view F s n \<noteq> None" "batch_inv F s ns out M" "(i, p, l) \<in> M"
  shows "p < length (ps_pages s)" "l < vectors_per_page s" "the (paged_view F s (ns ! i)) = disk_dequantize F (rec_at s p l)"
proof -
  have i: "i < length ns" "p = nat (page_of (ns ! i) s)" "l = slot_of (ns ! i) s"
    using assms(3,4) by (auto simp: batch_inv_def loc_def)
  then have n: "page_of (ns ! i) s \<ge> 0" using assms(2) by (auto simp: paged_view_def dest!: nth_mem split: if_splits)
  show "p < length (ps_pages s)" "l < vectors_per_page s" using located [OF assms(1) n] i by simp_all
  show "the (paged_view F s (ns ! i)) = disk_dequantize F (rec_at s p l)" using n i by (simp add: paged_view_def)
qed

lemma batch_fill:
  assumes "batch_inv F s ns out (insert (i, p, l) M)" "v = the (paged_view F s (ns ! i))"
  shows "batch_inv F s ns (out[i := v]) M"
  using assms by (auto simp: batch_inv_def nth_list_update)

lemma wp_batch_buffers:
  assumes inv: "paged_inv io unpatched s" and v: "\<forall>n \<in> set ns. paged_view F s n \<noteq> None"
  shows "wp (batch_buffers F ns) s (\<lambda>om s'. s' = s \<and> batch_inv F s ns (fst om) (set (snd om)) \<and> unbuffered s (set (snd om))) Q"
  unfolding batch_buffers_def
proof (rule wp_for_each [where I = "\<lambda>xs om s'. s' = s \<and> set xs \<subseteq> set (zip [0..<length ns] ns) \<and> unbuffered s (set (snd om))
    \<and> batch_inv F s ns (fst om) (set (snd om) \<union> asked s xs)"])
  show "s = s \<and> set (zip [0..<length ns] ns) \<subseteq> set (zip [0..<length ns] ns) \<and> unbuffered s (set (snd (replicate (length ns) [], [])))
    \<and> batch_inv F s ns (fst (replicate (length ns) [], [])) (set (snd (replicate (length ns) [], []))
        \<union> asked s (zip [0..<length ns] ns))"
    by (simp add: batch_start unbuffered_def)
next
  fix x :: "nat \<times> node_id" and xs and om :: "vec list \<times> miss list" and s'
  obtain i n where x: "x = (i, n)" by force
  obtain out miss where om: "om = (out, miss)" by force
  let ?p = "nat (page_of n s)" and ?l = "slot_of n s" and ?M = "asked s xs"
  assume a: "s' = s \<and> set (x # xs) \<subseteq> set (zip [0..<length ns] ns) \<and> unbuffered s (set (snd om))
    \<and> batch_inv F s ns (fst om) (set (snd om) \<union> asked s (x # xs))"
  moreover have "asked s (x # xs) = insert (i, ?p, ?l) ?M" by (auto simp: x asked_def)
  ultimately have b: "batch_inv F s ns out (insert (i, ?p, ?l) (set miss \<union> ?M))" "s' = s" "unbuffered s (set miss)"
    "set xs \<subseteq> set (zip [0..<length ns] ns)" by (simp_all add: om)
  have "(i, n) \<in> set (zip [0..<length ns] ns)" using a x by simp
  then have n: "n = ns ! i" "n \<in> set ns" by (auto simp: in_set_zip)
  then have cur: "\<not> page_of n s < 0" using v by (auto simp: paged_view_def split: if_splits)
  note E = batch_entry(3) [OF inv v b(1) insertI1]
  have "batch_inv F s ns (out[i := disk_dequantize F (rec_at s ?p ?l)]) (set miss \<union> ?M)" by (rule batch_fill [OF b(1) E [symmetric]])
  then show "wp ((case x of (i, n) \<Rightarrow> \<lambda>(out, miss). bnd (get (\<lambda>s. (page_of n s, slot_of n s))) (\<lambda>(cur, slot).
       if cur < 0 then throw
       else bnd (get (tryReadFromWriteBuf F (nat cur) slot)) (\<lambda>hit.
            ret (case hit of Some v \<Rightarrow> (out[i := v], miss) | None \<Rightarrow> (out, miss @ [(i, nat cur, slot)]))))) om) s'
     (\<lambda>om s'. s' = s \<and> set xs \<subseteq> set (zip [0..<length ns] ns) \<and> unbuffered s (set (snd om))
       \<and> batch_inv F s ns (fst om) (set (snd om) \<union> asked s xs)) Q"
    using b cur unfolding x om prod.case
    by (intro wp_bnd wp_get) (simp, intro wp_bnd wp_get wp_ret, auto simp: write_buf_hit [OF inv] unbuffered_def split: option.split)
qed (auto simp: asked_def)

lemma wp_batch_cached:
  assumes inv: "paged_inv io unpatched s" and v: "\<forall>n \<in> set ns. paged_view F s n \<noteq> None"
    and om: "batch_inv F s ns (fst om) (set (snd om))" "unbuffered s (set (snd om))"
  shows "wp (batch_cached F om) s (\<lambda>om s'. s' = s \<and> batch_inv F s ns (fst om) (set (snd om)) \<and> unbuffered s (set (snd om))) Q"
  unfolding batch_cached_def
proof (rule wp_for_each [where I = "\<lambda>xs om s'. s' = s \<and> batch_inv F s ns (fst om) (set (snd om) \<union> set xs) \<and> unbuffered s (set (snd om) \<union> set xs)"])
  show "s = s \<and> batch_inv F s ns (fst (fst om, [])) (set (snd (fst om, [])) \<union> set (snd om))
      \<and> unbuffered s (set (snd (fst om, [])) \<union> set (snd om))" using om by simp
next
  fix x :: miss and xs and om :: "vec list \<times> miss list" and s'
  obtain i p l where x: "x = (i, p, l)" by (metis prod_cases3)
  obtain out miss where om: "om = (out, miss)" by force
  assume a: "s' = s \<and> batch_inv F s ns (fst om) (set (snd om) \<union> set (x # xs)) \<and> unbuffered s (set (snd om) \<union> set (x # xs))"
  then have b: "batch_inv F s ns out (insert (i, p, l) (set miss \<union> set xs))" "s' = s" "unbuffered s (insert (i, p, l) (set miss \<union> set xs))"
    by (simp_all add: om x)
  note E = batch_entry [OF inv v b(1) insertI1]
  have f: "batch_inv F s ns (out[i := disk_dequantize F (rec_at s p l)]) (set miss \<union> set xs)" by (rule batch_fill [OF b(1) E(3) [symmetric]])
  show "wp ((case x of (i, p, slot) \<Rightarrow> \<lambda>(out, miss).
       bnd (get (\<lambda>s. if ps_max_cached s > 0 then cached_record F p slot s else None)) (\<lambda>hit.
       ret (case hit of Some v \<Rightarrow> (out[i := v], miss) | None \<Rightarrow> (out, miss @ [(i, p, slot)])))) om) s'
     (\<lambda>om s'. s' = s \<and> batch_inv F s ns (fst om) (set (snd om) \<union> set xs) \<and> unbuffered s (set (snd om) \<union> set xs)) Q"
    using b f unfolding x om prod.case
    by (intro wp_bnd wp_get wp_ret) (auto simp: cache_hit(2) [OF inv E(2)] unbuffered_def split: option.split)
qed auto

lemma wp_batch_load:
  assumes inv: "paged_inv io unpatched s" and v: "\<forall>n \<in> set ns. paged_view F s n \<noteq> None"
    and om: "batch_inv F s ns (fst om) (set (snd om))" "unbuffered s (set (snd om))"
  shows "wp (batch_load F io om) s (\<lambda>out s'. batch_inv F s ns out {} \<and> undisturbed io s s') Q"
proof -
  let ?miss = "sort_key (\<lambda>(i, p, slot). p) (snd om)"
  have miss: "set ?miss = set (snd om)" by simp
  have pages: "p < length (ps_pages s)" if "p \<in> set (remdups_adj (map (\<lambda>(i, p, slot). p) ?miss))" for p
    using that batch_entry(1) [OF inv v om(1)] by auto
  have load: "wp (for_each (remdups_adj (map (\<lambda>(i, p, slot). p) ?miss)) (\<lambda>p _. loadPageToCache io p) ()) s (\<lambda>_. undisturbed io s) Q"
  proof (rule wp_for_each [where I = "\<lambda>ps _ s'. undisturbed io s s' \<and> (\<forall>p \<in> set ps. p < length (ps_pages s))"])
    fix p ps and u :: unit and s'
    assume a: "undisturbed io s s' \<and> (\<forall>q \<in> set (p # ps). q < length (ps_pages s))"
    then have "paged_inv io unpatched s'" "p < length (ps_pages s')"
      using undisturbed_locs(4) by (auto simp: undisturbed_def)
    from wp_loadPageToCache [OF this]
    show "wp (loadPageToCache io p) s' (\<lambda>_ s'. undisturbed io s s' \<and> (\<forall>p \<in> set ps. p < length (ps_pages s))) Q"
      by (rule wp_conseq) (use a undisturbed_trans in auto)
  qed (use pages undisturbed_refl [OF inv] in auto)
  have fill: "wp (for_each ?miss (\<lambda>(i, p, slot) out.
        bnd (get (cached_record F p slot)) (\<lambda>hit.
        case hit of
          Some v \<Rightarrow> ret (out[i := v])
        | None \<Rightarrow> bnd (directReadRecord F io p slot) (\<lambda>v. ret (out[i := v])))) (fst om)) s1
     (\<lambda>out s'. batch_inv F s ns out {} \<and> undisturbed io s s') Q" if "undisturbed io s s1" for s1
  proof (rule wp_for_each [where I = "\<lambda>xs out s'. undisturbed io s s' \<and> batch_inv F s ns out (set xs) \<and> unbuffered s (set xs)"])
    show "undisturbed io s s1 \<and> batch_inv F s ns (fst om) (set ?miss) \<and> unbuffered s (set ?miss)" using that om by simp
  next
    fix x :: miss and xs and out :: "vec list" and s'
    obtain i p l where x: "x = (i, p, l)" by (metis prod_cases3)
    assume "undisturbed io s s' \<and> batch_inv F s ns out (set (x # xs)) \<and> unbuffered s (set (x # xs))"
    then have b: "batch_inv F s ns out (insert (i, p, l) (set xs))" "undisturbed io s s'" "unbuffered s (set xs)" "holding s p = None"
      by (simp_all add: x unbuffered_def)
    note E = batch_entry [OF inv v b(1) insertI1] and U = undisturbed_locs [OF b(2)]
    have f: "batch_inv F s ns (out[i := disk_dequantize F (rec_at s p l)]) (set xs)" by (rule batch_fill [OF b(1) E(3) [symmetric]])
    have inv': "paged_inv io unpatched s'" using b(2) by (simp add: undisturbed_def)
    have l': "p < length (ps_pages s')" "l < vectors_per_page s'" "holding s' p = None" using E b(4) by (simp_all add: U)
    have r': "rec_at s' p l = rec_at s p l" by (rule U(6) [OF E(1)])
    have d: "wp (bnd (directReadRecord F io p l) (\<lambda>v. ret (out[i := v]))) s'
        (\<lambda>out s'. undisturbed io s s' \<and> batch_inv F s ns out (set xs) \<and> unbuffered s (set xs)) Q"
      by (rule wp_seq [OF wp_readDirect(2) [OF inv' l'(3,1,2)]]) (use f b undisturbed_trans r' in \<open>auto intro!: wp_ret\<close>)
    show "wp ((case x of (i, p, slot) \<Rightarrow> \<lambda>out.
        bnd (get (cached_record F p slot)) (\<lambda>hit.
        case hit of Some v \<Rightarrow> ret (out[i := v]) | None \<Rightarrow> bnd (directReadRecord F io p slot) (\<lambda>v. ret (out[i := v])))) out) s'
     (\<lambda>out s'. undisturbed io s s' \<and> batch_inv F s ns out (set xs) \<and> unbuffered s (set xs)) Q"
      unfolding x prod.case
      by (intro wp_bnd wp_get) (use d f b r' in \<open>auto simp: cache_hit(2) [OF inv' l'(2)] split: option.split intro!: wp_ret\<close>)
  qed auto
  show ?thesis unfolding batch_load_def Let_def by (rule wp_seq [OF load fill])
qed

lemma wp_paged_read_batch:
  assumes inv: "paged_inv io unpatched s" and v: "\<forall>n \<in> set ns. paged_view F s n \<noteq> None"
  shows "wp (paged_read_batch F io ns) s (\<lambda>r s'. r = map (\<lambda>n. the (paged_view F s n)) ns \<and> undisturbed io s s') Q"
  unfolding paged_read_batch_def
proof (rule wp_seq [OF wp_batch_buffers [OF inv v]])
  fix om s1 assume 1: "s1 = s \<and> batch_inv F s ns (fst om) (set (snd om)) \<and> unbuffered s (set (snd om))"
  have "wp (bnd (batch_cached F om) (\<lambda>om. if snd om = [] then ret (fst om) else batch_load F io om)) s
     (\<lambda>r s'. r = map (\<lambda>n. the (paged_view F s n)) ns \<and> undisturbed io s s') Q"
  proof (rule wp_seq [OF wp_batch_cached [OF inv v]])
    fix om s2 assume 2: "s2 = s \<and> batch_inv F s ns (fst om) (set (snd om)) \<and> unbuffered s (set (snd om))"
    have "wp (batch_load F io om) s (\<lambda>r s'. r = map (\<lambda>n. the (paged_view F s n)) ns \<and> undisturbed io s s') Q"
      by (rule wp_conseq [OF wp_batch_load [OF inv v]]) (use 2 batch_done in auto)
    then show "wp (if snd om = [] then ret (fst om) else batch_load F io om) s2
       (\<lambda>r s'. r = map (\<lambda>n. the (paged_view F s n)) ns \<and> undisturbed io s s') Q"
      using 2 batch_done undisturbed_refl [OF inv] by (auto intro!: wp_ret)
  qed (use 1 in simp_all)
  then show "wp (if snd om = [] then ret (fst om)
       else bnd (batch_cached F om) (\<lambda>om. if snd om = [] then ret (fst om) else batch_load F io om)) s1
     (\<lambda>r s'. r = map (\<lambda>n. the (paged_view F s n)) ns \<and> undisturbed io s s') Q"
    using 1 batch_done undisturbed_refl [OF inv] by (auto intro!: wp_ret)
qed

lemma wp_paged_prefetch:
  assumes inv: "paged_inv io unpatched s"
  shows "wp (paged_prefetch io ns) s (\<lambda>_. undisturbed io s) Q"
proof -
  have "wp (for_each (remdups (map (\<lambda>n. nat (page_of n s)) (filter (\<lambda>n. page_of n s \<ge> 0) ns))) (\<lambda>p _. loadPageToCache io p) ()) s
      (\<lambda>_. undisturbed io s) Q"
  proof (rule wp_for_each [where I = "\<lambda>ps _ s'. undisturbed io s s' \<and> (\<forall>p \<in> set ps. p < length (ps_pages s))"])
    show "undisturbed io s s \<and> (\<forall>p \<in> set (remdups (map (\<lambda>n. nat (page_of n s)) (filter (\<lambda>n. page_of n s \<ge> 0) ns))). p < length (ps_pages s))"
      using located [OF inv] undisturbed_refl [OF inv] by auto
    fix p ps and u :: unit and s'
    assume a: "undisturbed io s s' \<and> (\<forall>q \<in> set (p # ps). q < length (ps_pages s))"
    then have "paged_inv io unpatched s'" "p < length (ps_pages s')"
      using undisturbed_locs(4) by (auto simp: undisturbed_def)
    from wp_loadPageToCache [OF this]
    show "wp (loadPageToCache io p) s' (\<lambda>_ s'. undisturbed io s s' \<and> (\<forall>p \<in> set ps. p < length (ps_pages s))) Q"
      by (rule wp_conseq) (use a undisturbed_trans in auto)
  qed auto
  then show ?thesis unfolding paged_prefetch_def using undisturbed_refl [OF inv]
    by (intro wp_bnd wp_get) (auto intro!: wp_ret)
qed

subsection \<open>The paged layout is a vector store\<close>

definition paged_ok :: "nat \<Rightarrow> medium \<Rightarrow> paged_store \<Rightarrow> bool" where
  "paged_ok dims io s \<longleftrightarrow> paged_inv io unpatched s \<and> ps_dim s = dims"

lemma undisturbed_same:
  assumes "undisturbed io s s'" "paged_ok dims io s"
  shows "same_store (paged_ops dims F io) (paged_ok dims io) (paged_view F) paged_writable s s'"
proof -
  have C: "core s' = core s" "same_bytes s s'" "paged_inv io unpatched s'" "locs_ok s"
    using assms undisturbed_core by (auto simp: undisturbed_def paged_ok_def paged_inv_def)
  then have "ps_dim s' = dims" using assms(2) by (simp add: core_def paged_ok_def)
  then show ?thesis using C same_bytes_view [OF C(2,4)]
    by (simp add: same_store_def paged_ok_def paged_ops_def core_locs [OF C(1)] fun_eq_iff)
qed

lemma stored_new_store:
  assumes "stored_new io n rec s s'" "paged_ok dims io s"
  shows "stored_store (paged_ops dims F io) (paged_ok dims io) (paged_view F) n s s' \<and> paged_view F s' n = Some (disk_dequantize F rec)
    \<and> paged_exists n s'"
  using assms by (auto simp: stored_new_def stored_store_def paged_ok_def paged_ops_def paged_view_def paged_exists_def)

lemma paged_ops_sel:
  "vs_read (paged_ops dims F io) = paged_read F io" "vs_read_batch (paged_ops dims F io) = paged_read_batch F io"
  "vs_store (paged_ops dims F io) = paged_store_vector F io" "vs_store_encoded (paged_ops dims F io) = paged_store_encoded io"
  "vs_has_location (paged_ops dims F io) = paged_has_location" "vs_exists (paged_ops dims F io) = paged_exists"
  "vs_record_size (paged_ops dims F io) = dims + 8" "vs_encode (paged_ops dims F io) = disk_quantize F"
  "vs_decode (paged_ops dims F io) = disk_dequantize F"
  by (simp_all add: paged_ops_def)

lemma paged_vector_store:
  "vector_store (paged_ops dims F io) dims False (paged_ok dims io) (paged_view F) paged_writable"
proof (unfold_locales, goal_cases)
  case (1 s n v)
  have "wp (paged_read F io n) s (\<lambda>r s'. r = v \<and> undisturbed io s s') (\<lambda>_. False)"
    by (rule wp_paged_read) (use 1 in \<open>simp_all add: paged_ok_def\<close>)
  then show ?case unfolding paged_ops_sel by (rule wp_conseq) (use undisturbed_same 1 in auto)
next
  case (2 s ns)
  have "wp (paged_read_batch F io ns) s (\<lambda>r s'. r = map (\<lambda>n. the (paged_view F s n)) ns \<and> undisturbed io s s') (\<lambda>_. False)"
    by (rule wp_paged_read_batch) (use 2 in \<open>simp_all add: paged_ok_def\<close>)
  then show ?case unfolding paged_ops_sel by (rule wp_conseq) (use undisturbed_same 2 in auto)
next
  case (3 s n)
  then show ?case by (simp add: paged_ops_def paged_has_location_def paged_view_def)
next
  case (4 s n)
  then show ?case by (simp add: paged_ops_def paged_exists_def paged_view_def)
next
  case (5 s n v)
  then have n: "page_of n s \<ge> 0" "v = disk_dequantize F (rec_at s (nat (page_of n s)) (slot_of n s))" and inv: "paged_inv io unpatched s" "ps_dim s = dims"
    by (simp_all add: paged_view_def paged_ok_def split: if_splits)
  have "geometry s" using inv by (simp add: paged_inv_def)
  from slot_end [OF this located(2) [OF inv(1) n(1)]] length_bytes [OF inv(1) located(1) [OF inv(1) n(1)]]
  have "length (rec_at s (nat (page_of n s)) (slot_of n s)) = dims + 8" using inv(2) by (simp add: rec_at_def record_size_def)
  then show ?case by (simp add: n(2) length_disk_dequantize)
next
  case (6 s n v key)
  then have "wp (paged_store_encoded io n (disk_quantize F v) key) s (\<lambda>_. stored_new io n (disk_quantize F v) s) (\<lambda>_. False)"
    by (intro wp_store_new) (simp_all add: paged_ok_def paged_writable_def record_size_def length_disk_quantize)
  then have "wp (paged_store_vector F io n v key) s (\<lambda>_. stored_new io n (disk_quantize F v) s) (\<lambda>_. False)"
    unfolding paged_store_vector_def using 6 by (intro wp_bnd wp_get) (simp add: paged_ok_def)
  then show ?case unfolding paged_ops_sel by (rule wp_conseq) (use stored_new_store [OF _ 6(1)] in auto)
next
  case (7 s n b key)
  then have "wp (paged_store_encoded io n b key) s (\<lambda>_. stored_new io n b s) (\<lambda>_. False)"
    by (intro wp_store_new) (simp_all add: paged_ok_def paged_writable_def record_size_def paged_ops_def)
  then show ?case unfolding paged_ops_sel by (rule wp_conseq) (use stored_new_store [OF _ 7(1)] in auto)
next
  case (8 v)
  then show ?case by (simp add: paged_ops_def length_disk_quantize)
qed

interpretation paged: vector_store "paged_ops dims F io" dims False "paged_ok dims io" "paged_view F" paged_writable
  for dims F io
  by (rule paged_vector_store)

end
