(* ===== verification/Paged_Sync.thy ===== *)
theory Paged_Sync
  imports Paged_Read
begin

text \<open>
  A new store satisfies the invariant, and a flush writes every buffer out: afterwards the file alone
  holds the contents.
\<close>

subsection \<open>A new store\<close>

lemma paged_open_ok:
  assumes "steady io" "paged_open dims cap cached bufs fl del = Some s"
  shows "paged_ok dims io s" "paged_view F s = Map.empty" "ps_pages s = []"
proof -
  have d: "0 < dims" "dims + 8 \<le> kPageSize" using assms(2) by (auto simp: paged_open_def split: if_splits)
  let ?d = "ensureDeleteFileSize cap del"
  have len: "cap \<le> length ?d" by (auto simp: ensureDeleteFileSize_def)
  have s: "s = \<lparr>ps_dim = dims, ps_total = cap, ps_file = fl, ps_del = ?d, ps_flags = take cap ?d,
      ps_idToPage = replicate cap (- 1), ps_idToSlot = replicate cap 0, ps_pages = [], ps_keyToIdx = [], ps_idxToKey = [], ps_updates = [],
      ps_shards = replicate kNumSectionShards \<lparr>sh_open = [], sh_free = [], sh_bufs = [], sh_order = []\<rparr>,
      ps_buf_count = 0, ps_buf_cap = bufs, ps_max_cached = cached,
      ps_slots = [], ps_pageToSlot = [], ps_cached = 0, ps_hand = 0, ps_clock = 0\<rparr>"
    using assms(2) by (auto simp: paged_open_def Let_def split: if_splits)
  have p: "page_of n s = - 1" for n by (simp add: s page_of_def)
  have sh: "shard_of s i = \<lparr>sh_open = [], sh_free = [], sh_bufs = [], sh_order = []\<rparr>" for i
    by (simp add: s shard_of_def)
  show "paged_view F s = Map.empty" by (simp add: paged_view_def p fun_eq_iff)
  show "ps_pages s = []" by (simp add: s)
  have "geometry s" using d len by (simp add: geometry_def s record_size_def)
  moreover have "locs_ok s" by (simp add: locs_ok_def p)
  moreover have "pages_ok s" by (simp add: pages_ok_def s)
  moreover have "bufs_ok s" by (simp add: bufs_ok_def shard_fits_def sh) (simp add: s shards_ok_def total_bufs_def sum_list_replicate)
  moreover have "lists_ok s" by (simp add: lists_ok_def sh list_at_def)
  moreover have "page_cache_ok unpatched s" by (simp add: page_cache_ok_def s cacheSlotOf_def)
  moreover have "ps_dim s = dims" by (simp add: s)
  ultimately show "paged_ok dims io s" using assms(1) by (simp add: paged_ok_def paged_inv_def)
qed

subsection \<open>Flushing a shard\<close>

text \<open>The buffers of a shard are in the file.\<close>

definition on_file :: "paged_store \<Rightarrow> write_buf set \<Rightarrow> bool" where
  "on_file s B \<longleftrightarrow> (\<forall>b \<in> B. pread (wb_page b * kPageSize) kPageSize (ps_file s) = wb_data b)"

lemma wp_flush_all:
  assumes inv: "paged_inv io unpatched s"
  shows "wp (for_each (map snd (sh_bufs (shard_of s i))) (\<lambda>b _. flushSectionWriteBuf io b) ()) s
    (\<lambda>_ s'. undisturbed io s s' \<and> on_file s' (snd ` set (sh_bufs (shard_of s i)))) Q"
proof (rule wp_for_each [where I = "\<lambda>bs _ s'. undisturbed io s s' \<and> set bs \<subseteq> snd ` set (sh_bufs (shard_of s i))
    \<and> on_file s' (snd ` set (sh_bufs (shard_of s i)) - set bs)"])
  show "undisturbed io s s \<and> set (map snd (sh_bufs (shard_of s i))) \<subseteq> snd ` set (sh_bufs (shard_of s i))
    \<and> on_file s (snd ` set (sh_bufs (shard_of s i)) - set (map snd (sh_bufs (shard_of s i))))"
    using undisturbed_refl [OF inv] by (simp add: on_file_def)
next
  let ?B = "snd ` set (sh_bufs (shard_of s i))"
  fix b bs and u :: unit and s1
  assume a: "undisturbed io s s1 \<and> set (b # bs) \<subseteq> ?B \<and> on_file s1 (?B - set (b # bs))"
  then have inv1: "paged_inv io unpatched s1" and sh: "ps_shards s1 = ps_shards s" by (simp_all add: undisturbed_def)
  have I: "pages_ok s1" "bufs_ok s1" "steady io" using inv1 by (simp_all add: paged_inv_def)
  have sh1: "shard_of s1 j = shard_of s j" for j by (simp add: shard_of_def sh)
  have buf: "\<exists>k. buf_of k s1 = Some c \<and> k mod kNumSectionShards = i mod kNumSectionShards" if c: "c \<in> ?B" for c
  proof -
    have fit: "shard_fits s1 i (shard_of s1 i)" using I(2) by (simp add: bufs_ok_def)
    obtain x where "x \<in> set (sh_bufs (shard_of s i))" "c = snd x" using c by blast
    then have "(fst x, c) \<in> set (sh_bufs (shard_of s1 i))" unfolding sh1 by simp
    then obtain k where "(k, c) \<in> set (sh_bufs (shard_of s1 i))" by blast
    then have m: "map_of (sh_bufs (shard_of s1 i)) k = Some c" using fit by (simp add: shard_fits_def)
    then have "k mod kNumSectionShards = i mod kNumSectionShards" using fit unfolding shard_fits_def by blast
    moreover from this have "buf_of k s1 = Some c" using m shard_of_mod [of k i s1] by (simp add: buf_of_def)
    ultimately show ?thesis by blast
  qed
  obtain k where k: "buf_of k s1 = Some b" using buf a by auto
  note F = flushed_inv [OF inv1 k unpatched_def]
  have fits: "buf_fits s1 k b" by (rule buf_fits_of [OF I(2) k])
  have "undisturbed io s1 (flushed b s1)" using F by (simp add: undisturbed_def)
  from undisturbed_trans [OF conjunct1 [OF a] this] have u: "undisturbed io s (flushed b s1)" .
  have "on_file (flushed b s1) (?B - set bs)"
    unfolding on_file_def
  proof
    fix c assume c: "c \<in> ?B - set bs"
    then obtain j where j: "buf_of j s1 = Some c" using buf by blast
    have fc: "buf_fits s1 j c" by (rule buf_fits_of [OF I(2) j])
    show "pread (wb_page c * kPageSize) kPageSize (ps_file (flushed b s1)) = wb_data c"
    proof (cases "wb_page c = wb_page b")
      case True
      then have "int j = int k" using fits fc by (simp add: buf_fits_def)
      then have "c = b" using j k by simp
      moreover have "pread (wb_page b * kPageSize) kPageSize (ps_file (flushed b s1)) = wb_data b"
        using flushed_bytes(2) [OF I(1,2) k, of "wb_page b"] fits by (simp add: buf_fits_def)
      ultimately show ?thesis by simp
    next
      case False
      then have "c \<in> ?B - set (b # bs)" using c by auto
      then have "pread (wb_page c * kPageSize) kPageSize (ps_file s1) = wb_data c" using a by (simp add: on_file_def)
      moreover have "wb_page c * kPageSize + kPageSize \<le> length (ps_file s1)" using page_in_file [OF I(1)] fc by (simp add: buf_fits_def)
      ultimately show ?thesis using pages_apart [OF False, of kPageSize] fits by (simp add: buf_fits_def pread_patch_other)
    qed
  qed
  with u show "wp (flushSectionWriteBuf io b) s1 (\<lambda>_ s'. undisturbed io s s' \<and> set bs \<subseteq> ?B \<and> on_file s' (?B - set bs)) Q"
    using a by (intro wp_flush [OF I(3)]) simp
qed simp

definition emptied :: "nat \<Rightarrow> paged_store \<Rightarrow> paged_store" where
  "emptied i = on_shard i (\<lambda>sh. sh\<lparr>sh_bufs := [], sh_order := []\<rparr>)"

lemma bufs_ok_more:
  assumes "bufs_ok (s\<lparr>ps_buf_count := y\<rparr>)" "y \<le> z"
  shows "bufs_ok (s\<lparr>ps_buf_count := z\<rparr>)"
proof -
  have "shards_ok (s\<lparr>ps_buf_count := w\<rparr>) = shards_ok s" "total_bufs (s\<lparr>ps_buf_count := w\<rparr>) = total_bufs s"
    "shard_fits (s\<lparr>ps_buf_count := w\<rparr>) i sh = shard_fits s i sh" for w i sh
    by (simp_all add: shards_ok_def total_bufs_def shard_fits_def buf_fits_def)
  then show ?thesis using assms by (simp add: bufs_ok_def)
qed

lemma emptied_inv:
  assumes inv: "paged_inv io unpatched s" and f: "on_file s (snd ` set (sh_bufs (shard_of s i)))"
  shows "paged_inv io unpatched (emptied i s)" "same_bytes s (emptied i s)"
    "sh_bufs (shard_of (emptied i s) j) = (if j mod kNumSectionShards = i mod kNumSectionShards then [] else sh_bufs (shard_of s j))"
proof -
  let ?s = "emptied i s"
  note I = inv [unfolded paged_inv_def]
  have s: "shards_ok s" using I by (simp add: bufs_ok_def)
  have C: "core ?s = core s" unfolding emptied_def by (rule core_on_shard [OF s]) simp_all
  show sh: "sh_bufs (shard_of ?s j) = (if j mod kNumSectionShards = i mod kNumSectionShards then [] else sh_bufs (shard_of s j))" for j
    unfolding emptied_def by (simp add: shard_of_on_shard [OF s])
  have B: "buf_of k ?s = (if k mod kNumSectionShards = i mod kNumSectionShards then None else buf_of k s)" for k
    by (simp add: buf_of_def sh)
  have P: "page_bytes ?s p = page_bytes s p" for p
  proof (cases "holding s p")
    case None
    then have "holding ?s p = None" by (auto simp: holding_def core_locs(7) [OF C] B split: option.splits if_splits)
    then show ?thesis using None by (simp add: page_bytes_def) (simp add: emptied_def)
  next
    case (Some d)
    then obtain b where b: "buf_of (nat (section_of_page p s)) s = Some b" "wb_page b = p" "wb_data b = d" "0 \<le> section_of_page p s"
      by (auto simp: holding_buf)
    show ?thesis
    proof (cases "nat (section_of_page p s) mod kNumSectionShards = i mod kNumSectionShards")
      case True
      then have "b \<in> snd ` set (sh_bufs (shard_of s i))"
        using b(1) shard_of_mod [OF True, of s] by (force simp: buf_of_def dest: map_of_SomeD)
      then have "pread (p * kPageSize) kPageSize (ps_file s) = d" using f b(2,3) unfolding on_file_def by blast
      moreover have "holding ?s p = None" using True by (simp add: holding_def core_locs(7) [OF C] B)
      ultimately show ?thesis using Some by (simp add: page_bytes_def) (simp add: emptied_def)
    next
      case False
      then have "holding ?s p = Some d" using b by (simp add: holding_def core_locs(7) [OF C] B)
      then show ?thesis using Some by (simp add: page_bytes_def)
    qed
  qed
  then show "same_bytes s ?s" by (simp add: same_bytes_def C)
  have "bufs_ok (?s\<lparr>ps_buf_count := ps_buf_count s\<rparr>)"
  proof -
    have "bufs_ok ((on_shard i (\<lambda>sh. sh\<lparr>sh_bufs := [], sh_order := []\<rparr>) s)\<lparr>ps_buf_count := ps_buf_count s - length (sh_bufs (shard_of s i))\<rparr>)"
    proof (rule bufs_ok_on_shard)
      have "length (sh_bufs (shard_of s i)) \<le> total_bufs s"
        using total_bufs_on_shard [OF s, of i "sh_bufs_update (\<lambda>_. [])"] by simp
      then show "ps_buf_count s - length (sh_bufs (shard_of s i)) + length (sh_bufs (shard_of s i))
          = ps_buf_count s + length (sh_bufs ((shard_of s i)\<lparr>sh_bufs := [], sh_order := []\<rparr>))"
        using I by (simp add: bufs_ok_def)
    qed (use I in \<open>simp_all add: shard_fits_def\<close>)
    then show ?thesis unfolding emptied_def by (rule bufs_ok_more) simp
  qed
  moreover have "?s\<lparr>ps_buf_count := ps_buf_count s\<rparr> = ?s" by (simp add: emptied_def on_shard_def)
  ultimately have "bufs_ok ?s" by simp
  moreover have "page_cache_ok unpatched ?s" using I P by (simp add: page_cache_ok_def) (simp add: emptied_def)
  moreover have "pages_ok ?s" using I by (simp add: pages_ok_def core_locs [OF C]) (simp add: emptied_def)
  ultimately show "paged_inv io unpatched ?s" using I by (simp add: paged_inv_def core_ok [OF C])
qed

lemma wp_flush_shard:
  assumes inv: "paged_inv io unpatched s" and i: "i < kNumSectionShards"
  shows "wp (flush_shard io i) s (\<lambda>_ s'. paged_inv io unpatched s' \<and> same_bytes s s'
    \<and> (\<forall>j. sh_bufs (shard_of s' j) = (if j mod kNumSectionShards = i then [] else sh_bufs (shard_of s j)))) Q"
proof -
  have at: "ps_shards s ! i = shard_of s i" for s using i by (simp add: shard_of_def)
  show ?thesis unfolding flush_shard_def at
  proof (rule wp_bnd, rule wp_get, rule wp_seq [OF wp_flush_all [OF inv]], rule wp_modify)
    fix u s1 assume 1: "undisturbed io s s1 \<and> on_file s1 (snd ` set (sh_bufs (shard_of s i)))"
    then have sh: "shard_of s1 = shard_of s" by (simp add: undisturbed_def shard_of_def fun_eq_iff)
    have "paged_inv io unpatched s1" using 1 by (simp add: undisturbed_def)
    note E = emptied_inv [OF this, of i, unfolded sh, OF conjunct2 [OF 1]]
    have e: "s1\<lparr>ps_shards := (ps_shards s1)[i := (shard_of s1 i)\<lparr>sh_bufs := [], sh_order := []\<rparr>]\<rparr> = emptied i s1"
      using i by (simp add: emptied_def on_shard_def)
    have "same_bytes s (emptied i s1)" using 1 E(2) same_bytes_trans by (auto simp: undisturbed_def)
    then show "paged_inv io unpatched (s1\<lparr>ps_shards := (ps_shards s1)[i := (shard_of s1 i)\<lparr>sh_bufs := [], sh_order := []\<rparr>]\<rparr>)
      \<and> same_bytes s (s1\<lparr>ps_shards := (ps_shards s1)[i := (shard_of s1 i)\<lparr>sh_bufs := [], sh_order := []\<rparr>]\<rparr>)
      \<and> (\<forall>j. sh_bufs (shard_of (s1\<lparr>ps_shards := (ps_shards s1)[i := (shard_of s1 i)\<lparr>sh_bufs := [], sh_order := []\<rparr>]\<rparr>) j)
          = (if j mod kNumSectionShards = i then [] else sh_bufs (shard_of s j)))"
      unfolding e using E i by simp
  qed
qed

text \<open>After the flush no buffer is left: the file holds every page.\<close>

lemma wp_flushWrites:
  assumes inv: "paged_inv io unpatched s"
  shows "wp (flushWrites io) s (\<lambda>_ s'. paged_inv io unpatched s' \<and> same_bytes s s' \<and> (\<forall>p. holding s' p = None)) Q"
proof -
  let ?n = kNumSectionShards
  have "wp (for_each [0..<?n] (\<lambda>i _. flush_shard io i) ()) s
    (\<lambda>_ s'. paged_inv io unpatched s' \<and> same_bytes s s' \<and> (\<forall>j. sh_bufs (shard_of s' j) = [])) Q"
  proof (rule wp_for_each [where I = "\<lambda>is _ s'. paged_inv io unpatched s' \<and> same_bytes s s' \<and> set is \<subseteq> {..<?n}
      \<and> (\<forall>j. j mod ?n \<notin> set is \<longrightarrow> sh_bufs (shard_of s' j) = [])"])
    fix i "is" and u :: unit and s1
    assume a: "paged_inv io unpatched s1 \<and> same_bytes s s1 \<and> set (i # is) \<subseteq> {..<?n}
      \<and> (\<forall>j. j mod ?n \<notin> set (i # is) \<longrightarrow> sh_bufs (shard_of s1 j) = [])"
    then have i: "i < ?n" by simp
    show "wp (flush_shard io i) s1 (\<lambda>_ s'. paged_inv io unpatched s' \<and> same_bytes s s' \<and> set is \<subseteq> {..<?n}
      \<and> (\<forall>j. j mod ?n \<notin> set is \<longrightarrow> sh_bufs (shard_of s' j) = [])) Q"
      by (rule wp_conseq [OF wp_flush_shard [OF conjunct1 [OF a] i]]) (use a same_bytes_trans in auto)
  qed (use inv same_bytes_refl in \<open>auto simp: atLeast0LessThan\<close>)
  then show ?thesis unfolding flushWrites_def
  proof (rule wp_seq)
    fix u s1 assume 1: "paged_inv io unpatched s1 \<and> same_bytes s s1 \<and> (\<forall>j. sh_bufs (shard_of s1 j) = [])"
    let ?s = "ps_buf_count_update (\<lambda>_. 0) s1"
    note I = conjunct1 [OF 1, unfolded paged_inv_def]
    have none: "holding s1 p = None" "holding ?s p = None" for p using 1 by (simp_all add: holding_def buf_of_def section_of_page_def split: option.split)
    have P: "page_bytes ?s p = page_bytes s1 p" for p using none by (simp add: page_bytes_def)
    have C: "core ?s = core s1" by simp
    have "length (ps_shards s1) = ?n" using I by (simp add: bufs_ok_def shards_ok_def)
    then have "sh_bufs sh = []" if "sh \<in> set (ps_shards s1)" for sh
      using 1 that by (auto simp: in_set_conv_nth shard_of_def) (metis mod_less)
    then have "total_bufs s1 = 0" by (simp add: total_bufs_def sum_list_eq_0_iff)
    then have "bufs_ok ?s" using I by (simp add: bufs_ok_def shards_ok_def shard_fits_def buf_fits_def) (simp add: total_bufs_def)
    moreover have "pages_ok ?s" using I by (simp add: pages_ok_def core_locs [OF C])
    moreover have "page_cache_ok unpatched ?s" using I P by (simp add: page_cache_ok_def)
    ultimately have "paged_inv io unpatched ?s" using I by (simp add: paged_inv_def core_ok [OF C])
    moreover have "same_bytes s ?s" using 1 P C by (simp add: same_bytes_def)
    ultimately show "wp (modify (ps_buf_count_update (\<lambda>_. 0))) s1
      (\<lambda>_ s'. paged_inv io unpatched s' \<and> same_bytes s s' \<and> (\<forall>p. holding s' p = None)) Q" using none by (intro wp_modify) simp
  qed simp
qed

text \<open>Concrete stores for the examples below: a new one, and one whose page 0 is still buffered.\<close>

definition word_floats :: float_ops where
  "word_floats = \<lparr>fl_lt = (<), fl_add = (+), fl_sub = (-), fl_mul = (*), fl_div = (\<lambda>a b. a), fl_of = (\<lambda>r. 1), fl_trunc = uint\<rparr>"

definition new_paged :: paged_store where
  "new_paged = the (paged_open 1 4 2 2 [] [])"

definition buffered_paged :: paged_store where
  "buffered_paged = new_paged\<lparr>ps_file := replicate kPageSize 0, ps_idToPage := [0, - 1, - 1, - 1],
     ps_pages := [\<lparr>pm_section = 0, pm_used = 1\<rparr>], ps_buf_count := 1, ps_buf_cap := 0,
     ps_shards := (replicate kNumSectionShards \<lparr>sh_open = [], sh_free = [], sh_bufs = [], sh_order = []\<rparr>)
       [0 := \<lparr>sh_open = [], sh_free = [], sh_bufs = [(0, zero_buf 0)], sh_order = []\<rparr>]\<rparr>"

lemma new_paged: "paged_open 1 4 2 2 [] [] = Some new_paged"
  by (simp add: new_paged_def paged_open_def Let_def kPageSize_def)

lemma steady_none: "steady (\<lambda>_. None)"
  by (simp add: steady_def)

lemmas new_paged_ok = paged_open_ok [OF steady_none new_paged]

lemma new_paged_writable: "page_of n new_paged < 0" "length (ps_pages new_paged) < 2 ^ 31"
  using new_paged_ok(2) [of word_floats] new_paged_ok(3) by (auto simp: paged_view_def fun_eq_iff not_le split: if_splits)

lemma buffered_page_of: "page_of n buffered_paged = (if n = 0 then 0 else - 1)" "slot_of n buffered_paged = 0"
proof -
  have f: "ps_total buffered_paged = 4" "ps_idToPage buffered_paged = [0, - 1, - 1, - 1]" "ps_idToSlot buffered_paged = [0, 0, 0, 0]"
    "ps_updates buffered_paged = []"
    by (simp_all add: buffered_paged_def new_paged_def paged_open_def Let_def kPageSize_def eval_nat_numeral)
  have "n = 0" if "unat n = 0" using that by (rule iffD1 [OF unat_eq_zero])
  then show "page_of n buffered_paged = (if n = 0 then 0 else - 1)"
    by (auto simp: page_of_def f is_direct_id_def nth_Cons' split: if_splits)
  show "slot_of n buffered_paged = 0" by (auto simp: slot_of_def f nth_Cons')
qed

lemma buffered_paged_inv: "paged_inv (\<lambda>_. None) unpatched buffered_paged" "holding buffered_paged 0 = Some (replicate kPageSize 0)"
proof -
  let ?s = buffered_paged
  have f: "ps_pages ?s = [\<lparr>pm_section = 0, pm_used = 1\<rparr>]" "ps_buf_cap ?s = 0" "ps_buf_count ?s = 1" "ps_pageToSlot ?s = []"
    "ps_cached ?s = 0" "ps_hand ?s = 0" "ps_dim ?s = 1" "ps_file ?s = replicate kPageSize 0" "length (ps_shards ?s) = kNumSectionShards"
    "ps_max_cached ?s = 2"
    by (simp_all add: buffered_paged_def new_paged_def paged_open_def Let_def kPageSize_def)
  have sh: "shard_of ?s i = (if i mod kNumSectionShards = 0
      then \<lparr>sh_open = [], sh_free = [], sh_bufs = [(0, zero_buf 0)], sh_order = []\<rparr>
      else \<lparr>sh_open = [], sh_free = [], sh_bufs = [], sh_order = []\<rparr>)" for i
    by (simp add: shard_of_def buffered_paged_def)
  show "holding ?s 0 = Some (replicate kPageSize 0)" by (simp add: holding_def section_of_page_def f buf_of_def sh)
  have r: "record_size ?s = 9" "vectors_per_page ?s = 455" by (simp_all add: record_size_def vectors_per_page_def f kPageSize_def)
  have "geometry ?s"
    by (simp add: geometry_def r kPageSize_def f) (simp add: buffered_paged_def new_paged_def paged_open_def Let_def kPageSize_def
      ensureDeleteFileSize_def)
  moreover have "locs_ok ?s" by (simp add: locs_ok_def buffered_page_of f)
  moreover have "pages_ok ?s" by (simp add: pages_ok_def f r)
  moreover have "total_bufs ?s = 1"
    by (simp add: total_bufs_def buffered_paged_def map_update map_replicate kNumSectionShards_def sum_list_update)
  then have "bufs_ok ?s" by (simp add: bufs_ok_def shards_ok_def f shard_fits_def sh buf_fits_def)
  moreover have "lists_ok ?s" by (simp add: lists_ok_def sh list_at_def)
  moreover have "page_cache_ok unpatched ?s" by (simp add: page_cache_ok_def f cacheSlotOf_def)
  ultimately show "paged_inv (\<lambda>_. None) unpatched ?s" using steady_none by (simp add: paged_inv_def)
qed

lemma buffered_paged_ok: "paged_ok 1 (\<lambda>_. None) buffered_paged" "paged_view F buffered_paged 0 \<noteq> None"
  using buffered_paged_inv(1)
  by (simp_all add: paged_ok_def paged_view_def buffered_page_of) (simp add: buffered_paged_def new_paged_def paged_open_def Let_def kPageSize_def)

subsection \<open>What the store promises\<close>

lemma wp_total: "wp m s P (\<lambda>_. False) \<longleftrightarrow> (\<exists>a s'. m s = Some (Inr a, s') \<and> P a s')"
  by (auto simp: wp_def split: option.splits sum.splits)

text \<open>C25: A record stored under a new id is the only change of the store's contents, and the call
  returns: the eviction loop of the write buffers ends.\<close>

theorem paged_store_adds:
  assumes "paged_ok dims io s" "page_of n s < 0" "length (ps_pages s) < 2 ^ 31" "length v = dims"
  shows "\<exists>s'. paged_store_vector F io n v key s = Some (Inr (), s') \<and> paged_ok dims io s'
    \<and> paged_view F s' = (paged_view F s)(n \<mapsto> disk_dequantize F (disk_quantize F v)) \<and> paged_exists n s'"
proof -
  have "wp (paged_store_vector F io n v key) s (\<lambda>_. stored_new io n (disk_quantize F v) s) (\<lambda>_. False)"
    unfolding paged_store_vector_def using assms
    by (intro wp_bnd wp_get) (auto simp: paged_ok_def record_size_def intro!: wp_store_new)
  then obtain s' where s': "paged_store_vector F io n v key s = Some (Inr (), s')" "stored_new io n (disk_quantize F v) s s'"
    by (auto simp: wp_total)
  from stored_new_store [OF this(2) assms(1), of F]
  have "paged_view F s' = (paged_view F s)(n \<mapsto> disk_dequantize F (disk_quantize F v))"
    by (auto simp: stored_store_def fun_eq_iff)
  then show ?thesis using s' stored_new_store [OF s'(2) assms(1), of F] by (auto simp: stored_store_def)
qed

theorem paged_store_adds_witness:
  "\<exists>s'. paged_store_vector word_floats (\<lambda>_. None) 7 [5] 3 new_paged = Some (Inr (), s') \<and> paged_exists 7 s'"
  using paged_store_adds [OF new_paged_ok(1) new_paged_writable, where v = "[5]" and n = 7 and F = word_floats and key = 3] by auto

text \<open>A batch read returns the records of all ids, whichever of the write buffers, the page cache
  and the file holds them, and leaves the contents alone.\<close>

theorem paged_batch_reads:
  assumes "paged_ok dims io s" "\<forall>n \<in> set ns. paged_view F s n \<noteq> None"
  shows "\<exists>s'. paged_read_batch F io ns s = Some (Inr (map (\<lambda>n. the (paged_view F s n)) ns), s')
    \<and> paged_ok dims io s' \<and> paged_view F s' = paged_view F s"
proof -
  have "wp (paged_read_batch F io ns) s (\<lambda>r s'. r = map (\<lambda>n. the (paged_view F s n)) ns \<and> undisturbed io s s') (\<lambda>_. False)"
    using assms by (intro wp_paged_read_batch) (simp_all add: paged_ok_def)
  then show ?thesis using undisturbed_same [OF _ assms(1), of _ F] by (auto simp: wp_total same_store_def)
qed

theorem paged_batch_reads_witness:
  "\<exists>v s'. paged_read_batch word_floats (\<lambda>_. None) [0, 0] buffered_paged = Some (Inr [v, v], s')"
  using paged_batch_reads [OF buffered_paged_ok(1), of "[0, 0]" word_floats] buffered_paged_ok(2) [of word_floats] by auto

text \<open>C26: After a flush every page is in the file and no buffer is left; the contents are the same.\<close>

theorem paged_flush_writes_all:
  assumes "paged_ok dims io s"
  shows "\<exists>s'. flushWrites io s = Some (Inr (), s') \<and> paged_ok dims io s' \<and> paged_view F s' = paged_view F s
    \<and> (\<forall>p < length (ps_pages s'). pread (p * kPageSize) kPageSize (ps_file s') = page_bytes s p)"
proof -
  have "wp (flushWrites io) s (\<lambda>_ s'. paged_inv io unpatched s' \<and> same_bytes s s' \<and> (\<forall>p. holding s' p = None)) (\<lambda>_. False)"
    using assms by (intro wp_flushWrites) (simp add: paged_ok_def)
  then obtain s' where s': "flushWrites io s = Some (Inr (), s')" "paged_inv io unpatched s'" "same_bytes s s'" "\<forall>p. holding s' p = None"
    by (auto simp: wp_total)
  have C: "core s' = core s" using s'(3) by (simp add: same_bytes_def)
  then have "ps_dim s' = ps_dim s" by (simp add: core_def)
  then have "paged_ok dims io s'" using assms s'(2) by (simp add: paged_ok_def)
  moreover have "paged_view F s' = paged_view F s"
    using assms by (intro same_bytes_view [OF s'(3)]) (simp add: paged_ok_def paged_inv_def)
  moreover have "pread (p * kPageSize) kPageSize (ps_file s') = page_bytes s p" if "p < length (ps_pages s')" for p
  proof -
    have "page_bytes s' p = page_bytes s p" using s'(3) that core_locs(8) [OF C] by (simp add: same_bytes_def)
    then show ?thesis using s'(4) by (simp add: page_bytes_def)
  qed
  ultimately show ?thesis using s'(1) by blast
qed

theorem paged_flush_writes_all_witness:
  "\<exists>s'. flushWrites (\<lambda>_. None) buffered_paged = Some (Inr (), s') \<and> paged_view word_floats s' 0 \<noteq> None"
  using paged_flush_writes_all [OF buffered_paged_ok(1), of word_floats] buffered_paged_ok(2) [of word_floats] by auto

lemma update_fields:
  "page_of n (updateCacheAfterWrite p l rec s) = page_of n s" "slot_of n (updateCacheAfterWrite p l rec s) = slot_of n s"
  "ps_shards (updateCacheAfterWrite p l rec s) = ps_shards s" "ps_pages (updateCacheAfterWrite p l rec s) = ps_pages s"
  "ps_buf_count (updateCacheAfterWrite p l rec s) = ps_buf_count s" "ps_dim (updateCacheAfterWrite p l rec s) = ps_dim s"
  by (simp_all add: updateCacheAfterWrite_def put_slot_def page_of_def slot_of_def split: option.split)

text \<open>C27: Storing an id again while a write buffer holds its page has no effect: reads keep giving the
  old record from the buffer.\<close>

theorem paged_overwrite_lost:
  assumes "paged_inv io unpatched s" "page_of n s \<ge> 0" "holding s (nat (page_of n s)) \<noteq> None"
    and "is_direct_id n \<Longrightarrow> unat n < ps_total s"
  shows "\<exists>s'. paged_store_encoded io n rec key s = Some (Inr (), s') \<and> paged_view F s' n = paged_view F s n
    \<and> paged_read F io n s' = Some (Inr (the (paged_view F s n)), s')"
proof -
  let ?p = "nat (page_of n s)" and ?l = "slot_of n s"
  have st: "steady io" using assms(1) by (simp add: paged_inv_def)
  define g where "g s = (ps_shards s, ps_pages s, ps_buf_count s, ps_dim s, page_of n s, slot_of n s)" for s
  have g: "g (s\<lparr>ps_flags := fl\<rparr>) = g s" "g (s\<lparr>ps_del := d\<rparr>) = g s" "g (s\<lparr>ps_clock := c\<rparr>) = g s" "g (s\<lparr>ps_file := f\<rparr>) = g s" for s fl d c f
    by (simp_all add: g_def page_of_def slot_of_def)
  have g_upd: "g (updateCacheAfterWrite p l rec s) = g s" for p l s by (simp add: g_def update_fields)
  have mark: "wp (mark_deleted_at io n False) s' (\<lambda>_ s''. g s'' = g s') (\<lambda>_. False)" for s'
    unfolding mark_deleted_at_def paged_writeDeleteFlag_def Let_def
    by (intro wp_bnd wp_get wp_if wp_ret wp_modify steady_step [OF st]) (simp_all add: g wp_modify)
  have wr: "wp (writeRecord io ?p ?l rec) s (\<lambda>_ s'. g s' = g s) (\<lambda>_. False)"
    unfolding writeRecord_def by (intro wp_bnd steady_step [OF st] wp_modify) (simp add: wp_ret g)
  have W: "wp (bnd (writeRecord io ?p ?l rec) (\<lambda>_. bnd (modify (updateCacheAfterWrite ?p ?l rec)) (\<lambda>_. mark_deleted_at io n False)))
      s (\<lambda>_ s'. g s' = g s) (\<lambda>_. False)"
    by (rule wp_seq [OF wr], rule wp_bnd, rule wp_modify, rule wp_conseq [OF mark]) (simp_all add: g_upd)
  have "wp (paged_store_encoded io n rec key) s (\<lambda>_ s'. g s' = g s) (\<lambda>_. False)"
  proof -
    have "wp (ensure_dense_capacity io n) s (\<lambda>_ s'. s' = s) (\<lambda>_. False)"
      unfolding ensure_dense_capacity_def using assms(4) by (intro wp_bnd wp_get) (auto intro: wp_ret)
    then show ?thesis unfolding paged_store_encoded_def
      by (rule wp_seq) (use W assms(2) in \<open>auto intro!: wp_bnd wp_get\<close>)
  qed
  then obtain s' where s': "paged_store_encoded io n rec key s = Some (Inr (), s')" "g s' = g s" by (auto simp: wp_total)
  note s' = s'(1) s'(2) [unfolded g_def prod.inject]
  obtain d where d: "holding s ?p = Some d" using assms(3) by blast
  have "holding s' ?p = Some d" using holding_cong [of s' s ?p] s'(2) d by simp
  then have v: "paged_view F s' n = Some (disk_dequantize F (pread (slot_offset s ?l) (record_size s) d))"
    "paged_view F s n = Some (disk_dequantize F (pread (slot_offset s ?l) (record_size s) d))"
    using assms(2) s'(2) d by (simp_all add: paged_view_def rec_at_def page_bytes_def slot_offset_def record_size_def)
  have "page_buffer ?p s' = page_buffer ?p s" using s'(2) by (simp add: page_buffer_def section_of_page_def buf_of_def shard_of_def)
  then have "page_buffer ?p s' = Some d" using page_buffer_holding [of s ?p] assms(1) d by (simp add: paged_inv_def)
  then have "tryReadFromWriteBuf F ?p ?l s' = Some (disk_dequantize F (pread (slot_offset s ?l) (record_size s) d))"
    using s'(2) by (simp add: tryReadFromWriteBuf_def slot_offset_def record_size_def)
  then have "paged_read F io n s' = Some (Inr (the (paged_view F s n)), s')"
    using s'(2) assms(2) v(2) unfolding paged_read_def Let_def by (simp add: bnd_def get_def ret_def)
  then show ?thesis using s'(1) v by metis
qed

theorem paged_overwrite_lost_witness:
  "\<exists>s'. paged_store_encoded (\<lambda>_. None) 0 [1, 2, 3, 4, 5, 6, 7, 8, 9] 3 buffered_paged = Some (Inr (), s')
    \<and> paged_read word_floats (\<lambda>_. None) 0 s' = Some (Inr (the (paged_view word_floats buffered_paged 0)), s')"
proof -
  have "ps_total buffered_paged = 4" by (simp add: buffered_paged_def new_paged_def paged_open_def Let_def kPageSize_def)
  then show ?thesis
    using paged_overwrite_lost [OF buffered_paged_inv(1), of 0 "[1, 2, 3, 4, 5, 6, 7, 8, 9]" 3 word_floats] buffered_paged_inv(2)
    by (auto simp: buffered_page_of)
qed

end
