(* ===== verification/Graph_Store.thy ===== *)
theory Graph_Store
  imports Ids "HOL-Library.AList"
begin

text \<open>
  The layer-0 graph store: the interface \<open>IGraphStore\<close> of \<open>include/graph_store.h\<close> and its adapter
  \<open>AsterGraphStore\<close> (\<open>src/aster_graph_store.cc\<close>) over the graph database, which is a dependency
  of the repository and so a parameter: the record \<open>rocks_graph\<close> of the calls the adapter makes and
  the locale \<open>rocks_graph\<close> of what is documented of them.
\<close>

type_synonym edge = "node_id \<times> node_id"

record rg_edges =
  num_edges_out :: nat
  nxts_out :: "node_id list"

record 'g rocks_graph =
  rg_AddVertex :: "node_id \<Rightarrow> 'g \<Rightarrow> status \<times> 'g"
  rg_AddEdgeBatch :: "edge list \<Rightarrow> 'g \<Rightarrow> status \<times> 'g"
  rg_DeleteEdgeBatch :: "edge list \<Rightarrow> 'g \<Rightarrow> status \<times> 'g"
  rg_GetAllEdges :: "node_id \<Rightarrow> 'g \<Rightarrow> status \<times> rg_edges"
  rg_SyncWAL :: "'g \<Rightarrow> status \<times> 'g"

subsection \<open>The adapter\<close>

record 'g graph_store =
  gs_AddVertex :: "node_id \<Rightarrow> 'g \<Rightarrow> status \<times> 'g"
  gs_AddEdgeBatch :: "edge list \<Rightarrow> 'g \<Rightarrow> status \<times> 'g"
  gs_DeleteEdgeBatch :: "edge list \<Rightarrow> 'g \<Rightarrow> status \<times> 'g"
  gs_GetOutEdges :: "node_id \<Rightarrow> 'g \<Rightarrow> status + node_id list"
  gs_SyncWAL :: "'g \<Rightarrow> status \<times> 'g"

text \<open>Both id types are 64 bits wide; the casts of \<open>ToAster\<close> keep the bits.\<close>

definition ToAster :: "edge list \<Rightarrow> edge list" where
  "ToAster es = map (\<lambda>(from, to). (from, to)) es"

text \<open>A missing vertex reads as an empty adjacency; any other failure is passed on.\<close>

definition GetOutEdges :: "'g rocks_graph \<Rightarrow> node_id \<Rightarrow> 'g \<Rightarrow> status + node_id list" where
  "GetOutEdges rg n g =
     (case rg_GetAllEdges rg n g of (s, es) \<Rightarrow>
        if s = NotFound then Inr []
        else if s \<noteq> OK then Inl s
        else Inr (map (\<lambda>i. nxts_out es ! i) [0 ..< num_edges_out es]))"

definition aster_graph_store :: "'g rocks_graph \<Rightarrow> 'g graph_store" where
  "aster_graph_store rg =
     \<lparr>gs_AddVertex = rg_AddVertex rg,
      gs_AddEdgeBatch = (\<lambda>es. rg_AddEdgeBatch rg (ToAster es)),
      gs_DeleteEdgeBatch = (\<lambda>es. rg_DeleteEdgeBatch rg (ToAster es)),
      gs_GetOutEdges = GetOutEdges rg,
      gs_SyncWAL = rg_SyncWAL rg\<rparr>"

subsection \<open>What the engine relies on\<close>

text \<open>
  \<open>adj g n\<close> is the adjacency of \<open>n\<close>. A batch adds or removes exactly its pairs and touches no other
  vertex, or changes nothing. In a \<open>sound\<close> store every adjacency decodes.
\<close>

locale graph_store =
  fixes ops :: "'g graph_store" and adj :: "'g \<Rightarrow> node_id \<Rightarrow> node_id list" and sound :: "'g \<Rightarrow> bool"
  assumes get_law: "gs_GetOutEdges ops n g = Inr ns \<Longrightarrow> ns = adj g n"
    and get_error: "gs_GetOutEdges ops n g = Inl st \<Longrightarrow> \<not> sound g \<and> st \<noteq> OK"
    and add_law: "gs_AddEdgeBatch ops es g = (st, g') \<Longrightarrow> if st = OK
        then \<forall>n. set (adj g' n) = set (adj g n) \<union> {m. (n, m) \<in> set es} \<and> (n \<notin> fst ` set es \<longrightarrow> adj g' n = adj g n)
        else adj g' = adj g"
    and delete_law: "gs_DeleteEdgeBatch ops es g = (st, g') \<Longrightarrow> if st = OK
        then \<forall>n. set (adj g' n) = set (adj g n) - {m. (n, m) \<in> set es} \<and> (n \<notin> fst ` set es \<longrightarrow> adj g' n = adj g n)
        else adj g' = adj g"
    and sound_law: "sound g \<Longrightarrow> gs_AddEdgeBatch ops es g = (st, g') \<Longrightarrow> sound g'"
      "sound g \<Longrightarrow> gs_DeleteEdgeBatch ops es g = (st, g') \<Longrightarrow> sound g'"
begin

lemma sound_get: "sound g \<Longrightarrow> gs_GetOutEdges ops n g = Inr (adj g n)"
  using get_law get_error by (cases "gs_GetOutEdges ops n g") auto

end

definition neighbours :: "('g \<Rightarrow> node_id \<rightharpoonup> node_id list) \<Rightarrow> 'g \<Rightarrow> node_id \<Rightarrow> node_id list" where
  "neighbours vertex g n = (case vertex g n of None \<Rightarrow> [] | Some l \<Rightarrow> l)"

locale rocks_graph =
  fixes rg :: "'g rocks_graph" and vertex :: "'g \<Rightarrow> node_id \<rightharpoonup> node_id list" and sound :: "'g \<Rightarrow> bool"
  assumes missing: "rg_GetAllEdges rg n g = (NotFound, e) \<Longrightarrow> vertex g n = None"
    and found: "rg_GetAllEdges rg n g = (OK, e) \<Longrightarrow>
        num_edges_out e = length (nxts_out e) \<and> vertex g n = Some (nxts_out e)"
    and corrupt: "rg_GetAllEdges rg n g = (st, e) \<Longrightarrow> st \<noteq> OK \<Longrightarrow> st \<noteq> NotFound \<Longrightarrow> \<not> sound g"
    and add_batch: "rg_AddEdgeBatch rg es g = (st, g') \<Longrightarrow> (sound g \<longrightarrow> sound g')
        \<and> (if st = OK then \<forall>n. set (neighbours vertex g' n) = set (neighbours vertex g n) \<union> {m. (n, m) \<in> set es}
             \<and> (n \<notin> fst ` set es \<longrightarrow> neighbours vertex g' n = neighbours vertex g n)
           else vertex g' = vertex g)"
    and delete_batch: "rg_DeleteEdgeBatch rg es g = (st, g') \<Longrightarrow> (sound g \<longrightarrow> sound g')
        \<and> (if st = OK then \<forall>n. set (neighbours vertex g' n) = set (neighbours vertex g n) - {m. (n, m) \<in> set es}
             \<and> (n \<notin> fst ` set es \<longrightarrow> neighbours vertex g' n = neighbours vertex g n)
           else vertex g' = vertex g)"

lemma ToAster_id: "ToAster es = es"
  by (simp add: ToAster_def)

sublocale rocks_graph \<subseteq> aster: graph_store "aster_graph_store rg" "neighbours vertex" sound
proof (unfold_locales, goal_cases)
  case (1 n g es)
  then show ?case
    using missing [of n g] found [of n g]
    by (auto simp: aster_graph_store_def GetOutEdges_def neighbours_def map_nth split: prod.splits if_splits)
next
  case (2 n g st)
  then show ?case
    using corrupt [of n g]
    by (auto simp: aster_graph_store_def GetOutEdges_def split: prod.splits if_splits)
next
  case (3 es g st g')
  then have "rg_AddEdgeBatch rg es g = (st, g')" by (simp add: aster_graph_store_def ToAster_id)
  from add_batch [OF this] show ?case by (simp add: neighbours_def fun_eq_iff split: if_splits)
next
  case (4 es g st g')
  then have "rg_DeleteEdgeBatch rg es g = (st, g')" by (simp add: aster_graph_store_def ToAster_id)
  from delete_batch [OF this] show ?case by (simp add: neighbours_def fun_eq_iff split: if_splits)
next
  case (5 g es st g')
  then show ?case using add_batch [of es g st g'] by (simp add: aster_graph_store_def ToAster_id)
next
  case (6 g es st g')
  then show ?case using delete_batch [of es g st g'] by (simp add: aster_graph_store_def ToAster_id)
qed


subsection \<open>A graph in memory\<close>

text \<open>A database that never fails: the vertices as an association list.\<close>

type_synonym mem_graph = "(node_id \<times> node_id list) list"

definition mem_vertex :: "mem_graph \<Rightarrow> node_id \<rightharpoonup> node_id list" where
  "mem_vertex g = map_of g"

definition mem_adj :: "mem_graph \<Rightarrow> node_id \<Rightarrow> node_id list" where
  "mem_adj g n = (case map_of g n of None \<Rightarrow> [] | Some l \<Rightarrow> l)"

definition mem_add :: "edge list \<Rightarrow> mem_graph \<Rightarrow> mem_graph" where
  "mem_add es g = fold (\<lambda>(a, b) g. AList.update a (List.insert b (mem_adj g a)) g) es g"

definition mem_delete :: "edge list \<Rightarrow> mem_graph \<Rightarrow> mem_graph" where
  "mem_delete es g = fold (\<lambda>(a, b) g. AList.update a (removeAll b (mem_adj g a)) g) es g"

definition mem_rocks :: "mem_graph rocks_graph" where
  "mem_rocks =
     \<lparr>rg_AddVertex = (\<lambda>n g. (OK, AList.update n (mem_adj g n) g)),
      rg_AddEdgeBatch = (\<lambda>es g. (OK, mem_add es g)),
      rg_DeleteEdgeBatch = (\<lambda>es g. (OK, mem_delete es g)),
      rg_GetAllEdges = (\<lambda>n g. case map_of g n of
         None \<Rightarrow> (NotFound, \<lparr>num_edges_out = 0, nxts_out = []\<rparr>)
       | Some l \<Rightarrow> (OK, \<lparr>num_edges_out = length l, nxts_out = l\<rparr>)),
      rg_SyncWAL = (\<lambda>g. (OK, g))\<rparr>"

lemma mem_adj_update: "mem_adj (AList.update a l g) n = (if n = a then l else mem_adj g n)"
  by (simp add: mem_adj_def update_conv')

lemma mem_add_adj:
  "set (mem_adj (mem_add es g) n) = set (mem_adj g n) \<union> {m. (n, m) \<in> set es}
   \<and> (n \<notin> fst ` set es \<longrightarrow> mem_adj (mem_add es g) n = mem_adj g n)"
  unfolding mem_add_def by (induction es arbitrary: g) (auto simp: mem_adj_update split: if_splits)

lemma mem_delete_adj:
  "set (mem_adj (mem_delete es g) n) = set (mem_adj g n) - {m. (n, m) \<in> set es}
   \<and> (n \<notin> fst ` set es \<longrightarrow> mem_adj (mem_delete es g) n = mem_adj g n)"
  unfolding mem_delete_def by (induction es arbitrary: g) (auto simp: mem_adj_update split: if_splits)

lemma neighbours_mem: "neighbours mem_vertex = mem_adj"
  by (simp add: fun_eq_iff neighbours_def mem_vertex_def mem_adj_def)

interpretation mem: rocks_graph mem_rocks mem_vertex "\<lambda>_. True"
proof (unfold_locales, goal_cases)
  case (4 es g st g')
  then show ?case using mem_add_adj [of es g] by (auto simp: mem_rocks_def neighbours_mem)
next
  case (5 es g st g')
  then show ?case using mem_delete_adj [of es g] by (auto simp: mem_rocks_def neighbours_mem)
qed (auto simp: mem_rocks_def mem_vertex_def split: option.splits)

end
