(* ===== verification/Byte_Stream.thy ===== *)
theory Byte_Stream
  imports Action
begin

text \<open>
  Reading a binary file the way the \<open>deserialize\<close> functions of the engine do. The state of a reader is
  the rest of the stream and the object under construction. A reader returns \<open>Inl e\<close> where the C++
  function gives up (\<open>return false\<close>: \<open>e\<close> is \<open>()\<close>, or the status it returns), with the object as far as
  it has got; a throw is an exception. \<open>ReadValue\<close> of \<open>n\<close> bytes fails when fewer are left.
\<close>

type_synonym ('s, 'e, 'a) reader = "(bytes \<times> 's, 'e + 'a) action"

definition and_then :: "('t, 'e + 'a) action \<Rightarrow> ('a \<Rightarrow> ('t, 'e + 'b) action) \<Rightarrow> ('t, 'e + 'b) action" where
  "and_then m f = bnd m (\<lambda>r. case r of Inl e \<Rightarrow> ret (Inl e) | Inr a \<Rightarrow> f a)"

definition got :: "'a \<Rightarrow> ('t, 'e + 'a) action" where
  "got a = ret (Inr a)"

definition give_up :: "'e \<Rightarrow> ('t, 'e + 'a) action" where
  "give_up e = ret (Inl e)"

definition check :: "'e \<Rightarrow> bool \<Rightarrow> ('t, 'e + unit) action" where
  "check e b = (if b then got () else give_up e)"

definition ReadBytes :: "'e \<Rightarrow> nat \<Rightarrow> ('s, 'e, bytes) reader" where
  "ReadBytes e n x = (case x of (bs, s) \<Rightarrow>
     if length bs < n then Some (Inr (Inl e), ([], s)) else Some (Inr (Inr (take n bs)), (drop n bs, s)))"

definition ReadValue :: "'e \<Rightarrow> nat \<Rightarrow> ('s, 'e, 'a::len word) reader" where
  "ReadValue e n = and_then (ReadBytes e n) (\<lambda>bs. got (get_le bs))"

definition bytes_left :: "('s, 'e, nat) reader" where
  "bytes_left x = Some (Inr (Inr (length (fst x))), x)"

text \<open>The object: read it, change it, run an operation of it.\<close>

definition peek_obj :: "('s \<Rightarrow> 'a) \<Rightarrow> ('s, 'e, 'a) reader" where
  "peek_obj f x = Some (Inr (Inr (f (snd x))), x)"

definition change :: "('s \<Rightarrow> 's) \<Rightarrow> ('s, 'e, unit) reader" where
  "change f x = Some (Inr (Inr ()), (fst x, f (snd x)))"

definition on_obj :: "('s, 'a) action \<Rightarrow> ('s, 'e, 'a) reader" where
  "on_obj m x = (case m (snd x) of
     None \<Rightarrow> None
   | Some (Inl e, s) \<Rightarrow> Some (Inl e, (fst x, s))
   | Some (Inr a, s) \<Rightarrow> Some (Inr (Inr a), (fst x, s)))"

text \<open>A reader of a part of the object, whose failure is the error \<open>e\<close>.\<close>

definition on_part :: "'e \<Rightarrow> ('t \<Rightarrow> 's) \<Rightarrow> ('s \<Rightarrow> 't \<Rightarrow> 't) \<Rightarrow> ('s, 'f, 'a) reader \<Rightarrow> ('t, 'e, 'a) reader" where
  "on_part e sel put m x = (case m (fst x, sel (snd x)) of
     None \<Rightarrow> None
   | Some (r, bs, s) \<Rightarrow> Some (case r of Inl u \<Rightarrow> Inl u | Inr (Inl f) \<Rightarrow> Inr (Inl e) | Inr (Inr a) \<Rightarrow> Inr (Inr a),
       (bs, put s (snd x))))"

text \<open>\<open>for (i = lo; i < lo + n; ++i)\<close>, left on the first failure.\<close>

primrec times :: "nat \<Rightarrow> nat \<Rightarrow> (nat \<Rightarrow> ('t, 'e + unit) action) \<Rightarrow> ('t, 'e + unit) action" where
  "times lo 0 body = got ()"
| "times lo (Suc n) body = and_then (body lo) (\<lambda>_. times (Suc lo) n body)"

text \<open>\<open>n\<close> values into a local container.\<close>

primrec read_seq :: "nat \<Rightarrow> ('t, 'e + 'a) action \<Rightarrow> ('t, 'e + 'a list) action" where
  "read_seq 0 r = got []"
| "read_seq (Suc n) r = and_then r (\<lambda>a. and_then (read_seq n r) (\<lambda>as. got (a # as)))"

subsection \<open>Running a reader\<close>

named_theorems reads "what a reader returns on a stream that begins with an encoding"

text \<open>\<open>goes r x a y\<close>: the reader succeeds.\<close>

definition goes :: "('t, 'e + 'a) action \<Rightarrow> 't \<Rightarrow> 'a \<Rightarrow> 't \<Rightarrow> bool" where
  "goes r x a y \<longleftrightarrow> r x = Some (Inr (Inr a), y)"

lemma goes_and_then [intro]: "goes m x a y \<Longrightarrow> goes (f a) y b z \<Longrightarrow> goes (and_then m f) x b z"
  by (simp add: goes_def and_then_def bnd_def)

lemma goes_got [reads]: "goes (got a) x a x"
  by (simp add: goes_def got_def ret_def)

lemma goes_check [reads]: "b \<Longrightarrow> goes (check e b) x () x"
  by (simp add: check_def goes_got)

lemma goes_ReadBytes [reads]: "n = length bs \<Longrightarrow> goes (ReadBytes e n) (bs @ rest, s) bs (rest, s)"
  by (simp add: goes_def ReadBytes_def)

lemma goes_ReadValue [reads]:
  "8 * n \<ge> LENGTH('a) \<Longrightarrow> goes (ReadValue e n) (put_le n (v :: 'a::len word) @ rest, s) v (rest, s)"
  unfolding ReadValue_def
  by (rule goes_and_then [OF goes_ReadBytes]) (simp_all add: goes_def got_def ret_def)

lemma goes_bytes_left [reads]: "goes bytes_left (bs, s) (length bs) (bs, s)"
  by (simp add: goes_def bytes_left_def)

lemma goes_peek [reads]: "goes (peek_obj f) (bs, s) (f s) (bs, s)"
  by (simp add: goes_def peek_obj_def)

lemma goes_change [reads]: "goes (change f) (bs, s) () (bs, f s)"
  by (simp add: goes_def change_def)

lemma goes_on_obj: "m s = Some (Inr a, s') \<Longrightarrow> goes (on_obj m) (bs, s) a (bs, s')"
  by (simp add: goes_def on_obj_def)

lemma goes_on_part: "goes m (bs, sel t) a (bs', s) \<Longrightarrow> goes (on_part e sel put m) (bs, t) a (bs', put s t)"
  by (simp add: goes_def on_part_def)

lemma goes_if [intro]: "(b \<Longrightarrow> goes m x a y) \<Longrightarrow> (\<not> b \<Longrightarrow> goes m' x a y) \<Longrightarrow> goes (if b then m else m') x a y"
  by simp

text \<open>A loop reads the encodings of the elements one after the other.\<close>

lemma goes_times:
  assumes "\<And>k rest. k < length xs \<Longrightarrow> goes (body (lo + k)) (enc (xs ! k) @ rest, S k) () (rest, S (Suc k))"
  shows "goes (times lo (length xs) body) (concat (map enc xs) @ rest, S 0) () (rest, S (length xs))"
  using assms
proof (induction xs arbitrary: lo S)
  case Nil
  then show ?case by (simp add: goes_got)
next
  case (Cons x xs)
  have 1: "goes (body lo) (enc x @ (concat (map enc xs) @ rest), S 0) () (concat (map enc xs) @ rest, S 1)"
    using Cons.prems [of 0] by simp
  have 2: "goes (times (Suc lo) (length xs) body) (concat (map enc xs) @ rest, S 1) () (rest, S (Suc (length xs)))"
    using Cons.IH [of "Suc lo" "\<lambda>k. S (Suc k)"] Cons.prems [of "Suc k" for k] by fastforce
  show ?case using goes_and_then [OF 1, of "\<lambda>_. times (Suc lo) (length xs) body"] 2 by simp
qed

lemma goes_seq:
  assumes "\<And>x rest. x \<in> set xs \<Longrightarrow> goes r (enc x @ rest, s) x (rest, s)"
  shows "goes (read_seq (length xs) r) (concat (map enc xs) @ rest, s) xs (rest, s)"
  using assms
proof (induction xs)
  case Nil
  then show ?case by (simp add: goes_got)
next
  case (Cons x xs)
  have "goes (and_then r (\<lambda>a. and_then (read_seq (length xs) r) (\<lambda>as. got (a # as))))
      (enc x @ (concat (map enc xs) @ rest), s) (x # xs) (rest, s)"
    by (rule goes_and_then [OF Cons.prems], simp, rule goes_and_then [OF Cons.IH]) (use Cons.prems goes_got in auto)
  then show ?case by simp
qed

lemma enough_bytes:
  assumes "\<forall>x \<in> set xs. k \<le> length (enc x)" "0 < k"
  shows "length xs \<le> length (concat (map enc xs) @ rest) div k"
proof -
  have "length xs * k \<le> length (concat (map enc xs))" using assms(1) by (induction xs) auto
  then have "length xs * k \<le> length (concat (map enc xs) @ rest)" by simp
  then show ?thesis using assms(2) by (simp add: less_eq_div_iff_mult_less_eq)
qed

end
