(* ===== verification/Paged_Meta.thy ===== *)
theory Paged_Meta
  imports Byte_Stream Paged_Sync
begin

text \<open>
  The metadata block of \<open>PagedVectorStorage\<close> (\<open>serializeMetadata\<close>, \<open>deserializeMetadata\<close> of
  \<open>include/disk_vector.h\<close>): the page table, the sections and the locations of the ids, written with
  every checkpoint. Free slots and open pages are not in the block; they are worked out again when it
  is loaded. The hash maps are written in the order of their lists.
\<close>

subsection \<open>Writing\<close>

definition put_page :: "page_meta \<Rightarrow> bytes" where
  "put_page pm = put_le 4 (word_of_int (pm_section pm) :: u32) @ put_le 2 (of_nat (pm_used pm) :: u16)"

definition put_update :: "node_id \<times> int \<times> nat \<Rightarrow> bytes" where
  "put_update u = (case u of (n, p, l) \<Rightarrow>
     put_le 8 n @ put_le 8 (word_of_int p :: u64) @ put_le 2 (of_nat l :: u16))"

abbreviation put_size :: "nat \<Rightarrow> bytes" where
  "put_size n \<equiv> put_le 8 (of_nat n :: u64)"

definition paged_serialize :: "paged_store \<Rightarrow> bytes" where
  "paged_serialize s =
     put_le 4 (2 :: u32) @ put_size (ps_total s) @ put_size (ps_dim s) @ put_size (vectors_per_page s)
     @ put_size (length (ps_pages s)) @ put_size (length (ps_idxToKey s))
     @ concat (map put_page (ps_pages s))
     @ concat (map (put_le 8) (ps_idxToKey s))
     @ put_size (length (ps_idToPage s)) @ put_size (length (ps_idToSlot s))
     @ concat (map (\<lambda>p. put_le 8 (word_of_int p :: u64)) (ps_idToPage s))
     @ concat (map (\<lambda>l. put_le 2 (of_nat l :: u16)) (ps_idToSlot s))
     @ put_size (length (ps_updates s)) @ concat (map put_update (ps_updates s))"

subsection \<open>Loading\<close>

text \<open>The slots of a page that a location refers to. A dense id that does not fit its page is an
  error, an update id that does not is passed over.\<close>

definition mark_slot :: "nat \<Rightarrow> nat \<Rightarrow> bool list list \<Rightarrow> bool list list" where
  "mark_slot p l used = used[p := (used ! p)[l := True]]"

fun mark_dense :: "page_meta list \<Rightarrow> (int \<times> nat) list \<Rightarrow> bool list list \<Rightarrow> bool list list option" where
  "mark_dense pages [] used = Some used"
| "mark_dense pages ((p, l) # ls) used =
     (if p < 0 then mark_dense pages ls used
      else if nat p \<ge> length pages then None
      else if l \<ge> pm_used (pages ! nat p) then None
      else mark_dense pages ls (mark_slot (nat p) l used))"

fun mark_updates :: "page_meta list \<Rightarrow> (node_id \<times> int \<times> nat) list \<Rightarrow> bool list list \<Rightarrow> bool list list" where
  "mark_updates pages [] used = used"
| "mark_updates pages ((n, p, l) # us) used =
     (if p < 0 \<or> nat p \<ge> length pages \<or> l \<ge> length (used ! nat p) then mark_updates pages us used
      else mark_updates pages us (mark_slot (nat p) l used))"

text \<open>The lists of one page.\<close>

definition rebuild_page :: "bool list list \<Rightarrow> nat \<Rightarrow> paged_store \<Rightarrow> paged_store" where
  "rebuild_page used p s =
     (let pm = ps_pages s ! p in
      if pm_section pm < 0 then s
      else let idx = nat (pm_section pm);
               unused = map (Pair p) (filter (\<lambda>l. \<not> used ! p ! l) [0..<pm_used pm])
           in on_shard idx (\<lambda>sh. sh
                \<lparr>sh_open := (if pm_used pm < vectors_per_page s
                             then AList.update idx (list_at idx (sh_open sh) @ [p]) (sh_open sh) else sh_open sh),
                 sh_free := AList.update idx (list_at idx (sh_free sh) @ unused) (sh_free sh)\<rparr>) s)"

definition clear_shards :: "paged_store \<Rightarrow> paged_store" where
  "clear_shards s = s\<lparr>ps_shards := map (\<lambda>_. \<lparr>sh_open = [], sh_free = [], sh_bufs = [], sh_order = []\<rparr>) (ps_shards s)\<rparr>"

definition key_index :: "node_id list \<Rightarrow> (node_id \<times> nat) list" where
  "key_index ks = fold (\<lambda>(k, i). AList.update k i) (zip ks [0..<length ks]) []"

definition reloadDeleteFlags :: "medium \<Rightarrow> nat \<Rightarrow> unit ps" where
  "reloadDeleteFlags io n =
     bnd (get (\<lambda>s. length (ps_del s))) (\<lambda>size.
     bnd (if size < n then
            bnd (io_step io) (\<lambda>r.
              if r \<noteq> None then ret () else modify (\<lambda>s. s\<lparr>ps_del := patch (n - 1) [0] (ps_del s)\<rparr>))
          else ret ()) (\<lambda>_.
     modify (\<lambda>s. s\<lparr>ps_flags := take n (zero_fill n (ps_del s))\<rparr>)))"

text \<open>One entry of each table.\<close>

definition load_page :: "nat \<Rightarrow> (paged_store, unit, unit) reader" where
  "load_page i =
     and_then (ReadValue () 4) (\<lambda>sec :: u32.
     and_then (ReadValue () 2) (\<lambda>used :: u16.
     and_then (peek_obj vectors_per_page) (\<lambda>vpp.
     and_then (check () (unat used \<le> vpp)) (\<lambda>_.
     change (\<lambda>s. s\<lparr>ps_pages := ps_pages s @ [\<lparr>pm_section = sint sec, pm_used = unat used\<rparr>]\<rparr>)))))"

definition load_key :: "nat \<Rightarrow> (paged_store, unit, unit) reader" where
  "load_key i = and_then (ReadValue () 8) (\<lambda>k. change (\<lambda>s. s\<lparr>ps_idxToKey := ps_idxToKey s @ [k]\<rparr>))"

definition load_idToPage :: "nat \<Rightarrow> (paged_store, unit, unit) reader" where
  "load_idToPage i =
     and_then (ReadValue () 8) (\<lambda>p :: u64.
     and_then (check () (sint p \<le> 2 ^ 31 - 1 \<and> sint p \<ge> - 1)) (\<lambda>_.
     change (\<lambda>s. s\<lparr>ps_idToPage := (ps_idToPage s)[i := sint p]\<rparr>)))"

definition load_idToSlot :: "nat \<Rightarrow> (paged_store, unit, unit) reader" where
  "load_idToSlot i =
     and_then (ReadValue () 2) (\<lambda>l :: u16. change (\<lambda>s. s\<lparr>ps_idToSlot := (ps_idToSlot s)[i := unat l]\<rparr>))"

definition load_update :: "nat \<Rightarrow> (paged_store, unit, unit) reader" where
  "load_update i =
     and_then (ReadValue () 8) (\<lambda>n :: u64.
     and_then (ReadValue () 8) (\<lambda>p :: u64.
     and_then (ReadValue () 2) (\<lambda>l :: u16.
     change (\<lambda>s. s\<lparr>ps_updates := AList.update n (sint p, unat l) (ps_updates s)\<rparr>))))"

text \<open>The last part: the lists, the delete flags, the page cache.\<close>

definition rebuild_lists :: "(paged_store, unit, unit) reader" where
  "rebuild_lists =
     and_then (peek_obj (\<lambda>s. mark_dense (ps_pages s) (zip (ps_idToPage s) (ps_idToSlot s))
         (map (\<lambda>pm. replicate (pm_used pm) False) (ps_pages s)))) (\<lambda>used.
     case used of
       None \<Rightarrow> give_up ()
     | Some used \<Rightarrow> change (\<lambda>s. fold (rebuild_page (mark_updates (ps_pages s) (ps_updates s) used)) [0..<length (ps_pages s)] s))"

definition finish_load :: "medium \<Rightarrow> (paged_store, unit, unit) reader" where
  "finish_load io =
     and_then rebuild_lists (\<lambda>_.
     and_then (peek_obj ps_total) (\<lambda>tot.
     and_then (on_obj (reloadDeleteFlags io tot)) (\<lambda>_.
     change resetPageCache)))"

definition load_updates :: "u32 \<Rightarrow> (paged_store, unit, unit) reader" where
  "load_updates version =
     and_then (change (ps_updates_update (\<lambda>_. []))) (\<lambda>_.
     if version \<ge> 2 then and_then (ReadValue () 8) (\<lambda>n :: u64. times 0 (unat n) load_update) else got ())"

definition load_tables :: "medium \<Rightarrow> u32 \<Rightarrow> u64 \<Rightarrow> u64 \<Rightarrow> u64 \<Rightarrow> (paged_store, unit, unit) reader" where
  "load_tables io version tot npages nkeys =
     and_then (change (ps_pages_update (\<lambda>_. []))) (\<lambda>_.
     and_then (times 0 (unat npages) load_page) (\<lambda>_.
     and_then (change (ps_idxToKey_update (\<lambda>_. []))) (\<lambda>_.
     and_then (times 0 (unat nkeys) load_key) (\<lambda>_.
     and_then (ReadValue () 8) (\<lambda>np :: u64.
     and_then (ReadValue () 8) (\<lambda>nl :: u64.
     and_then (check () (np = tot \<and> nl = tot)) (\<lambda>_.
     and_then (change (\<lambda>s. s\<lparr>ps_idToPage := replicate (unat np) (- 1), ps_idToSlot := replicate (unat nl) 0\<rparr>)) (\<lambda>_.
     and_then (times 0 (unat np) load_idToPage) (\<lambda>_.
     and_then (times 0 (unat nl) load_idToSlot) (\<lambda>_.
     and_then (change (\<lambda>s. clear_shards (s\<lparr>ps_keyToIdx := key_index (ps_idxToKey s)\<rparr>))) (\<lambda>_.
     and_then (load_updates version) (\<lambda>_.
     finish_load io))))))))))))"

abbreviation grow :: "medium \<Rightarrow> nat \<Rightarrow> (paged_store, unit, unit) reader" where
  "grow io n \<equiv> on_obj (expandCapacity io n)"

definition paged_deserialize :: "medium \<Rightarrow> (paged_store, unit, unit) reader" where
  "paged_deserialize io =
     and_then (ReadValue () 4) (\<lambda>version :: u32.
     and_then (ReadValue () 8) (\<lambda>tot :: u64.
     and_then (ReadValue () 8) (\<lambda>dims :: u64.
     and_then (ReadValue () 8) (\<lambda>vpp :: u64.
     and_then (ReadValue () 8) (\<lambda>npages :: u64.
     and_then (ReadValue () 8) (\<lambda>nkeys :: u64.
     and_then (check () (\<not> (version < 1 \<or> version > 2))) (\<lambda>_.
     and_then (peek_obj (\<lambda>s. (ps_dim s, vectors_per_page s, ps_total s))) (\<lambda>(d, v, t).
     and_then (check () (unat dims = d \<and> unat vpp = v)) (\<lambda>_.
     and_then (if unat tot > t then grow io (unat tot) else got ()) (\<lambda>_.
     load_tables io version tot npages nkeys))))))))))"

subsection \<open>What is written is read back\<close>

text \<open>The values fit their fields, as the types of the C++ members guarantee.\<close>

definition fits :: "paged_store \<Rightarrow> bool" where
  "fits s \<longleftrightarrow> ps_dim s < 2 ^ 64 \<and> ps_total s \<le> 2 ^ 63 \<and> length (ps_pages s) < 2 ^ 64 \<and> length (ps_idxToKey s) < 2 ^ 64
     \<and> length (ps_idToPage s) = ps_total s \<and> length (ps_idToSlot s) = ps_total s
     \<and> length (ps_updates s) < 2 ^ 64 \<and> distinct (map fst (ps_updates s))
     \<and> (\<forall>pm \<in> set (ps_pages s). - (2 ^ 31) \<le> pm_section pm \<and> pm_section pm < 2 ^ 31 \<and> pm_used pm < 2 ^ 16 \<and> pm_used pm \<le> vectors_per_page s)
     \<and> (\<forall>p \<in> set (ps_idToPage s). - 1 \<le> p \<and> p < 2 ^ 31)
     \<and> (\<forall>l \<in> set (ps_idToSlot s). l < 2 ^ 16)
     \<and> (\<forall>(n, p, l) \<in> set (ps_updates s). - (2 ^ 63) \<le> p \<and> p < 2 ^ 63 \<and> l < 2 ^ 16)"

lemma unat_u64 [simp]: "n < 2 ^ 64 \<Longrightarrow> unat (of_nat n :: u64) = n"
  by (simp add: unat_of_nat take_bit_nat_eq_self)

lemma unat_u16 [simp]: "n < 2 ^ 16 \<Longrightarrow> unat (of_nat n :: u16) = n"
  by (simp add: unat_of_nat take_bit_nat_eq_self)

lemma sint_u64: "- (2 ^ 63) \<le> p \<Longrightarrow> p < 2 ^ 63 \<Longrightarrow> sint (word_of_int p :: u64) = p"
  by (simp add: sint_sbintrunc' signed_take_bit_int_eq_self)

lemma sint_u32: "- (2 ^ 31) \<le> p \<Longrightarrow> p < 2 ^ 31 \<Longrightarrow> sint (word_of_int p :: u32) = p"
  by (simp add: sint_sbintrunc' signed_take_bit_int_eq_self)


lemma goes_bind: "goes m x a y \<Longrightarrow> goes (f a) y b z \<Longrightarrow> goes (and_then m f) x b z"
  by (rule goes_and_then)

lemma load_page_goes:
  assumes "- (2 ^ 31) \<le> pm_section pm" "pm_section pm < 2 ^ 31" "pm_used pm < 2 ^ 16" "pm_used pm \<le> vectors_per_page st"
  shows "goes (load_page i) (put_page pm @ rest, st) () (rest, st\<lparr>ps_pages := ps_pages st @ [pm]\<rparr>)"
proof -
  have e: "st\<lparr>ps_pages := ps_pages st @ [pm]\<rparr> = st\<lparr>ps_pages := ps_pages st @
      [\<lparr>pm_section = sint (word_of_int (pm_section pm) :: u32), pm_used = unat (of_nat (pm_used pm) :: u16)\<rparr>]\<rparr>"
    using assms by (simp add: sint_u32)
  show ?thesis unfolding load_page_def put_page_def append_assoc e
    by (rule goes_bind, rule reads, simp, rule goes_bind, rule reads, simp, rule goes_bind, rule reads, rule goes_bind, rule reads)
      (use assms in \<open>simp_all add: goes_def change_def\<close>)
qed

lemma load_key_goes: "goes (load_key i) (put_le 8 k @ rest, st) () (rest, st\<lparr>ps_idxToKey := ps_idxToKey st @ [k]\<rparr>)"
  unfolding load_key_def by (rule goes_bind, rule reads, simp, rule reads)

lemma load_idToPage_goes:
  assumes "- 1 \<le> p" "p < 2 ^ 31"
  shows "goes (load_idToPage i) (put_le 8 (word_of_int p :: u64) @ rest, st) () (rest, st\<lparr>ps_idToPage := (ps_idToPage st)[i := p]\<rparr>)"
proof -
  have p: "sint (word_of_int p :: u64) = p" using assms by (simp add: sint_u64)
  show ?thesis unfolding load_idToPage_def
    by (rule goes_bind, rule reads, simp, rule goes_bind, rule reads) (use assms goes_change p in simp_all)
qed

lemma load_idToSlot_goes:
  assumes "l < 2 ^ 16"
  shows "goes (load_idToSlot i) (put_le 2 (of_nat l :: u16) @ rest, st) () (rest, st\<lparr>ps_idToSlot := (ps_idToSlot st)[i := l]\<rparr>)"
  unfolding load_idToSlot_def
  by (rule goes_bind, rule reads, simp) (use assms goes_change in simp)

lemma AList_update_new: "k \<notin> fst ` set xs \<Longrightarrow> AList.update k v xs = xs @ [(k, v)]"
  by (induction xs) auto

lemma load_update_goes:
  assumes "u = (n, p, l)" "- (2 ^ 63) \<le> p" "p < 2 ^ 63" "l < 2 ^ 16" "n \<notin> fst ` set (ps_updates st)"
  shows "goes (load_update i) (put_update u @ rest, st) () (rest, st\<lparr>ps_updates := ps_updates st @ [u]\<rparr>)"
proof -
  have "sint (word_of_int p :: u64) = p" using assms by (simp add: sint_u64)
  then have e: "st\<lparr>ps_updates := ps_updates st @ [u]\<rparr>
      = st\<lparr>ps_updates := AList.update n (sint (word_of_int p :: u64), unat (of_nat l :: u16)) (ps_updates st)\<rparr>"
    using assms(1,4,5) by (simp add: AList_update_new)
  show ?thesis unfolding load_update_def put_update_def assms(1) prod.case append_assoc e [unfolded assms(1)]
    by (rule goes_bind, rule reads, simp, rule goes_bind, rule reads, simp, rule goes_bind, rule reads, simp, rule reads)
qed

text \<open>The loops.\<close>

lemma load_pages_goes:
  assumes "\<forall>pm \<in> set pms. - (2 ^ 31) \<le> pm_section pm \<and> pm_section pm < 2 ^ 31 \<and> pm_used pm < 2 ^ 16 \<and> pm_used pm \<le> vectors_per_page st"
  shows "goes (times 0 (length pms) load_page) (concat (map put_page pms) @ rest, st\<lparr>ps_pages := []\<rparr>) () (rest, st\<lparr>ps_pages := pms\<rparr>)"
proof -
  have "goes (load_page (0 + k)) (put_page (pms ! k) @ rest, st\<lparr>ps_pages := take k pms\<rparr>) () (rest, st\<lparr>ps_pages := take (Suc k) pms\<rparr>)"
    if "k < length pms" for k rest
    using load_page_goes [of "pms ! k" "st\<lparr>ps_pages := take k pms\<rparr>" "0 + k" rest] assms that
    by (simp add: take_Suc_conv_app_nth vectors_per_page_def record_size_def)
  from goes_times [of pms load_page 0 put_page "\<lambda>k. st\<lparr>ps_pages := take k pms\<rparr>" rest, OF this] show ?thesis by simp
qed

lemma load_keys_goes:
  "goes (times 0 (length ks) load_key) (concat (map (put_le 8) ks) @ rest, st\<lparr>ps_idxToKey := []\<rparr>) () (rest, st\<lparr>ps_idxToKey := ks\<rparr>)"
proof -
  have "goes (load_key (0 + k)) (put_le 8 (ks ! k) @ rest, st\<lparr>ps_idxToKey := take k ks\<rparr>) () (rest, st\<lparr>ps_idxToKey := take (Suc k) ks\<rparr>)"
    if "k < length ks" for k rest
    using load_key_goes [of "0 + k" "ks ! k" rest "st\<lparr>ps_idxToKey := take k ks\<rparr>"] that by (simp add: take_Suc_conv_app_nth)
  from goes_times [of ks load_key 0 "put_le 8" "\<lambda>k. st\<lparr>ps_idxToKey := take k ks\<rparr>" rest, OF this] show ?thesis by simp
qed

lemma list_update_fill: "k < length xs \<Longrightarrow> (take k xs @ replicate (length xs - k) d)[k := xs ! k] = take (Suc k) xs @ replicate (length xs - Suc k) d"
  by (simp add: list_update_append take_Suc_conv_app_nth Suc_diff_Suc [symmetric])

lemma load_idToPages_goes:
  assumes "\<forall>p \<in> set ps. - 1 \<le> p \<and> p < 2 ^ 31"
  shows "goes (times 0 (length ps) load_idToPage) (concat (map (\<lambda>p. put_le 8 (word_of_int p :: u64)) ps) @ rest,
      st\<lparr>ps_idToPage := replicate (length ps) (- 1)\<rparr>) () (rest, st\<lparr>ps_idToPage := ps\<rparr>)"
proof -
  let ?S = "\<lambda>k. st\<lparr>ps_idToPage := take k ps @ replicate (length ps - k) (- 1)\<rparr>"
  have "goes (load_idToPage (0 + k)) (put_le 8 (word_of_int (ps ! k) :: u64) @ rest, ?S k) () (rest, ?S (Suc k))"
    if "k < length ps" for k rest
    using load_idToPage_goes [of "ps ! k" "0 + k" rest "?S k"] assms that by (simp add: list_update_fill)
  from goes_times [of ps load_idToPage 0 "\<lambda>p. put_le 8 (word_of_int p :: u64)" ?S rest, OF this] show ?thesis by simp
qed

lemma load_idToSlots_goes:
  assumes "\<forall>l \<in> set ls. l < 2 ^ 16"
  shows "goes (times 0 (length ls) load_idToSlot) (concat (map (\<lambda>l. put_le 2 (of_nat l :: u16)) ls) @ rest,
      st\<lparr>ps_idToSlot := replicate (length ls) 0\<rparr>) () (rest, st\<lparr>ps_idToSlot := ls\<rparr>)"
proof -
  let ?S = "\<lambda>k. st\<lparr>ps_idToSlot := take k ls @ replicate (length ls - k) 0\<rparr>"
  have "goes (load_idToSlot (0 + k)) (put_le 2 (of_nat (ls ! k) :: u16) @ rest, ?S k) () (rest, ?S (Suc k))"
    if "k < length ls" for k rest
    using load_idToSlot_goes [of "ls ! k" "0 + k" rest "?S k"] assms that by (simp add: list_update_fill)
  from goes_times [of ls load_idToSlot 0 "\<lambda>l. put_le 2 (of_nat l :: u16)" ?S rest, OF this] show ?thesis by simp
qed

lemma load_updates_goes:
  assumes "\<forall>(n, p, l) \<in> set us. - (2 ^ 63) \<le> p \<and> p < 2 ^ 63 \<and> l < 2 ^ 16" "distinct (map fst us)" "length us < 2 ^ 64"
  shows "goes (load_updates 2) (put_size (length us) @ concat (map put_update us) @ rest, st) () (rest, st\<lparr>ps_updates := us\<rparr>)"
proof -
  let ?S = "\<lambda>k. st\<lparr>ps_updates := take k us\<rparr>"
  have s: "goes (load_update (0 + k)) (put_update (us ! k) @ rest, ?S k) () (rest, ?S (Suc k))"
    if k: "k < length us" for k rest
  proof -
    obtain n p l where u: "us ! k = (n, p, l)" by (metis prod_cases3)
    then have "(n, p, l) \<in> set us" using nth_mem [OF k] by simp
    moreover have "n \<notin> fst ` set (take k us)"
    proof
      assume "n \<in> fst ` set (take k us)"
      then obtain j where j: "j < k" "fst (us ! j) = n" using k by (auto simp: in_set_conv_nth) 
      then have "map fst us ! j = map fst us ! k" using k u by simp
      then show False using nth_eq_iff_index_eq [OF assms(2), of j k] j(1) k by simp
    qed
    ultimately show ?thesis
      using load_update_goes [OF u, of "?S k" "0 + k" rest] assms(1) k by (auto simp: take_Suc_conv_app_nth)
  qed
  have l: "goes (times 0 (length us) load_update) (concat (map put_update us) @ rest, ?S 0) () (rest, ?S (length us))"
    by (rule goes_times [of us load_update 0 put_update ?S rest, OF s])
  have c: "goes (change (ps_updates_update (\<lambda>_. []))) (put_size (length us) @ concat (map put_update us) @ rest, st) ()
      (put_size (length us) @ concat (map put_update us) @ rest, ?S 0)" using goes_change [of "ps_updates_update (\<lambda>_. [])"] by simp
  show ?thesis unfolding load_updates_def
    by (rule goes_bind, rule c, simp, rule goes_bind, rule reads, simp) (use l assms(3) in simp)
qed


subsection \<open>The lists that are worked out again\<close>

definition shaped :: "page_meta list \<Rightarrow> bool list list \<Rightarrow> bool" where
  "shaped pages used \<longleftrightarrow> map length used = map pm_used pages"

lemma shaped_at: "shaped pages used \<Longrightarrow> p < length pages \<Longrightarrow> length (used ! p) = pm_used (pages ! p)"
  unfolding shaped_def by (metis length_map nth_map)

lemma shaped_length: "shaped pages used \<Longrightarrow> length used = length pages"
  unfolding shaped_def by (metis length_map)

lemma shaped_mark: "shaped pages used \<Longrightarrow> shaped pages (mark_slot p l used)"
proof -
  have "length (mark_slot p l used ! i) = length (used ! i)" for i
    by (cases "i = p"; cases "p < length used") (simp_all add: mark_slot_def list_update_beyond)
  then have "map length (mark_slot p l used) = map length used"
    by (intro nth_equalityI) (simp_all add: mark_slot_def)
  then show "shaped pages used \<Longrightarrow> shaped pages (mark_slot p l used)" by (simp add: shaped_def)
qed

lemma mark_at:
  assumes "shaped pages used" "p < length pages" "l < pm_used (pages ! p)"
  shows "mark_slot q k used ! p ! l \<longleftrightarrow> used ! p ! l \<or> (q = p \<and> k = l)"
  using assms shaped_at [OF assms(1,2)] shaped_length [OF assms(1)] by (cases "q = p"; cases "k = l") (auto simp: mark_slot_def)

lemma mark_dense_ok:
  assumes "shaped pages used" "\<forall>(p, l) \<in> set ls. p \<ge> 0 \<longrightarrow> nat p < length pages \<and> l < pm_used (pages ! nat p)"
  shows "\<exists>used'. mark_dense pages ls used = Some used' \<and> shaped pages used'
    \<and> (\<forall>p l. p < length pages \<longrightarrow> l < pm_used (pages ! p) \<longrightarrow> (used' ! p ! l \<longleftrightarrow> used ! p ! l \<or> (int p, l) \<in> set ls))"
  using assms
proof (induction ls arbitrary: used)
  case Nil
  then show ?case by simp
next
  case (Cons x ls)
  obtain p l where x: "x = (p, l)" by force
  show ?case
  proof (cases "p < 0")
    case True
    then show ?thesis using Cons.IH [OF Cons.prems(1)] Cons.prems(2) by (auto simp: x)
  next
    case False
    have b: "nat p < length pages" "l < pm_used (pages ! nat p)" using Cons.prems(2) False x by auto
    obtain used' where u: "mark_dense pages ls (mark_slot (nat p) l used) = Some used'" "shaped pages used'"
      "\<forall>q k. q < length pages \<longrightarrow> k < pm_used (pages ! q) \<longrightarrow>
         (used' ! q ! k \<longleftrightarrow> mark_slot (nat p) l used ! q ! k \<or> (int q, k) \<in> set ls)"
      using Cons.IH [OF shaped_mark [OF Cons.prems(1)], of "nat p" l] Cons.prems(2) by (auto simp: x)
    have "used' ! q ! k \<longleftrightarrow> used ! q ! k \<or> (int q, k) \<in> set (x # ls)" if "q < length pages" "k < pm_used (pages ! q)" for q k
      using u(3) that mark_at [OF Cons.prems(1) that, of "nat p" l] False by (auto simp: x)
    then show ?thesis using u(1,2) False b by (simp add: x)
  qed
qed

lemma mark_updates_ok:
  assumes "shaped pages used"
  shows "shaped pages (mark_updates pages us used)
    \<and> (\<forall>p l. p < length pages \<longrightarrow> l < pm_used (pages ! p) \<longrightarrow>
        (mark_updates pages us used ! p ! l \<longleftrightarrow> used ! p ! l \<or> (\<exists>n. (n, int p, l) \<in> set us)))"
  using assms
proof (induction us arbitrary: used)
  case Nil
  then show ?case by simp
next
  case (Cons x us)
  obtain n p l where x: "x = (n, p, l)" by (metis prod_cases3)
  show ?case
  proof (cases "p < 0 \<or> nat p \<ge> length pages \<or> l \<ge> length (used ! nat p)")
    case True
    have "\<not> (p = int q \<and> l = k)" if "q < length pages" "k < pm_used (pages ! q)" for q k
      using True that shaped_at [OF Cons.prems] by auto
    then show ?thesis using True Cons.IH [OF Cons.prems] by (auto simp: x)
  next
    case False
    note IH = Cons.IH [OF shaped_mark [OF Cons.prems, of "nat p" l]]
    have "mark_updates pages (x # us) used ! q ! k \<longleftrightarrow> used ! q ! k \<or> (\<exists>n. (n, int q, k) \<in> set (x # us))"
      if "q < length pages" "k < pm_used (pages ! q)" for q k
    proof -
      have "p = int q \<longleftrightarrow> nat p = q" using False by auto
      then show ?thesis using IH that mark_at [OF Cons.prems that, of "nat p" l] False by (auto simp: x)
    qed
    then show ?thesis using IH False by (simp add: x)
  qed
qed

text \<open>What one page adds to the lists of section \<open>i\<close>.\<close>

definition open_of :: "paged_store \<Rightarrow> nat \<Rightarrow> nat \<Rightarrow> nat list" where
  "open_of s i p = (if pm_section (ps_pages s ! p) = int i \<and> pm_used (ps_pages s ! p) < vectors_per_page s then [p] else [])"

definition free_of :: "bool list list \<Rightarrow> paged_store \<Rightarrow> nat \<Rightarrow> nat \<Rightarrow> (nat \<times> nat) list" where
  "free_of used s i p = (if pm_section (ps_pages s ! p) = int i
     then map (Pair p) (filter (\<lambda>l. \<not> used ! p ! l) [0..<pm_used (ps_pages s ! p)]) else [])"

definition only_lists :: "paged_store \<Rightarrow> paged_store \<Rightarrow> bool" where
  "only_lists s s' \<longleftrightarrow> s' = s\<lparr>ps_shards := ps_shards s'\<rparr> \<and> shards_ok s'
     \<and> (\<forall>i. sh_bufs (shard_of s' i) = sh_bufs (shard_of s i) \<and> sh_order (shard_of s' i) = sh_order (shard_of s i))"

lemma list_at_put: "list_at i (AList.update k v m) = (if i = k then v else list_at i m)"
  by (simp add: list_at_def update_conv')

lemma rebuild_page_lists:
  assumes "shards_ok s"
  shows "only_lists s (rebuild_page used p s)"
    "list_at i (sh_open (shard_of (rebuild_page used p s) i)) = list_at i (sh_open (shard_of s i)) @ open_of s i p"
    "list_at i (sh_free (shard_of (rebuild_page used p s) i)) = list_at i (sh_free (shard_of s i)) @ free_of used s i p"
proof -
  let ?pm = "ps_pages s ! p"
  have "only_lists s (rebuild_page used p s)
    \<and> list_at i (sh_open (shard_of (rebuild_page used p s) i)) = list_at i (sh_open (shard_of s i)) @ open_of s i p
    \<and> list_at i (sh_free (shard_of (rebuild_page used p s) i)) = list_at i (sh_free (shard_of s i)) @ free_of used s i p"
  proof (cases "pm_section ?pm < 0")
    case True
    then show ?thesis using assms by (simp add: rebuild_page_def Let_def only_lists_def open_of_def free_of_def)
  next
    case False
    define f :: "section_shard \<Rightarrow> section_shard" where "f = (\<lambda>sh. sh
        \<lparr>sh_open := (if pm_used ?pm < vectors_per_page s
                     then AList.update (nat (pm_section ?pm)) (list_at (nat (pm_section ?pm)) (sh_open sh) @ [p]) (sh_open sh) else sh_open sh),
         sh_free := AList.update (nat (pm_section ?pm)) (list_at (nat (pm_section ?pm)) (sh_free sh)
           @ map (Pair p) (filter (\<lambda>l. \<not> used ! p ! l) [0..<pm_used ?pm])) (sh_free sh)\<rparr>)"
    have r: "rebuild_page used p s = on_shard (nat (pm_section ?pm)) f s"
      using False by (simp add: rebuild_page_def Let_def f_def)
    have sh: "shard_of (on_shard k f s) j = (if j mod kNumSectionShards = k mod kNumSectionShards then f (shard_of s k) else shard_of s j)" for k j
      by (rule shard_of_on_shard [OF assms])
    have same: "sh_bufs (f sh') = sh_bufs sh'" "sh_order (f sh') = sh_order sh'" for sh' by (simp_all add: f_def)
    have "sh_bufs (shard_of (on_shard (nat (pm_section ?pm)) f s) j) = sh_bufs (shard_of s j)
        \<and> sh_order (shard_of (on_shard (nat (pm_section ?pm)) f s) j) = sh_order (shard_of s j)" for j
      unfolding sh using shard_of_mod [of j "nat (pm_section ?pm)" s] by (simp add: same)
    then have o: "only_lists s (on_shard (nat (pm_section ?pm)) f s)"
      using assms unfolding only_lists_def by (simp add: on_shard_def [of _ f s, symmetric])
    show ?thesis
    proof (cases "i mod kNumSectionShards = nat (pm_section ?pm) mod kNumSectionShards")
      case True
      have "pm_section ?pm = int i \<longleftrightarrow> i = nat (pm_section ?pm)" using False by auto
      then show ?thesis unfolding r using o True shard_of_mod [OF True, of s]
        by (simp add: sh) (simp add: f_def list_at_put open_of_def free_of_def)
    next
      case other: False
      then have "pm_section ?pm \<noteq> int i" by auto
      then show ?thesis unfolding r using o other by (simp add: sh open_of_def free_of_def)
    qed
  qed
  then show "only_lists s (rebuild_page used p s)"
    "list_at i (sh_open (shard_of (rebuild_page used p s) i)) = list_at i (sh_open (shard_of s i)) @ open_of s i p"
    "list_at i (sh_free (shard_of (rebuild_page used p s) i)) = list_at i (sh_free (shard_of s i)) @ free_of used s i p"
    by blast+
qed

lemma only_lists_trans: "only_lists s s' \<Longrightarrow> only_lists s' s'' \<Longrightarrow> only_lists s s''"
proof -
  assume a: "only_lists s s'" "only_lists s' s''"
  have "s'' = s'\<lparr>ps_shards := ps_shards s''\<rparr>" "s' = s\<lparr>ps_shards := ps_shards s'\<rparr>" using a by (simp_all add: only_lists_def)
  then have "s'' = s\<lparr>ps_shards := ps_shards s''\<rparr>" by (metis paged_store.update_convs(12) paged_store.surjective)
  then show ?thesis using a by (simp add: only_lists_def)
qed

lemma rebuild_pages_lists:
  assumes "shards_ok s"
  shows "only_lists s (fold (rebuild_page used) ps s)
    \<and> list_at i (sh_open (shard_of (fold (rebuild_page used) ps s) i)) = list_at i (sh_open (shard_of s i)) @ concat (map (open_of s i) ps)
    \<and> list_at i (sh_free (shard_of (fold (rebuild_page used) ps s) i)) = list_at i (sh_free (shard_of s i)) @ concat (map (free_of used s i) ps)"
  using assms
proof (induction ps arbitrary: s)
  case Nil
  then show ?case by (simp add: only_lists_def)
next
  case (Cons p ps)
  let ?s = "rebuild_page used p s"
  note P = rebuild_page_lists [OF Cons.prems, where used = used and p = p]
  have f: "?s = s\<lparr>ps_shards := ps_shards ?s\<rparr>" "shards_ok ?s" using P(1) by (simp_all add: only_lists_def)
  have "ps_pages ?s = ps_pages s" "vectors_per_page ?s = vectors_per_page s"
    by (subst f(1), simp add: vectors_per_page_def record_size_def)+
  then have g: "open_of ?s i = open_of s i" "free_of used ?s i = free_of used s i"
    by (simp_all add: open_of_def free_of_def fun_eq_iff)
  show ?case using Cons.IH [OF f(2)] P only_lists_trans g by auto
qed


subsection \<open>Opening a checkpoint again\<close>

text \<open>The tables as they are loaded, before the lists are worked out.\<close>

definition loaded :: "paged_store \<Rightarrow> paged_store \<Rightarrow> paged_store" where
  "loaded s st = (clear_shards (st\<lparr>ps_pages := ps_pages s, ps_idxToKey := ps_idxToKey s, ps_idToPage := ps_idToPage s,
     ps_idToSlot := ps_idToSlot s, ps_keyToIdx := key_index (ps_idxToKey s)\<rparr>))\<lparr>ps_updates := ps_updates s\<rparr>"

lemma load_tables_goes:
  assumes "fits s" "vectors_per_page st = vectors_per_page s"
    and "goes (finish_load io) (rest, loaded s st) () y"
  shows "goes (load_tables io 2 (of_nat (ps_total s)) (of_nat (length (ps_pages s))) (of_nat (length (ps_idxToKey s))))
    (concat (map put_page (ps_pages s)) @ concat (map (put_le 8) (ps_idxToKey s))
     @ put_size (length (ps_idToPage s)) @ put_size (length (ps_idToSlot s))
     @ concat (map (\<lambda>p. put_le 8 (word_of_int p :: u64)) (ps_idToPage s))
     @ concat (map (\<lambda>l. put_le 2 (of_nat l :: u16)) (ps_idToSlot s))
     @ put_size (length (ps_updates s)) @ concat (map put_update (ps_updates s)) @ rest, st) () y"
proof -
  let ?np = "length (ps_pages s)" and ?nk = "length (ps_idxToKey s)" and ?n = "ps_total s"
  have F: "?n < 2 ^ 64" "?np < 2 ^ 64" "?nk < 2 ^ 64" "length (ps_idToPage s) = ?n" "length (ps_idToSlot s) = ?n"
    using assms(1) by (simp_all add: fits_def)
  define s1 where "s1 = st\<lparr>ps_pages := ps_pages s\<rparr>"
  define s2 where "s2 = s1\<lparr>ps_idxToKey := ps_idxToKey s\<rparr>"
  define s3 where "s3 = s2\<lparr>ps_idToSlot := replicate ?n 0, ps_idToPage := replicate ?n (- 1)\<rparr>"
  define s4 where "s4 = s2\<lparr>ps_idToSlot := replicate ?n 0, ps_idToPage := ps_idToPage s\<rparr>"
  define s5 where "s5 = s2\<lparr>ps_idToPage := ps_idToPage s, ps_idToSlot := ps_idToSlot s\<rparr>"
  define s6 where "s6 = clear_shards (s5\<lparr>ps_keyToIdx := key_index (ps_idxToKey s5)\<rparr>)"
  have l: "loaded s st = s6\<lparr>ps_updates := ps_updates s\<rparr>"
    by (simp add: loaded_def s6_def s5_def s2_def s1_def)
  have g1: "goes (times 0 ?np load_page) (concat (map put_page (ps_pages s)) @ r, st\<lparr>ps_pages := []\<rparr>) () (r, s1)" for r
    unfolding s1_def by (rule load_pages_goes) (use assms(1,2) in \<open>simp add: fits_def\<close>)
  have g2: "goes (times 0 ?nk load_key) (concat (map (put_le 8) (ps_idxToKey s)) @ r, s1\<lparr>ps_idxToKey := []\<rparr>) () (r, s2)" for r
    unfolding s2_def by (rule load_keys_goes)
  have g3: "goes (times 0 ?n load_idToPage) (concat (map (\<lambda>p. put_le 8 (word_of_int p :: u64)) (ps_idToPage s)) @ r, s3) () (r, s4)" for r
    using load_idToPages_goes [of "ps_idToPage s" r s3] assms(1) F(4) by (simp add: fits_def s3_def s4_def)
  have g4: "goes (times 0 ?n load_idToSlot) (concat (map (\<lambda>l. put_le 2 (of_nat l :: u16)) (ps_idToSlot s)) @ r, s4) () (r, s5)" for r
    using load_idToSlots_goes [of "ps_idToSlot s" r s4] assms(1) F(5) by (cases s2) (simp add: fits_def s4_def s5_def)
  have g5: "goes (load_updates 2) (put_size (length (ps_updates s)) @ concat (map put_update (ps_updates s)) @ rest, s6) () (rest, loaded s st)"
    unfolding l by (rule load_updates_goes) (use assms(1) in \<open>simp_all add: fits_def\<close>)
  have c1: "goes (change (ps_pages_update (\<lambda>_. []))) (r, st) () (r, st\<lparr>ps_pages := []\<rparr>)" for r by (simp add: goes_def change_def)
  have c2: "goes (change (ps_idxToKey_update (\<lambda>_. []))) (r, s1) () (r, s1\<lparr>ps_idxToKey := []\<rparr>)" for r by (simp add: goes_def change_def)
  have c3: "goes (change (\<lambda>s. s\<lparr>ps_idToPage := replicate ?n (- 1), ps_idToSlot := replicate ?n 0\<rparr>)) (r, s2) () (r, s3)" for r
    by (cases s2) (simp add: goes_def change_def s3_def)
  have c4: "goes (change (\<lambda>s. clear_shards (s\<lparr>ps_keyToIdx := key_index (ps_idxToKey s)\<rparr>))) (r, s5) () (r, s6)" for r
    by (simp add: goes_def change_def s6_def)
  show ?thesis
    unfolding load_tables_def F(4,5) unat_u64 [OF F(1)] unat_u64 [OF F(2)] unat_u64 [OF F(3)]
    by (rule goes_bind [OF c1], rule goes_bind [OF g1], rule goes_bind [OF c2], rule goes_bind [OF g2],
        rule goes_bind, rule reads, simp, rule goes_bind, rule reads, simp, rule goes_bind, rule reads, simp,
        unfold unat_u64 [OF F(1)], rule goes_bind [OF c3], rule goes_bind [OF g3], rule goes_bind [OF g4],
        rule goes_bind [OF c4], rule goes_bind [OF g5], rule assms(3))
qed


text \<open>The reopened store: the tables of \<open>s\<close>, the file and the limits of \<open>st\<close>.\<close>

definition same_tables :: "paged_store \<Rightarrow> paged_store \<Rightarrow> bool" where
  "same_tables s s' \<longleftrightarrow> ps_dim s' = ps_dim s \<and> ps_total s' = ps_total s \<and> ps_pages s' = ps_pages s
     \<and> ps_idToPage s' = ps_idToPage s \<and> ps_idToSlot s' = ps_idToSlot s \<and> ps_updates s' = ps_updates s"

lemma same_tables_locs:
  assumes "same_tables s s'"
  shows "page_of n s' = page_of n s" "slot_of n s' = slot_of n s" "loc s' n = loc s n" "locs_ok s' = locs_ok s"
    "record_size s' = record_size s" "vectors_per_page s' = vectors_per_page s" "slot_offset s' l = slot_offset s l"
    "section_of_page p s' = section_of_page p s"
proof -
  show p: "page_of n s' = page_of n s" "slot_of n s' = slot_of n s" for n
    using assms by (simp_all add: same_tables_def page_of_def slot_of_def)
  show l: "loc s' n = loc s n" for n by (simp add: loc_def p)
  show "locs_ok s' = locs_ok s" using assms by (simp add: locs_ok_def p l same_tables_def)
  show "record_size s' = record_size s" "vectors_per_page s' = vectors_per_page s" "slot_offset s' l = slot_offset s l"
    "section_of_page p s' = section_of_page p s"
    using assms by (simp_all add: same_tables_def record_size_def vectors_per_page_def slot_offset_def section_of_page_def)
qed

text \<open>Every location is marked, and only slots of used pages are offered.\<close>

lemma marks_complete:
  assumes "fits s" "locs_ok s"
  shows "\<exists>used. mark_dense (ps_pages s) (zip (ps_idToPage s) (ps_idToSlot s)) (map (\<lambda>pm. replicate (pm_used pm) False) (ps_pages s)) = Some used
    \<and> (\<forall>n. page_of n s \<ge> 0 \<longrightarrow> mark_updates (ps_pages s) (ps_updates s) used ! nat (page_of n s) ! slot_of n s)"
proof -
  let ?init = "map (\<lambda>pm. replicate (pm_used pm) False) (ps_pages s)" and ?z = "zip (ps_idToPage s) (ps_idToSlot s)"
  have F: "length (ps_idToPage s) = ps_total s" "length (ps_idToSlot s) = ps_total s" "ps_total s \<le> 2 ^ 63"
    using assms(1) by (simp_all add: fits_def)
  have init: "shaped (ps_pages s) ?init" by (simp add: shaped_def o_def)
  have "nat p < length (ps_pages s) \<and> l < pm_used (ps_pages s ! nat p)" if z: "(p, l) \<in> set ?z" "p \<ge> 0" for p l
  proof -
    obtain i where i: "i < ps_total s" "ps_idToPage s ! i = p" "ps_idToSlot s ! i = l"
      using z(1) F by (auto simp: in_set_zip)
    let ?n = "of_nat i :: node_id"
    have u: "unat ?n = i" using i(1) F(3) by simp
    have "is_direct_id ?n" using i(1) F(3) u by (simp add: is_direct_unat)
    then have "page_of ?n s = p" "slot_of ?n s = l" using i F u by (simp_all add: page_of_def slot_of_def)
    then show ?thesis using assms(2) z(2) unfolding locs_ok_def by blast
  qed
  then obtain used where used: "mark_dense (ps_pages s) ?z ?init = Some used" "shaped (ps_pages s) used"
    "\<forall>p l. p < length (ps_pages s) \<longrightarrow> l < pm_used (ps_pages s ! p) \<longrightarrow> (used ! p ! l \<longleftrightarrow> ?init ! p ! l \<or> (int p, l) \<in> set ?z)"
    using mark_dense_ok [OF init, of ?z] by auto
  note U = mark_updates_ok [OF used(2), of "ps_updates s"]
  have "mark_updates (ps_pages s) (ps_updates s) used ! nat (page_of n s) ! slot_of n s" if p: "page_of n s \<ge> 0" for n
  proof -
    have b: "nat (page_of n s) < length (ps_pages s)" "slot_of n s < pm_used (ps_pages s ! nat (page_of n s))"
      using assms(2) p unfolding locs_ok_def by blast+
    have "(page_of n s, slot_of n s) \<in> set ?z \<or> (\<exists>m. (m, page_of n s, slot_of n s) \<in> set (ps_updates s))"
    proof (cases "is_direct_id n")
      case True
      then have "unat n < ps_total s" using p F by (auto simp: page_of_def split: if_splits)
      then show ?thesis using True F by (auto simp: page_of_def slot_of_def in_set_zip)
    next
      case False
      then show ?thesis using p by (auto simp: page_of_def slot_of_def split: option.splits dest: map_of_SomeD)
    qed
    then show ?thesis using U used(3) b p by auto
  qed
  then show ?thesis using used(1) by blast
qed

lemma finish_load_goes:
  assumes "fits s" "locs_ok s" "ps_dim st = ps_dim s" "shards_ok st" "ps_total st \<le> length (ps_del st)"
  obtains s' used where "\<And>rest. goes (finish_load io) (rest, loaded s st) () (rest, s')"
    "same_tables (s\<lparr>ps_total := ps_total st\<rparr>) s'" "ps_file s' = ps_file st" "ps_flags s' = take (ps_total st) (ps_del st)" "shards_ok s'"
    "ps_buf_count s' = ps_buf_count st" "ps_max_cached s' = ps_max_cached st" "ps_cached s' = 0" "ps_hand s' = 0"
    "ps_pageToSlot s' = map (\<lambda>_. - 1) (ps_pageToSlot st)"
    "\<And>i. sh_bufs (shard_of s' i) = []" "\<And>i. sh_order (shard_of s' i) = []"
    "\<And>i. list_at i (sh_open (shard_of s' i)) = concat (map (open_of s i) [0..<length (ps_pages s)])"
    "\<And>i. list_at i (sh_free (shard_of s' i)) = concat (map (free_of used s i) [0..<length (ps_pages s)])"
    "\<And>n. page_of n s \<ge> 0 \<Longrightarrow> used ! nat (page_of n s) ! slot_of n s"
proof -
  let ?L = "loaded s st" and ?n = "length (ps_pages s)"
  obtain u where u: "mark_dense (ps_pages s) (zip (ps_idToPage s) (ps_idToSlot s)) (map (\<lambda>pm. replicate (pm_used pm) False) (ps_pages s)) = Some u"
    "\<And>n. page_of n s \<ge> 0 \<longrightarrow> mark_updates (ps_pages s) (ps_updates s) u ! nat (page_of n s) ! slot_of n s"
    using marks_complete [OF assms(1,2)] by blast
  let ?used = "mark_updates (ps_pages s) (ps_updates s) u"
  have L: "ps_pages ?L = ps_pages s" "ps_updates ?L = ps_updates s" "ps_idToPage ?L = ps_idToPage s" "ps_idToSlot ?L = ps_idToSlot s"
    "ps_total ?L = ps_total st" "ps_dim ?L = ps_dim s" "ps_file ?L = ps_file st" "ps_del ?L = ps_del st" "ps_buf_count ?L = ps_buf_count st"
    "ps_max_cached ?L = ps_max_cached st" "ps_pageToSlot ?L = ps_pageToSlot st"
    using assms(3) by (simp_all add: loaded_def clear_shards_def)
  have Ls: "shard_of ?L i = \<lparr>sh_open = [], sh_free = [], sh_bufs = [], sh_order = []\<rparr>" "shards_ok ?L" for i
    using assms(4) by (simp_all add: loaded_def clear_shards_def shard_of_def shards_ok_def kNumSectionShards_def)
  define R where "R = fold (rebuild_page ?used) [0..<?n] ?L"
  note rb = rebuild_pages_lists [OF Ls(2), of ?used "[0..<?n]", folded R_def]
  have R: "R = ?L\<lparr>ps_shards := ps_shards R\<rparr>" "shards_ok R" using rb by (simp_all add: only_lists_def)
  define s' where "s' = resetPageCache (R\<lparr>ps_flags := take (ps_total st) (ps_del st)\<rparr>)"
  have Rf: "ps_total R = ps_total st" "ps_del R = ps_del st" by (subst R(1), simp add: L)+
  have g1: "goes rebuild_lists (rest, ?L) () (rest, R)" for rest
    unfolding rebuild_lists_def
    by (rule goes_bind, rule goes_peek) (simp add: L u(1), simp add: goes_def change_def R_def L)
  have "reloadDeleteFlags io (ps_total st) R = Some (Inr (), R\<lparr>ps_flags := take (ps_total st) (ps_del st)\<rparr>)"
    using assms(5) by (simp add: reloadDeleteFlags_def bnd_def get_def ret_def modify_def Rf zero_fill_def)
  note g2 = goes_on_obj [of "reloadDeleteFlags io (ps_total st)", OF this]
  have g: "goes (finish_load io) (rest, ?L) () (rest, s')" for rest
    unfolding finish_load_def
    by (rule goes_bind [OF g1], rule goes_bind, rule goes_peek, unfold Rf(1), rule goes_bind [OF g2])
      (simp add: goes_def change_def s'_def)
  have f: "ps_shards s' = ps_shards R" by (simp add: s'_def resetPageCache_def)
  have sf: "s' = (resetPageCache (?L\<lparr>ps_flags := take (ps_total st) (ps_del st)\<rparr>))\<lparr>ps_shards := ps_shards R\<rparr>"
    unfolding s'_def by (subst R(1)) (simp add: resetPageCache_def)
  have sh: "shard_of s' i = shard_of R i" for i using f by (simp add: shard_of_def)
  have v: "vectors_per_page ?L = vectors_per_page s" by (simp add: vectors_per_page_def record_size_def L)
  show ?thesis
  proof (rule that [OF g, of ?used])
    show "same_tables (s\<lparr>ps_total := ps_total st\<rparr>) s'" "ps_file s' = ps_file st" "ps_flags s' = take (ps_total st) (ps_del st)"
      "ps_buf_count s' = ps_buf_count st" "ps_max_cached s' = ps_max_cached st" "ps_cached s' = 0" "ps_hand s' = 0"
      "ps_pageToSlot s' = map (\<lambda>_. - 1) (ps_pageToSlot st)"
      unfolding sf by (simp_all add: same_tables_def resetPageCache_def L)
    show "shards_ok s'" using R(2) f by (simp add: shards_ok_def)
    show "sh_bufs (shard_of s' i) = []" "sh_order (shard_of s' i) = []" for i
      using rb by (simp_all add: only_lists_def sh Ls(1))
    have "open_of ?L i = open_of s i" "free_of ?used ?L i = free_of ?used s i" for i
      by (simp_all add: open_of_def free_of_def fun_eq_iff L v)
    then show "list_at i (sh_open (shard_of s' i)) = concat (map (open_of s i) [0..<?n])"
      "list_at i (sh_free (shard_of s' i)) = concat (map (free_of ?used s i) [0..<?n])" for i
      using rebuild_pages_lists [OF Ls(2), of ?used "[0..<?n]" i, folded R_def] by (simp_all add: sh Ls(1) list_at_def)
    show "page_of n s \<ge> 0 \<Longrightarrow> ?used ! nat (page_of n s) ! slot_of n s" for n using u(2) by blast
  qed
qed


lemma expand_goes:
  assumes "0 < ps_total st" "ps_total st \<le> n" "double_to (ps_total st) n = n" "n \<le> length (ps_del st)"
  shows "\<exists>st'. (\<forall>rest. goes (if n > ps_total st then grow io n else got ()) (rest, st) () (rest, st'))
    \<and> ps_total st' = n \<and> ps_dim st' = ps_dim st \<and> ps_file st' = ps_file st \<and> ps_del st' = ps_del st \<and> ps_shards st' = ps_shards st"
proof (cases "ps_total st < n")
  case True
  let ?g = "st\<lparr>ps_idToPage := ps_idToPage st @ replicate (n - length (ps_idToPage st)) (- 1),
      ps_idToSlot := ps_idToSlot st @ replicate (n - length (ps_idToSlot st)) 0,
      ps_flags := ps_flags st @ replicate (n - length (ps_flags st)) 0, ps_total := n\<rparr>"
  have "expandCapacity io n st = Some (Inr (), ?g)"
    using True assms(1,3,4) by (simp add: expandCapacity_def bnd_def get_def ret_def modify_def Let_def)
  then have "goes (grow io n) (rest, st) () (rest, ?g)" for rest by (rule goes_on_obj)
  then show ?thesis using True by (intro exI [of _ ?g]) simp
next
  case False
  then have "ps_total st = n" using assms(2) by simp
  then show ?thesis using False by (intro exI [of _ st]) (simp add: goes_got)
qed

lemma distinct_frees: "distinct (concat (map (free_of used s i) [0..<n]))"
proof (induction n)
  case (Suc n)
  have "fst x = p" if "x \<in> set (free_of used s i p)" for x :: "nat \<times> nat" and p using that by (auto simp: free_of_def split: if_splits)
  then have "fst x < n" if "x \<in> set (concat (map (free_of used s i) [0..<n]))" for x using that by fastforce
  moreover have "fst x = n" if "x \<in> set (free_of used s i n)" for x using that by (auto simp: free_of_def split: if_splits)
  ultimately have "set (concat (map (free_of used s i) [0..<n])) \<inter> set (free_of used s i n) = {}" by force
  moreover have "distinct (free_of used s i n)" by (auto simp: free_of_def distinct_map inj_on_def)
  ultimately show ?case using Suc by simp
qed simp

text \<open>Nothing is pending in the write buffers, the delete file holds the flags, and slot 0 of every
  page belongs to an id.\<close>

definition at_rest :: "paged_store \<Rightarrow> bool" where
  "at_rest s \<longleftrightarrow> (\<forall>p. holding s p = None) \<and> ps_flags s = take (ps_total s) (ps_del s)
     \<and> (\<forall>p < length (ps_pages s). \<exists>n. page_of n s = int p \<and> slot_of n s = 0)"

lemma reopened_ok:
  assumes "paged_ok dims io s" "at_rest s" "same_tables s s'" "ps_file s' = ps_file s" "ps_flags s' = ps_flags s" "shards_ok s'"
    "ps_cached s' = 0" "ps_hand s' = 0" "ps_pageToSlot s' = map (\<lambda>_. - 1) xs"
    "\<And>i. sh_bufs (shard_of s' i) = []" "\<And>i. sh_order (shard_of s' i) = []"
    "\<And>i. list_at i (sh_open (shard_of s' i)) = concat (map (open_of s i) [0..<length (ps_pages s)])"
    "\<And>i. list_at i (sh_free (shard_of s' i)) = concat (map (free_of used s i) [0..<length (ps_pages s)])"
    "\<And>n. page_of n s \<ge> 0 \<Longrightarrow> used ! nat (page_of n s) ! slot_of n s"
  shows "paged_ok dims io s' \<and> paged_view F s' = paged_view F s \<and> paged_exists n s' = paged_exists n s"
proof -
  note I = assms(1) [unfolded paged_ok_def paged_inv_def]
  note T = same_tables_locs [OF assms(3)]
  have t: "ps_dim s' = ps_dim s" "ps_total s' = ps_total s" "ps_pages s' = ps_pages s"
    using assms(3) by (simp_all add: same_tables_def)
  have none: "holding s' p = None" for p
    using assms(10) by (simp add: holding_def buf_of_def split: option.splits)
  have P: "page_bytes s' p = page_bytes s p" for p
    using assms(2,4) none by (simp add: page_bytes_def at_rest_def)
  have "geometry s'" using I assms(3,5) by (simp add: geometry_def same_tables_def record_size_def)
  moreover have "locs_ok s'" using I T(4) by simp
  moreover have "pages_ok s'" using I by (simp add: pages_ok_def t assms(4) T(6))
  moreover have "bufs_ok s'"
  proof -
    have e: "sh_bufs (ps_shards s' ! i) = []" if "i < length (ps_shards s')" for i
      using assms(6) assms(10) [of i] that by (simp add: shard_of_def shards_ok_def)
    have "total_bufs s' = 0" unfolding total_bufs_def using e by (auto simp: sum_list_eq_0_iff in_set_conv_nth)
    then show ?thesis using assms(6,10,11) by (simp add: bufs_ok_def shard_fits_def)
  qed
  moreover have "lists_ok s'"
  proof -
    have o: "p < length (ps_pages s) \<and> pm_section (ps_pages s ! p) = int i" if "p \<in> set (list_at i (sh_open (shard_of s' i)))" for i p
      using that by (auto simp: assms(12) open_of_def split: if_splits)
    have f: "p < length (ps_pages s) \<and> pm_section (ps_pages s ! p) = int i \<and> l \<noteq> 0 \<and> l < pm_used (ps_pages s ! p)
        \<and> (\<forall>n. page_of n s \<ge> 0 \<longrightarrow> loc s n \<noteq> (p, l))" if x: "(p, l) \<in> set (list_at i (sh_free (shard_of s' i)))" for i p l
    proof -
      have y: "p < length (ps_pages s)" "pm_section (ps_pages s ! p) = int i" "l < pm_used (ps_pages s ! p)" "\<not> used ! p ! l"
        using x by (auto simp: assms(13) free_of_def split: if_splits)
      have n: "loc s n \<noteq> (p, l)" if "page_of n s \<ge> 0" for n using assms(14) [OF that] y(4) by (auto simp: loc_def)
      obtain m where "page_of m s = int p" "slot_of m s = 0" using assms(2) y(1) by (auto simp: at_rest_def)
      then have "l \<noteq> 0" using n [of m] by (auto simp: loc_def)
      then show ?thesis using y n by blast
    qed
    have d: "distinct (list_at i (sh_free (shard_of s' i)))" for i by (simp add: assms(13) distinct_frees)
    show ?thesis unfolding lists_ok_def T t using o f d by blast
  qed
  moreover have "page_cache_ok unpatched s'" using assms(7,8,9) by (simp add: page_cache_ok_def cacheSlotOf_def)
  ultimately have "paged_ok dims io s'" using I by (simp add: paged_ok_def paged_inv_def t)
  moreover have "paged_view F s' = paged_view F s"
    by (simp add: paged_view_def fun_eq_iff rec_at_def P T)
  moreover have "paged_exists n s' = paged_exists n s" by (simp add: paged_exists_def is_deleted_at_def T t assms(5))
  ultimately show ?thesis by blast
qed

lemma deserialize_goes:
  assumes "fits s" "ps_dim st = ps_dim s" "ps_dim st' = ps_dim s"
    and "\<forall>r. goes (if ps_total s > ps_total st then grow io (ps_total s) else got ()) (r, st) () (r, st')"
    and "goes (finish_load io) (rest, loaded s st') () (rest, s')"
  shows "goes (paged_deserialize io) (paged_serialize s @ rest, st) () (rest, s')"
proof -
  have v: "vectors_per_page st = vectors_per_page s" "vectors_per_page st' = vectors_per_page s"
    using assms(2,3) by (simp_all add: vectors_per_page_def record_size_def)
  have n: "ps_dim s < 2 ^ 64" "ps_total s < 2 ^ 64" "vectors_per_page s < 2 ^ 64"
  proof -
    show "ps_dim s < 2 ^ 64" "ps_total s < 2 ^ 64" using assms(1) by (simp_all add: fits_def)
    have "vectors_per_page s \<le> kPageSize" by (simp add: vectors_per_page_def)
    then show "vectors_per_page s < 2 ^ 64" by (simp add: kPageSize_def)
  qed
  show ?thesis
    unfolding paged_deserialize_def paged_serialize_def append_assoc
    by (rule goes_bind, rule reads, simp, rule goes_bind, rule reads, simp, rule goes_bind, rule reads, simp,
        rule goes_bind, rule reads, simp, rule goes_bind, rule reads, simp, rule goes_bind, rule reads, simp,
        rule goes_bind, rule reads, simp, rule goes_bind, rule reads, unfold prod.case, rule goes_bind, rule reads,
        use n v assms(2) in simp, unfold unat_u64 [OF n(2)], rule goes_bind, rule assms(4) [rule_format],
        rule load_tables_goes [OF assms(1) v(2) assms(5)])
qed

lemma paged_reopens:
  assumes "paged_ok dims io s" "fits s" "at_rest s"
    and "paged_open dims capacity cached buf_cap (ps_file s) (ps_del s) = Some st"
    and "0 < capacity" "capacity \<le> ps_total s" "double_to capacity (ps_total s) = ps_total s"
  obtains s' where "\<And>rest. goes (paged_deserialize io) (paged_serialize s @ rest, st) () (rest, s')"
    "paged_ok dims io s'" "paged_view F s' = paged_view F s" "\<And>n. paged_exists n s' = paged_exists n s"
proof -
  note I = assms(1) [unfolded paged_ok_def paged_inv_def]
  have len: "ps_total s \<le> length (ps_del s)"
  proof -
    have "length (ps_flags s) = ps_total s" using I by (simp add: geometry_def)
    moreover have "ps_flags s = take (ps_total s) (ps_del s)" using assms(3) by (simp add: at_rest_def)
    ultimately have "length (take (ps_total s) (ps_del s)) = ps_total s" by simp
    then show ?thesis by simp
  qed
  then have "ensureDeleteFileSize capacity (ps_del s) = ps_del s" using assms(6) by (simp add: ensureDeleteFileSize_def)
  then have st: "ps_dim st = dims" "ps_total st = capacity" "ps_file st = ps_file s" "ps_del st = ps_del s" "shards_ok st"
    using assms(4) by (auto simp: paged_open_def Let_def shards_ok_def split: if_splits)
  obtain st' where e: "\<forall>r. goes (if ps_total s > ps_total st then grow io (ps_total s) else got ()) (r, st) () (r, st')"
    "ps_total st' = ps_total s" "ps_dim st' = ps_dim s" "ps_file st' = ps_file s" "ps_del st' = ps_del s" "shards_ok st'"
    using expand_goes [of st "ps_total s" io] assms(1,5-7) len st(5) by (auto simp: st(1-4) paged_ok_def shards_ok_def)
  obtain s' used where F: "\<And>rest. goes (finish_load io) (rest, loaded s st') () (rest, s')"
    "same_tables (s\<lparr>ps_total := ps_total st'\<rparr>) s'" "ps_file s' = ps_file st'" "ps_flags s' = take (ps_total st') (ps_del st')" "shards_ok s'"
    "ps_buf_count s' = ps_buf_count st'" "ps_max_cached s' = ps_max_cached st'" "ps_cached s' = 0" "ps_hand s' = 0"
    "ps_pageToSlot s' = map (\<lambda>_. - 1) (ps_pageToSlot st')"
    "\<And>i. sh_bufs (shard_of s' i) = []" "\<And>i. sh_order (shard_of s' i) = []"
    "\<And>i. list_at i (sh_open (shard_of s' i)) = concat (map (open_of s i) [0..<length (ps_pages s)])"
    "\<And>i. list_at i (sh_free (shard_of s' i)) = concat (map (free_of used s i) [0..<length (ps_pages s)])"
    "\<And>n. page_of n s \<ge> 0 \<Longrightarrow> used ! nat (page_of n s) ! slot_of n s"
    using finish_load_goes [OF assms(2) _ e(3) e(6), of io] I e(2,5) len by metis
  have T: "same_tables s s'" using F(2) e(2) by (simp add: same_tables_def)
  have "paged_ok dims io s' \<and> paged_view F s' = paged_view F s \<and> paged_exists n s' = paged_exists n s" for n
    by (rule reopened_ok [OF assms(1,3) T _ _ F(5) F(8,9,10) F(11-15)])
      (use F(3,4) e(2,4,5) assms(3) in \<open>simp_all add: at_rest_def\<close>)
  moreover have "goes (paged_deserialize io) (paged_serialize s @ rest, st) () (rest, s')" for rest
    by (rule deserialize_goes [OF assms(2) _ _ e(1) F(1)]) (use e(3) st(1) assms(1) in \<open>simp_all add: paged_ok_def\<close>)
  ultimately show ?thesis using that by blast
qed

text \<open>A paged store that is written to a checkpoint at rest and opened again, with the same files and
  a capacity it grows from, is in order and has the same contents; the reader stops behind the block.\<close>

theorem paged_reopen:
  assumes "paged_ok dims io s" "fits s" "at_rest s"
    and "paged_open dims capacity cached buf_cap (ps_file s) (ps_del s) = Some st"
    and "0 < capacity" "capacity \<le> ps_total s" "double_to capacity (ps_total s) = ps_total s"
  shows "\<exists>s'. paged_deserialize io (paged_serialize s @ rest, st) = Some (Inr (Inr ()), (rest, s'))
    \<and> paged_ok dims io s' \<and> paged_view F s' = paged_view F s \<and> (\<forall>n. paged_exists n s' = paged_exists n s)"
  by (rule paged_reopens [OF assms, of F]) (auto simp: goes_def)

text \<open>The store of the examples with its page written out: one record, under id 0.\<close>

definition rested_paged :: paged_store where
  "rested_paged = buffered_paged\<lparr>ps_shards := replicate kNumSectionShards \<lparr>sh_open = [], sh_free = [], sh_bufs = [], sh_order = []\<rparr>, ps_buf_count := 0\<rparr>"

lemma rested_page_of: "page_of n rested_paged = (if n = 0 then 0 else - 1)" "slot_of n rested_paged = 0"
proof -
  have "page_of n rested_paged = page_of n buffered_paged" "slot_of n rested_paged = slot_of n buffered_paged"
    by (simp_all add: rested_paged_def page_of_def slot_of_def)
  then show "page_of n rested_paged = (if n = 0 then 0 else - 1)" "slot_of n rested_paged = 0" using buffered_page_of [of n] by simp_all
qed

lemma rested_paged_ok: "paged_ok 1 (\<lambda>_. None) rested_paged" "fits rested_paged" "at_rest rested_paged"
proof -
  let ?s = rested_paged
  have f: "ps_pages ?s = [\<lparr>pm_section = 0, pm_used = 1\<rparr>]" "ps_buf_count ?s = 0" "ps_pageToSlot ?s = []"
    "ps_cached ?s = 0" "ps_hand ?s = 0" "ps_dim ?s = 1" "ps_file ?s = replicate kPageSize 0" "length (ps_shards ?s) = kNumSectionShards"
    "ps_total ?s = 4" "ps_idToPage ?s = [0, - 1, - 1, - 1]" "ps_idToSlot ?s = [0, 0, 0, 0]" "ps_updates ?s = []"
    "ps_idxToKey ?s = []" "ps_max_cached ?s = 2" "ps_flags ?s = take 4 (ps_del ?s)" "length (ps_del ?s) = 4"
    by (simp_all add: rested_paged_def buffered_paged_def new_paged_def paged_open_def Let_def kPageSize_def ensureDeleteFileSize_def
      eval_nat_numeral)
  have sh: "shard_of ?s i = \<lparr>sh_open = [], sh_free = [], sh_bufs = [], sh_order = []\<rparr>" for i
    by (simp add: shard_of_def rested_paged_def kNumSectionShards_def)
  have none: "holding ?s p = None" for p by (simp add: holding_def buf_of_def sh)
  have r: "record_size ?s = 9" "vectors_per_page ?s = 455" by (simp_all add: record_size_def vectors_per_page_def f kPageSize_def)
  have "geometry ?s" by (simp add: geometry_def r kPageSize_def f)
  moreover have "locs_ok ?s" by (simp add: locs_ok_def rested_page_of f)
  moreover have "pages_ok ?s" by (simp add: pages_ok_def f r)
  moreover have "total_bufs ?s = 0" by (simp add: total_bufs_def rested_paged_def)
  then have "bufs_ok ?s" by (simp add: bufs_ok_def shards_ok_def f shard_fits_def sh)
  moreover have "lists_ok ?s" by (simp add: lists_ok_def sh list_at_def)
  moreover have "page_cache_ok unpatched ?s" by (simp add: page_cache_ok_def f cacheSlotOf_def)
  ultimately show "paged_ok 1 (\<lambda>_. None) ?s" using steady_none by (simp add: paged_ok_def paged_inv_def f)
  show "fits ?s" by (simp add: fits_def f r)
  show "at_rest ?s" using none by (auto simp: at_rest_def f rested_page_of)
qed

theorem paged_reopen_witness:
  "\<exists>st s'. paged_open 1 2 0 0 (ps_file rested_paged) (ps_del rested_paged) = Some st
    \<and> paged_deserialize (\<lambda>_. None) (paged_serialize rested_paged @ [7], st) = Some (Inr (Inr ()), ([7], s'))
    \<and> paged_view word_floats s' = paged_view word_floats rested_paged"
proof -
  have t: "ps_total rested_paged = 4"
    by (simp add: rested_paged_def buffered_paged_def new_paged_def paged_open_def Let_def kPageSize_def)
  have d: "double_to 2 4 = 4" by (simp add: double_to.simps)
  obtain st where "paged_open 1 2 0 0 (ps_file rested_paged) (ps_del rested_paged) = Some st"
    by (simp add: paged_open_def kPageSize_def Let_def)
  then show ?thesis using paged_reopen [OF rested_paged_ok, of 2 0 0 st "[7]" word_floats] t d by auto
qed

text \<open>C40: Opened again with a larger capacity than the checkpoint has, the store takes over the
  checkpoint's tables but keeps its own capacity: ids between the two are looked up behind the end of
  the location table.\<close>

theorem paged_reopen_larger:
  assumes "paged_ok dims io s" "fits s"
    and "paged_open dims capacity cached buf_cap (ps_file s) (ps_del s) = Some st" "ps_total s < capacity"
  shows "\<exists>s'. paged_deserialize io (paged_serialize s @ rest, st) = Some (Inr (Inr ()), (rest, s'))
    \<and> length (ps_idToPage s') = ps_total s \<and> length (ps_idToSlot s') = ps_total s \<and> ps_total s' = capacity"
proof -
  note I = assms(1) [unfolded paged_ok_def paged_inv_def]
  have st: "ps_dim st = ps_dim s" "ps_total st = capacity" "shards_ok st" "capacity \<le> length (ps_del st)"
    using assms(1,3) by (auto simp: paged_open_def Let_def shards_ok_def ensureDeleteFileSize_def paged_ok_def split: if_splits)
  have L: "locs_ok s" using I by blast
  have d: "ps_total st \<le> length (ps_del st)" using st by simp
  obtain s' where F: "goes (finish_load io) (rest, loaded s st) () (rest, s')" "same_tables (s\<lparr>ps_total := ps_total st\<rparr>) s'"
    using finish_load_goes [OF assms(2) L st(1,3) d, of io] by metis
  have "goes (paged_deserialize io) (paged_serialize s @ rest, st) () (rest, s')"
    by (rule deserialize_goes [OF assms(2) st(1) st(1) _ F(1)]) (use assms(4) st(2) in \<open>simp add: goes_got\<close>)
  then show ?thesis using F(2) assms(2) st(2) by (auto simp: goes_def same_tables_def fits_def)
qed

theorem paged_reopen_larger_witness:
  "\<exists>st s'. paged_open 1 8 0 0 (ps_file rested_paged) (ps_del rested_paged) = Some st
    \<and> paged_deserialize (\<lambda>_. None) (paged_serialize rested_paged, st) = Some (Inr (Inr ()), ([], s'))
    \<and> length (ps_idToPage s') = 4 \<and> ps_total s' = 8"
proof -
  have t: "ps_total rested_paged = 4"
    by (simp add: rested_paged_def buffered_paged_def new_paged_def paged_open_def Let_def kPageSize_def)
  obtain st where "paged_open 1 8 0 0 (ps_file rested_paged) (ps_del rested_paged) = Some st"
    by (simp add: paged_open_def kPageSize_def Let_def)
  then show ?thesis using paged_reopen_larger [OF rested_paged_ok(1,2), of 8 0 0 st "[]"] t by auto
qed

end
