(* ===== verification/Beam.thy ===== *)
theory Beam
  imports Ids Complex_Main "HOL-Library.Product_Lexorder"
begin

text \<open>
  The two traversals of the index without the machinery around them: the beam search of one layer
  (\<open>searchLayer\<close>) and the greedy descent of an upper layer (\<open>greedySearchUpperLayer\<close>), over a
  neighbour function and a distance. \<open>std::priority_queue\<close> is a descending list, its top the head.
  \<open>beam_result\<close> is the specification of a layer search: the answer is sorted, closed under
  improvement, and complete when the beam is wide enough.
\<close>

type_synonym cand = "rat \<times> node_id"

fun pq_push :: "cand \<Rightarrow> cand list \<Rightarrow> cand list" where
  "pq_push x [] = [x]"
| "pq_push x (y # ys) = (if y < x then x # y # ys else y # pq_push x ys)"

text \<open>What both loops do with a neighbour at distance \<open>d\<close>; \<open>near\<close> is the queue of the best so far.\<close>

definition offer :: "nat \<Rightarrow> rat \<Rightarrow> node_id \<Rightarrow> cand list \<times> cand list \<Rightarrow> cand list \<times> cand list" where
  "offer ef d n cw =
     (case cw of (cands, near) \<Rightarrow>
        if length near < ef \<or> d < fst (hd near)
        then (pq_push (- d, n) cands,
              let near' = pq_push (d, n) near in if length near' > ef then tl near' else near')
        else (cands, near))"

type_synonym beam_state = "cand list \<times> cand list \<times> node_id set"

text \<open>The neighbours not visited before, each once.\<close>

fun fresh :: "node_id set \<Rightarrow> node_id list \<Rightarrow> node_id list" where
  "fresh V [] = []"
| "fresh V (n # ns) = (if n \<in> V then fresh V ns else n # fresh (insert n V) ns)"

definition relax :: "(node_id \<Rightarrow> rat) \<Rightarrow> nat \<Rightarrow> node_id list \<Rightarrow> beam_state \<Rightarrow> beam_state" where
  "relax d ef ns st =
     (case st of (c, w, V) \<Rightarrow>
        case fold (\<lambda>n. offer ef (d n) n) (fresh V ns) (c, w) of (c', w') \<Rightarrow> (c', w', V \<union> set ns))"

lemma set_fresh: "set (fresh V ns) = set ns - V"
  by (induction V ns rule: fresh.induct) auto

lemma distinct_fresh: "distinct (fresh V ns)"
  by (induction V ns rule: fresh.induct) (auto simp: set_fresh)

lemma fresh_empty_iff: "fresh V ns = [] \<longleftrightarrow> set ns \<subseteq> V"
  using set_fresh [of V ns] by (metis Diff_eq_empty_iff set_empty)

function beam :: "(node_id \<Rightarrow> node_id list) \<Rightarrow> (node_id \<Rightarrow> rat) \<Rightarrow> nat \<Rightarrow> beam_state \<Rightarrow> beam_state" where
  "beam nb d ef ([], w, V) = ([], w, V)"
| "beam nb d ef ((k, n) # c, w, V) =
     (if w \<noteq> [] \<and> - k > fst (hd w) then (c, w, V) else beam nb d ef (relax d ef (nb n) (c, w, V)))"
  by pat_completeness auto
termination
proof (relation "measures [\<lambda>(_, _, _, (_, _, V)). card (- V), \<lambda>(_, _, _, (c, _, _)). length c]", goal_cases)
  case (2 nb d ef k n c w V)
  show ?case
  proof (cases "set (nb n) \<subseteq> V")
    case True
    then have "fresh V (nb n) = []" by (simp add: fresh_empty_iff)
    with True show ?thesis by (simp add: relax_def Un_absorb2)
  next
    case False
    then have "- (V \<union> set (nb n)) \<subset> - V" by auto
    then have "card (- (V \<union> set (nb n))) < card (- V)" by (intro psubset_card_mono) simp_all
    then show ?thesis by (simp add: relax_def split: prod.split)
  qed
qed simp

text \<open>A search from an entry point, and its answer in ascending order.\<close>

definition beam_from :: "(node_id \<Rightarrow> node_id list) \<Rightarrow> (node_id \<Rightarrow> rat) \<Rightarrow> nat \<Rightarrow> node_id \<Rightarrow> beam_state" where
  "beam_from nb d ef e = beam nb d ef ([(- d e, e)], [(d e, e)], {e})"

definition answer :: "cand list \<Rightarrow> (node_id \<times> rat) list" where
  "answer w = map (\<lambda>(d, n). (n, d)) (sort_key fst w)"

text \<open>Specification.\<close>

definition edges :: "(node_id \<Rightarrow> node_id list) \<Rightarrow> (node_id \<times> node_id) set" where
  "edges nb = {(n, m). m \<in> set (nb n)}"

definition reach :: "(node_id \<Rightarrow> node_id list) \<Rightarrow> node_id \<Rightarrow> node_id set" where
  "reach nb e = (edges nb)\<^sup>* `` {e}"

definition beam_result ::
  "(node_id \<Rightarrow> node_id list) \<Rightarrow> (node_id \<Rightarrow> rat) \<Rightarrow> nat \<Rightarrow> node_id \<Rightarrow> (node_id \<times> rat) list \<Rightarrow> bool" where
  "beam_result nb d ef e R \<longleftrightarrow>
     sorted (map snd R) \<and> distinct (map fst R) \<and> R \<noteq> [] \<and> length R \<le> ef
   \<and> (\<forall>(n, x) \<in> set R. x = d n \<and> n \<in> reach nb e)
   \<and> (\<forall>m. m = e \<or> (\<exists>n \<in> fst ` set R. m \<in> set (nb n)) \<longrightarrow>
        m \<in> fst ` set R \<or> (length R = ef \<and> (\<forall>x \<in> snd ` set R. x \<le> d m)))"

subsection \<open>Queues\<close>

definition desc :: "cand list \<Rightarrow> bool" where
  "desc q \<longleftrightarrow> sorted_wrt (\<lambda>x y. y \<le> x) q"

lemma set_pq_push [simp]: "set (pq_push x q) = insert x (set q)"
  by (induction q) auto

lemma length_pq_push [simp]: "length (pq_push x q) = Suc (length q)"
  by (induction q) auto

lemma pq_push_nonempty [simp]: "pq_push x q \<noteq> []"
  by (cases q) auto

lemma desc_pq_push: "desc q \<Longrightarrow> desc (pq_push x q)"
  unfolding desc_def by (induction q) (auto, meson less_imp_le order.trans)

lemma distinct_pq_push: "distinct (map snd (pq_push x q)) \<longleftrightarrow> distinct (map snd q) \<and> snd x \<notin> snd ` set q"
  by (induction q) auto

lemma desc_hd: "desc q \<Longrightarrow> x \<in> set q \<Longrightarrow> x \<le> hd q"
  unfolding desc_def by (cases q) auto

lemma desc_hd_fst: "desc q \<Longrightarrow> x \<in> set q \<Longrightarrow> fst x \<le> fst (hd q)"
  using desc_hd [of q x] by (auto simp: less_eq_prod_def)

lemma desc_tl: "desc q \<Longrightarrow> desc (tl q)"
  unfolding desc_def by (cases q) auto

text \<open>Keeping the \<open>k\<close> smallest: what the searches do with their queue of results.\<close>

definition keep :: "nat \<Rightarrow> cand \<Rightarrow> cand list \<Rightarrow> cand list" where
  "keep k x r =
     (if length r < k \<or> fst x < fst (hd r)
      then let r' = pq_push x r in if length r' > k then tl r' else r'
      else r)"

lemma keep_ok:
  assumes r: "desc r" "distinct (map snd r)" "length r \<le> k" and k: "0 < k" and x: "snd x \<notin> snd ` set r"
  shows "desc (keep k x r) \<and> distinct (map snd (keep k x r)) \<and> keep k x r \<noteq> [] \<and> length (keep k x r) \<le> k
    \<and> set (keep k x r) \<subseteq> insert x (set r)
    \<and> (\<forall>y \<in> insert x (set r). y \<in> set (keep k x r)
         \<or> (length (keep k x r) = k \<and> (\<forall>z \<in> set (keep k x r). fst z \<le> fst y)))
    \<and> (\<forall>t. length r = k \<longrightarrow> (\<forall>z \<in> set r. fst z \<le> t)
         \<longrightarrow> length (keep k x r) = k \<and> (\<forall>z \<in> set (keep k x r). fst z \<le> t))"
proof (cases "length r < k \<or> fst x < fst (hd r)")
  case False
  then have e: "keep k x r = r" "length r = k" "fst (hd r) \<le> fst x" using r(3) by (auto simp: keep_def)
  have "fst z \<le> fst x" if "z \<in> set r" for z using desc_hd_fst [OF r(1) that] e(3) by linarith
  then show ?thesis using r k e(2) unfolding e(1) by auto
next
  case True
  let ?w = "pq_push x r"
  have w: "desc ?w" "distinct (map snd ?w)" using r x by (auto simp: desc_pq_push distinct_pq_push)
  show ?thesis
  proof (cases "length r < k")
    case True
    then have "keep k x r = ?w" by (simp add: keep_def)
    then show ?thesis using w True by simp
  next
    case False
    then have len: "length r = k" and lt: "fst x < fst (hd r)" using r(3) True by auto
    then have e: "keep k x r = tl ?w" by (simp add: keep_def)
    obtain y ys where y: "?w = y # ys" by (cases ?w) auto
    have all: "insert x (set r) = insert y (set ys)" using y by (metis list.set(2) set_pq_push)
    have le: "\<forall>z \<in> set ys. fst z \<le> fst y" using desc_hd_fst [OF w(1)] by (auto simp: y)
    have n: "length ys = k" using len y by (metis length_pq_push length_Cons nat.inject)
    have "desc ys" "distinct (map snd ys)" "ys \<noteq> []" using w desc_tl [OF w(1)] n k by (auto simp: y)
    moreover have "fst z \<le> t" if "z \<in> set ys" "\<forall>z \<in> set r. fst z \<le> t" for z t
    proof -
      have "hd r \<in> set r" using len k by (cases r) auto
      then have "fst x \<le> t" using lt that(2) by force
      moreover have "z \<in> insert x (set r)" using all that(1) by blast
      ultimately show ?thesis using that(2) by auto
    qed
    ultimately show ?thesis using n le all unfolding e y list.sel by auto
  qed
qed

lemma keep_mem:
  assumes "desc r" "length r < k \<or> fst x < fst (hd r)" "length r \<le> k" "0 < k"
  shows "x \<in> set (keep k x r)"
proof (cases "length r < k")
  case False
  then obtain y ys where r: "r = y # ys" using assms(3,4) by (cases r) auto
  then have "fst x < fst y" using False assms(2) by simp
  then have "x < y" "\<not> y < x" by (auto simp: less_prod_def)
  then show ?thesis using assms(2) by (simp add: keep_def r Let_def)
qed (simp add: keep_def)

text \<open>\<open>P\<close> is the set of ids whose neighbours have all been visited.\<close>

definition beam_inv ::
  "(node_id \<Rightarrow> rat) \<Rightarrow> nat \<Rightarrow> node_id set \<Rightarrow> beam_state \<Rightarrow> bool" where
  "beam_inv d ef P st =
     (case st of (c, w, V) \<Rightarrow>
        desc c \<and> desc w \<and> distinct (map snd w) \<and> w \<noteq> [] \<and> length w \<le> ef
      \<and> (\<forall>(x, n) \<in> set w. x = d n \<and> n \<in> V)
      \<and> (\<forall>(k, n) \<in> set c. k = - d n \<and> n \<in> V)
      \<and> (\<forall>v \<in> V. v \<in> snd ` set w \<or> (length w = ef \<and> (\<forall>x \<in> fst ` set w. x \<le> d v)))
      \<and> (\<forall>n \<in> snd ` set w. n \<in> snd ` set c \<or> n \<in> P))"

lemma offer_inv:
  assumes inv: "beam_inv d ef P (c, w, V)" and n: "n \<notin> V" and o: "offer ef (d n) n (c, w) = (c', w')"
    and ef: "0 < ef"
  shows "beam_inv d ef P (c', w', insert n V)"
proof -
  from inv have I: "desc c" "desc w" "distinct (map snd w)" "length w \<le> ef"
    "\<forall>(x, n) \<in> set w. x = d n \<and> n \<in> V" "\<forall>(k, n) \<in> set c. k = - d n \<and> n \<in> V"
    "\<forall>v \<in> V. v \<in> snd ` set w \<or> (length w = ef \<and> (\<forall>x \<in> fst ` set w. x \<le> d v))"
    "\<forall>n \<in> snd ` set w. n \<in> snd ` set c \<or> n \<in> P"
    by (simp_all add: beam_inv_def)
  have nw: "snd (d n, n) \<notin> snd ` set w" using I(5) n by auto
  let ?cond = "length w < ef \<or> d n < fst (hd w)"
  have w': "w' = keep ef (d n, n) w" and c': "c' = (if ?cond then pq_push (- d n, n) c else c)"
    using o by (auto simp: offer_def keep_def split: if_splits)
  have K: "desc w'" "distinct (map snd w')" "w' \<noteq> []" "length w' \<le> ef" "set w' \<subseteq> insert (d n, n) (set w)"
    "\<forall>y \<in> insert (d n, n) (set w). y \<in> set w' \<or> (length w' = ef \<and> (\<forall>z \<in> set w'. fst z \<le> fst y))"
    "\<forall>t. length w = ef \<longrightarrow> (\<forall>z \<in> set w. fst z \<le> t) \<longrightarrow> length w' = ef \<and> (\<forall>z \<in> set w'. fst z \<le> t)"
    using keep_ok [OF I(2-4) ef nw, folded w'] by simp_all
  have dc: "desc c'" using I(1) by (simp add: c' desc_pq_push)
  have cands: "\<forall>(k, m) \<in> set c'. k = - d m \<and> m \<in> insert n V" using I(6) by (auto simp: c' split: if_splits)
  have near: "\<forall>(x, m) \<in> set w'. x = d m \<and> m \<in> insert n V" using K(5) I(5) by auto
  have best: "v \<in> snd ` set w' \<or> (length w' = ef \<and> (\<forall>x \<in> fst ` set w'. x \<le> d v))" if "v \<in> insert n V" for v
  proof (cases "v = n \<or> v \<in> snd ` set w")
    case True
    then have "(d v, v) \<in> insert (d n, n) (set w)" using I(5) by auto
    from bspec [OF K(6) this] show ?thesis by (auto intro: rev_image_eqI)
  next
    case False
    with that I(7) have "length w = ef \<and> (\<forall>z \<in> set w. fst z \<le> d v)" by auto
    with K(7) show ?thesis by auto
  qed
  have exp: "m \<in> snd ` set c' \<or> m \<in> P" if m: "m \<in> snd ` set w'" for m
  proof (cases ?cond)
    case True
    then show ?thesis using m K(5) I(8) by (auto simp: c')
  next
    case False
    then have "w' = w" by (simp add: w' keep_def)
    then show ?thesis using m I(8) False by (auto simp: c')
  qed
  show ?thesis using dc K(1-4) cands near best exp unfolding beam_inv_def by simp
qed

lemma offers_inv:
  "beam_inv d ef P (c, w, V) \<Longrightarrow> distinct ns \<Longrightarrow> set ns \<inter> V = {} \<Longrightarrow> 0 < ef \<Longrightarrow>
    fold (\<lambda>n. offer ef (d n) n) ns (c, w) = (c', w') \<Longrightarrow> beam_inv d ef P (c', w', V \<union> set ns)"
proof (induction ns arbitrary: c w V)
  case (Cons n ns)
  obtain c1 w1 where o: "offer ef (d n) n (c, w) = (c1, w1)" by (cases "offer ef (d n) n (c, w)")
  have "beam_inv d ef P (c1, w1, insert n V)"
    by (rule offer_inv [OF Cons.prems(1) _ o Cons.prems(4)]) (use Cons.prems in auto)
  from Cons.IH [OF this] Cons.prems o show ?case by auto
qed simp

lemma relax_inv:
  assumes "beam_inv d ef P (c, w, V)" "0 < ef"
  shows "beam_inv d ef P (relax d ef ns (c, w, V))"
proof -
  obtain c' w' where f: "fold (\<lambda>n. offer ef (d n) n) (fresh V ns) (c, w) = (c', w')"
    by (cases "fold (\<lambda>n. offer ef (d n) n) (fresh V ns) (c, w)")
  have "beam_inv d ef P (c', w', V \<union> set (fresh V ns))"
    by (rule offers_inv [OF assms(1) distinct_fresh _ assms(2) f]) (auto simp: set_fresh)
  moreover have "V \<union> set (fresh V ns) = V \<union> set ns" by (auto simp: set_fresh)
  ultimately show ?thesis by (simp add: relax_def f)
qed

subsection \<open>The search meets its specification\<close>

lemma reach_refl: "e \<in> reach nb e"
  by (simp add: reach_def)

lemma reach_step: "n \<in> reach nb e \<Longrightarrow> m \<in> set (nb n) \<Longrightarrow> m \<in> reach nb e"
  unfolding reach_def edges_def by (auto intro: rtrancl_into_rtrancl)

lemma reach_least:
  assumes "e \<in> S" "\<And>n m. n \<in> S \<Longrightarrow> m \<in> set (nb n) \<Longrightarrow> m \<in> S"
  shows "reach nb e \<subseteq> S"
proof
  fix n assume "n \<in> reach nb e"
  then have "(e, n) \<in> (edges nb)\<^sup>*" by (simp add: reach_def)
  then show "n \<in> S" by induction (auto simp: edges_def assms)
qed

definition expanded :: "(node_id \<Rightarrow> node_id list) \<Rightarrow> node_id set \<Rightarrow> node_id set" where
  "expanded nb V = {n. set (nb n) \<subseteq> V}"

lemma beam_inv_mono: "beam_inv d ef P st \<Longrightarrow> P \<subseteq> P' \<Longrightarrow> beam_inv d ef P' st"
  by (auto simp: beam_inv_def)

lemma beam_inv_pop:
  "beam_inv d ef P ((k, n) # c, w, V) \<Longrightarrow> beam_inv d ef (insert n P) (c, w, V)"
  by (auto simp: beam_inv_def desc_def)

text \<open>When the loop stops, every id in \<open>near\<close> has been expanded.\<close>

lemma beam_stops:
  assumes "0 < ef" "beam_inv d ef (expanded nb V) (c, w, V)" "beam nb d ef (c, w, V) = (c', w', V')"
  shows "beam_inv d ef (expanded nb V') (c', w', V') \<and> (\<forall>n \<in> snd ` set w'. set (nb n) \<subseteq> V')
    \<and> V \<subseteq> V' \<and> (\<forall>S. V \<subseteq> S \<longrightarrow> (\<forall>n \<in> S. set (nb n) \<subseteq> S) \<longrightarrow> V' \<subseteq> S)"
  using assms
proof (induction nb d ef "(c, w, V)" arbitrary: c w V rule: beam.induct)
  case (1 nb d ef w V)
  then have "c' = []" "w' = w" "V' = V" by simp_all
  with 1(2) show ?case by (auto simp: beam_inv_def expanded_def)
next
  case (2 nb d ef k n c w V)
  note inv = 2(3)
  have k: "k = - d n" "n \<in> V" using inv by (auto simp: beam_inv_def)
  show ?case
  proof (cases "w \<noteq> [] \<and> - k > fst (hd w)")
    case True
    then have eq: "c' = c" "w' = w" "V' = V" using 2(4) by simp_all
    have w: "desc w" "\<forall>(x, m) \<in> set w. x = d m \<and> m \<in> V"
      and c: "desc ((k, n) # c)" "\<forall>(k', m) \<in> set c. k' = - d m"
      and p: "\<forall>m \<in> snd ` set w. m \<in> snd ` set ((k, n) # c) \<or> m \<in> expanded nb V"
      using inv by (auto simp: beam_inv_def)
    have "m \<in> expanded nb V" if "m \<in> snd ` set w" for m
    proof (rule ccontr)
      assume "m \<notin> expanded nb V"
      with p that have "m \<in> snd ` set ((k, n) # c)" by blast
      then obtain x where x: "m = snd x" "x \<in> set ((k, n) # c)" by (rule imageE)
      define k' where "k' = fst x"
      have k': "(k', m) \<in> set ((k, n) # c)" using x(2) unfolding k'_def x(1) prod.collapse .
      then have "k' = - d m" using c(2) k(1) by auto
      moreover have "k' \<le> k" using desc_hd_fst [OF c(1) k'] by simp
      moreover have "d m \<le> fst (hd w)"
      proof -
        from that obtain x where x: "(x, m) \<in> set w" by auto
        then show ?thesis using w(2) desc_hd_fst [OF w(1) x] by auto
      qed
      ultimately show False using True k(1) by linarith
    qed
    then have "\<forall>m \<in> snd ` set w. set (nb m) \<subseteq> V" by (auto simp: expanded_def)
    moreover have "beam_inv d ef (expanded nb V) (c, w, V)"
      using inv \<open>\<And>m. m \<in> snd ` set w \<Longrightarrow> m \<in> expanded nb V\<close> by (auto simp: beam_inv_def desc_def)
    ultimately show ?thesis unfolding eq by auto
  next
    case False
    obtain c1 w1 V1 where r: "relax d ef (nb n) (c, w, V) = (c1, w1, V1)"
      by (cases "relax d ef (nb n) (c, w, V)")
    have V1: "V1 = V \<union> set (nb n)" using r by (auto simp: relax_def split: prod.splits)
    have "beam_inv d ef (insert n (expanded nb V)) (c1, w1, V1)"
      using relax_inv [OF beam_inv_pop [OF inv] 2(2), of "nb n"] by (simp add: r)
    then have "beam_inv d ef (expanded nb V1) (c1, w1, V1)"
      by (rule beam_inv_mono) (auto simp: expanded_def V1)
    moreover have "beam nb d ef (c1, w1, V1) = (c', w', V')" using 2(4) False by (simp add: r)
    ultimately have IH: "beam_inv d ef (expanded nb V') (c', w', V') \<and> (\<forall>n \<in> snd ` set w'. set (nb n) \<subseteq> V')
      \<and> V1 \<subseteq> V' \<and> (\<forall>S. V1 \<subseteq> S \<longrightarrow> (\<forall>n \<in> S. set (nb n) \<subseteq> S) \<longrightarrow> V' \<subseteq> S)"
      using 2(1) [OF False r 2(2)] by blast
    have sub: "V1 \<subseteq> S" if "V \<subseteq> S" "\<forall>n \<in> S. set (nb n) \<subseteq> S" for S
      using that k(2) by (auto simp: V1)
    from IH have "V1 \<subseteq> V'" and S: "\<forall>S. V1 \<subseteq> S \<longrightarrow> (\<forall>n \<in> S. set (nb n) \<subseteq> S) \<longrightarrow> V' \<subseteq> S" by simp_all
    then have "V \<subseteq> V'" by (auto simp: V1)
    moreover have "V' \<subseteq> S" if "V \<subseteq> S" "\<forall>n \<in> S. set (nb n) \<subseteq> S" for S
      using S [rule_format, OF sub [OF that]] that(2) by simp
    ultimately show ?thesis using IH by simp
  qed
qed

lemma beam_from_inv: "0 < ef \<Longrightarrow> beam_inv d ef P ([(- d e, e)], [(d e, e)], {e})"
  by (simp add: beam_inv_def desc_def)

lemma answer_set: "set (answer w) = (\<lambda>(d, n). (n, d)) ` set w"
  by (simp add: answer_def)

lemma answer_props:
  "sorted (map snd (answer w))" "length (answer w) = length w"
  "fst ` set (answer w) = snd ` set w" "snd ` set (answer w) = fst ` set w"
  "distinct (map fst (answer w)) \<longleftrightarrow> distinct (map snd w)"
proof -
  have e: "map snd (answer w) = map fst (sort_key fst w)" "map fst (answer w) = map snd (sort_key fst w)"
    by (auto simp: answer_def)
  show "sorted (map snd (answer w))" by (simp add: e)
  show "length (answer w) = length w" by (simp add: answer_def)
  show "fst ` set (answer w) = snd ` set w" "snd ` set (answer w) = fst ` set w"
    by (force simp: answer_set)+
  show "distinct (map fst (answer w)) \<longleftrightarrow> distinct (map snd w)"
    unfolding e by (metis card_distinct distinct_card length_map length_sort list.set_map set_sort)
qed

theorem beam_from_result:
  assumes "0 < ef" "beam_from nb d ef e = (c, w, V)"
  shows "beam_result nb d ef e (answer w)"
proof -
  from beam_stops [OF assms(1) beam_from_inv [OF assms(1)] assms(2) [unfolded beam_from_def]]
  have B: "beam_inv d ef (expanded nb V) (c, w, V)" "\<forall>n \<in> snd ` set w. set (nb n) \<subseteq> V" "e \<in> V"
    and sub: "\<forall>S. {e} \<subseteq> S \<longrightarrow> (\<forall>n \<in> S. set (nb n) \<subseteq> S) \<longrightarrow> V \<subseteq> S" by auto
  have "V \<subseteq> reach nb e"
    using sub [rule_format, of "reach nb e"] reach_step reach_refl by blast
  moreover have I: "desc w" "distinct (map snd w)" "w \<noteq> []" "length w \<le> ef"
    "\<forall>(x, n) \<in> set w. x = d n \<and> n \<in> V"
    "\<forall>v \<in> V. v \<in> snd ` set w \<or> (length w = ef \<and> (\<forall>x \<in> fst ` set w. x \<le> d v))"
    using B(1) by (simp_all add: beam_inv_def)
  moreover have "answer w \<noteq> []" using I(3) answer_props(2) [of w] by auto
  moreover have "m \<in> V" if "m = e \<or> (\<exists>n \<in> snd ` set w. m \<in> set (nb n))" for m
    using that B(2,3) by blast
  ultimately show ?thesis
    unfolding beam_result_def answer_props(2-5) using answer_props(1)
    by (intro conjI) (auto simp: answer_set)
qed

text \<open>A beam at least as wide as the reachable part finds all of it.\<close>

lemma beam_result_exact:
  assumes "beam_result nb d ef e R" "card (reach nb e) \<le> ef"
  shows "fst ` set R = reach nb e"
proof -
  have R: "distinct (map fst R)" "fst ` set R \<subseteq> reach nb e"
    using assms(1) by (auto simp: beam_result_def)
  have len: "card (fst ` set R) = length R" using distinct_card [OF R(1)] by simp
  have fin: "finite (reach nb e)" by simp
  show ?thesis
  proof (cases "length R = ef")
    case True
    then have "card (reach nb e) \<le> card (fst ` set R)" using assms(2) len by simp
    then show ?thesis using card_seteq [OF fin R(2)] by blast
  next
    case False
    then have "m \<in> fst ` set R" if "m = e \<or> (\<exists>n \<in> fst ` set R. m \<in> set (nb n))" for m
      using assms(1) that unfolding beam_result_def by blast
    then have "reach nb e \<subseteq> fst ` set R" by (intro reach_least) blast+
    with R(2) show ?thesis by blast
  qed
qed

subsection \<open>Greedy descent\<close>

text \<open>One pass over the neighbours of the current node; \<open>d\<close> is undefined for a node without a
  vector, which the loop skips.\<close>

fun greedy_pass :: "(node_id \<Rightarrow> rat option) \<Rightarrow> node_id list \<Rightarrow> node_id \<times> rat \<times> bool \<Rightarrow> node_id \<times> rat \<times> bool" where
  "greedy_pass d [] acc = acc"
| "greedy_pass d (n # ns) (cur, best, imp) =
     (case d n of
        None \<Rightarrow> greedy_pass d ns (cur, best, imp)
      | Some x \<Rightarrow> if x < best then greedy_pass d ns (n, x, True) else greedy_pass d ns (cur, best, imp))"

lemma greedy_pass_props:
  "greedy_pass d ns (cur, best, imp) = (cur', best', imp') \<Longrightarrow>
     best' \<le> best \<and> (\<forall>n \<in> set ns. \<forall>x. d n = Some x \<longrightarrow> best' \<le> x)
   \<and> (cur' = cur \<and> best' = best \<and> imp' = imp \<or> imp' \<and> cur' \<in> set ns \<and> d cur' = Some best' \<and> best' < best)"
proof (induction ns arbitrary: cur best imp)
  case (Cons n ns)
  show ?case
  proof (cases "\<exists>x. d n = Some x \<and> x < best")
    case True
    then obtain x where x: "d n = Some x" "x < best" by blast
    with Cons.prems have "greedy_pass d ns (n, x, True) = (cur', best', imp')" by simp
    from Cons.IH [OF this] x show ?thesis by auto
  next
    case False
    with Cons.prems have "greedy_pass d ns (cur, best, imp) = (cur', best', imp')"
      by (auto split: option.splits)
    from Cons.IH [OF this] False show ?thesis by (auto simp: not_less intro: order.trans)
  qed
qed simp

function greedy :: "(node_id \<Rightarrow> node_id list) \<Rightarrow> (node_id \<Rightarrow> rat option) \<Rightarrow> node_id \<Rightarrow> rat \<Rightarrow> node_id" where
  "greedy nb d cur best =
     (case greedy_pass d (nb cur) (cur, best, False) of
        (cur', best', imp) \<Rightarrow> if imp then greedy nb d cur' best' else cur')"
  by pat_completeness auto
termination
proof (relation "measure (\<lambda>(nb, d, cur, best). card {n. \<exists>x. d n = Some x \<and> x < best})", goal_cases)
  case (2 nb d cur best cur' y best' imp)
  then have p: "greedy_pass d (nb cur) (cur, best, False) = (cur', best', True)" by simp
  from greedy_pass_props [OF p] have "d cur' = Some best'" "best' < best" by auto
  then have "cur' \<in> {n. \<exists>x. d n = Some x \<and> x < best} - {n. \<exists>x. d n = Some x \<and> x < best'}"
    "{n. \<exists>x. d n = Some x \<and> x < best'} \<subseteq> {n. \<exists>x. d n = Some x \<and> x < best}" by auto
  then have "{n. \<exists>x. d n = Some x \<and> x < best'} \<subset> {n. \<exists>x. d n = Some x \<and> x < best}" by blast
  then show ?case by (auto intro!: psubset_card_mono)
qed simp

declare greedy.simps [simp del]

lemma greedy_local_minimum:
  "d cur = Some best \<Longrightarrow> \<exists>x. d (greedy nb d cur best) = Some x \<and> x \<le> best
     \<and> (\<forall>m \<in> set (nb (greedy nb d cur best)). \<forall>y. d m = Some y \<longrightarrow> x \<le> y)
     \<and> greedy nb d cur best \<in> reach nb cur"
proof (induction nb d cur best rule: greedy.induct)
  case (1 nb d cur best)
  obtain cur' best' imp where p: "greedy_pass d (nb cur) (cur, best, False) = (cur', best', imp)"
    by (metis prod_cases3)
  note P = greedy_pass_props [OF p]
  show ?case
  proof (cases imp)
    case False
    then have "greedy nb d cur best = cur" "best' = best" using p P by (simp_all add: greedy.simps)
    with P 1(2) show ?thesis by (auto simp: reach_refl)
  next
    case True
    then have g: "greedy nb d cur best = greedy nb d cur' best'" using p by (simp add: greedy.simps)
    have c: "cur' \<in> set (nb cur)" "d cur' = Some best'" "best' < best" using P True by auto
    have r: "reach nb cur' \<subseteq> reach nb cur"
      by (rule reach_least) (auto intro: reach_step reach_refl c(1))
    from 1(1) [OF p [symmetric] refl True c(2)] r c(3) show ?thesis unfolding g by force
  qed
qed

subsection \<open>Filtered search\<close>

text \<open>The filtered search routes through every node but keeps only matches, at most \<open>k\<close>; it stops
  after \<open>cap\<close> scanned neighbours. The last component says that the cap stopped it.\<close>

definition filter_offer ::
  "nat \<Rightarrow> rat \<Rightarrow> bool \<Rightarrow> node_id \<Rightarrow> cand list \<times> cand list \<Rightarrow> cand list \<times> cand list" where
  "filter_offer k d matched n cr =
     (case cr of (cands, results) \<Rightarrow>
        (if length results < k \<or> d < fst (hd results) then pq_push (- d, n) cands else cands,
         if matched then keep k (d, n) results else results))"

type_synonym filter_state = "cand list \<times> cand list \<times> nat \<times> node_id set"

definition filter_relax ::
  "(node_id \<Rightarrow> rat) \<Rightarrow> (node_id \<Rightarrow> bool) \<Rightarrow> nat \<Rightarrow> node_id list \<Rightarrow> filter_state \<Rightarrow> filter_state" where
  "filter_relax d ok k ns st =
     (case st of (c, r, scanned, V) \<Rightarrow>
        case fold (\<lambda>n. filter_offer k (d n) (ok n) n) (fresh V ns) (c, r) of
          (c', r') \<Rightarrow> (c', r', scanned + length (fresh V ns), V \<union> set ns))"

function filter_beam ::
  "(node_id \<Rightarrow> node_id list) \<Rightarrow> (node_id \<Rightarrow> rat) \<Rightarrow> (node_id \<Rightarrow> bool) \<Rightarrow> nat \<Rightarrow> nat \<Rightarrow> filter_state
     \<Rightarrow> filter_state \<times> bool" where
  "filter_beam nb d ok k cap ([], r, scanned, V) = (([], r, scanned, V), False)"
| "filter_beam nb d ok k cap ((key, n) # c, r, scanned, V) =
     (if length r \<ge> k \<and> - key > fst (hd r) then ((c, r, scanned, V), False)
      else if scanned \<ge> cap then ((c, r, scanned, V), True)
      else filter_beam nb d ok k cap (filter_relax d ok k (nb n) (c, r, scanned, V)))"
  by pat_completeness auto
termination
proof (relation "measures [\<lambda>(_, _, _, _, _, (_, _, _, V)). card (- V), \<lambda>(_, _, _, _, _, (c, _)). length c]", goal_cases)
  case (2 nb d ok k cap key n c r scanned V)
  show ?case
  proof (cases "set (nb n) \<subseteq> V")
    case True
    then have "fresh V (nb n) = []" by (simp add: fresh_empty_iff)
    with True show ?thesis by (simp add: filter_relax_def Un_absorb2)
  next
    case False
    then have "- (V \<union> set (nb n)) \<subset> - V" by auto
    then have "card (- (V \<union> set (nb n))) < card (- V)" by (intro psubset_card_mono) simp_all
    then show ?thesis by (simp add: filter_relax_def split: prod.split)
  qed
qed simp

definition filter_from ::
  "(node_id \<Rightarrow> node_id list) \<Rightarrow> (node_id \<Rightarrow> rat) \<Rightarrow> (node_id \<Rightarrow> bool) \<Rightarrow> nat \<Rightarrow> nat \<Rightarrow> node_id
     \<Rightarrow> filter_state \<times> bool" where
  "filter_from nb d ok k cap e =
     filter_beam nb d ok k cap ([(- d e, e)], if ok e then [(d e, e)] else [], 0, {e})"

text \<open>Draining the max-heap and reversing.\<close>

definition filter_answer :: "cand list \<Rightarrow> (node_id \<times> rat) list" where
  "filter_answer r = rev (map (\<lambda>(d, n). (n, d)) r)"

definition filter_inv ::
  "(node_id \<Rightarrow> rat) \<Rightarrow> (node_id \<Rightarrow> bool) \<Rightarrow> nat \<Rightarrow> node_id set \<Rightarrow> filter_state \<Rightarrow> bool" where
  "filter_inv d ok k P st =
     (case st of (c, r, scanned, V) \<Rightarrow>
        desc c \<and> desc r \<and> distinct (map snd r) \<and> length r \<le> k
      \<and> (\<forall>(x, n) \<in> set r. x = d n \<and> n \<in> V \<and> ok n)
      \<and> (\<forall>(key, n) \<in> set c. key = - d n \<and> n \<in> V)
      \<and> (\<forall>v \<in> V. ok v \<longrightarrow> v \<in> snd ` set r \<or> (length r = k \<and> (\<forall>z \<in> set r. fst z \<le> d v)))
      \<and> (\<forall>v \<in> V. v \<in> snd ` set c \<or> v \<in> P \<or> (length r = k \<and> (\<forall>z \<in> set r. fst z \<le> d v))))"

lemma filter_offer_inv:
  assumes inv: "filter_inv d ok k P (c, r, s, V)" and n: "n \<notin> V" and k: "0 < k"
    and o: "filter_offer k (d n) (ok n) n (c, r) = (c', r')"
  shows "filter_inv d ok k P (c', r', s', insert n V)"
proof -
  from inv have I: "desc c" "desc r" "distinct (map snd r)" "length r \<le> k"
    "\<forall>(x, n) \<in> set r. x = d n \<and> n \<in> V \<and> ok n" "\<forall>(key, n) \<in> set c. key = - d n \<and> n \<in> V"
    "\<forall>v \<in> V. ok v \<longrightarrow> v \<in> snd ` set r \<or> (length r = k \<and> (\<forall>z \<in> set r. fst z \<le> d v))"
    "\<forall>v \<in> V. v \<in> snd ` set c \<or> v \<in> P \<or> (length r = k \<and> (\<forall>z \<in> set r. fst z \<le> d v))"
    by (simp_all add: filter_inv_def)
  have nr: "snd (d n, n) \<notin> snd ` set r" using I(5) n by auto
  let ?cond = "length r < k \<or> d n < fst (hd r)"
  have r': "r' = (if ok n then keep k (d n, n) r else r)" and c': "c' = (if ?cond then pq_push (- d n, n) c else c)"
    using o by (auto simp: filter_offer_def)
  note KK = keep_ok [OF I(2-4) k nr]
  have K: "desc r'" "distinct (map snd r')" "length r' \<le> k" "set r' \<subseteq> insert (d n, n) (set r)"
    "ok n \<or> r' = r"
    and K6: "ok n \<Longrightarrow> \<forall>y \<in> insert (d n, n) (set r). y \<in> set r' \<or> (length r' = k \<and> (\<forall>z \<in> set r'. fst z \<le> fst y))"
    and K7: "\<And>t. length r = k \<Longrightarrow> \<forall>z \<in> set r. fst z \<le> t \<Longrightarrow> length r' = k \<and> (\<forall>z \<in> set r'. fst z \<le> t)"
    using KK I(2-4) by (auto simp: r')
  have dc: "desc c'" using I(1) by (simp add: c' desc_pq_push)
  have cands: "\<forall>(key, m) \<in> set c'. key = - d m \<and> m \<in> insert n V" using I(6) by (auto simp: c' split: if_splits)
  have res: "\<forall>(x, m) \<in> set r'. x = d m \<and> m \<in> insert n V \<and> ok m" using K(4,5) I(5) by auto
  have best: "v \<in> snd ` set r' \<or> (length r' = k \<and> (\<forall>z \<in> set r'. fst z \<le> d v))" if "v \<in> insert n V" "ok v" for v
  proof (cases "v = n \<or> v \<in> snd ` set r")
    case True
    then have dv: "(d v, v) \<in> insert (d n, n) (set r)" using I(5) by auto
    show ?thesis
    proof (cases "ok n")
      case ok: True
      from bspec [OF K6 [OF ok] dv] show ?thesis by (auto intro: rev_image_eqI)
    next
      case False
      then show ?thesis using K(5) that(2) True by auto
    qed
  next
    case False
    with that I(7) have "length r = k \<and> (\<forall>z \<in> set r. fst z \<le> d v)" by auto
    with K7 show ?thesis by auto
  qed
  have exp: "v \<in> snd ` set c' \<or> v \<in> P \<or> (length r' = k \<and> (\<forall>z \<in> set r'. fst z \<le> d v))" if "v \<in> insert n V" for v
  proof (cases "v = n")
    case True
    show ?thesis
    proof (cases ?cond)
      case False
      then have "length r = k" "\<forall>z \<in> set r. fst z \<le> d n" using I(4) desc_hd_fst [OF I(2)] by fastforce+
      with K7 True show ?thesis by blast
    qed (simp add: True c')
  next
    case False
    with that I(8) K7 show ?thesis by (auto simp: c')
  qed
  show ?thesis using dc K(1-3) cands res best exp unfolding filter_inv_def by simp
qed

lemma filter_relax_inv:
  assumes "filter_inv d ok k P (c, r, s, V)" "0 < k"
  shows "filter_inv d ok k P (filter_relax d ok k ns (c, r, s, V))"
proof -
  have fold: "filter_inv d ok k P (c, r, s, V) \<Longrightarrow> distinct ns \<Longrightarrow> set ns \<inter> V = {} \<Longrightarrow>
      fold (\<lambda>n. filter_offer k (d n) (ok n) n) ns (c, r) = (c', r') \<Longrightarrow>
      filter_inv d ok k P (c', r', s', V \<union> set ns)" for ns c r c' r' s s' V
  proof (induction ns arbitrary: c r V)
    case (Cons n ns)
    obtain c1 r1 where o: "filter_offer k (d n) (ok n) n (c, r) = (c1, r1)"
      by (cases "filter_offer k (d n) (ok n) n (c, r)")
    have "filter_inv d ok k P (c1, r1, s, insert n V)"
      by (rule filter_offer_inv [OF Cons.prems(1) _ assms(2) o]) (use Cons.prems in auto)
    from Cons.IH [OF this] Cons.prems o show ?case by auto
  qed (simp add: filter_inv_def)
  obtain c' r' where f: "fold (\<lambda>n. filter_offer k (d n) (ok n) n) (fresh V ns) (c, r) = (c', r')"
    by (cases "fold (\<lambda>n. filter_offer k (d n) (ok n) n) (fresh V ns) (c, r)")
  have "filter_inv d ok k P (c', r', s + length (fresh V ns), V \<union> set (fresh V ns))"
    by (rule fold [OF assms(1) distinct_fresh _ f]) (auto simp: set_fresh)
  moreover have "V \<union> set (fresh V ns) = V \<union> set ns" by (auto simp: set_fresh)
  ultimately show ?thesis by (simp add: filter_relax_def f)
qed

lemma filter_inv_mono: "filter_inv d ok k P st \<Longrightarrow> P \<subseteq> P' \<Longrightarrow> filter_inv d ok k P' st"
  by (auto simp: filter_inv_def)

lemma filter_inv_pop:
  "filter_inv d ok k P ((key, n) # c, r, s, V) \<Longrightarrow> filter_inv d ok k (insert n P) (c, r, s, V)"
  by (auto simp: filter_inv_def desc_def)

text \<open>When the loop stops by itself, every visited id has been expanded, except ids no closer than
  all the \<open>k\<close> results.\<close>

lemma filter_stops:
  assumes "0 < k" "filter_inv d ok k (expanded nb V) (c, r, s, V)"
    and "filter_beam nb d ok k cap (c, r, s, V) = ((c', r', s', V'), hit)"
  shows "(\<exists>P. filter_inv d ok k P (c', r', s', V'))
    \<and> (\<not> hit \<longrightarrow> (\<forall>v \<in> V'. set (nb v) \<subseteq> V' \<or> (length r' = k \<and> (\<forall>z \<in> set r'. fst z \<le> d v))))
    \<and> V \<subseteq> V' \<and> (\<forall>S. V \<subseteq> S \<longrightarrow> (\<forall>n \<in> S. set (nb n) \<subseteq> S) \<longrightarrow> V' \<subseteq> S)"
  using assms
proof (induction nb d ok k cap "(c, r, s, V)" arbitrary: c r s V rule: filter_beam.induct)
  case (1 nb d ok k cap r s V)
  then show ?case by (auto simp: filter_inv_def expanded_def)
next
  case (2 nb d ok k cap key n c r s V)
  note inv = 2(3)
  have n: "key = - d n" "n \<in> V" using inv by (auto simp: filter_inv_def)
  consider (far) "length r \<ge> k \<and> - key > fst (hd r)" | (cap) "\<not> (length r \<ge> k \<and> - key > fst (hd r))" "s \<ge> cap"
    | (go) "\<not> (length r \<ge> k \<and> - key > fst (hd r))" "\<not> s \<ge> cap" by blast
  then show ?case
  proof cases
    case far
    then have eq: "c' = c" "r' = r" "V' = V" "s' = s" using 2(4) by simp_all
    have I: "desc r" "length r = k" "desc ((key, n) # c)" "\<forall>(key', m) \<in> set ((key, n) # c). key' = - d m"
      "\<forall>v \<in> V. v \<in> snd ` set ((key, n) # c) \<or> v \<in> expanded nb V \<or> (length r = k \<and> (\<forall>z \<in> set r. fst z \<le> d v))"
      using inv far by (auto simp: filter_inv_def)
    have "fst z \<le> d v" if "z \<in> set r" "x \<in> set ((key, n) # c)" "snd x = v" for z x v
      using desc_hd_fst [OF I(1) that(1)] desc_hd_fst [OF I(3) that(2)] bspec [OF I(4) that(2)] far n(1) that(3)
      by (cases x) simp
    then have "\<forall>v \<in> V. set (nb v) \<subseteq> V \<or> (length r = k \<and> (\<forall>z \<in> set r. fst z \<le> d v))"
      using I(2,5) by (fastforce simp: expanded_def)
    then show ?thesis using filter_inv_pop [OF inv] unfolding eq by blast
  next
    case cap
    have "((c, r, s, V), True) = ((c', r', s', V'), hit)"
      using 2(4) unfolding filter_beam.simps if_not_P [OF cap(1)] if_P [OF cap(2)] .
    then have eq: "c' = c" "r' = r" "V' = V" "s' = s" "hit" by simp_all
    show ?thesis using filter_inv_pop [OF inv] eq by blast
  next
    case go
    obtain c1 r1 s1 V1 where f: "filter_relax d ok k (nb n) (c, r, s, V) = (c1, r1, s1, V1)"
      by (metis prod_cases4)
    have V1: "V1 = V \<union> set (nb n)" using f by (auto simp: filter_relax_def split: prod.splits)
    have "filter_inv d ok k (insert n (expanded nb V)) (c1, r1, s1, V1)"
      using filter_relax_inv [OF filter_inv_pop [OF inv] 2(2), of "nb n"] by (simp add: f)
    then have "filter_inv d ok k (expanded nb V1) (c1, r1, s1, V1)"
      by (rule filter_inv_mono) (auto simp: expanded_def V1)
    moreover have "filter_beam nb d ok k cap (c1, r1, s1, V1) = ((c', r', s', V'), hit)" using 2(4) go by (simp add: f)
    ultimately have IH: "(\<exists>P. filter_inv d ok k P (c', r', s', V'))
      \<and> (\<not> hit \<longrightarrow> (\<forall>v \<in> V'. set (nb v) \<subseteq> V' \<or> (length r' = k \<and> (\<forall>z \<in> set r'. fst z \<le> d v))))
      \<and> V1 \<subseteq> V' \<and> (\<forall>S. V1 \<subseteq> S \<longrightarrow> (\<forall>n \<in> S. set (nb n) \<subseteq> S) \<longrightarrow> V' \<subseteq> S)"
      using 2(1) [OF go f 2(2)] by blast
    have sub: "V1 \<subseteq> S" if "V \<subseteq> S" "\<forall>n \<in> S. set (nb n) \<subseteq> S" for S
      using that n(2) by (auto simp: V1)
    from IH have "V \<subseteq> V'" and S: "\<forall>S. V1 \<subseteq> S \<longrightarrow> (\<forall>n \<in> S. set (nb n) \<subseteq> S) \<longrightarrow> V' \<subseteq> S" by (simp_all add: V1)
    moreover have "V' \<subseteq> S" if "V \<subseteq> S" "\<forall>n \<in> S. set (nb n) \<subseteq> S" for S
      using S [rule_format, OF sub [OF that]] that(2) by simp
    ultimately show ?thesis using IH by simp
  qed
qed

text \<open>The specification: the answer holds matches only, in ascending order; unless the cap stopped
  the search, fewer than \<open>k\<close> results are all the matches that can be reached, and \<open>k\<close> results miss
  no match closer than the farthest of them that is reached through nodes as close.\<close>

definition filter_result ::
  "(node_id \<Rightarrow> node_id list) \<Rightarrow> (node_id \<Rightarrow> rat) \<Rightarrow> (node_id \<Rightarrow> bool) \<Rightarrow> nat \<Rightarrow> node_id \<Rightarrow> bool
     \<Rightarrow> (node_id \<times> rat) list \<Rightarrow> bool" where
  "filter_result nb d ok k e hit R \<longleftrightarrow>
     sorted (map snd R) \<and> distinct (map fst R) \<and> length R \<le> k
   \<and> (\<forall>(n, x) \<in> set R. x = d n \<and> ok n \<and> n \<in> reach nb e)
   \<and> (\<not> hit \<longrightarrow> length R < k \<longrightarrow> (\<forall>m \<in> reach nb e. ok m \<longrightarrow> m \<in> fst ` set R))
   \<and> (\<not> hit \<longrightarrow> length R = k \<longrightarrow>
        (\<forall>m \<in> reach (\<lambda>n. if d n < snd (last R) then nb n else []) e. ok m \<longrightarrow>
           m \<in> fst ` set R \<or> snd (last R) \<le> d m))"

lemma filter_answer_props:
  "set (filter_answer r) = (\<lambda>(d, n). (n, d)) ` set r" "length (filter_answer r) = length r"
  "map fst (filter_answer r) = rev (map snd r)" "map snd (filter_answer r) = rev (map fst r)"
  by (auto simp: filter_answer_def rev_map)

lemma filter_from_result:
  assumes "0 < k" "filter_from nb d ok k cap e = ((c, r, s, V), hit)"
  shows "filter_result nb d ok k e hit (filter_answer r)"
proof -
  have init: "filter_inv d ok k (expanded nb {e}) ([(- d e, e)], if ok e then [(d e, e)] else [], 0, {e})"
    using assms(1) by (simp add: filter_inv_def desc_def)
  from filter_stops [OF assms(1) init assms(2) [unfolded filter_from_def]] obtain P where
    inv: "filter_inv d ok k P (c, r, s, V)" and V: "e \<in> V"
    and cl: "\<not> hit \<Longrightarrow> \<forall>v \<in> V. set (nb v) \<subseteq> V \<or> (length r = k \<and> (\<forall>z \<in> set r. fst z \<le> d v))"
    and sub: "\<forall>S. {e} \<subseteq> S \<longrightarrow> (\<forall>n \<in> S. set (nb n) \<subseteq> S) \<longrightarrow> V \<subseteq> S" by auto
  have I: "desc r" "distinct (map snd r)" "length r \<le> k" "\<forall>(x, n) \<in> set r. x = d n \<and> n \<in> V \<and> ok n"
    "\<forall>v \<in> V. ok v \<longrightarrow> v \<in> snd ` set r \<or> (length r = k \<and> (\<forall>z \<in> set r. fst z \<le> d v))"
    using inv by (simp_all add: filter_inv_def)
  let ?R = "filter_answer r"
  have "V \<subseteq> reach nb e" using sub [rule_format, of "reach nb e"] reach_step reach_refl by blast
  then have mem: "\<forall>(n, x) \<in> set ?R. x = d n \<and> ok n \<and> n \<in> reach nb e"
    using I(4) by (auto simp: filter_answer_props(1))
  have sorted: "sorted (map snd ?R)"
    using I(1) unfolding filter_answer_props(4) desc_def
    by (simp add: sorted_wrt_rev sorted_wrt_map) (metis (mono_tags, lifting) less_eq_prod_def order.strict_iff_order sorted_wrt_mono_rel)
  have ids: "fst ` set ?R = snd ` set r" by (simp add: filter_answer_props(1) image_image split_def)
  have few: "m \<in> fst ` set ?R" if "\<not> hit" "length ?R < k" "m \<in> reach nb e" "ok m" for m
  proof -
    have "reach nb e \<subseteq> V" using cl [OF that(1)] that(2) V by (intro reach_least) (auto simp: filter_answer_props(2))
    then show ?thesis using I(5) that by (auto simp: filter_answer_props(2) ids)
  qed
  have full: "m \<in> fst ` set ?R \<or> snd (last ?R) \<le> d m"
    if "\<not> hit" "length ?R = k" "m \<in> reach (\<lambda>n. if d n < snd (last ?R) then nb n else []) e" "ok m" for m
  proof -
    have "last ?R \<in> set ?R" using that(2) assms(1) by (intro last_in_set) auto
    then obtain z where z: "z \<in> set r" "fst z = snd (last ?R)" by (force simp: filter_answer_props(1))
    have "reach (\<lambda>n. if d n < snd (last ?R) then nb n else []) e \<subseteq> V"
      using cl [OF that(1)] V z by (intro reach_least) (force split: if_splits)+
    then have "m \<in> snd ` set r \<or> (\<forall>z \<in> set r. fst z \<le> d m)" using I(5) that by auto
    then show ?thesis using z by (auto simp: ids)
  qed
  show ?thesis
    unfolding filter_result_def using sorted I(2,3) mem few full
    by (simp add: filter_answer_props(2,3))
qed

end
