(* ===== verification/Hnsw.thy ===== *)
theory Hnsw
  imports Action Beam Vector_Store Graph_Store Edge_Cache Search_Scratch Id_Map Meta_Filter
begin

text \<open>
  The HNSW index, \<open>class AsterVec\<close> of \<open>src/astervec_index.cc\<close>: its state, the access paths to
  vectors and adjacencies, the searches of one layer, neighbour selection, insertion and the k-nearest
  search. The state threads through the actions of \<open>Action\<close>; a call throws where the code does.
  The vector store, the graph store, the distance kernel and the floating-point unit are in the
  environment. Locks and statistics are left out; the three thread-local
  scratches are the one field \<open>ix_scratch\<close>, since a search starts by emptying its visited set.
\<close>

subsection \<open>Upper-layer nodes\<close>

text \<open>\<open>LayerNeighbors\<close>: a small vector of (layer, neighbours) pairs, scanned linearly.\<close>

type_synonym layer_neighbors = "(int \<times> node_id list) list"

definition layer_find :: "layer_neighbors \<Rightarrow> int \<Rightarrow> node_id list option" where
  "layer_find ls l = map_of ls l"

definition layer_put :: "int \<Rightarrow> node_id list \<Rightarrow> layer_neighbors \<Rightarrow> layer_neighbors" where
  "layer_put l ns ls = AList.update l ns ls"

definition layer_push :: "int \<Rightarrow> node_id \<Rightarrow> layer_neighbors \<Rightarrow> layer_neighbors" where
  "layer_push l n ls = layer_put l ((case layer_find ls l of None \<Rightarrow> [] | Some ns \<Rightarrow> ns) @ [n]) ls"

record node =
  nd_id :: node_id
  nd_point :: vec
  nd_q8 :: bytes
  nd_min :: u32
  nd_max :: u32
  nd_layers :: layer_neighbors

subsection \<open>State and environment\<close>

record ('s, 'g) index =
  ix_vs :: 's
  ix_gs :: 'g
  ix_nodes :: "(node_id \<times> node) list"
  ix_cache :: "edge_cache option"
  ix_entry :: node_id
  ix_max_layer :: int
  ix_corrupt :: bool
  ix_dangling :: u64
  ix_ids :: id_map
  ix_inserts :: nat
  ix_scratch :: search_scratch

record ('s, 'g) env =
  ev_vs :: "'s vstore"
  ev_gs :: "'g graph_store"
  ev_dist :: "vec \<Rightarrow> vec \<Rightarrow> rat"
  ev_fl :: float_ops
  ev_dim :: nat
  ev_m :: nat
  ev_m_max :: nat
  ev_ef_construction :: nat
  ev_section_layer :: int
  ev_heuristic :: bool
  ev_batch :: bool
  ev_dense :: bool
  ev_varint :: bool

type_synonym ('s, 'g, 'a) ix = "(('s, 'g) index, 'a) action"

text \<open>The level of a new node, from a random \<open>u\<close> in (0, 1].\<close>

definition randomLevel :: "nat \<Rightarrow> real \<Rightarrow> int" where
  "randomLevel m u = \<lfloor>- ln u / ln (real m)\<rfloor>"

definition quantizeNodePoint :: "('s, 'g) env \<Rightarrow> node \<Rightarrow> node" where
  "quantizeNodePoint E nd =
     (if nd_point nd = [] then nd
      else case node_quantize (ev_fl E) (nd_point nd) of
             (q, lo, hi) \<Rightarrow> nd\<lparr>nd_point := [], nd_q8 := q, nd_min := lo, nd_max := hi\<rparr>)"

definition dequantizeNodePoint :: "('s, 'g) env \<Rightarrow> node \<Rightarrow> vec option" where
  "dequantizeNodePoint E nd =
     (if nd_q8 nd = [] then None else Some (node_dequantize (ev_fl E) (nd_q8 nd) (nd_min nd) (nd_max nd)))"

definition nodePointView :: "('s, 'g) env \<Rightarrow> node \<Rightarrow> vec" where
  "nodePointView E nd =
     (if nd_point nd \<noteq> [] then nd_point nd
      else if nd_q8 nd = [] then []
      else node_dequantize (ev_fl E) (nd_q8 nd) (nd_min nd) (nd_max nd))"

subsection \<open>Vectors and distances\<close>

definition computeDistance :: "('s, 'g) env \<Rightarrow> vec \<Rightarrow> vec \<Rightarrow> ('s, 'g, rat) ix" where
  "computeDistance E a b = (if length a \<noteq> length b then throw else ret (ev_dist E a b))"

text \<open>A call of the vector store.\<close>

definition on_store :: "('s, 'a) action \<Rightarrow> ('s, 'g, 'a) ix" where
  "on_store m ix = (case m (ix_vs ix) of None \<Rightarrow> None | Some (r, s) \<Rightarrow> Some (r, ix\<lparr>ix_vs := s\<rparr>))"

definition storeVector ::
  "('s, 'g) env \<Rightarrow> node_id \<Rightarrow> vec \<Rightarrow> node_id \<Rightarrow> bytes option \<Rightarrow> ('s, 'g, unit) ix" where
  "storeVector E n v key encoded =
     on_store (case encoded of
       Some b \<Rightarrow> vs_store_encoded (ev_vs E) n b key
     | None \<Rightarrow> vs_store (ev_vs E) n v key)"

definition readVector :: "('s, 'g) env \<Rightarrow> node_id \<Rightarrow> ('s, 'g, vec) ix" where
  "readVector E n = on_store (vs_read (ev_vs E) n)"

definition readVectorsBatchFlat :: "('s, 'g) env \<Rightarrow> node_id list \<Rightarrow> ('s, 'g, vec list) ix" where
  "readVectorsBatchFlat E ns = on_store (vs_read_batch (ev_vs E) ns)"

definition findNode :: "node_id \<Rightarrow> ('s, 'g, node option) ix" where
  "findNode n = get (\<lambda>ix. map_of (ix_nodes ix) n)"

text \<open>\<open>getDistance\<close> and its copy in the neighbour loop: the node's own point on an upper layer when it
  has the right size, else the vector store.\<close>

definition getDistance :: "('s, 'g) env \<Rightarrow> vec \<Rightarrow> int \<Rightarrow> node_id \<Rightarrow> ('s, 'g, rat) ix" where
  "getDistance E q layer n =
     bnd (findNode n) (\<lambda>nd.
       case nd of
         Some nd \<Rightarrow>
           if layer > 0 \<and> length (nodePointView E nd) = ev_dim E then computeDistance E q (nodePointView E nd)
           else bnd (readVector E n) (computeDistance E q)
       | None \<Rightarrow> bnd (readVector E n) (computeDistance E q))"

subsection \<open>Layer-0 adjacency\<close>

definition dropUnlocatable :: "('s, 'g) env \<Rightarrow> node_id list \<Rightarrow> ('s, 'g, node_id list) ix" where
  "dropUnlocatable E ns = upd (\<lambda>ix.
     let kept = filter (\<lambda>n. vs_has_location (ev_vs E) n (ix_vs ix)) ns
     in (kept, if length kept \<noteq> length ns
               then ix\<lparr>ix_dangling := ix_dangling ix + of_nat (length ns - length kept)\<rparr> else ix))"

definition cacheGet :: "('s, 'g) env \<Rightarrow> node_id \<Rightarrow> ('s, 'g, node_id list option) ix" where
  "cacheGet E n ix =
     (case ix_cache ix of
        None \<Rightarrow> Some (Inr None, ix)
      | Some c \<Rightarrow> (case ec_get (ev_varint E) n c of
                     None \<Rightarrow> None
                   | Some (r, c') \<Rightarrow> Some (Inr r, ix\<lparr>ix_cache := Some c'\<rparr>)))"

definition cachePut :: "('s, 'g) env \<Rightarrow> node_id \<Rightarrow> node_id list \<Rightarrow> ('s, 'g, unit) ix" where
  "cachePut E n ns ix =
     (case ix_cache ix of
        None \<Rightarrow> Some (Inr (), ix)
      | Some c \<Rightarrow> (case ec_put (ev_varint E) n ns c of
                     None \<Rightarrow> None
                   | Some c' \<Rightarrow> Some (Inr (), ix\<lparr>ix_cache := Some c'\<rparr>)))"

definition cacheErase :: "node_id \<Rightarrow> ('s, 'g, unit) ix" where
  "cacheErase n ix =
     (case ix_cache ix of
        None \<Rightarrow> Some (Inr (), ix)
      | Some c \<Rightarrow> (case ec_erase n c of
                     None \<Rightarrow> None
                   | Some c' \<Rightarrow> Some (Inr (), ix\<lparr>ix_cache := Some c'\<rparr>)))"

text \<open>A failed read of an adjacency latches \<open>graph_corrupt_\<close> and is never cached.\<close>

definition getEdgesCached :: "('s, 'g) env \<Rightarrow> node_id \<Rightarrow> ('s, 'g, node_id list) ix" where
  "getEdgesCached E n =
     bnd (cacheGet E n) (\<lambda>hit.
       case hit of
         Some ns \<Rightarrow> dropUnlocatable E ns
       | None \<Rightarrow>
           bnd (get (\<lambda>ix. gs_GetOutEdges (ev_gs E) n (ix_gs ix))) (\<lambda>r.
             case r of
               Inl _ \<Rightarrow> bnd (modify (ix_corrupt_update (\<lambda>_. True))) (\<lambda>_. ret [])
             | Inr ns \<Rightarrow> bnd (cachePut E n ns) (\<lambda>_. dropUnlocatable E ns)))"

text \<open>The status of a graph write, latching corruption.\<close>

definition graphWrite :: "('g \<Rightarrow> status \<times> 'g) \<Rightarrow> ('s, 'g, status) ix" where
  "graphWrite w = upd (\<lambda>ix.
     case w (ix_gs ix) of
       (st, g) \<Rightarrow> (st, ix\<lparr>ix_gs := g, ix_corrupt := (ix_corrupt ix \<or> st = Corruption)\<rparr>))"

definition linkNeighborsAsterDB :: "('s, 'g) env \<Rightarrow> node_id \<Rightarrow> node_id list \<Rightarrow> ('s, 'g, status) ix" where
  "linkNeighborsAsterDB E n ns =
     (if ns = [] then ret OK
      else bnd (graphWrite (gs_AddEdgeBatch (ev_gs E) (concat (map (\<lambda>m. [(n, m), (m, n)]) ns)))) (\<lambda>st.
        if st \<noteq> OK then ret st
        else bnd (for_each ns (\<lambda>m _. cacheErase m) ()) (\<lambda>_. ret OK)))"

definition syncGraph :: "('s, 'g) env \<Rightarrow> ('s, 'g, status) ix" where
  "syncGraph E = upd (\<lambda>ix. case gs_SyncWAL (ev_gs E) (ix_gs ix) of (st, g) \<Rightarrow> (st, ix\<lparr>ix_gs := g\<rparr>))"

subsection \<open>The searches of one layer\<close>

definition beginSearchIx :: "('s, 'g) env \<Rightarrow> ('s, 'g, unit) ix" where
  "beginSearchIx E = modify (\<lambda>ix. ix\<lparr>ix_scratch := beginSearch (ev_dense E) (ix_scratch ix)\<rparr>)"

definition visit :: "('s, 'g) env \<Rightarrow> node_id \<Rightarrow> ('s, 'g, bool) ix" where
  "visit E n = upd (\<lambda>ix. case visitedInsert (ev_dense E) n (ix_scratch ix) of
                           (new, sc) \<Rightarrow> (new, ix\<lparr>ix_scratch := sc\<rparr>))"

definition searchOne ::
  "('s, 'g) env \<Rightarrow> vec \<Rightarrow> nat \<Rightarrow> int \<Rightarrow> node_id \<Rightarrow> cand list \<times> cand list \<Rightarrow> ('s, 'g, cand list \<times> cand list) ix" where
  "searchOne E q ef layer n cw =
     bnd (visit E n) (\<lambda>new.
       if new then bnd (getDistance E q layer n) (\<lambda>d. ret (offer ef d n cw)) else ret cw)"

text \<open>The batch path: the unvisited neighbours first, then all their vectors at once.\<close>

definition searchBatch ::
  "('s, 'g) env \<Rightarrow> vec \<Rightarrow> nat \<Rightarrow> node_id list \<Rightarrow> cand list \<times> cand list \<Rightarrow> ('s, 'g, cand list \<times> cand list) ix" where
  "searchBatch E q ef ns cw =
     bnd (for_each ns (\<lambda>n us. bnd (visit E n) (\<lambda>new. ret (if new then us @ [n] else us))) []) (\<lambda>us.
       if us = [] then ret cw
       else bnd (readVectorsBatchFlat E us) (\<lambda>vs.
         for_each (zip us vs) (\<lambda>(n, v) cw. bnd (computeDistance E q v) (\<lambda>d. ret (offer ef d n cw))) cw))"

definition searchExpand ::
  "('s, 'g) env \<Rightarrow> vec \<Rightarrow> nat \<Rightarrow> int \<Rightarrow> node_id \<Rightarrow> cand list \<times> cand list \<Rightarrow> ('s, 'g, cand list \<times> cand list) ix" where
  "searchExpand E q ef layer n cw =
     (if layer > 0 then
        bnd (findNode n) (\<lambda>nd.
          case nd of
            None \<Rightarrow> ret cw
          | Some nd \<Rightarrow> (case layer_find (nd_layers nd) layer of
                          None \<Rightarrow> ret cw
                        | Some ns \<Rightarrow> for_each ns (searchOne E q ef layer) cw))
      else
        bnd (getEdgesCached E n) (\<lambda>ns.
          if ev_batch E then searchBatch E q ef ns cw else for_each ns (searchOne E q ef layer) cw))"

partial_function (option) searchLoop ::
  "('s, 'g) env \<Rightarrow> vec \<Rightarrow> nat \<Rightarrow> int \<Rightarrow> cand list \<Rightarrow> cand list \<Rightarrow> ('s, 'g) index
     \<Rightarrow> ((unit + cand list) \<times> ('s, 'g) index) option" where
  "searchLoop E q ef layer c w ix =
     (case c of
        [] \<Rightarrow> Some (Inr w, ix)
      | (k, n) # c' \<Rightarrow>
          if w \<noteq> [] \<and> - k > fst (hd w) then Some (Inr w, ix)
          else bnd (searchExpand E q ef layer n (c', w)) (\<lambda>cw. searchLoop E q ef layer (fst cw) (snd cw)) ix)"

definition searchLayer ::
  "('s, 'g) env \<Rightarrow> vec \<Rightarrow> node_id \<Rightarrow> int \<Rightarrow> int \<Rightarrow> ('s, 'g, (node_id \<times> rat) list) ix" where
  "searchLayer E q e ef layer =
     (if layer < 0 then ret []
      else if ef \<le> 0 then ret []
      else bnd (beginSearchIx E) (\<lambda>_.
           bnd (getDistance E q layer e) (\<lambda>d.
           bnd (visit E e) (\<lambda>_.
           bnd (searchLoop E q (nat ef) layer [(- d, e)] [(d, e)]) (\<lambda>w.
           ret (answer w))))))"

text \<open>The documents a filter reads: \<open>meta_store->Get\<close>, or none without a store.\<close>

type_synonym documents = "(node_id \<Rightarrow> status + json) option"

definition fetch_meta :: "documents \<Rightarrow> node_id \<Rightarrow> json option" where
  "fetch_meta docs n =
     (case docs of
        None \<Rightarrow> Some (JObj [])
      | Some f \<Rightarrow> (case f n of Inr j \<Rightarrow> Some j | Inl st \<Rightarrow> if st = NotFound then Some (JObj []) else None))"

definition node_matches :: "predicate \<Rightarrow> documents \<Rightarrow> node_id \<Rightarrow> bool" where
  "node_matches p docs n = (case fetch_meta docs n of None \<Rightarrow> False | Some j \<Rightarrow> pred_matches p j)"

definition filterOne ::
  "('s, 'g) env \<Rightarrow> vec \<Rightarrow> predicate \<Rightarrow> documents \<Rightarrow> nat \<Rightarrow> node_id \<Rightarrow> (cand list \<times> cand list) \<times> nat
     \<Rightarrow> ('s, 'g, (cand list \<times> cand list) \<times> nat) ix" where
  "filterOne E q p docs k n st =
     bnd (visit E n) (\<lambda>new.
       if \<not> new then ret st
       else bnd (readVector E n) (\<lambda>v.
            bnd (computeDistance E q v) (\<lambda>d.
            ret (filter_offer k d (node_matches p docs n) n (fst st), snd st + 1))))"

partial_function (option) filterLoop ::
  "('s, 'g) env \<Rightarrow> vec \<Rightarrow> predicate \<Rightarrow> documents \<Rightarrow> nat \<Rightarrow> nat \<Rightarrow> cand list \<Rightarrow> cand list \<Rightarrow> nat \<Rightarrow> ('s, 'g) index
     \<Rightarrow> ((unit + cand list) \<times> ('s, 'g) index) option" where
  "filterLoop E q p docs k cap c r scanned ix =
     (case c of
        [] \<Rightarrow> Some (Inr r, ix)
      | (key, n) # c' \<Rightarrow>
          if length r \<ge> k \<and> - key > fst (hd r) then Some (Inr r, ix)
          else if scanned \<ge> cap then Some (Inr r, ix)
          else bnd (bnd (getEdgesCached E n) (\<lambda>ns. for_each ns (filterOne E q p docs k) ((c', r), scanned)))
                 (\<lambda>st. filterLoop E q p docs k cap (fst (fst st)) (snd (fst st)) (snd st)) ix)"

definition searchLayerFiltered ::
  "('s, 'g) env \<Rightarrow> vec \<Rightarrow> node_id \<Rightarrow> int \<Rightarrow> int \<Rightarrow> predicate option \<Rightarrow> int \<Rightarrow> int \<Rightarrow> documents
     \<Rightarrow> ('s, 'g, (node_id \<times> rat) list) ix" where
  "searchLayerFiltered E q e ef layer pred k max_scan docs =
     (case pred of
        None \<Rightarrow> searchLayer E q e ef layer
      | Some p \<Rightarrow>
          if k \<le> 0 then ret []
          else bnd (beginSearchIx E) (\<lambda>_.
               bnd (readVector E e) (\<lambda>v.
               bnd (computeDistance E q v) (\<lambda>d.
               bnd (visit E e) (\<lambda>_.
               bnd (filterLoop E q p docs (nat k) (nat (if max_scan \<le> 0 then k * 50 else max_scan))
                      [(- d, e)] (if node_matches p docs e then [(d, e)] else []) 0) (\<lambda>r.
               ret (filter_answer r)))))))"

text \<open>The greedy descent of an upper layer.\<close>

definition greedyOne ::
  "('s, 'g) env \<Rightarrow> vec \<Rightarrow> node_id \<Rightarrow> node_id \<times> rat \<times> bool \<Rightarrow> ('s, 'g, node_id \<times> rat \<times> bool) ix" where
  "greedyOne E q n acc =
     bnd (findNode n) (\<lambda>nd.
       case nd of
         None \<Rightarrow> ret acc
       | Some nd \<Rightarrow>
           if nodePointView E nd = [] then ret acc
           else bnd (computeDistance E q (nodePointView E nd)) (\<lambda>d.
                ret (if d < fst (snd acc) then (n, d, True) else acc)))"

text \<open>One round of the \<open>while (improved)\<close> loop; without a node or a neighbour list it ends the loop.\<close>

definition greedyRound ::
  "('s, 'g) env \<Rightarrow> vec \<Rightarrow> int \<Rightarrow> node_id \<Rightarrow> rat \<Rightarrow> ('s, 'g, node_id \<times> rat \<times> bool) ix" where
  "greedyRound E q layer cur best =
     bnd (findNode cur) (\<lambda>nd.
       case Option.bind nd (\<lambda>nd. layer_find (nd_layers nd) layer) of
         None \<Rightarrow> ret (cur, best, False)
       | Some ns \<Rightarrow> for_each ns (greedyOne E q) (cur, best, False))"

partial_function (option) greedyLoop ::
  "('s, 'g) env \<Rightarrow> vec \<Rightarrow> int \<Rightarrow> node_id \<Rightarrow> rat \<Rightarrow> ('s, 'g) index \<Rightarrow> ((unit + node_id) \<times> ('s, 'g) index) option" where
  "greedyLoop E q layer cur best ix =
     bnd (greedyRound E q layer cur best) (\<lambda>acc s.
       if snd (snd acc) then greedyLoop E q layer (fst acc) (fst (snd acc)) s else Some (Inr (fst acc), s)) ix"

definition greedySearchUpperLayer :: "('s, 'g) env \<Rightarrow> vec \<Rightarrow> node_id \<Rightarrow> int \<Rightarrow> ('s, 'g, node_id) ix" where
  "greedySearchUpperLayer E q e layer =
     bnd (findNode e) (\<lambda>nd.
       case nd of
         None \<Rightarrow> ret e
       | Some nd \<Rightarrow> bnd (computeDistance E q (nodePointView E nd)) (\<lambda>d. greedyLoop E q layer e d))"

text \<open>Down from layer \<open>hi\<close> to layer \<open>lo\<close>.\<close>

definition descend :: "('s, 'g) env \<Rightarrow> vec \<Rightarrow> int \<Rightarrow> int \<Rightarrow> node_id \<Rightarrow> ('s, 'g, node_id) ix" where
  "descend E q hi lo e = for_each (rev [lo..hi]) (\<lambda>l cur. greedySearchUpperLayer E q cur l) e"


subsection \<open>Neighbour selection\<close>

definition selectNeighborsSimple ::
  "('s, 'g) env \<Rightarrow> vec \<Rightarrow> node_id list \<Rightarrow> nat \<Rightarrow> int \<Rightarrow> ('s, 'g, node_id list) ix" where
  "selectNeighborsSimple E v ids maxN layer =
     (if length ids \<le> maxN then ret ids
      else bnd (for_each ids (\<lambda>n q.
             bnd (findNode n) (\<lambda>nd.
             bnd (case nd of
                    Some nd \<Rightarrow> if layer > 0 \<and> nodePointView E nd \<noteq> [] then ret (nodePointView E nd) else readVector E n
                  | None \<Rightarrow> readVector E n) (\<lambda>cv.
             bnd (computeDistance E v cv) (\<lambda>d.
             let q' = pq_push (d, n) q in ret (if length q' > maxN then tl q' else q'))))) [])
           (\<lambda>q. ret (map snd q)))"

text \<open>\<open>getVector\<close> of the heuristic, with its cache of vectors already fetched.\<close>

type_synonym vec_cache = "(node_id \<times> vec) list"

definition heuristicVector ::
  "('s, 'g) env \<Rightarrow> int \<Rightarrow> node_id \<Rightarrow> vec_cache \<Rightarrow> ('s, 'g, vec \<times> vec_cache) ix" where
  "heuristicVector E layer n vc =
     bnd (findNode n) (\<lambda>nd.
       case (if layer > 0 then nd else None) of
         Some nd \<Rightarrow>
           if nd_point nd \<noteq> [] then ret (nd_point nd, vc)
           else (case map_of vc n of
                   Some v \<Rightarrow> ret (v, vc)
                 | None \<Rightarrow>
                     (case dequantizeNodePoint E nd of
                        Some v \<Rightarrow> ret (v, (n, v) # vc)
                      | None \<Rightarrow> bnd (readVector E n) (\<lambda>v. ret (v, (n, v) # vc))))
       | None \<Rightarrow>
           (case map_of vc n of
              Some v \<Rightarrow> ret (v, vc)
            | None \<Rightarrow> bnd (readVector E n) (\<lambda>v. ret (v, (n, v) # vc))))"

text \<open>No selected id is closer to the candidate than the query is; the first that is ends the loop.\<close>

fun heuristicGood ::
  "('s, 'g) env \<Rightarrow> int \<Rightarrow> node_id \<Rightarrow> rat \<Rightarrow> node_id list \<Rightarrow> vec_cache \<Rightarrow> ('s, 'g, bool \<times> vec_cache) ix" where
  "heuristicGood E layer n d [] vc = ret (True, vc)"
| "heuristicGood E layer n d (m # ms) vc =
     bnd (heuristicVector E layer m vc) (\<lambda>(v1, vc).
     bnd (heuristicVector E layer n vc) (\<lambda>(v2, vc).
     bnd (computeDistance E v1 v2) (\<lambda>x.
     if x < d then ret (False, vc) else heuristicGood E layer n d ms vc)))"

fun heuristicSelect ::
  "('s, 'g) env \<Rightarrow> int \<Rightarrow> nat \<Rightarrow> (node_id \<times> rat) list \<Rightarrow> node_id list \<Rightarrow> vec_cache \<Rightarrow> ('s, 'g, node_id list) ix" where
  "heuristicSelect E layer maxN [] sel vc = ret sel"
| "heuristicSelect E layer maxN ((n, d) # cs) sel vc =
     (if length sel \<ge> maxN then ret sel
      else bnd (heuristicGood E layer n d sel vc) (\<lambda>(good, vc).
           heuristicSelect E layer maxN cs (if good then sel @ [n] else sel) vc))"

definition selectNeighborsHeuristic2 ::
  "('s, 'g) env \<Rightarrow> vec \<Rightarrow> node_id list \<Rightarrow> nat \<Rightarrow> int \<Rightarrow> ('s, 'g, node_id list) ix" where
  "selectNeighborsHeuristic2 E v ids maxN layer =
     (if length ids \<le> maxN then ret ids
      else bnd (for_each ids (\<lambda>n (cs, vc).
             bnd (heuristicVector E layer n vc) (\<lambda>(cv, vc).
             bnd (computeDistance E v cv) (\<lambda>d.
             ret (cs @ [(n, d)], vc)))) ([], []))
           (\<lambda>(cs, vc). heuristicSelect E layer maxN (sort_key snd cs) [] vc))"

definition selectNeighbors ::
  "('s, 'g) env \<Rightarrow> vec \<Rightarrow> node_id list \<Rightarrow> nat \<Rightarrow> int \<Rightarrow> ('s, 'g, node_id list) ix" where
  "selectNeighbors E v ids maxN layer =
     (if \<not> ev_heuristic E then selectNeighborsSimple E v ids maxN layer
      else selectNeighborsHeuristic2 E v ids maxN layer)"

subsubsection \<open>The overloads for search results\<close>

text \<open>The candidates' vectors are copied into one buffer first; on an upper layer a node without a
  point of the right size leaves zeros there.\<close>

definition candVector :: "('s, 'g) env \<Rightarrow> (node_id \<times> node) list \<Rightarrow> node_id \<Rightarrow> vec" where
  "candVector E nodes n =
     (case map_of nodes n of
        None \<Rightarrow> replicate (ev_dim E) 0
      | Some nd \<Rightarrow> if length (nodePointView E nd) = ev_dim E then nodePointView E nd else replicate (ev_dim E) 0)"

text \<open>Diversity pruning over the buffer: the selected candidates with their vectors, so far.\<close>

fun diverse ::
  "(vec \<Rightarrow> vec \<Rightarrow> rat) \<Rightarrow> nat \<Rightarrow> ((node_id \<times> rat) \<times> vec) list \<Rightarrow> (node_id \<times> vec) list \<Rightarrow> (node_id \<times> vec) list" where
  "diverse dst maxN [] sel = sel"
| "diverse dst maxN (((n, d), v) # cs) sel =
     (if length sel \<ge> maxN then sel
      else diverse dst maxN cs (if \<exists>(m, u) \<in> set sel. dst v u < d then sel else sel @ [(n, v)]))"

definition selectNeighborsHeuristic2R ::
  "('s, 'g) env \<Rightarrow> vec \<Rightarrow> (node_id \<times> rat) list \<Rightarrow> nat \<Rightarrow> int \<Rightarrow> ('s, 'g, node_id list) ix" where
  "selectNeighborsHeuristic2R E v cs maxN layer =
     (if length cs \<le> maxN then ret (map fst cs)
      else let sorted = sort_key snd cs in
        bnd (if layer > 0 then get (\<lambda>ix. map (candVector E (ix_nodes ix)) (map fst sorted))
             else readVectorsBatchFlat E (map fst sorted))
          (\<lambda>vs. ret (map fst (diverse (ev_dist E) maxN (zip sorted vs) []))))"

definition selectNeighborsR ::
  "('s, 'g) env \<Rightarrow> vec \<Rightarrow> (node_id \<times> rat) list \<Rightarrow> nat \<Rightarrow> int \<Rightarrow> ('s, 'g, node_id list) ix" where
  "selectNeighborsR E v cs maxN layer =
     (if \<not> ev_heuristic E then ret (map fst (take maxN (sort_key snd cs)))
      else selectNeighborsHeuristic2R E v cs maxN layer)"

subsection \<open>Upper-layer links\<close>

definition nodeUpdate :: "node_id \<Rightarrow> (node \<Rightarrow> node) \<Rightarrow> ('s, 'g, unit) ix" where
  "nodeUpdate n f = modify (\<lambda>ix.
     case map_of (ix_nodes ix) n of
       None \<Rightarrow> ix
     | Some nd \<Rightarrow> ix\<lparr>ix_nodes := AList.update n (f nd) (ix_nodes ix)\<rparr>)"

definition linkNeighbors :: "node_id \<Rightarrow> node_id list \<Rightarrow> int \<Rightarrow> ('s, 'g, unit) ix" where
  "linkNeighbors n ns layer =
     bnd (findNode n) (\<lambda>nd.
       case nd of
         None \<Rightarrow> ret ()
       | Some _ \<Rightarrow> for_each ns (\<lambda>m _.
           bnd (findNode m) (\<lambda>md.
             case md of
               None \<Rightarrow> ret ()
             | Some _ \<Rightarrow>
                 bnd (nodeUpdate m (nd_layers_update (layer_push layer n))) (\<lambda>_.
                 nodeUpdate n (nd_layers_update (layer_push layer m))))) ())"

text \<open>The edge back to the new node, and the shrink of a list that has become too long; its basis is
  the neighbour's point, dequantised if need be.\<close>

definition linkBack :: "('s, 'g) env \<Rightarrow> node_id \<Rightarrow> int \<Rightarrow> node_id \<Rightarrow> ('s, 'g, unit) ix" where
  "linkBack E n layer m =
     bnd (findNode m) (\<lambda>md.
       case md of
         None \<Rightarrow> ret ()
       | Some nd \<Rightarrow>
           let ls = layer_push layer n (nd_layers nd);
               conn = the (layer_find ls layer) in
           bnd (nodeUpdate m (nd_layers_update (\<lambda>_. ls))) (\<lambda>_.
             if length conn \<le> ev_m_max E then ret ()
             else case (if nd_point nd \<noteq> [] then Some (nd_point nd) else dequantizeNodePoint E nd) of
                    None \<Rightarrow> ret ()
                  | Some basis \<Rightarrow>
                      bnd (selectNeighbors E basis conn (ev_m_max E) layer) (\<lambda>kept.
                      nodeUpdate m (nd_layers_update (layer_put layer kept)))))"

definition linkUpper :: "('s, 'g) env \<Rightarrow> node_id \<Rightarrow> (int \<times> node_id list) list \<Rightarrow> int \<Rightarrow> ('s, 'g, unit) ix" where
  "linkUpper E n selected hi =
     bnd (findNode n) (\<lambda>nd.
       case nd of
         None \<Rightarrow> ret ()
       | Some _ \<Rightarrow> for_each (rev [1..hi]) (\<lambda>l _.
           let ns = (case map_of selected l of None \<Rightarrow> [] | Some ns \<Rightarrow> ns) in
           bnd (nodeUpdate n (nd_layers_update (layer_put l ns))) (\<lambda>_.
           for_each ns (\<lambda>m _. linkBack E n l m) ())) ())"

subsection \<open>Insertion\<close>

text \<open>Step 2 for one layer: search, select, move the entry point; the accumulator is the entry point,
  the section key and the selections so far.\<close>

definition selectAt ::
  "('s, 'g) env \<Rightarrow> vec \<Rightarrow> int \<Rightarrow> node_id \<times> node_id \<times> (int \<times> node_id list) list
     \<Rightarrow> ('s, 'g, node_id \<times> node_id \<times> (int \<times> node_id list) list) ix" where
  "selectAt E v l acc =
     (case acc of (cur, key, selected) \<Rightarrow>
        bnd (searchLayer E v cur (int (ev_ef_construction E)) l) (\<lambda>found.
        bnd (selectNeighborsR E v found (ev_m E) l) (\<lambda>ns.
        let near = (if found = [] then cur else fst (hd found))
        in ret (near, if l = ev_section_layer E then near else key, (l, ns) # selected))))"

text \<open>Step 6: the layer-0 lists of the new neighbours that have grown too long lose what the
  selection drops, in the stored direction only.\<close>

definition shrinkEdges :: "('s, 'g) env \<Rightarrow> node_id \<Rightarrow> edge list \<Rightarrow> ('s, 'g, edge list) ix" where
  "shrinkEdges E m es =
     bnd (getEdgesCached E m) (\<lambda>conn.
       if length conn \<le> ev_m_max E then ret es
       else bnd (readVector E m) (\<lambda>mv.
            bnd (selectNeighbors E mv conn (ev_m_max E) 0) (\<lambda>kept.
            ret (es @ map (Pair m) (filter (\<lambda>x. x \<notin> set kept) conn)))))"

definition shrinkLayer0 :: "('s, 'g) env \<Rightarrow> node_id list \<Rightarrow> ('s, 'g, status) ix" where
  "shrinkLayer0 E ns =
     bnd (for_each ns (shrinkEdges E) []) (\<lambda>es.
       if es = [] then ret OK
       else bnd (graphWrite (gs_DeleteEdgeBatch (ev_gs E) es)) (\<lambda>st.
         if st \<noteq> OK then ret st
         else bnd (for_each es (\<lambda>(a, b) _. bnd (cacheErase a) (\<lambda>_. cacheErase b)) ()) (\<lambda>_. ret OK)))"

text \<open>Step 7.\<close>

definition promote :: "node_id \<Rightarrow> int \<Rightarrow> ('s, 'g, unit) ix" where
  "promote n level = modify (\<lambda>ix.
     if level > ix_max_layer ix then ix\<lparr>ix_max_layer := level, ix_entry := n\<rparr> else ix)"

text \<open>Step 1: a node that reaches above layer 0 enters \<open>nodes_\<close> with no neighbours.\<close>

definition publishNode :: "('s, 'g) env \<Rightarrow> node_id \<Rightarrow> vec \<Rightarrow> int \<Rightarrow> ('s, 'g, unit) ix" where
  "publishNode E n v level = modify (\<lambda>ix.
     if level > 0
     then ix\<lparr>ix_nodes := AList.update n (quantizeNodePoint E
            \<lparr>nd_id = n, nd_point = v, nd_q8 = [], nd_min = 0, nd_max = 0, nd_layers = []\<rparr>) (ix_nodes ix)\<rparr>
     else ix)"

definition insertFirst ::
  "('s, 'g) env \<Rightarrow> int \<Rightarrow> node_id \<Rightarrow> vec \<Rightarrow> bytes option \<Rightarrow> ('s, 'g, status) ix" where
  "insertFirst E level n v encoded =
     bnd (linkNeighborsAsterDB E n []) (\<lambda>st.
       if st \<noteq> OK then ret st
       else bnd (storeVector E n v n encoded) (\<lambda>_.
            bnd (modify (\<lambda>ix. ix\<lparr>ix_entry := n, ix_max_layer := level\<rparr>)) (\<lambda>_. ret OK)))"

text \<open>Steps 3 to 7, given the section key and the selections.\<close>

definition insertLink ::
  "('s, 'g) env \<Rightarrow> int \<Rightarrow> int \<Rightarrow> node_id \<Rightarrow> vec \<Rightarrow> bytes option \<Rightarrow> node_id \<Rightarrow> (int \<times> node_id list) list
     \<Rightarrow> ('s, 'g, status) ix" where
  "insertLink E level min_layer n v encoded key selected =
     (let sel0 = (case map_of selected 0 of None \<Rightarrow> [] | Some ns \<Rightarrow> ns) in
      bnd (storeVector E n v key encoded) (\<lambda>_.
      bnd (linkNeighborsAsterDB E n sel0) (\<lambda>st.
      if st \<noteq> OK then ret st
      else bnd (if min_layer \<ge> 1 then linkUpper E n selected min_layer else ret ()) (\<lambda>_.
           bnd (shrinkLayer0 E sel0) (\<lambda>st.
           if st \<noteq> OK then ret st
           else bnd (promote n level) (\<lambda>_. ret OK))))))"

definition insertNode ::
  "('s, 'g) env \<Rightarrow> int \<Rightarrow> node_id \<Rightarrow> vec \<Rightarrow> bytes option \<Rightarrow> ('s, 'g, status) ix" where
  "insertNode E level n v encoded =
     bnd (modify (ix_inserts_update Suc)) (\<lambda>_.
     bnd (publishNode E n v level) (\<lambda>_.
     bnd (get ix_entry) (\<lambda>entry.
     if entry = k_invalid_node_id then insertFirst E level n v encoded
     else
       bnd (get (\<lambda>ix. max 0 (ix_max_layer ix))) (\<lambda>hi.
       bnd (for_each (rev [level + 1..hi]) (\<lambda>l (cur, key).
              bnd (greedySearchUpperLayer E v cur l) (\<lambda>cur'.
              ret (cur', if l = ev_section_layer E then cur' else key))) (entry, entry)) (\<lambda>(cur, key).
       bnd (for_each (rev [0..min hi level]) (selectAt E v) (cur, key, [])) (\<lambda>(cur, key, selected).
       insertLink E level (min hi level) n v encoded key selected))))))"

subsection \<open>Deletion, lookup and the k-nearest search\<close>

definition deleteNode :: "node_id \<Rightarrow> ('s, 'g, status) ix" where
  "deleteNode n = bnd (modify (ix_ids_update (tombstone n))) (\<lambda>_. ret OK)"

text \<open>Without an output vector (\<open>out = False\<close>) the call is refused; a store that throws is an I/O error.\<close>

definition getNodeVector :: "('s, 'g) env \<Rightarrow> node_id \<Rightarrow> bool \<Rightarrow> ('s, 'g, status + vec) ix" where
  "getNodeVector E n out =
     (if \<not> out then ret (Inl InvalidArgument)
      else bnd (get (\<lambda>ix. is_tombstoned (ix_ids ix) n)) (\<lambda>dead.
      if dead then ret (Inl NotFound)
      else bnd (get (\<lambda>ix. vs_exists (ev_vs E) n (ix_vs ix))) (\<lambda>ex.
      if \<not> ex then ret (Inl NotFound)
      else catching (bnd (readVector E n) (\<lambda>v. ret (Inr v))) (ret (Inl IOError)))))"

definition knnSearchK :: "('s, 'g) env \<Rightarrow> vec \<Rightarrow> int \<Rightarrow> int \<Rightarrow> ('s, 'g, (node_id \<times> rat) list) ix" where
  "knnSearchK E q k ef_search =
     bnd (get ix_entry) (\<lambda>ep.
     if ep = k_invalid_node_id \<or> k \<le> 0 then ret []
     else bnd (get ix_max_layer) (\<lambda>top_layer.
          bnd (descend E q top_layer 1 ep) (\<lambda>cur.
          bnd (searchLayer E q cur (max ef_search k) 0) (\<lambda>found.
          get (\<lambda>ix. take (nat k) (filter (\<lambda>(n, d). \<not> is_tombstoned (ix_ids ix) n) found))))))"

definition knnSearchKFiltered ::
  "('s, 'g) env \<Rightarrow> vec \<Rightarrow> int \<Rightarrow> int \<Rightarrow> predicate option \<Rightarrow> int \<Rightarrow> documents \<Rightarrow> ('s, 'g, (node_id \<times> rat) list) ix" where
  "knnSearchKFiltered E q k ef_search pred max_scan docs =
     bnd (get ix_entry) (\<lambda>ep.
     if ep = k_invalid_node_id \<or> k \<le> 0 then ret []
     else bnd (get ix_max_layer) (\<lambda>top_layer.
          bnd (descend E q top_layer 1 ep) (\<lambda>cur.
          searchLayerFiltered E q cur ef_search 0 pred k max_scan docs)))"

end
