(* ===== verification/Hnsw_Search.thy ===== *)
theory Hnsw_Search
  imports Hnsw
begin

text \<open>
  The searches of \<open>Hnsw\<close> refine the traversals of \<open>Beam\<close>. \<open>index_ok\<close> is the invariant of the index:
  the parts it is built from are in order, the edge cache agrees with the graph, every id the index
  can reach has a vector. Searches change nothing but caches: \<open>seen\<close> is the part of the state they
  leave alone. The locale \<open>hnsw\<close> states what the index needs of its two stores; a search throws only
  where the vector store is \<open>faulty\<close>.
\<close>

locale hnsw = vs: vector_store "ev_vs E" "ev_dim E" faulty inv view writable + gs: graph_store "ev_gs E" adj sound
  for E :: "('s, 'g) env" and faulty inv view writable adj sound

definition nodes_ok :: "('s, 'g) env \<Rightarrow> (node_id \<rightharpoonup> vec) \<Rightarrow> (node_id \<times> node) list \<Rightarrow> bool" where
  "nodes_ok E vw nodes \<longleftrightarrow>
     (\<forall>n nd. map_of nodes n = Some nd \<longrightarrow> length (nodePointView E nd) = ev_dim E \<and>
        (\<forall>l ms. map_of (nd_layers nd) l = Some ms \<longrightarrow> (\<forall>m \<in> set ms. vw m \<noteq> None)))"

text \<open>The cache agrees with the graph, and holds adjacencies of stored ids only.\<close>

definition cache_ok :: "bool \<Rightarrow> (node_id \<Rightarrow> node_id list) \<Rightarrow> (node_id \<rightharpoonup> vec) \<Rightarrow> edge_cache option \<Rightarrow> bool" where
  "cache_ok varint load vw co =
     (case co of None \<Rightarrow> True | Some c \<Rightarrow>
        edge_cache_ok varint c \<and> ec_view varint c \<subseteq>\<^sub>m (\<lambda>k. if vw k = None then None else Some (load k)))"

definition index_ok ::
  "('s, 'g) env \<Rightarrow> ('s \<Rightarrow> bool) \<Rightarrow> ('s \<Rightarrow> node_id \<rightharpoonup> vec) \<Rightarrow> ('g \<Rightarrow> node_id \<Rightarrow> node_id list) \<Rightarrow> ('g \<Rightarrow> bool)
     \<Rightarrow> ('s, 'g) index \<Rightarrow> bool" where
  "index_ok E iv view adj sound ix \<longleftrightarrow>
     0 < ev_dim E \<and> iv (ix_vs ix) \<and> sound (ix_gs ix) \<and> view (ix_vs ix) k_invalid_node_id = None
   \<and> cache_ok (ev_varint E) (adj (ix_gs ix)) (view (ix_vs ix)) (ix_cache ix)
   \<and> scratch_ok (ev_dense E) (ix_scratch ix)
   \<and> nodes_ok E (view (ix_vs ix)) (ix_nodes ix)
   \<and> (ix_entry ix = k_invalid_node_id \<or> view (ix_vs ix) (ix_entry ix) \<noteq> None)"

text \<open>What a search leaves alone.\<close>

definition seen where
  "seen E view writable ix =
     (view (ix_vs ix), writable (ix_vs ix), (\<lambda>n. vs_exists (ev_vs E) n (ix_vs ix)), ix_gs ix, ix_nodes ix,
      ix_entry ix, ix_max_layer ix, ix_corrupt ix, ix_ids ix, ix_inserts ix)"

text \<open>The graph a layer's search walks, and the point it sees for an id.\<close>

definition layer_links ::
  "('s \<Rightarrow> node_id \<rightharpoonup> vec) \<Rightarrow> ('g \<Rightarrow> node_id \<Rightarrow> node_id list) \<Rightarrow> ('s, 'g) index \<Rightarrow> int \<Rightarrow> node_id \<Rightarrow> node_id list" where
  "layer_links view adj ix l n =
     (if l > 0 then (case Option.bind (map_of (ix_nodes ix) n) (\<lambda>nd. layer_find (nd_layers nd) l) of
                       None \<Rightarrow> [] | Some ms \<Rightarrow> ms)
      else filter (\<lambda>m. view (ix_vs ix) m \<noteq> None) (adj (ix_gs ix) n))"

definition layer_point ::
  "('s, 'g) env \<Rightarrow> ('s \<Rightarrow> node_id \<rightharpoonup> vec) \<Rightarrow> ('s, 'g) index \<Rightarrow> int \<Rightarrow> node_id \<Rightarrow> vec" where
  "layer_point E view ix l n =
     (case map_of (ix_nodes ix) n of
        Some nd \<Rightarrow> if l > 0 \<and> length (nodePointView E nd) = ev_dim E then nodePointView E nd
                   else the (view (ix_vs ix) n)
      | None \<Rightarrow> the (view (ix_vs ix) n))"

definition layer_dist ::
  "('s, 'g) env \<Rightarrow> ('s \<Rightarrow> node_id \<rightharpoonup> vec) \<Rightarrow> ('s, 'g) index \<Rightarrow> vec \<Rightarrow> int \<Rightarrow> node_id \<Rightarrow> rat" where
  "layer_dist E view ix q l n = ev_dist E q (layer_point E view ix l n)"

abbreviation marks :: "('s, 'g) env \<Rightarrow> ('s, 'g) index \<Rightarrow> node_id set" where
  "marks E ix \<equiv> visited (ev_dense E) (ix_scratch ix)"

abbreviation started :: "('s, 'g) env \<Rightarrow> ('s, 'g) index \<Rightarrow> bool" where
  "started E ix \<equiv> scratch_started (ev_dense E) (ix_scratch ix)"

lemma started_ok: "started E ix \<Longrightarrow> scratch_ok (ev_dense E) (ix_scratch ix)"
  by (simp add: scratch_started_def)

lemma visitedInsert_any:
  assumes "scratch_started dense s"
  shows "fst (visitedInsert dense n s) \<longleftrightarrow> n \<notin> visited dense s"
    "visited dense (snd (visitedInsert dense n s)) = insert n (visited dense s)"
    "scratch_started dense (snd (visitedInsert dense n s))"
  using visitedInsert_dense [OF assms] visitedInsert_map [OF assms] by (cases "dense \<and> is_direct_id n"; blast)+

lemma map_le_some: "m \<subseteq>\<^sub>m f \<Longrightarrow> m k = Some v \<Longrightarrow> f k = Some v"
  by (force simp: map_le_def)

lemma map_leI: "(\<And>k v. m k = Some v \<Longrightarrow> f k = Some v) \<Longrightarrow> m \<subseteq>\<^sub>m f"
  by (force simp: map_le_def)

context hnsw
begin

abbreviation ok :: "('s, 'g) index \<Rightarrow> bool" where
  "ok \<equiv> index_ok E inv view adj sound"

text \<open>A step that reads: the result satisfies \<open>P\<close>, nothing seen changes, the scratch is kept.\<close>

definition keeps :: "('s, 'g) index \<Rightarrow> ('s, 'g) index \<Rightarrow> bool" where
  "keeps ix ix' \<longleftrightarrow> ok ix' \<and> seen E view writable ix' = seen E view writable ix"

definition bad :: "('s, 'g) index \<Rightarrow> ('s, 'g) index \<Rightarrow> bool" where
  "bad ix ix' \<longleftrightarrow> faulty \<and> keeps ix ix'"

lemma keeps_refl: "ok ix \<Longrightarrow> keeps ix ix"
  by (simp add: keeps_def)

lemma keeps_trans: "keeps ix ix' \<Longrightarrow> keeps ix' ix'' \<Longrightarrow> keeps ix ix''"
  by (simp add: keeps_def)

lemma keeps_bad: "keeps ix ix' \<Longrightarrow> bad ix' ix'' \<Longrightarrow> bad ix ix''"
  unfolding bad_def using keeps_trans by blast

lemma bad_keeps: "keeps ix ix' \<Longrightarrow> bad ix ix'' \<Longrightarrow> bad ix' ix''"
  unfolding bad_def keeps_def by simp

lemma keeps_seen:
  assumes "keeps ix ix'"
  shows "view (ix_vs ix') = view (ix_vs ix)" "writable (ix_vs ix') = writable (ix_vs ix)" "ix_gs ix' = ix_gs ix"
    "ix_nodes ix' = ix_nodes ix" "ix_entry ix' = ix_entry ix" "ix_max_layer ix' = ix_max_layer ix"
    "ix_ids ix' = ix_ids ix" "layer_links view adj ix' = layer_links view adj ix"
    "layer_point E view ix' = layer_point E view ix" "layer_dist E view ix' = layer_dist E view ix" "ok ix'"
proof -
  show v: "view (ix_vs ix') = view (ix_vs ix)" "writable (ix_vs ix') = writable (ix_vs ix)" "ix_gs ix' = ix_gs ix"
    "ix_nodes ix' = ix_nodes ix" "ix_entry ix' = ix_entry ix" "ix_max_layer ix' = ix_max_layer ix"
    "ix_ids ix' = ix_ids ix" "ok ix'"
    using assms by (simp_all add: keeps_def seen_def)
  show "layer_links view adj ix' = layer_links view adj ix" unfolding layer_links_def fun_eq_iff v by simp
  show p: "layer_point E view ix' = layer_point E view ix" unfolding layer_point_def fun_eq_iff v by simp
  show "layer_dist E view ix' = layer_dist E view ix" unfolding layer_dist_def fun_eq_iff p by simp
qed

lemma read_keeps:
  "ok ix \<Longrightarrow> same_store (ev_vs E) inv view writable (ix_vs ix) s' \<Longrightarrow> keeps ix (ix\<lparr>ix_vs := s'\<rparr>)"
  by (simp add: keeps_def index_ok_def seen_def same_store_def)

lemma wp_on_store:
  "wp m (ix_vs ix) (\<lambda>a s. P a (ix\<lparr>ix_vs := s\<rparr>)) (\<lambda>s. Q (ix\<lparr>ix_vs := s\<rparr>)) \<Longrightarrow> wp (on_store m) ix P Q"
  by (auto simp: wp_def on_store_def split: option.splits sum.splits)

lemma wp_readVector:
  assumes "ok ix" "view (ix_vs ix) n = Some v"
  shows "wp (readVector E n) ix (\<lambda>r ix'. r = v \<and> keeps ix ix' \<and> ix_scratch ix' = ix_scratch ix) (bad ix)"
proof -
  have "inv (ix_vs ix)" using assms(1) by (simp add: index_ok_def)
  from vs.read_law [OF this assms(2)] show ?thesis
    unfolding readVector_def by (intro wp_on_store) (auto elim!: wp_conseq simp: bad_def read_keeps [OF assms(1)])
qed

lemma wp_readBatch:
  assumes "ok ix" "\<forall>n \<in> set ns. view (ix_vs ix) n \<noteq> None"
  shows "wp (readVectorsBatchFlat E ns) ix (\<lambda>r ix'. r = map (\<lambda>n. the (view (ix_vs ix) n)) ns
    \<and> keeps ix ix' \<and> ix_scratch ix' = ix_scratch ix) (bad ix)"
proof -
  have "inv (ix_vs ix)" using assms(1) by (simp add: index_ok_def)
  from vs.batch_law [OF this assms(2)] show ?thesis
    unfolding readVectorsBatchFlat_def by (intro wp_on_store) (auto elim!: wp_conseq simp: bad_def read_keeps [OF assms(1)])
qed

lemma wp_computeDistance:
  "length a = length b \<Longrightarrow> P (ev_dist E a b) ix \<Longrightarrow> wp (computeDistance E a b) ix P Q"
  by (simp add: computeDistance_def wp_ret)

lemma view_dim: "ok ix \<Longrightarrow> view (ix_vs ix) n = Some v \<Longrightarrow> length v = ev_dim E"
  using vs.dim_law by (auto simp: index_ok_def)

text \<open>An id has a point on a layer if its node or the store has one.\<close>

definition has_point :: "('s, 'g) index \<Rightarrow> int \<Rightarrow> node_id \<Rightarrow> bool" where
  "has_point ix l n \<longleftrightarrow> view (ix_vs ix) n \<noteq> None \<or> (l > 0 \<and> map_of (ix_nodes ix) n \<noteq> None)"

lemma keeps_point: "keeps ix ix' \<Longrightarrow> has_point ix' = has_point ix"
  by (simp add: has_point_def keeps_seen fun_eq_iff)

lemma wp_getDistance:
  assumes "ok ix" "has_point ix l n" "length q = ev_dim E"
  shows "wp (getDistance E q l n) ix
    (\<lambda>r ix'. r = layer_dist E view ix q l n \<and> keeps ix ix' \<and> ix_scratch ix' = ix_scratch ix) (bad ix)"
proof -
  have disk: "wp (bnd (readVector E n) (computeDistance E q)) ix
      (\<lambda>r ix'. r = ev_dist E q (the (view (ix_vs ix) n)) \<and> keeps ix ix' \<and> ix_scratch ix' = ix_scratch ix) (bad ix)"
    if v: "view (ix_vs ix) n \<noteq> None"
  proof -
    obtain v where v: "view (ix_vs ix) n = Some v" using v by blast
    show ?thesis
      by (rule wp_bnd, rule wp_conseq [OF wp_readVector [OF assms(1) v]])
        (use assms(3) view_dim [OF assms(1) v] v in \<open>auto intro!: wp_computeDistance\<close>)
  qed
  show ?thesis
  proof (cases "map_of (ix_nodes ix) n")
    case None
    then show ?thesis using disk assms(2)
      by (simp add: getDistance_def findNode_def wp_bnd wp_get layer_dist_def layer_point_def has_point_def)
  next
    case (Some nd)
    then have len: "length (nodePointView E nd) = ev_dim E"
      using assms(1) by (auto simp: index_ok_def nodes_ok_def)
    show ?thesis
    proof (cases "l > 0")
      case True
      then show ?thesis using Some len assms
        by (auto simp: getDistance_def findNode_def layer_dist_def layer_point_def keeps_refl
            intro!: wp_bnd wp_get wp_computeDistance)
    next
      case False
      then show ?thesis using disk Some assms(2)
        by (simp add: getDistance_def findNode_def wp_bnd wp_get layer_dist_def layer_point_def has_point_def)
    qed
  qed
qed


subsection \<open>Layer-0 adjacency\<close>

lemma keeps_cache:
  "ok ix \<Longrightarrow> cache_ok (ev_varint E) (adj (ix_gs ix)) (view (ix_vs ix)) (Some c) \<Longrightarrow> keeps ix (ix\<lparr>ix_cache := Some c\<rparr>)"
  by (simp add: keeps_def index_ok_def seen_def)

lemma wp_dropUnlocatable:
  assumes "ok ix"
  shows "wp (dropUnlocatable E ns) ix (\<lambda>r ix'. r = filter (\<lambda>m. view (ix_vs ix) m \<noteq> None) ns
    \<and> keeps ix ix' \<and> ix_scratch ix' = ix_scratch ix) Q"
proof -
  have "inv (ix_vs ix)" using assms by (simp add: index_ok_def)
  then have "filter (\<lambda>n. vs_has_location (ev_vs E) n (ix_vs ix)) ns = filter (\<lambda>m. view (ix_vs ix) m \<noteq> None) ns"
    using vs.location_law by simp
  moreover have "keeps ix (ix\<lparr>ix_dangling := x\<rparr>)" for x
    using assms by (simp add: keeps_def index_ok_def seen_def)
  ultimately show ?thesis using keeps_refl [OF assms]
    by (simp add: dropUnlocatable_def Let_def wp_def upd_def)
qed

lemma view_valid: "ok ix \<Longrightarrow> view (ix_vs ix) n \<noteq> None \<Longrightarrow> n \<noteq> k_invalid_node_id"
  by (auto simp: index_ok_def)

lemma wp_cacheGet:
  assumes "ok ix" "view (ix_vs ix) n \<noteq> None"
  shows "wp (cacheGet E n) ix (\<lambda>r ix'. (r = None \<or> r = Some (adj (ix_gs ix) n)) \<and> keeps ix ix' \<and> ix_scratch ix' = ix_scratch ix) Q"
proof (cases "ix_cache ix")
  case None
  then show ?thesis using keeps_refl [OF assms(1)] by (simp add: cacheGet_def wp_def)
next
  case (Some c)
  have coh: "edge_cache_ok (ev_varint E) c" "ec_view (ev_varint E) c \<subseteq>\<^sub>m (\<lambda>k. if view (ix_vs ix) k = None then None else Some (adj (ix_gs ix) k))"
    using assms(1) Some by (simp_all add: index_ok_def cache_ok_def)
  obtain c1 where g: "ec_get (ev_varint E) n c = Some (ec_view (ev_varint E) c n, c1)"
    "edge_cache_ok (ev_varint E) c1" "ec_view (ev_varint E) c1 = ec_view (ev_varint E) c"
    using ec.get_law [OF coh(1) view_valid [OF assms]] by blast
  have "keeps ix (ix\<lparr>ix_cache := Some c1\<rparr>)"
    using keeps_cache [OF assms(1)] g coh by (simp add: cache_ok_def)
  moreover have "ec_view (ev_varint E) c n = None \<or> ec_view (ev_varint E) c n = Some (adj (ix_gs ix) n)"
    using map_le_some [OF coh(2), of n] assms(2) by (cases "ec_view (ev_varint E) c n") auto
  ultimately show ?thesis using Some g(1) by (simp add: cacheGet_def wp_def)
qed

lemma wp_cachePut:
  assumes "ok ix" "view (ix_vs ix) n \<noteq> None"
  shows "wp (cachePut E n (adj (ix_gs ix) n)) ix (\<lambda>_ ix'. keeps ix ix' \<and> ix_scratch ix' = ix_scratch ix) Q"
proof (cases "ix_cache ix")
  case None
  then show ?thesis using keeps_refl [OF assms(1)] by (simp add: cachePut_def wp_def)
next
  case (Some c)
  have coh: "edge_cache_ok (ev_varint E) c" "ec_view (ev_varint E) c \<subseteq>\<^sub>m (\<lambda>k. if view (ix_vs ix) k = None then None else Some (adj (ix_gs ix) k))"
    using assms(1) Some by (simp_all add: index_ok_def cache_ok_def)
  obtain c2 where p: "ec_put (ev_varint E) n (adj (ix_gs ix) n) c = Some c2" "edge_cache_ok (ev_varint E) c2"
    "ec_view (ev_varint E) c2 \<subseteq>\<^sub>m (ec_view (ev_varint E) c)(n \<mapsto> adj (ix_gs ix) n)"
    using ec.put_law [OF coh(1) view_valid [OF assms]] by blast
  have "ec_view (ev_varint E) c2 \<subseteq>\<^sub>m (\<lambda>k. if view (ix_vs ix) k = None then None else Some (adj (ix_gs ix) k))"
  proof (rule map_leI)
    fix k v assume "ec_view (ev_varint E) c2 k = Some v"
    then have "((ec_view (ev_varint E) c)(n \<mapsto> adj (ix_gs ix) n)) k = Some v" by (rule map_le_some [OF p(3)])
    then show "(if view (ix_vs ix) k = None then None else Some (adj (ix_gs ix) k)) = Some v"
      using map_le_some [OF coh(2), of k v] assms(2) by (auto split: if_splits)
  qed
  then have "keeps ix (ix\<lparr>ix_cache := Some c2\<rparr>)"
    using keeps_cache [OF assms(1)] p by (simp add: cache_ok_def)
  then show ?thesis using Some p(1) by (simp add: cachePut_def wp_def)
qed

lemma wp_getEdgesCached:
  assumes "ok ix" "view (ix_vs ix) n \<noteq> None"
  shows "wp (getEdgesCached E n) ix
    (\<lambda>r ix'. r = layer_links view adj ix 0 n \<and> keeps ix ix' \<and> ix_scratch ix' = ix_scratch ix) Q"
proof -
  have drop: "wp (dropUnlocatable E (adj (ix_gs ix) n)) ix'
      (\<lambda>r ix''. r = layer_links view adj ix 0 n \<and> keeps ix ix'' \<and> ix_scratch ix'' = ix_scratch ix) Q"
    if "keeps ix ix'" "ix_scratch ix' = ix_scratch ix" for ix'
    by (rule wp_conseq [OF wp_dropUnlocatable [OF keeps_seen(11) [OF that(1)]]])
      (use that keeps_seen(1) [OF that(1)] in \<open>auto simp: layer_links_def intro: keeps_trans\<close>)
  have load: "wp (bnd (get (\<lambda>ix. gs_GetOutEdges (ev_gs E) n (ix_gs ix))) (\<lambda>r. case r of
        Inl _ \<Rightarrow> bnd (modify (ix_corrupt_update (\<lambda>_. True))) (\<lambda>_. ret [])
      | Inr ns \<Rightarrow> bnd (cachePut E n ns) (\<lambda>_. dropUnlocatable E ns))) ix'
      (\<lambda>r ix''. r = layer_links view adj ix 0 n \<and> keeps ix ix'' \<and> ix_scratch ix'' = ix_scratch ix) Q"
    if k: "keeps ix ix'" "ix_scratch ix' = ix_scratch ix" for ix'
  proof -
    have "gs_GetOutEdges (ev_gs E) n (ix_gs ix') = Inr (adj (ix_gs ix) n)"
      using assms(1) gs.sound_get by (simp add: index_ok_def keeps_seen(3) [OF k(1)])
    moreover have "wp (cachePut E n (adj (ix_gs ix) n)) ix' (\<lambda>_ ix''. wp (dropUnlocatable E (adj (ix_gs ix) n)) ix''
      (\<lambda>r ix''. r = layer_links view adj ix 0 n \<and> keeps ix ix'' \<and> ix_scratch ix'' = ix_scratch ix) Q) Q"
      by (rule wp_conseq [OF wp_cachePut [OF keeps_seen(11) [OF k(1)], of n, unfolded keeps_seen(1,3) [OF k(1)], OF assms(2)]]) (use k in \<open>auto intro!: drop intro: keeps_trans\<close>)
    ultimately show ?thesis by (auto intro!: wp_bnd wp_get)
  qed
  show ?thesis
    unfolding getEdgesCached_def
    by (rule wp_bnd, rule wp_conseq [OF wp_cacheGet [OF assms]]) (auto intro!: drop load)
qed

subsection \<open>The visited set\<close>

lemma wp_visit:
  assumes "ok ix" "started E ix"
  shows "wp (visit E n) ix (\<lambda>new ix'. new = (n \<notin> marks E ix) \<and> keeps ix ix' \<and> started E ix'
    \<and> marks E ix' = insert n (marks E ix)) Q"
proof -
  obtain new sc where v: "visitedInsert (ev_dense E) n (ix_scratch ix) = (new, sc)" by force
  note V = visitedInsert_any [OF assms(2), of n, unfolded v fst_conv snd_conv]
  from V(3) have "keeps ix (ix\<lparr>ix_scratch := sc\<rparr>)"
    using assms(1) by (simp add: keeps_def index_ok_def seen_def scratch_started_def)
  with V v show ?thesis by (simp add: wp_def visit_def upd_def)
qed

lemma wp_begin:
  assumes "ok ix"
  shows "wp (beginSearchIx E) ix (\<lambda>_ ix'. keeps ix ix' \<and> started E ix' \<and> marks E ix' = {}) Q"
proof -
  have s: "scratch_ok (ev_dense E) (ix_scratch ix)" using assms by (simp add: index_ok_def)
  note B = beginSearch_ok [OF s]
  from B(1) assms show ?thesis
    by (auto simp: wp_def beginSearchIx_def modify_def keeps_def index_ok_def seen_def B(2) scratch_started_def)
qed


subsection \<open>The search of a layer is the beam search\<close>

lemma wp_searchOne:
  assumes "ok ix" "started E ix" "has_point ix l n" "length q = ev_dim E"
  shows "wp (searchOne E q ef l n cw) ix
    (\<lambda>r ix'. r = (if n \<in> marks E ix then cw else offer ef (layer_dist E view ix q l n) n cw)
      \<and> keeps ix ix' \<and> started E ix' \<and> marks E ix' = insert n (marks E ix)) (bad ix)"
  unfolding searchOne_def
proof (rule wp_seq [OF wp_visit [OF assms(1,2)]])
  fix new ix1
  assume v: "new = (n \<notin> marks E ix) \<and> keeps ix ix1 \<and> started E ix1 \<and> marks E ix1 = insert n (marks E ix)"
  then have k: "keeps ix ix1" by simp
  have D: "wp (getDistance E q l n) ix1
    (\<lambda>r ix'. r = layer_dist E view ix1 q l n \<and> keeps ix1 ix' \<and> ix_scratch ix' = ix_scratch ix1) (bad ix1)"
    using assms keeps_point [OF k] by (intro wp_getDistance keeps_seen(11) [OF k]) simp_all
  show "wp (if new then bnd (getDistance E q l n) (\<lambda>d. ret (offer ef d n cw)) else ret cw) ix1
    (\<lambda>r ix'. r = (if n \<in> marks E ix then cw else offer ef (layer_dist E view ix q l n) n cw)
      \<and> keeps ix ix' \<and> started E ix' \<and> marks E ix' = insert n (marks E ix)) (bad ix)"
  proof (rule wp_if)
    assume new
    show "wp (bnd (getDistance E q l n) (\<lambda>d. ret (offer ef d n cw))) ix1
      (\<lambda>r ix'. r = (if n \<in> marks E ix then cw else offer ef (layer_dist E view ix q l n) n cw)
        \<and> keeps ix ix' \<and> started E ix' \<and> marks E ix' = insert n (marks E ix)) (bad ix)"
    proof (rule wp_seq [OF D])
      fix d ix2
      assume d: "d = layer_dist E view ix1 q l n \<and> keeps ix1 ix2 \<and> ix_scratch ix2 = ix_scratch ix1"
      then have "keeps ix ix2" using k keeps_trans by blast
      then show "wp (ret (offer ef d n cw)) ix2
        (\<lambda>r ix'. r = (if n \<in> marks E ix then cw else offer ef (layer_dist E view ix q l n) n cw)
          \<and> keeps ix ix' \<and> started E ix' \<and> marks E ix' = insert n (marks E ix)) (bad ix)"
        using d v \<open>new\<close> by (intro wp_ret) (simp add: keeps_seen(10) [OF k])
    qed (rule keeps_bad [OF k])
  next
    assume "\<not> new"
    then show "wp (ret cw) ix1
      (\<lambda>r ix'. r = (if n \<in> marks E ix then cw else offer ef (layer_dist E view ix q l n) n cw)
        \<and> keeps ix ix' \<and> started E ix' \<and> marks E ix' = insert n (marks E ix)) (bad ix)"
      using v by (intro wp_ret) simp
  qed
qed (rule keeps_bad [OF keeps_refl [OF assms(1)]])

text \<open>The neighbours one by one: the new ones are offered, all are marked.\<close>

definition offers :: "('s, 'g) index \<Rightarrow> vec \<Rightarrow> nat \<Rightarrow> int \<Rightarrow> node_id list \<Rightarrow> cand list \<times> cand list \<Rightarrow> cand list \<times> cand list" where
  "offers ix q ef l ns cw = fold (\<lambda>n. offer ef (layer_dist E view ix q l n) n) ns cw"

lemma keeps_offers: "keeps ix ix' \<Longrightarrow> offers ix' = offers ix"
  by (simp add: offers_def fun_eq_iff keeps_seen(10))

lemma wp_searchEach:
  assumes "ok ix" "started E ix" "\<forall>n \<in> set ns. has_point ix l n" "length q = ev_dim E"
  shows "wp (for_each ns (searchOne E q ef l) cw) ix
    (\<lambda>r ix'. r = offers ix q ef l (fresh (marks E ix) ns) cw
      \<and> keeps ix ix' \<and> started E ix' \<and> marks E ix' = marks E ix \<union> set ns) (bad ix)"
  using assms(1-3)
proof (induction ns arbitrary: ix cw)
  case Nil
  then show ?case by (auto intro!: wp_ret simp: keeps_refl offers_def)
next
  case (Cons n ns)
  have p: "has_point ix l n" using Cons.prems(3) by simp
  show ?case
    unfolding for_each.simps
  proof (rule wp_seq [OF wp_searchOne [OF Cons.prems(1,2) p assms(4)]])
    fix cw1 ix1
    assume s: "cw1 = (if n \<in> marks E ix then cw else offer ef (layer_dist E view ix q l n) n cw)
      \<and> keeps ix ix1 \<and> started E ix1 \<and> marks E ix1 = insert n (marks E ix)"
    then have k: "keeps ix ix1" and st: "started E ix1" by simp_all
    have "wp (for_each ns (searchOne E q ef l) cw1) ix1
      (\<lambda>r ix'. r = offers ix1 q ef l (fresh (marks E ix1) ns) cw1
        \<and> keeps ix1 ix' \<and> started E ix' \<and> marks E ix' = marks E ix1 \<union> set ns) (bad ix1)"
      using Cons.prems(3) keeps_point [OF k] by (intro Cons.IH keeps_seen(11) [OF k] st) simp
    then show "wp (for_each ns (searchOne E q ef l) cw1) ix1
      (\<lambda>r ix'. r = offers ix q ef l (fresh (marks E ix) (n # ns)) cw
        \<and> keeps ix ix' \<and> started E ix' \<and> marks E ix' = marks E ix \<union> set (n # ns)) (bad ix)"
      by (rule wp_conseq)
        (use s k in \<open>auto simp: offers_def keeps_seen(10) [OF k] insert_absorb intro: keeps_trans keeps_bad\<close>)
  qed simp
qed

lemma layer0_dist: "l \<le> 0 \<Longrightarrow> layer_dist E view ix q l n = ev_dist E q (the (view (ix_vs ix) n))"
  by (simp add: layer_dist_def layer_point_def split: option.splits)

lemma wp_collect:
  assumes "ok ix" "started E ix"
  shows "wp (for_each ns (\<lambda>n us. bnd (visit E n) (\<lambda>new. ret (if new then us @ [n] else us))) us) ix
    (\<lambda>r ix'. r = us @ fresh (marks E ix) ns \<and> keeps ix ix' \<and> started E ix' \<and> marks E ix' = marks E ix \<union> set ns) Q"
  using assms
proof (induction ns arbitrary: ix us)
  case Nil
  then show ?case by (auto intro!: wp_ret simp: keeps_refl)
next
  case (Cons n ns)
  show ?case
    unfolding for_each.simps
  proof (intro wp_bnd, rule wp_conseq [OF wp_visit [OF Cons.prems]], intro wp_ret)
    fix new ix1
    assume s: "new = (n \<notin> marks E ix) \<and> keeps ix ix1 \<and> started E ix1 \<and> marks E ix1 = insert n (marks E ix)"
    then have k: "keeps ix ix1" and st: "started E ix1" by simp_all
    show "wp (for_each ns (\<lambda>n us. bnd (visit E n) (\<lambda>new. ret (if new then us @ [n] else us)))
        (if new then us @ [n] else us)) ix1
      (\<lambda>r ix'. r = us @ fresh (marks E ix) (n # ns) \<and> keeps ix ix' \<and> started E ix'
        \<and> marks E ix' = marks E ix \<union> set (n # ns)) Q"
      by (rule wp_conseq [OF Cons.IH [OF keeps_seen(11) [OF k] st]])
        (use s k in \<open>auto simp: insert_absorb intro: keeps_trans\<close>)
  qed
qed

lemma wp_zipOffers:
  assumes "length q = ev_dim E" "\<forall>n \<in> set ns. length (f n) = ev_dim E"
  shows "wp (for_each (zip ns (map f ns)) (\<lambda>(n, v) cw. bnd (computeDistance E q v) (\<lambda>d. ret (offer ef d n cw))) cw) ix
    (\<lambda>r ix'. r = fold (\<lambda>n. offer ef (ev_dist E q (f n)) n) ns cw \<and> ix' = ix) Q"
  using assms(2)
proof (induction ns arbitrary: cw)
  case Nil
  then show ?case by (simp add: wp_ret)
next
  case (Cons n ns)
  from Cons.prems assms(1) show ?case by (auto intro!: wp_bnd wp_computeDistance wp_ret Cons.IH simp del: split_paired_All)
qed


lemma wp_searchBatch:
  assumes "ok ix" "started E ix" "\<forall>n \<in> set ns. view (ix_vs ix) n \<noteq> None" "length q = ev_dim E" "l \<le> 0"
  shows "wp (searchBatch E q ef ns cw) ix
    (\<lambda>r ix'. r = offers ix q ef l (fresh (marks E ix) ns) cw
      \<and> keeps ix ix' \<and> started E ix' \<and> marks E ix' = marks E ix \<union> set ns) (bad ix)"
  unfolding searchBatch_def
proof (rule wp_seq [OF wp_collect [OF assms(1,2)]])
  fix us ix1
  assume s: "us = [] @ fresh (marks E ix) ns \<and> keeps ix ix1 \<and> started E ix1 \<and> marks E ix1 = marks E ix \<union> set ns"
  then have k: "keeps ix ix1" by simp
  let ?f = "\<lambda>n. the (view (ix_vs ix) n)"
  have us: "\<forall>n \<in> set us. view (ix_vs ix1) n \<noteq> None"
    using s assms(3) by (auto simp: set_fresh keeps_seen(1) [OF k])
  show "wp (if us = [] then ret cw else bnd (readVectorsBatchFlat E us) (\<lambda>vs.
      for_each (zip us vs) (\<lambda>(n, v) cw. bnd (computeDistance E q v) (\<lambda>d. ret (offer ef d n cw))) cw)) ix1
    (\<lambda>r ix'. r = offers ix q ef l (fresh (marks E ix) ns) cw
      \<and> keeps ix ix' \<and> started E ix' \<and> marks E ix' = marks E ix \<union> set ns) (bad ix)"
  proof (rule wp_if)
    assume "us = []"
    then show "wp (ret cw) ix1 (\<lambda>r ix'. r = offers ix q ef l (fresh (marks E ix) ns) cw
      \<and> keeps ix ix' \<and> started E ix' \<and> marks E ix' = marks E ix \<union> set ns) (bad ix)"
      using s by (intro wp_ret) (simp add: offers_def)
  next
    show "wp (bnd (readVectorsBatchFlat E us) (\<lambda>vs.
        for_each (zip us vs) (\<lambda>(n, v) cw. bnd (computeDistance E q v) (\<lambda>d. ret (offer ef d n cw))) cw)) ix1
      (\<lambda>r ix'. r = offers ix q ef l (fresh (marks E ix) ns) cw
        \<and> keeps ix ix' \<and> started E ix' \<and> marks E ix' = marks E ix \<union> set ns) (bad ix)"
    proof (rule wp_seq [OF wp_readBatch [OF keeps_seen(11) [OF k] us]])
      fix vs ix2
      assume v: "vs = map (\<lambda>n. the (view (ix_vs ix1) n)) us \<and> keeps ix1 ix2 \<and> ix_scratch ix2 = ix_scratch ix1"
      have len: "\<forall>n \<in> set us. length (?f n) = ev_dim E"
        using us view_dim [OF assms(1)] by (auto simp: keeps_seen(1) [OF k])
      have k2: "keeps ix ix2" using k v keeps_trans by blast
      have vs: "vs = map ?f us" using v by (simp add: keeps_seen(1) [OF k])
      show "wp (for_each (zip us vs) (\<lambda>(n, v) cw. bnd (computeDistance E q v) (\<lambda>d. ret (offer ef d n cw))) cw) ix2
        (\<lambda>r ix'. r = offers ix q ef l (fresh (marks E ix) ns) cw
          \<and> keeps ix ix' \<and> started E ix' \<and> marks E ix' = marks E ix \<union> set ns) (bad ix)"
        unfolding vs by (rule wp_conseq [OF wp_zipOffers [OF assms(4) len, where Q = "bad ix"]])
          (use k2 v s in \<open>auto simp: offers_def layer0_dist [OF assms(5)]\<close>)
    qed (rule keeps_bad [OF k])
  qed
qed simp

text \<open>One turn of the loop is \<open>relax\<close>.\<close>

lemma wp_searchExpand:
  assumes "ok ix" "started E ix" "0 \<le> l" "view (ix_vs ix) n \<noteq> None \<or> 0 < l"
    "\<forall>m \<in> set (layer_links view adj ix l n). has_point ix l m" "length q = ev_dim E"
  shows "wp (searchExpand E q ef l n cw) ix
    (\<lambda>r ix'. (fst r, snd r, marks E ix') = relax (layer_dist E view ix q l) ef (layer_links view adj ix l n) (fst cw, snd cw, marks E ix)
      \<and> keeps ix ix' \<and> started E ix') (bad ix)"
proof -
  let ?ns = "layer_links view adj ix l n"
  let ?r = "offers ix q ef l (fresh (marks E ix) ?ns) cw"
  have post: "(fst ?r, snd ?r, marks E ix \<union> set ?ns)
      = relax (layer_dist E view ix q l) ef ?ns (fst cw, snd cw, marks E ix)"
    by (simp add: relax_def offers_def split: prod.splits)
  show ?thesis
  proof (cases "l > 0")
    case True
    have each: "wp (for_each ?ns (searchOne E q ef l) cw) ix
        (\<lambda>r ix'. (fst r, snd r, marks E ix') = relax (layer_dist E view ix q l) ef ?ns (fst cw, snd cw, marks E ix)
          \<and> keeps ix ix' \<and> started E ix') (bad ix)"
      by (rule wp_conseq [OF wp_searchEach [OF assms(1,2,5,6)]]) (auto simp: post)
    have none: "wp (ret cw) ix
        (\<lambda>r ix'. (fst r, snd r, marks E ix') = relax (layer_dist E view ix q l) ef ?ns (fst cw, snd cw, marks E ix)
          \<and> keeps ix ix' \<and> started E ix') (bad ix)" if "?ns = []"
      using assms(1,2) that by (auto intro!: wp_ret simp: relax_def keeps_refl)
    show ?thesis
      using True each none
      by (auto simp: searchExpand_def findNode_def layer_links_def intro!: wp_bnd wp_get split: option.splits)
  next
    case False
    with assms have l: "l = 0" and n: "view (ix_vs ix) n \<noteq> None" by auto
    show ?thesis
      unfolding searchExpand_def if_not_P [OF False]
    proof (rule wp_seq [OF wp_getEdgesCached [OF assms(1) n]])
      fix ns ix1
      assume s: "ns = layer_links view adj ix 0 n \<and> keeps ix ix1 \<and> ix_scratch ix1 = ix_scratch ix"
      then have k: "keeps ix ix1" and sc: "started E ix1" "marks E ix1 = marks E ix" and ns: "ns = ?ns"
        using assms(2) l by simp_all
      have v: "\<forall>m \<in> set ns. view (ix_vs ix1) m \<noteq> None" "\<forall>m \<in> set ns. has_point ix1 l m"
        using ns l by (auto simp: layer_links_def keeps_seen(1) [OF k] has_point_def)
      have R: "wp m ix1 (\<lambda>r ix'. (fst r, snd r, marks E ix') = relax (layer_dist E view ix q l) ef ?ns (fst cw, snd cw, marks E ix)
          \<and> keeps ix ix' \<and> started E ix') (bad ix)"
        if "wp m ix1 (\<lambda>r ix'. r = offers ix1 q ef l (fresh (marks E ix1) ns) cw
          \<and> keeps ix1 ix' \<and> started E ix' \<and> marks E ix' = marks E ix1 \<union> set ns) (bad ix1)" for m
        using that by (rule wp_conseq)
          (use sc k ns in \<open>auto simp: keeps_offers [OF k] post intro: keeps_trans keeps_bad\<close>)
      show "wp (if ev_batch E then searchBatch E q ef ns cw else for_each ns (searchOne E q ef l) cw) ix1
        (\<lambda>r ix'. (fst r, snd r, marks E ix') = relax (layer_dist E view ix q l) ef ?ns (fst cw, snd cw, marks E ix)
          \<and> keeps ix ix' \<and> started E ix') (bad ix)"
        using R [OF wp_searchBatch [OF keeps_seen(11) [OF k] sc(1) v(1) assms(6)]]
          R [OF wp_searchEach [OF keeps_seen(11) [OF k] sc(1) v(2) assms(6)]] l by simp
    qed
  qed
qed


lemma offers_cands:
  "fold (\<lambda>n. offer ef (d n) n) ns (c, w) = (c', w') \<Longrightarrow> snd ` set c' \<subseteq> snd ` set c \<union> set ns"
proof (induction ns arbitrary: c w)
  case (Cons n ns)
  obtain c1 w1 where o: "offer ef (d n) n (c, w) = (c1, w1)" by force
  have "snd ` set c1 \<subseteq> insert n (snd ` set c)" using o by (auto simp: offer_def split: if_splits)
  moreover have "fold (\<lambda>n. offer ef (d n) n) ns (c1, w1) = (c', w')" using Cons.prems o by simp
  note Cons.IH [OF this]
  ultimately show ?case by simp blast
qed simp

lemma relax_cands:
  assumes "relax d ef ns (c, w, V) = (c', w', V')"
  shows "snd ` set c' \<subseteq> snd ` set c \<union> set ns" "V' = V \<union> set ns"
proof -
  obtain c1 w1 where f: "fold (\<lambda>n. offer ef (d n) n) (fresh V ns) (c, w) = (c1, w1)" by force
  then have "c' = c1" "V' = V \<union> set ns" using assms by (simp_all add: relax_def)
  then show "snd ` set c' \<subseteq> snd ` set c \<union> set ns" "V' = V \<union> set ns" using offers_cands [OF f] by (auto simp: set_fresh)
qed

lemma wp_searchLoop:
  assumes "ok ix" "started E ix" "0 \<le> l" "length q = ev_dim E"
    and "snd ` set c \<subseteq> S" "\<forall>n \<in> S. set (layer_links view adj ix l n) \<subseteq> S" "\<forall>n \<in> S. has_point ix l n"
  shows "wp (searchLoop E q ef l c w) ix
    (\<lambda>r ix'. r = fst (snd (beam (layer_links view adj ix l) (layer_dist E view ix q l) ef (c, w, marks E ix))) \<and> keeps ix ix') (bad ix)"
  using assms
proof (induction "layer_links view adj ix l" "layer_dist E view ix q l" ef "(c, w, marks E ix)"
    arbitrary: c w ix rule: beam.induct)
  case (1 ef w ix)
  then show ?case by (simp add: wp_def searchLoop.simps keeps_refl)
next
  case (2 ef k n c w ix)
  note prems = 2(2-8)
  let ?nb = "layer_links view adj ix l" and ?d = "layer_dist E view ix q l"
  show ?case
  proof (cases "w \<noteq> [] \<and> - k > fst (hd w)")
    case True
    then show ?thesis using keeps_refl [OF prems(1)] by (simp add: wp_def searchLoop.simps)
  next
    case False
    have n: "n \<in> S" using prems(5) by simp
    then have n': "view (ix_vs ix) n \<noteq> None \<or> 0 < l" "\<forall>m \<in> set (?nb n). has_point ix l m"
      using prems(6,7) by (auto simp: has_point_def)
    have "wp (bnd (searchExpand E q ef l n (c, w)) (\<lambda>cw. searchLoop E q ef l (fst cw) (snd cw))) ix
      (\<lambda>r ix'. r = fst (snd (beam ?nb ?d ef (relax ?d ef (?nb n) (c, w, marks E ix)))) \<and> keeps ix ix') (bad ix)"
    proof (rule wp_seq [OF wp_searchExpand [OF prems(1,2,3) n' prems(4)]])
      fix cw ix1
      assume s: "(fst cw, snd cw, marks E ix1) = relax ?d ef (?nb n) (fst (c, w), snd (c, w), marks E ix)
        \<and> keeps ix ix1 \<and> started E ix1"
      then have k: "keeps ix ix1" and st: "started E ix1"
        and r: "relax ?d ef (?nb n) (c, w, marks E ix) = (fst cw, snd cw, marks E ix1)" by simp_all
      have "snd ` set c \<subseteq> S" "set (?nb n) \<subseteq> S" using prems(5,6) n by auto
      then have "snd ` set (fst cw) \<subseteq> S" using relax_cands(1) [OF r] by blast
      then have "wp (searchLoop E q ef l (fst cw) (snd cw)) ix1
        (\<lambda>r ix'. r = fst (snd (beam (layer_links view adj ix1 l) (layer_dist E view ix1 q l) ef (fst cw, snd cw, marks E ix1)))
          \<and> keeps ix1 ix') (bad ix1)"
        using prems(3-7) r k
        by (intro 2(1) [OF False _ _ _ keeps_seen(11) [OF k] st]) (simp_all add: keeps_seen [OF k] keeps_point [OF k])
      then show "wp (searchLoop E q ef l (fst cw) (snd cw)) ix1
        (\<lambda>r ix'. r = fst (snd (beam ?nb ?d ef (relax ?d ef (?nb n) (c, w, marks E ix)))) \<and> keeps ix ix') (bad ix)"
        unfolding keeps_seen(8,10) [OF k] r
        by (rule wp_conseq) (use k in \<open>auto intro: keeps_trans keeps_bad\<close>)
    qed simp
    note turn = this
    have l: "searchLoop E q ef l ((k, n) # c) w ix
        = bnd (searchExpand E q ef l n (c, w)) (\<lambda>cw. searchLoop E q ef l (fst cw) (snd cw)) ix"
      by (subst searchLoop.simps) (simp only: list.case prod.case if_not_P [OF False])
    have b: "beam ?nb ?d ef ((k, n) # c, w, marks E ix) = beam ?nb ?d ef (relax ?d ef (?nb n) (c, w, marks E ix))"
      by (simp only: beam.simps if_not_P [OF False])
    show ?thesis unfolding b by (rule wp_state, rule l, rule turn)
  qed
qed

text \<open>A search of a layer returns what \<open>beam_result\<close> specifies.\<close>

lemma wp_searchLayer:
  assumes "ok ix" "0 \<le> l" "0 < ef" "length q = ev_dim E"
    and "\<forall>n \<in> reach (layer_links view adj ix l) e. has_point ix l n"
  shows "wp (searchLayer E q e ef l) ix
    (\<lambda>r ix'. beam_result (layer_links view adj ix l) (layer_dist E view ix q l) (nat ef) e r \<and> keeps ix ix') (bad ix)"
proof -
  let ?nb = "layer_links view adj ix l" and ?d = "layer_dist E view ix q l"
  have body: "wp (bnd (getDistance E q l e) (\<lambda>d. bnd (visit E e) (\<lambda>_.
      bnd (searchLoop E q (nat ef) l [(- d, e)] [(d, e)]) (\<lambda>w. ret (answer w))))) ix1
    (\<lambda>r ix'. beam_result ?nb ?d (nat ef) e r \<and> keeps ix ix') (bad ix)"
    if k: "keeps ix ix1" and st: "started E ix1" and m: "marks E ix1 = {}" for ix1
  proof -
    have he: "has_point ix1 l e" using assms(5) reach_refl by (simp add: keeps_point [OF k])
    show ?thesis
    proof (rule wp_seq [OF wp_getDistance [OF keeps_seen(11) [OF k] he assms(4)]])
      fix d ix2
      assume d: "d = layer_dist E view ix1 q l e \<and> keeps ix1 ix2 \<and> ix_scratch ix2 = ix_scratch ix1"
      then have k2: "keeps ix ix2" and st2: "started E ix2" and m2: "marks E ix2 = {}" and d: "d = ?d e"
        using k st m keeps_trans by (auto simp: keeps_seen(10) [OF k])
      show "wp (bnd (visit E e) (\<lambda>_. bnd (searchLoop E q (nat ef) l [(- d, e)] [(d, e)]) (\<lambda>w. ret (answer w)))) ix2
        (\<lambda>r ix'. beam_result ?nb ?d (nat ef) e r \<and> keeps ix ix') (bad ix)"
      proof (rule wp_seq [OF wp_visit [OF keeps_seen(11) [OF k2] st2]])
        fix new ix3
        assume v: "new = (e \<notin> marks E ix2) \<and> keeps ix2 ix3 \<and> started E ix3 \<and> marks E ix3 = insert e (marks E ix2)"
        then have k3: "keeps ix ix3" and st3: "started E ix3" and m3: "marks E ix3 = {e}"
          using k2 m2 keeps_trans by auto
        have L: "wp (searchLoop E q (nat ef) l [(- d, e)] [(d, e)]) ix3
          (\<lambda>r ix'. r = fst (snd (beam_from ?nb ?d (nat ef) e)) \<and> keeps ix3 ix') (bad ix3)"
          using wp_searchLoop [OF keeps_seen(11) [OF k3] st3 assms(2,4), of "[(- d, e)]" "reach ?nb e" "nat ef" "[(d, e)]"]
            assms(5) reach_refl [of e ?nb] reach_step [of _ ?nb e]
          by (auto simp: beam_from_def m3 d keeps_seen [OF k3] keeps_point [OF k3])
        show "wp (bnd (searchLoop E q (nat ef) l [(- d, e)] [(d, e)]) (\<lambda>w. ret (answer w))) ix3
          (\<lambda>r ix'. beam_result ?nb ?d (nat ef) e r \<and> keeps ix ix') (bad ix)"
        proof (rule wp_seq [OF L])
          fix w ix4
          assume w: "w = fst (snd (beam_from ?nb ?d (nat ef) e)) \<and> keeps ix3 ix4"
          obtain c' w' V' where b: "beam_from ?nb ?d (nat ef) e = (c', w', V')" by (metis prod_cases3)
          have "beam_result ?nb ?d (nat ef) e (answer w)"
            using beam_from_result [OF _ b] assms(3) w b by simp
          then show "wp (ret (answer w)) ix4
            (\<lambda>r ix'. beam_result ?nb ?d (nat ef) e r \<and> keeps ix ix') (bad ix)"
            using w k3 keeps_trans by (intro wp_ret) blast
        qed (rule keeps_bad [OF k3])
      qed (simp)
    qed (rule keeps_bad [OF k])
  qed
  have "searchLayer E q e ef l = bnd (beginSearchIx E) (\<lambda>_. bnd (getDistance E q l e) (\<lambda>d. bnd (visit E e) (\<lambda>_.
      bnd (searchLoop E q (nat ef) l [(- d, e)] [(d, e)]) (\<lambda>w. ret (answer w)))))"
    using assms(2,3) by (simp add: searchLayer_def)
  then show ?thesis
    by (simp only:) (rule wp_seq [OF wp_begin [OF assms(1)]], rule body, auto)
qed


subsection \<open>Filtered search\<close>

lemma wp_diskDistance:
  assumes "ok ix" "view (ix_vs ix) n \<noteq> None" "length q = ev_dim E"
    and "\<And>ix'. keeps ix ix' \<Longrightarrow> ix_scratch ix' = ix_scratch ix \<Longrightarrow> wp (f (layer_dist E view ix q 0 n)) ix' P (bad ix)"
  shows "wp (bnd (readVector E n) (\<lambda>v. bnd (computeDistance E q v) f)) ix P (bad ix)"
proof -
  obtain v where v: "view (ix_vs ix) n = Some v" using assms(2) by blast
  show ?thesis
    by (rule wp_seq [OF wp_readVector [OF assms(1) v]])
      (use assms(3,4) view_dim [OF assms(1) v] v in \<open>auto simp: layer0_dist intro!: wp_bnd wp_computeDistance\<close>)
qed

definition filter_offers where
  "filter_offers ix q p docs k ns cr = fold (\<lambda>n. filter_offer k (layer_dist E view ix q 0 n) (node_matches p docs n) n) ns cr"

lemma keeps_filter_offers: "keeps ix ix' \<Longrightarrow> filter_offers ix' = filter_offers ix"
  by (simp add: filter_offers_def fun_eq_iff keeps_seen(10))

lemma wp_filterOne:
  assumes "ok ix" "started E ix" "view (ix_vs ix) n \<noteq> None" "length q = ev_dim E"
  shows "wp (filterOne E q p docs k n st) ix
    (\<lambda>r ix'. r = (filter_offers ix q p docs k (fresh (marks E ix) [n]) (fst st), snd st + length (fresh (marks E ix) [n]))
      \<and> keeps ix ix' \<and> started E ix' \<and> marks E ix' = insert n (marks E ix)) (bad ix)"
  unfolding filterOne_def
proof (rule wp_seq [OF wp_visit [OF assms(1,2)]])
  fix new ix1
  assume v: "new = (n \<notin> marks E ix) \<and> keeps ix ix1 \<and> started E ix1 \<and> marks E ix1 = insert n (marks E ix)"
  then have k: "keeps ix ix1" by simp
  have view: "view (ix_vs ix1) n \<noteq> None" using assms(3) by (simp add: keeps_seen(1) [OF k])
  show "wp (if \<not> new then ret st else bnd (readVector E n) (\<lambda>v. bnd (computeDistance E q v) (\<lambda>d.
      ret (filter_offer k d (node_matches p docs n) n (fst st), snd st + 1)))) ix1
    (\<lambda>r ix'. r = (filter_offers ix q p docs k (fresh (marks E ix) [n]) (fst st), snd st + length (fresh (marks E ix) [n]))
      \<and> keeps ix ix' \<and> started E ix' \<and> marks E ix' = insert n (marks E ix)) (bad ix)"
  proof (rule wp_if)
    assume "\<not> new"
    then show "wp (ret st) ix1
      (\<lambda>r ix'. r = (filter_offers ix q p docs k (fresh (marks E ix) [n]) (fst st), snd st + length (fresh (marks E ix) [n]))
        \<and> keeps ix ix' \<and> started E ix' \<and> marks E ix' = insert n (marks E ix)) (bad ix)"
      using v by (intro wp_ret) (simp add: filter_offers_def)
  next
    assume n: "\<not> \<not> new"
    show "wp (bnd (readVector E n) (\<lambda>v. bnd (computeDistance E q v) (\<lambda>d.
        ret (filter_offer k d (node_matches p docs n) n (fst st), snd st + 1)))) ix1
      (\<lambda>r ix'. r = (filter_offers ix q p docs k (fresh (marks E ix) [n]) (fst st), snd st + length (fresh (marks E ix) [n]))
        \<and> keeps ix ix' \<and> started E ix' \<and> marks E ix' = insert n (marks E ix)) (bad ix)"
    proof (rule wp_conseq)
      show "wp (bnd (readVector E n) (\<lambda>v. bnd (computeDistance E q v) (\<lambda>d.
          ret (filter_offer k d (node_matches p docs n) n (fst st), snd st + 1)))) ix1
        (\<lambda>r ix'. r = (filter_offer k (layer_dist E view ix q 0 n) (node_matches p docs n) n (fst st), snd st + 1)
          \<and> keeps ix1 ix' \<and> ix_scratch ix' = ix_scratch ix1) (bad ix1)"
        by (rule wp_diskDistance [OF keeps_seen(11) [OF k] view assms(4)]) (simp add: keeps_seen(10) [OF k] wp_ret)
    qed (use n v k in \<open>auto simp: filter_offers_def intro: keeps_trans keeps_bad\<close>)
  qed
qed simp

lemma wp_filterEach:
  assumes "ok ix" "started E ix" "\<forall>n \<in> set ns. view (ix_vs ix) n \<noteq> None" "length q = ev_dim E"
  shows "wp (for_each ns (filterOne E q p docs k) st) ix
    (\<lambda>r ix'. r = (filter_offers ix q p docs k (fresh (marks E ix) ns) (fst st), snd st + length (fresh (marks E ix) ns))
      \<and> keeps ix ix' \<and> started E ix' \<and> marks E ix' = marks E ix \<union> set ns) (bad ix)"
  using assms(1-3)
proof (induction ns arbitrary: ix st)
  case Nil
  then show ?case by (auto intro!: wp_ret simp: keeps_refl filter_offers_def)
next
  case (Cons n ns)
  have p: "view (ix_vs ix) n \<noteq> None" using Cons.prems(3) by simp
  show ?case
    unfolding for_each.simps
  proof (rule wp_seq [OF wp_filterOne [OF Cons.prems(1,2) p assms(4)]])
    fix st1 ix1
    assume s: "st1 = (filter_offers ix q p docs k (fresh (marks E ix) [n]) (fst st), snd st + length (fresh (marks E ix) [n]))
      \<and> keeps ix ix1 \<and> started E ix1 \<and> marks E ix1 = insert n (marks E ix)"
    then have k: "keeps ix ix1" and st: "started E ix1" by simp_all
    have "wp (for_each ns (filterOne E q p docs k) st1) ix1
      (\<lambda>r ix'. r = (filter_offers ix1 q p docs k (fresh (marks E ix1) ns) (fst st1), snd st1 + length (fresh (marks E ix1) ns))
        \<and> keeps ix1 ix' \<and> started E ix' \<and> marks E ix' = marks E ix1 \<union> set ns) (bad ix1)"
      using Cons.prems(3) by (intro Cons.IH keeps_seen(11) [OF k] st) (simp add: keeps_seen(1) [OF k])
    then show "wp (for_each ns (filterOne E q p docs k) st1) ix1
      (\<lambda>r ix'. r = (filter_offers ix q p docs k (fresh (marks E ix) (n # ns)) (fst st), snd st + length (fresh (marks E ix) (n # ns)))
        \<and> keeps ix ix' \<and> started E ix' \<and> marks E ix' = marks E ix \<union> set (n # ns)) (bad ix)"
      unfolding keeps_filter_offers [OF k]
      by (rule wp_conseq)
        (use s k in \<open>auto simp: filter_offers_def insert_absorb intro: keeps_trans keeps_bad\<close>)
  qed simp
qed

lemma wp_filterTurn:
  assumes "ok ix" "started E ix" "view (ix_vs ix) n \<noteq> None" "length q = ev_dim E"
  shows "wp (bnd (getEdgesCached E n) (\<lambda>ns. for_each ns (filterOne E q p docs k) ((c, r), scanned))) ix
    (\<lambda>st ix'. (fst (fst st), snd (fst st), snd st, marks E ix')
        = filter_relax (layer_dist E view ix q 0) (node_matches p docs) k (layer_links view adj ix 0 n) (c, r, scanned, marks E ix)
      \<and> keeps ix ix' \<and> started E ix') (bad ix)"
proof (rule wp_seq [OF wp_getEdgesCached [OF assms(1,3)]])
  let ?ns = "layer_links view adj ix 0 n"
  fix ns ix1
  assume s: "ns = ?ns \<and> keeps ix ix1 \<and> ix_scratch ix1 = ix_scratch ix"
  then have k: "keeps ix ix1" and st: "started E ix1" and m: "marks E ix1 = marks E ix" and ns: "ns = ?ns"
    using assms(2) by simp_all
  have v: "\<forall>m \<in> set ?ns. view (ix_vs ix1) m \<noteq> None" by (simp add: layer_links_def keeps_seen(1) [OF k])
  let ?r = "filter_offers ix q p docs k (fresh (marks E ix) ?ns) (c, r)"
  have post: "(fst ?r, snd ?r, scanned + length (fresh (marks E ix) ?ns), marks E ix \<union> set ?ns)
      = filter_relax (layer_dist E view ix q 0) (node_matches p docs) k ?ns (c, r, scanned, marks E ix)"
    by (simp add: filter_relax_def filter_offers_def split: prod.splits)
  show "wp (for_each ns (filterOne E q p docs k) ((c, r), scanned)) ix1
    (\<lambda>st ix'. (fst (fst st), snd (fst st), snd st, marks E ix')
        = filter_relax (layer_dist E view ix q 0) (node_matches p docs) k ?ns (c, r, scanned, marks E ix)
      \<and> keeps ix ix' \<and> started E ix') (bad ix)"
    unfolding ns
    by (rule wp_conseq [OF wp_filterEach [OF keeps_seen(11) [OF k] st v assms(4)]])
      (use k in \<open>auto simp: m keeps_filter_offers [OF k] post intro: keeps_trans keeps_bad\<close>)
qed


lemma filter_offers_cands:
  "fold (\<lambda>n. filter_offer k (d n) (m n) n) ns (c, r) = (c', r') \<Longrightarrow> snd ` set c' \<subseteq> snd ` set c \<union> set ns"
proof (induction ns arbitrary: c r)
  case (Cons n ns)
  obtain c1 r1 where o: "filter_offer k (d n) (m n) n (c, r) = (c1, r1)" by force
  have "snd ` set c1 \<subseteq> insert n (snd ` set c)" using o by (auto simp: filter_offer_def split: if_splits)
  moreover have "fold (\<lambda>n. filter_offer k (d n) (m n) n) ns (c1, r1) = (c', r')" using Cons.prems o by simp
  note Cons.IH [OF this]
  ultimately show ?case by simp blast
qed simp

lemma filter_relax_cands:
  assumes "filter_relax d m k ns (c, r, s, V) = (c', r', s', V')"
  shows "snd ` set c' \<subseteq> snd ` set c \<union> set ns"
proof -
  obtain c1 r1 where f: "fold (\<lambda>n. filter_offer k (d n) (m n) n) (fresh V ns) (c, r) = (c1, r1)" by force
  then have "c' = c1" using assms by (simp add: filter_relax_def)
  then show ?thesis using filter_offers_cands [OF f] by (auto simp: set_fresh)
qed

lemma wp_filterLoop:
  assumes "ok ix" "started E ix" "length q = ev_dim E" "snd ` set c \<subseteq> {n. view (ix_vs ix) n \<noteq> None}"
  shows "wp (filterLoop E q p docs k cap c r scanned) ix
    (\<lambda>res ix'. res = fst (snd (fst (filter_beam (layer_links view adj ix 0) (layer_dist E view ix q 0) (node_matches p docs)
        k cap (c, r, scanned, marks E ix)))) \<and> keeps ix ix') (bad ix)"
  using assms
proof (induction "layer_links view adj ix 0" "layer_dist E view ix q 0" "node_matches p docs" k cap "(c, r, scanned, marks E ix)"
    arbitrary: c r scanned ix rule: filter_beam.induct)
  case (1 k cap r scanned ix)
  then show ?case by (simp add: wp_def filterLoop.simps keeps_refl)
next
  case (2 k cap key n c r scanned ix)
  note prems = 2(2-5)
  let ?nb = "layer_links view adj ix 0" and ?d = "layer_dist E view ix q 0" and ?m = "node_matches p docs"
  let ?body = "bnd (getEdgesCached E n) (\<lambda>ns. for_each ns (filterOne E q p docs k) ((c, r), scanned))"
  show ?case
  proof (cases "(length r \<ge> k \<and> - key > fst (hd r)) \<or> scanned \<ge> cap")
    case True
    then show ?thesis using keeps_refl [OF prems(1)] by (auto simp: wp_def filterLoop.simps)
  next
    case False
    then have go: "\<not> (length r \<ge> k \<and> - key > fst (hd r))" "\<not> scanned \<ge> cap" by simp_all
    have n: "view (ix_vs ix) n \<noteq> None" using prems(4) by simp
    have turn: "wp (bnd ?body (\<lambda>st. filterLoop E q p docs k cap (fst (fst st)) (snd (fst st)) (snd st))) ix
      (\<lambda>res ix'. res = fst (snd (fst (filter_beam ?nb ?d ?m k cap (filter_relax ?d ?m k (?nb n) (c, r, scanned, marks E ix)))))
        \<and> keeps ix ix') (bad ix)"
    proof (rule wp_seq [OF wp_filterTurn [OF prems(1,2) n prems(3)]])
      fix st ix1
      assume s: "(fst (fst st), snd (fst st), snd st, marks E ix1) = filter_relax ?d ?m k (?nb n) (c, r, scanned, marks E ix)
        \<and> keeps ix ix1 \<and> started E ix1"
      then have k: "keeps ix ix1" and st: "started E ix1"
        and r: "filter_relax ?d ?m k (?nb n) (c, r, scanned, marks E ix) = (fst (fst st), snd (fst st), snd st, marks E ix1)"
        by simp_all
      have "set (?nb n) \<subseteq> {n. view (ix_vs ix) n \<noteq> None}" "snd ` set c \<subseteq> {n. view (ix_vs ix) n \<noteq> None}"
        using prems(4) by (auto simp: layer_links_def)
      then have "snd ` set (fst (fst st)) \<subseteq> {n. view (ix_vs ix) n \<noteq> None}"
        using filter_relax_cands [OF r] by (meson Un_least order_trans)
      then have "wp (filterLoop E q p docs k cap (fst (fst st)) (snd (fst st)) (snd st)) ix1
        (\<lambda>res ix'. res = fst (snd (fst (filter_beam (layer_links view adj ix1 0) (layer_dist E view ix1 q 0) ?m k cap
            (fst (fst st), snd (fst st), snd st, marks E ix1)))) \<and> keeps ix1 ix') (bad ix1)"
        using prems(3) r
        by (intro 2(1) [OF go _ _ _ keeps_seen(11) [OF k] st]) (simp_all add: keeps_seen [OF k])
      then show "wp (filterLoop E q p docs k cap (fst (fst st)) (snd (fst st)) (snd st)) ix1
        (\<lambda>res ix'. res = fst (snd (fst (filter_beam ?nb ?d ?m k cap (filter_relax ?d ?m k (?nb n) (c, r, scanned, marks E ix)))))
          \<and> keeps ix ix') (bad ix)"
        unfolding keeps_seen(8,10) [OF k] r
        by (rule wp_conseq) (use k in \<open>auto intro: keeps_trans keeps_bad\<close>)
    qed simp
    have l: "filterLoop E q p docs k cap ((key, n) # c) r scanned ix
        = bnd ?body (\<lambda>st. filterLoop E q p docs k cap (fst (fst st)) (snd (fst st)) (snd st)) ix"
      by (subst filterLoop.simps) (simp only: list.case prod.case if_not_P [OF go(1)] if_not_P [OF go(2)])
    have b: "filter_beam ?nb ?d ?m k cap ((key, n) # c, r, scanned, marks E ix)
        = filter_beam ?nb ?d ?m k cap (filter_relax ?d ?m k (?nb n) (c, r, scanned, marks E ix))"
      by (simp only: filter_beam.simps if_not_P [OF go(1)] if_not_P [OF go(2)])
    show ?thesis unfolding b by (rule wp_state, rule l, rule turn)
  qed
qed

text \<open>The filtered search returns what \<open>filter_result\<close> specifies, for the cap it is given.\<close>

definition scan_cap :: "int \<Rightarrow> int \<Rightarrow> nat" where
  "scan_cap k max_scan = nat (if max_scan \<le> 0 then k * 50 else max_scan)"

lemma wp_searchFiltered:
  assumes "ok ix" "0 < k" "length q = ev_dim E" "view (ix_vs ix) e \<noteq> None"
  shows "wp (searchLayerFiltered E q e ef 0 (Some p) k max_scan docs) ix
    (\<lambda>r ix'. (\<exists>hit. filter_result (layer_links view adj ix 0) (layer_dist E view ix q 0) (node_matches p docs) (nat k) e hit r)
      \<and> keeps ix ix') (bad ix)"
proof -
  let ?nb = "layer_links view adj ix 0" and ?d = "layer_dist E view ix q 0" and ?m = "node_matches p docs"
  let ?loop = "\<lambda>d. filterLoop E q p docs (nat k) (nat (if max_scan \<le> 0 then k * 50 else max_scan))
      [(- d, e)] (if ?m e then [(d, e)] else []) 0"
  let ?post = "\<lambda>r ix'. (\<exists>hit. filter_result ?nb ?d ?m (nat k) e hit r) \<and> keeps ix ix'"
  have rest: "wp (bnd (visit E e) (\<lambda>_. bnd (?loop (?d e)) (\<lambda>r. ret (filter_answer r)))) ix2 ?post (bad ix)"
    if k2: "keeps ix ix2" and st2: "started E ix2" and m2: "marks E ix2 = {}" for ix2
  proof (rule wp_seq [OF wp_visit [OF keeps_seen(11) [OF k2] st2]])
    fix new ix3
    assume v: "new = (e \<notin> marks E ix2) \<and> keeps ix2 ix3 \<and> started E ix3 \<and> marks E ix3 = insert e (marks E ix2)"
    then have k3: "keeps ix ix3" and st3: "started E ix3" and m3: "marks E ix3 = {e}" using k2 m2 keeps_trans by auto
    have e: "snd ` set [(- ?d e, e)] \<subseteq> {n. view (ix_vs ix3) n \<noteq> None}" using assms(4) by (simp add: keeps_seen(1) [OF k3])
    show "wp (bnd (?loop (?d e)) (\<lambda>r. ret (filter_answer r))) ix3 ?post (bad ix)"
    proof (rule wp_seq [OF wp_filterLoop [OF keeps_seen(11) [OF k3] st3 assms(3) e]])
      fix r ix4
      assume r: "r = fst (snd (fst (filter_beam (layer_links view adj ix3 0) (layer_dist E view ix3 q 0) ?m (nat k)
          (nat (if max_scan \<le> 0 then k * 50 else max_scan)) ([(- ?d e, e)], if ?m e then [(?d e, e)] else [], 0, marks E ix3))))
        \<and> keeps ix3 ix4"
      then have k4: "keeps ix ix4" using k3 keeps_trans by blast
      obtain c' r' s' V' hit where f: "filter_from ?nb ?d ?m (nat k) (nat (if max_scan \<le> 0 then k * 50 else max_scan)) e
          = ((c', r', s', V'), hit)" by (metis prod_cases4 surj_pair)
      have "r = r'" using r f by (simp add: filter_from_def m3 keeps_seen [OF k3])
      then have "filter_result ?nb ?d ?m (nat k) e hit (filter_answer r)"
        using filter_from_result [OF _ f] assms(2) by simp
      then show "wp (ret (filter_answer r)) ix4 ?post (bad ix)" using k4 by (intro wp_ret) blast
    qed (rule keeps_bad [OF k3])
  qed simp
  have body: "wp (bnd (readVector E e) (\<lambda>v. bnd (computeDistance E q v) (\<lambda>d. bnd (visit E e) (\<lambda>_.
      bnd (?loop d) (\<lambda>r. ret (filter_answer r)))))) ix1 ?post (bad ix)"
    if k: "keeps ix ix1" and st: "started E ix1" and m: "marks E ix1 = {}" for ix1
  proof (rule wp_conseq)
    have v: "view (ix_vs ix1) e \<noteq> None" using assms(4) by (simp add: keeps_seen(1) [OF k])
    have "wp (bnd (visit E e) (\<lambda>_. bnd (?loop (?d e)) (\<lambda>r. ret (filter_answer r)))) ix2 ?post (bad ix1)"
      if "keeps ix1 ix2" "ix_scratch ix2 = ix_scratch ix1" for ix2
    proof -
      have "keeps ix ix2" using k that keeps_trans by blast
      then have "wp (bnd (visit E e) (\<lambda>_. bnd (?loop (?d e)) (\<lambda>r. ret (filter_answer r)))) ix2 ?post (bad ix)"
        using rest st m that by simp
      then show ?thesis
        by (rule wp_conseq) (use bad_keeps [OF k] in auto)
    qed
    then show "wp (bnd (readVector E e) (\<lambda>v. bnd (computeDistance E q v) (\<lambda>d. bnd (visit E e) (\<lambda>_.
        bnd (?loop d) (\<lambda>r. ret (filter_answer r)))))) ix1 ?post (bad ix1)"
      by (intro wp_diskDistance [OF keeps_seen(11) [OF k] v assms(3)]) (simp only: keeps_seen(10) [OF k])
  qed (auto intro: keeps_bad [OF k])
  have "searchLayerFiltered E q e ef 0 (Some p) k max_scan docs = bnd (beginSearchIx E) (\<lambda>_. bnd (readVector E e) (\<lambda>v.
      bnd (computeDistance E q v) (\<lambda>d. bnd (visit E e) (\<lambda>_. bnd (?loop d) (\<lambda>r. ret (filter_answer r))))))"
    using assms(2) by (simp add: searchLayerFiltered_def)
  then show ?thesis
    by (simp only:) (rule wp_seq [OF wp_begin [OF assms(1)]], rule body, auto)
qed


subsection \<open>The greedy descent\<close>

definition upper_dist :: "('s, 'g) index \<Rightarrow> vec \<Rightarrow> node_id \<Rightarrow> rat option" where
  "upper_dist ix q n = (case map_of (ix_nodes ix) n of
     None \<Rightarrow> None | Some nd \<Rightarrow> Some (ev_dist E q (nodePointView E nd)))"

lemma node_dim: "ok ix \<Longrightarrow> map_of (ix_nodes ix) n = Some nd \<Longrightarrow> length (nodePointView E nd) = ev_dim E \<and> nodePointView E nd \<noteq> []"
proof -
  assume "ok ix" "map_of (ix_nodes ix) n = Some nd"
  then have "length (nodePointView E nd) = ev_dim E" by (auto simp: index_ok_def nodes_ok_def)
  moreover have "0 < ev_dim E" using \<open>ok ix\<close> by (simp add: index_ok_def)
  ultimately show ?thesis by auto
qed

lemma wp_greedyEach:
  assumes "ok ix" "length q = ev_dim E"
  shows "wp (for_each ns (greedyOne E q) acc) ix (\<lambda>r ix'. r = greedy_pass (upper_dist ix q) ns acc \<and> ix' = ix) Q"
proof (induction ns arbitrary: acc)
  case Nil
  then show ?case by (simp add: wp_ret)
next
  case (Cons n ns)
  obtain cur best imp where acc: "acc = (cur, best, imp)" by (metis prod_cases3)
  show ?case
  proof (cases "map_of (ix_nodes ix) n")
    case None
    then show ?thesis
      using Cons.IH by (auto simp: greedyOne_def findNode_def upper_dist_def acc intro!: wp_bnd wp_get wp_ret)
  next
    case (Some nd)
    with node_dim [OF assms(1) Some] assms(2) show ?thesis
      using Cons.IH by (auto simp: greedyOne_def findNode_def upper_dist_def acc intro!: wp_bnd wp_get wp_ret wp_computeDistance)
  qed
qed

lemma wp_greedyRound:
  assumes "ok ix" "length q = ev_dim E" "0 < l"
  shows "wp (greedyRound E q l cur best) ix
    (\<lambda>r ix'. r = greedy_pass (upper_dist ix q) (layer_links view adj ix l cur) (cur, best, False) \<and> ix' = ix) Q"
  using assms(3) wp_greedyEach [OF assms(1,2)]
  by (auto simp: greedyRound_def findNode_def layer_links_def intro!: wp_bnd wp_get wp_ret split: option.splits)

lemma wp_greedyLoop:
  assumes "ok ix" "length q = ev_dim E" "0 < l"
  shows "wp (greedyLoop E q l cur best) ix
    (\<lambda>r ix'. r = greedy (layer_links view adj ix l) (upper_dist ix q) cur best \<and> ix' = ix) Q"
proof (induction "layer_links view adj ix l" "upper_dist ix q" cur best rule: greedy.induct)
  case (1 cur best)
  let ?nb = "layer_links view adj ix l" and ?d = "upper_dist ix q"
  obtain cur' best' imp where p: "greedy_pass ?d (?nb cur) (cur, best, False) = (cur', best', imp)"
    by (metis prod_cases3)
  have "wp (bnd (greedyRound E q l cur best) (\<lambda>acc s.
      if snd (snd acc) then greedyLoop E q l (fst acc) (fst (snd acc)) s else Some (Inr (fst acc), s))) ix
    (\<lambda>r ix'. r = greedy ?nb ?d cur best \<and> ix' = ix) Q"
  proof (rule wp_seq [OF wp_greedyRound [OF assms]])
    fix acc ix'
    assume a: "acc = greedy_pass ?d (?nb cur) (cur, best, False) \<and> ix' = ix"
    show "wp (\<lambda>s. if snd (snd acc) then greedyLoop E q l (fst acc) (fst (snd acc)) s else Some (Inr (fst acc), s)) ix'
      (\<lambda>r ix'. r = greedy ?nb ?d cur best \<and> ix' = ix) Q"
    proof (cases imp)
      case True
      from 1 [OF p [symmetric] refl True] show ?thesis using a p True greedy.simps [of ?nb ?d cur best] by simp
    next
      case False
      then show ?thesis using a p greedy.simps [of ?nb ?d cur best] by (simp add: wp_def)
    qed
  qed simp
  then show ?case by (rule wp_state [OF greedyLoop.simps])
qed

text \<open>On an upper layer the descent ends in a local minimum, reached from where it started.\<close>

lemma wp_greedySearch:
  assumes "ok ix" "length q = ev_dim E" "0 < l"
  shows "wp (greedySearchUpperLayer E q e l) ix
    (\<lambda>r ix'. ix' = ix \<and> r \<in> reach (layer_links view adj ix l) e \<and>
       (if map_of (ix_nodes ix) e = None then r = e
        else \<exists>x. upper_dist ix q r = Some x
          \<and> (\<forall>y. upper_dist ix q e = Some y \<longrightarrow> x \<le> y)
          \<and> (\<forall>m \<in> set (layer_links view adj ix l r). \<forall>y. upper_dist ix q m = Some y \<longrightarrow> x \<le> y))) Q"
proof (cases "map_of (ix_nodes ix) e")
  case None
  then show ?thesis by (auto simp: greedySearchUpperLayer_def findNode_def reach_refl intro!: wp_bnd wp_get wp_ret)
next
  case (Some nd)
  let ?nb = "layer_links view adj ix l" and ?d = "upper_dist ix q" and ?b = "ev_dist E q (nodePointView E nd)"
  have "?d e = Some ?b" using Some by (simp add: upper_dist_def)
  note G = greedy_local_minimum [where d = ?d and cur = e and best = ?b and nb = ?nb, OF this]
  have "wp (greedyLoop E q l e ?b) ix
    (\<lambda>r ix'. ix' = ix \<and> r \<in> reach ?nb e \<and>
       (\<exists>x. ?d r = Some x \<and> (\<forall>y. ?d e = Some y \<longrightarrow> x \<le> y) \<and> (\<forall>m \<in> set (?nb r). \<forall>y. ?d m = Some y \<longrightarrow> x \<le> y))) Q"
    by (rule wp_conseq [OF wp_greedyLoop [OF assms, of e ?b]]) (use G \<open>?d e = Some ?b\<close> in auto)
  then show ?thesis
    using Some node_dim [OF assms(1) Some] assms(2)
    by (auto simp: greedySearchUpperLayer_def findNode_def intro!: wp_bnd wp_get wp_computeDistance)
qed


subsection \<open>The k-nearest search\<close>

lemma links_view:
  assumes "ok ix" "m \<in> set (layer_links view adj ix l n)"
  shows "view (ix_vs ix) m \<noteq> None"
proof (cases "l > 0")
  case True
  then obtain ms where b: "Option.bind (map_of (ix_nodes ix) n) (\<lambda>nd. layer_find (nd_layers nd) l) = Some ms" "m \<in> set ms"
    using assms(2) by (cases "Option.bind (map_of (ix_nodes ix) n) (\<lambda>nd. layer_find (nd_layers nd) l)")
      (auto simp: layer_links_def)
  then obtain nd where "map_of (ix_nodes ix) n = Some nd" "map_of (nd_layers nd) l = Some ms" "m \<in> set ms"
    by (auto simp: layer_find_def bind_eq_Some_conv)
  moreover have "nodes_ok E (view (ix_vs ix)) (ix_nodes ix)" using assms(1) by (simp add: index_ok_def)
  ultimately show ?thesis unfolding nodes_ok_def by blast
next
  case False
  then show ?thesis using assms(2) by (simp add: layer_links_def)
qed

lemma reach_view:
  assumes "ok ix" "view (ix_vs ix) e \<noteq> None" "n \<in> reach (layer_links view adj ix l) e"
  shows "view (ix_vs ix) n \<noteq> None"
proof -
  have "reach (layer_links view adj ix l) e \<subseteq> {n. view (ix_vs ix) n \<noteq> None}"
    by (rule reach_least) (use assms(2) links_view [OF assms(1)] in blast)+
  then show ?thesis using assms(3) by blast
qed

lemma wp_descend:
  assumes "ok ix" "length q = ev_dim E" "0 < lo" "view (ix_vs ix) e \<noteq> None"
  shows "wp (descend E q hi lo e) ix (\<lambda>r ix'. ix' = ix \<and> view (ix_vs ix) r \<noteq> None) Q"
  unfolding descend_def
proof (rule wp_for_each [where I = "\<lambda>ls r ix'. ix' = ix \<and> view (ix_vs ix) r \<noteq> None \<and> (\<forall>l \<in> set ls. 0 < l)"])
  show "ix = ix \<and> view (ix_vs ix) e \<noteq> None \<and> (\<forall>l \<in> set (rev [lo..hi]). 0 < l)" using assms(3,4) by auto
next
  fix l :: int and ls cur ix'
  assume "ix' = ix \<and> view (ix_vs ix) cur \<noteq> None \<and> (\<forall>l \<in> set (l # ls). 0 < l)"
  then have s: "ix' = ix" "view (ix_vs ix) cur \<noteq> None" "0 < l" "\<forall>l \<in> set ls. 0 < l" by simp_all
  show "wp (greedySearchUpperLayer E q cur l) ix'
    (\<lambda>r ix'. ix' = ix \<and> view (ix_vs ix) r \<noteq> None \<and> (\<forall>l \<in> set ls. 0 < l)) Q"
    unfolding s(1)
    by (rule wp_conseq [OF wp_greedySearch [OF assms(1,2) s(3)]]) (use s(2,4) reach_view [OF assms(1)] in blast)+
qed simp

lemma wp_knnSearchK:
  assumes "ok ix" "length q = ev_dim E" "0 < k" "ix_entry ix \<noteq> k_invalid_node_id"
  shows "wp (knnSearchK E q k ef) ix
    (\<lambda>r ix'. (\<exists>e R. view (ix_vs ix) e \<noteq> None
        \<and> beam_result (layer_links view adj ix 0) (layer_dist E view ix q 0) (nat (max ef k)) e R
        \<and> r = take (nat k) (filter (\<lambda>(n, d). \<not> is_tombstoned (ix_ids ix) n) R)) \<and> keeps ix ix') (bad ix)"
proof -
  have e: "view (ix_vs ix) (ix_entry ix) \<noteq> None" using assms(1,4) by (auto simp: index_ok_def)
  let ?post = "\<lambda>r ix'. (\<exists>e R. view (ix_vs ix) e \<noteq> None
        \<and> beam_result (layer_links view adj ix 0) (layer_dist E view ix q 0) (nat (max ef k)) e R
        \<and> r = take (nat k) (filter (\<lambda>(n, d). \<not> is_tombstoned (ix_ids ix) n) R)) \<and> keeps ix ix'"
  have "wp (bnd (descend E q (ix_max_layer ix) 1 (ix_entry ix)) (\<lambda>cur.
          bnd (searchLayer E q cur (max ef k) 0) (\<lambda>found.
          get (\<lambda>ix. take (nat k) (filter (\<lambda>(n, d). \<not> is_tombstoned (ix_ids ix) n) found))))) ix ?post (bad ix)"
  proof (rule wp_seq [OF wp_descend [OF assms(1,2) _ e]])
    fix cur ix1
    assume s: "ix1 = ix \<and> view (ix_vs ix) cur \<noteq> None"
    then have h: "\<forall>n \<in> reach (layer_links view adj ix 0) cur. has_point ix 0 n"
      unfolding has_point_def using reach_view [OF assms(1)] by blast
    have "wp (bnd (searchLayer E q cur (max ef k) 0) (\<lambda>found.
        get (\<lambda>ix. take (nat k) (filter (\<lambda>(n, d). \<not> is_tombstoned (ix_ids ix) n) found)))) ix ?post (bad ix)"
    proof (rule wp_seq [OF wp_searchLayer [OF assms(1) _ _ assms(2) h]])
      fix found ix2
      assume f: "beam_result (layer_links view adj ix 0) (layer_dist E view ix q 0) (nat (max ef k)) cur found \<and> keeps ix ix2"
      then have "keeps ix ix2" by simp
      then show "wp (get (\<lambda>ix. take (nat k) (filter (\<lambda>(n, d). \<not> is_tombstoned (ix_ids ix) n) found))) ix2 ?post (bad ix)"
        using f s by (intro wp_get conjI) (auto simp: keeps_seen(7) intro!: exI [of _ cur] exI [of _ found])
    qed (use assms(3) in auto)
    then show "wp (bnd (searchLayer E q cur (max ef k) 0) (\<lambda>found.
        get (\<lambda>ix. take (nat k) (filter (\<lambda>(n, d). \<not> is_tombstoned (ix_ids ix) n) found)))) ix1 ?post (bad ix)"
      using s by simp
  qed auto
  then show ?thesis using assms(3,4) by (simp add: knnSearchK_def wp_bnd wp_get)
qed

lemma wp_knnFiltered:
  assumes "ok ix" "length q = ev_dim E" "0 < k" "ix_entry ix \<noteq> k_invalid_node_id"
  shows "wp (knnSearchKFiltered E q k ef (Some p) max_scan docs) ix
    (\<lambda>r ix'. (\<exists>e hit. view (ix_vs ix) e \<noteq> None
        \<and> filter_result (layer_links view adj ix 0) (layer_dist E view ix q 0) (node_matches p docs) (nat k) e hit r)
      \<and> keeps ix ix') (bad ix)"
proof -
  have e: "view (ix_vs ix) (ix_entry ix) \<noteq> None" using assms(1,4) by (auto simp: index_ok_def)
  let ?post = "\<lambda>r ix'. (\<exists>e hit. view (ix_vs ix) e \<noteq> None
        \<and> filter_result (layer_links view adj ix 0) (layer_dist E view ix q 0) (node_matches p docs) (nat k) e hit r)
      \<and> keeps ix ix'"
  have "wp (bnd (descend E q (ix_max_layer ix) 1 (ix_entry ix)) (\<lambda>cur.
          searchLayerFiltered E q cur ef 0 (Some p) k max_scan docs)) ix ?post (bad ix)"
  proof (rule wp_seq [OF wp_descend [OF assms(1,2) _ e]])
    fix cur ix1
    assume s: "ix1 = ix \<and> view (ix_vs ix) cur \<noteq> None"
    then show "wp (searchLayerFiltered E q cur ef 0 (Some p) k max_scan docs) ix1 ?post (bad ix)"
      using wp_searchFiltered [OF assms(1,3,2), of cur ef p max_scan docs] by (auto elim!: wp_conseq)
  qed auto
  then show ?thesis using assms(3,4) by (simp add: knnSearchKFiltered_def wp_bnd wp_get)
qed

end

end
