(* ===== verification/Hnsw_Select.thy ===== *)
theory Hnsw_Select
  imports Hnsw_Search "HOL-Library.Sublist"
begin

text \<open>
  Neighbour selection. Both overloads of \<open>selectNeighborsHeuristic2\<close> are the greedy pruning
  \<open>diverse\<close> over the candidates in order of distance: a candidate is kept unless a neighbour already
  kept is closer to it than the query is. The overload for ids memoises the vectors it fetches;
  \<open>wp_heuristic2\<close> shows that it computes the same as the pure pruning.
\<close>

subsection \<open>Diversity pruning\<close>

abbreviation plain :: "(node_id \<times> rat) \<times> vec \<Rightarrow> node_id \<times> vec" where
  "plain c \<equiv> (fst (fst c), snd c)"

definition diverse_ok ::
  "(vec \<Rightarrow> vec \<Rightarrow> rat) \<Rightarrow> nat \<Rightarrow> ((node_id \<times> rat) \<times> vec) list \<Rightarrow> (node_id \<times> vec) list \<Rightarrow> bool" where
  "diverse_ok dst k cs R \<longleftrightarrow>
     length R \<le> k \<and> subseq R (map plain cs)
   \<and> (\<forall>j < length R. \<exists>d. ((fst (R ! j), d), snd (R ! j)) \<in> set cs \<and> (\<forall>i < j. d \<le> dst (snd (R ! j)) (snd (R ! i))))
   \<and> (\<forall>((n, d), v) \<in> set cs. (n, v) \<in> set R \<or> length R = k \<or> (\<exists>(m, u) \<in> set R. dst v u < d))"

lemma diverse_extends:
  "\<exists>ys. diverse dst k cs sel = sel @ ys \<and> subseq ys (map plain cs)"
proof (induction dst k cs sel rule: diverse.induct)
  case (2 dst k n d v cs sel)
  let ?sel = "if \<exists>(m, u) \<in> set sel. dst v u < d then sel else sel @ [(n, v)]"
  show ?case
  proof (cases "length sel \<ge> k")
    case False
    obtain ys where ys: "diverse dst k cs ?sel = ?sel @ ys" "subseq ys (map plain cs)"
      using 2 [OF False] by blast
    then show ?thesis using False
      by (cases "\<exists>(m, u) \<in> set sel. dst v u < d") (auto intro: list_emb_Cons)
  qed auto
qed simp

lemma diverse_length: "length sel \<le> k \<Longrightarrow> length (diverse dst k cs sel) \<le> k"
  by (induction dst k cs sel rule: diverse.induct) (auto simp: Suc_le_eq not_le)

lemma diverse_spread:
  "(\<forall>j < length sel. Q (sel ! j) (take j sel)) \<Longrightarrow>
   (\<And>n d v s. ((n, d), v) \<in> set cs \<Longrightarrow> \<not> (\<exists>(m, u) \<in> set s. dst v u < d) \<Longrightarrow> Q (n, v) s) \<Longrightarrow>
   \<forall>j < length (diverse dst k cs sel). Q (diverse dst k cs sel ! j) (take j (diverse dst k cs sel))"
proof (induction dst k cs sel rule: diverse.induct)
  case (2 dst k n d v cs sel)
  let ?sel = "if \<exists>(m, u) \<in> set sel. dst v u < d then sel else sel @ [(n, v)]"
  have "\<forall>j < length ?sel. Q (?sel ! j) (take j ?sel)"
    using 2(2) 2(3) [of n d v sel] by (auto simp: nth_append less_Suc_eq)
  note S = this
  show ?case
  proof (cases "length sel \<ge> k")
    case True
    then show ?thesis using 2(2) by simp
  next
    case False
    then have eq: "diverse dst k (((n, d), v) # cs) sel = diverse dst k cs ?sel" by simp
    show ?thesis unfolding eq by (rule 2(1) [OF False S]) (rule 2(3), simp_all)
  qed
qed simp

lemma diverse_complete:
  "((n, d), v) \<in> set cs \<Longrightarrow> length sel \<le> k \<Longrightarrow> (n, v) \<in> set (diverse dst k cs sel)
     \<or> length (diverse dst k cs sel) = k \<or> (\<exists>(m, u) \<in> set (diverse dst k cs sel). dst v u < d)"
proof (induction dst k cs sel rule: diverse.induct)
  case (2 dst k n' d' v' cs sel)
  let ?sel = "if \<exists>(m, u) \<in> set sel. dst v' u < d' then sel else sel @ [(n', v')]"
  show ?case
  proof (cases "length sel \<ge> k")
    case True
    then show ?thesis using 2(3) by simp
  next
    case False
    then have eq: "diverse dst k (((n', d'), v') # cs) sel = diverse dst k cs ?sel" by simp
    obtain ys where ys: "diverse dst k cs ?sel = ?sel @ ys" using diverse_extends by blast
    show ?thesis
    proof (cases "((n, d), v) \<in> set cs")
      case True
      have "length ?sel \<le> k" using False by auto
      from 2(1) [OF False True this] show ?thesis unfolding eq .
    next
      case False
      then have "n = n'" "d = d'" "v = v'" using 2(2) by auto
      then show ?thesis unfolding eq ys by auto
    qed
  qed
qed simp

lemma diverse_sound: "diverse_ok dst k cs (diverse dst k cs [])"
proof -
  let ?R = "diverse dst k cs []"
  let ?Q = "\<lambda>x s. \<exists>d. ((fst x, d), snd x) \<in> set cs \<and> (\<forall>y \<in> set s. d \<le> dst (snd x) (snd y))"
  have Q: "\<forall>j < length ?R. ?Q (?R ! j) (take j ?R)"
    by (rule diverse_spread) (auto simp: not_less, force)
  have "\<exists>d. ((fst (?R ! j), d), snd (?R ! j)) \<in> set cs \<and> (\<forall>i < j. d \<le> dst (snd (?R ! j)) (snd (?R ! i)))"
    if j: "j < length ?R" for j
  proof -
    obtain d where d: "((fst (?R ! j), d), snd (?R ! j)) \<in> set cs" "\<forall>y \<in> set (take j ?R). d \<le> dst (snd (?R ! j)) (snd y)"
      using Q j by blast
    have "?R ! i \<in> set (take j ?R)" if "i < j" for i using that j by (auto simp: in_set_conv_nth intro!: exI [of _ i])
    with d show ?thesis by blast
  qed
  moreover have "subseq ?R (map plain cs)" using diverse_extends [of dst k cs "[]"] by auto
  moreover have "length ?R \<le> k" by (rule diverse_length) simp
  moreover have "\<forall>((n, d), v) \<in> set cs. (n, v) \<in> set ?R \<or> length ?R = k \<or> (\<exists>(m, u) \<in> set ?R. dst v u < d)"
    using diverse_complete [where sel = "[]"] by fastforce
  ultimately show ?thesis unfolding diverse_ok_def by blast
qed

lemma diverse_set: "fst ` set (diverse dst k cs []) \<subseteq> fst ` fst ` set cs"
proof -
  have s: "subseq (diverse dst k cs []) (map plain cs)" using diverse_extends [of dst k cs "[]"] by auto
  show ?thesis
  proof (rule image_subsetI)
    fix x assume "x \<in> set (diverse dst k cs [])"
    then obtain y where "y \<in> set (map plain cs)" "x = y" by (rule list_emb_set [OF s])
    then obtain c where "c \<in> set cs" "fst x = fst (fst c)" by auto
    then show "fst x \<in> fst ` fst ` set cs" by (simp add: image_image)
  qed
qed


subsection \<open>The overload for search results\<close>

context hnsw
begin

lemma wp_selectR:
  assumes "ok ix" "\<forall>n \<in> fst ` set cs. view (ix_vs ix) n \<noteq> None"
  shows "wp (selectNeighborsR E v cs maxN l) ix
    (\<lambda>r ix'. set r \<subseteq> fst ` set cs \<and> length r \<le> maxN \<and> keeps ix ix') (bad ix)"
proof (cases "ev_heuristic E")
  case False
  have "set (map fst (take maxN (sort_key snd cs))) \<subseteq> fst ` set cs"
    using set_take_subset [of maxN "sort_key snd cs"] by (metis image_mono set_map set_sort)
  then show ?thesis using False keeps_refl [OF assms(1)] by (simp add: selectNeighborsR_def wp_ret)
next
  case True
  show ?thesis
  proof (cases "length cs \<le> maxN")
    case True
    then show ?thesis using assms(1) \<open>ev_heuristic E\<close>
      by (auto simp: selectNeighborsR_def selectNeighborsHeuristic2R_def keeps_refl intro!: wp_ret)
  next
    case False
    let ?s = "sort_key snd cs"
    have ids: "\<forall>n \<in> set (map fst ?s). view (ix_vs ix) n \<noteq> None" using assms(2) by simp
    have "wp (if l > 0 then get (\<lambda>ix. map (candVector E (ix_nodes ix)) (map fst ?s))
        else readVectorsBatchFlat E (map fst ?s)) ix (\<lambda>vs ix'. length vs = length ?s \<and> keeps ix ix') (bad ix)"
      using keeps_refl [OF assms(1)]
      by (intro wp_if wp_get) (auto intro: wp_conseq [OF wp_readBatch [OF assms(1) ids]])
    then have "wp (bnd (if l > 0 then get (\<lambda>ix. map (candVector E (ix_nodes ix)) (map fst ?s))
        else readVectorsBatchFlat E (map fst ?s)) (\<lambda>vs. ret (map fst (diverse (ev_dist E) maxN (zip ?s vs) [])))) ix
      (\<lambda>r ix'. set r \<subseteq> fst ` set cs \<and> length r \<le> maxN \<and> keeps ix ix') (bad ix)"
    proof (rule wp_seq)
      fix vs :: "vec list" and ix'
      assume "length vs = length ?s \<and> keeps ix ix'"
      moreover have "fst ` set (zip ?s vs) \<subseteq> set cs" by (auto dest: set_zip_leftD)
      ultimately show "wp (ret (map fst (diverse (ev_dist E) maxN (zip ?s vs) []))) ix'
        (\<lambda>r ix'. set r \<subseteq> fst ` set cs \<and> length r \<le> maxN \<and> keeps ix ix') (bad ix)"
        using diverse_set [of "ev_dist E" maxN "zip ?s vs"] diverse_length [of "[]" maxN "ev_dist E" "zip ?s vs"]
        by (intro wp_ret) force
    qed simp
    then show ?thesis using True False
      by (simp add: selectNeighborsR_def selectNeighborsHeuristic2R_def Let_def)
  qed
qed

subsection \<open>The overload for ids\<close>

definition cached :: "('s, 'g) index \<Rightarrow> int \<Rightarrow> vec_cache \<Rightarrow> bool" where
  "cached ix l vc \<longleftrightarrow> (\<forall>n v. map_of vc n = Some v \<longrightarrow> v = layer_point E view ix l n)"

lemma point_dim: "ok ix \<Longrightarrow> view (ix_vs ix) n \<noteq> None \<Longrightarrow> length (layer_point E view ix l n) = ev_dim E"
  using view_dim [of ix n] by (auto simp: layer_point_def split: option.splits)

lemma wp_heuristicVector:
  assumes "ok ix" "view (ix_vs ix) n \<noteq> None" "cached ix l vc"
  shows "wp (heuristicVector E l n vc) ix
    (\<lambda>r ix'. fst r = layer_point E view ix l n \<and> cached ix l (snd r) \<and> keeps ix ix') (bad ix)"
proof -
  let ?post = "\<lambda>r ix'. fst r = layer_point E view ix l n \<and> cached ix l (snd r) \<and> keeps ix ix'"
  have add: "cached ix l ((n, layer_point E view ix l n) # vc)" using assms(3) by (simp add: cached_def)
  have disk: "wp (bnd (readVector E n) (\<lambda>v. ret (v, (n, v) # vc))) ix ?post (bad ix)"
    if "the (view (ix_vs ix) n) = layer_point E view ix l n"
  proof -
    obtain v where v: "view (ix_vs ix) n = Some v" using assms(2) by blast
    show ?thesis
      by (rule wp_seq [OF wp_readVector [OF assms(1) v]]) (use that v add in \<open>auto intro!: wp_ret\<close>)
  qed
  have hit: "wp (ret (v, vc)) ix ?post (bad ix)" if "map_of vc n = Some v" for v
    using that assms(3) keeps_refl [OF assms(1)] by (intro wp_ret) (simp add: cached_def)
  show ?thesis
  proof (cases "if l > 0 then map_of (ix_nodes ix) n else None")
    case None
    then have "the (view (ix_vs ix) n) = layer_point E view ix l n"
      by (auto simp: layer_point_def split: option.splits if_splits)
    with None disk hit show ?thesis
      by (auto simp: heuristicVector_def findNode_def intro!: wp_bnd wp_get split: option.splits)
  next
    case (Some nd)
    then have l: "l > 0" and nd: "map_of (ix_nodes ix) n = Some nd" by (auto split: if_splits)
    then have p: "layer_point E view ix l n = nodePointView E nd"
      using node_dim [OF assms(1) nd] by (simp add: layer_point_def)
    show ?thesis
    proof (cases "nd_point nd = []")
      case False
      then show ?thesis using l nd p assms(1,3)
        by (auto simp: heuristicVector_def findNode_def nodePointView_def keeps_refl intro!: wp_bnd wp_get wp_ret)
    next
      case True
      then have dq: "dequantizeNodePoint E nd = Some (layer_point E view ix l n)"
        using node_dim [OF assms(1) nd] p by (auto simp: nodePointView_def dequantizeNodePoint_def split: if_splits)
      have "wp (ret (layer_point E view ix l n, (n, layer_point E view ix l n) # vc)) ix ?post (bad ix)"
        using add keeps_refl [OF assms(1)] by (intro wp_ret) simp
      then show ?thesis using l nd True dq hit
        by (auto simp: heuristicVector_def findNode_def intro!: wp_bnd wp_get split: option.splits)
    qed
  qed
qed

lemma keeps_cached: "keeps ix ix' \<Longrightarrow> cached ix' l vc = cached ix l vc"
  by (simp add: cached_def keeps_seen(9))

abbreviation pt :: "('s, 'g) index \<Rightarrow> int \<Rightarrow> node_id \<Rightarrow> vec" where
  "pt ix l n \<equiv> layer_point E view ix l n"

lemma wp_heuristicGood:
  assumes "ok ix" "view (ix_vs ix) n \<noteq> None" "\<forall>m \<in> set ms. view (ix_vs ix) m \<noteq> None" "cached ix l vc"
  shows "wp (heuristicGood E l n d ms vc) ix
    (\<lambda>r ix'. fst r = (\<forall>m \<in> set ms. \<not> ev_dist E (pt ix l m) (pt ix l n) < d) \<and> cached ix l (snd r) \<and> keeps ix ix') (bad ix)"
  using assms
proof (induction ms arbitrary: ix vc)
  case Nil
  then show ?case by (auto intro!: wp_ret simp: keeps_refl)
next
  case (Cons m ms)
  let ?post = "\<lambda>r ix'. fst r = (\<forall>m \<in> set (m # ms). \<not> ev_dist E (pt ix l m) (pt ix l n) < d) \<and> cached ix l (snd r) \<and> keeps ix ix'"
  have m: "view (ix_vs ix) m \<noteq> None" using Cons.prems(3) by simp
  show ?case
    unfolding heuristicGood.simps
  proof (rule wp_seq [OF wp_heuristicVector [OF Cons.prems(1) m Cons.prems(4)]])
    fix r1 ix1
    assume r1: "fst r1 = pt ix l m \<and> cached ix l (snd r1) \<and> keeps ix ix1"
    then have k1: "keeps ix ix1" by simp
    have c1: "cached ix1 l (snd r1)" using r1 keeps_cached [OF k1] by simp
    have n1: "view (ix_vs ix1) n \<noteq> None" using Cons.prems(2) by (simp add: keeps_seen(1) [OF k1])
    have "wp (bnd (heuristicVector E l n (snd r1)) (\<lambda>(v2, vc). bnd (computeDistance E (fst r1) v2) (\<lambda>x.
        if x < d then ret (False, vc) else heuristicGood E l n d ms vc))) ix1 ?post (bad ix)"
    proof (rule wp_seq [OF wp_heuristicVector [OF keeps_seen(11) [OF k1] n1 c1]])
      fix r2 ix2
      assume r2: "fst r2 = pt ix1 l n \<and> cached ix1 l (snd r2) \<and> keeps ix1 ix2"
      then have k2: "keeps ix ix2" using k1 keeps_trans by blast
      have c2: "cached ix2 l (snd r2)" "cached ix l (snd r2)"
        using r2 keeps_cached [OF k1] keeps_cached [OF k2] by simp_all
      have IH: "wp (heuristicGood E l n d ms (snd r2)) ix2
        (\<lambda>r ix'. fst r = (\<forall>m \<in> set ms. \<not> ev_dist E (pt ix2 l m) (pt ix2 l n) < d) \<and> cached ix2 l (snd r) \<and> keeps ix2 ix') (bad ix2)"
        using Cons.prems c2 by (intro Cons.IH keeps_seen(11) [OF k2]) (simp_all add: keeps_seen(1) [OF k2])
      have rest: "wp (if ev_dist E (pt ix l m) (pt ix l n) < d then ret (False, snd r2) else heuristicGood E l n d ms (snd r2)) ix2 ?post (bad ix)"
      proof (rule wp_if)
        assume "ev_dist E (pt ix l m) (pt ix l n) < d"
        then show "wp (ret (False, snd r2)) ix2 ?post (bad ix)" using c2 k2 by (intro wp_ret) simp
      next
        assume "\<not> ev_dist E (pt ix l m) (pt ix l n) < d"
        then show "wp (heuristicGood E l n d ms (snd r2)) ix2 ?post (bad ix)"
          by (intro wp_conseq [OF IH]) (use k2 in \<open>auto simp: keeps_seen(9) [OF k2] keeps_cached [OF k2] intro: keeps_trans keeps_bad\<close>)
      qed
      have "length (fst r1) = length (fst r2)"
        using r1 r2 point_dim [OF Cons.prems(1)] Cons.prems(2) m by (simp add: keeps_seen(9) [OF k1])
      then show "wp (case r2 of (v2, vc) \<Rightarrow> bnd (computeDistance E (fst r1) v2) (\<lambda>x.
          if x < d then ret (False, vc) else heuristicGood E l n d ms vc)) ix2 ?post (bad ix)"
        using rest r1 r2 by (cases r2) (auto simp: keeps_seen(9) [OF k1] intro!: wp_bnd wp_computeDistance)
    qed (rule keeps_bad [OF k1])
    then show "wp (case r1 of (v1, vc) \<Rightarrow> bnd (heuristicVector E l n vc) (\<lambda>(v2, vc). bnd (computeDistance E v1 v2) (\<lambda>x.
        if x < d then ret (False, vc) else heuristicGood E l n d ms vc))) ix1 ?post (bad ix)"
      by (cases r1) simp
  qed simp
qed


text \<open>The pruning the id overload performs; it compares kept and new candidate the other way round.\<close>

definition pruned :: "('s, 'g) index \<Rightarrow> int \<Rightarrow> nat \<Rightarrow> (node_id \<times> rat) list \<Rightarrow> node_id list \<Rightarrow> node_id list" where
  "pruned ix l k cs sel = map fst (diverse (\<lambda>v u. ev_dist E u v) k
     (map (\<lambda>c. (c, pt ix l (fst c))) cs) (map (\<lambda>n. (n, pt ix l n)) sel))"

lemma pruned_Nil: "pruned ix l k [] sel = sel"
  by (simp add: pruned_def o_def)

lemma pruned_Cons: "pruned ix l k ((n, d) # cs) sel =
  (if length sel \<ge> k then sel
   else pruned ix l k cs (if \<forall>m \<in> set sel. \<not> ev_dist E (pt ix l m) (pt ix l n) < d then sel @ [n] else sel))"
  by (auto simp: pruned_def o_def)

lemma keeps_pruned: "keeps ix ix' \<Longrightarrow> pruned ix' = pruned ix"
  by (simp add: pruned_def fun_eq_iff keeps_seen(9))

lemma wp_heuristicSelect:
  assumes "ok ix" "\<forall>n \<in> fst ` set cs \<union> set sel. view (ix_vs ix) n \<noteq> None" "cached ix l vc"
  shows "wp (heuristicSelect E l k cs sel vc) ix (\<lambda>r ix'. r = pruned ix l k cs sel \<and> keeps ix ix') (bad ix)"
  using assms
proof (induction cs arbitrary: ix sel vc)
  case Nil
  then show ?case by (auto intro!: wp_ret simp: keeps_refl pruned_Nil)
next
  case (Cons c cs)
  obtain n d where c: "c = (n, d)" by force
  show ?case
  proof (cases "length sel \<ge> k")
    case True
    then show ?thesis using keeps_refl [OF Cons.prems(1)] by (simp add: c wp_ret pruned_Cons)
  next
    case False
    have v: "view (ix_vs ix) n \<noteq> None" "\<forall>m \<in> set sel. view (ix_vs ix) m \<noteq> None" using Cons.prems(2) c by auto
    have "wp (bnd (heuristicGood E l n d sel vc) (\<lambda>(good, vc).
        heuristicSelect E l k cs (if good then sel @ [n] else sel) vc)) ix
      (\<lambda>r ix'. r = pruned ix l k (c # cs) sel \<and> keeps ix ix') (bad ix)"
    proof (rule wp_seq [OF wp_heuristicGood [OF Cons.prems(1) v Cons.prems(3)]])
      fix r1 ix1
      assume r1: "fst r1 = (\<forall>m \<in> set sel. \<not> ev_dist E (pt ix l m) (pt ix l n) < d) \<and> cached ix l (snd r1) \<and> keeps ix ix1"
      then have k1: "keeps ix ix1" by simp
      have c1: "cached ix1 l (snd r1)" using r1 keeps_cached [OF k1] by simp
      have "wp (heuristicSelect E l k cs (if fst r1 then sel @ [n] else sel) (snd r1)) ix1
        (\<lambda>r ix'. r = pruned ix1 l k cs (if fst r1 then sel @ [n] else sel) \<and> keeps ix1 ix') (bad ix1)"
        using Cons.prems(2) c by (intro Cons.IH keeps_seen(11) [OF k1] c1) (auto simp: keeps_seen(1) [OF k1])
      then have "wp (heuristicSelect E l k cs (if fst r1 then sel @ [n] else sel) (snd r1)) ix1
        (\<lambda>r ix'. r = pruned ix l k (c # cs) sel \<and> keeps ix ix') (bad ix)"
        unfolding keeps_pruned [OF k1] c pruned_Cons if_not_P [OF False]
        by (rule wp_conseq) (use r1 k1 in \<open>auto intro: keeps_trans keeps_bad\<close>)
      then show "wp (case r1 of (good, vc) \<Rightarrow> heuristicSelect E l k cs (if good then sel @ [n] else sel) vc) ix1
        (\<lambda>r ix'. r = pruned ix l k (c # cs) sel \<and> keeps ix ix') (bad ix)"
        by (cases r1) simp
    qed simp
    then show ?thesis using False by (simp add: c)
  qed
qed

definition with_dist :: "('s, 'g) index \<Rightarrow> int \<Rightarrow> vec \<Rightarrow> node_id list \<Rightarrow> (node_id \<times> rat) list" where
  "with_dist ix l v ids = map (\<lambda>n. (n, ev_dist E v (pt ix l n))) ids"

lemma wp_heuristicDists:
  assumes "ok ix" "\<forall>n \<in> set ids. view (ix_vs ix) n \<noteq> None" "cached ix l vc" "length v = ev_dim E"
  shows "wp (for_each ids (\<lambda>n (cs, vc). bnd (heuristicVector E l n vc) (\<lambda>(cv, vc).
      bnd (computeDistance E v cv) (\<lambda>d. ret (cs @ [(n, d)], vc)))) (cs, vc)) ix
    (\<lambda>r ix'. fst r = cs @ with_dist ix l v ids \<and> cached ix l (snd r) \<and> keeps ix ix') (bad ix)"
  using assms(1-3)
proof (induction ids arbitrary: ix cs vc)
  case Nil
  then show ?case by (auto intro!: wp_ret simp: keeps_refl with_dist_def)
next
  case (Cons n ids)
  let ?body = "\<lambda>n (cs, vc). bnd (heuristicVector E l n vc) (\<lambda>(cv, vc).
      bnd (computeDistance E v cv) (\<lambda>d. ret (cs @ [(n, d)], vc)))"
  have n: "view (ix_vs ix) n \<noteq> None" using Cons.prems(2) by simp
  have one: "wp (?body n (cs, vc)) ix
    (\<lambda>r ix'. fst r = cs @ [(n, ev_dist E v (pt ix l n))] \<and> cached ix l (snd r) \<and> keeps ix ix') (bad ix)"
    unfolding prod.case
    by (rule wp_seq [OF wp_heuristicVector [OF Cons.prems(1) n Cons.prems(3)]])
      (use assms(4) point_dim [OF Cons.prems(1) n] in \<open>auto intro!: wp_bnd wp_computeDistance wp_ret\<close>)
  show ?case
    unfolding for_each.simps
  proof (rule wp_seq [OF one])
    fix r1 ix1
    assume r1: "fst r1 = cs @ [(n, ev_dist E v (pt ix l n))] \<and> cached ix l (snd r1) \<and> keeps ix ix1"
    then have k1: "keeps ix ix1" by simp
    have c1: "cached ix1 l (snd r1)" using r1 keeps_cached [OF k1] by simp
    have "wp (for_each ids ?body (fst r1, snd r1)) ix1
      (\<lambda>r ix'. fst r = fst r1 @ with_dist ix1 l v ids \<and> cached ix1 l (snd r) \<and> keeps ix1 ix') (bad ix1)"
      using Cons.prems(2) by (intro Cons.IH keeps_seen(11) [OF k1] c1) (auto simp: keeps_seen(1) [OF k1])
    then have "wp (for_each ids ?body (fst r1, snd r1)) ix1
      (\<lambda>r ix'. fst r = cs @ with_dist ix l v (n # ids) \<and> cached ix l (snd r) \<and> keeps ix ix') (bad ix)"
      by (rule wp_conseq)
        (use r1 k1 in \<open>auto simp: with_dist_def keeps_seen(9) [OF k1] keeps_cached [OF k1] intro: keeps_trans keeps_bad\<close>)
    then show "wp (for_each ids ?body r1) ix1
      (\<lambda>r ix'. fst r = cs @ with_dist ix l v (n # ids) \<and> cached ix l (snd r) \<and> keeps ix ix') (bad ix)"
      by simp
  qed simp
qed

text \<open>What the id overload of the heuristic returns.\<close>

lemma wp_heuristic2:
  assumes "ok ix" "\<forall>n \<in> set ids. view (ix_vs ix) n \<noteq> None" "length v = ev_dim E"
  shows "wp (selectNeighborsHeuristic2 E v ids k l) ix
    (\<lambda>r ix'. r = (if length ids \<le> k then ids else pruned ix l k (sort_key snd (with_dist ix l v ids)) []) \<and> keeps ix ix') (bad ix)"
proof (cases "length ids \<le> k")
  case True
  then show ?thesis using keeps_refl [OF assms(1)] by (simp add: selectNeighborsHeuristic2_def wp_ret)
next
  case False
  have c0: "cached ix l []" by (simp add: cached_def)
  have "wp (bnd (for_each ids (\<lambda>n (cs, vc). bnd (heuristicVector E l n vc) (\<lambda>(cv, vc).
      bnd (computeDistance E v cv) (\<lambda>d. ret (cs @ [(n, d)], vc)))) ([], []))
      (\<lambda>(cs, vc). heuristicSelect E l k (sort_key snd cs) [] vc)) ix
    (\<lambda>r ix'. r = pruned ix l k (sort_key snd (with_dist ix l v ids)) [] \<and> keeps ix ix') (bad ix)"
  proof (rule wp_seq [OF wp_heuristicDists [OF assms(1,2) c0 assms(3)]])
    fix r1 ix1
    assume r1: "fst r1 = [] @ with_dist ix l v ids \<and> cached ix l (snd r1) \<and> keeps ix ix1"
    then have k1: "keeps ix ix1" by simp
    have c1: "cached ix1 l (snd r1)" using r1 keeps_cached [OF k1] by simp
    have "\<forall>n \<in> fst ` set (sort_key snd (fst r1)) \<union> set []. view (ix_vs ix1) n \<noteq> None"
      using r1 assms(2) by (auto simp: with_dist_def keeps_seen(1) [OF k1])
    from wp_heuristicSelect [OF keeps_seen(11) [OF k1] this c1]
    have "wp (heuristicSelect E l k (sort_key snd (fst r1)) [] (snd r1)) ix1
      (\<lambda>r ix'. r = pruned ix l k (sort_key snd (with_dist ix l v ids)) [] \<and> keeps ix ix') (bad ix)"
      unfolding keeps_pruned [OF k1]
      by (rule wp_conseq) (use r1 k1 in \<open>auto intro: keeps_trans keeps_bad\<close>)
    then show "wp (case r1 of (cs, vc) \<Rightarrow> heuristicSelect E l k (sort_key snd cs) [] vc) ix1
      (\<lambda>r ix'. r = pruned ix l k (sort_key snd (with_dist ix l v ids)) [] \<and> keeps ix ix') (bad ix)"
      by (cases r1) simp
  qed simp
  then show ?thesis using False by (simp add: selectNeighborsHeuristic2_def)
qed


lemma pruned_subset: "set (pruned ix l k cs []) \<subseteq> fst ` set cs"
  using diverse_set [of "\<lambda>v u. ev_dist E u v" k "map (\<lambda>c. (c, pt ix l (fst c))) cs"]
  by (simp add: pruned_def image_image)

lemma pruned_length: "length (pruned ix l k cs []) \<le> k"
  by (simp add: pruned_def diverse_length)

subsection \<open>Selection without the heuristic, and both\<close>

definition simple_step :: "vec \<Rightarrow> nat \<Rightarrow> int \<Rightarrow> node_id \<Rightarrow> cand list \<Rightarrow> ('s, 'g, cand list) ix" where
  "simple_step v k l n q =
     bnd (findNode n) (\<lambda>nd.
     bnd (case nd of
            Some nd \<Rightarrow> if l > 0 \<and> nodePointView E nd \<noteq> [] then ret (nodePointView E nd) else readVector E n
          | None \<Rightarrow> readVector E n) (\<lambda>cv.
     bnd (computeDistance E v cv) (\<lambda>d.
     let q' = pq_push (d, n) q in ret (if length q' > k then tl q' else q'))))"

lemma wp_simple_step:
  assumes "ok ix" "view (ix_vs ix) n \<noteq> None" "length v = ev_dim E" "length q \<le> k"
  shows "wp (simple_step v k l n q) ix
    (\<lambda>r ix'. snd ` set r \<subseteq> insert n (snd ` set q) \<and> length r \<le> k \<and> keeps ix ix') (bad ix)"
proof -
  have push: "snd ` set (if length q' > k then tl q' else q') \<subseteq> insert n (snd ` set q)
      \<and> length (if length q' > k then tl q' else q') \<le> k" if "q' = pq_push (d, n) q" for d q'
  proof -
    have "set (if length q' > k then tl q' else q') \<subseteq> insert (d, n) (set q)"
    proof -
      have "set (tl q') \<subseteq> set q'" by (cases q') auto
      moreover have "set q' = insert (d, n) (set q)" using that by simp
      ultimately show ?thesis by auto
    qed
    then have "snd ` set (if length q' > k then tl q' else q') \<subseteq> snd ` insert (d, n) (set q)" by (rule image_mono)
    then show ?thesis using that assms(4) by simp
  qed
  have fetch: "wp (case nd of
            Some nd \<Rightarrow> if l > 0 \<and> nodePointView E nd \<noteq> [] then ret (nodePointView E nd) else readVector E n
          | None \<Rightarrow> readVector E n) ix (\<lambda>cv ix'. length cv = ev_dim E \<and> keeps ix ix') (bad ix)"
    if "nd = map_of (ix_nodes ix) n" for nd
  proof -
    obtain w where w: "view (ix_vs ix) n = Some w" using assms(2) by blast
    have disk: "wp (readVector E n) ix (\<lambda>cv ix'. length cv = ev_dim E \<and> keeps ix ix') (bad ix)"
      by (rule wp_conseq [OF wp_readVector [OF assms(1) w]]) (use view_dim [OF assms(1) w] in auto)
    show ?thesis
      using disk that node_dim [OF assms(1), of n] keeps_refl [OF assms(1)]
      by (auto split: option.splits intro!: wp_if wp_ret)
  qed
  show ?thesis
    unfolding simple_step_def findNode_def
  proof (intro wp_bnd wp_get, rule wp_conseq [OF fetch [OF refl]], intro wp_bnd)
    fix cv :: vec and ix1
    assume "length cv = ev_dim E \<and> keeps ix ix1"
    then show "wp (computeDistance E v cv) ix1
      (\<lambda>d ix'. wp (let q' = pq_push (d, n) q in ret (if length q' > k then tl q' else q')) ix'
        (\<lambda>r ix'. snd ` set r \<subseteq> insert n (snd ` set q) \<and> length r \<le> k \<and> keeps ix ix') (bad ix)) (bad ix)"
      unfolding Let_def using push assms(3) by (intro wp_computeDistance wp_ret) auto
  qed simp
qed

lemma wp_selectSimple:
  assumes "ok ix" "\<forall>n \<in> set ids. view (ix_vs ix) n \<noteq> None" "length v = ev_dim E"
  shows "wp (selectNeighborsSimple E v ids k l) ix
    (\<lambda>r ix'. set r \<subseteq> set ids \<and> length r \<le> k \<and> keeps ix ix') (bad ix)"
proof (cases "length ids \<le> k")
  case True
  then show ?thesis using keeps_refl [OF assms(1)] by (simp add: selectNeighborsSimple_def wp_ret)
next
  case False
  let ?I = "\<lambda>ns q ix'. set ns \<subseteq> set ids \<and> snd ` set q \<subseteq> set ids \<and> length q \<le> k \<and> keeps ix ix'"
  have "wp (for_each ids (simple_step v k l) []) ix (\<lambda>q ix'. snd ` set q \<subseteq> set ids \<and> length q \<le> k \<and> keeps ix ix') (bad ix)"
  proof (rule wp_for_each [where I = ?I])
    fix n ns and q :: "cand list" and ix1
    assume I: "?I (n # ns) q ix1"
    then have k1: "keeps ix ix1" by simp
    have "view (ix_vs ix1) n \<noteq> None" "length q \<le> k" using I assms(2) by (auto simp: keeps_seen(1) [OF k1])
    from wp_simple_step [OF keeps_seen(11) [OF k1] this(1) assms(3) this(2)]
    show "wp (simple_step v k l n q) ix1 (?I ns) (bad ix)"
      by (rule wp_conseq) (use I k1 in \<open>auto intro: keeps_trans keeps_bad\<close>)
  qed (use keeps_refl [OF assms(1)] in auto)
  then have "wp (bnd (for_each ids (simple_step v k l) []) (\<lambda>q. ret (map snd q))) ix
    (\<lambda>r ix'. set r \<subseteq> set ids \<and> length r \<le> k \<and> keeps ix ix') (bad ix)"
    by (rule wp_seq) (auto intro!: wp_ret)
  moreover have "selectNeighborsSimple E v ids k l = bnd (for_each ids (simple_step v k l) []) (\<lambda>q. ret (map snd q))"
    using False by (simp add: selectNeighborsSimple_def simple_step_def [abs_def])
  ultimately show ?thesis by simp
qed

lemma wp_selectNeighbors:
  assumes "ok ix" "\<forall>n \<in> set ids. view (ix_vs ix) n \<noteq> None" "length v = ev_dim E"
  shows "wp (selectNeighbors E v ids k l) ix
    (\<lambda>r ix'. set r \<subseteq> set ids \<and> length r \<le> k \<and> keeps ix ix') (bad ix)"
proof (cases "ev_heuristic E")
  case True
  have "fst ` set (sort_key snd (with_dist ix l v ids)) = set ids" by (simp add: with_dist_def image_image)
  then show ?thesis
    using True pruned_subset [of ix l k "sort_key snd (with_dist ix l v ids)"] pruned_length
    by (auto simp: selectNeighbors_def intro!: wp_conseq [OF wp_heuristic2 [OF assms]] split: if_splits)
next
  case False
  then show ?thesis using wp_selectSimple [OF assms] by (simp add: selectNeighbors_def)
qed

end

end
