(* ===== verification/Hnsw_Insert.thy ===== *)
theory Hnsw_Insert
  imports Hnsw_Select
begin

text \<open>
  Insertion keeps the index in order. \<open>evolves\<close> is what every step after the vector is stored
  guarantees: the invariant holds again and no stored vector, deletion mark or id mapping changes.
  \<open>degrees_ok\<close> bounds the neighbour lists of the upper layers.
\<close>

definition degrees_ok :: "nat \<Rightarrow> (node_id \<times> node) list \<Rightarrow> bool" where
  "degrees_ok k nodes \<longleftrightarrow>
     (\<forall>n nd l ms. map_of nodes n = Some nd \<longrightarrow> map_of (nd_layers nd) l = Some ms \<longrightarrow> length ms \<le> k)"

definition stored_vector :: "('s, 'g) env \<Rightarrow> vec \<Rightarrow> bytes option \<Rightarrow> vec" where
  "stored_vector E v encoded = vs_decode (ev_vs E) (case encoded of Some b \<Rightarrow> b | None \<Rightarrow> vs_encode (ev_vs E) v)"

context hnsw
begin

text \<open>The part of the state that linking leaves alone.\<close>

definition store_view where
  "store_view ix = (view (ix_vs ix), writable (ix_vs ix), (\<lambda>m. vs_exists (ev_vs E) m (ix_vs ix)), ix_ids ix,
     ix_entry ix, ix_max_layer ix)"

definition evolves :: "('s, 'g) index \<Rightarrow> ('s, 'g) index \<Rightarrow> bool" where
  "evolves ix ix' \<longleftrightarrow> ok ix' \<and> store_view ix' = store_view ix"

definition broken :: "('s, 'g) index \<Rightarrow> ('s, 'g) index \<Rightarrow> bool" where
  "broken ix ix' \<longleftrightarrow> faulty \<and> evolves ix ix'"

lemma evolves_refl: "ok ix \<Longrightarrow> evolves ix ix"
  by (simp add: evolves_def)

lemma evolves_trans: "evolves ix ix' \<Longrightarrow> evolves ix' ix'' \<Longrightarrow> evolves ix ix''"
  by (simp add: evolves_def)

lemma evolves_broken: "evolves ix ix' \<Longrightarrow> broken ix' ix'' \<Longrightarrow> broken ix ix''"
  unfolding broken_def using evolves_trans by blast

lemma keeps_evolves: "keeps ix ix' \<Longrightarrow> evolves ix ix'"
  by (simp add: keeps_def evolves_def seen_def store_view_def)

lemma bad_broken: "bad ix ix' \<Longrightarrow> broken ix ix'"
  unfolding bad_def broken_def using keeps_evolves by blast

lemma evolves_view:
  assumes "evolves ix ix'"
  shows "view (ix_vs ix') = view (ix_vs ix)" "writable (ix_vs ix') = writable (ix_vs ix)" "ix_ids ix' = ix_ids ix" "ok ix'"
  using assms by (simp_all add: evolves_def store_view_def)

subsection \<open>Upper-layer lists\<close>

lemma evolves_nodes:
  "ok ix \<Longrightarrow> nodes_ok E (view (ix_vs ix)) nodes \<Longrightarrow> evolves ix (ix\<lparr>ix_nodes := nodes\<rparr>)"
  by (simp add: evolves_def store_view_def index_ok_def)

lemma wp_nodeUpdate:
  assumes "ok ix"
    and "\<And>nd. map_of (ix_nodes ix) n = Some nd \<Longrightarrow> nodePointView E (f nd) = nodePointView E nd \<and>
      (\<forall>l ms. map_of (nd_layers (f nd)) l = Some ms \<longrightarrow> (\<forall>m \<in> set ms. view (ix_vs ix) m \<noteq> None))"
    and "\<And>ix'. evolves ix ix' \<Longrightarrow> (\<And>m. map_of (ix_nodes ix') m
      = (if m = n then map_option f (map_of (ix_nodes ix) n) else map_of (ix_nodes ix) m)) \<Longrightarrow> P () ix'"
  shows "wp (nodeUpdate n f) ix P Q"
proof (cases "map_of (ix_nodes ix) n")
  case None
  then have "P () ix" by (intro assms(3) evolves_refl [OF assms(1)]) simp
  then show ?thesis using None by (simp add: nodeUpdate_def wp_modify)
next
  case (Some nd)
  let ?nodes = "AList.update n (f nd) (ix_nodes ix)"
  have ok: "nodes_ok E (view (ix_vs ix)) (ix_nodes ix)" using assms(1) by (simp add: index_ok_def)
  have "nodes_ok E (view (ix_vs ix)) ?nodes"
    unfolding nodes_ok_def
  proof (intro allI impI)
    fix m nd' assume m: "map_of ?nodes m = Some nd'"
    show "length (nodePointView E nd') = ev_dim E \<and>
        (\<forall>l ms. map_of (nd_layers nd') l = Some ms \<longrightarrow> (\<forall>m \<in> set ms. view (ix_vs ix) m \<noteq> None))"
    proof (cases "m = n")
      case True
      then have "nd' = f nd" using m by (simp add: update_conv')
      then show ?thesis using assms(2) [OF Some] ok Some unfolding nodes_ok_def by metis
    next
      case False
      then show ?thesis using m ok unfolding nodes_ok_def by (simp add: update_conv')
    qed
  qed
  then have "P () (ix\<lparr>ix_nodes := ?nodes\<rparr>)"
    using Some by (intro assms(3) evolves_nodes [OF assms(1)]) (simp_all add: update_conv')
  then show ?thesis using Some by (simp add: nodeUpdate_def wp_modify)
qed

lemma layer_put_find: "map_of (layer_put l ns ls) l' = (if l' = l then Some ns else map_of ls l')"
  by (simp add: layer_put_def update_conv')

lemma node_views:
  "ok ix \<Longrightarrow> map_of (ix_nodes ix) n = Some nd \<Longrightarrow> map_of (nd_layers nd) l = Some ms \<Longrightarrow> m \<in> set ms
    \<Longrightarrow> view (ix_vs ix) m \<noteq> None"
  unfolding index_ok_def nodes_ok_def by blast

lemma wp_putLayer:
  assumes "ok ix" "\<forall>m \<in> set ns. view (ix_vs ix) m \<noteq> None"
    and "\<And>ix'. evolves ix ix' \<Longrightarrow> (length ns \<le> k \<Longrightarrow> degrees_ok k (ix_nodes ix) \<Longrightarrow> degrees_ok k (ix_nodes ix'))
      \<Longrightarrow> (\<And>m. map_of (ix_nodes ix') m
        = (if m = n then map_option (nd_layers_update (layer_put l ns)) (map_of (ix_nodes ix) n) else map_of (ix_nodes ix) m))
      \<Longrightarrow> P () ix'"
  shows "wp (nodeUpdate n (nd_layers_update (layer_put l ns))) ix P Q"
proof (rule wp_nodeUpdate [OF assms(1)], goal_cases)
  case (1 nd)
  then show ?case using assms(2) node_views [OF assms(1) 1]
    by (auto simp: nodePointView_def layer_put_find split: if_splits)
next
  case (2 ix')
  have "degrees_ok k (ix_nodes ix')" if "length ns \<le> k" "degrees_ok k (ix_nodes ix)"
    unfolding degrees_ok_def
  proof (intro allI impI)
    fix m nd' l' ms assume "map_of (ix_nodes ix') m = Some nd'" "map_of (nd_layers nd') l' = Some ms"
    then show "length ms \<le> k" using that 2(2) [of m] unfolding degrees_ok_def
      by (auto simp: layer_put_find split: if_splits)
  qed
  then show ?case by (intro assms(3) 2) auto
qed


text \<open>The steps that follow the store: the invariant holds and the degree bound is kept.\<close>

definition linked :: "('s, 'g) index \<Rightarrow> ('s, 'g) index \<Rightarrow> bool" where
  "linked ix ix' \<longleftrightarrow> evolves ix ix'
     \<and> (degrees_ok (ev_m_max E) (ix_nodes ix) \<longrightarrow> degrees_ok (ev_m_max E) (ix_nodes ix'))"

lemma linked_refl: "ok ix \<Longrightarrow> linked ix ix"
  by (simp add: linked_def evolves_refl)

lemma linked_trans: "linked ix ix' \<Longrightarrow> linked ix' ix'' \<Longrightarrow> linked ix ix''"
  unfolding linked_def using evolves_trans by blast

lemma linked_evolves: "linked ix ix' \<Longrightarrow> evolves ix ix'"
  by (simp add: linked_def)

lemma keeps_linked: "keeps ix ix' \<Longrightarrow> linked ix ix'"
  by (simp add: linked_def keeps_evolves keeps_seen(4))

lemma wp_linkBack:
  assumes "ok ix" "view (ix_vs ix) n \<noteq> None"
  shows "wp (linkBack E n l m) ix (\<lambda>_. linked ix) (broken ix)"
proof (cases "map_of (ix_nodes ix) m")
  case None
  then show ?thesis using linked_refl [OF assms(1)] by (simp add: linkBack_def findNode_def wp_bnd wp_get wp_ret)
next
  case (Some nd)
  let ?ls = "layer_push l n (nd_layers nd)"
  let ?old = "case layer_find (nd_layers nd) l of None \<Rightarrow> [] | Some ns \<Rightarrow> ns"
  have conn: "the (layer_find ?ls l) = ?old @ [n]" by (simp add: layer_push_def layer_find_def layer_put_find)
  have ls: "map_of ?ls l' = (if l' = l then Some (?old @ [n]) else map_of (nd_layers nd) l')" for l'
    by (simp add: layer_push_def layer_put_find)
  have views: "\<forall>x \<in> set (?old @ [n]). view (ix_vs ix) x \<noteq> None"
    using assms(2) node_views [OF assms(1) Some]
    by (cases "map_of (nd_layers nd) l") (auto simp: layer_find_def)
  let ?pt = "if nd_point nd \<noteq> [] then Some (nd_point nd) else dequantizeNodePoint E nd"
  have basis: "?pt = Some (nodePointView E nd)"
    using node_dim [OF assms(1) Some] by (auto simp: nodePointView_def dequantizeNodePoint_def split: if_splits)
  have rest: "wp (if length (?old @ [n]) \<le> ev_m_max E then ret ()
        else case ?pt of None \<Rightarrow> ret ()
           | Some basis \<Rightarrow> bnd (selectNeighbors E basis (?old @ [n]) (ev_m_max E) l)
               (\<lambda>kept. nodeUpdate m (nd_layers_update (layer_put l kept)))) ix1 (\<lambda>_. linked ix) (broken ix)"
    if e1: "evolves ix ix1"
      and n1: "\<And>x. map_of (ix_nodes ix1) x = (if x = m then map_option (nd_layers_update (\<lambda>_. ?ls)) (map_of (ix_nodes ix) m)
          else map_of (ix_nodes ix) x)" for ix1
  proof (rule wp_if)
    assume short: "length (?old @ [n]) \<le> ev_m_max E"
    have "degrees_ok (ev_m_max E) (ix_nodes ix1)" if "degrees_ok (ev_m_max E) (ix_nodes ix)"
      unfolding degrees_ok_def
    proof (intro allI impI)
      fix x nd' l' ms assume "map_of (ix_nodes ix1) x = Some nd'" "map_of (nd_layers nd') l' = Some ms"
      then show "length ms \<le> ev_m_max E"
        using that short n1 [of x] Some unfolding degrees_ok_def by (auto simp: ls split: if_splits)
    qed
    then show "wp (ret ()) ix1 (\<lambda>_. linked ix) (broken ix)" using e1 by (intro wp_ret) (simp add: linked_def)
  next
    note ok1 = evolves_view(4) [OF e1]
    have v1: "\<forall>x \<in> set (?old @ [n]). view (ix_vs ix1) x \<noteq> None" using views by (simp add: evolves_view(1) [OF e1])
    have d1: "length (nodePointView E nd) = ev_dim E" using node_dim [OF assms(1) Some] by simp
    have "wp (bnd (selectNeighbors E (nodePointView E nd) (?old @ [n]) (ev_m_max E) l)
               (\<lambda>kept. nodeUpdate m (nd_layers_update (layer_put l kept)))) ix1 (\<lambda>_. linked ix) (broken ix)"
    proof (rule wp_seq [OF wp_selectNeighbors [OF ok1 v1 d1]])
      fix kept ix2
      assume s: "set kept \<subseteq> set (?old @ [n]) \<and> length kept \<le> ev_m_max E \<and> keeps ix1 ix2"
      then have k2: "keeps ix1 ix2" and e2: "evolves ix ix2" using e1 keeps_evolves evolves_trans by blast+
      have v2: "\<forall>x \<in> set kept. view (ix_vs ix2) x \<noteq> None" using s v1 by (auto simp: keeps_seen(1) [OF k2])
      show "wp (nodeUpdate m (nd_layers_update (layer_put l kept))) ix2 (\<lambda>_. linked ix) (broken ix)"
      proof (rule wp_putLayer [OF keeps_seen(11) [OF k2] v2, where k = "ev_m_max E"])
        fix ix3
        assume e3: "evolves ix2 ix3"
          and n3: "\<And>x. map_of (ix_nodes ix3) x = (if x = m
              then map_option (nd_layers_update (layer_put l kept)) (map_of (ix_nodes ix2) m) else map_of (ix_nodes ix2) x)"
        have "degrees_ok (ev_m_max E) (ix_nodes ix3)" if "degrees_ok (ev_m_max E) (ix_nodes ix)"
          unfolding degrees_ok_def
        proof (intro allI impI)
          fix x nd' l' ms assume "map_of (ix_nodes ix3) x = Some nd'" "map_of (nd_layers nd') l' = Some ms"
          then show "length ms \<le> ev_m_max E"
            using that s n3 [of x] n1 [of x] Some unfolding degrees_ok_def
            by (auto simp: ls layer_put_find keeps_seen(4) [OF k2] split: if_splits)
        qed
        then show "linked ix ix3" using e2 e3 evolves_trans by (auto simp: linked_def)
      qed
    qed (rule evolves_broken [OF e1], rule bad_broken)
    then show "wp (case ?pt of None \<Rightarrow> ret ()
           | Some basis \<Rightarrow> bnd (selectNeighbors E basis (?old @ [n]) (ev_m_max E) l)
               (\<lambda>kept. nodeUpdate m (nd_layers_update (layer_put l kept)))) ix1 (\<lambda>_. linked ix) (broken ix)"
      by (simp only: basis option.case)
  qed
  have "wp (bnd (nodeUpdate m (nd_layers_update (\<lambda>_. ?ls))) (\<lambda>_.
      if length (?old @ [n]) \<le> ev_m_max E then ret ()
      else case ?pt of None \<Rightarrow> ret ()
         | Some basis \<Rightarrow> bnd (selectNeighbors E basis (?old @ [n]) (ev_m_max E) l)
             (\<lambda>kept. nodeUpdate m (nd_layers_update (layer_put l kept))))) ix (\<lambda>_. linked ix) (broken ix)"
  proof (rule wp_bnd, rule wp_nodeUpdate [OF assms(1)], goal_cases)
    case (1 nd')
    then have "nd' = nd" using Some by simp
    then show ?case using views node_views [OF assms(1) Some]
      by (auto simp: nodePointView_def ls split: if_splits)
  next
    case (2 ix1)
    then show ?case by (rule rest)
  qed
  note turn = this
  show ?thesis
    unfolding linkBack_def findNode_def
    by (rule wp_bnd, rule wp_get, unfold Some option.case Let_def conn, rule turn)
qed


definition selection_ok :: "('s, 'g) index \<Rightarrow> (int \<times> node_id list) list \<Rightarrow> bool" where
  "selection_ok ix selected \<longleftrightarrow>
     (\<forall>(l, ns) \<in> set selected. length ns \<le> ev_m E \<and> (\<forall>m \<in> set ns. view (ix_vs ix) m \<noteq> None))"

lemma selection_at:
  assumes "selection_ok ix selected" "ns = (case map_of selected l of None \<Rightarrow> [] | Some ns \<Rightarrow> ns)"
  shows "length ns \<le> ev_m E" "\<forall>m \<in> set ns. view (ix_vs ix) m \<noteq> None"
  using assms unfolding selection_ok_def
  by (cases "map_of selected l"; force dest: map_of_SomeD)+

lemma wp_linkUpper:
  assumes "ok ix" "view (ix_vs ix) n \<noteq> None" "selection_ok ix selected" "ev_m E \<le> ev_m_max E"
  shows "wp (linkUpper E n selected hi) ix (\<lambda>_. linked ix) (broken ix)"
proof -
  let ?body = "\<lambda>l (_ :: unit). let ns = (case map_of selected l of None \<Rightarrow> [] | Some ns \<Rightarrow> ns) in
           bnd (nodeUpdate n (nd_layers_update (layer_put l ns))) (\<lambda>_.
           for_each ns (\<lambda>m _. linkBack E n l m) ())"
  have "wp (for_each (rev [1..hi]) ?body ()) ix (\<lambda>_. linked ix) (broken ix)"
  proof (rule wp_for_each [where I = "\<lambda>_ _. linked ix"])
    fix l :: int and ls :: "int list" and u :: unit and ix1
    assume l1: "linked ix ix1"
    then have e1: "evolves ix ix1" by (rule linked_evolves)
    note v1 = evolves_view [OF e1]
    define ns where "ns = (case map_of selected l of None \<Rightarrow> [] | Some ns \<Rightarrow> ns)"
    note N = selection_at [OF assms(3) ns_def]
    have each: "wp (for_each ns (\<lambda>m _. linkBack E n l m) ()) ix2 (\<lambda>_. linked ix) (broken ix)" if l2: "linked ix ix2" for ix2
    proof (rule wp_for_each [where I = "\<lambda>_ _. linked ix"])
      fix m :: node_id and ms :: "node_id list" and u :: unit and ix3
      assume l3: "linked ix ix3"
      then have e3: "evolves ix ix3" by (rule linked_evolves)
      have "view (ix_vs ix3) n \<noteq> None" using assms(2) by (simp add: evolves_view(1) [OF e3])
      from wp_linkBack [OF evolves_view(4) [OF e3] this]
      show "wp (linkBack E n l m) ix3 (\<lambda>_. linked ix) (broken ix)"
        by (rule wp_conseq) (use l3 e3 linked_trans evolves_broken in blast)+
    qed (use l2 in auto)
    have "wp (bnd (nodeUpdate n (nd_layers_update (layer_put l ns))) (\<lambda>_. for_each ns (\<lambda>m _. linkBack E n l m) ())) ix1
      (\<lambda>_. linked ix) (broken ix)"
    proof (rule wp_bnd, rule wp_putLayer [OF v1(4), where k = "ev_m_max E"])
      show "\<forall>m \<in> set ns. view (ix_vs ix1) m \<noteq> None" using N(2) v1(1) by simp
    next
      fix ix2
      assume "evolves ix1 ix2"
        and "length ns \<le> ev_m_max E \<Longrightarrow> degrees_ok (ev_m_max E) (ix_nodes ix1) \<Longrightarrow> degrees_ok (ev_m_max E) (ix_nodes ix2)"
      then have "linked ix1 ix2" using N(1) assms(4) by (simp add: linked_def)
      then show "wp (for_each ns (\<lambda>m _. linkBack E n l m) ()) ix2 (\<lambda>_. linked ix) (broken ix)"
        using each l1 linked_trans by blast
    qed
    then show "wp (?body l u) ix1 (\<lambda>_. linked ix) (broken ix)" by (simp add: ns_def Let_def)
  qed (use linked_refl [OF assms(1)] in auto)
  then show ?thesis using linked_refl [OF assms(1)]
    by (auto simp: linkUpper_def findNode_def intro!: wp_bnd wp_get wp_ret split: option.split)
qed

subsection \<open>Layer-0 links\<close>

text \<open>Erasing keys from the cache.\<close>

lemma wp_cacheErase:
  assumes "cache_ok (ev_varint E) ld vw (ix_cache ix)" "n \<noteq> k_invalid_node_id"
    and "\<And>co. cache_ok (ev_varint E) ld (vw(n := None)) co \<Longrightarrow> (ix_cache ix = None \<Longrightarrow> co = None) \<Longrightarrow> P () (ix\<lparr>ix_cache := co\<rparr>)"
  shows "wp (cacheErase n) ix P Q"
proof (cases "ix_cache ix")
  case None
  then have "P () (ix\<lparr>ix_cache := None\<rparr>)" by (intro assms(3)) (simp_all add: cache_ok_def)
  moreover have "ix\<lparr>ix_cache := None\<rparr> = ix" using None by (cases ix) simp
  ultimately show ?thesis using None by (simp add: cacheErase_def wp_def)
next
  case (Some c)
  then have c: "edge_cache_ok (ev_varint E) c" "ec_view (ev_varint E) c \<subseteq>\<^sub>m (\<lambda>k. if vw k = None then None else Some (ld k))"
    using assms(1) by (simp_all add: cache_ok_def)
  obtain c' where c': "ec_erase n c = Some c'" "edge_cache_ok (ev_varint E) c'"
    "ec_view (ev_varint E) c' = (ec_view (ev_varint E) c)(n := None)"
    using ec.erase_law [OF c(1) assms(2)] by blast
  have "ec_view (ev_varint E) c' \<subseteq>\<^sub>m (\<lambda>k. if (vw(n := None)) k = None then None else Some (ld k))"
  proof (rule map_leI)
    fix k v assume "ec_view (ev_varint E) c' k = Some v"
    then have "k \<noteq> n" "ec_view (ev_varint E) c k = Some v" using c'(3) by (auto split: if_splits)
    then show "(if (vw(n := None)) k = None then None else Some (ld k)) = Some v"
      using map_le_some [OF c(2)] by simp
  qed
  then have "P () (ix\<lparr>ix_cache := Some c'\<rparr>)" using Some c' by (intro assms(3)) (simp_all add: cache_ok_def)
  then show ?thesis using Some c'(1) by (simp add: cacheErase_def wp_def)
qed

definition drop_keys :: "node_id list \<Rightarrow> (node_id \<rightharpoonup> vec) \<Rightarrow> node_id \<rightharpoonup> vec" where
  "drop_keys ns vw = (\<lambda>k. if k \<in> set ns then None else vw k)"

text \<open>A cache that agrees with the graph outside the erased keys is coherent with any graph that
  agrees with it there.\<close>

lemma cache_ok_drop:
  assumes "cache_ok varint ld (drop_keys ns vw) co" "\<And>k. vw k \<noteq> None \<Longrightarrow> k \<notin> set ns \<Longrightarrow> ld' k = ld k"
  shows "cache_ok varint ld' vw co"
proof (cases co)
  case (Some c)
  then have c: "edge_cache_ok varint c" "ec_view varint c \<subseteq>\<^sub>m (\<lambda>k. if drop_keys ns vw k = None then None else Some (ld k))"
    using assms(1) by (simp_all add: cache_ok_def)
  have "ec_view varint c \<subseteq>\<^sub>m (\<lambda>k. if vw k = None then None else Some (ld' k))"
  proof (rule map_leI)
    fix k v assume "ec_view varint c k = Some v"
    from map_le_some [OF c(2) this] assms(2) [of k]
    show "(if vw k = None then None else Some (ld' k)) = Some v" by (auto simp: drop_keys_def split: if_splits)
  qed
  with Some c(1) show ?thesis by (simp add: cache_ok_def)
qed (simp add: cache_ok_def)


text \<open>The invariant without the cache, which the erasures after a graph write restore.\<close>

definition ok_but_cache :: "('s, 'g) index \<Rightarrow> bool" where
  "ok_but_cache ix \<longleftrightarrow> ok (ix\<lparr>ix_cache := None\<rparr>)"

lemma ok_cache:
  "ok ix \<longleftrightarrow> ok_but_cache ix \<and> cache_ok (ev_varint E) (adj (ix_gs ix)) (view (ix_vs ix)) (ix_cache ix)"
  by (auto simp: ok_but_cache_def index_ok_def cache_ok_def)

lemma ok_but_cache_set [simp]: "ok_but_cache (ix\<lparr>ix_cache := co\<rparr>) = ok_but_cache ix"
  by (simp add: ok_but_cache_def)

definition same_nodes where
  "same_nodes ix ix' \<longleftrightarrow> store_view ix' = store_view ix \<and> ix_nodes ix' = ix_nodes ix \<and> ix_entry ix' = ix_entry ix
     \<and> ix_max_layer ix' = ix_max_layer ix"

text \<open>Erasing \<open>ns\<close> after a write that changed adjacencies at \<open>ns\<close> only.\<close>

lemma wp_eraseEach:
  assumes "ok_but_cache ix0" "\<forall>k \<in> set ks. k \<noteq> k_invalid_node_id"
    and "cache_ok (ev_varint E) ld (drop_keys done (view (ix_vs ix0))) (ix_cache ix)"
    and "ok_but_cache ix" "same_nodes ix0 ix" "ix_gs ix = g"
  shows "wp (for_each ks (\<lambda>m _. cacheErase m) ()) ix
    (\<lambda>_ ix'. ok_but_cache ix' \<and> same_nodes ix0 ix' \<and> ix_gs ix' = g
      \<and> cache_ok (ev_varint E) ld (drop_keys (done @ ks) (view (ix_vs ix0))) (ix_cache ix')) Q"
  using assms(2-)
proof (induction ks arbitrary: ix "done")
  case Nil
  then show ?case by (auto intro!: wp_ret)
next
  case (Cons k ks)
  have drop: "(drop_keys done (view (ix_vs ix0)))(k := None) = drop_keys (done @ [k]) (view (ix_vs ix0))"
    by (auto simp: drop_keys_def fun_eq_iff)
  have k: "k \<noteq> k_invalid_node_id" using Cons.prems(1) by simp
  show ?case
    unfolding for_each.simps
  proof (rule wp_bnd, rule wp_cacheErase [OF Cons.prems(2) k])
    fix co
    assume co: "cache_ok (ev_varint E) ld ((drop_keys done (view (ix_vs ix0)))(k := None)) co"
    from Cons.IH [of "done @ [k]" "ix\<lparr>ix_cache := co\<rparr>"] co [unfolded drop] Cons.prems
    show "wp (for_each ks (\<lambda>m _. cacheErase m) ()) (ix\<lparr>ix_cache := co\<rparr>)
      (\<lambda>_ ix'. ok_but_cache ix' \<and> same_nodes ix0 ix' \<and> ix_gs ix' = g
        \<and> cache_ok (ev_varint E) ld (drop_keys (done @ k # ks) (view (ix_vs ix0))) (ix_cache ix')) Q"
      by (simp add: same_nodes_def store_view_def)
  qed
qed

lemma drop_Nil: "drop_keys [] vw = vw"
  by (simp add: drop_keys_def)

definition uncached :: "('s, 'g) index \<Rightarrow> node_id \<Rightarrow> bool" where
  "uncached ix k \<longleftrightarrow> (case ix_cache ix of None \<Rightarrow> True | Some c \<Rightarrow> ec_view (ev_varint E) c k = None)"

text \<open>A graph write followed by the erasure of every key whose adjacency it changed.\<close>

lemma wp_writeErase:
  assumes ok: "ok ix" and w: "w (ix_gs ix) = (st, g)"
    and snd: "sound g" and keys: "\<forall>k \<in> set ks. k \<noteq> k_invalid_node_id"
    and fail: "st \<noteq> OK \<Longrightarrow> adj g = adj (ix_gs ix)"
    and same: "st = OK \<Longrightarrow> \<forall>k. view (ix_vs ix) k \<noteq> None \<longrightarrow> k \<notin> set ks \<longrightarrow> adj g k = adj (ix_gs ix) k \<or> uncached ix k"
  shows "wp (bnd (graphWrite w) (\<lambda>st. if st \<noteq> OK then ret st
      else bnd (for_each ks (\<lambda>m _. cacheErase m) ()) (\<lambda>_. ret OK))) ix (\<lambda>_. linked ix) (broken ix)"
proof -
  let ?ix = "ix\<lparr>ix_gs := g, ix_corrupt := ix_corrupt ix \<or> st = Corruption\<rparr>"
  have b: "ok_but_cache ?ix" using ok snd by (simp add: ok_but_cache_def index_ok_def cache_ok_def)
  have s: "same_nodes ix ?ix" by (simp add: same_nodes_def store_view_def)
  have lk: "linked ix ix'" if "ok ix'" "same_nodes ix ix'" for ix'
    using that by (simp add: linked_def evolves_def same_nodes_def)
  have "wp (if st \<noteq> OK then ret st else bnd (for_each ks (\<lambda>m _. cacheErase m) ()) (\<lambda>_. ret OK)) ?ix
    (\<lambda>_. linked ix) (broken ix)"
  proof (rule wp_if)
    assume "st \<noteq> OK"
    then have "ok ?ix" using ok b fail by (simp add: ok_cache)
    then show "wp (ret st) ?ix (\<lambda>_. linked ix) (broken ix)" using s lk by (intro wp_ret) blast
  next
    assume st: "\<not> st \<noteq> OK"
    have c0: "cache_ok (ev_varint E) (adj (ix_gs ix)) (view (ix_vs ix)) (ix_cache ix)" using ok by (simp add: ok_cache)
    let ?ld = "\<lambda>k. if uncached ix k then adj g k else adj (ix_gs ix) k"
    have "cache_ok (ev_varint E) ?ld (view (ix_vs ix)) (ix_cache ix)"
    proof (cases "ix_cache ix")
      case (Some c)
      then have c: "edge_cache_ok (ev_varint E) c"
        "ec_view (ev_varint E) c \<subseteq>\<^sub>m (\<lambda>k. if view (ix_vs ix) k = None then None else Some (adj (ix_gs ix) k))"
        using c0 by (simp_all add: cache_ok_def)
      have "ec_view (ev_varint E) c \<subseteq>\<^sub>m (\<lambda>k. if view (ix_vs ix) k = None then None else Some (?ld k))"
      proof (rule map_leI)
        fix k v assume v: "ec_view (ev_varint E) c k = Some v"
        from map_le_some [OF c(2) v] show "(if view (ix_vs ix) k = None then None else Some (?ld k)) = Some v"
          using v Some by (auto simp: uncached_def split: if_splits)
      qed
      with c(1) Some show ?thesis by (simp add: cache_ok_def)
    qed (simp add: cache_ok_def)
    then have c: "cache_ok (ev_varint E) ?ld (drop_keys [] (view (ix_vs ix))) (ix_cache ?ix)" by (simp add: drop_Nil)
    have "ok_but_cache ix" using ok by (simp add: ok_cache)
    from wp_eraseEach [OF this keys c b s, of g]
    have "wp (for_each ks (\<lambda>m _. cacheErase m) ()) ?ix (\<lambda>_. linked ix) (broken ix)"
    proof (rule wp_conseq)
      show "linked ix ix'" if "ok_but_cache ix' \<and> same_nodes ix ix' \<and> ix_gs ix' = g
          \<and> cache_ok (ev_varint E) ?ld (drop_keys ([] @ ks) (view (ix_vs ix))) (ix_cache ix')" for ix'
      proof (rule lk)
        have "view (ix_vs ix') = view (ix_vs ix)" using that by (simp add: same_nodes_def store_view_def)
        moreover have "cache_ok (ev_varint E) (adj g) (view (ix_vs ix)) (ix_cache ix')"
        proof (rule cache_ok_drop)
          show "cache_ok (ev_varint E) ?ld (drop_keys ks (view (ix_vs ix))) (ix_cache ix')" using that by simp
          show "adj g k = ?ld k" if "view (ix_vs ix) k \<noteq> None" "k \<notin> set ks" for k
            using same st that by auto
        qed
        ultimately show "ok ix'" using that by (simp add: ok_cache)
      qed (use that in simp)
    qed simp_all
    then show "wp (bnd (for_each ks (\<lambda>m _. cacheErase m) ()) (\<lambda>_. ret OK)) ?ix (\<lambda>_. linked ix) (broken ix)"
      by (rule wp_seq) (auto intro: wp_ret)
  qed
  note rest = this
  have "wp (if a \<noteq> OK then ret a else bnd (for_each ks (\<lambda>m _. cacheErase m) ()) (\<lambda>_. ret OK)) s'
      (\<lambda>_. linked ix) (broken ix)"
    if "(case w (ix_gs ix) of (st, g) \<Rightarrow> (st, ix\<lparr>ix_gs := g, ix_corrupt := (ix_corrupt ix \<or> st = Corruption)\<rparr>)) = (a, s')" for a s'
  proof -
    have "a = st" "s' = ?ix" using that unfolding w by auto
    then show ?thesis using rest by (simp only:)
  qed
  then show ?thesis unfolding graphWrite_def by (intro wp_bnd wp_upd)
qed


lemma wp_linkDB:
  assumes "ok ix" "n \<noteq> k_invalid_node_id" "uncached ix n" "\<forall>m \<in> set ns. view (ix_vs ix) m \<noteq> None"
  shows "wp (linkNeighborsAsterDB E n ns) ix (\<lambda>_. linked ix) (broken ix)"
proof (cases "ns = []")
  case True
  then show ?thesis using linked_refl [OF assms(1)] by (simp add: linkNeighborsAsterDB_def wp_ret)
next
  case False
  let ?es = "concat (map (\<lambda>m. [(n, m), (m, n)]) ns)"
  obtain st g where w: "gs_AddEdgeBatch (ev_gs E) ?es (ix_gs ix) = (st, g)" by force
  have s: "sound (ix_gs ix)" using assms(1) by (simp add: index_ok_def)
  note A = gs.add_law [OF w]
  have es: "k \<in> fst ` set ?es \<Longrightarrow> k = n \<or> k \<in> set ns" for k by auto
  have "wp (bnd (graphWrite (gs_AddEdgeBatch (ev_gs E) ?es)) (\<lambda>st. if st \<noteq> OK then ret st
      else bnd (for_each ns (\<lambda>m _. cacheErase m) ()) (\<lambda>_. ret OK))) ix (\<lambda>_. linked ix) (broken ix)"
  proof (rule wp_writeErase [where w = "gs_AddEdgeBatch (ev_gs E) ?es" and ix = ix and ks = ns,
        OF assms(1) w gs.sound_law(1) [OF s w]])
    show "\<forall>k \<in> set ns. k \<noteq> k_invalid_node_id" using assms(1,4) view_valid by blast
    show "adj g = adj (ix_gs ix)" if "st \<noteq> OK" using A that by simp
    show "\<forall>k. view (ix_vs ix) k \<noteq> None \<longrightarrow> k \<notin> set ns \<longrightarrow> adj g k = adj (ix_gs ix) k \<or> uncached ix k" if "st = OK"
      using A that es assms(3) by (metis (no_types, lifting))
  qed
  then show ?thesis using False by (simp add: linkNeighborsAsterDB_def)
qed

lemma wp_shrinkEdges:
  assumes "ok ix" "view (ix_vs ix) m \<noteq> None" "\<forall>(a, b) \<in> set es. view (ix_vs ix) a \<noteq> None \<and> view (ix_vs ix) b \<noteq> None"
  shows "wp (shrinkEdges E m es) ix
    (\<lambda>r ix'. (\<forall>(a, b) \<in> set r. view (ix_vs ix) a \<noteq> None \<and> view (ix_vs ix) b \<noteq> None) \<and> keeps ix ix') (bad ix)"
  unfolding shrinkEdges_def
proof (rule wp_seq [OF wp_getEdgesCached [OF assms(1,2)]])
  fix conn ix1
  assume s: "conn = layer_links view adj ix 0 m \<and> keeps ix ix1 \<and> ix_scratch ix1 = ix_scratch ix"
  then have k1: "keeps ix ix1" by simp
  have v1: "\<forall>x \<in> set conn. view (ix_vs ix1) x \<noteq> None"
    using s links_view [OF assms(1)] by (simp add: keeps_seen(1) [OF k1])
  let ?post = "\<lambda>r ix'. (\<forall>(a, b) \<in> set r. view (ix_vs ix) a \<noteq> None \<and> view (ix_vs ix) b \<noteq> None) \<and> keeps ix ix'"
  show "wp (if length conn \<le> ev_m_max E then ret es
    else bnd (readVector E m) (\<lambda>mv. bnd (selectNeighbors E mv conn (ev_m_max E) 0) (\<lambda>kept.
      ret (es @ map (Pair m) (filter (\<lambda>x. x \<notin> set kept) conn))))) ix1 ?post (bad ix)"
  proof (rule wp_if)
    show "wp (ret es) ix1 ?post (bad ix)" using assms(3) k1 by (intro wp_ret) simp
  next
    obtain v where v: "view (ix_vs ix1) m = Some v" using assms(2) by (auto simp: keeps_seen(1) [OF k1])
    show "wp (bnd (readVector E m) (\<lambda>mv. bnd (selectNeighbors E mv conn (ev_m_max E) 0) (\<lambda>kept.
      ret (es @ map (Pair m) (filter (\<lambda>x. x \<notin> set kept) conn))))) ix1 ?post (bad ix)"
    proof (rule wp_seq [OF wp_readVector [OF keeps_seen(11) [OF k1] v]])
      fix mv ix2
      assume m: "mv = v \<and> keeps ix1 ix2 \<and> ix_scratch ix2 = ix_scratch ix1"
      then have k2: "keeps ix ix2" using k1 keeps_trans by blast
      have v2: "\<forall>x \<in> set conn. view (ix_vs ix2) x \<noteq> None" "length mv = ev_dim E"
        using v1 m view_dim [OF keeps_seen(11) [OF k1] v] by (simp_all add: keeps_seen(1) [OF k1] keeps_seen(1) [OF k2])
      show "wp (bnd (selectNeighbors E mv conn (ev_m_max E) 0) (\<lambda>kept.
          ret (es @ map (Pair m) (filter (\<lambda>x. x \<notin> set kept) conn)))) ix2 ?post (bad ix)"
      proof (rule wp_seq [OF wp_selectNeighbors [OF keeps_seen(11) [OF k2] v2]])
        fix kept ix3
        assume "set kept \<subseteq> set conn \<and> length kept \<le> ev_m_max E \<and> keeps ix2 ix3"
        then have "keeps ix ix3" using k2 keeps_trans by blast
        moreover have "\<forall>x \<in> set conn. view (ix_vs ix) x \<noteq> None" using v1 by (simp add: keeps_seen(1) [OF k1])
        ultimately show "wp (ret (es @ map (Pair m) (filter (\<lambda>x. x \<notin> set kept) conn))) ix3 ?post (bad ix)"
          using assms(2,3) by (intro wp_ret) auto
      qed (rule keeps_bad [OF k2])
    qed (rule keeps_bad [OF k1])
  qed
qed simp

lemma bnd_assoc: "bnd (bnd m f) g = bnd m (\<lambda>a. bnd (f a) g)"
  by (rule ext) (simp add: bnd_def split: option.split sum.split prod.split)

lemma for_each_Cons: "for_each (x # xs) body = (\<lambda>a. bnd (body x a) (for_each xs body))"
  by (rule ext) simp

lemma for_each_pairs:
  "for_each es (\<lambda>(a, b) _. bnd (cacheErase a) (\<lambda>_. cacheErase b)) u
     = for_each (concat (map (\<lambda>(a, b). [a, b]) es)) (\<lambda>m _. cacheErase m) u"
  (is "for_each es ?f u = for_each (?c es) ?g u")
proof (induction es arbitrary: u)
  case (Cons e es)
  obtain a b where e: "e = (a, b)" by force
  have "for_each es ?f = for_each (?c es) ?g" by (rule ext) (rule Cons.IH)
  then show ?case by (simp add: e bnd_assoc for_each_Cons)
qed simp

lemma wp_shrinkLayer0:
  assumes "ok ix" "\<forall>m \<in> set ns. view (ix_vs ix) m \<noteq> None"
  shows "wp (shrinkLayer0 E ns) ix (\<lambda>_. linked ix) (broken ix)"
proof -
  let ?views = "\<lambda>es. \<forall>(a, b) \<in> set es. view (ix_vs ix) a \<noteq> None \<and> view (ix_vs ix) b \<noteq> None"
  have "wp (for_each ns (shrinkEdges E) []) ix (\<lambda>es ix'. ?views es \<and> keeps ix ix') (bad ix)"
  proof (rule wp_for_each [where I = "\<lambda>ms es ix'. set ms \<subseteq> set ns \<and> ?views es \<and> keeps ix ix'"])
    fix m ms es ix1
    assume I: "set (m # ms) \<subseteq> set ns \<and> ?views es \<and> keeps ix ix1"
    then have k1: "keeps ix ix1" by simp
    have "view (ix_vs ix1) m \<noteq> None" using I assms(2) by (simp add: keeps_seen(1) [OF k1])
    moreover have "\<forall>(a, b) \<in> set es. view (ix_vs ix1) a \<noteq> None \<and> view (ix_vs ix1) b \<noteq> None"
      using I by (simp add: keeps_seen(1) [OF k1])
    ultimately have W: "wp (shrinkEdges E m es) ix1
      (\<lambda>r ix'. (\<forall>(a, b) \<in> set r. view (ix_vs ix1) a \<noteq> None \<and> view (ix_vs ix1) b \<noteq> None) \<and> keeps ix1 ix') (bad ix1)"
      by (rule wp_shrinkEdges [OF keeps_seen(11) [OF k1]])
    show "wp (shrinkEdges E m es) ix1 (\<lambda>es ix'. set ms \<subseteq> set ns \<and> ?views es \<and> keeps ix ix') (bad ix)"
      by (rule wp_conseq [OF W]) (use I k1 keeps_trans keeps_bad in \<open>auto simp: keeps_seen(1) [OF k1]\<close>)
  qed (use keeps_refl [OF assms(1)] in auto)
  then have "wp (bnd (for_each ns (shrinkEdges E) []) (\<lambda>es.
       if es = [] then ret OK
       else bnd (graphWrite (gs_DeleteEdgeBatch (ev_gs E) es)) (\<lambda>st.
         if st \<noteq> OK then ret st
         else bnd (for_each (concat (map (\<lambda>(a, b). [a, b]) es)) (\<lambda>m _. cacheErase m) ()) (\<lambda>_. ret OK)))) ix
    (\<lambda>_. linked ix) (broken ix)"
  proof (rule wp_seq)
    fix es ix1
    assume e: "?views es \<and> keeps ix ix1"
    then have k1: "keeps ix ix1" by simp
    obtain st g where w: "gs_DeleteEdgeBatch (ev_gs E) es (ix_gs ix1) = (st, g)" by force
    have s: "sound (ix_gs ix1)" using keeps_seen(11) [OF k1] by (simp add: index_ok_def)
    note A = gs.delete_law [OF w]
    let ?ks = "concat (map (\<lambda>(a, b). [a, b]) es)"
    have fst: "k \<in> fst ` set es \<Longrightarrow> k \<in> set ?ks" for k by force
    have "wp (bnd (graphWrite (gs_DeleteEdgeBatch (ev_gs E) es)) (\<lambda>st.
         if st \<noteq> OK then ret st else bnd (for_each ?ks (\<lambda>m _. cacheErase m) ()) (\<lambda>_. ret OK))) ix1
      (\<lambda>_. linked ix1) (broken ix1)"
    proof (rule wp_writeErase [where w = "gs_DeleteEdgeBatch (ev_gs E) es" and ix = ix1 and ks = ?ks,
          OF keeps_seen(11) [OF k1] w gs.sound_law(2) [OF s w]])
      show "\<forall>k \<in> set ?ks. k \<noteq> k_invalid_node_id" using e view_valid [OF assms(1)] by fastforce
      show "adj g = adj (ix_gs ix1)" if "st \<noteq> OK" using A that by simp
      show "\<forall>k. view (ix_vs ix1) k \<noteq> None \<longrightarrow> k \<notin> set ?ks \<longrightarrow> adj g k = adj (ix_gs ix1) k \<or> uncached ix1 k" if "st = OK"
        using A that fst by (metis (no_types, lifting))
    qed
    then have "wp (bnd (graphWrite (gs_DeleteEdgeBatch (ev_gs E) es)) (\<lambda>st.
         if st \<noteq> OK then ret st else bnd (for_each ?ks (\<lambda>m _. cacheErase m) ()) (\<lambda>_. ret OK))) ix1
      (\<lambda>_. linked ix) (broken ix)"
      by (rule wp_conseq) (use k1 keeps_linked linked_trans evolves_broken keeps_evolves in blast)+
    then show "wp (if es = [] then ret OK
       else bnd (graphWrite (gs_DeleteEdgeBatch (ev_gs E) es)) (\<lambda>st.
         if st \<noteq> OK then ret st else bnd (for_each ?ks (\<lambda>m _. cacheErase m) ()) (\<lambda>_. ret OK))) ix1
      (\<lambda>_. linked ix) (broken ix)"
      using keeps_linked [OF k1] by (intro wp_if wp_ret)
  qed (rule bad_broken)
  then show ?thesis by (simp only: shrinkLayer0_def for_each_pairs)
qed


subsection \<open>Storing and publishing\<close>

text \<open>Only the new id's record may have changed.\<close>

definition apart :: "node_id \<Rightarrow> ('s, 'g) index \<Rightarrow> ('s, 'g) index \<Rightarrow> bool" where
  "apart n ix ix' \<longleftrightarrow> ok ix' \<and> ix_ids ix' = ix_ids ix
     \<and> (\<forall>m. m \<noteq> n \<longrightarrow> view (ix_vs ix') m = view (ix_vs ix) m
          \<and> vs_exists (ev_vs E) m (ix_vs ix') = vs_exists (ev_vs E) m (ix_vs ix))"

definition bounded :: "('s, 'g) index \<Rightarrow> ('s, 'g) index \<Rightarrow> bool" where
  "bounded ix ix' \<longleftrightarrow> (degrees_ok (ev_m_max E) (ix_nodes ix) \<longrightarrow> degrees_ok (ev_m_max E) (ix_nodes ix'))"

lemma evolves_apart: "evolves ix ix' \<Longrightarrow> apart n ix ix'"
  by (auto simp: evolves_def store_view_def apart_def fun_eq_iff)

lemma apart_trans: "apart n ix ix' \<Longrightarrow> apart n ix' ix'' \<Longrightarrow> apart n ix ix''"
  by (simp add: apart_def)

definition room :: "node_id \<Rightarrow> vec \<Rightarrow> bytes option \<Rightarrow> ('s, 'g) index \<Rightarrow> bool" where
  "room n v encoded ix \<longleftrightarrow> ok ix \<and> n \<noteq> k_invalid_node_id \<and> view (ix_vs ix) n = None \<and> writable (ix_vs ix) n
     \<and> length v = ev_dim E \<and> (case encoded of None \<Rightarrow> True | Some b \<Rightarrow> length b = vs_record_size (ev_vs E))"

definition holds :: "node_id \<Rightarrow> vec \<Rightarrow> bytes option \<Rightarrow> ('s, 'g) index \<Rightarrow> bool" where
  "holds n v encoded ix \<longleftrightarrow>
     view (ix_vs ix) n = Some (stored_vector E v encoded) \<and> vs_exists (ev_vs E) n (ix_vs ix)"

lemma evolves_holds: "evolves ix ix' \<Longrightarrow> holds n v encoded ix' = holds n v encoded ix"
  by (auto simp: evolves_def store_view_def holds_def fun_eq_iff)

lemma evolves_room: "evolves ix ix' \<Longrightarrow> room n v encoded ix \<Longrightarrow> room n v encoded ix'"
  by (auto simp: room_def evolves_view)

lemma wp_storeVector:
  assumes "room n v encoded ix"
  shows "wp (storeVector E n v key encoded) ix
    (\<lambda>_ ix'. apart n ix ix' \<and> bounded ix ix' \<and> holds n v encoded ix' \<and> uncached ix' n \<and> ix_entry ix' = ix_entry ix)
    (\<lambda>ix'. faulty \<and> apart n ix ix')"
proof -
  have R: "ok ix" "n \<noteq> k_invalid_node_id" "view (ix_vs ix) n = None" "writable (ix_vs ix) n" "length v = ev_dim E"
    using assms by (simp_all add: room_def)
  have i: "inv (ix_vs ix)" using R(1) by (simp add: index_ok_def)
  have L: "wp (case encoded of Some b \<Rightarrow> vs_store_encoded (ev_vs E) n b key | None \<Rightarrow> vs_store (ev_vs E) n v key) (ix_vs ix)
      (\<lambda>_ s. stored_store (ev_vs E) inv view n (ix_vs ix) s \<and> view s n = Some (stored_vector E v encoded) \<and> vs_exists (ev_vs E) n s)
      (\<lambda>s. faulty \<and> stored_store (ev_vs E) inv view n (ix_vs ix) s)"
  proof (cases encoded)
    case None
    then show ?thesis using vs.store_law [OF i R(4,5)] by (simp add: stored_vector_def)
  next
    case (Some b)
    then have "length b = vs_record_size (ev_vs E)" using assms by (simp add: room_def)
    then show ?thesis using vs.store_encoded_law [OF i R(4)] Some by (simp add: stored_vector_def)
  qed
  have post: "apart n ix (ix\<lparr>ix_vs := s\<rparr>) \<and> uncached (ix\<lparr>ix_vs := s\<rparr>) n"
    if L: "stored_store (ev_vs E) inv view n (ix_vs ix) s" for s
  proof -
    let ?ix = "ix\<lparr>ix_vs := s\<rparr>"
    note L = L [unfolded stored_store_def]
    have same: "view s m = view (ix_vs ix) m" if "view (ix_vs ix) m \<noteq> None" for m using L that R(3) by (cases "m = n") auto
    have "nodes_ok E (view s) (ix_nodes ix)"
      using R(1) same unfolding index_ok_def nodes_ok_def by metis
    moreover have "cache_ok (ev_varint E) (adj (ix_gs ix)) (view s) (ix_cache ix)"
    proof (cases "ix_cache ix")
      case (Some c)
      then have c: "edge_cache_ok (ev_varint E) c"
        "ec_view (ev_varint E) c \<subseteq>\<^sub>m (\<lambda>k. if view (ix_vs ix) k = None then None else Some (adj (ix_gs ix) k))"
        using R(1) by (simp_all add: index_ok_def cache_ok_def)
      have "ec_view (ev_varint E) c \<subseteq>\<^sub>m (\<lambda>k. if view s k = None then None else Some (adj (ix_gs ix) k))"
      proof (rule map_leI)
        fix k x assume x: "ec_view (ev_varint E) c k = Some x"
        from map_le_some [OF c(2) x] show "(if view s k = None then None else Some (adj (ix_gs ix) k)) = Some x"
          using same [of k] by (auto split: if_splits)
      qed
      with c(1) Some show ?thesis by (simp add: cache_ok_def)
    qed (simp add: cache_ok_def)
    moreover have "view s k_invalid_node_id = None" using R(1,2) L by (auto simp: index_ok_def)
    moreover have "ix_entry ix = k_invalid_node_id \<or> view s (ix_entry ix) \<noteq> None"
      using R(1) same [of "ix_entry ix"] by (auto simp: index_ok_def)
    ultimately have "ok ?ix" using R(1) L by (simp add: index_ok_def)
    then have "apart n ix ?ix" using L by (simp add: apart_def)
    moreover have "uncached ?ix n"
    proof (cases "ix_cache ix")
      case (Some c)
      then have "ec_view (ev_varint E) c \<subseteq>\<^sub>m (\<lambda>k. if view (ix_vs ix) k = None then None else Some (adj (ix_gs ix) k))"
        using R(1) by (simp add: index_ok_def cache_ok_def)
      from map_le_some [OF this, of n] R(3) Some show ?thesis
        by (cases "ec_view (ev_varint E) c n") (simp_all add: uncached_def)
    qed (simp add: uncached_def)
    ultimately show ?thesis by blast
  qed
  show ?thesis
    unfolding storeVector_def
    by (rule wp_on_store, rule wp_conseq [OF L]) (use post in \<open>auto simp: holds_def bounded_def\<close>)
qed

lemma wp_publishNode:
  assumes "ok ix" "length v = ev_dim E"
  shows "wp (publishNode E n v level) ix (\<lambda>_. linked ix) Q"
proof -
  let ?nd = "quantizeNodePoint E \<lparr>nd_id = n, nd_point = v, nd_q8 = [], nd_min = 0, nd_max = 0, nd_layers = []\<rparr>"
  obtain b lo hi where q: "node_quantize (ev_fl E) v = (b, lo, hi)" by (metis prod_cases3)
  have "v \<noteq> []" using assms by (auto simp: index_ok_def)
  then have nd: "nd_layers ?nd = []" "length (nodePointView E ?nd) = ev_dim E"
    using node_quantize_dim [OF q] q assms(2) by (auto simp: quantizeNodePoint_def nodePointView_def)
  have "nodes_ok E (view (ix_vs ix)) (AList.update n ?nd (ix_nodes ix))"
    using assms(1) nd unfolding index_ok_def nodes_ok_def by (auto simp: update_conv' split: if_splits)
  from evolves_nodes [OF assms(1) this]
  have "linked ix (ix\<lparr>ix_nodes := AList.update n ?nd (ix_nodes ix)\<rparr>)"
    using nd(1) by (auto simp: linked_def degrees_ok_def update_conv' split: if_splits)
  then show ?thesis using linked_refl [OF assms(1)] by (auto simp: publishNode_def intro!: wp_modify)
qed

subsection \<open>The stages of an insertion\<close>

definition inserted :: "node_id \<Rightarrow> vec \<Rightarrow> bytes option \<Rightarrow> ('s, 'g) index \<Rightarrow> status \<Rightarrow> ('s, 'g) index \<Rightarrow> bool" where
  "inserted n v encoded ix st ix' \<longleftrightarrow> apart n ix ix' \<and> bounded ix ix'
     \<and> (st = OK \<longrightarrow> holds n v encoded ix' \<and> ix_entry ix' \<noteq> k_invalid_node_id)"

abbreviation failed :: "node_id \<Rightarrow> ('s, 'g) index \<Rightarrow> ('s, 'g) index \<Rightarrow> bool" where
  "failed n ix ix' \<equiv> faulty \<and> apart n ix ix'"

lemma broken_failed: "apart n ix ix1 \<Longrightarrow> broken ix1 ix2 \<Longrightarrow> failed n ix ix2"
  unfolding broken_def using evolves_apart apart_trans by blast

lemma linked_stage:
  assumes "linked ix ix'"
  shows "apart n ix ix'" "bounded ix ix'" "holds n v encoded ix' = holds n v encoded ix" "ix_entry ix' = ix_entry ix"
    "room n v encoded ix \<Longrightarrow> room n v encoded ix'" "view (ix_vs ix') = view (ix_vs ix)" "ok ix'"
proof -
  have e: "evolves ix ix'" using assms by (rule linked_evolves)
  show "apart n ix ix'" "holds n v encoded ix' = holds n v encoded ix"
    "room n v encoded ix \<Longrightarrow> room n v encoded ix'" "view (ix_vs ix') = view (ix_vs ix)" "ok ix'"
    using evolves_apart [OF e] evolves_holds [OF e] evolves_room [OF e] evolves_view [OF e] by blast+
  show "bounded ix ix'" "ix_entry ix' = ix_entry ix"
    using assms by (auto simp: linked_def bounded_def evolves_def store_view_def)
qed

lemma bounded_trans: "bounded ix ix' \<Longrightarrow> bounded ix' ix'' \<Longrightarrow> bounded ix ix''"
  by (simp add: bounded_def)

lemma apart_ok: "apart n ix ix' \<Longrightarrow> ok ix'"
  by (simp add: apart_def)

lemma apart_selection:
  "apart n ix ix' \<Longrightarrow> view (ix_vs ix) n = None \<Longrightarrow> selection_ok ix selected \<Longrightarrow> selection_ok ix' selected"
proof -
  assume a: "apart n ix ix'" "view (ix_vs ix) n = None" "selection_ok ix selected"
  have v: "view (ix_vs ix') m \<noteq> None" if "view (ix_vs ix) m \<noteq> None" for m
    using that a(1,2) by (cases "m = n") (simp_all add: apart_def)
  show ?thesis
    unfolding selection_ok_def
  proof (rule ballI)
    fix x assume x: "x \<in> set selected"
    obtain l ns where [simp]: "x = (l, ns)" by force
    show "case x of (l, ns) \<Rightarrow> length ns \<le> ev_m E \<and> (\<forall>m \<in> set ns. view (ix_vs ix') m \<noteq> None)"
      using a(3) x v unfolding selection_ok_def by auto
  qed
qed

text \<open>A step that links, in an insertion under way.\<close>

lemma wp_linkStage:
  assumes "wp m ix1 (\<lambda>_. linked ix1) (broken ix1)" "apart n ix ix1"
    and "\<And>a ix2. linked ix1 ix2 \<Longrightarrow> wp (f a) ix2 P (failed n ix)"
  shows "wp (bnd m f) ix1 P (failed n ix)"
  by (rule wp_seq [OF assms(1)]) (use assms(3) broken_failed [OF assms(2)] in blast)+

lemma wp_insertFirst:
  assumes "room n v encoded ix"
  shows "wp (insertFirst E level n v encoded) ix (inserted n v encoded ix) (failed n ix)"
proof -
  have "inserted n v encoded ix OK (ix1\<lparr>ix_entry := n, ix_max_layer := level\<rparr>)"
    if "apart n ix ix1 \<and> bounded ix ix1 \<and> holds n v encoded ix1" for ix1
    using that assms by (auto simp: inserted_def apart_def bounded_def holds_def room_def index_ok_def)
  then have "wp (bnd (storeVector E n v n encoded) (\<lambda>_.
      bnd (modify (\<lambda>ix. ix\<lparr>ix_entry := n, ix_max_layer := level\<rparr>)) (\<lambda>_. ret OK))) ix
    (inserted n v encoded ix) (failed n ix)"
    by (intro wp_seq [OF wp_storeVector [OF assms]] wp_bnd wp_modify wp_ret) auto
  then show ?thesis by (simp add: insertFirst_def linkNeighborsAsterDB_def bnd_def ret_def wp_def)
qed

lemma wp_insertLink:
  assumes "room n v encoded ix" "selection_ok ix selected" "ev_m E \<le> ev_m_max E" "ix_entry ix \<noteq> k_invalid_node_id"
  shows "wp (insertLink E level hi n v encoded key selected) ix (inserted n v encoded ix) (failed n ix)"
proof -
  define sel0 where "sel0 = (case map_of selected 0 of None \<Rightarrow> [] | Some ns \<Rightarrow> ns)"
  have n: "n \<noteq> k_invalid_node_id" "view (ix_vs ix) n = None" using assms(1) by (simp_all add: room_def)
  define stage where "stage ix' \<longleftrightarrow> apart n ix ix' \<and> bounded ix ix' \<and> holds n v encoded ix' \<and> ix_entry ix' = ix_entry ix" for ix'
  have step: "stage ix2" if "stage ix1" "linked ix1 ix2" for ix1 ix2
    using that linked_stage [OF that(2)] apart_trans bounded_trans unfolding stage_def by metis
  have ins: "inserted n v encoded ix st ix'" if "stage ix'" for st ix'
    using that assms(4) by (simp add: inserted_def stage_def)
  have sel: "ok ix'" "selection_ok ix' selected" "\<forall>m \<in> set sel0. view (ix_vs ix') m \<noteq> None" "view (ix_vs ix') n \<noteq> None"
    "apart n ix ix'" if "stage ix'" for ix'
  proof -
    show a: "apart n ix ix'" and "ok ix'" using that by (simp_all add: stage_def apart_def)
    show s: "selection_ok ix' selected" by (rule apart_selection [OF a n(2) assms(2)])
    show "\<forall>m \<in> set sel0. view (ix_vs ix') m \<noteq> None" by (rule selection_at(2) [OF s sel0_def])
    show "view (ix_vs ix') n \<noteq> None" using that by (simp add: stage_def holds_def)
  qed
  have last: "wp (bnd (promote n level) (\<lambda>_. ret OK)) ix1 (inserted n v encoded ix) (failed n ix)" if s: "stage ix1" for ix1
  proof (rule wp_bnd, unfold promote_def, rule wp_modify, rule wp_ret)
    let ?ix = "if level > ix_max_layer ix1 then ix1\<lparr>ix_max_layer := level, ix_entry := n\<rparr> else ix1"
    have "ok ?ix" using sel(1,4) [OF s] by (simp add: index_ok_def)
    then show "inserted n v encoded ix OK ?ix"
      using s n(1) assms(4) by (auto simp: inserted_def stage_def apart_def bounded_def holds_def)
  qed
  have shrink: "wp (bnd (shrinkLayer0 E sel0) (\<lambda>st. if st \<noteq> OK then ret st else bnd (promote n level) (\<lambda>_. ret OK))) ix1
      (inserted n v encoded ix) (failed n ix)" if s: "stage ix1" for ix1
  proof (rule wp_linkStage [OF wp_shrinkLayer0 [OF sel(1,3) [OF s]] sel(5) [OF s]])
    fix st ix2 assume "linked ix1 ix2"
    then have "stage ix2" using step s by blast
    then show "wp (if st \<noteq> OK then ret st else bnd (promote n level) (\<lambda>_. ret OK)) ix2 (inserted n v encoded ix) (failed n ix)"
      using ins last by (intro wp_if wp_ret) blast+
  qed
  have upper: "wp (bnd (if hi \<ge> 1 then linkUpper E n selected hi else ret ()) (\<lambda>_.
      bnd (shrinkLayer0 E sel0) (\<lambda>st. if st \<noteq> OK then ret st else bnd (promote n level) (\<lambda>_. ret OK)))) ix1
    (inserted n v encoded ix) (failed n ix)" if s: "stage ix1" for ix1
  proof (rule wp_linkStage [OF _ sel(5) [OF s]])
    show "wp (if hi \<ge> 1 then linkUpper E n selected hi else ret ()) ix1 (\<lambda>_. linked ix1) (broken ix1)"
      by (intro wp_if wp_ret wp_linkUpper linked_refl) (use sel [OF s] assms(3) in auto)
  qed (rule shrink, rule step [OF s])
  show ?thesis
    unfolding insertLink_def Let_def sel0_def [symmetric]
  proof (rule wp_seq [OF wp_storeVector [OF assms(1)]])
    fix u ix1
    assume a: "apart n ix ix1 \<and> bounded ix ix1 \<and> holds n v encoded ix1 \<and> uncached ix1 n \<and> ix_entry ix1 = ix_entry ix"
    then have s: "stage ix1" by (simp add: stage_def)
    show "wp (bnd (linkNeighborsAsterDB E n sel0) (\<lambda>st. if st \<noteq> OK then ret st
      else bnd (if hi \<ge> 1 then linkUpper E n selected hi else ret ()) (\<lambda>_.
        bnd (shrinkLayer0 E sel0) (\<lambda>st. if st \<noteq> OK then ret st else bnd (promote n level) (\<lambda>_. ret OK))))) ix1
      (inserted n v encoded ix) (failed n ix)"
    proof (rule wp_linkStage [OF wp_linkDB [OF sel(1) [OF s] n(1) _ sel(3) [OF s]] sel(5) [OF s]])
      show "uncached ix1 n" using a by simp
      fix st ix2 assume "linked ix1 ix2"
      then have "stage ix2" using step s by blast
      then show "wp (if st \<noteq> OK then ret st
        else bnd (if hi \<ge> 1 then linkUpper E n selected hi else ret ()) (\<lambda>_.
          bnd (shrinkLayer0 E sel0) (\<lambda>st. if st \<noteq> OK then ret st else bnd (promote n level) (\<lambda>_. ret OK)))) ix2
        (inserted n v encoded ix) (failed n ix)"
        using ins upper by (intro wp_if wp_ret) blast+
    qed
  qed simp
qed

text \<open>The search for the neighbours: nothing seen changes, the selections are short and stored.\<close>

lemma wp_searchAny:
  assumes "ok ix" "length q = ev_dim E" "view (ix_vs ix) e \<noteq> None"
  shows "wp (searchLayer E q e ef l) ix
    (\<lambda>r ix'. (\<forall>n \<in> fst ` set r. view (ix_vs ix) n \<noteq> None) \<and> keeps ix ix') (bad ix)"
proof (cases "l < 0 \<or> ef \<le> 0")
  case True
  then show ?thesis using keeps_refl [OF assms(1)] by (auto simp: searchLayer_def intro!: wp_ret)
next
  case False
  have v: "view (ix_vs ix) n \<noteq> None" if "n \<in> reach (layer_links view adj ix l) e" for n
    using reach_view [OF assms(1,3) that] .
  have "\<forall>n \<in> reach (layer_links view adj ix l) e. has_point ix l n" using v by (simp add: has_point_def)
  then have W: "wp (searchLayer E q e ef l) ix (\<lambda>r ix'.
      beam_result (layer_links view adj ix l) (layer_dist E view ix q l) (nat ef) e r \<and> keeps ix ix') (bad ix)"
    using False by (intro wp_searchLayer [OF assms(1) _ _ assms(2)]) auto
  have "\<forall>n \<in> fst ` set r. view (ix_vs ix) n \<noteq> None"
    if "beam_result (layer_links view adj ix l) (layer_dist E view ix q l) (nat ef) e r" for r
  proof
    fix n assume "n \<in> fst ` set r"
    then obtain x where "(n, x) \<in> set r" by force
    then have "n \<in> reach (layer_links view adj ix l) e" using that by (auto simp: beam_result_def)
    then show "view (ix_vs ix) n \<noteq> None" by (rule v)
  qed
  then show ?thesis by (intro wp_conseq [OF W]) blast+
qed

definition found_so_far where
  "found_so_far ix acc ix' \<longleftrightarrow> keeps ix ix' \<and> view (ix_vs ix) (fst acc) \<noteq> None \<and> selection_ok ix (snd (snd acc))"

lemma wp_selectAt:
  assumes "length v = ev_dim E" "found_so_far ix acc ix1"
  shows "wp (selectAt E v l acc) ix1 (found_so_far ix) (bad ix)"
proof -
  obtain cur key selected where acc: "acc = (cur, key, selected)" by (metis prod_cases3)
  have k: "keeps ix ix1" and sel: "selection_ok ix selected" and cur: "view (ix_vs ix) cur \<noteq> None"
    using assms(2) by (simp_all add: found_so_far_def acc)
  note cur = cur [folded keeps_seen(1) [OF k]]
  let ?rest = "\<lambda>found. bnd (selectNeighborsR E v found (ev_m E) l) (\<lambda>ns.
      let near = (if found = [] then cur else fst (hd found))
      in ret (near, if l = ev_section_layer E then near else key, (l, ns) # selected))"
  have "wp (bnd (searchLayer E v cur (int (ev_ef_construction E)) l) ?rest) ix1 (found_so_far ix) (bad ix)"
  proof (rule wp_seq [OF wp_searchAny [OF keeps_seen(11) [OF k] assms(1) cur]])
    fix found :: "(node_id \<times> rat) list" and ix2
    assume f: "(\<forall>n \<in> fst ` set found. view (ix_vs ix1) n \<noteq> None) \<and> keeps ix1 ix2"
    then have k2: "keeps ix ix2" using k keeps_trans by blast
    have f2: "\<forall>n \<in> fst ` set found. view (ix_vs ix2) n \<noteq> None" using f by (simp add: keeps_seen(1) [OF k2] keeps_seen(1) [OF k])
    have near: "view (ix_vs ix) (if found = [] then cur else fst (hd found)) \<noteq> None"
      using f2 cur by (simp add: keeps_seen(1) [OF k2] keeps_seen(1) [OF k])
    show "wp (?rest found) ix2 (found_so_far ix) (bad ix)"
    proof (rule wp_seq [OF wp_selectR [OF keeps_seen(11) [OF k2] f2]])
      fix ns ix3
      assume s: "set ns \<subseteq> fst ` set found \<and> length ns \<le> ev_m E \<and> keeps ix2 ix3"
      then have "keeps ix ix3" using k2 keeps_trans by blast
      moreover have "\<forall>m \<in> set ns. view (ix_vs ix) m \<noteq> None" using s f2 by (auto simp: keeps_seen(1) [OF k2])
      ultimately have "found_so_far ix (if found = [] then cur else fst (hd found), x, (l, ns) # selected) ix3" for x
        using s near sel by (simp add: found_so_far_def selection_ok_def)
      then show "wp (let near = (if found = [] then cur else fst (hd found))
        in ret (near, if l = ev_section_layer E then near else key, (l, ns) # selected)) ix3 (found_so_far ix) (bad ix)"
        unfolding Let_def by (rule wp_ret)
    qed (rule keeps_bad [OF k2])
  qed (rule keeps_bad [OF k])
  then show ?thesis by (simp only: selectAt_def acc prod.case)
qed

lemma wp_findSelections:
  assumes "ok ix" "length v = ev_dim E" "view (ix_vs ix) e \<noteq> None"
  shows "wp (for_each ls (selectAt E v) (e, key, [])) ix (found_so_far ix) (bad ix)"
  by (rule wp_for_each [where I = "\<lambda>_. found_so_far ix"])
    (use wp_selectAt [OF assms(2)] keeps_refl [OF assms(1)] assms(3) in \<open>auto simp: found_so_far_def selection_ok_def\<close>)

lemma wp_sectionDescent:
  assumes "ok ix" "length v = ev_dim E" "view (ix_vs ix) e \<noteq> None" "\<forall>l \<in> set ls. 0 < (l :: int)"
  shows "wp (for_each ls (\<lambda>l (cur, key). bnd (greedySearchUpperLayer E v cur l) (\<lambda>cur'.
      ret (cur', if l = ev_section_layer E then cur' else key))) (e, key)) ix
    (\<lambda>r ix'. ix' = ix \<and> view (ix_vs ix) (fst r) \<noteq> None) Q"
proof (rule wp_for_each [where I = "\<lambda>ls r ix'. ix' = ix \<and> view (ix_vs ix) (fst r) \<noteq> None \<and> (\<forall>l \<in> set ls. 0 < l)"])
  fix l :: int and ls :: "int list" and r :: "node_id \<times> node_id" and ix'
  assume I: "ix' = ix \<and> view (ix_vs ix) (fst r) \<noteq> None \<and> (\<forall>l \<in> set (l # ls). 0 < l)"
  obtain cur key where r: "r = (cur, key)" by force
  have "0 < l" using I by simp
  note G = wp_greedySearch [OF assms(1,2) this, where e = cur]
  have post: "\<exists>y. view (ix_vs ix) a = Some y" if "a \<in> reach (layer_links view adj ix l) cur" for a
    using reach_view [OF assms(1) _ that] I r by simp
  from G have "wp (bnd (greedySearchUpperLayer E v cur l) (\<lambda>cur'. ret (cur', if l = ev_section_layer E then cur' else key))) ix
    (\<lambda>r ix'. ix' = ix \<and> view (ix_vs ix) (fst r) \<noteq> None \<and> (\<forall>l \<in> set ls. 0 < l)) Q"
    by (rule wp_seq) (use I post in \<open>auto intro!: wp_ret\<close>)
  then show "wp (case r of (cur, key) \<Rightarrow> bnd (greedySearchUpperLayer E v cur l) (\<lambda>cur'.
      ret (cur', if l = ev_section_layer E then cur' else key))) ix'
    (\<lambda>r ix'. ix' = ix \<and> view (ix_vs ix) (fst r) \<noteq> None \<and> (\<forall>l \<in> set ls. 0 < l)) Q"
    using I r by simp
qed (use assms in auto)

text \<open>An insertion of a new id.\<close>

lemma wp_insertNode:
  assumes "room n v encoded ix" "0 \<le> level" "ev_m E \<le> ev_m_max E"
  shows "wp (insertNode E level n v encoded) ix (inserted n v encoded ix) (failed n ix)"
proof -
  have len: "length v = ev_dim E" "ok ix" using assms(1) by (simp_all add: room_def)
  let ?ix = "ix_inserts_update Suc ix"
  have "linked ix ?ix" using len(2) by (simp add: linked_def evolves_def store_view_def index_ok_def)
  have lift: "wp m ix1 (inserted n v encoded ix0) (failed n ix0)"
    if "linked ix0 ix1" "wp m ix1 (inserted n v encoded ix1) (failed n ix1)" for m and ix0 ix1
    by (rule wp_conseq [OF that(2)])
      (use apart_trans [OF linked_stage(1) [OF that(1)]] bounded_trans [OF linked_stage(2) [OF that(1)]]
        in \<open>auto simp: inserted_def\<close>)
  have main: "wp (bnd (for_each (rev [level + 1..hi]) (\<lambda>l (cur, key).
              bnd (greedySearchUpperLayer E v cur l) (\<lambda>cur'.
              ret (cur', if l = ev_section_layer E then cur' else key))) (ix_entry ix1, ix_entry ix1)) (\<lambda>(cur, key).
       bnd (for_each (rev [0..min hi level]) (selectAt E v) (cur, key, [])) (\<lambda>(cur, key, selected).
       insertLink E level (min hi level) n v encoded key selected))) ix1 (inserted n v encoded ix1) (failed n ix1)"
    if r: "room n v encoded ix1" and e: "ix_entry ix1 \<noteq> k_invalid_node_id" for ix1 hi
  proof -
    have ok: "ok ix1" and ve: "view (ix_vs ix1) (ix_entry ix1) \<noteq> None" using r e by (auto simp: room_def index_ok_def)
    have ls: "\<forall>l \<in> set (rev [level + 1..hi]). 0 < l" using assms(2) by auto
    show ?thesis
    proof (rule wp_seq [OF wp_sectionDescent [OF ok len(1) ve ls, where Q = "failed n ix1"]])
      fix ck :: "node_id \<times> node_id" and ix2 assume c: "ix2 = ix1 \<and> view (ix_vs ix1) (fst ck) \<noteq> None"
      obtain cur key where [simp]: "ck = (cur, key)" by force
      have "wp (bnd (for_each (rev [0..min hi level]) (selectAt E v) (cur, key, [])) (\<lambda>(cur, key, selected).
          insertLink E level (min hi level) n v encoded key selected)) ix1 (inserted n v encoded ix1) (failed n ix1)"
      proof (rule wp_seq [OF wp_findSelections [OF ok len(1)]])
        show "view (ix_vs ix1) cur \<noteq> None" using c by simp
        fix acc :: "node_id \<times> node_id \<times> (int \<times> node_id list) list" and ix3 assume f: "found_so_far ix1 acc ix3"
        obtain cur' key' selected where acc [simp]: "acc = (cur', key', selected)" by (metis prod_cases3)
        have k: "keeps ix1 ix3" and s: "selection_ok ix3 selected"
          using f by (auto simp: found_so_far_def selection_ok_def keeps_seen(1))
        note l3 = keeps_linked [OF k]
        have e3: "ix_entry ix3 \<noteq> k_invalid_node_id" using e by (simp add: keeps_seen(5) [OF k])
        have "wp (insertLink E level (min hi level) n v encoded key' selected) ix3 (inserted n v encoded ix1) (failed n ix1)"
          by (rule lift [OF l3 wp_insertLink [OF linked_stage(5) [OF l3 r] s assms(3) e3]])
        then show "wp (case acc of (cur, key, selected) \<Rightarrow> insertLink E level (min hi level) n v encoded key selected) ix3
            (inserted n v encoded ix1) (failed n ix1)"
          by simp
      qed (use bad_broken broken_failed [OF evolves_apart [OF evolves_refl [OF ok]]] in blast)
      then show "wp (case ck of (cur, key) \<Rightarrow>
          bnd (for_each (rev [0..min hi level]) (selectAt E v) (cur, key, [])) (\<lambda>(cur, key, selected).
          insertLink E level (min hi level) n v encoded key selected)) ix2 (inserted n v encoded ix1) (failed n ix1)"
        using c by simp
    qed simp
  qed
  have published: "wp (bnd (get ix_entry) (\<lambda>entry.
     if entry = k_invalid_node_id then insertFirst E level n v encoded
     else bnd (get (\<lambda>ix. max 0 (ix_max_layer ix))) (\<lambda>hi.
       bnd (for_each (rev [level + 1..hi]) (\<lambda>l (cur, key).
              bnd (greedySearchUpperLayer E v cur l) (\<lambda>cur'.
              ret (cur', if l = ev_section_layer E then cur' else key))) (entry, entry)) (\<lambda>(cur, key).
       bnd (for_each (rev [0..min hi level]) (selectAt E v) (cur, key, [])) (\<lambda>(cur, key, selected).
       insertLink E level (min hi level) n v encoded key selected))))) ix1 (inserted n v encoded ix1) (failed n ix1)"
    if r: "room n v encoded ix1" for ix1
    by (intro wp_bnd wp_get wp_if wp_insertFirst main r)
  have "wp (insertNode E level n v encoded) ix (inserted n v encoded ix) (failed n ix)"
    unfolding insertNode_def
  proof (rule wp_bnd, rule wp_modify, rule wp_seq [where Q' = "\<lambda>_. False"])
    show "wp (publishNode E n v level) ?ix (\<lambda>_. linked ?ix) (\<lambda>_. False)"
      by (rule wp_publishNode) (use \<open>linked ix ?ix\<close> linked_stage(7) len in blast)+
    fix u ix1 assume "linked ?ix ix1"
    then have l: "linked ix ix1" using \<open>linked ix ?ix\<close> linked_trans by blast
    show "wp (bnd (get ix_entry) (\<lambda>entry.
     if entry = k_invalid_node_id then insertFirst E level n v encoded
     else bnd (get (\<lambda>ix. max 0 (ix_max_layer ix))) (\<lambda>hi.
       bnd (for_each (rev [level + 1..hi]) (\<lambda>l (cur, key).
              bnd (greedySearchUpperLayer E v cur l) (\<lambda>cur'.
              ret (cur', if l = ev_section_layer E then cur' else key))) (entry, entry)) (\<lambda>(cur, key).
       bnd (for_each (rev [0..min hi level]) (selectAt E v) (cur, key, [])) (\<lambda>(cur, key, selected).
       insertLink E level (min hi level) n v encoded key selected))))) ix1 (inserted n v encoded ix) (failed n ix)"
      by (rule lift [OF l published [OF linked_stage(5) [OF l assms(1)]]])
  qed simp
  then show ?thesis .
qed

end

end
