(* ===== verification/Hnsw_Engine.thy ===== *)
theory Hnsw_Engine
  imports Hnsw_Insert Paged_Sync
begin

text \<open>
  The index as it is deployed: \<open>AsterVec\<close> on a paged vector store and the graph database behind
  \<open>AsterGraphStore\<close>. Together they satisfy the interface \<open>hnsw\<close>, on a steady medium a call never
  throws, and the facts proved in \<open>hnsw\<close> become statements about the returned value and the final
  state. The graph database is any one that meets \<open>rocks_graph\<close>.
\<close>

definition engine :: "medium \<Rightarrow> 'g rocks_graph \<Rightarrow> (paged_store, 'g) env \<Rightarrow> bool" where
  "engine io rg E \<longleftrightarrow> ev_vs E = paged_ops (ev_dim E) (ev_fl E) io \<and> ev_gs E = aster_graph_store rg"

text \<open>What is in the vector store, and the index invariant.\<close>

definition contents :: "(paged_store, 'g) env \<Rightarrow> (paged_store, 'g) index \<Rightarrow> node_id \<rightharpoonup> vec" where
  "contents E ix = paged_view (ev_fl E) (ix_vs ix)"

definition engine_ok ::
  "(paged_store, 'g) env \<Rightarrow> medium \<Rightarrow> ('g \<Rightarrow> node_id \<rightharpoonup> node_id list) \<Rightarrow> ('g \<Rightarrow> bool) \<Rightarrow> (paged_store, 'g) index \<Rightarrow> bool" where
  "engine_ok E io vertex sound ix \<longleftrightarrow>
     index_ok E (paged_ok (ev_dim E) io) (paged_view (ev_fl E)) (neighbours vertex) sound ix"

text \<open>The graph a search of layer \<open>l\<close> walks and the distances it sees.\<close>

definition links_at ::
  "(paged_store, 'g) env \<Rightarrow> ('g \<Rightarrow> node_id \<rightharpoonup> node_id list) \<Rightarrow> (paged_store, 'g) index \<Rightarrow> int \<Rightarrow> node_id \<Rightarrow> node_id list" where
  "links_at E vertex ix = layer_links (paged_view (ev_fl E)) (neighbours vertex) ix"

definition dist_at :: "(paged_store, 'g) env \<Rightarrow> (paged_store, 'g) index \<Rightarrow> vec \<Rightarrow> int \<Rightarrow> node_id \<Rightarrow> rat" where
  "dist_at E ix = layer_dist E (paged_view (ev_fl E)) ix"

text \<open>A search leaves the stored vectors, the graph, the nodes, the ids and the entry point alone.\<close>

definition unchanged :: "(paged_store, 'g) env \<Rightarrow> (paged_store, 'g) index \<Rightarrow> (paged_store, 'g) index \<Rightarrow> bool" where
  "unchanged E ix ix' \<longleftrightarrow> contents E ix' = contents E ix \<and> ix_gs ix' = ix_gs ix \<and> ix_nodes ix' = ix_nodes ix
     \<and> ix_ids ix' = ix_ids ix \<and> ix_entry ix' = ix_entry ix \<and> ix_max_layer ix' = ix_max_layer ix"

context rocks_graph
begin

lemma graph_side: "graph_store (aster_graph_store rg) (neighbours vertex) sound"
  by (rule aster.graph_store_axioms)

end

lemma paged_hnsw:
  assumes "rocks_graph rg vertex sound" "engine io rg E"
  shows "hnsw E False (paged_ok (ev_dim E) io) (paged_view (ev_fl E)) paged_writable (neighbours vertex) sound"
  using assms(2) paged_vector_store [of "ev_dim E" "ev_fl E" io] rocks_graph.graph_side [OF assms(1)]
  by (simp add: hnsw_def engine_def)

interpretation local: hnsw "E\<lparr>ev_vs := paged_ops (ev_dim E) (ev_fl E) io, ev_gs := aster_graph_store mem_rocks\<rparr>" False
    "paged_ok (ev_dim E) io" "paged_view (ev_fl E)" paged_writable "neighbours mem_vertex" "\<lambda>_. True"
  for E :: "(paged_store, mem_graph) env" and io
  using paged_hnsw [OF mem.rocks_graph_axioms, of io "E\<lparr>ev_vs := paged_ops (ev_dim E) (ev_fl E) io, ev_gs := aster_graph_store mem_rocks\<rparr>"]
  by (simp add: engine_def)

text \<open>A call that cannot throw returns.\<close>

lemma wp_returns: "wp m s P Q \<Longrightarrow> (\<And>s'. \<not> Q s') \<Longrightarrow> \<exists>a s'. m s = Some (Inr a, s') \<and> P a s'"
  by (cases "m s"; cases "fst (the (m s))") (auto simp: wp_def)

lemma keeps_unchanged:
  assumes "hnsw E False (paged_ok (ev_dim E) io) (paged_view (ev_fl E)) paged_writable (neighbours vertex) sound"
    and "hnsw.keeps E (paged_ok (ev_dim E) io) (paged_view (ev_fl E)) paged_writable (neighbours vertex) sound ix ix'"
  shows "engine_ok E io vertex sound ix'" "unchanged E ix ix'"
  using hnsw.keeps_seen [OF assms] by (simp_all add: engine_ok_def unchanged_def contents_def)

subsection \<open>A small index\<close>

text \<open>One vector of one dimension under id 0, still in a write buffer, with no edges.\<close>

definition tiny_env :: "(paged_store, mem_graph) env" where
  "tiny_env =
     \<lparr>ev_vs = paged_ops 1 word_floats (\<lambda>_. None), ev_gs = aster_graph_store mem_rocks, ev_dist = (\<lambda>_ _. 1),
      ev_fl = word_floats, ev_dim = 1, ev_m = 2, ev_m_max = 2, ev_ef_construction = 4, ev_section_layer = 1,
      ev_heuristic = True, ev_batch = True, ev_dense = True, ev_varint = True\<rparr>"

definition tiny_index :: "(paged_store, mem_graph) index" where
  "tiny_index =
     \<lparr>ix_vs = buffered_paged, ix_gs = [], ix_nodes = [], ix_cache = None, ix_entry = 0, ix_max_layer = 0,
      ix_corrupt = False, ix_dangling = 0, ix_ids = \<lparr>updated_real_to_internal = [], updated_internal_to_real = [],
        tombstoned_internal_ids = [], update_bloom = bloom_empty, next_update_internal_id = kFirstUpdateId, bloom_rebuild_count = 0\<rparr>,
      ix_inserts = 1, ix_scratch = search_scratch_init\<rparr>"

lemma tiny_fields [simp]: "ev_dim tiny_env = 1" "ev_fl tiny_env = word_floats" "ev_dist tiny_env = (\<lambda>_ _. 1)" "ev_m tiny_env = 2"
  "ev_m_max tiny_env = 2" "ix_entry tiny_index = 0" "ix_nodes tiny_index = []" "ix_vs tiny_index = buffered_paged"
  by (simp_all add: tiny_env_def tiny_index_def)

lemma zero_valid [simp]: "0 \<noteq> k_invalid_node_id" "k_invalid_node_id \<noteq> 0"
  by (simp_all add: k_invalid_node_id_def)

lemma tiny_engine: "engine (\<lambda>_. None) mem_rocks tiny_env"
  by (simp add: engine_def tiny_env_def)

lemma tiny_contents: "contents tiny_env tiny_index 0 \<noteq> None" "contents tiny_env tiny_index k_invalid_node_id = None"
  using buffered_paged_ok(2) [of word_floats]
  by (auto simp: contents_def tiny_env_def tiny_index_def paged_view_def buffered_page_of k_invalid_node_id_def)

lemma tiny_ok: "engine_ok tiny_env (\<lambda>_. None) mem_vertex (\<lambda>_. True) tiny_index"
proof -
  have "paged_ok 1 (\<lambda>_. None) buffered_paged" by (rule buffered_paged_ok(1))
  then show ?thesis using tiny_contents
    by (simp add: engine_ok_def index_ok_def tiny_env_def tiny_index_def cache_ok_def scratch_ok_init nodes_ok_def contents_def)
qed

subsection \<open>Searches\<close>

text \<open>CX: A search of one layer returns, for an entry point that has a vector, at most \<open>ef\<close> distinct
  reachable ids with their true distances in ascending order, closed under the layer's edges but for
  nodes no closer than its farthest result.\<close>

theorem search_layer_beam:
  assumes "rocks_graph rg vertex sound" "engine io rg E" "engine_ok E io vertex sound ix"
    and "length q = ev_dim E" "contents E ix e \<noteq> None" "0 \<le> l" "0 < ef"
  shows "\<exists>R ix'. searchLayer E q e ef l ix = Some (Inr R, ix')
    \<and> beam_result (links_at E vertex ix l) (dist_at E ix q l) (nat ef) e R
    \<and> engine_ok E io vertex sound ix' \<and> unchanged E ix ix'"
proof -
  note H = paged_hnsw [OF assms(1,2)]
  note ok = assms(3) [unfolded engine_ok_def]
  have "\<forall>n \<in> reach (layer_links (paged_view (ev_fl E)) (neighbours vertex) ix l) e. hnsw.has_point (paged_view (ev_fl E)) ix l n"
    using hnsw.reach_view [OF H ok] assms(5) by (simp add: hnsw.has_point_def [OF H] contents_def)
  from wp_returns [OF hnsw.wp_searchLayer [OF H ok assms(6,7,4) this]]
  show ?thesis using keeps_unchanged [OF H] by (auto simp: hnsw.bad_def [OF H] links_at_def dist_at_def)
qed

theorem search_layer_beam_witness:
  "\<exists>R ix'. searchLayer tiny_env [0] 0 4 0 tiny_index = Some (Inr R, ix') \<and> fst (hd R) = 0"
proof -
  have nb: "links_at tiny_env mem_vertex tiny_index 0 = (\<lambda>_. [])"
    by (simp add: links_at_def layer_links_def neighbours_mem fun_eq_iff tiny_index_def mem_adj_def)
  obtain R ix' where R: "searchLayer tiny_env [0] 0 4 0 tiny_index = Some (Inr R, ix')"
    "beam_result (\<lambda>_. []) (dist_at tiny_env tiny_index [0] 0) 4 0 R"
    using search_layer_beam [OF mem.rocks_graph_axioms tiny_engine tiny_ok, of "[0]" 0 0 4] tiny_contents(1) nb
    by auto
  moreover have "reach (\<lambda>_. []) 0 = {0}" by (auto simp: reach_def edges_def)
  ultimately have "fst (hd R) \<in> {0}" unfolding beam_result_def by (cases R) auto
  then show ?thesis using R by blast
qed


lemma tiny_links: "links_at tiny_env mem_vertex tiny_index l = (\<lambda>_. [])"
  by (simp add: links_at_def layer_links_def neighbours_mem fun_eq_iff tiny_index_def mem_adj_def)

lemma tiny_reach: "reach (links_at tiny_env mem_vertex tiny_index l) n = {n}"
  by (auto simp: tiny_links reach_def edges_def)

text \<open>CX: Where no more than \<open>ef\<close> nodes can be reached, the search is exact: it returns all of them,
  nearest first.\<close>

theorem search_layer_exact:
  assumes "rocks_graph rg vertex sound" "engine io rg E" "engine_ok E io vertex sound ix"
    and "length q = ev_dim E" "contents E ix e \<noteq> None" "0 \<le> l" "0 < ef"
    and "int (card (reach (links_at E vertex ix l) e)) \<le> ef"
  shows "\<exists>R ix'. searchLayer E q e ef l ix = Some (Inr R, ix')
    \<and> set R = (\<lambda>n. (n, dist_at E ix q l n)) ` reach (links_at E vertex ix l) e
    \<and> sorted (map snd R) \<and> distinct (map fst R)"
proof -
  note H = paged_hnsw [OF assms(1,2)]
  note ok = assms(3) [unfolded engine_ok_def]
  have "\<forall>n \<in> reach (layer_links (paged_view (ev_fl E)) (neighbours vertex) ix l) e. hnsw.has_point (paged_view (ev_fl E)) ix l n"
    using hnsw.reach_view [OF H ok] assms(5) by (simp add: hnsw.has_point_def [OF H] contents_def)
  from wp_returns [OF hnsw.wp_searchLayer [OF H ok assms(6,7,4) this]]
  obtain R ix' where R: "searchLayer E q e ef l ix = Some (Inr R, ix')"
    "beam_result (links_at E vertex ix l) (dist_at E ix q l) (nat ef) e R"
    by (auto simp: hnsw.bad_def [OF H] links_at_def dist_at_def)
  have f: "fst ` set R = reach (links_at E vertex ix l) e" using beam_result_exact [OF R(2)] assms(8) by simp
  have d: "sorted (map snd R)" "distinct (map fst R)" "\<forall>x \<in> set R. x = (fst x, dist_at E ix q l (fst x))"
    using R(2) by (auto simp: beam_result_def split: prod.splits)
  have "set R = (\<lambda>n. (n, dist_at E ix q l n)) ` fst ` set R" using d(3) by (force simp: image_image)
  then show ?thesis using R(1) d(1,2) f by auto
qed

theorem search_layer_exact_witness:
  "\<exists>R ix'. searchLayer tiny_env [0] 0 4 0 tiny_index = Some (Inr R, ix') \<and> set R = {(0, 1)}"
  using search_layer_exact [OF mem.rocks_graph_axioms tiny_engine tiny_ok, of "[0]" 0 0 4] tiny_contents(1)
  by (auto simp: tiny_reach dist_at_def layer_dist_def)

text \<open>The k-nearest search: live ids with their true distances, cut to \<open>k\<close>.\<close>

definition knn_result ::
  "(paged_store, 'g) env \<Rightarrow> ('g \<Rightarrow> node_id \<rightharpoonup> node_id list) \<Rightarrow> (paged_store, 'g) index \<Rightarrow> vec \<Rightarrow> int \<Rightarrow> int
     \<Rightarrow> (node_id \<times> rat) list \<Rightarrow> bool" where
  "knn_result E vertex ix q k ef R \<longleftrightarrow>
     (\<exists>e F. contents E ix e \<noteq> None \<and> beam_result (links_at E vertex ix 0) (dist_at E ix q 0) (nat (max ef k)) e F
        \<and> R = take (nat k) (filter (\<lambda>(n, d). \<not> is_tombstoned (ix_ids ix) n) F))"

lemma knn_returns:
  assumes "rocks_graph rg vertex sound" "engine io rg E" "engine_ok E io vertex sound ix"
    and "length q = ev_dim E" "0 < k" "ix_entry ix \<noteq> k_invalid_node_id"
  shows "\<exists>R ix'. knnSearchK E q k ef ix = Some (Inr R, ix') \<and> knn_result E vertex ix q k ef R
    \<and> engine_ok E io vertex sound ix' \<and> unchanged E ix ix'"
proof -
  note H = paged_hnsw [OF assms(1,2)]
  note ok = assms(3) [unfolded engine_ok_def]
  from wp_returns [OF hnsw.wp_knnSearchK [OF H ok assms(4-6), of ef]]
  obtain R ix' where "knnSearchK E q k ef ix = Some (Inr R, ix')"
    "\<exists>e F. paged_view (ev_fl E) (ix_vs ix) e \<noteq> None
        \<and> beam_result (layer_links (paged_view (ev_fl E)) (neighbours vertex) ix 0) (layer_dist E (paged_view (ev_fl E)) ix q 0) (nat (max ef k)) e F
        \<and> R = take (nat k) (filter (\<lambda>(n, d). \<not> is_tombstoned (ix_ids ix) n) F)"
    "hnsw.keeps E (paged_ok (ev_dim E) io) (paged_view (ev_fl E)) paged_writable (neighbours vertex) sound ix ix'"
    by (auto simp: hnsw.bad_def [OF H])
  then show ?thesis using keeps_unchanged [OF H]
    unfolding knn_result_def links_at_def dist_at_def contents_def by blast
qed

text \<open>CX: The k-nearest search of a non-empty index returns at most \<open>k\<close> distinct ids in ascending
  order of distance, each stored, not deleted and with the distance of its stored vector, and leaves
  the index as it was.\<close>

theorem knn_live:
  assumes "rocks_graph rg vertex sound" "engine io rg E" "engine_ok E io vertex sound ix"
    and "length q = ev_dim E" "0 < k" "ix_entry ix \<noteq> k_invalid_node_id"
  shows "\<exists>R ix'. knnSearchK E q k ef ix = Some (Inr R, ix') \<and> engine_ok E io vertex sound ix' \<and> unchanged E ix ix'
    \<and> length R \<le> nat k \<and> sorted (map snd R) \<and> distinct (map fst R)
    \<and> (\<forall>(n, d) \<in> set R. \<not> is_tombstoned (ix_ids ix) n
         \<and> (\<exists>v. contents E ix n = Some v \<and> d = ev_dist E q v))"
proof -
  note H = paged_hnsw [OF assms(1,2)]
  note ok = assms(3) [unfolded engine_ok_def]
  obtain R ix' where R: "knnSearchK E q k ef ix = Some (Inr R, ix')" "knn_result E vertex ix q k ef R"
    "engine_ok E io vertex sound ix'" "unchanged E ix ix'"
    using knn_returns [OF assms] by blast
  obtain e F where F: "contents E ix e \<noteq> None" "beam_result (links_at E vertex ix 0) (dist_at E ix q 0) (nat (max ef k)) e F"
    "R = take (nat k) (filter (\<lambda>(n, d). \<not> is_tombstoned (ix_ids ix) n) F)"
    using R(2) unfolding knn_result_def by blast
  let ?F = "filter (\<lambda>(n, d). \<not> is_tombstoned (ix_ids ix) n) F"
  have s: "sorted (map snd F)" "distinct (map fst F)" using F(2) by (simp_all add: beam_result_def)
  have "sorted (map snd ?F)" "distinct (map fst ?F)" using s sorted_filter [of snd F] distinct_map_filter [of fst F] by blast+
  then have "sorted (map snd R)" "distinct (map fst R)" unfolding F(3) take_map [symmetric]
    using sorted_wrt_take distinct_take by blast+
  moreover have "\<not> is_tombstoned (ix_ids ix) n \<and> (\<exists>v. contents E ix n = Some v \<and> d = ev_dist E q v)" if "(n, d) \<in> set R" for n d
  proof -
    have m: "(n, d) \<in> set F" "\<not> is_tombstoned (ix_ids ix) n" using that set_take_subset [of "nat k" ?F] by (auto simp: F(3))
    then have d: "d = dist_at E ix q 0 n" "n \<in> reach (links_at E vertex ix 0) e" using F(2) by (auto simp: beam_result_def)
    have "contents E ix n \<noteq> None"
        using hnsw.reach_view [OF H ok, of e n 0] F(1) d(2) by (simp add: links_at_def contents_def)
    moreover have "d = ev_dist E q (the (contents E ix n))"
      using d(1) hnsw.layer0_dist [OF H, of 0 ix q n] by (simp add: dist_at_def contents_def)
    ultimately show ?thesis using m(2) by auto
  qed
  moreover have "length R \<le> nat k" by (simp add: F(3))
  ultimately show ?thesis using R by blast
qed

theorem knn_live_witness:
  "\<exists>R ix'. knnSearchK tiny_env [0] 3 4 tiny_index = Some (Inr R, ix') \<and> length R \<le> 3"
  using knn_live [OF mem.rocks_graph_axioms tiny_engine tiny_ok, of "[0]" 3 4]
  by auto




lemma filtered_returns:
  assumes "rocks_graph rg vertex sound" "engine io rg E" "engine_ok E io vertex sound ix"
    and "length q = ev_dim E" "0 < k" "ix_entry ix \<noteq> k_invalid_node_id"
  shows "\<exists>R ix' e hit. knnSearchKFiltered E q k ef (Some p) max_scan docs ix = Some (Inr R, ix')
    \<and> contents E ix e \<noteq> None \<and> engine_ok E io vertex sound ix' \<and> unchanged E ix ix'
    \<and> filter_result (links_at E vertex ix 0) (dist_at E ix q 0) (node_matches p docs) (nat k) e hit R"
proof -
  note H = paged_hnsw [OF assms(1,2)]
  note ok = assms(3) [unfolded engine_ok_def]
  from wp_returns [OF hnsw.wp_knnFiltered [OF H ok assms(4-6), of ef p max_scan docs]]
  obtain R ix' where "knnSearchKFiltered E q k ef (Some p) max_scan docs ix = Some (Inr R, ix')"
    "\<exists>e hit. paged_view (ev_fl E) (ix_vs ix) e \<noteq> None
        \<and> filter_result (layer_links (paged_view (ev_fl E)) (neighbours vertex) ix 0) (layer_dist E (paged_view (ev_fl E)) ix q 0)
            (node_matches p docs) (nat k) e hit R"
    "hnsw.keeps E (paged_ok (ev_dim E) io) (paged_view (ev_fl E)) paged_writable (neighbours vertex) sound ix ix'"
    by (auto simp: hnsw.bad_def [OF H])
  then show ?thesis using keeps_unchanged [OF H]
    unfolding links_at_def dist_at_def contents_def by blast
qed



text \<open>C33: The greedy descent of an upper layer ends, at a node no neighbour of which is closer to the
  query, and changes nothing.\<close>

theorem greedy_local_min:
  assumes "rocks_graph rg vertex sound" "engine io rg E" "engine_ok E io vertex sound ix"
    and "length q = ev_dim E" "0 < l" "map_of (ix_nodes ix) e = Some nd"
  shows "\<exists>n x. greedySearchUpperLayer E q e l ix = Some (Inr n, ix) \<and> n \<in> reach (links_at E vertex ix l) e
    \<and> x = dist_at E ix q l n \<and> map_of (ix_nodes ix) n \<noteq> None \<and> x \<le> dist_at E ix q l e
    \<and> (\<forall>m \<in> set (links_at E vertex ix l n). map_of (ix_nodes ix) m \<noteq> None \<longrightarrow> x \<le> dist_at E ix q l m)"
proof -
  note H = paged_hnsw [OF assms(1,2)]
  note ok = assms(3) [unfolded engine_ok_def]
  have u: "hnsw.upper_dist E ix q n = (if map_of (ix_nodes ix) n = None then None else Some (dist_at E ix q l n))" for n
    using hnsw.node_dim [OF H ok, of n] assms(5)
    by (auto simp: hnsw.upper_dist_def [OF H] dist_at_def layer_dist_def layer_point_def split: option.splits)
  from wp_returns [OF hnsw.wp_greedySearch [OF H ok assms(4,5), of e "\<lambda>_. False"]]
  obtain n where "greedySearchUpperLayer E q e l ix = Some (Inr n, ix)" "n \<in> reach (links_at E vertex ix l) e"
    "\<exists>x. hnsw.upper_dist E ix q n = Some x \<and> (\<forall>y. hnsw.upper_dist E ix q e = Some y \<longrightarrow> x \<le> y)
      \<and> (\<forall>m \<in> set (links_at E vertex ix l n). \<forall>y. hnsw.upper_dist E ix q m = Some y \<longrightarrow> x \<le> y)"
    using assms(6) by (auto simp: links_at_def)
  then show ?thesis using assms(6) unfolding u by (auto split: if_splits)
qed

text \<open>The same index with one node on layer 1.\<close>

definition tiny_upper :: "(paged_store, mem_graph) index" where
  "tiny_upper = tiny_index\<lparr>ix_nodes := [(0, \<lparr>nd_id = 0, nd_point = [7], nd_q8 = [], nd_min = 0, nd_max = 0, nd_layers = [(1, [0])]\<rparr>)]\<rparr>"

lemma tiny_upper_ok: "engine_ok tiny_env (\<lambda>_. None) mem_vertex (\<lambda>_. True) tiny_upper"
  using tiny_ok tiny_contents(1)
  by (simp add: engine_ok_def index_ok_def tiny_upper_def nodes_ok_def nodePointView_def contents_def)

theorem greedy_local_min_witness:
  "\<exists>n. greedySearchUpperLayer tiny_env [3] 0 1 tiny_upper = Some (Inr n, tiny_upper) \<and> map_of (ix_nodes tiny_upper) n \<noteq> None"
proof -
  obtain nd where "map_of (ix_nodes tiny_upper) 0 = Some nd" by (simp add: tiny_upper_def)
  then show ?thesis using greedy_local_min [OF mem.rocks_graph_axioms tiny_engine tiny_upper_ok, of "[3]" 1 0 nd] by auto
qed

subsection \<open>Neighbour selection\<close>

context hnsw
begin

lemma wp_heuristicR0:
  assumes "ok ix" "\<forall>n \<in> fst ` set cs. view (ix_vs ix) n \<noteq> None"
  shows "wp (selectNeighborsHeuristic2R E v cs k 0) ix
    (\<lambda>r ix'. r = (if length cs \<le> k then map fst cs else map fst (diverse (ev_dist E) k
        (map (\<lambda>c. (c, the (view (ix_vs ix) (fst c)))) (sort_key snd cs)) [])) \<and> keeps ix ix') (bad ix)"
proof (cases "length cs \<le> k")
  case True
  then show ?thesis using assms(1) by (auto simp: selectNeighborsHeuristic2R_def keeps_refl intro!: wp_ret)
next
  case False
  let ?s = "sort_key snd cs"
  have ids: "\<forall>n \<in> set (map fst ?s). view (ix_vs ix) n \<noteq> None" using assms(2) by simp
  have z: "zip ?s (map (\<lambda>n. the (view (ix_vs ix) n)) (map fst ?s)) = map (\<lambda>c. (c, the (view (ix_vs ix) (fst c)))) ?s"
    by (simp add: zip_map2 zip_same_conv_map)
  have "wp (bnd (readVectorsBatchFlat E (map fst ?s)) (\<lambda>vs. ret (map fst (diverse (ev_dist E) k (zip ?s vs) [])))) ix
    (\<lambda>r ix'. r = map fst (diverse (ev_dist E) k (map (\<lambda>c. (c, the (view (ix_vs ix) (fst c)))) ?s) []) \<and> keeps ix ix') (bad ix)"
    by (rule wp_seq [OF wp_readBatch [OF assms(1) ids]]) (auto simp: z [unfolded map_map] intro!: wp_ret)
  then show ?thesis using False by (simp add: selectNeighborsHeuristic2R_def Let_def)
qed

end




subsection \<open>Insertion, deletion and lookup\<close>

text \<open>What an insertion of a new id may assume: a valid id that has no record yet, a vector of the
  right dimension, a record of the right size if the caller has encoded it, and room for a page.\<close>

definition insertable :: "(paged_store, 'g) env \<Rightarrow> int \<Rightarrow> node_id \<Rightarrow> vec \<Rightarrow> bytes option \<Rightarrow> (paged_store, 'g) index \<Rightarrow> bool" where
  "insertable E level n v encoded ix \<longleftrightarrow>
     0 \<le> level \<and> n \<noteq> k_invalid_node_id \<and> page_of n (ix_vs ix) < 0 \<and> length (ps_pages (ix_vs ix)) < 2 ^ 31
   \<and> length v = ev_dim E \<and> (case encoded of None \<Rightarrow> True | Some b \<Rightarrow> length b = ev_dim E + 8)"

text \<open>The vector the record stands for: the quantised one, or the one the given bytes encode.\<close>

definition recorded :: "(paged_store, 'g) env \<Rightarrow> vec \<Rightarrow> bytes option \<Rightarrow> vec" where
  "recorded E v encoded = disk_dequantize (ev_fl E) (case encoded of None \<Rightarrow> disk_quantize (ev_fl E) v | Some b \<Rightarrow> b)"

lemma insert_returns:
  assumes "rocks_graph rg vertex sound" "engine io rg E" "engine_ok E io vertex sound ix"
    and "insertable E level n v encoded ix" "ev_m E \<le> ev_m_max E"
  shows "\<exists>st ix'. insertNode E level n v encoded ix = Some (Inr st, ix') \<and> engine_ok E io vertex sound ix'
    \<and> ix_ids ix' = ix_ids ix
    \<and> (\<forall>m. m \<noteq> n \<longrightarrow> contents E ix' m = contents E ix m)
    \<and> (degrees_ok (ev_m_max E) (ix_nodes ix) \<longrightarrow> degrees_ok (ev_m_max E) (ix_nodes ix'))
    \<and> (st = OK \<longrightarrow> contents E ix' n = Some (recorded E v encoded) \<and> vs_exists (ev_vs E) n (ix_vs ix')
         \<and> ix_entry ix' \<noteq> k_invalid_node_id)"
proof -
  note H = paged_hnsw [OF assms(1,2)]
  note ok = assms(3) [unfolded engine_ok_def]
  have vs: "ev_vs E = paged_ops (ev_dim E) (ev_fl E) io" using assms(2) by (simp add: engine_def)
  have r: "stored_vector E v encoded = recorded E v encoded"
    by (simp add: stored_vector_def recorded_def vs paged_ops_def split: option.split)
  have "hnsw.room E (paged_ok (ev_dim E) io) (paged_view (ev_fl E)) paged_writable (neighbours vertex) sound n v encoded ix"
    using assms(4) ok
    by (simp add: hnsw.room_def [OF H] insertable_def paged_view_def paged_writable_def vs paged_ops_def split: option.splits)
  moreover have "0 \<le> level" using assms(4) by (simp add: insertable_def)
  ultimately have "\<exists>st ix'. insertNode E level n v encoded ix = Some (Inr st, ix')
      \<and> hnsw.inserted E (paged_ok (ev_dim E) io) (paged_view (ev_fl E)) (neighbours vertex) sound n v encoded ix st ix'"
    using hnsw.wp_insertNode [OF H _ _ assms(5)] by (intro wp_returns) auto
  then show ?thesis
    by (auto simp: hnsw.inserted_def [OF H] hnsw.apart_def [OF H] hnsw.bounded_def [OF H] hnsw.holds_def [OF H]
      engine_ok_def contents_def r)
qed


lemma tiny_insertable: "insertable tiny_env 1 5 [9] None tiny_index"
proof -
  have "length (ps_pages buffered_paged) = 1" by (simp add: buffered_paged_def)
  then show ?thesis by (simp add: insertable_def buffered_page_of k_invalid_node_id_def)
qed



lemma get_returns:
  assumes "rocks_graph rg vertex sound" "engine io rg E" "engine_ok E io vertex sound ix"
  shows "\<exists>ix'. getNodeVector E n out ix = Some (Inr (if \<not> out then Inl InvalidArgument
        else if is_tombstoned (ix_ids ix) n \<or> \<not> vs_exists (ev_vs E) n (ix_vs ix) then Inl NotFound
        else Inr (the (contents E ix n))), ix')
    \<and> engine_ok E io vertex sound ix' \<and> unchanged E ix ix'
    \<and> (vs_exists (ev_vs E) n (ix_vs ix) \<longrightarrow> contents E ix n \<noteq> None)"
proof -
  note H = paged_hnsw [OF assms(1,2)]
  note ok = assms(3) [unfolded engine_ok_def]
  have refl: "unchanged E ix ix" by (simp add: unchanged_def)
  have "paged_ok (ev_dim E) io (ix_vs ix)" using ok by (simp add: index_ok_def)
  then have ex: "contents E ix n \<noteq> None" if "vs_exists (ev_vs E) n (ix_vs ix)"
    using paged.exists_law [of "ev_dim E" io "ix_vs ix" "ev_fl E" n] that assms(2) by (simp add: contents_def engine_def)
  show ?thesis
  proof (cases "out \<and> \<not> is_tombstoned (ix_ids ix) n \<and> vs_exists (ev_vs E) n (ix_vs ix)")
    case True
    then obtain v where v: "contents E ix n = Some v" using ex by blast
    then have "paged_view (ev_fl E) (ix_vs ix) n = Some v" by (simp add: contents_def)
    from wp_returns [OF hnsw.wp_readVector [OF H ok this]]
    obtain ix' where r: "readVector E n ix = Some (Inr v, ix')"
      "hnsw.keeps E (paged_ok (ev_dim E) io) (paged_view (ev_fl E)) paged_writable (neighbours vertex) sound ix ix'"
      by (auto simp: hnsw.bad_def [OF H])
    have "getNodeVector E n out ix = Some (Inr (Inr v), ix')"
      using True r(1) by (simp add: getNodeVector_def bnd_def get_def ret_def catching_def)
    then show ?thesis using True v keeps_unchanged [OF H r(2)] by auto
  next
    case False
    then have "getNodeVector E n out ix = Some (Inr (if \<not> out then Inl InvalidArgument else Inl NotFound), ix)"
      by (auto simp: getNodeVector_def bnd_def get_def ret_def)
    then show ?thesis using False assms(3) ex refl by auto
  qed
qed

text \<open>CX: Looking up a vector returns its record, or \<open>NotFound\<close> exactly when the id is deleted or the
  store does not have it; without an output the call is refused, and the index is left as it was.\<close>

theorem get_node_vector:
  assumes "rocks_graph rg vertex sound" "engine io rg E" "engine_ok E io vertex sound ix"
  shows "\<exists>ix'. getNodeVector E n out ix = Some (Inr (if \<not> out then Inl InvalidArgument
        else if is_tombstoned (ix_ids ix) n \<or> \<not> vs_exists (ev_vs E) n (ix_vs ix) then Inl NotFound
        else Inr (the (contents E ix n))), ix')
    \<and> engine_ok E io vertex sound ix' \<and> unchanged E ix ix'
    \<and> (vs_exists (ev_vs E) n (ix_vs ix) \<longrightarrow> contents E ix n \<noteq> None)"
  using get_returns [OF assms] .

theorem get_node_vector_witness:
  "\<exists>r ix'. getNodeVector tiny_env 0 True tiny_index = Some (Inr r, ix') \<and> unchanged tiny_env tiny_index ix'"
  using get_node_vector [OF mem.rocks_graph_axioms tiny_engine tiny_ok, of 0 True] by blast

text \<open>What an insertion reports as stored can be read back: the lookup returns the record.\<close>

theorem insert_then_get:
  assumes "rocks_graph rg vertex sound" "engine io rg E" "engine_ok E io vertex sound ix"
    and "insertable E level n v encoded ix" "ev_m E \<le> ev_m_max E" "\<not> is_tombstoned (ix_ids ix) n"
  shows "\<exists>r ix'. bnd (insertNode E level n v encoded) (\<lambda>st.
      if st \<noteq> OK then ret (Inl st) else getNodeVector E n True) ix = Some (Inr r, ix')
    \<and> (r = Inr (recorded E v encoded) \<or> (\<exists>st. r = Inl st \<and> fst (the (insertNode E level n v encoded ix)) = Inr st \<and> st \<noteq> OK))"
proof -
  obtain st ix1 where i: "insertNode E level n v encoded ix = Some (Inr st, ix1)" "engine_ok E io vertex sound ix1"
    "ix_ids ix1 = ix_ids ix" "st = OK \<Longrightarrow> contents E ix1 n = Some (recorded E v encoded) \<and> vs_exists (ev_vs E) n (ix_vs ix1)"
    using insert_returns [OF assms(1-5)] by blast
  show ?thesis
  proof (cases "st = OK")
    case True
    obtain ix' where "getNodeVector E n True ix1 = Some (Inr (Inr (recorded E v encoded)), ix')"
      using get_returns [OF assms(1,2) i(2), of n True] i(3,4) True assms(6) by auto
    then show ?thesis using i(1) True by (simp add: bnd_def)
  next
    case False
    then show ?thesis using i(1) by (simp add: bnd_def ret_def)
  qed
qed

theorem insert_then_get_witness:
  "\<exists>r ix'. bnd (insertNode tiny_env 1 5 [9] None) (\<lambda>st.
      if st \<noteq> OK then ret (Inl st) else getNodeVector tiny_env 5 True) tiny_index = Some (Inr r, ix')"
  using insert_then_get [OF mem.rocks_graph_axioms tiny_engine tiny_ok tiny_insertable]
  by (auto simp: tiny_index_def is_tombstoned_def)

subsection \<open>Any sequence of calls\<close>

inductive index_step :: "(paged_store, 'g) env \<Rightarrow> (paged_store, 'g) index \<Rightarrow> (paged_store, 'g) index \<Rightarrow> bool"
  for E :: "(paged_store, 'g) env" where
  insert: "insertable E level n v encoded ix \<Longrightarrow> insertNode E level n v encoded ix = Some (r, ix') \<Longrightarrow> index_step E ix ix'"
| delete: "deleteNode n ix = Some (r, ix') \<Longrightarrow> index_step E ix ix'"
| lookup: "getNodeVector E n out ix = Some (r, ix') \<Longrightarrow> index_step E ix ix'"
| search: "length q = ev_dim E \<Longrightarrow> knnSearchK E q k ef ix = Some (r, ix') \<Longrightarrow> index_step E ix ix'"
| filtered: "length q = ev_dim E \<Longrightarrow> knnSearchKFiltered E q k ef (Some p) max_scan docs ix = Some (r, ix') \<Longrightarrow> index_step E ix ix'"

text \<open>What a call guarantees: the invariant, the degree bound, and every record already stored.\<close>

definition preserves where
  "preserves E io vertex sound ix ix' \<longleftrightarrow> engine_ok E io vertex sound ix'
     \<and> (degrees_ok (ev_m_max E) (ix_nodes ix) \<longrightarrow> degrees_ok (ev_m_max E) (ix_nodes ix'))
     \<and> (\<forall>m v. contents E ix m = Some v \<longrightarrow> contents E ix' m = Some v)"

lemma unchanged_preserves: "engine_ok E io vertex sound ix' \<Longrightarrow> unchanged E ix ix' \<Longrightarrow> preserves E io vertex sound ix ix'"
  by (simp add: preserves_def unchanged_def)

lemma preserves_refl: "engine_ok E io vertex sound ix \<Longrightarrow> preserves E io vertex sound ix ix"
  by (simp add: preserves_def)

lemma step_preserves:
  assumes "rocks_graph rg vertex sound" "engine io rg E" "ev_m E \<le> ev_m_max E"
    and "index_step E ix ix'" "engine_ok E io vertex sound ix"
  shows "preserves E io vertex sound ix ix'"
  using assms(4)
proof (cases rule: index_step.cases)
  case (insert level n v encoded r)
  then have "contents E ix n = None" by (simp add: contents_def insertable_def paged_view_def)
  moreover obtain st where "engine_ok E io vertex sound ix'" "\<forall>m. m \<noteq> n \<longrightarrow> contents E ix' m = contents E ix m"
    "degrees_ok (ev_m_max E) (ix_nodes ix) \<longrightarrow> degrees_ok (ev_m_max E) (ix_nodes ix')"
    using insert_returns [OF assms(1,2,5) insert(1) assms(3)] insert(2) by auto
  ultimately show ?thesis unfolding preserves_def by (metis option.distinct(1))
next
  case (delete n r)
  then show ?thesis using assms(5)
    by (auto simp: deleteNode_def bnd_def modify_def ret_def preserves_def engine_ok_def index_ok_def contents_def)
next
  case (lookup n out r)
  then show ?thesis using get_returns [OF assms(1,2,5), of n out] unchanged_preserves by force
next
  case (search q k ef r)
  show ?thesis
  proof (cases "ix_entry ix = k_invalid_node_id \<or> k \<le> 0")
    case True
    then have "ix' = ix" using search(2) by (auto simp: knnSearchK_def bnd_def get_def ret_def)
    then show ?thesis using preserves_refl [OF assms(5)] by simp
  next
    case False
    then show ?thesis using knn_returns [OF assms(1,2,5) search(1), of k ef] search(2) unchanged_preserves by force
  qed
next
  case (filtered q k ef p max_scan docs r)
  show ?thesis
  proof (cases "ix_entry ix = k_invalid_node_id \<or> k \<le> 0")
    case True
    then have "ix' = ix" using filtered(2) by (auto simp: knnSearchKFiltered_def bnd_def get_def ret_def)
    then show ?thesis using preserves_refl [OF assms(5)] by simp
  next
    case False
    then show ?thesis
      using filtered_returns [OF assms(1,2,5) filtered(1), of k ef p max_scan docs] filtered(2) unchanged_preserves by force
  qed
qed




subsection \<open>Layer-0 adjacencies and the corruption latch\<close>

text \<open>A layer-0 adjacency read through the cache is the graph's, less the neighbours without a
  record, whether or not the cache had it.\<close>

theorem edges_through_cache:
  assumes "rocks_graph rg vertex sound" "engine io rg E" "engine_ok E io vertex sound ix" "contents E ix n \<noteq> None"
  shows "\<exists>ix'. getEdgesCached E n ix = Some (Inr (filter (\<lambda>m. contents E ix m \<noteq> None) (neighbours vertex (ix_gs ix) n)), ix')
    \<and> engine_ok E io vertex sound ix' \<and> unchanged E ix ix'"
proof -
  note H = paged_hnsw [OF assms(1,2)]
  note ok = assms(3) [unfolded engine_ok_def]
  have "paged_view (ev_fl E) (ix_vs ix) n \<noteq> None" using assms(4) by (simp add: contents_def)
  from wp_returns [OF hnsw.wp_getEdgesCached [OF H ok this, where Q = "\<lambda>_. False"]]
  show ?thesis using keeps_unchanged [OF H] by (auto simp: layer_links_def contents_def)
qed

theorem edges_through_cache_witness:
  "\<exists>ix'. getEdgesCached tiny_env 0 tiny_index = Some (Inr [], ix')"
  using edges_through_cache [OF mem.rocks_graph_axioms tiny_engine tiny_ok tiny_contents(1)]
  by (auto simp: tiny_index_def neighbours_mem mem_adj_def)


definition failing_env :: "(paged_store, mem_graph) env" where
  "failing_env = tiny_env\<lparr>ev_gs := aster_graph_store
     (mem_rocks\<lparr>rg_GetAllEdges := (\<lambda>_ _. (Corruption, \<lparr>num_edges_out = 0, nxts_out = []\<rparr>))\<rparr>)\<rparr>"


subsection \<open>Levels\<close>



end
