(* ===== verification/Index_Meta.thy ===== *)
theory Index_Meta
  imports Paged_Meta Hnsw_Engine Crc32 Id_Map
begin

text \<open>
  The checkpoint of the index: \<open>SerializeMetadata\<close>, \<open>DeserializeMetadata\<close> and \<open>PeekGraphEncoding\<close> of
  \<open>src/astervec_index.cc\<close>, format version 4, for the default vector storage type 1 (the paged store).
  The file is a header with its own checksum, the upper-layer nodes, the deletion marks, the update
  map, the block of the vector store and a trailer, followed by the checksum of all of it. Loading
  fails with the status the code returns, with the index as far as it has been filled; \<open>Open\<close> then
  falls back to the previous checkpoint.
\<close>

subsection \<open>State\<close>

text \<open>The members the checkpoint holds besides the index proper.\<close>

record 'g stored_index =
  si_ix :: "(paged_store, 'g) index"
  si_lsn :: u64
  si_live :: int
  si_mode :: u32

definition on_ix :: "((paged_store, 'g) index \<Rightarrow> (paged_store, 'g) index) \<Rightarrow> 'g stored_index \<Rightarrow> 'g stored_index" where
  "on_ix f si = si\<lparr>si_ix := f (si_ix si)\<rparr>"

definition kMetadataMagic :: bytes where
  "kMetadataMagic = [0x4C, 0x53, 0x4D, 0x56, 0x4D, 0x45, 0x54, 0x41]"

definition kMetadataVersion :: u32 where
  "kMetadataVersion = 4"

definition kStoragePaged :: u32 where
  "kStoragePaged = 1"

subsection \<open>Header\<close>

record meta_header =
  mh_version :: u32
  mh_entry :: u64
  mh_max_layer :: u32
  mh_nodes :: u64
  mh_deleted :: u64
  mh_encoding :: u32

definition header_fields :: "meta_header \<Rightarrow> bytes" where
  "header_fields h = put_le 8 (mh_entry h) @ put_le 4 (mh_max_layer h) @ put_le 8 (mh_nodes h) @ put_le 8 (mh_deleted h)
     @ put_le 4 (mh_encoding h)"

definition MetaHeaderCrc :: "meta_header \<Rightarrow> u32" where
  "MetaHeaderCrc h = crc_value (kMetadataMagic @ put_le 4 (mh_version h) @ header_fields h)"

text \<open>\<open>PeekGraphEncoding\<close>, on the bytes of the file; \<open>None\<close>: the file cannot be opened.\<close>

definition PeekGraphEncoding :: "bytes option \<Rightarrow> status + u32" where
  "PeekGraphEncoding file =
     (case file of
        None \<Rightarrow> Inl NotFound
      | Some bs \<Rightarrow>
          if length bs < 8 \<or> take 8 bs \<noteq> kMetadataMagic then Inl Corruption
          else if length (drop 8 bs) < 4 then Inl Corruption
          else let version = get_le (take 4 (drop 8 bs)) :: u32; rest = drop 12 bs in
            if version < 1 \<or> version > kMetadataVersion then Inl Corruption
            else if version < 3 then Inr 0
            else if length rest < 36 then Inl Corruption
            else let h = \<lparr>mh_version = version, mh_entry = get_le (take 8 rest), mh_max_layer = get_le (take 4 (drop 8 rest)),
                          mh_nodes = get_le (take 8 (drop 12 rest)), mh_deleted = get_le (take 8 (drop 20 rest)),
                          mh_encoding = get_le (take 4 (drop 28 rest))\<rparr>
                 in if MetaHeaderCrc h \<noteq> get_le (take 4 (drop 32 rest)) then Inl Corruption else Inr (mh_encoding h))"

subsection \<open>Writing\<close>

definition put_layer :: "int \<times> node_id list \<Rightarrow> bytes" where
  "put_layer x = (case x of (l, ns) \<Rightarrow> put_le 4 (word_of_int l :: u32) @ put_size (length ns) @ concat (map (put_le 8) ns))"

definition put_node :: "(paged_store, 'g) env \<Rightarrow> node_id \<times> node \<Rightarrow> bytes" where
  "put_node E x = (case x of (n, nd) \<Rightarrow>
     put_le 8 n @ put_size (length (nodePointView E nd)) @ float_bytes (nodePointView E nd)
     @ put_size (length (nd_layers nd)) @ concat (map put_layer (nd_layers nd)))"

definition put_mapping :: "real_id \<times> internal_id \<Rightarrow> bytes" where
  "put_mapping x = put_le 8 (fst x) @ put_le 8 (snd x)"

definition header_of :: "u32 \<Rightarrow> 'g stored_index \<Rightarrow> meta_header" where
  "header_of enc si =
     \<lparr>mh_version = kMetadataVersion, mh_entry = ix_entry (si_ix si), mh_max_layer = word_of_int (ix_max_layer (si_ix si)),
      mh_nodes = of_nat (length (ix_nodes (si_ix si))),
      mh_deleted = of_nat (length (tombstoned_internal_ids (ix_ids (si_ix si)))), mh_encoding = enc\<rparr>"

definition SerializeMetadataImpl :: "(paged_store, 'g) env \<Rightarrow> u32 \<Rightarrow> 'g stored_index \<Rightarrow> bytes" where
  "SerializeMetadataImpl E enc si =
     (let ix = si_ix si; ids = ix_ids ix; h = header_of enc si in
      kMetadataMagic @ put_le 4 kMetadataVersion @ header_fields h @ put_le 4 (MetaHeaderCrc h)
      @ concat (map (put_node E) (ix_nodes ix))
      @ concat (map (put_le 8) (tombstoned_internal_ids ids))
      @ put_size (length (updated_real_to_internal ids)) @ put_le 8 (next_update_internal_id ids)
      @ concat (map put_mapping (updated_real_to_internal ids))
      @ put_le 4 kStoragePaged @ paged_serialize (ix_vs ix)
      @ put_le 8 (si_lsn si) @ put_le 8 (word_of_int (si_live si) :: u64) @ put_le 4 (si_mode si))"

text \<open>The stream takes all bytes (\<open>None\<close>) or fails after some; the checksum is worked out on the way.\<close>

definition SerializeMetadata :: "(paged_store, 'g) env \<Rightarrow> u32 \<Rightarrow> nat option \<Rightarrow> 'g stored_index \<Rightarrow> status \<times> bytes" where
  "SerializeMetadata E enc limit si =
     (let body = SerializeMetadataImpl E enc si; file = body @ put_le 4 (crc_value body) in
      case limit of
        None \<Rightarrow> (OK, file)
      | Some k \<Rightarrow> if length file \<le> k then (OK, file) else (IOError, take k file))"

subsection \<open>Loading\<close>

definition change_ix :: "((paged_store, 'g) index \<Rightarrow> (paged_store, 'g) index) \<Rightarrow> ('g stored_index, status, unit) reader" where
  "change_ix f = change (on_ix f)"

definition read_layer :: "('g stored_index, status, int \<times> node_id list) reader" where
  "read_layer =
     and_then (ReadValue IOError 4) (\<lambda>l :: u32.
     and_then (ReadValue IOError 8) (\<lambda>c :: u64.
     and_then bytes_left (\<lambda>b.
     and_then (check Corruption (\<not> unat c > b div 8)) (\<lambda>_.
     and_then (read_seq (unat c) (ReadValue IOError 8)) (\<lambda>ns.
     got (sint l, ns))))))"

definition read_point :: "(paged_store, 'g) env \<Rightarrow> ('g stored_index, status, vec) reader" where
  "read_point E =
     and_then (ReadValue IOError 8) (\<lambda>n :: u64.
     and_then (check InvalidArgument (unat n = ev_dim E)) (\<lambda>_.
     and_then bytes_left (\<lambda>b.
     and_then (check Corruption (\<not> b < unat n * 4)) (\<lambda>_.
     and_then (ReadBytes IOError (unat n * 4)) (\<lambda>bs.
     got (floats bs))))))"

definition load_node :: "(paged_store, 'g) env \<Rightarrow> nat \<Rightarrow> ('g stored_index, status, unit) reader" where
  "load_node E i =
     and_then (ReadValue IOError 8) (\<lambda>n :: u64.
     and_then (read_point E) (\<lambda>point.
     and_then (ReadValue IOError 8) (\<lambda>c :: u64.
     and_then bytes_left (\<lambda>b.
     and_then (check Corruption (\<not> unat c > b div 12)) (\<lambda>_.
     and_then (read_seq (unat c) read_layer) (\<lambda>layers.
     change_ix (\<lambda>ix.
       if map_of (ix_nodes ix) n \<noteq> None then ix
       else ix\<lparr>ix_nodes := ix_nodes ix @ [(n, quantizeNodePoint E
          \<lparr>nd_id = n, nd_point = point, nd_q8 = [], nd_min = 0, nd_max = 0,
           nd_layers = fold (\<lambda>(l, ns). layer_put l ns) layers []\<rparr>)]\<rparr>)))))))"

definition load_tombstone :: "nat \<Rightarrow> ('g stored_index, status, unit) reader" where
  "load_tombstone i = and_then (ReadValue IOError 8) (\<lambda>n. change_ix (ix_ids_update (tombstone n)))"

definition load_mapping :: "nat \<Rightarrow> ('g stored_index, status, unit) reader" where
  "load_mapping i =
     and_then (ReadValue IOError 8) (\<lambda>r :: u64.
     and_then (ReadValue IOError 8) (\<lambda>n :: u64.
     change_ix (ix_ids_update (\<lambda>m. m\<lparr>updated_real_to_internal := AList.update r n (updated_real_to_internal m),
                                    updated_internal_to_real := AList.update n r (updated_internal_to_real m)\<rparr>))))"

definition load_header :: "u32 \<Rightarrow> ('g stored_index, status, meta_header) reader" where
  "load_header enc =
     and_then (ReadBytes IOError 8) (\<lambda>magic.
     and_then (check IOError (magic = kMetadataMagic)) (\<lambda>_.
     and_then (ReadValue IOError 4) (\<lambda>version :: u32.
     and_then (check IOError (\<not> (version < 1 \<or> version > kMetadataVersion))) (\<lambda>_.
     and_then (ReadValue IOError 8) (\<lambda>entry :: u64.
     and_then (ReadValue IOError 4) (\<lambda>max_layer :: u32.
     and_then (ReadValue IOError 8) (\<lambda>nodes :: u64.
     and_then (ReadValue IOError 8) (\<lambda>deleted :: u64.
     if version \<ge> 3 then
       and_then (ReadValue IOError 4) (\<lambda>stored :: u32.
       and_then (ReadValue IOError 4) (\<lambda>crc :: u32.
       let h = \<lparr>mh_version = version, mh_entry = entry, mh_max_layer = max_layer, mh_nodes = nodes,
                mh_deleted = deleted, mh_encoding = stored\<rparr> in
       and_then (check Corruption (MetaHeaderCrc h = crc)) (\<lambda>_.
       and_then (check Corruption (stored = enc)) (\<lambda>_. got h))))
     else
       and_then (check Corruption (enc = 0)) (\<lambda>_.
       got \<lparr>mh_version = version, mh_entry = entry, mh_max_layer = max_layer, mh_nodes = nodes,
            mh_deleted = deleted, mh_encoding = 0\<rparr>)))))))))"

text \<open>The update map, absent before version 2; the reverse map and the Bloom filter are rebuilt.\<close>

definition load_id_map :: "(real \<Rightarrow> real) \<Rightarrow> u32 \<Rightarrow> ('g stored_index, status, unit) reader" where
  "load_id_map lg version =
     and_then (change_ix (ix_ids_update (\<lambda>m. m\<lparr>updated_real_to_internal := [], updated_internal_to_real := [],
        next_update_internal_id := kFirstUpdateId\<rparr>))) (\<lambda>_.
     and_then (if version \<ge> 2 then
         and_then (ReadValue IOError 8) (\<lambda>c :: u64.
         and_then (ReadValue IOError 8) (\<lambda>next :: u64.
         and_then (change_ix (ix_ids_update (next_update_internal_id_update (\<lambda>_. next)))) (\<lambda>_.
         and_then bytes_left (\<lambda>b.
         and_then (check Corruption (\<not> unat c > b div 16)) (\<lambda>_.
         times 0 (unat c) load_mapping)))))
       else got ()) (\<lambda>_.
     change_ix (ix_ids_update (\<lambda>m. m\<lparr>update_bloom := bloom_add_all (map fst (updated_real_to_internal m))
        (bloom_reset_default lg (max (length (updated_real_to_internal m)) 512) (update_bloom m))\<rparr>))))"

definition load_trailer :: "u32 \<Rightarrow> ('g stored_index, status, unit) reader" where
  "load_trailer version =
     and_then (change (\<lambda>si. si\<lparr>si_lsn := 0, si_live := - 1\<rparr>)) (\<lambda>_.
     and_then (if version \<ge> 4 then
         and_then (ReadValue IOError 8) (\<lambda>l :: u64.
         and_then (change (si_lsn_update (\<lambda>_. l))) (\<lambda>_.
         and_then (ReadValue IOError 8) (\<lambda>n :: u64. change (si_live_update (\<lambda>_. sint n)))))
       else got ()) (\<lambda>_.
     and_then (change (si_mode_update (\<lambda>_. 0))) (\<lambda>_.
     and_then bytes_left (\<lambda>b.
     if version \<ge> 4 \<and> b > 0 then
       and_then (ReadValue Corruption 4) (\<lambda>m :: u32.
       and_then (change (si_mode_update (\<lambda>_. m))) (\<lambda>_. check Corruption (\<not> m > 1)))
     else got ()))))"

definition DeserializeMetadataImpl ::
  "(paged_store, 'g) env \<Rightarrow> (real \<Rightarrow> real) \<Rightarrow> medium \<Rightarrow> u32 \<Rightarrow> ('g stored_index, status, unit) reader" where
  "DeserializeMetadataImpl E lg io enc =
     and_then (load_header enc) (\<lambda>h.
     and_then bytes_left (\<lambda>b.
     and_then (check Corruption (\<not> unat (mh_nodes h) > b div 24)) (\<lambda>_.
     and_then (change_ix (ix_nodes_update (\<lambda>_. []))) (\<lambda>_.
     and_then (times 0 (unat (mh_nodes h)) (load_node E)) (\<lambda>_.
     and_then bytes_left (\<lambda>b.
     and_then (check Corruption (\<not> unat (mh_deleted h) > b div 8)) (\<lambda>_.
     and_then (change_ix (ix_ids_update (tombstoned_internal_ids_update (\<lambda>_. [])))) (\<lambda>_.
     and_then (times 0 (unat (mh_deleted h)) load_tombstone) (\<lambda>_.
     and_then (load_id_map lg (mh_version h)) (\<lambda>_.
     and_then (ReadValue IOError 4) (\<lambda>ty :: u32.
     and_then (check InvalidArgument (ty = kStoragePaged)) (\<lambda>_.
     and_then (on_part IOError (\<lambda>si. ix_vs (si_ix si)) (\<lambda>s. on_ix (ix_vs_update (\<lambda>_. s))) (paged_deserialize io)) (\<lambda>_.
     and_then (load_trailer (mh_version h)) (\<lambda>_.
     change_ix (\<lambda>ix. ix\<lparr>ix_entry := mh_entry h, ix_max_layer := sint (mh_max_layer h)\<rparr>)))))))))))))))"

text \<open>\<open>DeserializeMetadata\<close>: from version 3 on, the last four bytes are the checksum of the rest; an
  exception is a corruption.\<close>

definition DeserializeMetadata ::
  "(paged_store, 'g) env \<Rightarrow> (real \<Rightarrow> real) \<Rightarrow> medium \<Rightarrow> u32 \<Rightarrow> bytes \<Rightarrow> 'g stored_index \<Rightarrow> (status \<times> 'g stored_index) option" where
  "DeserializeMetadata E lg io enc file si =
     (if length file < 12 then Some (Corruption, si)
      else let version = get_le (take 4 (drop 8 file)) :: u32;
               body = (if version \<ge> 3 then take (length file - 4) file else file) in
        if version \<ge> 3 \<and> crc_value body \<noteq> get_le (drop (length file - 4) file) then Some (Corruption, si)
        else (case DeserializeMetadataImpl E lg io enc (body, si) of
                None \<Rightarrow> None
              | Some (Inl e, _, si') \<Rightarrow> Some (Corruption, si')
              | Some (Inr (Inl st), _, si') \<Rightarrow> Some (st, si')
              | Some (Inr (Inr _), _, si') \<Rightarrow> Some (OK, si')))"


subsection \<open>What is written is read back\<close>

definition layer_fits :: "int \<times> node_id list \<Rightarrow> bool" where
  "layer_fits x \<longleftrightarrow> - (2 ^ 31) \<le> fst x \<and> fst x < 2 ^ 31 \<and> length (snd x) < 2 ^ 64"

definition node_fits :: "(paged_store, 'g) env \<Rightarrow> node_id \<times> node \<Rightarrow> bool" where
  "node_fits E x \<longleftrightarrow> length (nodePointView E (snd x)) = ev_dim E \<and> ev_dim E < 2 ^ 64
     \<and> length (nd_layers (snd x)) < 2 ^ 64 \<and> distinct (map fst (nd_layers (snd x)))
     \<and> (\<forall>l \<in> set (nd_layers (snd x)). layer_fits l)"

text \<open>The sizes fit their fields; keys are distinct, as in the hash maps.\<close>

definition index_fits :: "(paged_store, 'g) env \<Rightarrow> 'g stored_index \<Rightarrow> bool" where
  "index_fits E si \<longleftrightarrow> length (ix_nodes (si_ix si)) < 2 ^ 64 \<and> distinct (map fst (ix_nodes (si_ix si)))
     \<and> (\<forall>x \<in> set (ix_nodes (si_ix si)). node_fits E x)
     \<and> length (tombstoned_internal_ids (ix_ids (si_ix si))) < 2 ^ 64 \<and> distinct (tombstoned_internal_ids (ix_ids (si_ix si)))
     \<and> length (updated_real_to_internal (ix_ids (si_ix si))) < 2 ^ 64
     \<and> - (2 ^ 31) \<le> ix_max_layer (si_ix si) \<and> ix_max_layer (si_ix si) < 2 ^ 31
     \<and> - (2 ^ 63) \<le> si_live si \<and> si_live si < 2 ^ 63 \<and> si_mode si \<le> 1"

lemma read_layer_goes:
  assumes "layer_fits x"
  shows "goes read_layer (put_layer x @ rest, si) x (rest, si)"
proof -
  obtain l ns where x: "x = (l, ns)" by force
  have f: "sint (word_of_int l :: u32) = l" "length ns < 2 ^ 64" using assms by (simp_all add: layer_fits_def x sint_u32)
  have b: "length ns \<le> length (concat (map (put_le 8) ns) @ rest) div 8" by (rule enough_bytes) simp_all
  have s: "goes (read_seq (length ns) (ReadValue IOError 8)) (concat (map (put_le 8) ns) @ rest, si) ns (rest, si)"
    by (rule goes_seq) (simp add: goes_ReadValue)
  show ?thesis unfolding read_layer_def put_layer_def x prod.case append_assoc
    by (rule goes_bind, rule reads, simp, rule goes_bind, rule reads, simp, rule goes_bind, rule reads,
        rule goes_bind, rule reads, use b f in simp, unfold unat_u64 [OF f(2)], rule goes_bind [OF s])
      (simp add: f goes_got)
qed

lemma read_point_goes:
  assumes "length v = ev_dim E" "ev_dim E < 2 ^ 64"
  shows "goes (read_point E) (put_size (length v) @ float_bytes v @ rest, si) v (rest, si)"
proof -
  have l: "length v < 2 ^ 64" using assms by simp
  have n: "unat (of_nat (length v) :: u64) * 4 = length (float_bytes v)" using l by simp
  show ?thesis unfolding read_point_def
    by (rule goes_bind, rule reads, simp, rule goes_bind, rule reads, use assms in simp, rule goes_bind, rule reads,
        rule goes_bind, rule reads, use n in simp, rule goes_bind, rule goes_ReadBytes, rule n)
      (simp add: goes_got)
qed

definition reload_node :: "(paged_store, 'g) env \<Rightarrow> node_id \<times> node \<Rightarrow> node_id \<times> node" where
  "reload_node E x = (fst x, quantizeNodePoint E
     \<lparr>nd_id = fst x, nd_point = nodePointView E (snd x), nd_q8 = [], nd_min = 0, nd_max = 0, nd_layers = nd_layers (snd x)\<rparr>)"

lemma fold_update_new:
  "distinct (map fst ys) \<Longrightarrow> fst ` set xs \<inter> fst ` set ys = {} \<Longrightarrow> fold (\<lambda>(k, v). AList.update k v) ys xs = xs @ ys"
proof (induction ys arbitrary: xs)
  case (Cons y ys)
  obtain k v where y: "y = (k, v)" by force
  have "AList.update k v xs = xs @ [(k, v)]" using Cons.prems(2) by (intro AList_update_new) (simp add: y)
  then show ?case using Cons.IH [of "xs @ [(k, v)]"] Cons.prems by (auto simp: y)
qed simp

lemma layer_put_update: "layer_put = AList.update"
  by (simp add: fun_eq_iff layer_put_def)

lemma load_node_goes:
  assumes "node_fits E x" "map_of (ix_nodes (si_ix si)) (fst x) = None"
  shows "goes (load_node E i) (put_node E x @ rest, si) () (rest, on_ix (\<lambda>ix. ix\<lparr>ix_nodes := ix_nodes ix @ [reload_node E x]\<rparr>) si)"
proof -
  obtain n nd where x: "x = (n, nd)" by force
  have f: "length (nodePointView E nd) = ev_dim E" "ev_dim E < 2 ^ 64" "length (nd_layers nd) < 2 ^ 64"
    "distinct (map fst (nd_layers nd))" "\<forall>l \<in> set (nd_layers nd). layer_fits l"
    using assms(1) by (simp_all add: node_fits_def x)
  have b: "length (nd_layers nd) \<le> length (concat (map put_layer (nd_layers nd)) @ rest) div 12"
    by (rule enough_bytes) (auto simp: put_layer_def)
  have s: "goes (read_seq (length (nd_layers nd)) read_layer) (concat (map put_layer (nd_layers nd)) @ rest, si) (nd_layers nd) (rest, si)"
    by (rule goes_seq) (use f(5) read_layer_goes in blast)
  have "fold (\<lambda>(l, ns). layer_put l ns) (nd_layers nd) [] = nd_layers nd"
    using fold_update_new [OF f(4), of "[]"] by (simp add: layer_put_update)
  then show ?thesis unfolding load_node_def put_node_def x prod.case append_assoc
    by (rule_tac goes_bind, rule_tac reads, simp, rule_tac goes_bind [OF read_point_goes [OF f(1,2)]], rule_tac goes_bind, rule_tac reads, simp,
        rule_tac goes_bind, rule_tac reads, rule_tac goes_bind, rule_tac reads, use b f in simp, unfold unat_u64 [OF f(3)], rule_tac goes_bind [OF s])
      (use assms(2) in \<open>simp add: change_ix_def goes_def change_def on_ix_def reload_node_def x\<close>)
qed

lemma load_nodes_goes:
  assumes "\<forall>x \<in> set xs. node_fits E x" "distinct (map fst xs)"
  shows "goes (times 0 (length xs) (load_node E)) (concat (map (put_node E) xs) @ rest, on_ix (ix_nodes_update (\<lambda>_. [])) si) ()
    (rest, on_ix (ix_nodes_update (\<lambda>_. map (reload_node E) xs)) si)"
proof -
  let ?S = "\<lambda>k. on_ix (ix_nodes_update (\<lambda>_. map (reload_node E) (take k xs))) si"
  have "goes (load_node E (0 + k)) (put_node E (xs ! k) @ rest, ?S k) () (rest, ?S (Suc k))" if k: "k < length xs" for k rest
  proof -
    have "fst (xs ! k) \<notin> fst ` set (take k xs)"
    proof
      assume "fst (xs ! k) \<in> fst ` set (take k xs)"
      then obtain j where j: "j < k" "fst (xs ! j) = fst (xs ! k)" using k by (auto simp: in_set_conv_nth)
      then have "map fst xs ! j = map fst xs ! k" using k by simp
      then show False using nth_eq_iff_index_eq [OF assms(2), of j k] j(1) k by simp
    qed
    then have "map_of (ix_nodes (si_ix (?S k))) (fst (xs ! k)) = None"
      by (simp add: on_ix_def map_of_eq_None_iff image_image reload_node_def)
    moreover have "node_fits E (xs ! k)" using assms(1) k by simp
    ultimately show ?thesis
      using load_node_goes [of E "xs ! k" "?S k" "0 + k" rest] k by (simp add: take_Suc_conv_app_nth on_ix_def)
  qed
  from goes_times [of xs "load_node E" 0 "put_node E" ?S rest, OF this] show ?thesis by simp
qed


lemma on_ix_on_ix: "on_ix f (on_ix g si) = on_ix (f \<circ> g) si"
  by (simp add: on_ix_def)

abbreviation set_ids :: "(id_map \<Rightarrow> id_map) \<Rightarrow> 'g stored_index \<Rightarrow> 'g stored_index" where
  "set_ids f \<equiv> on_ix (ix_ids_update f)"

lemma load_tombstones_goes:
  assumes "distinct ts"
  shows "goes (times 0 (length ts) load_tombstone) (concat (map (put_le 8) ts) @ rest, set_ids (tombstoned_internal_ids_update (\<lambda>_. [])) si) ()
    (rest, set_ids (tombstoned_internal_ids_update (\<lambda>_. rev ts)) si)"
proof -
  let ?S = "\<lambda>k. set_ids (tombstoned_internal_ids_update (\<lambda>_. rev (take k ts))) si"
  have "goes (load_tombstone (0 + k)) (put_le 8 (ts ! k) @ rest, ?S k) () (rest, ?S (Suc k))" if k: "k < length ts" for k rest
  proof -
    have "ts ! k \<notin> set (take k ts)"
      using k assms by (auto simp: in_set_conv_nth nth_eq_iff_index_eq)
    then have e: "?S (Suc k) = set_ids (tombstone (ts ! k)) (?S k)"
      using k by (simp add: on_ix_def tombstone_def take_Suc_conv_app_nth)
    show ?thesis unfolding load_tombstone_def e
      by (rule goes_bind, rule reads, simp) (simp add: change_ix_def goes_def change_def)
  qed
  from goes_times [of ts load_tombstone 0 "put_le 8" ?S rest, OF this] show ?thesis by simp
qed

definition swapped :: "('a \<times> 'b) list \<Rightarrow> ('b \<times> 'a) list" where
  "swapped = map (\<lambda>(a, b). (b, a))"

lemma swapped_keys: "fst ` set (swapped xs) = snd ` set xs"
  by (force simp: swapped_def)

definition with_map :: "(real_id \<times> internal_id) list \<Rightarrow> id_map \<Rightarrow> id_map" where
  "with_map xs m = m\<lparr>updated_real_to_internal := xs, updated_internal_to_real := swapped xs\<rparr>"

lemma load_mappings_goes:
  assumes "distinct (map fst xs)" "distinct (map snd xs)"
  shows "goes (times 0 (length xs) load_mapping) (concat (map put_mapping xs) @ rest, set_ids (with_map []) si) ()
    (rest, set_ids (with_map xs) si)"
proof -
  let ?S = "\<lambda>k. set_ids (with_map (take k xs)) si"
  have "goes (load_mapping (0 + k)) (put_mapping (xs ! k) @ rest, ?S k) () (rest, ?S (Suc k))" if k: "k < length xs" for k rest
  proof -
    obtain r n where x: "xs ! k = (r, n)" by force
    have d: "map fst xs ! k \<notin> set (take k (map fst xs))" "map snd xs ! k \<notin> set (take k (map snd xs))"
      using k assms by (auto simp: in_set_conv_nth nth_eq_iff_index_eq simp del: nth_map)
    then have "r \<notin> fst ` set (take k xs)" "n \<notin> fst ` set (swapped (take k xs))"
      using k x by (simp_all add: take_map swapped_keys)
    then have u: "AList.update r n (take k xs) = take (Suc k) xs" "AList.update n r (swapped (take k xs)) = swapped (take (Suc k) xs)"
      using k by (simp_all add: AList_update_new take_Suc_conv_app_nth x) (simp add: swapped_def)
    have e: "?S (Suc k) = set_ids (\<lambda>m. m\<lparr>updated_real_to_internal := AList.update r n (updated_real_to_internal m),
        updated_internal_to_real := AList.update n r (updated_internal_to_real m)\<rparr>) (?S k)"
      using u by (simp add: on_ix_def with_map_def)
    show ?thesis unfolding load_mapping_def put_mapping_def x fst_conv snd_conv append_assoc e
      by (rule goes_bind, rule reads, simp, rule goes_bind, rule reads, simp) (simp add: change_ix_def goes_def change_def)
  qed
  from goes_times [of xs load_mapping 0 put_mapping ?S rest, OF this] show ?thesis by simp
qed

definition reloaded_ids :: "(real \<Rightarrow> real) \<Rightarrow> id_map \<Rightarrow> id_map \<Rightarrow> id_map" where
  "reloaded_ids lg m m0 = (let fwd = updated_real_to_internal m in
     m0\<lparr>updated_real_to_internal := fwd, updated_internal_to_real := swapped fwd,
        next_update_internal_id := next_update_internal_id m,
        update_bloom := bloom_add_all (map fst fwd) (bloom_reset_default lg (max (length fwd) 512) (update_bloom m0))\<rparr>)"

lemma load_id_map_goes:
  assumes "length (updated_real_to_internal m) < 2 ^ 64"
    "distinct (map fst (updated_real_to_internal m))" "distinct (map snd (updated_real_to_internal m))"
  shows "goes (load_id_map lg 4) (put_size (length (updated_real_to_internal m)) @ put_le 8 (next_update_internal_id m)
      @ concat (map put_mapping (updated_real_to_internal m)) @ rest, si) () (rest, set_ids (reloaded_ids lg m) si)"
proof -
  let ?fwd = "updated_real_to_internal m" and ?next = "next_update_internal_id m"
  define s1 where "s1 = set_ids (\<lambda>m. m\<lparr>updated_real_to_internal := [], updated_internal_to_real := [], next_update_internal_id := kFirstUpdateId\<rparr>) si"
  define s2 where "s2 = set_ids (next_update_internal_id_update (\<lambda>_. ?next)) s1"
  have w: "s2 = set_ids (with_map []) s2" by (simp add: s2_def s1_def on_ix_def with_map_def swapped_def)
  have b: "length ?fwd \<le> length (concat (map put_mapping ?fwd) @ rest) div 16"
    by (rule enough_bytes) (auto simp: put_mapping_def)
  have c1: "goes (change_ix (ix_ids_update (\<lambda>m. m\<lparr>updated_real_to_internal := [], updated_internal_to_real := [],
      next_update_internal_id := kFirstUpdateId\<rparr>))) (r, si) () (r, s1)" for r by (simp add: change_ix_def goes_def change_def s1_def)
  have c2: "goes (change_ix (ix_ids_update (next_update_internal_id_update (\<lambda>_. ?next)))) (r, s1) () (r, s2)" for r
    by (simp add: change_ix_def goes_def change_def s2_def)
  have m: "goes (times 0 (length ?fwd) load_mapping) (concat (map put_mapping ?fwd) @ rest, s2) () (rest, set_ids (with_map ?fwd) s2)"
    by (subst (1) w, rule load_mappings_goes [OF assms(2,3)])
  have inner: "goes (if (4 :: u32) \<ge> 2 then
         and_then (ReadValue IOError 8) (\<lambda>c :: u64.
         and_then (ReadValue IOError 8) (\<lambda>next :: u64.
         and_then (change_ix (ix_ids_update (next_update_internal_id_update (\<lambda>_. next)))) (\<lambda>_.
         and_then bytes_left (\<lambda>b.
         and_then (check Corruption (\<not> unat c > b div 16)) (\<lambda>_.
         times 0 (unat c) load_mapping)))))
       else got ()) (put_size (length ?fwd) @ put_le 8 ?next @ concat (map put_mapping ?fwd) @ rest, s1) ()
      (rest, set_ids (with_map ?fwd) s2)"
    by (rule goes_if, rule goes_bind, rule reads, simp, rule goes_bind, rule reads, simp, rule goes_bind, rule c2,
        rule goes_bind, rule reads, rule goes_bind, rule reads, use b assms(1) in simp, unfold unat_u64 [OF assms(1)], rule m) simp
  have f: "set_ids (reloaded_ids lg m) si = set_ids (\<lambda>m. m\<lparr>update_bloom := bloom_add_all (map fst (updated_real_to_internal m))
        (bloom_reset_default lg (max (length (updated_real_to_internal m)) 512) (update_bloom m))\<rparr>) (set_ids (with_map ?fwd) s2)"
    by (cases "ix_ids (si_ix si)") (simp add: on_ix_def s2_def s1_def with_map_def reloaded_ids_def Let_def)
  show ?thesis unfolding load_id_map_def f
    by (rule goes_bind [OF c1], rule goes_bind [OF inner]) (simp add: change_ix_def goes_def change_def)
qed

lemma load_trailer_goes:
  assumes "- (2 ^ 63) \<le> live" "live < 2 ^ 63" "mode \<le> 1"
  shows "goes (load_trailer 4) (put_le 8 l @ put_le 8 (word_of_int live :: u64) @ put_le 4 mode, si) ()
    ([], si\<lparr>si_lsn := l, si_live := live, si_mode := mode\<rparr>)"
proof -
  define s1 where "s1 = si\<lparr>si_lsn := 0, si_live := - 1\<rparr>"
  define s2 where "s2 = s1\<lparr>si_lsn := l\<rparr>"
  define s3 where "s3 = s2\<lparr>si_live := live\<rparr>"
  have c1: "goes (change (\<lambda>si. si\<lparr>si_lsn := 0, si_live := - 1\<rparr>)) (r, si) () (r, s1)" for r by (simp add: goes_def change_def s1_def)
  have c2: "goes (change (si_lsn_update (\<lambda>_. l))) (r, s1) () (r, s2)" for r by (simp add: goes_def change_def s2_def)
  have c3: "goes (change (si_live_update (\<lambda>_. sint (word_of_int live :: u64)))) (r, s2) () (r, s3)" for r
    using assms by (simp add: goes_def change_def s3_def sint_u64)
  have c4: "goes (change (si_mode_update (\<lambda>_. 0))) (r, s3) () (r, s3\<lparr>si_mode := 0\<rparr>)" for r by (simp add: goes_def change_def)
  have c5: "goes (change (si_mode_update (\<lambda>_. mode))) (r, s3\<lparr>si_mode := 0\<rparr>) () (r, s3\<lparr>si_mode := mode\<rparr>)" for r by (simp add: goes_def change_def)
  have a: "goes (if (4 :: u32) \<ge> 4 then
         and_then (ReadValue IOError 8) (\<lambda>l :: u64.
         and_then (change (si_lsn_update (\<lambda>_. l))) (\<lambda>_.
         and_then (ReadValue IOError 8) (\<lambda>n :: u64. change (si_live_update (\<lambda>_. sint n)))))
       else got ()) (put_le 8 l @ put_le 8 (word_of_int live :: u64) @ r, s1) () (r, s3)" for r
    by (rule goes_if, rule goes_bind, rule reads, simp, rule goes_bind, rule c2, rule goes_bind, rule reads, simp, rule c3) simp
  have b: "goes (if (4 :: u32) \<ge> 4 \<and> (4 :: nat) > 0 then
       and_then (ReadValue Corruption 4) (\<lambda>m :: u32.
       and_then (change (si_mode_update (\<lambda>_. m))) (\<lambda>_. check Corruption (\<not> m > 1)))
     else got ()) (put_le 4 mode @ [], s3\<lparr>si_mode := 0\<rparr>) () ([], s3\<lparr>si_mode := mode\<rparr>)"
    by (rule goes_if, rule goes_bind, rule reads, simp, rule goes_bind, rule c5, rule reads) (use assms(3) in auto)
  have n: "length (put_le 4 mode @ []) = 4" by simp
  have e: "si\<lparr>si_lsn := l, si_live := live, si_mode := mode\<rparr> = s3\<lparr>si_mode := mode\<rparr>" by (simp add: s3_def s2_def s1_def)
  show ?thesis unfolding load_trailer_def e
    by (rule goes_bind [OF c1], rule goes_bind, subst (2) append_Nil2 [symmetric], rule a, rule goes_bind [OF c4],
        rule goes_bind, rule reads) (use b in simp)
qed


lemma load_header_goes:
  assumes "mh_version h = kMetadataVersion" "mh_encoding h = enc"
  shows "goes (load_header enc) (kMetadataMagic @ put_le 4 kMetadataVersion @ header_fields h @ put_le 4 (MetaHeaderCrc h) @ rest, si) h (rest, si)"
proof -
  have h: "\<lparr>mh_version = kMetadataVersion, mh_entry = mh_entry h, mh_max_layer = mh_max_layer h, mh_nodes = mh_nodes h,
      mh_deleted = mh_deleted h, mh_encoding = mh_encoding h\<rparr> = h" using assms by simp
  have m: "length kMetadataMagic = 8" by (simp add: kMetadataMagic_def)
  have v: "\<not> (kMetadataVersion < 1 \<or> kMetadataVersion > kMetadataVersion)" "3 \<le> kMetadataVersion"
    by (simp_all add: kMetadataVersion_def)
  show ?thesis unfolding load_header_def header_fields_def append_assoc
    by (rule goes_bind, rule goes_ReadBytes, simp add: m, rule goes_bind, rule reads, simp, rule goes_bind, rule reads, simp,
        rule goes_bind, rule reads, rule v, rule goes_bind, rule reads, simp, rule goes_bind, rule reads, simp,
        rule goes_bind, rule reads, simp, rule goes_bind, rule reads, simp, rule goes_if, rule goes_bind, rule reads, simp,
        rule goes_bind, rule reads, simp, unfold Let_def h, rule goes_bind, rule reads, simp, rule goes_bind, rule reads, rule assms, rule reads)
      (use v in simp)
qed

text \<open>The index after the load: \<open>s'\<close> is the vector store.\<close>

definition reloaded :: "(paged_store, 'g) env \<Rightarrow> (real \<Rightarrow> real) \<Rightarrow> 'g stored_index \<Rightarrow> paged_store \<Rightarrow> 'g stored_index \<Rightarrow> 'g stored_index" where
  "reloaded E lg si s' si0 =
     \<lparr>si_ix = (si_ix si0)\<lparr>ix_vs := s', ix_nodes := map (reload_node E) (ix_nodes (si_ix si)),
        ix_ids := reloaded_ids lg (ix_ids (si_ix si))
          ((ix_ids (si_ix si0))\<lparr>tombstoned_internal_ids := rev (tombstoned_internal_ids (ix_ids (si_ix si)))\<rparr>),
        ix_entry := ix_entry (si_ix si), ix_max_layer := ix_max_layer (si_ix si)\<rparr>,
      si_lsn = si_lsn si, si_live = si_live si, si_mode = si_mode si\<rparr>"

lemma impl_goes:
  assumes "index_fits E si" "distinct (map fst (updated_real_to_internal (ix_ids (si_ix si))))"
    "distinct (map snd (updated_real_to_internal (ix_ids (si_ix si))))"
    and "\<And>rest. goes (paged_deserialize io) (paged_serialize (ix_vs (si_ix si)) @ rest, ix_vs (si_ix si0)) () (rest, s')"
  shows "goes (DeserializeMetadataImpl E lg io enc) (SerializeMetadataImpl E enc si, si0) () ([], reloaded E lg si s' si0)"
proof -
  let ?ix = "si_ix si" and ?h = "header_of enc si"
  let ?ids = "ix_ids ?ix"
  let ?nodes = "ix_nodes ?ix" and ?ts = "tombstoned_internal_ids ?ids" and ?fwd = "updated_real_to_internal ?ids"
  have f: "length ?nodes < 2 ^ 64" "length ?ts < 2 ^ 64" "length ?fwd < 2 ^ 64" "distinct ?ts"
    "sint (word_of_int (ix_max_layer ?ix) :: u32) = ix_max_layer ?ix"
    using assms(1) by (simp_all add: index_fits_def sint_u32)
  have h: "mh_version ?h = kMetadataVersion" "mh_encoding ?h = enc" "unat (mh_nodes ?h) = length ?nodes" "unat (mh_deleted ?h) = length ?ts"
    "mh_entry ?h = ix_entry ?ix" "mh_max_layer ?h = word_of_int (ix_max_layer ?ix)"
    using f by (simp_all add: header_of_def)
  define s1 where "s1 = on_ix (ix_nodes_update (\<lambda>_. map (reload_node E) ?nodes)) si0"
  define s2 where "s2 = set_ids (tombstoned_internal_ids_update (\<lambda>_. rev ?ts)) s1"
  define s3 where "s3 = set_ids (reloaded_ids lg ?ids) s2"
  define s4 where "s4 = on_ix (ix_vs_update (\<lambda>_. s')) s3"
  define s5 where "s5 = s4\<lparr>si_lsn := si_lsn si, si_live := si_live si, si_mode := si_mode si\<rparr>"
  have R: "reloaded E lg si s' si0 = on_ix (\<lambda>ix. ix\<lparr>ix_entry := ix_entry ?ix, ix_max_layer := ix_max_layer ?ix\<rparr>) s5"
    by (cases "si_ix si0") (simp add: reloaded_def s5_def s4_def s3_def s2_def s1_def on_ix_def)
  have g1: "goes (times 0 (length ?nodes) (load_node E)) (concat (map (put_node E) ?nodes) @ r, on_ix (ix_nodes_update (\<lambda>_. [])) si0) () (r, s1)" for r
    unfolding s1_def by (rule load_nodes_goes) (use assms(1) in \<open>simp_all add: index_fits_def\<close>)
  have g2: "goes (times 0 (length ?ts) load_tombstone) (concat (map (put_le 8) ?ts) @ r, set_ids (tombstoned_internal_ids_update (\<lambda>_. [])) s1) () (r, s2)" for r
    unfolding s2_def by (rule load_tombstones_goes [OF f(4)])
  have g3: "goes (load_id_map lg 4) (put_size (length ?fwd) @ put_le 8 (next_update_internal_id ?ids) @ concat (map put_mapping ?fwd) @ r, s2) () (r, s3)" for r
    unfolding s3_def by (rule load_id_map_goes [OF f(3) assms(2,3)])
  have "ix_vs (si_ix s3) = ix_vs (si_ix si0)" by (simp add: s3_def s2_def s1_def on_ix_def)
  then have g4: "goes (on_part IOError (\<lambda>si. ix_vs (si_ix si)) (\<lambda>s. on_ix (ix_vs_update (\<lambda>_. s))) (paged_deserialize io))
      (paged_serialize (ix_vs ?ix) @ r, s3) () (r, s4)" for r
    using goes_on_part [of "paged_deserialize io" "paged_serialize (ix_vs ?ix) @ r" "\<lambda>si. ix_vs (si_ix si)" s3 "()" r s'
      IOError "\<lambda>s. on_ix (ix_vs_update (\<lambda>_. s))"] assms(4) by (simp add: s4_def)
  have g5: "goes (load_trailer 4) (put_le 8 (si_lsn si) @ put_le 8 (word_of_int (si_live si) :: u64) @ put_le 4 (si_mode si), s4) () ([], s5)"
    unfolding s5_def by (rule load_trailer_goes) (use assms(1) in \<open>simp_all add: index_fits_def\<close>)
  have c1: "goes (change_ix (ix_nodes_update (\<lambda>_. []))) (r, si0) () (r, on_ix (ix_nodes_update (\<lambda>_. [])) si0)" for r
    by (simp add: change_ix_def goes_def change_def)
  have c2: "goes (change_ix (ix_ids_update (tombstoned_internal_ids_update (\<lambda>_. [])))) (r, s1) () (r, set_ids (tombstoned_internal_ids_update (\<lambda>_. [])) s1)" for r
    by (simp add: change_ix_def goes_def change_def)
  have b1: "length ?nodes \<le> length (concat (map (put_node E) ?nodes) @ r) div 24" for r
    by (rule enough_bytes) (auto simp: put_node_def)
  have b2: "length ?ts \<le> length (concat (map (put_le 8) ?ts) @ r) div 8" for r
    by (rule enough_bytes) simp_all
  have v: "kMetadataVersion = 4" by (simp add: kMetadataVersion_def)
  show ?thesis
    unfolding DeserializeMetadataImpl_def SerializeMetadataImpl_def Let_def append_assoc R
    by (rule goes_bind, rule load_header_goes [OF h(1,2)], rule goes_bind, rule reads, rule goes_bind, rule goes_check, unfold not_less h(3), rule b1,
        rule goes_bind [OF c1], unfold h(1) h(4) h(5) h(6) f(5) v, rule goes_bind [OF g1], rule goes_bind, rule reads, rule goes_bind, rule goes_check, rule b2,
        rule goes_bind [OF c2], rule goes_bind [OF g2], rule goes_bind [OF g3], rule goes_bind, rule reads, simp,
        rule goes_bind, rule reads, rule refl, rule goes_bind [OF g4], rule goes_bind [OF g5]) (simp add: change_ix_def goes_def change_def)
qed

lemma deserialize_ok:
  assumes "goes (DeserializeMetadataImpl E lg io enc) (SerializeMetadataImpl E enc si, si0) () y"
  shows "DeserializeMetadata E lg io enc (snd (SerializeMetadata E enc None si)) si0 = Some (OK, snd y)"
proof -
  let ?b = "SerializeMetadataImpl E enc si"
  have p: "take 8 ?b = kMetadataMagic" "drop 8 ?b = put_le 4 kMetadataVersion @ drop 12 ?b" "12 \<le> length ?b"
    by (simp_all add: SerializeMetadataImpl_def Let_def kMetadataMagic_def)
  have v: "get_le (take 4 (drop 8 (?b @ put_le 4 (crc_value ?b)))) = kMetadataVersion"
    using p(3) by (simp add: p(2))
  have "take (length (?b @ put_le 4 (crc_value ?b)) - 4) (?b @ put_le 4 (crc_value ?b)) = ?b"
    "drop (length (?b @ put_le 4 (crc_value ?b)) - 4) (?b @ put_le 4 (crc_value ?b)) = put_le 4 (crc_value ?b)" by simp_all
  then show ?thesis using assms v p(3)
    by (cases y) (simp add: DeserializeMetadata_def SerializeMetadata_def Let_def goes_def kMetadataVersion_def)
qed

end
