(* ===== verification/Index_Reopen.thy ===== *)
theory Index_Reopen
  imports Index_Meta
begin

text \<open>
  Loading a checkpoint gives the index back: what \<open>SerializeMetadata\<close> wrote, \<open>DeserializeMetadata\<close>
  reads into a freshly opened index over the same files. The reverse map and the Bloom filter are
  worked out again, the points of the upper layers are quantised again.
\<close>

text \<open>What a client of the index can see of it.\<close>

definition same_index ::
  "(paged_store, 'g) env \<Rightarrow> ('g \<Rightarrow> node_id \<rightharpoonup> node_id list) \<Rightarrow> (paged_store, 'g) index \<Rightarrow> (paged_store, 'g) index \<Rightarrow> bool" where
  "same_index E vertex ix ix' \<longleftrightarrow> contents E ix' = contents E ix
     \<and> (\<forall>n. paged_exists n (ix_vs ix') = paged_exists n (ix_vs ix))
     \<and> ix_entry ix' = ix_entry ix \<and> ix_max_layer ix' = ix_max_layer ix \<and> links_at E vertex ix' = links_at E vertex ix
     \<and> resolve_internal (ix_ids ix') = resolve_internal (ix_ids ix) \<and> resolve_real (ix_ids ix') = resolve_real (ix_ids ix)
     \<and> is_tombstoned (ix_ids ix') = is_tombstoned (ix_ids ix)
     \<and> next_update_internal_id (ix_ids ix') = next_update_internal_id (ix_ids ix)"

definition fresh_cache :: "bool \<Rightarrow> edge_cache option \<Rightarrow> bool" where
  "fresh_cache varint co \<longleftrightarrow> (case co of None \<Rightarrow> True | Some c \<Rightarrow> edge_cache_ok varint c \<and> ec_view varint c = Map.empty)"

lemma swapped_map: "map_of (swapped xs) n = Some r \<Longrightarrow> (r, n) \<in> set xs"
  by (drule map_of_SomeD) (auto simp: swapped_def)

lemma swapped_distinct: "distinct (map snd xs) \<Longrightarrow> distinct (map fst (swapped xs))"
  by (simp add: swapped_def comp_def case_prod_beta)

lemma swapped_inverse:
  assumes "distinct (map fst xs)" "distinct (map snd xs)"
  shows "inverse_maps (map_of xs) (map_of (swapped xs))"
proof -
  have "map_of (swapped xs) b = Some a \<longleftrightarrow> (b, a) \<in> set (swapped xs)" for a b
    by (rule map_of_eq_Some_iff [OF swapped_distinct [OF assms(2)]])
  moreover have "(b, a) \<in> set (swapped xs) \<longleftrightarrow> (a, b) \<in> set xs" for a b by (force simp: swapped_def)
  moreover have "map_of xs a = Some b \<longleftrightarrow> (a, b) \<in> set xs" for a b by (rule map_of_eq_Some_iff [OF assms(1)])
  ultimately show ?thesis unfolding inverse_maps_def by blast
qed

lemma inverse_maps_unique:
  assumes "inverse_maps f g" "inverse_maps f g'"
  shows "g = g'"
proof (rule ext)
  fix b
  have e: "g b = Some a \<Longrightarrow> g' b = Some a" "g' b = Some a \<Longrightarrow> g b = Some a" for a
    using inverse_mapsD [OF assms(1), of a b] inverse_mapsD [OF assms(2), of a b] by blast+
  show "g b = g' b"
  proof (cases "g b")
    case None
    then have "g' b \<noteq> Some a" for a using e(2) [of a] by auto
    then have "g' b = None" by blast
    then show ?thesis using None by simp
  next
    case (Some a)
    then show ?thesis using e(1) [OF Some] by simp
  qed
qed

lemma inverse_values:
  assumes "distinct (map fst xs)" "inverse_maps (map_of xs) g"
  shows "distinct (map snd xs)"
proof -
  have "a = a'" if "(a, b) \<in> set xs" "(a', b) \<in> set xs" for a a' b
    using that assms by (metis inverse_mapsD map_of_eq_Some_iff option.inject)
  then show ?thesis using assms(1) by (auto simp: distinct_map inj_on_def)
qed

lemma reloaded_ids_ok:
  fixes lg :: "real \<Rightarrow> real"
  assumes "id_map_ok m" and m0: "tombstoned_internal_ids m0 = rev (tombstoned_internal_ids m)"
  defines "m' \<equiv> reloaded_ids lg m m0"
  shows "id_map_ok m'" "resolve_internal m' = resolve_internal m" "resolve_real m' = resolve_real m"
    "is_tombstoned m' = is_tombstoned m" "next_update_internal_id m' = next_update_internal_id m"
proof -
  note I = assms(1) [unfolded id_map_ok_def]
  let ?fwd = "updated_real_to_internal m"
  have f: "updated_real_to_internal m' = ?fwd" "updated_internal_to_real m' = swapped ?fwd" "next_update_internal_id m' = next_update_internal_id m"
    "tombstoned_internal_ids m' = rev (tombstoned_internal_ids m)"
    "update_bloom m' = bloom_add_all (map fst ?fwd) (bloom_reset_default lg (max (length ?fwd) 512) (update_bloom m0))"
    by (simp_all add: m'_def reloaded_ids_def Let_def m0)
  have snd: "distinct (map snd ?fwd)" by (rule inverse_values) (use I in blast)+
  have inv: "inverse_maps (map_of ?fwd) (map_of (swapped ?fwd))" by (rule swapped_inverse) (use I snd in blast)+
  then have rev: "map_of (swapped ?fwd) = map_of (updated_internal_to_real m)" using I inverse_maps_unique by blast
  have "bloom_covers m'"
    using bloom_reset_default [of "max (length ?fwd) 512" lg "update_bloom m0"]
    by (auto simp: bloom_covers_def f intro!: bloom_add_all_contains rev_image_eqI)
  then show ok: "id_map_ok m'" using I inv rev swapped_distinct [OF snd] by (simp add: id_map_ok_def f)
  show "resolve_internal m' = resolve_internal m"
    using I \<open>bloom_covers m'\<close> by (simp add: fun_eq_iff resolve_internal_spec f)
  show "resolve_real m' = resolve_real m" by (simp add: fun_eq_iff resolve_real_def f rev)
  show "is_tombstoned m' = is_tombstoned m" by (simp add: fun_eq_iff is_tombstoned_def f)
  show "next_update_internal_id m' = next_update_internal_id m" by (simp add: f)
qed

lemma reload_node_view:
  assumes "length (nodePointView E (snd x)) = ev_dim E" "0 < ev_dim E"
  shows "length (nodePointView E (snd (reload_node E x))) = ev_dim E" "nd_layers (snd (reload_node E x)) = nd_layers (snd x)"
proof -
  let ?v = "nodePointView E (snd x)"
  obtain b lo hi where q: "node_quantize (ev_fl E) ?v = (b, lo, hi)" by (metis prod_cases3)
  have "?v \<noteq> []" using assms by auto
  then show "length (nodePointView E (snd (reload_node E x))) = ev_dim E" "nd_layers (snd (reload_node E x)) = nd_layers (snd x)"
    using node_quantize_dim [OF q] q assms by (auto simp: reload_node_def quantizeNodePoint_def nodePointView_def)
qed

lemma map_of_reloaded: "map_of (map (reload_node E) xs) n = map_option (\<lambda>nd. snd (reload_node E (n, nd))) (map_of xs n)"
  by (induction xs) (auto simp: reload_node_def)

lemma reloaded_ok:
  fixes E :: "(paged_store, 'g) env" and lg :: "real \<Rightarrow> real"
  assumes "engine_ok E io vertex sound (si_ix si)" "id_map_ok (ix_ids (si_ix si))"
    and "paged_ok (ev_dim E) io s'" "paged_view (ev_fl E) s' = paged_view (ev_fl E) (ix_vs (si_ix si))"
    "\<And>n. paged_exists n s' = paged_exists n (ix_vs (si_ix si))"
    and "ix_gs (si_ix si0) = ix_gs (si_ix si)" "fresh_cache (ev_varint E) (ix_cache (si_ix si0))"
    "scratch_ok (ev_dense E) (ix_scratch (si_ix si0))"
  defines "si' \<equiv> reloaded E lg si s' si0"
  shows "engine_ok E io vertex sound (si_ix si')" "id_map_ok (ix_ids (si_ix si'))" "same_index E vertex (si_ix si) (si_ix si')"
    "si_lsn si' = si_lsn si" "si_live si' = si_live si" "si_mode si' = si_mode si"
proof -
  let ?ix = "si_ix si" and ?ix' = "si_ix si'" and ?view = "paged_view (ev_fl E)"
  have f: "ix_vs ?ix' = s'" "ix_gs ?ix' = ix_gs ?ix" "ix_cache ?ix' = ix_cache (si_ix si0)" "ix_scratch ?ix' = ix_scratch (si_ix si0)"
    "ix_nodes ?ix' = map (reload_node E) (ix_nodes ?ix)" "ix_entry ?ix' = ix_entry ?ix" "ix_max_layer ?ix' = ix_max_layer ?ix"
    "ix_ids ?ix' = reloaded_ids lg (ix_ids ?ix)
          ((ix_ids (si_ix si0))\<lparr>tombstoned_internal_ids := rev (tombstoned_internal_ids (ix_ids ?ix))\<rparr>)"
    using assms(6) by (simp_all add: si'_def reloaded_def)
  note I = assms(1) [unfolded engine_ok_def index_ok_def]
  have d: "0 < ev_dim E" using I by blast
  have N: "nodes_ok E (?view (ix_vs ?ix)) (ix_nodes ?ix)" using I by blast
  have pt: "length (nodePointView E (snd (reload_node E (n, nd)))) = ev_dim E" "nd_layers (snd (reload_node E (n, nd))) = nd_layers nd"
    if "map_of (ix_nodes ?ix) n = Some nd" for n nd
    using reload_node_view [of E "(n, nd)"] N d that by (simp_all add: nodes_ok_def)
  have N': "nodes_ok E (?view s') (ix_nodes ?ix')"
    unfolding nodes_ok_def
  proof (intro allI impI)
    fix n nd' assume "map_of (ix_nodes ?ix') n = Some nd'"
    then obtain nd where nd: "map_of (ix_nodes ?ix) n = Some nd" "nd' = snd (reload_node E (n, nd))"
      by (auto simp: f map_of_reloaded)
    show "length (nodePointView E nd') = ev_dim E \<and> (\<forall>l ms. map_of (nd_layers nd') l = Some ms \<longrightarrow> (\<forall>m \<in> set ms. ?view s' m \<noteq> None))"
      unfolding nd(2) pt [OF nd(1)] assms(4) using N nd(1) unfolding nodes_ok_def by blast
  qed
  have "cache_ok (ev_varint E) (neighbours vertex (ix_gs ?ix')) (?view s') (ix_cache ?ix')"
    using assms(7) by (simp add: cache_ok_def fresh_cache_def f split: option.splits)
  then show "engine_ok E io vertex sound ?ix'"
    using I assms(3,8) N' by (simp add: engine_ok_def index_ok_def f assms(4))
  note ids = reloaded_ids_ok [OF assms(2), of "(ix_ids (si_ix si0))\<lparr>tombstoned_internal_ids := rev (tombstoned_internal_ids (ix_ids ?ix))\<rparr>" lg]
  show "id_map_ok (ix_ids ?ix')" unfolding f by (rule ids) simp
  have "layer_links ?view (neighbours vertex) ?ix' l n = layer_links ?view (neighbours vertex) ?ix l n" for l n
    by (cases "map_of (ix_nodes ?ix) n") (simp_all add: layer_links_def f(1,2,5) assms(4) map_of_reloaded pt)
  then have "links_at E vertex ?ix' = links_at E vertex ?ix" by (simp add: links_at_def fun_eq_iff)
  then show "same_index E vertex ?ix ?ix'"
    using ids by (simp add: same_index_def contents_def f assms(4,5))
  show "si_lsn si' = si_lsn si" "si_live si' = si_live si" "si_mode si' = si_mode si" by (simp_all add: si'_def reloaded_def)
qed

lemma index_loads:
  fixes E :: "(paged_store, 'g) env"
  assumes "engine_ok E io vertex sound (si_ix si)" "id_map_ok (ix_ids (si_ix si))" "index_fits E si"
    and "fits (ix_vs (si_ix si))" "at_rest (ix_vs (si_ix si))"
    and "paged_open (ev_dim E) capacity cached buf_cap (ps_file (ix_vs (si_ix si))) (ps_del (ix_vs (si_ix si))) = Some (ix_vs (si_ix si0))"
    and "0 < capacity" "capacity \<le> ps_total (ix_vs (si_ix si))"
    and "double_to capacity (ps_total (ix_vs (si_ix si))) = ps_total (ix_vs (si_ix si))"
    and "ix_gs (si_ix si0) = ix_gs (si_ix si)" "fresh_cache (ev_varint E) (ix_cache (si_ix si0))"
    and "scratch_ok (ev_dense E) (ix_scratch (si_ix si0))"
  shows "\<exists>si'. DeserializeMetadata E lg io enc (snd (SerializeMetadata E enc None si)) si0 = Some (OK, si')
    \<and> engine_ok E io vertex sound (si_ix si') \<and> id_map_ok (ix_ids (si_ix si')) \<and> same_index E vertex (si_ix si) (si_ix si')
    \<and> si_lsn si' = si_lsn si \<and> si_live si' = si_live si \<and> si_mode si' = si_mode si"
proof -
  have "paged_ok (ev_dim E) io (ix_vs (si_ix si))" using assms(1) by (simp add: engine_ok_def index_ok_def)
  then obtain s' where s': "\<And>rest. goes (paged_deserialize io) (paged_serialize (ix_vs (si_ix si)) @ rest, ix_vs (si_ix si0)) () (rest, s')"
    "paged_ok (ev_dim E) io s'" "paged_view (ev_fl E) s' = paged_view (ev_fl E) (ix_vs (si_ix si))"
    "\<And>n. paged_exists n s' = paged_exists n (ix_vs (si_ix si))"
    by (rule paged_reopens [OF _ assms(4-9), where F = "ev_fl E"]) (rule that)
  have d: "distinct (map fst (updated_real_to_internal (ix_ids (si_ix si))))" using assms(2) by (simp add: id_map_ok_def)
  have e: "distinct (map snd (updated_real_to_internal (ix_ids (si_ix si))))"
    by (rule inverse_values [OF d]) (use assms(2) in \<open>unfold id_map_ok_def, blast\<close>)
  have "DeserializeMetadata E lg io enc (snd (SerializeMetadata E enc None si)) si0 = Some (OK, reloaded E lg si s' si0)"
    using deserialize_ok [OF impl_goes [OF assms(3) d e s'(1)]] by simp
  then show ?thesis using reloaded_ok [OF assms(1,2) s'(2-4) assms(10-12), of lg] by blast
qed

text \<open>C8: An index that is written to a checkpoint and loaded into a freshly opened one, over the same
  vector files and the same graph, is in order and shows the same vectors, edges, deletions, id
  mappings, entry point and checkpoint fields.\<close>

theorem index_reopen:
  fixes E :: "(paged_store, 'g) env"
  assumes "engine_ok E io vertex sound (si_ix si)" "id_map_ok (ix_ids (si_ix si))" "index_fits E si"
    and "fits (ix_vs (si_ix si))" "at_rest (ix_vs (si_ix si))"
    and "paged_open (ev_dim E) capacity cached buf_cap (ps_file (ix_vs (si_ix si))) (ps_del (ix_vs (si_ix si))) = Some (ix_vs (si_ix si0))"
    and "0 < capacity" "capacity \<le> ps_total (ix_vs (si_ix si))"
    and "double_to capacity (ps_total (ix_vs (si_ix si))) = ps_total (ix_vs (si_ix si))"
    and "ix_gs (si_ix si0) = ix_gs (si_ix si)" "fresh_cache (ev_varint E) (ix_cache (si_ix si0))"
    and "scratch_ok (ev_dense E) (ix_scratch (si_ix si0))"
  shows "\<exists>si'. DeserializeMetadata E lg io enc (snd (SerializeMetadata E enc None si)) si0 = Some (OK, si')
    \<and> engine_ok E io vertex sound (si_ix si') \<and> id_map_ok (ix_ids (si_ix si')) \<and> same_index E vertex (si_ix si) (si_ix si')
    \<and> si_lsn si' = si_lsn si \<and> si_live si' = si_live si \<and> si_mode si' = si_mode si"
  by (rule index_loads [OF assms])

text \<open>The index of the examples, its page written out, as it is checkpointed and opened again.\<close>

definition tiny_stored :: "paged_store \<Rightarrow> mem_graph stored_index" where
  "tiny_stored s = \<lparr>si_ix = tiny_index\<lparr>ix_vs := s, ix_ids := id_map_init ln\<rparr>, si_lsn = 3, si_live = 1, si_mode = 0\<rparr>"

lemma tiny_stored_ok:
  "engine_ok tiny_env (\<lambda>_. None) mem_vertex (\<lambda>_. True) (si_ix (tiny_stored rested_paged))"
  "id_map_ok (ix_ids (si_ix (tiny_stored rested_paged)))" "index_fits tiny_env (tiny_stored rested_paged)"
proof -
  have "paged_ok 1 (\<lambda>_. None) rested_paged" by (rule rested_paged_ok(1))
  then show "engine_ok tiny_env (\<lambda>_. None) mem_vertex (\<lambda>_. True) (si_ix (tiny_stored rested_paged))"
    by (simp add: engine_ok_def index_ok_def tiny_env_def tiny_index_def tiny_stored_def cache_ok_def scratch_ok_init nodes_ok_def
      paged_view_def rested_page_of)
  show "id_map_ok (ix_ids (si_ix (tiny_stored rested_paged)))" using id_map_init_ok by (simp add: tiny_stored_def)
  show "index_fits tiny_env (tiny_stored rested_paged)"
    by (simp add: index_fits_def tiny_stored_def tiny_index_def id_map_init_def)
qed

theorem index_reopen_witness:
  "\<exists>st si'. paged_open 1 2 0 0 (ps_file rested_paged) (ps_del rested_paged) = Some st
    \<and> DeserializeMetadata tiny_env ln (\<lambda>_. None) 0 (snd (SerializeMetadata tiny_env 0 None (tiny_stored rested_paged))) (tiny_stored st) = Some (OK, si')
    \<and> same_index tiny_env mem_vertex (si_ix (tiny_stored rested_paged)) (si_ix si')"
proof -
  have t: "ps_total rested_paged = 4"
    by (simp add: rested_paged_def buffered_paged_def new_paged_def paged_open_def Let_def kPageSize_def)
  have d: "double_to 2 4 = 4" by (simp add: double_to.simps)
  obtain st where st: "paged_open 1 2 0 0 (ps_file rested_paged) (ps_del rested_paged) = Some st"
    by (simp add: paged_open_def kPageSize_def Let_def)
  have v: "ix_vs (si_ix (tiny_stored s)) = s" "ix_gs (si_ix (tiny_stored s)) = []" "ix_cache (si_ix (tiny_stored s)) = None"
    "ix_scratch (si_ix (tiny_stored s)) = search_scratch_init" for s
    by (simp_all add: tiny_stored_def tiny_index_def)
  show ?thesis
    using index_reopen [OF tiny_stored_ok, of 2 0 0 "tiny_stored st" ln 0] st t d rested_paged_ok(2,3)
    by (simp add: v fresh_cache_def scratch_ok_init) blast
qed

end
