(* ===== verification/Database.thy ===== *)
theory Database
  imports Hnsw_Engine Index_Meta Op_Log Metadata_Store Point_Id
begin

text \<open>
  The engine \<open>class AsterVecDB\<close> of \<open>src/astervec_db.cc\<close>: state, write scopes, the operation log and the
  operations on dense ids. It owns the index, the payload store and the log; each call runs to its
  end before the next. The point-id calls are in \<open>Db_Api\<close>, checkpoints and recovery in
  \<open>Db_Recovery\<close>. How the disk treats a call is in the environment: the \<open>n\<close>-th call of the log sees
  \<open>de_log_io n\<close>, the \<open>n\<close>-th checkpoint \<open>de_disk n\<close>. An exception out of a call leaves the state it found.
\<close>

subsection \<open>State and environment\<close>

text \<open>The metadata files of the store's directory. While the log is open its directory is in the log.\<close>

record files =
  f_meta :: "bytes option"
  f_prev :: "bytes option"
  f_tmp :: "bytes option"
  f_count :: "int option"
  f_oplog :: "log_dir option"

record ('g, 'db) db =
  db_index :: "'g stored_index"
  db_meta :: "'db meta_store option"
  db_oplog :: "oplog option"
  db_live :: int
  db_next_dense :: u64
  db_writes :: nat
  db_ops :: nat
  db_due :: bool
  db_keyed :: bool
  db_closed :: bool
  db_main_lsn :: u64
  db_files :: files
  db_log_calls :: nat
  db_checkpoints :: nat

text \<open>What the steps of one checkpoint meet: the temporary file opens and takes so many bytes, it is
  synced, the link and the rename work, the directory is synced, the payload log is synced.\<close>

record disk =
  dk_open :: bool
  dk_limit :: "nat option"
  dk_sync :: bool
  dk_link :: bool
  dk_rename :: bool
  dk_sync_dir :: bool
  dk_sync_payloads :: status
  dk_count :: bool

record ('g, 'db) db_env =
  de_ix :: "(paged_store, 'g) env"
  de_medium :: medium
  de_kv :: "'db kv_api"
  de_parse :: "bytes \<Rightarrow> json option"
  de_dump :: "json \<Rightarrow> bytes"
  de_lg :: "real \<Rightarrow> real"
  de_level :: "nat \<Rightarrow> int"
  de_log_io :: "nat \<Rightarrow> log_io"
  de_log_read :: "u64 \<Rightarrow> bool"
  de_disk :: "nat \<Rightarrow> disk"
  de_encoding :: u32
  de_metric :: bool
  de_interval :: nat
  de_oplog :: bool
  de_segment_bytes :: nat

type_synonym ('g, 'db, 'a) dba = "(('g, 'db) db, 'a) action"

abbreviation db_ix :: "('g, 'db) db \<Rightarrow> (paged_store, 'g) index" where
  "db_ix d \<equiv> si_ix (db_index d)"

abbreviation db_ids :: "('g, 'db) db \<Rightarrow> id_map" where
  "db_ids d \<equiv> ix_ids (db_ix d)"

text \<open>Calls of the parts.\<close>

definition on_index :: "((paged_store, 'g) index, 'a) action \<Rightarrow> ('g, 'db, 'a) dba" where
  "on_index m d =
     (case m (db_ix d) of
        None \<Rightarrow> None
      | Some (r, ix) \<Rightarrow> Some (r, d\<lparr>db_index := (db_index d)\<lparr>si_ix := ix\<rparr>\<rparr>))"

definition on_ids :: "(id_map \<Rightarrow> id_map) \<Rightarrow> ('g, 'db, unit) dba" where
  "on_ids f = on_index (modify (ix_ids_update f))"

definition on_meta :: "('db meta_store \<Rightarrow> 'a \<times> 'db meta_store) \<Rightarrow> ('g, 'db, 'a) dba" where
  "on_meta f d =
     (case db_meta d of
        None \<Rightarrow> throw d
      | Some s \<Rightarrow> (case f s of (a, s') \<Rightarrow> Some (Inr a, d\<lparr>db_meta := Some s'\<rparr>)))"

definition on_log :: "('g, 'db) db_env \<Rightarrow> (log_io \<Rightarrow> oplog \<Rightarrow> 'a \<times> oplog) \<Rightarrow> ('g, 'db, 'a) dba" where
  "on_log E f d =
     (case db_oplog d of
        None \<Rightarrow> throw d
      | Some lg \<Rightarrow> (case f (de_log_io E (db_log_calls d)) lg of
          (a, lg') \<Rightarrow> Some (Inr a, d\<lparr>db_oplog := Some lg', db_log_calls := db_log_calls d + 1\<rparr>)))"

text \<open>\<open>if (auto s = m; !s.ok()) return s;\<close> and its form with a value.\<close>

definition ok_then :: "('t, status) action \<Rightarrow> ('t, status) action \<Rightarrow> ('t, status) action" where
  "ok_then m k = bnd m (\<lambda>st. if st \<noteq> OK then ret st else k)"

definition got_then :: "('t, status + 'a) action \<Rightarrow> ('a \<Rightarrow> ('t, status) action) \<Rightarrow> ('t, status) action" where
  "got_then m k = bnd m (\<lambda>r. case r of Inl st \<Rightarrow> ret st | Inr a \<Rightarrow> k a)"

definition need :: "bool \<Rightarrow> status \<Rightarrow> ('t, status) action" where
  "need b st = ret (if b then OK else st)"

definition alive_in :: "('g, 'db) db_env \<Rightarrow> real_id \<Rightarrow> ('g, 'db) db \<Rightarrow> bool" where
  "alive_in E r d = is_alive (\<lambda>i. vs_exists (ev_vs (de_ix E)) i (ix_vs (db_ix d))) (db_ids d) r"

text \<open>A nested \<open>WriteScope\<close>: it only counts the write.\<close>

definition in_scope :: "('g, 'db, 'a) dba \<Rightarrow> ('g, 'db, 'a) dba" where
  "in_scope m = bnd (modify (db_writes_update Suc)) (\<lambda>_. m)"

subsection \<open>Validation\<close>

definition kMaxMetadataJsonBytes :: nat where
  "kMaxMetadataJsonBytes = 64 * 1024"

definition ParseMetadataObject :: "('g, 'db) db_env \<Rightarrow> bytes \<Rightarrow> status + json" where
  "ParseMetadataObject E js =
     (if length js > kMaxMetadataJsonBytes then Inl InvalidArgument
      else case de_parse E js of
        None \<Rightarrow> Inl InvalidArgument
      | Some j \<Rightarrow> if is_object j then Inr j else Inl InvalidArgument)"

definition parse_status :: "status + 'a \<Rightarrow> status" where
  "parse_status r = (case r of Inl st \<Rightarrow> st | Inr _ \<Rightarrow> OK)"

definition EnsureMetricSupported :: "('g, 'db) db_env \<Rightarrow> status" where
  "EnsureMetricSupported E = (if de_metric E then OK else NotSupported)"

definition ValidateVector :: "('g, 'db) db_env \<Rightarrow> vec \<Rightarrow> status" where
  "ValidateVector E v = (if length v \<noteq> ev_dim (de_ix E) then InvalidArgument else OK)"

definition validateInsertArgs :: "('g, 'db) db_env \<Rightarrow> vec \<Rightarrow> bytes \<Rightarrow> status" where
  "validateInsertArgs E v js =
     (if EnsureMetricSupported E \<noteq> OK then EnsureMetricSupported E
      else if ValidateVector E v \<noteq> OK then ValidateVector E v
      else if js \<noteq> [] then parse_status (ParseMetadataObject E js)
      else OK)"

subsection \<open>The operation log\<close>

definition kEncodingSQ8 :: byte where
  "kEncodingSQ8 = 1"

text \<open>\<open>logOp\<close>: the lsn (0 without a log) and the record in the store's encoding.\<close>

definition make_record ::
  "('g, 'db) db_env \<Rightarrow> op_type \<Rightarrow> node_id \<Rightarrow> node_id \<Rightarrow> node_id \<Rightarrow> vec \<Rightarrow> bytes \<Rightarrow> bytes \<Rightarrow> op_record" where
  "make_record E ty r i old v js key =
     \<lparr>lsn = 0, op = ty, encoding = (if v = [] then 0 else kEncodingSQ8), real_id = r, internal_id = i, aux = old,
      recbytes = (if v = [] then [] else vs_encode (ev_vs (de_ix E)) v), reckey = key, payload = js\<rparr>"

definition count_op :: "('g, 'db) db_env \<Rightarrow> ('g, 'db) db \<Rightarrow> ('g, 'db) db" where
  "count_op E d =
     (if de_interval E > 0
      then d\<lparr>db_ops := db_ops d + 1, db_due := db_due d \<or> db_ops d + 1 \<ge> de_interval E\<rparr> else d)"

definition logOp ::
  "('g, 'db) db_env \<Rightarrow> op_type \<Rightarrow> node_id \<Rightarrow> node_id \<Rightarrow> node_id \<Rightarrow> vec \<Rightarrow> bytes \<Rightarrow> bytes
     \<Rightarrow> ('g, 'db, status + u64 \<times> bytes option) dba" where
  "logOp E ty r i old v js key =
     bnd (modify (count_op E)) (\<lambda>_.
     bnd (get (\<lambda>d. db_oplog d = None)) (\<lambda>none.
     if none then ret (Inr (0, None))
     else bnd (on_log E (\<lambda>io. log_append io (make_record E ty r i old v js key))) (\<lambda>res.
       ret (case res of
              Inl st \<Rightarrow> Inl st
            | Inr l \<Rightarrow> Inr (l, if v = [] then None else Some (vs_encode (ev_vs (de_ix E)) v))))))"

definition logAbort :: "('g, 'db) db_env \<Rightarrow> u64 \<Rightarrow> ('g, 'db, unit) dba" where
  "logAbort E l =
     bnd (get (\<lambda>d. db_oplog d = None)) (\<lambda>none.
     if none \<or> l = 0 then ret ()
     else bnd (on_log E (\<lambda>io. log_append io (make_record E kOpAbort 0 0 l [] [] []))) (\<lambda>_. ret ()))"

subsection \<open>Insert and update\<close>

text \<open>\<open>insertNode\<close> in its \<open>try\<close> block: an exception is an I/O error, a failure is logged as aborted.\<close>

definition try_insert ::
  "('g, 'db) db_env \<Rightarrow> node_id \<Rightarrow> vec \<Rightarrow> bytes option \<Rightarrow> ('g, 'db, status) dba" where
  "try_insert E n v encoded =
     catching (on_index (\<lambda>ix. insertNode (de_ix E) (de_level E (ix_inserts ix)) n v encoded ix)) (ret IOError)"

definition store_node ::
  "('g, 'db) db_env \<Rightarrow> node_id \<Rightarrow> vec \<Rightarrow> bytes option \<Rightarrow> u64 \<Rightarrow> ('g, 'db, status) dba" where
  "store_node E n v encoded l =
     bnd (try_insert E n v encoded) (\<lambda>st.
     if st \<noteq> OK then bnd (logAbort E l) (\<lambda>_. ret st) else ret OK)"

definition finish_insert ::
  "('g, 'db) db_env \<Rightarrow> node_id \<Rightarrow> vec \<Rightarrow> bytes \<Rightarrow> bytes option \<Rightarrow> u64 \<Rightarrow> ('g, 'db, status) dba" where
  "finish_insert E target v js encoded l =
     ok_then (store_node E target v encoded l) (
     bnd (modify (db_live_update (\<lambda>n. n + 1))) (\<lambda>_.
     bnd (get (\<lambda>d. db_meta d = None)) (\<lambda>none.
     if js \<noteq> [] \<and> \<not> none then on_meta (ms_put (de_kv E) target js) else ret OK)))"

definition insertFresh ::
  "('g, 'db) db_env \<Rightarrow> node_id \<Rightarrow> vec \<Rightarrow> bytes \<Rightarrow> bytes \<Rightarrow> ('g, 'db, status) dba" where
  "insertFresh E r v js key =
     bnd (get (\<lambda>d. is_tombstoned (db_ids d) r)) (\<lambda>reinsert.
     bnd (if reinsert then on_index (upd (\<lambda>ix. case allocate_update_id (ix_ids ix) of (i, m) \<Rightarrow> (i, ix\<lparr>ix_ids := m\<rparr>)))
          else ret r) (\<lambda>target.
     got_then (logOp E kOpInsert r target 0 v js key) (\<lambda>(l, encoded).
     bnd (if reinsert then on_ids (record_update_mapping (de_lg E) r target) else ret ()) (\<lambda>_.
     finish_insert E target v js encoded l))))"

text \<open>The payload moves from the old to the new version.\<close>

definition move_payload ::
  "('g, 'db) db_env \<Rightarrow> node_id \<Rightarrow> node_id \<Rightarrow> bytes \<Rightarrow> ('g, 'db, status) dba" where
  "move_payload E old new js =
     ok_then
       (if js \<noteq> [] then on_meta (ms_put (de_kv E) new js)
        else bnd (on_meta (ms_get (de_kv E) old)) (\<lambda>g.
             case g of
               Inl _ \<Rightarrow> ret OK
             | Inr old_js \<Rightarrow> on_meta (ms_put (de_kv E) new old_js)))
       (bnd (on_meta (ms_delete (de_kv E) old)) (\<lambda>st.
        ret (if st \<noteq> OK \<and> st \<noteq> NotFound then st else OK)))"

definition finish_update ::
  "('g, 'db) db_env \<Rightarrow> node_id \<Rightarrow> node_id \<Rightarrow> node_id \<Rightarrow> vec \<Rightarrow> bytes \<Rightarrow> bytes option \<Rightarrow> u64 \<Rightarrow> ('g, 'db, status) dba" where
  "finish_update E r old new v js encoded l =
     ok_then (store_node E new v encoded l) (
     bnd (on_ids (record_update_mapping (de_lg E) r new)) (\<lambda>_.
     bnd (on_ids (tombstone old)) (\<lambda>_.
     bnd (get (\<lambda>d. db_meta d = None)) (\<lambda>none.
     if none then ret OK else move_payload E old new js))))"

definition updateAlive ::
  "('g, 'db) db_env \<Rightarrow> node_id \<Rightarrow> vec \<Rightarrow> bytes \<Rightarrow> bytes \<Rightarrow> ('g, 'db, status) dba" where
  "updateAlive E r v js key =
     bnd (get (\<lambda>d. resolve_internal (db_ids d) r)) (\<lambda>old.
     bnd (on_index (upd (\<lambda>ix. case allocate_update_id (ix_ids ix) of (i, m) \<Rightarrow> (i, ix\<lparr>ix_ids := m\<rparr>)))) (\<lambda>new.
     got_then (logOp E kOpUpdate r new old v js key) (\<lambda>(l, encoded).
     finish_update E r old new v js encoded l)))"

text \<open>\<open>insertDense\<close> (\<open>upd = False\<close>) and \<open>updateDense\<close> (\<open>upd = True\<close>) call each other.\<close>

partial_function (option) putDense ::
  "('g, 'db) db_env \<Rightarrow> bool \<Rightarrow> node_id \<Rightarrow> vec \<Rightarrow> bytes \<Rightarrow> bytes \<Rightarrow> ('g, 'db, status) dba" where
  "putDense E update r v js key d =
     bnd (modify (db_writes_update Suc)) (\<lambda>_ d.
       if update then
         if r > kMaxRealId then ret InvalidArgument d
         else if ValidateVector E v \<noteq> OK then ret (ValidateVector E v) d
         else if js \<noteq> [] \<and> parse_status (ParseMetadataObject E js) \<noteq> OK then ret (parse_status (ParseMetadataObject E js)) d
         else if \<not> alive_in E r d then putDense E False r v js key d
         else updateAlive E r v js key d
       else
         if validateInsertArgs E v js \<noteq> OK then ret (validateInsertArgs E v js) d
         else if alive_in E r d then putDense E True r v js key d
         else insertFresh E r v js key d) d"

definition insertDense where
  "insertDense E = putDense E False"

definition updateDense where
  "updateDense E = putDense E True"

subsection \<open>Delete and lookup\<close>

definition deleteDense :: "('g, 'db) db_env \<Rightarrow> node_id \<Rightarrow> ('g, 'db, status) dba" where
  "deleteDense E r = in_scope (
     bnd (get (alive_in E r)) (\<lambda>was_alive.
     bnd (get (\<lambda>d. resolve_internal (db_ids d) r)) (\<lambda>i.
     bnd (get (\<lambda>d. vs_exists (ev_vs (de_ix E)) i (ix_vs (db_ix d)))) (\<lambda>ex.
     if \<not> ex then ret OK
     else got_then (logOp E kOpDelete r i 0 [] [] []) (\<lambda>_.
       bnd (on_ids (tombstone i)) (\<lambda>_.
       bnd (get (\<lambda>d. db_meta d = None)) (\<lambda>none.
       ok_then (if none then ret OK
                else bnd (on_meta (ms_delete (de_kv E) i)) (\<lambda>st. ret (if st \<noteq> OK \<and> st \<noteq> NotFound then st else OK))) (
       bnd (on_ids (forget_update_mapping r)) (\<lambda>_.
       bnd (if was_alive then modify (db_live_update (\<lambda>n. n - 1)) else ret ()) (\<lambda>_. ret OK))))))))))"

definition getDense :: "('g, 'db) db_env \<Rightarrow> node_id \<Rightarrow> ('g, 'db, status + vec) dba" where
  "getDense E r =
     bnd (get (alive_in E r)) (\<lambda>alive.
     if \<not> alive then ret (Inl NotFound)
     else bnd (get (\<lambda>d. resolve_internal (db_ids d) r)) (\<lambda>i.
          catching (bnd (on_index (readVector (de_ix E) i)) (\<lambda>v. ret (Inr v))) (ret (Inl IOError))))"

subsection \<open>Payloads\<close>

definition no_document :: bytes where
  "no_document = [0x7B, 0x7D]"

definition getPayloadDense :: "('g, 'db) db_env \<Rightarrow> node_id \<Rightarrow> ('g, 'db, status + bytes) dba" where
  "getPayloadDense E r =
     bnd (get (\<lambda>d. db_meta d = None)) (\<lambda>none.
     if none then ret (Inl NotFound)
     else bnd (get (\<lambda>d. resolve_internal (db_ids d) r)) (\<lambda>i.
          bnd (on_meta (ms_get (de_kv E) i)) (\<lambda>g.
          ret (if g = Inl NotFound then Inr no_document else g))))"

text \<open>The payload store is there, the id is alive.\<close>

definition on_payload ::
  "('g, 'db) db_env \<Rightarrow> node_id \<Rightarrow> ('g, 'db, status) dba \<Rightarrow> ('g, 'db, status) dba" where
  "on_payload E r m =
     bnd (get (\<lambda>d. db_meta d = None)) (\<lambda>none.
     if none then ret NotFound
     else bnd (get (alive_in E r)) (\<lambda>alive. if \<not> alive then ret NotFound else m))"

definition setPayloadDense :: "('g, 'db) db_env \<Rightarrow> node_id \<Rightarrow> bytes \<Rightarrow> ('g, 'db, status) dba" where
  "setPayloadDense E r js = in_scope (on_payload E r (
     case ParseMetadataObject E js of
       Inl st \<Rightarrow> ret st
     | Inr _ \<Rightarrow> bnd (get (\<lambda>d. resolve_internal (db_ids d) r)) (\<lambda>i. on_meta (ms_put (de_kv E) i js))))"

definition updatePayloadDense :: "('g, 'db) db_env \<Rightarrow> node_id \<Rightarrow> bytes \<Rightarrow> ('g, 'db, status) dba" where
  "updatePayloadDense E r js = in_scope (on_payload E r (
     case ParseMetadataObject E js of
       Inl st \<Rightarrow> ret st
     | Inr changes \<Rightarrow> bnd (get (\<lambda>d. resolve_internal (db_ids d) r)) (\<lambda>i.
         on_meta (ms_update (de_kv E) (de_dump E) (de_parse E) i changes))))"

definition deletePayloadKeysDense :: "('g, 'db) db_env \<Rightarrow> node_id \<Rightarrow> string list \<Rightarrow> ('g, 'db, status) dba" where
  "deletePayloadKeysDense E r ks = in_scope (
     bnd (get (\<lambda>d. db_meta d = None)) (\<lambda>none.
     if none then ret NotFound
     else bnd (get (\<lambda>d. resolve_internal (db_ids d) r)) (\<lambda>i.
          on_meta (ms_delete_keys (de_kv E) (de_dump E) (de_parse E) i ks))))"

subsection \<open>Search\<close>

definition search_checks :: "('g, 'db) db_env \<Rightarrow> vec \<Rightarrow> int \<Rightarrow> status" where
  "search_checks E q k =
     (if k \<le> 0 then InvalidArgument
      else if EnsureMetricSupported E \<noteq> OK then EnsureMetricSupported E
      else ValidateVector E q)"

text \<open>Hits that are not deleted, under their real ids.\<close>

definition translate :: "id_map \<Rightarrow> (node_id \<times> rat) list \<Rightarrow> (node_id \<times> rat) list" where
  "translate m found = map (\<lambda>(i, x). (resolve_real m i, x)) (filter (\<lambda>(i, x). \<not> is_tombstoned m i) found)"

definition searchUnfilteredDense ::
  "('g, 'db) db_env \<Rightarrow> vec \<Rightarrow> int \<Rightarrow> int \<Rightarrow> ('g, 'db, status + (node_id \<times> rat) list) dba" where
  "searchUnfilteredDense E q k ef =
     (if search_checks E q k \<noteq> OK then ret (Inl (search_checks E q k))
      else bnd (on_index (knnSearchK (de_ix E) q k ef)) (\<lambda>found.
           get (\<lambda>d. if ix_corrupt (db_ix d) then Inl Corruption else Inr (take (nat k) (translate (db_ids d) found)))))"

text \<open>The documents a filter sees.\<close>

definition payloads :: "('g, 'db) db_env \<Rightarrow> 'db meta_store option \<Rightarrow> documents" where
  "payloads E mo = map_option (\<lambda>s n. fst (ms_get_doc (de_kv E) (de_parse E) n s)) mo"

definition searchDense ::
  "('g, 'db) db_env \<Rightarrow> vec \<Rightarrow> int \<Rightarrow> int \<Rightarrow> int \<Rightarrow> bytes \<Rightarrow> ('g, 'db, status + (node_id \<times> rat) list) dba" where
  "searchDense E q k ef max_scan filter_js =
     (if search_checks E q k \<noteq> OK then ret (Inl (search_checks E q k))
      else if trim filter_js = [] \<or> trim filter_js = no_document then searchUnfilteredDense E q k ef
      else case parse_predicate (de_parse E) filter_js of
        Inl st \<Rightarrow> ret (Inl st)
      | Inr p \<Rightarrow>
          bnd (get (\<lambda>d. payloads E (db_meta d))) (\<lambda>docs.
          bnd (on_index (knnSearchKFiltered (de_ix E) q k ef (Some p) max_scan docs)) (\<lambda>found.
          get (\<lambda>d. if ix_corrupt (db_ix d) then Inl Corruption else Inr (translate (db_ids d) found)))))"

definition VectorCount :: "('g, 'db) db \<Rightarrow> nat" where
  "VectorCount d = (if db_live d > 0 then nat (db_live d) else 0)"

end
