(* ===== verification/Db_Checkpoint.thy ===== *)
theory Db_Checkpoint
  imports Database
begin

text \<open>
  Checkpoints of the engine: \<open>writeMetadataFile\<close>, \<open>checkpointLocked\<close>, \<open>Checkpoint\<close>, \<open>Close\<close> and the
  automatic checkpoint of the outermost write scope. The metadata file is written aside, synced,
  and installed by one rename; the file it replaces stays as \<open>.prev\<close>.
\<close>

subsection \<open>The metadata file\<close>

definition on_files :: "(files \<Rightarrow> files) \<Rightarrow> ('g, 'db, unit) dba" where
  "on_files f = modify (db_files_update f)"

definition install_metadata :: "disk \<Rightarrow> bytes \<Rightarrow> files \<Rightarrow> status \<times> files" where
  "install_metadata dk bs f0 =
     (let f1 = f0\<lparr>f_tmp := Some bs\<rparr> in
      if \<not> dk_sync dk then (IOError, f1)
      else let f2 = (if f_meta f1 \<noteq> None then f1\<lparr>f_prev := None\<rparr> else f1) in
        if f_meta f1 \<noteq> None \<and> \<not> dk_link dk then (IOError, f2)
        else let f3 = (if f_meta f1 \<noteq> None then f2\<lparr>f_prev := f_meta f1\<rparr> else f2) in
          if \<not> dk_rename dk then (IOError, f3)
          else let f4 = f3\<lparr>f_meta := Some bs, f_tmp := None\<rparr> in
            (if dk_sync_dir dk then OK else IOError, f4))"

definition writeMetadataFile :: "('g, 'db) db_env \<Rightarrow> disk \<Rightarrow> ('g, 'db, status) dba" where
  "writeMetadataFile E dk =
     (if \<not> dk_open dk then ret IOError
      else bnd (get (\<lambda>d. SerializeMetadata (de_ix E) (de_encoding E) (dk_limit dk) (db_index d))) (\<lambda>(st, bs).
           if st \<noteq> OK then bnd (on_files (f_tmp_update (\<lambda>_. Some bs))) (\<lambda>_. ret st)
           else upd (\<lambda>d. case install_metadata dk bs (db_files d) of (st, f) \<Rightarrow> (st, d\<lparr>db_files := f\<rparr>))))"

text \<open>\<open>persistCount\<close>, \<open>loadCount\<close>: the live count in a file of its own; a failed write keeps the old one.\<close>

definition persistCount :: "disk \<Rightarrow> ('g, 'db) db \<Rightarrow> ('g, 'db) db" where
  "persistCount dk d =
     (if dk_count dk then d\<lparr>db_files := (db_files d)\<lparr>f_count := Some (db_live d)\<rparr>\<rparr> else d)"

definition loadCount :: "('g, 'db) db \<Rightarrow> ('g, 'db) db" where
  "loadCount d =
     d\<lparr>db_live := (case f_count (db_files d) of Some v \<Rightarrow> if v \<ge> 0 then v else 0 | None \<Rightarrow> 0)\<rparr>"

subsection \<open>Checkpoints\<close>

text \<open>How the disk treats this checkpoint.\<close>

definition next_disk :: "('g, 'db) db_env \<Rightarrow> ('g, 'db, disk) dba" where
  "next_disk E = upd (\<lambda>d. (de_disk E (db_checkpoints d), d\<lparr>db_checkpoints := db_checkpoints d + 1\<rparr>))"

definition on_stored :: "('g stored_index \<Rightarrow> 'g stored_index) \<Rightarrow> ('g, 'db, unit) dba" where
  "on_stored f = modify (db_index_update f)"

definition truncate_log :: "('g, 'db) db_env \<Rightarrow> ('g, 'db, unit) dba" where
  "truncate_log E =
     bnd (get (\<lambda>d. db_oplog d = None)) (\<lambda>none.
     if none then ret ()
     else bnd (get db_main_lsn) (\<lambda>l. bnd (on_log E (\<lambda>io. log_truncate_below io (l + 1))) (\<lambda>_. ret ())))"

definition install_checkpoint :: "('g, 'db) db_env \<Rightarrow> disk \<Rightarrow> ('g, 'db, status) dba" where
  "install_checkpoint E dk =
     bnd (get (\<lambda>d. map_option log_last_lsn (db_oplog d))) (\<lambda>l.
     bnd (case l of None \<Rightarrow> ret () | Some l \<Rightarrow> on_stored (si_lsn_update (\<lambda>_. l))) (\<lambda>_.
     bnd (modify (\<lambda>d. d\<lparr>db_index := (db_index d)\<lparr>si_live := db_live d\<rparr>\<rparr>)) (\<lambda>_.
     ok_then (writeMetadataFile E dk) (
     bnd (modify (persistCount dk)) (\<lambda>_.
     bnd (modify (\<lambda>d. d\<lparr>db_writes := 0, db_ops := 0\<rparr>)) (\<lambda>_.
     bnd (truncate_log E) (\<lambda>_.
     bnd (modify (\<lambda>d. d\<lparr>db_main_lsn := si_lsn (db_index d)\<rparr>)) (\<lambda>_. ret OK))))))))"

definition checkpointLocked :: "('g, 'db) db_env \<Rightarrow> ('g, 'db, status) dba" where
  "checkpointLocked E =
     bnd (get (\<lambda>d. db_writes d = 0 \<and> f_meta (db_files d) \<noteq> None)) (\<lambda>clean.
     if clean then ret OK
     else bnd (next_disk E) (\<lambda>dk.
          bnd (on_index (on_store (syncData (de_medium E)))) (\<lambda>ok.
          if \<not> ok then ret IOError
          else ok_then (on_index (syncGraph (de_ix E))) (
               bnd (get (\<lambda>d. db_meta d = None)) (\<lambda>none.
               ok_then (ret (if none then OK else dk_sync_payloads dk)) (install_checkpoint E dk))))))"

definition Checkpoint :: "('g, 'db) db_env \<Rightarrow> ('g, 'db, status) dba" where
  "Checkpoint E = bnd (get db_closed) (\<lambda>closed. if closed then ret InvalidArgument else checkpointLocked E)"

text \<open>\<open>~WriteScope\<close> of the outermost scope; the result of the checkpoint is only logged.\<close>

definition auto_checkpoint :: "('g, 'db) db_env \<Rightarrow> ('g, 'db, unit) dba" where
  "auto_checkpoint E =
     bnd (get db_due) (\<lambda>due.
     if due then bnd (modify (db_due_update (\<lambda>_. False))) (\<lambda>_.
            catching (bnd (Checkpoint E) (\<lambda>_. ret ())) (ret ()))
     else ret ())"

text \<open>\<open>WriteScope ws(*this)\<close> in a public call: the destructor runs also when the call throws.\<close>

definition write_scope :: "('g, 'db) db_env \<Rightarrow> ('g, 'db, 'a) dba \<Rightarrow> ('g, 'db, 'a) dba" where
  "write_scope E m d =
     (case in_scope m d of
        None \<Rightarrow> None
      | Some (r, d1) \<Rightarrow> (case auto_checkpoint E d1 of None \<Rightarrow> None | Some (_, d2) \<Rightarrow> Some (r, d2)))"

definition flushVectorWrites :: "('g, 'db) db_env \<Rightarrow> ('g, 'db, unit) dba" where
  "flushVectorWrites E =
     bnd (get db_closed) (\<lambda>closed. if closed then ret () else bnd (Checkpoint E) (\<lambda>_. ret ()))"

text \<open>\<open>Close\<close> releases the log and the payload store whatever the checkpoint returns.\<close>

definition Close :: "('g, 'db) db_env \<Rightarrow> ('g, 'db, status) dba" where
  "Close E =
     bnd (get db_closed) (\<lambda>closed.
     if closed then ret OK
     else bnd (Checkpoint E) (\<lambda>st.
          bnd (modify (\<lambda>d. d\<lparr>db_files := (db_files d)
              \<lparr>f_oplog := (case db_oplog d of None \<Rightarrow> f_oplog (db_files d) | Some lg \<Rightarrow> Some (log_segs lg))\<rparr>,
            db_oplog := None, db_meta := None, db_closed := True\<rparr>)) (\<lambda>_. ret st)))"

end
