(* ===== verification/Db_Api.thy ===== *)
theory Db_Api
  imports Db_Checkpoint
begin

text \<open>
  The public calls of the engine: they resolve the caller's point id to a dense id and run the
  operation on it. A keyed store keeps the map in the payload store; a dense one takes integer ids as
  they are. The overloads on integer ids only wrap the id in a \<open>PointId\<close>.
\<close>

subsection \<open>Point ids\<close>

definition resolveId :: "('g, 'db) db_env \<Rightarrow> point_id \<Rightarrow> bool \<Rightarrow> ('g, 'db, status + node_id \<times> bytes) dba" where
  "resolveId E p create =
     bnd (get db_keyed) (\<lambda>keyed.
     if \<not> keyed then
       ret (if \<not> pid_is_int p then Inl InvalidArgument
            else if pid_int p > kMaxRealId then Inl InvalidArgument
            else Inr (pid_int p, []))
     else if \<not> pid_is_int p \<and> length (pid_str p) > kMaxStringBytes then ret (Inl InvalidArgument)
     else bnd (get db_meta) (\<lambda>mo.
       case mo of
         None \<Rightarrow> ret (Inl IOError)
       | Some ms \<Rightarrow> let key = pid_encode p in
           case lookup_key (de_kv E) key ms of
             Inr dense \<Rightarrow> ret (Inr (dense, key))
           | Inl st \<Rightarrow>
               if st \<noteq> NotFound \<or> \<not> create then ret (Inl st)
               else bnd (upd (\<lambda>d. (db_next_dense d, d\<lparr>db_next_dense := db_next_dense d + 1\<rparr>))) (\<lambda>next.
                    if next > kMaxRealId then ret (Inl InvalidArgument)
                    else bnd (on_meta (put_key (de_kv E) key next)) (\<lambda>st.
                         ret (if st \<noteq> OK then Inl st else Inr (next, key))))))"

definition observeDenseId :: "node_id \<Rightarrow> ('g, 'db) db \<Rightarrow> ('g, 'db) db" where
  "observeDenseId dense d = (if db_next_dense d \<le> dense then d\<lparr>db_next_dense := dense + 1\<rparr> else d)"

text \<open>A hit under its integer id (\<open>toIntIds\<close>) or its point id (\<open>toPointHits\<close>); a hit with no entry in
  the id map is passed over.\<close>

definition hit_point :: "'db kv_api \<Rightarrow> 'db meta_store \<Rightarrow> node_id \<Rightarrow> status + point_id option" where
  "hit_point api ms i =
     (case reverse_lookup api i ms of
        Inl st \<Rightarrow> if st = NotFound then Inr None else Inl st
      | Inr key \<Rightarrow> (case pid_decode key of None \<Rightarrow> Inl Corruption | Some p \<Rightarrow> Inr (Some p)))"

fun int_hits :: "'db kv_api \<Rightarrow> 'db meta_store \<Rightarrow> (node_id \<times> rat) list \<Rightarrow> status + (node_id \<times> rat) list" where
  "int_hits api ms [] = Inr []"
| "int_hits api ms ((i, x) # rest) =
     (case hit_point api ms i of
        Inl st \<Rightarrow> Inl st
      | Inr None \<Rightarrow> int_hits api ms rest
      | Inr (Some p) \<Rightarrow>
          if \<not> pid_is_int p then Inl InvalidArgument
          else (case int_hits api ms rest of Inl st \<Rightarrow> Inl st | Inr out \<Rightarrow> Inr ((pid_int p, x) # out)))"

definition toIntIds :: "('g, 'db) db_env \<Rightarrow> (node_id \<times> rat) list \<Rightarrow> ('g, 'db) db \<Rightarrow> status + (node_id \<times> rat) list" where
  "toIntIds E found d =
     (if \<not> db_keyed d then Inr found else int_hits (de_kv E) (the (db_meta d)) found)"

fun point_hits :: "'db kv_api \<Rightarrow> 'db meta_store \<Rightarrow> (node_id \<times> rat) list \<Rightarrow> status + (point_id \<times> rat) list" where
  "point_hits api ms [] = Inr []"
| "point_hits api ms ((i, x) # rest) =
     (case hit_point api ms i of
        Inl st \<Rightarrow> Inl st
      | Inr None \<Rightarrow> point_hits api ms rest
      | Inr (Some p) \<Rightarrow> (case point_hits api ms rest of Inl st \<Rightarrow> Inl st | Inr out \<Rightarrow> Inr ((p, x) # out)))"

definition toPointHits :: "('g, 'db) db_env \<Rightarrow> (node_id \<times> rat) list \<Rightarrow> ('g, 'db) db \<Rightarrow> status + (point_id \<times> rat) list" where
  "toPointHits E found d =
     (if \<not> db_keyed d then Inr (map (\<lambda>(i, x). (pid_Int i, x)) found)
      else point_hits (de_kv E) (the (db_meta d)) found)"

subsection \<open>Writing calls\<close>

definition ValidateInsert :: "('g, 'db) db_env \<Rightarrow> point_id \<Rightarrow> vec \<Rightarrow> bytes \<Rightarrow> ('g, 'db) db \<Rightarrow> status" where
  "ValidateInsert E p v js d =
     (if db_keyed d then
        (if \<not> pid_is_int p \<and> length (pid_str p) > kMaxStringBytes then InvalidArgument
         else validateInsertArgs E v js)
      else if \<not> pid_is_int p then InvalidArgument
      else if pid_int p > kMaxRealId then InvalidArgument
      else validateInsertArgs E v js)"

definition Insert :: "('g, 'db) db_env \<Rightarrow> point_id \<Rightarrow> vec \<Rightarrow> bytes \<Rightarrow> ('g, 'db, status) dba" where
  "Insert E p v js = write_scope E (
     ok_then (get (ValidateInsert E p v js)) (
     got_then (resolveId E p True) (\<lambda>(dense, key). insertDense E dense v js key)))"

definition Update :: "('g, 'db) db_env \<Rightarrow> point_id \<Rightarrow> vec \<Rightarrow> ('g, 'db, status) dba" where
  "Update E p v = write_scope E (
     ok_then (get (ValidateInsert E p v [])) (
     got_then (resolveId E p True) (\<lambda>(dense, key). updateDense E dense v [] key)))"

text \<open>\<open>missing\<close>: the answer for a point id that was never written.\<close>

definition on_existing ::
  "('g, 'db) db_env \<Rightarrow> point_id \<Rightarrow> 'a \<Rightarrow> (status \<Rightarrow> 'a) \<Rightarrow> (node_id \<Rightarrow> ('g, 'db, 'a) dba) \<Rightarrow> ('g, 'db, 'a) dba" where
  "on_existing E p missing err m =
     bnd (resolveId E p False) (\<lambda>r.
     case r of
       Inl st \<Rightarrow> ret (if st = NotFound then missing else err st)
     | Inr (dense, key) \<Rightarrow> m dense)"

definition Delete :: "('g, 'db) db_env \<Rightarrow> point_id \<Rightarrow> ('g, 'db, status) dba" where
  "Delete E p = write_scope E (on_existing E p OK id (deleteDense E))"

definition SetPayload :: "('g, 'db) db_env \<Rightarrow> point_id \<Rightarrow> bytes \<Rightarrow> ('g, 'db, status) dba" where
  "SetPayload E p js = write_scope E (on_existing E p NotFound id (\<lambda>r. setPayloadDense E r js))"

definition UpdatePayload :: "('g, 'db) db_env \<Rightarrow> point_id \<Rightarrow> bytes \<Rightarrow> ('g, 'db, status) dba" where
  "UpdatePayload E p js = write_scope E (on_existing E p NotFound id (\<lambda>r. updatePayloadDense E r js))"

definition DeletePayloadKeys :: "('g, 'db) db_env \<Rightarrow> point_id \<Rightarrow> string list \<Rightarrow> ('g, 'db, status) dba" where
  "DeletePayloadKeys E p ks = write_scope E (on_existing E p NotFound id (\<lambda>r. deletePayloadKeysDense E r ks))"

text \<open>\<open>SetPayloadBatch\<close>: every item is checked before the one batch is written.\<close>

definition batch_item :: "('g, 'db) db_env \<Rightarrow> point_id \<times> bytes \<Rightarrow> ('g, 'db, status + node_id \<times> bytes) dba" where
  "batch_item E it =
     (case it of (p, js) \<Rightarrow>
        bnd (resolveId E p False) (\<lambda>r.
        case r of
          Inl st \<Rightarrow> ret (Inl st)
        | Inr (dense, key) \<Rightarrow>
            bnd (get (alive_in E dense)) (\<lambda>alive.
            if \<not> alive then ret (Inl NotFound)
            else case ParseMetadataObject E js of
              Inl st \<Rightarrow> ret (Inl st)
            | Inr _ \<Rightarrow> get (\<lambda>d. Inr (resolve_internal (db_ids d) dense, js)))))"

fun batch_items :: "('g, 'db) db_env \<Rightarrow> (point_id \<times> bytes) list \<Rightarrow> ('g, 'db, status + (node_id \<times> bytes) list) dba" where
  "batch_items E [] = ret (Inr [])"
| "batch_items E (it # its) =
     bnd (batch_item E it) (\<lambda>r.
     case r of
       Inl st \<Rightarrow> ret (Inl st)
     | Inr x \<Rightarrow> bnd (batch_items E its) (\<lambda>rs. ret (case rs of Inl st \<Rightarrow> Inl st | Inr xs \<Rightarrow> Inr (x # xs))))"

definition SetPayloadBatch :: "('g, 'db) db_env \<Rightarrow> (point_id \<times> bytes) list \<Rightarrow> ('g, 'db, status) dba" where
  "SetPayloadBatch E items = write_scope E (
     bnd (get (\<lambda>d. db_meta d = None)) (\<lambda>none.
     if none then ret NotFound
     else got_then (batch_items E items) (\<lambda>rows. on_meta (ms_put_batch (de_kv E) rows))))"

subsection \<open>Reading calls\<close>

definition Get :: "('g, 'db) db_env \<Rightarrow> point_id \<Rightarrow> ('g, 'db, status + vec) dba" where
  "Get E p = on_existing E p (Inl NotFound) Inl (getDense E)"

definition GetPayload :: "('g, 'db) db_env \<Rightarrow> point_id \<Rightarrow> ('g, 'db, status + bytes) dba" where
  "GetPayload E p = on_existing E p (Inr no_document) Inl (getPayloadDense E)"

definition SearchKnn ::
  "('g, 'db) db_env \<Rightarrow> vec \<Rightarrow> int \<Rightarrow> int \<Rightarrow> ('g, 'db, status + (node_id \<times> rat) list) dba" where
  "SearchKnn E q k ef =
     bnd (searchUnfilteredDense E q k ef) (\<lambda>r.
     case r of Inl st \<Rightarrow> ret (Inl st) | Inr found \<Rightarrow> get (toIntIds E found))"

definition SearchKnnFiltered ::
  "('g, 'db) db_env \<Rightarrow> vec \<Rightarrow> int \<Rightarrow> int \<Rightarrow> int \<Rightarrow> bytes \<Rightarrow> ('g, 'db, status + (node_id \<times> rat) list) dba" where
  "SearchKnnFiltered E q k ef max_scan filter_js =
     bnd (searchDense E q k ef max_scan filter_js) (\<lambda>r.
     case r of Inl st \<Rightarrow> ret (Inl st) | Inr found \<Rightarrow> get (toIntIds E found))"

definition SearchPoints ::
  "('g, 'db) db_env \<Rightarrow> vec \<Rightarrow> int \<Rightarrow> int \<Rightarrow> int \<Rightarrow> bytes \<Rightarrow> ('g, 'db, status + (point_id \<times> rat) list) dba" where
  "SearchPoints E q k ef max_scan filter_js =
     bnd (searchDense E q k ef max_scan filter_js) (\<lambda>r.
     case r of Inl st \<Rightarrow> ret (Inl st) | Inr found \<Rightarrow> get (toPointHits E found))"

end
