(* ===== verification/Db_Recovery.thy ===== *)
theory Db_Recovery
  imports Db_Api
begin

text \<open>
  Opening a store: \<open>replayRecord\<close>, \<open>recoverFromOpLog\<close> and the part of \<open>Open\<close> that loads the latest
  usable checkpoint and applies the operations logged after it. The index and the payload store are
  handed over as their constructors return them.
\<close>

subsection \<open>Replay\<close>

text \<open>The payload of a replayed insert or update: only a missing row is filled.\<close>

definition replay_payload :: "('g, 'db) db_env \<Rightarrow> op_record \<Rightarrow> ('g, 'db, status) dba" where
  "replay_payload E r =
     bnd (on_meta (ms_get (de_kv E) (internal_id r))) (\<lambda>g.
     ok_then
       (case g of
          Inr _ \<Rightarrow> ret OK
        | Inl _ \<Rightarrow>
            if payload r \<noteq> [] then on_meta (ms_put (de_kv E) (internal_id r) (payload r))
            else if op r = kOpUpdate then
              bnd (on_meta (ms_get (de_kv E) (aux r))) (\<lambda>old.
              case old of
                Inl _ \<Rightarrow> ret OK
              | Inr old_js \<Rightarrow> on_meta (ms_put (de_kv E) (internal_id r) old_js))
            else ret OK)
       (if op r = kOpUpdate
        then bnd (on_meta (ms_delete (de_kv E) (aux r))) (\<lambda>st. ret (if st \<noteq> OK \<and> st \<noteq> NotFound then st else OK))
        else ret OK))"

definition replay_put :: "('g, 'db) db_env \<Rightarrow> op_record \<Rightarrow> ('g, 'db, status) dba" where
  "replay_put E r =
     (if encoding r \<noteq> kEncodingSQ8 \<or> length (recbytes r) \<noteq> vs_record_size (ev_vs (de_ix E)) then ret Corruption
      else bnd (get (alive_in E (real_id r))) (\<lambda>was_alive.
        bnd (if op r = kOpInsert \<and> is_update_id (internal_id r)
             then on_ids (record_update_mapping (de_lg E) (real_id r) (internal_id r)) else ret ()) (\<lambda>_.
        ok_then (try_insert E (internal_id r) (vs_decode (ev_vs (de_ix E)) (recbytes r)) (Some (recbytes r))) (
        bnd (if op r = kOpUpdate
             then bnd (on_ids (record_update_mapping (de_lg E) (real_id r) (internal_id r))) (\<lambda>_. on_ids (tombstone (aux r)))
             else ret ()) (\<lambda>_.
        bnd (if \<not> was_alive then modify (db_live_update (\<lambda>n. n + 1)) else ret ()) (\<lambda>_.
        bnd (get (\<lambda>d. db_meta d = None)) (\<lambda>none.
        ok_then (if none then ret OK else replay_payload E r) (
        bnd (modify (db_writes_update Suc)) (\<lambda>_. ret OK)))))))))"

text \<open>A failed operation still used up its update id, and its key the dense id.\<close>

definition replay_ids :: "('g, 'db) db_env \<Rightarrow> op_record \<Rightarrow> ('g, 'db, status) dba" where
  "replay_ids E r =
     bnd (if is_update_id (internal_id r) then on_ids (observe_update_id (internal_id r)) else ret ()) (\<lambda>_.
     bnd (get (\<lambda>d. reckey r \<noteq> [] \<and> (case db_meta d of None \<Rightarrow> False | Some ms \<Rightarrow> has_id_map ms))) (\<lambda>keyed.
     if keyed then ok_then (on_meta (put_key (de_kv E) (reckey r) (real_id r)))
                    (bnd (modify (observeDenseId (real_id r))) (\<lambda>_. ret OK))
     else ret OK))"

definition replayRecord :: "('g, 'db) db_env \<Rightarrow> op_record \<Rightarrow> bool \<Rightarrow> ('g, 'db, status) dba" where
  "replayRecord E r aborted =
     (if op r = kOpAbort then ret OK
      else if op r = kOpInsert \<or> op r = kOpUpdate then
        ok_then (replay_ids E r) (if aborted then ret OK else replay_put E r)
      else if op r = kOpDelete then
        if aborted then ret OK
        else bnd (get (alive_in E (real_id r))) (\<lambda>was_alive.
          bnd (on_ids (tombstone (internal_id r))) (\<lambda>_.
          bnd (get (\<lambda>d. db_meta d = None)) (\<lambda>none.
          ok_then (if none then ret OK
                   else bnd (on_meta (ms_delete (de_kv E) (internal_id r))) (\<lambda>st. ret (if st \<noteq> OK \<and> st \<noteq> NotFound then st else OK))) (
          bnd (on_ids (forget_update_mapping (real_id r))) (\<lambda>_.
          bnd (if was_alive then modify (db_live_update (\<lambda>n. n - 1)) else ret ()) (\<lambda>_.
          bnd (modify (db_writes_update Suc)) (\<lambda>_. ret OK)))))))
      else ret Corruption)"

text \<open>The two callbacks of \<open>OpLog::Scan\<close>. The state of the second is the store, \<open>None\<close> after a call
  that did not return.\<close>

definition collect_abort :: "op_record \<Rightarrow> u64 list \<Rightarrow> status \<times> u64 list" where
  "collect_abort r as = (OK, if op r = kOpAbort then List.insert (aux r) as else as)"

definition replay_call ::
  "('g, 'db) db_env \<Rightarrow> u64 list \<Rightarrow> op_record \<Rightarrow> ('g, 'db) db option \<Rightarrow> status \<times> ('g, 'db) db option" where
  "replay_call E as r s =
     (case Option.bind s (replayRecord E r (lsn r \<in> set as)) of
        Some (Inr st, d) \<Rightarrow> (st, Some d)
      | _ \<Rightarrow> (IOError, None))"

subsection \<open>Recovery\<close>

text \<open>Both passes: the state after the replay and the lsn the log goes on with.\<close>

definition replay_log :: "('g, 'db) db_env \<Rightarrow> log_dir \<Rightarrow> ('g, 'db, status + u64) dba" where
  "replay_log E segs d =
     (let from = si_lsn (db_index d) + 1 in
      case log_scan (de_log_read E) segs from collect_abort [] of
        (st, _, as) \<Rightarrow>
          if st \<noteq> OK then Some (Inr (Inl st), d)
          else case log_scan (de_log_read E) segs from (replay_call E as) (Some d) of
            (st, stats, None) \<Rightarrow> None
          | (st, stats, Some d') \<Rightarrow>
              Some (Inr (if st \<noteq> OK then Inl st
                         else Inr (if st_records stats > 0 then st_last_lsn stats + 1 else from)), d'))"

definition open_log :: "('g, 'db) db_env \<Rightarrow> u64 \<Rightarrow> ('g, 'db, status) dba" where
  "open_log E next d =
     (case log_open (de_log_io E (db_log_calls d)) (case f_oplog (db_files d) of None \<Rightarrow> [] | Some segs \<Rightarrow> segs) next (de_segment_bytes E) of
        (st, segs, lg) \<Rightarrow>
          Some (Inr st, d\<lparr>db_oplog := lg, db_files := (db_files d)\<lparr>f_oplog := Some segs\<rparr>, db_log_calls := db_log_calls d + 1\<rparr>))"

definition recoverFromOpLog :: "('g, 'db) db_env \<Rightarrow> ('g, 'db, status) dba" where
  "recoverFromOpLog E =
     bnd (get (\<lambda>d. (f_oplog (db_files d), si_lsn (db_index d) + 1))) (\<lambda>(dir, from).
     got_then (case dir of None \<Rightarrow> ret (Inr from) | Some segs \<Rightarrow> replay_log E segs) (\<lambda>next.
     ok_then (if de_oplog E then open_log E next else ret OK) (
     ok_then
       (if next \<noteq> from then
          bnd (modify (\<lambda>d. d\<lparr>db_index := (db_index d)\<lparr>si_lsn := next - 1\<rparr>, db_writes := db_writes d + 1\<rparr>)) (\<lambda>_.
          checkpointLocked E)
        else ret OK)
       (if \<not> de_oplog E then bnd (on_files (f_oplog_update (\<lambda>_. None))) (\<lambda>_. ret OK) else ret OK))))"

subsection \<open>Loading the checkpoint\<close>

text \<open>The latest checkpoint, or the one before when it is missing or damaged; a damaged file is dropped
  so that the next checkpoint does not take it for the previous one.\<close>

definition load_file :: "('g, 'db) db_env \<Rightarrow> bytes \<Rightarrow> ('g, 'db, status) dba" where
  "load_file E bs d =
     (case DeserializeMetadata (de_ix E) (de_lg E) (de_medium E) (de_encoding E) bs (db_index d) of
        None \<Rightarrow> None
      | Some (st, si) \<Rightarrow> Some (Inr st, d\<lparr>db_index := si\<rparr>))"

definition load_checkpoint :: "('g, 'db) db_env \<Rightarrow> ('g, 'db, status) dba" where
  "load_checkpoint E =
     bnd (get db_files) (\<lambda>f.
     bnd (case f_meta f of None \<Rightarrow> ret OK | Some bs \<Rightarrow> load_file E bs) (\<lambda>ms.
     ok_then
       (case f_prev f of
          Some bs \<Rightarrow>
            if f_meta f = None \<or> ms \<noteq> OK then
              bnd (load_file E bs) (\<lambda>ps.
              if ps \<noteq> OK then ret (if f_meta f \<noteq> None then Corruption else ps)
              else if f_meta f \<noteq> None then bnd (on_files (f_meta_update (\<lambda>_. None))) (\<lambda>_. ret OK)
              else ret OK)
            else ret ms
        | None \<Rightarrow> ret ms)
       (bnd (modify (\<lambda>d. d\<lparr>db_main_lsn := si_lsn (db_index d)\<rparr>)) (\<lambda>_. ret OK))))"

text \<open>The id mode of the store against the one asked for (\<open>None\<close>: as stored), and the counter of dense
  ids.\<close>

definition check_mode :: "bool option \<Rightarrow> ('g, 'db, status) dba" where
  "check_mode mode =
     bnd (get (\<lambda>d. si_mode (db_index d) = 1)) (\<lambda>stored.
     if mode \<noteq> None \<and> mode \<noteq> Some stored then ret InvalidArgument
     else bnd (modify (db_keyed_update (\<lambda>_. stored))) (\<lambda>_. ret OK))"

definition load_dense_counter :: "('g, 'db) db_env \<Rightarrow> ('g, 'db, status) dba" where
  "load_dense_counter E =
     bnd (get (\<lambda>d. (db_keyed d, db_meta d))) (\<lambda>(keyed, mo).
     case mo of
       Some ms \<Rightarrow>
         if \<not> keyed then ret OK
         else (case max_mapped_id (de_kv E) ms of
           Inl st \<Rightarrow> ret st
         | Inr largest \<Rightarrow> bnd (modify (db_next_dense_update (\<lambda>_. case largest of None \<Rightarrow> 0 | Some i \<Rightarrow> i + 1))) (\<lambda>_. ret OK))
     | None \<Rightarrow> ret OK)"

definition load_live :: "('g, 'db) db \<Rightarrow> ('g, 'db) db" where
  "load_live d =
     (let d' = loadCount d in
      if si_live (db_index d') \<ge> 0 then d'\<lparr>db_live := si_live (db_index d')\<rparr> else d')"

text \<open>\<open>Open\<close> of an existing store, from the loading of the checkpoint on: \<open>ms\<close> is what
  \<open>MetadataStore::Open\<close> returns for an id mode.\<close>

definition open_existing ::
  "('g, 'db) db_env \<Rightarrow> bool option \<Rightarrow> (bool \<Rightarrow> status + 'db meta_store) \<Rightarrow> ('g, 'db, status) dba" where
  "open_existing E mode ms =
     ok_then (load_checkpoint E) (
     ok_then (check_mode mode) (
     ok_then (bnd (get db_keyed) (\<lambda>keyed.
       case ms keyed of
         Inl st \<Rightarrow> ret st
       | Inr s \<Rightarrow> bnd (modify (db_meta_update (\<lambda>_. Some s))) (\<lambda>_. load_dense_counter E))) (
     bnd (modify load_live) (\<lambda>_. recoverFromOpLog E))))"

end
