(* ===== verification/Db_View.thy ===== *)
theory Db_View
  imports Db_Recovery
begin

text \<open>
  What a client sees of a store, and what every logged operation does to it. \<open>db_view\<close> forgets the
  graph, the caches and the layout of the files; \<open>v_apply\<close> is the effect of a log record on a view.
  The calls and the replay are both shown to have this effect, so a store that is recovered from its
  log shows what the lost one did.
\<close>

subsection \<open>Views\<close>

record dview =
  v_resolve :: "real_id \<Rightarrow> internal_id"
  v_dead :: "internal_id \<Rightarrow> bool"
  v_vec :: "internal_id \<rightharpoonup> vec"
  v_row :: "internal_id \<rightharpoonup> bytes"
  v_live :: int
  v_next :: internal_id

definition rows_of :: "('db \<Rightarrow> kv_view) \<Rightarrow> 'db meta_store option \<Rightarrow> internal_id \<rightharpoonup> bytes" where
  "rows_of vw mo = (case mo of None \<Rightarrow> Map.empty | Some ms \<Rightarrow> row (vw (ms_db ms)))"

definition db_view :: "('g, 'db) db_env \<Rightarrow> ('db \<Rightarrow> kv_view) \<Rightarrow> ('g, 'db) db \<Rightarrow> dview" where
  "db_view E vw d =
     \<lparr>v_resolve = resolve_internal (db_ids d), v_dead = is_tombstoned (db_ids d),
      v_vec = contents (de_ix E) (db_ix d), v_row = rows_of vw (db_meta d),
      v_live = db_live d, v_next = next_update_internal_id (db_ids d)\<rparr>"

definition v_alive :: "dview \<Rightarrow> real_id \<Rightarrow> bool" where
  "v_alive V r \<longleftrightarrow> \<not> v_dead V (v_resolve V r) \<and> v_vec V (v_resolve V r) \<noteq> None"

text \<open>The documents of the store: each live id with its vector and its payload.\<close>

definition v_docs :: "dview \<Rightarrow> real_id \<rightharpoonup> vec \<times> bytes option" where
  "v_docs V r = (if is_direct_id r \<and> v_alive V r then Some (the (v_vec V (v_resolve V r)), v_row V (v_resolve V r)) else None)"

text \<open>Only updated ids are mapped, to the live version; the version under the id itself is dead then.
  Rows belong to live versions, and the count is the number of live ids.\<close>

definition view_ok :: "dview \<Rightarrow> bool" where
  "view_ok V \<longleftrightarrow>
     (\<forall>r. v_resolve V r \<noteq> r \<longrightarrow> is_direct_id r \<and> is_update_id (v_resolve V r) \<and> v_alive V r \<and> (v_dead V r \<or> v_vec V r = None))
   \<and> (\<forall>r q. v_resolve V r = v_resolve V q \<longrightarrow> is_direct_id r \<longrightarrow> is_direct_id q \<longrightarrow> r = q)
   \<and> (\<forall>n. is_update_id n \<longrightarrow> v_vec V n \<noteq> None \<longrightarrow> n < v_next V) \<and> is_update_id (v_next V)
   \<and> (\<forall>n. v_dead V n \<longrightarrow> v_vec V n \<noteq> None)
   \<and> (\<forall>n. v_row V n \<noteq> None \<longrightarrow> v_vec V n \<noteq> None \<and> \<not> v_dead V n)
   \<and> v_live V = int (card (dom (v_docs V)))"

subsection \<open>The effect of an operation\<close>

definition v_store :: "real_id \<Rightarrow> internal_id \<Rightarrow> internal_id option \<Rightarrow> bytes \<Rightarrow> vec \<Rightarrow> dview \<Rightarrow> dview" where
  "v_store r i old js v V =
     \<lparr>v_resolve = (if is_update_id i then (v_resolve V)(r := i) else v_resolve V),
      v_dead = (case old of None \<Rightarrow> v_dead V | Some p \<Rightarrow> (v_dead V)(p := True)),
      v_vec = (v_vec V)(i \<mapsto> v),
      v_row = (case old of
                 None \<Rightarrow> if js \<noteq> [] then (v_row V)(i \<mapsto> js) else v_row V
               | Some p \<Rightarrow> (v_row V)(i := (if js \<noteq> [] then Some js else v_row V p), p := None)),
      v_live = v_live V + (if v_alive V r then 0 else 1),
      v_next = (if is_update_id i \<and> v_next V \<le> i then i + 1 else v_next V)\<rparr>"

definition v_delete :: "real_id \<Rightarrow> internal_id \<Rightarrow> dview \<Rightarrow> dview" where
  "v_delete r i V =
     V\<lparr>v_resolve := (v_resolve V)(r := r), v_dead := (v_dead V)(i := True), v_row := (v_row V)(i := None),
       v_live := v_live V - (if v_alive V r then 1 else 0)\<rparr>"

definition v_apply :: "float_ops \<Rightarrow> op_record \<Rightarrow> dview \<Rightarrow> dview" where
  "v_apply F r V =
     (if op r = kOpInsert then v_store (real_id r) (internal_id r) None (payload r) (disk_dequantize F (recbytes r)) V
      else if op r = kOpUpdate then v_store (real_id r) (internal_id r) (Some (aux r)) (payload r) (disk_dequantize F (recbytes r)) V
      else if op r = kOpDelete then v_delete (real_id r) (internal_id r) V
      else V)"

text \<open>A record an engine in the state \<open>V\<close> writes.\<close>

definition rec_fits :: "nat \<Rightarrow> op_record \<Rightarrow> dview \<Rightarrow> bool" where
  "rec_fits dims r V \<longleftrightarrow> is_direct_id (real_id r) \<and>
     (if op r = kOpDelete then internal_id r = v_resolve V (real_id r) \<and> v_vec V (v_resolve V (real_id r)) \<noteq> None
      else encoding r = kEncodingSQ8 \<and> length (recbytes r) = dims + 8 \<and> v_next V \<noteq> - 1
        \<and> (if op r = kOpInsert
           then \<not> v_alive V (real_id r) \<and> internal_id r = (if v_dead V (real_id r) then v_next V else real_id r)
           else op r = kOpUpdate \<and> v_alive V (real_id r) \<and> internal_id r = v_next V \<and> aux r = v_resolve V (real_id r)))"

lemma op_types [simp]: "kOpInsert \<noteq> kOpUpdate" "kOpInsert \<noteq> kOpDelete" "kOpUpdate \<noteq> kOpDelete" "kOpAbort \<noteq> kOpInsert"
  "kOpAbort \<noteq> kOpUpdate" "kOpAbort \<noteq> kOpDelete" "kOpUpdate \<noteq> kOpInsert" "kOpDelete \<noteq> kOpInsert" "kOpDelete \<noteq> kOpUpdate"
  "kOpInsert \<noteq> kOpAbort" "kOpUpdate \<noteq> kOpAbort" "kOpDelete \<noteq> kOpAbort"
  by (simp_all add: kOpInsert_def kOpUpdate_def kOpDelete_def kOpAbort_def)

lemma view_okD:
  assumes "view_ok V"
  shows "v_resolve V r \<noteq> r \<Longrightarrow> is_direct_id r \<and> is_update_id (v_resolve V r) \<and> v_alive V r \<and> (v_dead V r \<or> v_vec V r = None)"
    "v_resolve V r = v_resolve V q \<Longrightarrow> is_direct_id r \<Longrightarrow> is_direct_id q \<Longrightarrow> r = q"
    "is_update_id n \<Longrightarrow> v_vec V n \<noteq> None \<Longrightarrow> n < v_next V" "is_update_id (v_next V)"
    "v_dead V n \<Longrightarrow> v_vec V n \<noteq> None" "v_row V n \<noteq> None \<Longrightarrow> v_vec V n \<noteq> None \<and> \<not> v_dead V n"
    "v_live V = int (card (dom (v_docs V)))"
proof -
  note D = assms [unfolded view_ok_def]
  note D1 = D [THEN conjunct1] and D2 = D [THEN conjunct2, THEN conjunct1] and D3 = D [THEN conjunct2, THEN conjunct2]
  note D4 = D3 [THEN conjunct1] and D5 = D3 [THEN conjunct2]
  note D6 = D5 [THEN conjunct2] and D7 = D5 [THEN conjunct2, THEN conjunct2]
  show "v_resolve V r \<noteq> r \<Longrightarrow> is_direct_id r \<and> is_update_id (v_resolve V r) \<and> v_alive V r \<and> (v_dead V r \<or> v_vec V r = None)"
    by (rule D1 [rule_format])
  show "v_resolve V r = v_resolve V q \<Longrightarrow> is_direct_id r \<Longrightarrow> is_direct_id q \<Longrightarrow> r = q" by (rule D2 [rule_format])
  show "is_update_id n \<Longrightarrow> v_vec V n \<noteq> None \<Longrightarrow> n < v_next V" by (rule D4 [rule_format])
  show "is_update_id (v_next V)" by (rule D5 [THEN conjunct1])
  show "v_dead V n \<Longrightarrow> v_vec V n \<noteq> None" by (rule D6 [THEN conjunct1, rule_format])
  show "v_row V n \<noteq> None \<Longrightarrow> v_vec V n \<noteq> None \<and> \<not> v_dead V n" by (rule D7 [THEN conjunct1, THEN spec, THEN mp])
  show "v_live V = int (card (dom (v_docs V)))" by (rule D7 [THEN conjunct2])
qed

lemma dom_docs: "dom (v_docs V) = {r. is_direct_id r \<and> v_alive V r}"
  by (auto simp: v_docs_def split: if_splits)

lemma direct_not_update: "is_direct_id r \<Longrightarrow> \<not> is_update_id r"
  by (simp add: is_update_iff_not_direct)

text \<open>An id that is not alive stands for itself; the next update id is free.\<close>

lemma not_alive_self: "view_ok V \<Longrightarrow> \<not> v_alive V r \<Longrightarrow> v_resolve V r = r"
  using view_okD(1) by blast

lemma next_free: "view_ok V \<Longrightarrow> v_vec V (v_next V) = None" "view_ok V \<Longrightarrow> \<not> v_dead V (v_next V)" "view_ok V \<Longrightarrow> v_row V (v_next V) = None"
proof -
  show f: "v_vec V (v_next V) = None" if "view_ok V" using view_okD(3) [OF that, of "v_next V"] view_okD(4) [OF that] by blast
  show "\<not> v_dead V (v_next V)" if "view_ok V" using view_okD(5) [OF that, of "v_next V"] f [OF that] by blast
  show "v_row V (v_next V) = None" if "view_ok V" using view_okD(6) [OF that, of "v_next V"] f [OF that] by blast
qed

text \<open>Storing a version \<open>i\<close> of \<open>r\<close> that is free.\<close>

definition free_version :: "real_id \<Rightarrow> internal_id \<Rightarrow> dview \<Rightarrow> bool" where
  "free_version r i V \<longleftrightarrow> is_direct_id r \<and> v_vec V i = None \<and> v_next V \<noteq> - 1
     \<and> (i = v_next V \<or> (i = r \<and> \<not> v_alive V r))"

lemma fits_version:
  assumes "view_ok V" "rec_fits dims r V" "op r \<noteq> kOpDelete"
  shows "free_version (real_id r) (internal_id r) V"
proof (cases "op r = kOpInsert")
  case True
  then have n: "\<not> v_alive V (real_id r)" "internal_id r = (if v_dead V (real_id r) then v_next V else real_id r)" "v_next V \<noteq> - 1"
    "is_direct_id (real_id r)" using assms(2) by (simp_all add: rec_fits_def)
  have "v_resolve V (real_id r) = real_id r" by (rule not_alive_self [OF assms(1) n(1)])
  then have "v_vec V (internal_id r) = None" using n(1,2) next_free(1) [OF assms(1)] by (auto simp: v_alive_def split: if_splits)
  then show ?thesis using n by (simp add: free_version_def)
next
  case False
  then show ?thesis using assms(2,3) next_free(1) [OF assms(1)] by (auto simp: rec_fits_def free_version_def split: if_splits)
qed

lemma store_alive:
  assumes "view_ok V" "free_version r i V" "case old of None \<Rightarrow> \<not> v_alive V r | Some p \<Rightarrow> v_alive V r \<and> p = v_resolve V r \<and> i = v_next V"
    and "is_direct_id q"
  shows "v_alive (v_store r i old js v V) q \<longleftrightarrow> q = r \<or> v_alive V q"
proof -
  let ?W = "v_store r i old js v V"
  have f: "is_direct_id r" "v_vec V i = None" "\<not> v_dead V i" "i = v_next V \<or> (i = r \<and> \<not> v_alive V r)"
    using assms(2) view_okD(5) [OF assms(1), of i] by (auto simp: free_version_def)
  have oi: "old = Some p \<Longrightarrow> p \<noteq> i" for p using assms(3) f(2) by (auto simp: v_alive_def)
  show ?thesis
  proof (cases "q = r")
    case True
    have "v_resolve ?W r = i"
    proof (cases "is_update_id i")
      case False
      then have "i = r" "\<not> v_alive V r" using f(4) view_okD(4) [OF assms(1)] by auto
      then show ?thesis using False not_alive_self [OF assms(1)] by (simp add: v_store_def)
    qed (simp add: v_store_def)
    moreover have "v_vec ?W i \<noteq> None" "\<not> v_dead ?W i" using f(3) oi by (auto simp: v_store_def split: option.splits)
    ultimately show ?thesis using True by (simp add: v_alive_def)
  next
    case False
    have res: "v_resolve ?W q = v_resolve V q" using False by (simp add: v_store_def)
    have d: "v_dead ?W (v_resolve V q) = v_dead V (v_resolve V q)"
    proof (cases old)
      case (Some p)
      then have "p \<noteq> v_resolve V q" using assms(3) view_okD(2) [OF assms(1), of r q] f(1) assms(4) False by auto
      then show ?thesis using Some by (auto simp: v_store_def)
    qed (simp add: v_store_def)
    show ?thesis
    proof (cases "v_alive V q")
      case True
      then have "v_vec ?W (v_resolve V q) \<noteq> None" by (simp add: v_store_def v_alive_def)
      then show ?thesis using True d res by (simp add: v_alive_def)
    next
      case dead: False
      then have q: "v_resolve V q = q" by (rule not_alive_self [OF assms(1)])
      have "i \<noteq> q" using f(4) False view_okD(4) [OF assms(1)] assms(4) direct_not_update by auto
      then have "v_vec ?W q = v_vec V q" by (simp add: v_store_def)
      then show ?thesis using dead d res q False by (simp add: v_alive_def)
    qed
  qed
qed

lemma next_up:
  assumes "view_ok V" "v_next V \<noteq> - 1"
  shows "v_next V < v_next V + 1" "is_update_id (v_next V + 1)"
proof -
  show l: "v_next V < v_next V + 1" using assms(2) by (rule word_less_plus_1)
  have "kFirstUpdateId \<le> v_next V" using view_okD(4) [OF assms(1)] by (simp add: is_update_le)
  then show "is_update_id (v_next V + 1)" using l unfolding is_update_le by (meson le_less_trans less_imp_le)
qed

text \<open>What the operations do to the documents.\<close>

definition puts_version :: "real_id \<Rightarrow> internal_id \<Rightarrow> internal_id option \<Rightarrow> dview \<Rightarrow> bool" where
  "puts_version r i old V \<longleftrightarrow> free_version r i V \<and>
     (case old of None \<Rightarrow> \<not> v_alive V r | Some p \<Rightarrow> v_alive V r \<and> p = v_resolve V r \<and> i = v_next V)"

definition payload_of :: "bytes \<Rightarrow> internal_id option \<Rightarrow> dview \<Rightarrow> bytes option" where
  "payload_of js old V = (if js \<noteq> [] then Some js else case old of None \<Rightarrow> None | Some p \<Rightarrow> v_row V p)"

lemma store_resolve:
  assumes "view_ok V" "puts_version r i old V"
  shows "v_resolve (v_store r i old js v V) q = (if q = r then i else v_resolve V q)"
proof (cases "is_update_id i")
  case False
  then have "i = r" "\<not> v_alive V r" using assms(2) view_okD(4) [OF assms(1)] by (auto simp: puts_version_def free_version_def)
  then show ?thesis using False not_alive_self [OF assms(1)] by (simp add: v_store_def)
qed (simp add: v_store_def)

lemma puts_apart:
  assumes "view_ok V" "puts_version r i old V" "old = Some p"
  shows "p \<noteq> i" "v_vec V p \<noteq> None" "p = v_resolve V r"
  using assms by (auto simp: puts_version_def free_version_def v_alive_def)

lemma other_version:
  assumes "view_ok V" "puts_version r i old V" "is_direct_id q" "q \<noteq> r" "v_alive V q"
  shows "v_resolve V q \<noteq> i" "old = Some p \<Longrightarrow> v_resolve V q \<noteq> p"
proof -
  show "v_resolve V q \<noteq> i" using assms(2,5) by (auto simp: puts_version_def free_version_def v_alive_def)
  show "old = Some p \<Longrightarrow> v_resolve V q \<noteq> p"
    using puts_apart(3) [OF assms(1,2)] view_okD(2) [OF assms(1), of q r] assms(2-4) by (auto simp: puts_version_def free_version_def)
qed

lemma docs_store:
  assumes "view_ok V" "puts_version r i old V"
  shows "v_docs (v_store r i old js v V) = (v_docs V)(r \<mapsto> (v, payload_of js old V))"
proof
  fix q
  let ?W = "v_store r i old js v V"
  have al: "is_direct_id q \<Longrightarrow> v_alive ?W q \<longleftrightarrow> q = r \<or> v_alive V q"
    by (rule store_alive [OF assms(1)]) (use assms(2) in \<open>auto simp: puts_version_def split: option.splits\<close>)
  show "v_docs ?W q = ((v_docs V)(r \<mapsto> (v, payload_of js old V))) q"
  proof (cases "q = r")
    case True
    have d: "is_direct_id r" using assms(2) by (simp add: puts_version_def free_version_def)
    have "v_vec V i = None" using assms(2) by (simp add: puts_version_def free_version_def)
    then have "v_row V i = None" using view_okD(6) [OF assms(1), of i] by blast
    then have "v_row ?W i = payload_of js old V"
      using puts_apart(1) [OF assms] by (auto simp: v_store_def payload_of_def split: option.splits)
    moreover have "v_vec ?W i = Some v" by (simp add: v_store_def)
    ultimately show ?thesis using True al d store_resolve [OF assms, of js v q] by (simp add: v_docs_def)
  next
    case False
    have "v_vec ?W (v_resolve V q) = v_vec V (v_resolve V q) \<and> v_row ?W (v_resolve V q) = v_row V (v_resolve V q)"
      if "is_direct_id q" "v_alive V q"
      using other_version [OF assms that(1) False that(2)] by (auto simp: v_store_def split: option.splits)
    then show ?thesis using False al store_resolve [OF assms, of js v q] by (cases "is_direct_id q") (simp_all add: v_docs_def)
  qed
qed

lemma card_docs_put: "card (dom (m(r \<mapsto> x))) = card (dom m) + (if m (r :: u64) = None then 1 else 0)"
proof -
  have "finite (dom m)" by simp
  then show ?thesis by (cases "m r") (auto simp: insert_absorb domIff)
qed

lemma view_ok_store:
  assumes "view_ok V" "puts_version r i old V"
  shows "view_ok (v_store r i old js v V)"
proof -
  let ?W = "v_store r i old js v V"
  note res = store_resolve [OF assms, of js v]
  have f: "is_direct_id r" "v_vec V i = None" "v_next V \<noteq> - 1" "i = v_next V \<or> (i = r \<and> \<not> v_alive V r)"
    using assms(2) by (auto simp: puts_version_def free_version_def)
  have d: "\<not> v_dead V i" using view_okD(5) [OF assms(1), of i] f(2) by blast
  have al: "is_direct_id q \<Longrightarrow> v_alive ?W q \<longleftrightarrow> q = r \<or> v_alive V q" for q
    by (rule store_alive [OF assms(1)]) (use assms(2) in \<open>auto simp: puts_version_def split: option.splits\<close>)
  have dead: "v_dead ?W n \<longleftrightarrow> v_dead V n \<or> old = Some n" for n by (auto simp: v_store_def split: option.splits)
  have nx: "v_next ?W = (if i = v_next V then v_next V + 1 else v_next V)"
    using f view_okD(4) [OF assms(1)] direct_not_update by (auto simp: v_store_def)
  note up = next_up [OF assms(1) f(3)]
  have upd: "i \<noteq> r \<Longrightarrow> i = v_next V \<and> is_update_id i" using f(4) view_okD(4) [OF assms(1)] by auto
  have I1: "is_direct_id q \<and> is_update_id (v_resolve ?W q) \<and> v_alive ?W q \<and> (v_dead ?W q \<or> v_vec ?W q = None)"
    if n: "v_resolve ?W q \<noteq> q" for q
  proof (cases "q = r")
    case True
    then have i: "i \<noteq> r" using n res by simp
    have "v_dead ?W r \<or> v_vec ?W r = None"
    proof (cases "v_resolve V r = r")
      case True
      show ?thesis
      proof (cases old)
        case None
        then have "\<not> v_alive V r" using assms(2) by (simp add: puts_version_def)
        then have "v_dead V r \<or> v_vec V r = None" using True by (auto simp: v_alive_def)
        then show ?thesis using i by (auto simp: dead) (simp add: v_store_def)
      next
        case (Some p)
        then have "old = Some r" using puts_apart(3) [OF assms Some] True by simp
        then show ?thesis using dead [of r] by blast
      qed
    next
      case False
      then have "v_dead V r \<or> v_vec V r = None" using view_okD(1) [OF assms(1), of r] by simp
      then show ?thesis using i by (auto simp: dead) (simp add: v_store_def)
    qed
    moreover have "v_resolve ?W r = i" "is_update_id i" "v_alive ?W r" using upd [OF i] al [OF f(1)] res by auto
    ultimately show ?thesis using True f(1) by simp
  next
    case False
    then have m: "v_resolve V q \<noteq> q" using n res by simp
    note D = view_okD(1) [OF assms(1) m]
    have "q \<noteq> i" using D False f(4) view_okD(4) [OF assms(1)] direct_not_update by auto
    then show ?thesis using D False al by (auto simp: res dead) (simp_all add: v_store_def)
  qed
  have I2: "p = q" if e: "v_resolve ?W p = v_resolve ?W q" "is_direct_id p" "is_direct_id q" for p q
  proof -
    have hit: "v_resolve V q' \<noteq> i" if "q' \<noteq> r" "is_direct_id q'" for q'
    proof
      assume a: "v_resolve V q' = i"
      have "\<not> v_alive V q'" using a f(2) by (auto simp: v_alive_def)
      then have "v_resolve V q' = q'" by (rule not_alive_self [OF assms(1)])
      then show False using a that f(4) view_okD(4) [OF assms(1)] direct_not_update by auto
    qed
    show ?thesis using e hit [of p] hit [of q] view_okD(2) [OF assms(1), of p q] by (auto simp: res split: if_splits)
  qed
  have I3: "n < v_next ?W" if "is_update_id n" "v_vec ?W n \<noteq> None" for n
  proof (cases "n = i")
    case True
    then have "i = v_next V" using that(1) f(1,4) direct_not_update by auto
    then show ?thesis using True nx up(1) by simp
  next
    case False
    then have "n < v_next V" using that view_okD(3) [OF assms(1), of n] by (simp add: v_store_def)
    then show ?thesis using nx up(1) by auto
  qed
  have I4: "v_vec ?W n \<noteq> None" if "v_dead ?W n" for n
    using that view_okD(5) [OF assms(1), of n] puts_apart(2) [OF assms, of n] by (auto simp: dead) (auto simp: v_store_def)
  have I5: "v_vec ?W n \<noteq> None \<and> \<not> v_dead ?W n" if "v_row ?W n \<noteq> None" for n
  proof (cases "n = i")
    case True
    then show ?thesis using d puts_apart(1) [OF assms, of i] by (auto simp: dead) (simp add: v_store_def)
  next
    case False
    then have "v_row V n \<noteq> None" "old \<noteq> Some n" using that by (auto simp: v_store_def split: option.splits if_splits)
    then show ?thesis using view_okD(6) [OF assms(1), of n] by (auto simp: dead) (auto simp: v_store_def)
  qed
  have I6: "v_live ?W = int (card (dom (v_docs ?W)))"
    unfolding docs_store [OF assms] card_docs_put using view_okD(7) [OF assms(1)] f(1) by (simp add: v_store_def v_docs_def)
  have I7: "is_update_id (v_next ?W)" using nx up(2) view_okD(4) [OF assms(1)] by simp
  show ?thesis unfolding view_ok_def using I1 I2 I3 I4 I5 I6 I7 by blast
qed

lemma delete_alive:
  assumes "view_ok V" "is_direct_id r" "i = v_resolve V r" "v_vec V i \<noteq> None" "is_direct_id q"
  shows "v_alive (v_delete r i V) q \<longleftrightarrow> q \<noteq> r \<and> v_alive V q"
proof (cases "q = r")
  case True
  have "i = r \<or> v_dead V r \<or> v_vec V r = None" using view_okD(1) [OF assms(1), of r] assms(3) by auto
  then show ?thesis using True by (auto simp: v_alive_def v_delete_def)
next
  case False
  then have "v_resolve V q \<noteq> i" using view_okD(2) [OF assms(1), of q r] assms(2,3,5) by auto
  then show ?thesis using False by (simp add: v_alive_def v_delete_def)
qed

lemma docs_delete:
  assumes "view_ok V" "is_direct_id r" "i = v_resolve V r" "v_vec V i \<noteq> None"
  shows "v_docs (v_delete r i V) = (v_docs V)(r := None)"
proof
  fix q
  show "v_docs (v_delete r i V) q = ((v_docs V)(r := None)) q"
  proof (cases "is_direct_id q \<and> q \<noteq> r")
    case True
    then have "v_resolve V q \<noteq> i" using view_okD(2) [OF assms(1), of q r] assms(2,3) by auto
    then have "v_vec (v_delete r i V) (v_resolve (v_delete r i V) q) = v_vec V (v_resolve V q)"
      "v_row (v_delete r i V) (v_resolve (v_delete r i V) q) = v_row V (v_resolve V q)"
      using True by (simp_all add: v_delete_def)
    then show ?thesis using True delete_alive [OF assms, of q] by (simp add: v_docs_def)
  next
    case False
    then show ?thesis using delete_alive [OF assms, of q] by (cases "is_direct_id q") (simp_all add: v_docs_def)
  qed
qed

lemma card_docs_delete: "int (card (dom (m(r := None)))) = int (card (dom m)) - (if m (r :: u64) = None then 0 else 1)"
proof (cases "m r")
  case None
  then have "m(r := None) = m" by (simp add: fun_upd_idem)
  then show ?thesis using None by simp
next
  case (Some x)
  have f: "finite (dom m)" by simp
  have "r \<in> dom m" using Some by blast
  then have "card (dom m) = Suc (card (dom m - {r}))" using card.remove [OF f] by simp
  then show ?thesis using Some by simp
qed

lemma view_ok_delete:
  assumes "view_ok V" "is_direct_id r" "i = v_resolve V r" "v_vec V i \<noteq> None"
  shows "view_ok (v_delete r i V)"
proof -
  let ?W = "v_delete r i V"
  have f: "v_resolve ?W q = (if q = r then r else v_resolve V q)" "v_dead ?W q \<longleftrightarrow> q = i \<or> v_dead V q"
    "v_vec ?W = v_vec V" "v_next ?W = v_next V" for q
    by (auto simp: v_delete_def)
  have I1: "is_direct_id q \<and> is_update_id (v_resolve ?W q) \<and> v_alive ?W q \<and> (v_dead ?W q \<or> v_vec ?W q = None)"
    if n: "v_resolve ?W q \<noteq> q" for q
  proof -
    have m: "v_resolve V q \<noteq> q" "q \<noteq> r" using n f(1) [of q] by (auto split: if_splits)
    note D = view_okD(1) [OF assms(1) m(1)]
    have "v_alive ?W q" using delete_alive [OF assms, of q] D m(2) by blast
    then show ?thesis using D m(2) f(2) [of q] by (simp add: f(1,3))
  qed
  have I2: "p = q" if e: "v_resolve ?W p = v_resolve ?W q" "is_direct_id p" "is_direct_id q" for p q
  proof -
    have "v_resolve V q' \<noteq> r" if "q' \<noteq> r" for q'
      using view_okD(1) [OF assms(1), of q'] that assms(2) direct_not_update by metis
    then show ?thesis using e view_okD(2) [OF assms(1), of p q] unfolding f(1) by metis
  qed
  have I3: "n < v_next ?W" if "is_update_id n" "v_vec ?W n \<noteq> None" for n
    using view_okD(3) [OF assms(1) that(1)] that(2) by (simp add: f)
  have I4: "v_vec ?W n \<noteq> None" if "v_dead ?W n" for n
    using that assms(4) view_okD(5) [OF assms(1), of n] f(2) [of n] unfolding f(3) by blast
  have I5: "v_vec ?W n \<noteq> None \<and> \<not> v_dead ?W n" if "v_row ?W n \<noteq> None" for n
  proof -
    have "v_row V n \<noteq> None" "n \<noteq> i" using that by (auto simp: v_delete_def split: if_splits)
    then show ?thesis using view_okD(6) [OF assms(1), of n] f(2) [of n] unfolding f(3) by blast
  qed
  have I6: "v_live ?W = int (card (dom (v_docs ?W)))"
    unfolding docs_delete [OF assms] card_docs_delete using view_okD(7) [OF assms(1)] assms(2)
    by (simp add: v_delete_def v_docs_def)
  show ?thesis unfolding view_ok_def using I1 I2 I3 I4 I5 I6 view_okD(4) [OF assms(1)] f(4) by simp
qed

text \<open>Together: a record that fits keeps the view in order, and acts on the documents as its type says.\<close>

definition docs_apply :: "float_ops \<Rightarrow> op_record \<Rightarrow> (real_id \<rightharpoonup> vec \<times> bytes option) \<Rightarrow> (real_id \<rightharpoonup> vec \<times> bytes option)" where
  "docs_apply F r m =
     (if op r = kOpDelete then m(real_id r := None)
      else m(real_id r \<mapsto> (disk_dequantize F (recbytes r),
        if payload r \<noteq> [] then Some (payload r) else Option.bind (m (real_id r)) snd)))"

lemma fits_puts:
  assumes "view_ok V" "rec_fits dims r V"
  shows "op r = kOpInsert \<Longrightarrow> puts_version (real_id r) (internal_id r) None V"
    "op r = kOpUpdate \<Longrightarrow> puts_version (real_id r) (internal_id r) (Some (aux r)) V"
  using fits_version [OF assms] assms(2) by (simp_all add: puts_version_def rec_fits_def)

lemma fits_apply:
  assumes "view_ok V" "rec_fits dims r V"
  shows "view_ok (v_apply F r V)" "v_docs (v_apply F r V) = docs_apply F r (v_docs V)"
proof -
  have d: "is_direct_id (real_id r)" using assms(2) by (simp add: rec_fits_def)
  have "view_ok (v_apply F r V) \<and> v_docs (v_apply F r V) = docs_apply F r (v_docs V)"
  proof (cases "op r = kOpDelete")
    case True
    then have h: "internal_id r = v_resolve V (real_id r)" "v_vec V (internal_id r) \<noteq> None"
      using assms(2) by (simp_all add: rec_fits_def)
    show ?thesis using True view_ok_delete [OF assms(1) d h] docs_delete [OF assms(1) d h]
      by (simp add: v_apply_def docs_apply_def)
  next
    case False
    then consider "op r = kOpInsert" | "op r = kOpUpdate" using assms(2) by (auto simp: rec_fits_def split: if_splits)
    then show ?thesis
    proof cases
      case 1
      have "\<not> v_alive V (real_id r)" using 1 assms(2) by (simp add: rec_fits_def)
      then have "v_docs V (real_id r) = None" by (simp add: v_docs_def)
      then show ?thesis using 1 view_ok_store [OF assms(1) fits_puts(1) [OF assms 1]] docs_store [OF assms(1) fits_puts(1) [OF assms 1]]
        by (simp add: v_apply_def docs_apply_def payload_of_def)
    next
      case 2
      have "v_alive V (real_id r)" "aux r = v_resolve V (real_id r)" using 2 assms(2) by (simp_all add: rec_fits_def)
      then have "Option.bind (v_docs V (real_id r)) snd = v_row V (aux r)" using d by (simp add: v_docs_def)
      then show ?thesis using 2 view_ok_store [OF assms(1) fits_puts(2) [OF assms 2]] docs_store [OF assms(1) fits_puts(2) [OF assms 2]]
        by (simp add: v_apply_def docs_apply_def payload_of_def)
    qed
  qed
  then show "view_ok (v_apply F r V)" "v_docs (v_apply F r V) = docs_apply F r (v_docs V)" by blast+
qed

end
