(* ===== verification/Db_Calls.thy ===== *)
theory Db_Calls
  imports Db_View
begin

text \<open>
  The calls of the engine implement \<open>v_apply\<close>: a successful insert, update or delete has the effect of
  the record it logged. The locale \<open>database\<close> collects what the engine relies on: the graph
  database, the parts of the index, the payload store, whose reads do not fail.
\<close>

subsection \<open>The interface of the parts\<close>

definition log_holds :: "u64 \<Rightarrow> ('g, 'db) db \<Rightarrow> op_record list \<Rightarrow> bool" where
  "log_holds b d rs \<longleftrightarrow> (\<exists>lg. db_oplog d = Some lg \<and> log_ok b lg \<and> log_accepted b (log_segs lg) = rs)"

text \<open>Nothing but the log and the counters differ.\<close>

definition same_data :: "('g, 'db) db \<Rightarrow> ('g, 'db) db \<Rightarrow> bool" where
  "same_data d d' \<longleftrightarrow> db_ix d' = db_ix d \<and> db_meta d' = db_meta d \<and> db_live d' = db_live d"

definition store_ok ::
  "('g, 'db) db_env \<Rightarrow> ('g \<Rightarrow> node_id \<rightharpoonup> node_id list) \<Rightarrow> ('g \<Rightarrow> bool) \<Rightarrow> ('g, 'db) db \<Rightarrow> bool" where
  "store_ok E vertex sound d \<longleftrightarrow> engine_ok (de_ix E) (de_medium E) vertex sound (db_ix d) \<and> id_map_ok (db_ids d)
     \<and> (\<forall>n. vs_exists (ev_vs (de_ix E)) n (ix_vs (db_ix d)) \<longleftrightarrow> contents (de_ix E) (db_ix d) n \<noteq> None) \<and> db_meta d \<noteq> None"

text \<open>Room for one more record: a page, an update id, an lsn.\<close>

definition has_room :: "('g, 'db) db \<Rightarrow> bool" where
  "has_room d \<longleftrightarrow> length (ps_pages (ix_vs (db_ix d))) < 2 ^ 31 \<and> next_update_internal_id (db_ids d) \<noteq> - 1
     \<and> (\<forall>lg. db_oplog d = Some lg \<longrightarrow> next_lsn lg \<noteq> - 1)"

abbreviation set_ix :: "(paged_store, 'g) index \<Rightarrow> ('g, 'db) db \<Rightarrow> ('g, 'db) db" where
  "set_ix ix d \<equiv> d\<lparr>db_index := (db_index d)\<lparr>si_ix := ix\<rparr>\<rparr>"

lemma contents_ids [simp]: "contents E (ix_ids_update f ix) = contents E ix"
  by (simp add: contents_def)

lemma engine_ok_ids [simp]: "engine_ok E io vertex sound (ix_ids_update f ix) = engine_ok E io vertex sound ix"
  by (simp add: engine_ok_def index_ok_def)

lemma resolve_next [simp]: "resolve_internal (m\<lparr>next_update_internal_id := k\<rparr>) = resolve_internal m"
  by (simp add: resolve_internal_def fun_eq_iff)

lemma dead_next [simp]: "is_tombstoned (m\<lparr>next_update_internal_id := k\<rparr>) = is_tombstoned m"
  by (simp add: is_tombstoned_def fun_eq_iff)

lemma dead_record [simp]: "is_tombstoned (record_update_mapping lg r i m) = is_tombstoned m"
  by (simp add: is_tombstoned_def record_fields fun_eq_iff)

lemma on_ids_eq: "on_ids f d = Some (Inr (), set_ix (ix_ids_update f (db_ix d)) d)"
  by (simp add: on_ids_def on_index_def modify_def)

lemma wp_on_ids: "P () (set_ix (ix_ids_update f (db_ix d)) d) \<Longrightarrow> wp (on_ids f) d P Q"
  by (simp add: wp_def on_ids_eq)

lemma wp_allocate_id:
  assumes "P (next_update_internal_id (db_ids d))
     (set_ix ((db_ix d)\<lparr>ix_ids := (db_ids d)\<lparr>next_update_internal_id := next_update_internal_id (db_ids d) + 1\<rparr>\<rparr>) d)"
  shows "wp (on_index (upd (\<lambda>ix. case allocate_update_id (ix_ids ix) of (i, m) \<Rightarrow> (i, ix\<lparr>ix_ids := m\<rparr>)))) d P Q"
  using assms by (simp add: wp_def on_index_def upd_def allocate_update_id_def)

lemma wp_on_meta:
  assumes "db_meta d = Some s" "\<And>a s'. f s = (a, s') \<Longrightarrow> P a (d\<lparr>db_meta := Some s'\<rparr>)"
  shows "wp (on_meta f) d P Q"
  using assms by (cases "f s") (simp add: wp_def on_meta_def)

lemma wp_ok_then: "wp m d (\<lambda>st d'. if st \<noteq> OK then P st d' else wp k d' P Q) Q \<Longrightarrow> wp (ok_then m k) d P Q"
  unfolding ok_then_def by (rule wp_bnd) (erule wp_conseq, auto simp: wp_ret split: if_splits)

lemma wp_got_then:
  "wp m d (\<lambda>r d'. case r of Inl st \<Rightarrow> P st d' | Inr a \<Rightarrow> wp (k a) d' P Q) Q \<Longrightarrow> wp (got_then m k) d P Q"
  unfolding got_then_def by (rule wp_bnd) (erule wp_conseq, auto simp: wp_ret split: sum.splits)

text \<open>The log takes the record, or the call fails and only the log has changed.\<close>

definition logged :: "op_record \<Rightarrow> ('g, 'db) db \<Rightarrow> ('g, 'db) db \<Rightarrow> bool" where
  "logged rec d d' \<longleftrightarrow> (\<forall>b rs. log_holds b d rs \<longrightarrow> (\<exists>l. log_holds b d' (rs @ [rec\<lparr>lsn := l\<rparr>])))
     \<and> (db_oplog d = None \<longrightarrow> db_oplog d' = None)"

lemma wp_on_log:
  assumes "db_oplog d = Some lg"
    "\<And>a lg'. f (de_log_io E (db_log_calls d)) lg = (a, lg') \<Longrightarrow> P a (d\<lparr>db_oplog := Some lg', db_log_calls := db_log_calls d + 1\<rparr>)"
  shows "wp (on_log E f) d P Q"
  using assms by (cases "f (de_log_io E (db_log_calls d)) lg") (simp add: wp_def on_log_def)

lemma count_op_same: "db_index (count_op E d) = db_index d" "db_meta (count_op E d) = db_meta d" "db_live (count_op E d) = db_live d"
  "db_oplog (count_op E d) = db_oplog d"
  by (simp_all add: count_op_def)

lemma append_status: "log_append io r lg = (Inl st, lg') \<Longrightarrow> st \<noteq> OK"
  by (auto simp: log_append_def Let_def split: if_splits prod.splits option.splits)

lemma wp_logOp:
  assumes room: "\<forall>lg. db_oplog d = Some lg \<longrightarrow> next_lsn lg \<noteq> - 1"
    and P: "\<And>res d'. db_index d' = db_index d \<Longrightarrow> db_meta d' = db_meta d \<Longrightarrow> db_live d' = db_live d \<Longrightarrow>
      (\<And>l enc. res = Inr (l, enc) \<Longrightarrow> (enc = None \<or> enc = Some (vs_encode (ev_vs (de_ix E)) v))
         \<and> logged (make_record E ty r i old v js key) d d') \<Longrightarrow> res \<noteq> Inl OK \<Longrightarrow> P res d'"
  shows "wp (logOp E ty r i old v js key) d P Q"
proof -
  let ?d = "count_op E d" and ?rec = "make_record E ty r i old v js key"
  show ?thesis
  proof (cases "db_oplog d")
    case None
    have "P (Inr (0, None)) ?d" by (rule P) (auto simp: count_op_same logged_def log_holds_def None)
    then show ?thesis unfolding logOp_def by (intro wp_bnd wp_modify wp_get) (simp add: count_op_same None wp_ret)
  next
    case (Some lg)
    have step: "P (case res of Inl st \<Rightarrow> Inl st | Inr l \<Rightarrow> Inr (l, if v = [] then None else Some (vs_encode (ev_vs (de_ix E)) v)))
        (?d\<lparr>db_oplog := Some lg', db_log_calls := db_log_calls ?d + 1\<rparr>)"
      if a: "log_append (de_log_io E (db_log_calls ?d)) ?rec lg = (res, lg')" for res lg'
    proof (rule P)
      fix l enc assume "(case res of Inl st \<Rightarrow> Inl st | Inr l \<Rightarrow> Inr (l, if v = [] then None else Some (vs_encode (ev_vs (de_ix E)) v))) = Inr (l, enc)"
      then have res: "res = Inr l" "enc = (if v = [] then None else Some (vs_encode (ev_vs (de_ix E)) v))" by (auto split: sum.splits)
      have "\<exists>l. log_holds b (?d\<lparr>db_oplog := Some lg', db_log_calls := db_log_calls ?d + 1\<rparr>) (rs @ [?rec\<lparr>lsn := l\<rparr>])"
        if "log_holds b d rs" for b rs
      proof -
        have h: "log_ok b lg" "log_accepted b (log_segs lg) = rs" using that Some by (auto simp: log_holds_def)
        note A = log_append_ok [OF h(1) _ a [unfolded res(1)]]
        show ?thesis using A h(2) room Some by (auto simp: log_holds_def)
      qed
      then show "(enc = None \<or> enc = Some (vs_encode (ev_vs (de_ix E)) v))
          \<and> logged ?rec d (?d\<lparr>db_oplog := Some lg', db_log_calls := db_log_calls ?d + 1\<rparr>)"
        using res(2) Some by (auto simp: logged_def)
    next
      show "(case res of Inl st \<Rightarrow> Inl st | Inr l \<Rightarrow> Inr (l, if v = [] then None else Some (vs_encode (ev_vs (de_ix E)) v))) \<noteq> Inl OK"
        using append_status a by (cases res) auto
    qed (simp_all add: count_op_same)
    have "wp (on_log E (\<lambda>io. log_append io ?rec)) ?d (\<lambda>res d'. P (case res of Inl st \<Rightarrow> Inl st
        | Inr l \<Rightarrow> Inr (l, if v = [] then None else Some (vs_encode (ev_vs (de_ix E)) v))) d') Q"
      by (rule wp_on_log [where lg = lg]) (use Some step in \<open>simp_all add: count_op_same\<close>)
    then have "wp (bnd (on_log E (\<lambda>io. log_append io ?rec)) (\<lambda>res. ret (case res of Inl st \<Rightarrow> Inl st
        | Inr l \<Rightarrow> Inr (l, if v = [] then None else Some (vs_encode (ev_vs (de_ix E)) v))))) ?d P Q"
      by (rule wp_bnd [OF wp_conseq]) (erule wp_ret, assumption)
    then show ?thesis unfolding logOp_def
      by (intro wp_bnd wp_modify wp_get) (simp only: count_op_same Some option.distinct if_False)
  qed
qed

lemma wp_logAbort:
  assumes "\<And>d'. db_index d' = db_index d \<Longrightarrow> db_meta d' = db_meta d \<Longrightarrow> db_live d' = db_live d \<Longrightarrow> P () d'"
  shows "wp (logAbort E l) d P Q"
proof (cases "db_oplog d")
  case None
  then show ?thesis unfolding logAbort_def using assms by (intro wp_bnd wp_get) (simp add: wp_ret)
next
  case (Some lg)
  then show ?thesis unfolding logAbort_def using assms [of d]
    by (intro wp_bnd wp_get) (auto intro!: wp_bnd wp_ret wp_on_log [OF Some] assms)
qed

lemma alive_writes [simp]: "alive_in E r (db_writes_update f d) = alive_in E r d"
  by (simp add: alive_in_def)

lemma putDense_update:
  "wp (putDense E True r v js key) d P Q = wp
     (if r > kMaxRealId then ret InvalidArgument
      else if ValidateVector E v \<noteq> OK then ret (ValidateVector E v)
      else if js \<noteq> [] \<and> parse_status (ParseMetadataObject E js) \<noteq> OK then ret (parse_status (ParseMetadataObject E js))
      else if \<not> alive_in E r d then putDense E False r v js key
      else updateAlive E r v js key) (db_writes_update Suc d) P Q"
  unfolding wp_def by (subst putDense.simps) (simp add: bnd_def modify_def)

lemma putDense_insert:
  "wp (putDense E False r v js key) d P Q = wp
     (if validateInsertArgs E v js \<noteq> OK then ret (validateInsertArgs E v js)
      else if alive_in E r d then putDense E True r v js key
      else insertFresh E r v js key) (db_writes_update Suc d) P Q"
  unfolding wp_def by (subst putDense.simps) (simp add: bnd_def modify_def)

locale database =
  fixes E :: "('g, 'db) db_env" and rg :: "'g rocks_graph" and vertex :: "'g \<Rightarrow> node_id \<rightharpoonup> node_id list"
    and sound :: "'g \<Rightarrow> bool" and vw :: "'db \<Rightarrow> kv_view"
  assumes graph: "rocks_graph rg vertex sound" and parts: "engine (de_medium E) rg (de_ix E)"
    and degrees: "ev_m (de_ix E) \<le> ev_m_max (de_ix E)" and levels: "0 \<le> de_level E n"
    and kv: "kv_contract (de_kv E) vw" and reads: "kv_get (de_kv E) s c k = Inl e \<Longrightarrow> e = NotFound"
    and writes: "fst (kv_write (de_kv E) ops s) \<noteq> NotFound" and dims: "0 < ev_dim (de_ix E)"
begin

abbreviation view :: "('g, 'db) db \<Rightarrow> dview" where
  "view \<equiv> db_view E vw"

abbreviation ok :: "('g, 'db) db \<Rightarrow> bool" where
  "ok \<equiv> store_ok E vertex sound"

abbreviation encoded :: "vec \<Rightarrow> bytes" where
  "encoded \<equiv> disk_quantize (ev_fl (de_ix E))"

abbreviation decoded :: "bytes \<Rightarrow> vec" where
  "decoded \<equiv> disk_dequantize (ev_fl (de_ix E))"

lemma stores: "ev_vs (de_ix E) = paged_ops (ev_dim (de_ix E)) (ev_fl (de_ix E)) (de_medium E)"
  using parts by (simp add: engine_def)

lemma encode_eq [simp]: "vs_encode (ev_vs (de_ix E)) = encoded" "vs_decode (ev_vs (de_ix E)) = decoded"
  "vs_record_size (ev_vs (de_ix E)) = ev_dim (de_ix E) + 8"
  by (simp_all add: stores paged_ops_sel)

lemma same_dataD:
  assumes "same_data d d'"
  shows "view d' = view d" "ok d' = ok d"
  using assms by (simp_all add: same_data_def db_view_def store_ok_def)

lemma alive_view: "ok d \<Longrightarrow> alive_in E r d \<longleftrightarrow> v_alive (view d) r"
  by (auto simp: alive_in_def is_alive_def v_alive_def db_view_def store_ok_def Let_def)

text \<open>An insertion: other versions are as before.\<close>

lemma insert_effect:
  assumes "engine_ok (de_ix E) (de_medium E) vertex sound ix" "contents (de_ix E) ix n = None" "n \<noteq> k_invalid_node_id"
    "length (ps_pages (ix_vs ix)) < 2 ^ 31" "length v = ev_dim (de_ix E)" "enc = None \<or> enc = Some b \<and> length b = ev_dim (de_ix E) + 8"
  shows "\<exists>st ix'. insertNode (de_ix E) (de_level E k) n v enc ix = Some (Inr st, ix')
    \<and> engine_ok (de_ix E) (de_medium E) vertex sound ix' \<and> ix_ids ix' = ix_ids ix
    \<and> (\<forall>m. m \<noteq> n \<longrightarrow> contents (de_ix E) ix' m = contents (de_ix E) ix m
         \<and> vs_exists (ev_vs (de_ix E)) m (ix_vs ix') = vs_exists (ev_vs (de_ix E)) m (ix_vs ix))
    \<and> (st = OK \<longrightarrow> contents (de_ix E) ix' n = Some (recorded (de_ix E) v enc) \<and> vs_exists (ev_vs (de_ix E)) n (ix_vs ix'))"
proof -
  note H = paged_hnsw [OF graph parts]
  note ok = assms(1) [unfolded engine_ok_def]
  have r: "stored_vector (de_ix E) v enc = recorded (de_ix E) v enc"
    by (simp add: stored_vector_def recorded_def stores paged_ops_def split: option.split)
  have "hnsw.room (de_ix E) (paged_ok (ev_dim (de_ix E)) (de_medium E)) (paged_view (ev_fl (de_ix E))) paged_writable (neighbours vertex) sound n v enc ix"
    using assms(2-6) ok
    by (auto simp: hnsw.room_def [OF H] paged_writable_def contents_def paged_view_def split: option.splits if_splits)
  then have "\<exists>st ix'. insertNode (de_ix E) (de_level E k) n v enc ix = Some (Inr st, ix')
      \<and> hnsw.inserted (de_ix E) (paged_ok (ev_dim (de_ix E)) (de_medium E)) (paged_view (ev_fl (de_ix E))) (neighbours vertex) sound n v enc ix st ix'"
    using hnsw.wp_insertNode [OF H _ _ degrees] levels by (intro wp_returns) auto
  then show ?thesis
    by (auto simp: hnsw.inserted_def [OF H] hnsw.apart_def [OF H] hnsw.holds_def [OF H] engine_ok_def contents_def r)
qed

lemma wp_try_insert:
  assumes "engine_ok (de_ix E) (de_medium E) vertex sound (db_ix d)" "contents (de_ix E) (db_ix d) n = None" "n \<noteq> k_invalid_node_id"
    "length (ps_pages (ix_vs (db_ix d))) < 2 ^ 31" "length v = ev_dim (de_ix E)" "enc = None \<or> enc = Some b \<and> length b = ev_dim (de_ix E) + 8"
    and "\<And>st ix. (st = OK \<Longrightarrow> engine_ok (de_ix E) (de_medium E) vertex sound ix \<and> ix_ids ix = db_ids d
        \<and> contents (de_ix E) ix = (contents (de_ix E) (db_ix d))(n \<mapsto> recorded (de_ix E) v enc)
        \<and> (\<forall>m. vs_exists (ev_vs (de_ix E)) m (ix_vs ix) \<longleftrightarrow> m = n \<or> vs_exists (ev_vs (de_ix E)) m (ix_vs (db_ix d)))) \<Longrightarrow> P st (set_ix ix d)"
  shows "wp (try_insert E n v enc) d P Q"
proof -
  obtain st ix where i: "insertNode (de_ix E) (de_level E (ix_inserts (db_ix d))) n v enc (db_ix d) = Some (Inr st, ix)"
    "engine_ok (de_ix E) (de_medium E) vertex sound ix" "ix_ids ix = db_ids d"
    "\<forall>m. m \<noteq> n \<longrightarrow> contents (de_ix E) ix m = contents (de_ix E) (db_ix d) m
         \<and> vs_exists (ev_vs (de_ix E)) m (ix_vs ix) = vs_exists (ev_vs (de_ix E)) m (ix_vs (db_ix d))"
    "st = OK \<longrightarrow> contents (de_ix E) ix n = Some (recorded (de_ix E) v enc) \<and> vs_exists (ev_vs (de_ix E)) n (ix_vs ix)"
    using insert_effect [OF assms(1-6)] by blast
  have "P st (set_ix ix d)"
  proof (rule assms(7))
    assume st: "st = OK"
    have "contents (de_ix E) ix m = ((contents (de_ix E) (db_ix d))(n \<mapsto> recorded (de_ix E) v enc)) m" for m
      using i(4,5) st by (cases "m = n") simp_all
    moreover have "vs_exists (ev_vs (de_ix E)) m (ix_vs ix) \<longleftrightarrow> m = n \<or> vs_exists (ev_vs (de_ix E)) m (ix_vs (db_ix d))" for m
      using i(4,5) st by (cases "m = n") simp_all
    ultimately show "engine_ok (de_ix E) (de_medium E) vertex sound ix \<and> ix_ids ix = db_ids d
        \<and> contents (de_ix E) ix = (contents (de_ix E) (db_ix d))(n \<mapsto> recorded (de_ix E) v enc)
        \<and> (\<forall>m. vs_exists (ev_vs (de_ix E)) m (ix_vs ix) \<longleftrightarrow> m = n \<or> vs_exists (ev_vs (de_ix E)) m (ix_vs (db_ix d)))"
      using i(2,3) by blast
  qed
  then show ?thesis by (simp add: wp_def try_insert_def catching_def on_index_def i(1))
qed

text \<open>The payload store by its rows.\<close>

lemma wp_put_row:
  assumes "db_meta d = Some s" "\<And>st s'. (st = OK \<Longrightarrow> row (vw (ms_db s')) = (row (vw (ms_db s)))(i \<mapsto> js)) \<Longrightarrow> P st (d\<lparr>db_meta := Some s'\<rparr>)"
  shows "wp (on_meta (ms_put (de_kv E) i js)) d P Q"
proof (rule wp_on_meta [OF assms(1)], rule assms(2))
  fix st s' assume "ms_put (de_kv E) i js s = (st, s')" "st = OK"
  then show "row (vw (ms_db s')) = (row (vw (ms_db s)))(i \<mapsto> js)"
    using kv_write_OKD [OF kv, of "[(CfMeta, encode_key i, Some js)]" "ms_db s"] by (auto simp: ms_put_def split: prod.splits)
qed

lemma wp_get_row:
  assumes "db_meta d = Some s"
    "\<And>s'. ms_db s' = ms_db s \<Longrightarrow> P (case row (vw (ms_db s)) i of None \<Rightarrow> Inl NotFound | Some js \<Rightarrow> Inr js) (d\<lparr>db_meta := Some s'\<rparr>)"
  shows "wp (on_meta (ms_get (de_kv E) i)) d P Q"
proof (rule wp_on_meta [OF assms(1)])
  have k: "kv_get (de_kv E) (ms_db s) CfMeta (encode_key i) = (case row (vw (ms_db s)) i of None \<Rightarrow> Inl NotFound | Some js \<Rightarrow> Inr js)"
  proof (cases "kv_get (de_kv E) (ms_db s) CfMeta (encode_key i)")
    case (Inl e)
    then show ?thesis using reads [OF Inl] kv_get_InlD [OF kv Inl] by (simp add: row_def)
  next
    case (Inr js)
    then show ?thesis using kv_get_InrD [OF kv Inr] by (simp add: row_def)
  qed
  fix a s' assume g: "ms_get (de_kv E) i s = (a, s')"
  then have "ms_db s' = ms_db s" "a = (case row (vw (ms_db s)) i of None \<Rightarrow> Inl NotFound | Some js \<Rightarrow> Inr js)"
    by (auto simp: ms_get_def Let_def k)
  then show "P a (d\<lparr>db_meta := Some s'\<rparr>)" using assms(2) [of s'] by simp
qed

lemma wp_delete_row:
  assumes "db_meta d = Some s" "\<And>st s'. (st = OK \<Longrightarrow> row (vw (ms_db s')) = (row (vw (ms_db s)))(i := None)) \<Longrightarrow> P st (d\<lparr>db_meta := Some s'\<rparr>)"
  shows "wp (bnd (on_meta (ms_delete (de_kv E) i)) (\<lambda>st. ret (if st \<noteq> OK \<and> st \<noteq> NotFound then st else OK))) d P Q"
proof (rule wp_bnd, rule wp_on_meta [OF assms(1)], rule wp_ret, rule assms(2))
  fix st s' assume g: "ms_delete (de_kv E) i s = (st, s')" "(if st \<noteq> OK \<and> st \<noteq> NotFound then st else OK) = OK"
  have "st \<noteq> NotFound" using g(1) writes [of "[(CfMeta, encode_key i, None)]" "ms_db s"] by (auto simp: ms_delete_def split: prod.splits)
  then have "st = OK" using g(2) by (simp split: if_splits)
  then show "row (vw (ms_db s')) = (row (vw (ms_db s)))(i := None)"
    using g kv_write_OKD [OF kv, of "[(CfMeta, encode_key i, None)]" "ms_db s"] by (auto simp: ms_delete_def split: prod.splits)
qed

text \<open>The vector of an operation is stored, or the operation fails.\<close>

lemma wp_store_node:
  assumes "engine_ok (de_ix E) (de_medium E) vertex sound (db_ix d)" "contents (de_ix E) (db_ix d) n = None" "n \<noteq> k_invalid_node_id"
    "length (ps_pages (ix_vs (db_ix d))) < 2 ^ 31" "length v = ev_dim (de_ix E)" "enc = None \<or> enc = Some (encoded v)"
    and stored: "\<And>ix. engine_ok (de_ix E) (de_medium E) vertex sound ix \<Longrightarrow> ix_ids ix = db_ids d \<Longrightarrow>
        contents (de_ix E) ix = (contents (de_ix E) (db_ix d))(n \<mapsto> decoded (encoded v)) \<Longrightarrow>
        (\<And>m. vs_exists (ev_vs (de_ix E)) m (ix_vs ix) \<longleftrightarrow> m = n \<or> vs_exists (ev_vs (de_ix E)) m (ix_vs (db_ix d))) \<Longrightarrow> P OK (set_ix ix d)"
    and failed: "\<And>st d'. st \<noteq> OK \<Longrightarrow> P st d'"
  shows "wp (store_node E n v enc l) d P Q"
  unfolding store_node_def
proof (rule wp_bnd, rule wp_try_insert [OF assms(1-5)])
  show "enc = None \<or> enc = Some (encoded v) \<and> length (encoded v) = ev_dim (de_ix E) + 8" using assms(5,6) by auto
  have r: "recorded (de_ix E) v enc = decoded (encoded v)" using assms(6) by (auto simp: recorded_def)
  fix st ix assume i: "st = OK \<Longrightarrow> engine_ok (de_ix E) (de_medium E) vertex sound ix \<and> ix_ids ix = db_ids d
        \<and> contents (de_ix E) ix = (contents (de_ix E) (db_ix d))(n \<mapsto> recorded (de_ix E) v enc)
        \<and> (\<forall>m. vs_exists (ev_vs (de_ix E)) m (ix_vs ix) \<longleftrightarrow> m = n \<or> vs_exists (ev_vs (de_ix E)) m (ix_vs (db_ix d)))"
  show "wp (if st \<noteq> OK then bnd (logAbort E l) (\<lambda>_. ret st) else ret OK) (set_ix ix d) P Q"
  proof (cases "st = OK")
    case True
    then show ?thesis using stored [of ix] i r by (auto intro!: wp_ret)
  next
    case False
    then show ?thesis using failed [OF False] by (auto intro!: wp_bnd wp_logAbort wp_ret)
  qed
qed

text \<open>A step behind the log entry.\<close>

lemma wp_log_then:
  assumes "\<forall>lg. db_oplog d = Some lg \<longrightarrow> next_lsn lg \<noteq> - 1" "\<And>st d'. st \<noteq> OK \<Longrightarrow> P st d'"
    and "\<And>d' l enc. db_index d' = db_index d \<Longrightarrow> db_meta d' = db_meta d \<Longrightarrow> db_live d' = db_live d \<Longrightarrow>
      enc = None \<or> enc = Some (encoded v) \<Longrightarrow> logged (make_record E ty r i old v js key) d d' \<Longrightarrow> wp (k l enc) d' P Q"
  shows "wp (got_then (logOp E ty r i old v js key) (\<lambda>(l, enc). k l enc)) d P Q"
  by (rule wp_got_then, rule wp_logOp [OF assms(1)]) (auto split: sum.splits intro: assms(2,3))

lemma make_record_sel [simp]:
  "op (make_record E ty r i old v js key) = ty" "real_id (make_record E ty r i old v js key) = r"
  "internal_id (make_record E ty r i old v js key) = i" "aux (make_record E ty r i old v js key) = old"
  "payload (make_record E ty r i old v js key) = js" "reckey (make_record E ty r i old v js key) = key"
  "v \<noteq> [] \<Longrightarrow> recbytes (make_record E ty r i old v js key) = encoded v"
  "v \<noteq> [] \<Longrightarrow> encoding (make_record E ty r i old v js key) = kEncodingSQ8"
  by (simp_all add: make_record_def)

text \<open>A call had the effect of the record.\<close>

definition effect :: "op_record \<Rightarrow> ('g, 'db) db \<Rightarrow> ('g, 'db) db \<Rightarrow> bool" where
  "effect rec d d' \<longleftrightarrow> ok d' \<and> view d' = v_apply (ev_fl (de_ix E)) rec (view d) \<and> logged rec d d'"

lemma oplog_logged: "logged rec d1 d2 \<Longrightarrow> db_oplog d1 = db_oplog d \<Longrightarrow> db_oplog d' = db_oplog d2 \<Longrightarrow> logged rec d d'"
  by (simp add: logged_def log_holds_def)

lemma okD:
  assumes "ok d"
  shows "engine_ok (de_ix E) (de_medium E) vertex sound (db_ix d)" "id_map_ok (db_ids d)"
    "vs_exists (ev_vs (de_ix E)) n (ix_vs (db_ix d)) \<longleftrightarrow> contents (de_ix E) (db_ix d) n \<noteq> None"
  using assms by (simp_all add: store_ok_def)

lemma next_valid: "view_ok V \<Longrightarrow> is_direct_id r \<Longrightarrow> r \<noteq> k_invalid_node_id"
  using is_update_minus_one direct_not_update by (auto simp: k_invalid_node_id_def)

lemma insertFresh_effect:
  assumes ok: "ok d" and V: "view_ok (view d)" and r: "is_direct_id r" "\<not> v_alive (view d) r" and room: "next_update_internal_id (db_ids d) \<noteq> - 1"
    and i: "i = (if v_dead (view d) r then v_next (view d) else r)"
    and ix: "engine_ok (de_ix E) (de_medium E) vertex sound ix"
      "ix_ids ix = (if v_dead (view d) r then record_update_mapping lg r i ((db_ids d)\<lparr>next_update_internal_id := i + 1\<rparr>) else db_ids d)"
      "contents (de_ix E) ix = (contents (de_ix E) (db_ix d))(i \<mapsto> w)"
      "\<And>m. vs_exists (ev_vs (de_ix E)) m (ix_vs ix) \<longleftrightarrow> m = i \<or> vs_exists (ev_vs (de_ix E)) m (ix_vs (db_ix d))"
    and d': "db_ix d' = ix" "db_meta d' \<noteq> None" "db_live d' = db_live d + 1"
      "rows_of vw (db_meta d') = (if js \<noteq> [] then (rows_of vw (db_meta d))(i \<mapsto> js) else rows_of vw (db_meta d))"
  shows "ok d'" "view d' = v_store r i None js w (view d)"
proof -
  note O = okD [OF ok]
  have ids: "id_map_ok ((db_ids d)\<lparr>next_update_internal_id := next_update_internal_id (db_ids d) + 1\<rparr>)"
    using allocate_ok(1) [OF O(2) _ room] by (simp add: allocate_update_id_def)
  have n: "i = next_update_internal_id (db_ids d)" "is_update_id i" if "v_dead (view d) r"
    using that i view_okD(4) [OF V] by (simp_all add: db_view_def)
  have iu: "is_update_id i \<longleftrightarrow> v_dead (view d) r" using n(2) i direct_not_update [OF r(1)] by auto
  have m: "id_map_ok (ix_ids ix)"
  proof (cases "v_dead (view d) r")
    case True
    have "i < i + 1" using room n(1) [OF True] by (simp add: word_less_plus_1)
    then show ?thesis using True ix(2) ids n [OF True] fresh_next [OF O(2)] by (simp add: record_ok)
  qed (simp add: ix(2) O(2))
  show "ok d'" unfolding store_ok_def using ix(1,3,4) m d'(1,2) O(3) by simp
  have res: "resolve_internal (ix_ids ix) = (if is_update_id i then (resolve_internal (db_ids d))(r := i) else resolve_internal (db_ids d))"
  proof (cases "v_dead (view d) r")
    case True
    have "bloom_covers ((db_ids d)\<lparr>next_update_internal_id := i + 1\<rparr>)" using ids n(1) [OF True] by (simp add: id_map_ok_def)
    then show ?thesis using True iu by (simp add: ix(2) resolve_after_record fun_eq_iff)
  qed (use iu in \<open>simp add: ix(2)\<close>)
  show "view d' = v_store r i None js w (view d)"
    using iu n(1) r(2)
    by (simp add: v_store_def db_view_def d' res ix(3))
      (auto simp: ix(2) record_fields db_view_def)
qed

text \<open>A payload, where there is one, becomes the row of its version.\<close>

lemma wp_put_payload:
  assumes "db_meta d \<noteq> None"
    "\<And>st s'. (st = OK \<Longrightarrow> rows_of vw (Some s') = (if js \<noteq> [] then (rows_of vw (db_meta d))(i \<mapsto> js) else rows_of vw (db_meta d))) \<Longrightarrow>
       P st (d\<lparr>db_meta := Some s'\<rparr>)"
  shows "wp (bnd (get (\<lambda>d. db_meta d = None)) (\<lambda>none. if js \<noteq> [] \<and> \<not> none then on_meta (ms_put (de_kv E) i js) else ret OK)) d P Q"
proof -
  obtain s where s: "db_meta d = Some s" using assms(1) by blast
  show ?thesis
  proof (rule wp_bnd, rule wp_get, cases "js = []")
    case True
    have "P OK (d\<lparr>db_meta := Some s\<rparr>)" by (rule assms(2)) (simp add: True s)
    moreover have "d\<lparr>db_meta := Some s\<rparr> = d" using s by (cases d) simp
    ultimately have "P OK d" by simp
    then show "wp (if js \<noteq> [] \<and> db_meta d \<noteq> None then on_meta (ms_put (de_kv E) i js) else ret OK) d P Q"
      using True by (simp add: wp_ret)
  next
    case False
    have "wp (on_meta (ms_put (de_kv E) i js)) d P Q"
      by (rule wp_put_row [OF s], rule assms(2)) (simp add: False rows_of_def s)
    then show "wp (if js \<noteq> [] \<and> db_meta d \<noteq> None then on_meta (ms_put (de_kv E) i js) else ret OK) d P Q"
      using False s by simp
  qed
qed

lemma insertFresh_free:
  assumes V: "view_ok (view d)" and room: "has_room d" and r: "is_direct_id r" "\<not> v_alive (view d) r"
    and i: "i = (if v_dead (view d) r then v_next (view d) else r)"
  shows "contents (de_ix E) (db_ix d) i = None" "i \<noteq> k_invalid_node_id"
proof -
  have "free_version r i (view d)"
    using r room next_free(1) [OF V] not_alive_self [OF V r(2)] i
    by (auto simp: free_version_def has_room_def v_alive_def) (simp_all add: db_view_def)
  then show "contents (de_ix E) (db_ix d) i = None" by (simp add: free_version_def db_view_def)
  show "i \<noteq> k_invalid_node_id"
    using room next_valid [OF V r(1)] i by (auto simp: has_room_def k_invalid_node_id_def db_view_def)
qed

text \<open>The second half of an insertion: \<open>d3\<close> differs from \<open>d\<close> in the log and, for a deleted id, in its new version.\<close>

lemma wp_finish_insert:
  assumes ok: "ok d" and V: "view_ok (view d)" and room: "has_room d" and r: "is_direct_id r" "\<not> v_alive (view d) r"
    and v: "length v = ev_dim (de_ix E)" and i: "i = (if v_dead (view d) r then v_next (view d) else r)"
    and enc: "enc = None \<or> enc = Some (encoded v)" and log: "logged (make_record E kOpInsert r i 0 v js key) d d3"
    and d3: "contents (de_ix E) (db_ix d3) = contents (de_ix E) (db_ix d)" "ix_vs (db_ix d3) = ix_vs (db_ix d)"
      "engine_ok (de_ix E) (de_medium E) vertex sound (db_ix d3)" "db_meta d3 = db_meta d" "db_live d3 = db_live d"
      "db_ids d3 = (if v_dead (view d) r then record_update_mapping lg r i ((db_ids d)\<lparr>next_update_internal_id := i + 1\<rparr>) else db_ids d)"
    and P: "\<And>st d'. (st = OK \<Longrightarrow> effect (make_record E kOpInsert r i 0 v js key) d d') \<Longrightarrow> P st d'"
  shows "wp (finish_insert E i v js enc l) d3 P Q"
  unfolding finish_insert_def
proof (rule wp_ok_then, rule wp_store_node [OF d3(3) _ insertFresh_free(2) [OF V room r i] _ v enc])
  have v0: "v \<noteq> []" using v dims by auto
  let ?rec = "make_record E kOpInsert r i 0 v js key"
  let ?put = "bnd (get (\<lambda>d. db_meta d = None)) (\<lambda>none. if js \<noteq> [] \<and> \<not> none then on_meta (ms_put (de_kv E) i js) else ret OK)"
  show "contents (de_ix E) (db_ix d3) i = None" "length (ps_pages (ix_vs (db_ix d3))) < 2 ^ 31"
    using insertFresh_free(1) [OF V room r i] room d3(1,2) by (simp_all add: has_room_def)
  fix ix assume ix: "engine_ok (de_ix E) (de_medium E) vertex sound ix" "ix_ids ix = db_ids d3"
    "contents (de_ix E) ix = (contents (de_ix E) (db_ix d3))(i \<mapsto> decoded (encoded v))"
    "\<And>m. vs_exists (ev_vs (de_ix E)) m (ix_vs ix) \<longleftrightarrow> m = i \<or> vs_exists (ev_vs (de_ix E)) m (ix_vs (db_ix d3))"
  let ?d4 = "db_live_update (\<lambda>n. n + 1) (set_ix ix d3)"
  have "wp ?put ?d4 P Q"
  proof (rule wp_put_payload)
    show "db_meta ?d4 \<noteq> None" using d3(4) ok by (simp add: store_ok_def)
    fix st s' assume "st = OK \<Longrightarrow> rows_of vw (Some s') = (if js \<noteq> [] then (rows_of vw (db_meta ?d4))(i \<mapsto> js) else rows_of vw (db_meta ?d4))"
    then have rows: "st = OK \<Longrightarrow> rows_of vw (db_meta (?d4\<lparr>db_meta := Some s'\<rparr>))
        = (if js \<noteq> [] then (rows_of vw (db_meta d))(i \<mapsto> js) else rows_of vw (db_meta d))" using d3(4) by simp
    show "P st (?d4\<lparr>db_meta := Some s'\<rparr>)"
    proof (rule P)
      assume "st = OK"
      note I = insertFresh_effect [OF ok V r _ i ix(1) _ _ _ _ _ _ rows [OF this], where lg = lg and w = "decoded (encoded v)"]
      have "ok (?d4\<lparr>db_meta := Some s'\<rparr>)" "view (?d4\<lparr>db_meta := Some s'\<rparr>) = v_store r i None js (decoded (encoded v)) (view d)"
        by (rule I; use room ix(2-4) d3(1,2,5,6) in \<open>simp add: has_room_def\<close>)+
      moreover have "logged ?rec d (?d4\<lparr>db_meta := Some s'\<rparr>)" by (rule oplog_logged [OF log]) simp_all
      ultimately show "effect ?rec d (?d4\<lparr>db_meta := Some s'\<rparr>)" using v0 by (simp add: effect_def v_apply_def)
    qed
  qed
  then show "if OK \<noteq> OK then P OK (set_ix ix d3) else wp (bnd (modify (db_live_update (\<lambda>n. n + 1))) (\<lambda>_. ?put)) (set_ix ix d3) P Q"
    by (simp add: wp_bnd wp_modify)
qed (auto intro: P)

lemma wp_insertFresh:
  assumes ok: "ok d" and V: "view_ok (view d)" and room: "has_room d" and r: "is_direct_id r" "\<not> v_alive (view d) r"
    and v: "length v = ev_dim (de_ix E)" and i: "i = (if v_dead (view d) r then v_next (view d) else r)"
    and P: "\<And>st d'. (st = OK \<Longrightarrow> effect (make_record E kOpInsert r i 0 v js key) d d') \<Longrightarrow> P st d'"
  shows "wp (insertFresh E r v js key) d P Q"
proof -
  let ?dead = "is_tombstoned (db_ids d) r" and ?rec = "make_record E kOpInsert r i 0 v js key"
  let ?d1 = "if ?dead then set_ix ((db_ix d)\<lparr>ix_ids := (db_ids d)\<lparr>next_update_internal_id := next_update_internal_id (db_ids d) + 1\<rparr>\<rparr>) d else d"
  have dead: "v_dead (view d) r = ?dead" and i': "i = (if ?dead then next_update_internal_id (db_ids d) else r)"
    using i by (simp_all add: db_view_def)
  have step: "wp (bnd (if ?dead then on_ids (record_update_mapping (de_lg E) r i) else ret ()) (\<lambda>_. finish_insert E i v js enc l)) d2 P Q"
    if d2: "db_index d2 = db_index ?d1" "db_meta d2 = db_meta d" "db_live d2 = db_live d" "enc = None \<or> enc = Some (encoded v)"
      "logged ?rec d d2" for d2 l enc
  proof -
    let ?d3 = "if ?dead then set_ix (ix_ids_update (record_update_mapping (de_lg E) r i) (db_ix d2)) d2 else d2"
    have "logged ?rec d ?d3" by (rule oplog_logged [OF d2(5)]) simp_all
    then have "wp (finish_insert E i v js enc l) ?d3 P Q"
      using d2 okD(1) [OF ok] dead i' by (intro wp_finish_insert [OF ok V room r v i d2(4) _ _ _ _ _ _ _ P, where lg = "de_lg E"]) simp_all
    then show ?thesis by (cases ?dead) (auto intro!: wp_bnd wp_on_ids wp_ret)
  qed
  have "wp (got_then (logOp E kOpInsert r i 0 v js key) (\<lambda>(l, enc).
      bnd (if ?dead then on_ids (record_update_mapping (de_lg E) r i) else ret ()) (\<lambda>_. finish_insert E i v js enc l))) ?d1 P Q"
  proof (rule wp_log_then)
    show "\<forall>lg. db_oplog ?d1 = Some lg \<longrightarrow> next_lsn lg \<noteq> - 1" using room by (simp add: has_room_def)
    fix d2 l enc assume d2: "db_index d2 = db_index ?d1" "db_meta d2 = db_meta ?d1" "db_live d2 = db_live ?d1"
      "enc = None \<or> enc = Some (encoded v)" "logged ?rec ?d1 d2"
    have "logged ?rec d d2" by (rule oplog_logged [OF d2(5)]) simp_all
    then show "wp (bnd (if ?dead then on_ids (record_update_mapping (de_lg E) r i) else ret ()) (\<lambda>_. finish_insert E i v js enc l)) d2 P Q"
      using step d2 by simp
  qed (auto intro: P)
  then show ?thesis unfolding insertFresh_def
    by (intro wp_bnd wp_get) (cases ?dead, auto simp: i' intro!: wp_bnd wp_allocate_id wp_ret)
qed

text \<open>The payload moves with the version.\<close>

lemma wp_move_payload:
  assumes "db_meta d \<noteq> None" "rows_of vw (db_meta d) new = None"
    and P: "\<And>st s'. (st = OK \<Longrightarrow> rows_of vw (Some s') = (rows_of vw (db_meta d))
        (new := (if js \<noteq> [] then Some js else rows_of vw (db_meta d) old), old := None)) \<Longrightarrow> P st (d\<lparr>db_meta := Some s'\<rparr>)"
  shows "wp (move_payload E old new js) d P Q"
proof -
  obtain s where s: "db_meta d = Some s" using assms(1) by blast
  let ?rows = "\<lambda>t :: 'db meta_store. row (vw (ms_db t))"
  let ?m = "(?rows s)(new := (if js \<noteq> [] then Some js else ?rows s old))"
  have new: "?rows s new = None" using assms(2) s by (simp add: rows_of_def)
  let ?del = "bnd (on_meta (ms_delete (de_kv E) old)) (\<lambda>st. ret (if st \<noteq> OK \<and> st \<noteq> NotFound then st else OK))"
  have del: "wp ?del (d\<lparr>db_meta := Some t\<rparr>) P Q" if t: "?rows t = ?m" for t
    by (rule wp_delete_row [of _ t]) (auto simp: t s rows_of_def intro!: P [simplified s rows_of_def, simplified])
  have put: "wp (on_meta (ms_put (de_kv E) new b)) (d\<lparr>db_meta := Some t\<rparr>) (\<lambda>st d'. if st \<noteq> OK then P st d' else wp ?del d' P Q) Q"
    if b: "?rows t = ?rows s" "(if js \<noteq> [] then Some js else ?rows s old) = Some b" for t b
  proof (rule wp_put_row)
    show "db_meta (d\<lparr>db_meta := Some t\<rparr>) = Some t" by simp
    fix st s' assume r: "st = OK \<Longrightarrow> ?rows s' = (?rows t)(new \<mapsto> b)"
    show "if st \<noteq> OK then P st (d\<lparr>db_meta := Some t, db_meta := Some s'\<rparr>) else wp ?del (d\<lparr>db_meta := Some t, db_meta := Some s'\<rparr>) P Q"
    proof (cases "st = OK")
      case True
      have "?rows s' = ?m" unfolding b(2) using r [OF True] b(1) by simp
      then show ?thesis using True del [of s'] by simp
    qed (use P [of st s'] in auto)
  qed
  have skip: "wp ?del (d\<lparr>db_meta := Some t\<rparr>) P Q" if "?rows t = ?rows s" "js = []" "?rows s old = None" for t
    using del [of t] that new by (simp add: fun_upd_idem)
  show ?thesis unfolding move_payload_def
  proof (rule wp_ok_then, cases "js = []")
    case True
    have "wp (bnd (on_meta (ms_get (de_kv E) old)) (\<lambda>g. case g of Inl _ \<Rightarrow> ret OK | Inr old_js \<Rightarrow> on_meta (ms_put (de_kv E) new old_js))) d
        (\<lambda>st d'. if st \<noteq> OK then P st d' else wp ?del d' P Q) Q"
    proof (rule wp_bnd, rule wp_get_row [OF s])
      fix t :: "'db meta_store" assume "ms_db t = ms_db s"
      then have t: "?rows t = ?rows s" by simp
      show "wp (case (case ?rows s old of None \<Rightarrow> Inl NotFound | Some js \<Rightarrow> Inr js) of Inl _ \<Rightarrow> ret OK
          | Inr old_js \<Rightarrow> on_meta (ms_put (de_kv E) new old_js)) (d\<lparr>db_meta := Some t\<rparr>)
          (\<lambda>st d'. if st \<noteq> OK then P st d' else wp ?del d' P Q) Q"
        using put [OF t] skip [OF t] True by (cases "?rows s old") (auto intro: wp_ret)
    qed
    then show "wp (if js \<noteq> [] then on_meta (ms_put (de_kv E) new js)
        else bnd (on_meta (ms_get (de_kv E) old)) (\<lambda>g. case g of Inl _ \<Rightarrow> ret OK | Inr old_js \<Rightarrow> on_meta (ms_put (de_kv E) new old_js))) d
        (\<lambda>st d'. if st \<noteq> OK then P st d' else wp ?del d' P Q) Q" using True by simp
  next
    case False
    have "d\<lparr>db_meta := Some s\<rparr> = d" using s by (cases d) simp
    then show "wp (if js \<noteq> [] then on_meta (ms_put (de_kv E) new js)
        else bnd (on_meta (ms_get (de_kv E) old)) (\<lambda>g. case g of Inl _ \<Rightarrow> ret OK | Inr old_js \<Rightarrow> on_meta (ms_put (de_kv E) new old_js))) d
        (\<lambda>st d'. if st \<noteq> OK then P st d' else wp ?del d' P Q) Q" using put [of s js] False by simp
  qed
qed

lemma update_effect:
  assumes ok: "ok d" and V: "view_ok (view d)" and r: "v_alive (view d) r" and room: "next_update_internal_id (db_ids d) \<noteq> - 1"
    and i: "i = next_update_internal_id (db_ids d)" "old = resolve_internal (db_ids d) r"
    and ix: "engine_ok (de_ix E) (de_medium E) vertex sound ix"
      "ix_ids ix = tombstone old (record_update_mapping lg r i ((db_ids d)\<lparr>next_update_internal_id := i + 1\<rparr>))"
      "contents (de_ix E) ix = (contents (de_ix E) (db_ix d))(i \<mapsto> w)"
      "\<And>m. vs_exists (ev_vs (de_ix E)) m (ix_vs ix) \<longleftrightarrow> m = i \<or> vs_exists (ev_vs (de_ix E)) m (ix_vs (db_ix d))"
    and d': "db_ix d' = ix" "db_meta d' \<noteq> None" "db_live d' = db_live d"
      "rows_of vw (db_meta d') = (rows_of vw (db_meta d))(i := (if js \<noteq> [] then Some js else rows_of vw (db_meta d) old), old := None)"
  shows "ok d'" "view d' = v_store r i (Some old) js w (view d)"
proof -
  note O = okD [OF ok]
  let ?m = "(db_ids d)\<lparr>next_update_internal_id := i + 1\<rparr>"
  have ids: "id_map_ok ?m" using allocate_ok(1) [OF O(2) _ room] i by (simp add: allocate_update_id_def)
  have u: "is_update_id i" using i view_okD(4) [OF V] by (simp add: db_view_def)
  have "i < i + 1" using room i by (simp add: word_less_plus_1)
  then have m: "id_map_ok (record_update_mapping lg r i ?m)" using ids u fresh_next [OF O(2)] i by (simp add: record_ok)
  then show "ok d'" unfolding store_ok_def using ix(1,3,4) d'(1,2) O(3) by (simp add: ix(2) tombstone_ok)
  have res: "resolve_internal (ix_ids ix) = (resolve_internal (db_ids d))(r := i)"
    using ids by (simp add: ix(2) fun_eq_iff resolve_after_record id_map_ok_def)
  show "view d' = v_store r i (Some old) js w (view d)"
    using u r i
    by (simp add: v_store_def db_view_def d' res ix(3))
      (auto simp: ix(2) record_fields tombstone_def is_tombstoned_def fun_eq_iff)
qed

lemma wp_updateAlive:
  assumes ok: "ok d" and V: "view_ok (view d)" and room: "has_room d" and r: "v_alive (view d) r"
    and v: "length v = ev_dim (de_ix E)" and i: "i = v_next (view d)" "old = v_resolve (view d) r"
    and P: "\<And>st d'. (st = OK \<Longrightarrow> effect (make_record E kOpUpdate r i old v js key) d d') \<Longrightarrow> P st d'"
  shows "wp (updateAlive E r v js key) d P Q"
proof -
  have v0: "v \<noteq> []" using v dims by auto
  let ?rec = "make_record E kOpUpdate r i old v js key"
  let ?d1 = "set_ix ((db_ix d)\<lparr>ix_ids := (db_ids d)\<lparr>next_update_internal_id := next_update_internal_id (db_ids d) + 1\<rparr>\<rparr>) d"
  have i': "i = next_update_internal_id (db_ids d)" "old = resolve_internal (db_ids d) r" using i by (simp_all add: db_view_def)
  have free: "contents (de_ix E) (db_ix d) i = None" "rows_of vw (db_meta d) i = None" and valid: "i \<noteq> k_invalid_node_id"
    using next_free(1,3) [OF V] room i by (simp_all add: db_view_def has_room_def k_invalid_node_id_def)
  have finish: "wp (finish_update E r old i v js enc l) d2 P Q"
    if d2: "db_index d2 = db_index ?d1" "db_meta d2 = db_meta d" "db_live d2 = db_live d" "enc = None \<or> enc = Some (encoded v)" "logged ?rec d d2"
    for d2 l enc
    unfolding finish_update_def
  proof (rule wp_ok_then, rule wp_store_node [OF _ _ valid _ v d2(4)])
    show "engine_ok (de_ix E) (de_medium E) vertex sound (db_ix d2)" "contents (de_ix E) (db_ix d2) i = None"
      "length (ps_pages (ix_vs (db_ix d2))) < 2 ^ 31" using okD(1) [OF ok] free room d2(1) by (simp_all add: has_room_def)
    fix ix assume ix: "engine_ok (de_ix E) (de_medium E) vertex sound ix" "ix_ids ix = db_ids d2"
      "contents (de_ix E) ix = (contents (de_ix E) (db_ix d2))(i \<mapsto> decoded (encoded v))"
      "\<And>m. vs_exists (ev_vs (de_ix E)) m (ix_vs ix) \<longleftrightarrow> m = i \<or> vs_exists (ev_vs (de_ix E)) m (ix_vs (db_ix d2))"
    let ?ix = "ix_ids_update (tombstone old) (ix_ids_update (record_update_mapping (de_lg E) r i) ix)"
    let ?d4 = "set_ix ?ix d2"
    have "wp (move_payload E old i js) ?d4 P Q"
    proof (rule wp_move_payload)
      show "db_meta ?d4 \<noteq> None" "rows_of vw (db_meta ?d4) i = None" using d2(2) ok free(2) by (simp_all add: store_ok_def)
      fix st s' assume "st = OK \<Longrightarrow> rows_of vw (Some s') = (rows_of vw (db_meta ?d4))
          (i := (if js \<noteq> [] then Some js else rows_of vw (db_meta ?d4) old), old := None)"
      then have rows: "st = OK \<Longrightarrow> rows_of vw (db_meta (?d4\<lparr>db_meta := Some s'\<rparr>))
          = (rows_of vw (db_meta d))(i := (if js \<noteq> [] then Some js else rows_of vw (db_meta d) old), old := None)" using d2(2) by simp
      show "P st (?d4\<lparr>db_meta := Some s'\<rparr>)"
      proof (rule P)
        assume "st = OK"
        note I = update_effect [OF ok V r _ i' _ _ _ _ _ _ _ rows [OF this], where ix = ?ix and lg = "de_lg E" and w = "decoded (encoded v)"]
        have "ok (?d4\<lparr>db_meta := Some s'\<rparr>)" "view (?d4\<lparr>db_meta := Some s'\<rparr>) = v_store r i (Some old) js (decoded (encoded v)) (view d)"
          by (rule I; use room ix d2(1,3) i' in \<open>simp add: has_room_def\<close>)+
        moreover have "logged ?rec d (?d4\<lparr>db_meta := Some s'\<rparr>)" by (rule oplog_logged [OF d2(5)]) simp_all
        ultimately show "effect ?rec d (?d4\<lparr>db_meta := Some s'\<rparr>)" using v0 by (simp add: effect_def v_apply_def)
      qed
    qed
    moreover have "db_meta d2 \<noteq> None" using d2(2) ok by (simp add: store_ok_def)
    ultimately show "if OK \<noteq> OK then P OK (set_ix ix d2) else wp (bnd (on_ids (record_update_mapping (de_lg E) r i)) (\<lambda>_.
        bnd (on_ids (tombstone old)) (\<lambda>_. bnd (get (\<lambda>d. db_meta d = None)) (\<lambda>none. if none then ret OK else move_payload E old i js))))
        (set_ix ix d2) P Q"
      by (auto intro!: wp_bnd wp_on_ids wp_get)
  qed (auto intro: P)
  have "wp (got_then (logOp E kOpUpdate r i old v js key) (\<lambda>(l, enc). finish_update E r old i v js enc l)) ?d1 P Q"
  proof (rule wp_log_then)
    show "\<forall>lg. db_oplog ?d1 = Some lg \<longrightarrow> next_lsn lg \<noteq> - 1" using room by (simp add: has_room_def)
    fix d2 l enc assume d2: "db_index d2 = db_index ?d1" "db_meta d2 = db_meta ?d1" "db_live d2 = db_live ?d1"
      "enc = None \<or> enc = Some (encoded v)" "logged ?rec ?d1 d2"
    have "logged ?rec d d2" by (rule oplog_logged [OF d2(5)]) simp_all
    then show "wp (finish_update E r old i v js enc l) d2 P Q" using finish d2 by simp
  qed (auto intro: P)
  then show ?thesis unfolding updateAlive_def i' by (intro wp_bnd wp_get wp_allocate_id) simp
qed

lemma writes_same [simp]:
  "view (db_writes_update f d) = view d" "ok (db_writes_update f d) = ok d" "has_room (db_writes_update f d) = has_room d"
  "effect rec (db_writes_update f d) d' = effect rec d d'"
  by (simp_all add: db_view_def store_ok_def has_room_def effect_def logged_def log_holds_def)

subsection \<open>Inserts and updates\<close>

text \<open>The record of an insert or update of \<open>r\<close>: a first version for an id that is not alive, the next
  version for one that is.\<close>

definition put_record :: "node_id \<Rightarrow> vec \<Rightarrow> bytes \<Rightarrow> bytes \<Rightarrow> dview \<Rightarrow> op_record" where
  "put_record r v js key V =
     (if v_alive V r then make_record E kOpUpdate r (v_next V) (v_resolve V r) v js key
      else make_record E kOpInsert r (if v_dead V r then v_next V else r) 0 v js key)"

lemma put_record_fits:
  assumes "is_direct_id r" "length v = ev_dim (de_ix E)" "v_next V \<noteq> - 1"
  shows "rec_fits (ev_dim (de_ix E)) (put_record r v js key V) V"
proof -
  have "v \<noteq> []" using assms(2) dims by auto
  then show ?thesis using assms by (simp add: put_record_def rec_fits_def)
qed

lemma wp_put_alive:
  assumes "ok d" "view_ok (view d)" "has_room d" "is_direct_id r" "length v = ev_dim (de_ix E)"
    and P: "\<And>st d'. (st = OK \<Longrightarrow> effect (put_record r v js key (view d)) d d') \<Longrightarrow> P st d'"
  shows "wp (if alive_in E r d then updateAlive E r v js key else insertFresh E r v js key) d P Q"
proof (cases "v_alive (view d) r")
  case True
  then show ?thesis using assms(1-5) alive_view [OF assms(1)]
    by (simp, intro wp_updateAlive [OF _ _ _ _ _ refl refl]) (auto intro!: P simp: put_record_def)
next
  case False
  then show ?thesis using assms(1-5) alive_view [OF assms(1)]
    by (simp, intro wp_insertFresh [OF _ _ _ _ _ _ refl]) (auto intro!: P simp: put_record_def)
qed

lemma wp_putDense:
  assumes "ok d" "view_ok (view d)" "has_room d" "is_direct_id r"
    and P: "\<And>st d'. (st = OK \<Longrightarrow> length v = ev_dim (de_ix E) \<and> effect (put_record r v js key (view d)) d d') \<Longrightarrow> P st d'"
  shows "wp (putDense E update r v js key) d P Q"
proof -
  have val: "ValidateVector E v = OK \<Longrightarrow> length v = ev_dim (de_ix E)" "validateInsertArgs E v js = OK \<Longrightarrow> length v = ev_dim (de_ix E)"
    by (auto simp: ValidateVector_def validateInsertArgs_def split: if_splits)
  have put: "wp (if alive_in E r (f d) then updateAlive E r v js key else insertFresh E r v js key) (f d) P Q"
    if "f d = db_writes_update g d" "length v = ev_dim (de_ix E)" for f g
    unfolding that(1) by (rule wp_put_alive) (use assms that(2) in \<open>auto intro!: P\<close>)
  have err: "st \<noteq> OK \<Longrightarrow> wp (ret st) d' P Q" for st d' by (rule wp_ret, rule P) simp
  have upd: "wp (putDense E True r v js key) (db_writes_update g d) P Q" if "alive_in E r d" for g
    unfolding putDense_update
    using put [of "\<lambda>d. db_writes_update Suc (db_writes_update g d)" "\<lambda>n. Suc (g n)"] that val(1) by (auto intro: err simp: o_def)
  have ins: "wp (putDense E False r v js key) (db_writes_update g d) P Q" if "\<not> alive_in E r d" for g
    unfolding putDense_insert
    using put [of "\<lambda>d. db_writes_update Suc (db_writes_update g d)" "\<lambda>n. Suc (g n)"] that val(2) by (auto intro: err simp: o_def)
  have id: "db_writes_update (\<lambda>n. n) d = d" by (cases d) simp
  show ?thesis
  proof (cases "update = alive_in E r d")
    case True
    then show ?thesis using upd [of "\<lambda>n. n"] ins [of "\<lambda>n. n"] id by (cases update) auto
  next
    case False
    show ?thesis
    proof (cases update)
      case True
      then show ?thesis using False ins [of Suc] by (simp add: putDense_update) (auto intro: err)
    next
      case upd': False
      then show ?thesis using False upd [of Suc] by (simp add: putDense_insert) (auto intro: err)
    qed
  qed
qed

end

end
