(* ===== verification/Db_Replay.thy ===== *)
theory Db_Replay
  imports Db_Calls
begin

text \<open>
  Deletions, lookups and the replay of log records. A replayed record has on a view the effect the
  call that logged it had.
\<close>

text \<open>Steps that only read or only change the ids.\<close>

lemma step_eqs:
  "bnd (ret a) f = f a" "wp (bnd (get g) k) d P Q = wp (k (g d)) d P Q"
  "wp (bnd (on_ids h) m) d' P' Q' = wp (m ()) (set_ix (ix_ids_update h (db_ix d')) d') P' Q'"
  by (auto simp: wp_def bnd_def ret_def get_def on_ids_eq)

context database begin

subsection \<open>Deletions and lookups\<close>

lemma delete_effect:
  assumes ok: "ok d" and V: "view_ok (view d)"
    and i: "i = v_resolve (view d) r"
    and d': "db_ix d' = ix_ids_update (forget_update_mapping r) (ix_ids_update (tombstone i) (db_ix d))" "db_meta d' \<noteq> None"
      "rows_of vw (db_meta d') = (rows_of vw (db_meta d))(i := None)" "db_live d' = db_live d - (if v_alive (view d) r then 1 else 0)"
  shows "ok d'" "view d' = v_delete r i (view d)"
proof -
  note O = okD [OF ok]
  have m: "id_map_ok (tombstone i (db_ids d))" using O(2) by (rule tombstone_ok)
  show "ok d'" unfolding store_ok_def using O d'(1,2) forget_ok [OF m] by simp
  have "resolve_internal (db_ids d') = (resolve_internal (db_ids d))(r := r)"
    using resolve_after_forget [OF m] by (simp add: d'(1) fun_eq_iff)
  moreover have "is_tombstoned (db_ids d') = (is_tombstoned (db_ids d))(i := True)"
    by (auto simp: d'(1) is_tombstoned_def tombstone_def fun_eq_iff)
  moreover have "next_update_internal_id (db_ids d') = next_update_internal_id (db_ids d)" by (simp add: d'(1) tombstone_def)
  ultimately show "view d' = v_delete r i (view d)"
    using d'(3,4) by (simp add: db_view_def v_delete_def d'(1))
qed

text \<open>The steps behind the log entry of a deletion, in \<open>deleteDense\<close> and in the replay.\<close>

lemma wp_delete_steps:
  assumes ok: "ok d0" and V: "view_ok (view d0)" and i: "i = v_resolve (view d0) r"
    and d: "db_index d = db_index d0" "db_meta d = db_meta d0" "db_live d = db_live d0"
    and was: "was \<longleftrightarrow> v_alive (view d0) r"
    and P: "\<And>st d'. st \<noteq> OK \<Longrightarrow> P st d'"
    and k: "\<And>d'. ok d' \<Longrightarrow> view d' = v_delete r i (view d0) \<Longrightarrow> db_oplog d' = db_oplog d \<Longrightarrow> wp k d' P Q"
  shows "wp (bnd (on_ids (tombstone i)) (\<lambda>_.
       bnd (get (\<lambda>d. db_meta d = None)) (\<lambda>none.
       ok_then (if none then ret OK
                else bnd (on_meta (ms_delete (de_kv E) i)) (\<lambda>st. ret (if st \<noteq> OK \<and> st \<noteq> NotFound then st else OK))) (
       bnd (on_ids (forget_update_mapping r)) (\<lambda>_.
       bnd (if was then modify (db_live_update (\<lambda>n. n - 1)) else ret ()) (\<lambda>_. k)))))) d P Q"
proof -
  obtain s where s: "db_meta d0 = Some s" using ok by (auto simp: store_ok_def)
  let ?d1 = "set_ix (ix_ids_update (tombstone i) (db_ix d)) d"
  have "wp (bnd (on_ids (forget_update_mapping r)) (\<lambda>_. bnd (if was then modify (db_live_update (\<lambda>n. n - 1)) else ret ()) (\<lambda>_. k)))
      (?d1\<lparr>db_meta := Some s'\<rparr>) P Q" if s': "row (vw (ms_db s')) = (row (vw (ms_db s)))(i := None)" for s'
  proof -
    let ?d2 = "set_ix (ix_ids_update (forget_update_mapping r) (ix_ids_update (tombstone i) (db_ix d))) (?d1\<lparr>db_meta := Some s'\<rparr>)"
    let ?d3 = "if was then db_live_update (\<lambda>n. n - 1) ?d2 else ?d2"
    have rows: "rows_of vw (db_meta ?d3) = (rows_of vw (db_meta d0))(i := None)" using s' s by (simp add: rows_of_def)
    have "wp k ?d3 P Q"
    proof (rule k)
      show "ok ?d3" by (rule delete_effect(1) [OF ok V i _ _ rows]) (use d was in auto)
      show "view ?d3 = v_delete r i (view d0)" by (rule delete_effect(2) [OF ok V i _ _ rows]) (use d was in auto)
    qed simp
    then show ?thesis by (cases was) (auto intro!: wp_bnd wp_on_ids wp_modify wp_ret)
  qed
  then show ?thesis using s d(2)
    by (intro wp_bnd wp_on_ids wp_get wp_ok_then) (auto intro!: wp_delete_row P)
qed

lemma wp_deleteDense:
  assumes ok: "ok d" and V: "view_ok (view d)" and room: "has_room d"
    and P: "\<And>st d'. (st = OK \<Longrightarrow> if v_vec (view d) (v_resolve (view d) r) = None then view d' = view d \<and> ok d' \<and> db_oplog d' = db_oplog d
        else effect (make_record E kOpDelete r (v_resolve (view d) r) 0 [] [] []) d d') \<Longrightarrow> P st d'"
  shows "wp (deleteDense E r) d P Q"
proof -
  let ?d = "db_writes_update Suc d"
  let ?i = "resolve_internal (db_ids ?d) r"
  have i: "?i = v_resolve (view d) r" by (simp add: db_view_def)
  have ex: "vs_exists (ev_vs (de_ix E)) ?i (ix_vs (db_ix ?d)) \<longleftrightarrow> v_vec (view d) ?i \<noteq> None"
    using okD(3) [OF ok] by (simp add: db_view_def)
  show ?thesis
  proof (cases "v_vec (view d) ?i = None")
    case True
    have "view ?d = view d \<and> ok ?d \<and> db_oplog ?d = db_oplog d" using ok by simp
    then have "P OK ?d" using True i by (intro P) simp
    then show ?thesis unfolding deleteDense_def in_scope_def using True ex
      by (intro wp_bnd wp_modify wp_get) (simp add: wp_ret)
  next
    case False
    let ?rec = "make_record E kOpDelete r ?i 0 [] [] []"
    have P': "effect ?rec d d' \<Longrightarrow> P OK d'" for d' by (rule P) (use False i in auto)
    have exT: "vs_exists (ev_vs (de_ix E)) ?i (ix_vs (db_ix ?d))" using ex False by blast
    have log: "\<forall>lg. db_oplog ?d = Some lg \<longrightarrow> next_lsn lg \<noteq> - 1" using room by (simp add: has_room_def)
    show ?thesis unfolding deleteDense_def in_scope_def
    proof (intro wp_bnd wp_modify wp_get wp_if, use exT in simp, rule wp_got_then, rule wp_logOp [OF log])
      fix res d2 assume d2: "db_index d2 = db_index ?d" "db_meta d2 = db_meta ?d" "db_live d2 = db_live ?d"
        "\<And>l enc. res = Inr (l, enc) \<Longrightarrow> (enc = None \<or> enc = Some (vs_encode (ev_vs (de_ix E)) [])) \<and> logged ?rec ?d d2" "res \<noteq> Inl OK"
      show "case res of Inl st \<Rightarrow> P st d2 | Inr a \<Rightarrow> wp (bnd (on_ids (tombstone ?i)) (\<lambda>_.
         bnd (get (\<lambda>d. db_meta d = None)) (\<lambda>none.
         ok_then (if none then ret OK
                  else bnd (on_meta (ms_delete (de_kv E) ?i)) (\<lambda>st. ret (if st \<noteq> OK \<and> st \<noteq> NotFound then st else OK))) (
         bnd (on_ids (forget_update_mapping r)) (\<lambda>_.
         bnd (if alive_in E r ?d then modify (db_live_update (\<lambda>n. n - 1)) else ret ()) (\<lambda>_. ret OK)))))) d2 P Q"
      proof (cases res)
        case (Inl st)
        then show ?thesis using d2(5) P [of st d2] by simp
      next
        case (Inr a)
        obtain l enc where a: "a = (l, enc)" by (cases a)
        have log: "logged ?rec d d2" by (rule oplog_logged [OF d2(4) [OF Inr [unfolded a], THEN conjunct2]]) simp_all
        have "wp (ret OK) d' P Q" if d': "ok d'" "view d' = v_delete r ?i (view d)" "db_oplog d' = db_oplog d2" for d'
        proof (rule wp_ret, rule P')
          have "v_apply (ev_fl (de_ix E)) ?rec (view d) = v_delete r ?i (view d)" by (simp add: v_apply_def)
          then show "effect ?rec d d'" unfolding effect_def using d'(1,2) oplog_logged [OF log refl d'(3)] by metis
        qed
        note K = this
        have "alive_in E r ?d \<longleftrightarrow> v_alive (view d) r" "db_index d2 = db_index d" "db_meta d2 = db_meta d" "db_live d2 = db_live d"
          using d2(1-3) alive_view [OF ok] by simp_all
        then show ?thesis unfolding Inr sum.case
          by (intro wp_delete_steps [OF ok V i]) (auto intro: P K)
      qed
    qed
  qed
qed

text \<open>Lookups answer from the view and leave it as it is.\<close>

lemma wp_read:
  assumes "ok d" "contents (de_ix E) (db_ix d) n = Some v"
  shows "wp (on_index (readVector (de_ix E) n)) d (\<lambda>r d'. r = v \<and> view d' = view d \<and> ok d') Q"
proof -
  note H = paged_hnsw [OF graph parts]
  have K: "index_ok (de_ix E) (paged_ok (ev_dim (de_ix E)) (de_medium E)) (paged_view (ev_fl (de_ix E))) (neighbours vertex) sound (db_ix d)"
    using okD(1) [OF assms(1)] by (simp add: engine_ok_def)
  have v: "paged_view (ev_fl (de_ix E)) (ix_vs (db_ix d)) n = Some v" using assms(2) by (simp add: contents_def)
  have i: "paged_ok (ev_dim (de_ix E)) (de_medium E) (ix_vs (db_ix d))" using K by (simp add: index_ok_def)
  obtain s where r: "readVector (de_ix E) n (db_ix d) = Some (Inr v, (db_ix d)\<lparr>ix_vs := s\<rparr>)"
    "same_store (paged_ops (ev_dim (de_ix E)) (ev_fl (de_ix E)) (de_medium E)) (paged_ok (ev_dim (de_ix E)) (de_medium E))
      (paged_view (ev_fl (de_ix E))) paged_writable (ix_vs (db_ix d)) s"
    using wp_returns [OF paged.read_law [OF i v]]
    by (auto simp: readVector_def stores on_store_def)
  let ?ix = "(db_ix d)\<lparr>ix_vs := s\<rparr>"
  have k: "hnsw.keeps (de_ix E) (paged_ok (ev_dim (de_ix E)) (de_medium E)) (paged_view (ev_fl (de_ix E))) paged_writable (neighbours vertex) sound (db_ix d) ?ix"
    using wp_returns [OF hnsw.wp_readVector [OF H K v]] r(1) by (auto simp: hnsw.bad_def [OF H])
  have "view (set_ix ?ix d) = view d" "ok (set_ix ?ix d)"
    using r(2) keeps_unchanged [OF H k] okD [OF assms(1)] assms(1)
    by (auto simp: db_view_def store_ok_def unchanged_def same_store_def stores)
  then show ?thesis by (simp add: wp_def on_index_def r(1))
qed

lemma wp_getDense:
  assumes "ok d"
  shows "wp (getDense E r) d (\<lambda>res d'. res = (if v_alive (view d) r then Inr (the (v_vec (view d) (v_resolve (view d) r))) else Inl NotFound)
    \<and> view d' = view d \<and> ok d') Q"
proof (cases "v_alive (view d) r")
  case True
  then obtain v where v: "contents (de_ix E) (db_ix d) (resolve_internal (db_ids d) r) = Some v"
    by (auto simp: v_alive_def db_view_def)
  have a: "alive_in E r d" using True alive_view [OF assms] by simp
  have "the (v_vec (view d) (v_resolve (view d) r)) = v" using v by (simp add: db_view_def)
  then show ?thesis unfolding getDense_def using True a
    by (intro wp_bnd wp_get) (simp, intro wp_bnd wp_get wp_catching, rule wp_conseq [OF wp_read [OF assms v]], auto intro: wp_ret)
next
  case False
  then show ?thesis unfolding getDense_def using alive_view [OF assms] assms
    by (intro wp_bnd wp_get) (simp add: wp_ret)
qed

lemma wp_getPayloadDense:
  assumes "ok d"
  shows "wp (getPayloadDense E r) d (\<lambda>res d'. res = Inr (case v_row (view d) (v_resolve (view d) r) of None \<Rightarrow> no_document | Some js \<Rightarrow> js)
    \<and> view d' = view d \<and> ok d') Q"
proof -
  obtain s where s: "db_meta d = Some s" using assms by (auto simp: store_ok_def)
  have same: "view (d\<lparr>db_meta := Some s'\<rparr>) = view d" "ok (d\<lparr>db_meta := Some s'\<rparr>)" if "ms_db s' = ms_db s" for s'
    using that s assms by (auto simp: db_view_def rows_of_def store_ok_def)
  have "v_row (view d) = row (vw (ms_db s))" "v_resolve (view d) r = resolve_internal (db_ids d) r"
    by (simp_all add: db_view_def rows_of_def s)
  then show ?thesis unfolding getPayloadDense_def
    by (intro wp_bnd wp_get) (simp add: s, intro wp_bnd wp_get wp_get_row [OF s], auto intro!: wp_ret simp: same split: option.splits)
qed

subsection \<open>Replay\<close>

lemma row_key_ops: "row (apply_batch (key_ops kd) m) = row m"
  by (cases kd) (simp add: key_ops_def)

lemma put_key_rows: "put_key (de_kv E) key dense s = (OK, s') \<Longrightarrow> row (vw (ms_db s')) = row (vw (ms_db s))"
  using kv_write_OKD [OF kv, of "key_ops (key, dense)" "ms_db s"]
  by (auto simp: put_key_def put_keys_def row_key_ops split: if_splits prod.splits)

text \<open>The first steps of a replayed write: the ids it used are taken.\<close>

definition ids_taken :: "op_record \<Rightarrow> ('g, 'db) db \<Rightarrow> ('g, 'db) db \<Rightarrow> bool" where
  "ids_taken rec d d' \<longleftrightarrow> db_ix d' = (if is_update_id (internal_id rec) then ix_ids_update (observe_update_id (internal_id rec)) (db_ix d) else db_ix d)
     \<and> rows_of vw (db_meta d') = rows_of vw (db_meta d) \<and> db_meta d' \<noteq> None \<and> db_live d' = db_live d \<and> db_oplog d' = db_oplog d"

lemma wp_replay_ids:
  assumes "ok d" "\<And>st d'. st \<noteq> OK \<Longrightarrow> P st d'" "\<And>d'. ids_taken rec d d' \<Longrightarrow> P OK d'"
  shows "wp (replay_ids E rec) d P Q"
proof -
  obtain s where s: "db_meta d = Some s" using assms(1) by (auto simp: store_ok_def)
  let ?d1 = "if is_update_id (internal_id rec) then set_ix (ix_ids_update (observe_update_id (internal_id rec)) (db_ix d)) d else d"
  have s1: "db_meta ?d1 = Some s" using s by simp
  have t: "ids_taken rec d (observeDenseId k (?d1\<lparr>db_meta := Some s'\<rparr>))" "ids_taken rec d (?d1\<lparr>db_meta := Some s'\<rparr>)"
    if "row (vw (ms_db s')) = row (vw (ms_db s))" for k s'
    using that s by (simp_all add: ids_taken_def observeDenseId_def rows_of_def)
  have "wp (bnd (get (\<lambda>d. reckey rec \<noteq> [] \<and> (case db_meta d of None \<Rightarrow> False | Some ms \<Rightarrow> has_id_map ms))) (\<lambda>keyed.
     if keyed then ok_then (on_meta (put_key (de_kv E) (reckey rec) (real_id rec)))
                    (bnd (modify (observeDenseId (real_id rec))) (\<lambda>_. ret OK))
     else ret OK)) ?d1 P Q"
  proof (rule wp_bnd, rule wp_get, rule wp_if, rule wp_ok_then, rule wp_on_meta [OF s1])
    fix st s' assume p: "put_key (de_kv E) (reckey rec) (real_id rec) s = (st, s')"
    show "if st \<noteq> OK then P st (?d1\<lparr>db_meta := Some s'\<rparr>) else wp (bnd (modify (observeDenseId (real_id rec))) (\<lambda>_. ret OK)) (?d1\<lparr>db_meta := Some s'\<rparr>) P Q"
    proof (cases "st = OK")
      case True
      have "P OK (observeDenseId (real_id rec) (?d1\<lparr>db_meta := Some s'\<rparr>))"
        by (rule assms(3), rule t, rule put_key_rows [where key = "reckey rec" and dense = "real_id rec"]) (use p True in simp)
      then show ?thesis using True by (auto intro!: wp_bnd wp_modify wp_ret)
    qed (auto intro: assms(2))
  next
    have "?d1\<lparr>db_meta := Some s\<rparr> = ?d1" using s1 by (cases ?d1) simp
    then have "P OK ?d1" using assms(3) [OF t(2) [OF refl]] by simp
    then show "wp (ret OK) ?d1 P Q" by (rule wp_ret)
  qed
  then show ?thesis unfolding replay_ids_def by (cases "is_update_id (internal_id rec)") (auto intro!: wp_bnd wp_on_ids wp_ret)
qed

text \<open>The vector of the record is stored as it was logged.\<close>

lemma wp_replay_node:
  assumes "engine_ok (de_ix E) (de_medium E) vertex sound (db_ix d)" "contents (de_ix E) (db_ix d) n = None" "n \<noteq> k_invalid_node_id"
    "length (ps_pages (ix_vs (db_ix d))) < 2 ^ 31" "length b = ev_dim (de_ix E) + 8"
    and stored: "\<And>ix. engine_ok (de_ix E) (de_medium E) vertex sound ix \<Longrightarrow> ix_ids ix = db_ids d \<Longrightarrow>
        contents (de_ix E) ix = (contents (de_ix E) (db_ix d))(n \<mapsto> decoded b) \<Longrightarrow>
        (\<And>m. vs_exists (ev_vs (de_ix E)) m (ix_vs ix) \<longleftrightarrow> m = n \<or> vs_exists (ev_vs (de_ix E)) m (ix_vs (db_ix d))) \<Longrightarrow> wp k (set_ix ix d) P Q"
    and failed: "\<And>st d'. st \<noteq> OK \<Longrightarrow> P st d'"
  shows "wp (ok_then (try_insert E n (vs_decode (ev_vs (de_ix E)) b) (Some b)) k) d P Q"
proof (rule wp_ok_then, rule wp_try_insert [OF assms(1-4)])
  show "length (vs_decode (ev_vs (de_ix E)) b) = ev_dim (de_ix E)" "Some b = None \<or> Some b = Some b \<and> length b = ev_dim (de_ix E) + 8"
    using assms(5) by simp_all
  fix st ix assume i: "st = OK \<Longrightarrow> engine_ok (de_ix E) (de_medium E) vertex sound ix \<and> ix_ids ix = db_ids d
        \<and> contents (de_ix E) ix = (contents (de_ix E) (db_ix d))(n \<mapsto> recorded (de_ix E) (vs_decode (ev_vs (de_ix E)) b) (Some b))
        \<and> (\<forall>m. vs_exists (ev_vs (de_ix E)) m (ix_vs ix) \<longleftrightarrow> m = n \<or> vs_exists (ev_vs (de_ix E)) m (ix_vs (db_ix d)))"
  show "if st \<noteq> OK then P st (set_ix ix d) else wp k (set_ix ix d) P Q"
    using i stored [of ix] failed [of st "set_ix ix d"] by (cases "st = OK") (auto simp: recorded_def)
qed

lemma same_rows:
  assumes "db_meta d = Some s" "ms_db s' = ms_db s"
  shows "rows_of vw (db_meta (d\<lparr>db_meta := Some s'\<rparr>)) = rows_of vw (db_meta d)"
  using assms by (simp add: rows_of_def)

text \<open>A version that is new has no row yet.\<close>

lemma wp_replay_payload_insert:
  assumes "db_meta d \<noteq> None" "rows_of vw (db_meta d) (internal_id rec) = None" "op rec = kOpInsert"
    and P: "\<And>st s'. (st = OK \<Longrightarrow> rows_of vw (Some s') = (if payload rec \<noteq> [] then (rows_of vw (db_meta d))(internal_id rec \<mapsto> payload rec)
        else rows_of vw (db_meta d))) \<Longrightarrow> P st (d\<lparr>db_meta := Some s'\<rparr>)"
  shows "wp (replay_payload E rec) d P Q"
proof -
  obtain s where s: "db_meta d = Some s" using assms(1) by blast
  have n: "row (vw (ms_db s)) (internal_id rec) = None" using assms(2) s by (simp add: rows_of_def)
  have "wp (ok_then (if payload rec \<noteq> [] then on_meta (ms_put (de_kv E) (internal_id rec) (payload rec)) else ret OK) (ret OK)) (d\<lparr>db_meta := Some s1\<rparr>) P Q"
    if s1: "ms_db s1 = ms_db s" for s1 :: "'db meta_store"
  proof (rule wp_ok_then, rule wp_if)
    show "wp (on_meta (ms_put (de_kv E) (internal_id rec) (payload rec))) (d\<lparr>db_meta := Some s1\<rparr>)
        (\<lambda>st d'. if st \<noteq> OK then P st d' else wp (ret OK) d' P Q) Q" if "payload rec \<noteq> []"
      by (rule wp_put_row [where s = s1]) (use that P s s1 in \<open>auto simp: rows_of_def intro!: wp_ret\<close>)
    show "wp (ret OK) (d\<lparr>db_meta := Some s1\<rparr>) (\<lambda>st d'. if st \<noteq> OK then P st d' else wp (ret OK) d' P Q) Q" if "\<not> payload rec \<noteq> []"
      using that P [of OK s1] s s1 by (auto simp: rows_of_def intro!: wp_ret)
  qed
  then show ?thesis unfolding replay_payload_def
    by (intro wp_bnd wp_get_row [OF s]) (cases "payload rec = []"; simp add: n assms(3))
qed

lemma wp_replay_payload_update:
  assumes "db_meta d \<noteq> None" "rows_of vw (db_meta d) (internal_id rec) = None" "op rec = kOpUpdate"
    and P: "\<And>st s'. (st = OK \<Longrightarrow> rows_of vw (Some s') = (rows_of vw (db_meta d))
        (internal_id rec := (if payload rec \<noteq> [] then Some (payload rec) else rows_of vw (db_meta d) (aux rec)), aux rec := None)) \<Longrightarrow>
        P st (d\<lparr>db_meta := Some s'\<rparr>)"
  shows "wp (replay_payload E rec) d P Q"
proof -
  obtain s where s: "db_meta d = Some s" using assms(1) by blast
  have n: "row (vw (ms_db s)) (internal_id rec) = None" using assms(2) s by (simp add: rows_of_def)
  have "wp (move_payload E (aux rec) (internal_id rec) (payload rec)) (d\<lparr>db_meta := Some s1\<rparr>) P Q"
    if s1: "ms_db s1 = ms_db s" for s1 :: "'db meta_store"
  proof (rule wp_move_payload)
    show "rows_of vw (db_meta (d\<lparr>db_meta := Some s1\<rparr>)) (internal_id rec) = None" using same_rows [OF s s1] assms(2) by simp
    fix st s' assume "st = OK \<Longrightarrow> rows_of vw (Some s') = (rows_of vw (db_meta (d\<lparr>db_meta := Some s1\<rparr>)))
      (internal_id rec := (if payload rec \<noteq> [] then Some (payload rec) else rows_of vw (db_meta (d\<lparr>db_meta := Some s1\<rparr>)) (aux rec)), aux rec := None)"
    then have "P st (d\<lparr>db_meta := Some s'\<rparr>)" unfolding same_rows [OF s s1] by (rule P)
    then show "P st (d\<lparr>db_meta := Some s1, db_meta := Some s'\<rparr>)" by simp
  qed simp
  then show ?thesis unfolding replay_payload_def
    by (intro wp_bnd wp_get_row [OF s]) (cases "payload rec = []"; simp add: n assms(3) move_payload_def)
qed

lemma takenD:
  assumes "ids_taken rec d d1" "ok d"
  shows "contents (de_ix E) (db_ix d1) = contents (de_ix E) (db_ix d)" "ix_vs (db_ix d1) = ix_vs (db_ix d)"
    "engine_ok (de_ix E) (de_medium E) vertex sound (db_ix d1)" "alive_in E r d1 = alive_in E r d"
    "is_update_id (internal_id rec) \<Longrightarrow> internal_id rec = next_update_internal_id (db_ids d) \<Longrightarrow>
       db_ids d1 = (db_ids d)\<lparr>next_update_internal_id := internal_id rec + 1\<rparr>"
    "\<not> is_update_id (internal_id rec) \<Longrightarrow> db_ids d1 = db_ids d"
    "rows_of vw (db_meta d1) = rows_of vw (db_meta d)" "db_meta d1 \<noteq> None" "db_live d1 = db_live d" "db_oplog d1 = db_oplog d"
proof -
  have "is_alive f (observe_update_id i m) r = is_alive f m r" for f i m
    by (simp add: is_alive_def observe_update_id_def)
  then show "alive_in E r d1 = alive_in E r d" using assms(1) by (simp add: ids_taken_def alive_in_def)
qed (use assms okD(1) in \<open>simp_all add: ids_taken_def observe_update_id_def\<close>)

text \<open>A record that fits is replayed with its effect on the view.\<close>

definition replayed :: "op_record \<Rightarrow> ('g, 'db) db \<Rightarrow> ('g, 'db) db \<Rightarrow> bool" where
  "replayed rec d d' \<longleftrightarrow> ok d' \<and> view d' = v_apply (ev_fl (de_ix E)) rec (view d) \<and> db_oplog d' = db_oplog d"

lemma fits_free:
  assumes "ok d" "view_ok (view d)" "rec_fits (ev_dim (de_ix E)) rec (view d)" "op rec \<noteq> kOpDelete"
  shows "contents (de_ix E) (db_ix d) (internal_id rec) = None" "internal_id rec \<noteq> k_invalid_node_id"
    "rows_of vw (db_meta d) (internal_id rec) = None" "is_update_id (internal_id rec) \<Longrightarrow> internal_id rec = next_update_internal_id (db_ids d)"
    "next_update_internal_id (db_ids d) \<noteq> - 1"
proof -
  note F = fits_version [OF assms(2-4), unfolded free_version_def]
  show "contents (de_ix E) (db_ix d) (internal_id rec) = None" using F by (simp add: db_view_def)
  then show "rows_of vw (db_meta d) (internal_id rec) = None" 
    using view_okD(6) [OF assms(2), of "internal_id rec"]
    by (cases "rows_of vw (db_meta d) (internal_id rec)") (auto simp: db_view_def)
  show "next_update_internal_id (db_ids d) \<noteq> - 1" using F by (simp add: db_view_def)
  show "is_update_id (internal_id rec) \<Longrightarrow> internal_id rec = next_update_internal_id (db_ids d)"
    using F direct_not_update [of "real_id rec"] by (auto simp: db_view_def)
  show "internal_id rec \<noteq> k_invalid_node_id" using F next_valid [OF assms(2), of "real_id rec"] by (auto simp: k_invalid_node_id_def)
qed

lemma replay_end:
  assumes "st = OK \<Longrightarrow> replayed rec d (db_writes_update Suc d')" "\<And>st d'. (st = OK \<Longrightarrow> replayed rec d d') \<Longrightarrow> P st d'"
  shows "if st \<noteq> OK then P st d' else wp (bnd (modify (db_writes_update Suc)) (\<lambda>_. ret OK)) d' P Q"
  using assms by (cases "st = OK") (auto intro!: wp_bnd wp_modify wp_ret)

lemma wp_replay_insert:
  assumes ok: "ok d" and V: "view_ok (view d)" and fits: "rec_fits (ev_dim (de_ix E)) rec (view d)" "op rec = kOpInsert"
    and room: "length (ps_pages (ix_vs (db_ix d))) < 2 ^ 31" and d1: "ids_taken rec d d1"
    and P: "\<And>st d'. (st = OK \<Longrightarrow> replayed rec d d') \<Longrightarrow> P st d'"
  shows "wp (replay_put E rec) d1 P Q"
proof -
  let ?i = "internal_id rec" and ?r = "real_id rec"
  note F = fits_free [OF ok V fits(1)] and T = takenD [OF d1 ok]
  obtain s0 where meta: "db_meta d1 = Some s0" using T(8) by blast
  have fit: "is_direct_id ?r" "\<not> v_alive (view d) ?r" "?i = (if v_dead (view d) ?r then v_next (view d) else ?r)"
    "encoding rec = kEncodingSQ8" "length (recbytes rec) = ev_dim (de_ix E) + 8"
    using fits by (simp_all add: rec_fits_def)
  have u: "is_update_id ?i \<longleftrightarrow> v_dead (view d) ?r" using fit(1,3) view_okD(4) [OF V] direct_not_update by auto
  let ?d2 = "if is_update_id ?i then set_ix (ix_ids_update (record_update_mapping (de_lg E) ?r ?i) (db_ix d1)) d1 else d1"
  have ids2: "db_ids ?d2 = (if v_dead (view d) ?r then record_update_mapping (de_lg E) ?r ?i ((db_ids d)\<lparr>next_update_internal_id := ?i + 1\<rparr>) else db_ids d)"
  proof (cases "is_update_id ?i")
    case True
    have "op rec \<noteq> kOpDelete" using fits(2) by simp
    then have "db_ids d1 = (db_ids d)\<lparr>next_update_internal_id := ?i + 1\<rparr>" using T(5) [OF True] F(4) True by blast
    then show ?thesis using True u by simp
  qed (use T(6) u in simp)
  have same2: "contents (de_ix E) (db_ix ?d2) = contents (de_ix E) (db_ix d)" "ix_vs (db_ix ?d2) = ix_vs (db_ix d)" using T(1,2) by simp_all
  have step: "wp (bnd (modify (db_live_update (\<lambda>n. n + 1))) (\<lambda>_. bnd (get (\<lambda>d. db_meta d = None)) (\<lambda>none.
      ok_then (if none then ret OK else replay_payload E rec) (bnd (modify (db_writes_update Suc)) (\<lambda>_. ret OK))))) (set_ix ix ?d2) P Q"
    if ix: "engine_ok (de_ix E) (de_medium E) vertex sound ix" "ix_ids ix = db_ids ?d2"
      "contents (de_ix E) ix = (contents (de_ix E) (db_ix ?d2))(?i \<mapsto> decoded (recbytes rec))"
      "\<And>m. vs_exists (ev_vs (de_ix E)) m (ix_vs ix) \<longleftrightarrow> m = ?i \<or> vs_exists (ev_vs (de_ix E)) m (ix_vs (db_ix ?d2))" for ix
  proof -
    let ?d4 = "db_live_update (\<lambda>n. n + 1) (set_ix ix ?d2)"
    have "wp (replay_payload E rec) ?d4 (\<lambda>st d'. if st \<noteq> OK then P st d' else wp (bnd (modify (db_writes_update Suc)) (\<lambda>_. ret OK)) d' P Q) Q"
    proof (rule wp_replay_payload_insert [OF _ _ fits(2)])
      show "db_meta ?d4 \<noteq> None" "rows_of vw (db_meta ?d4) ?i = None" using T(7,8) F(3) fits(2) by simp_all
      fix st s' assume "st = OK \<Longrightarrow> rows_of vw (Some s') = (if payload rec \<noteq> [] then (rows_of vw (db_meta ?d4))(?i \<mapsto> payload rec) else rows_of vw (db_meta ?d4))"
      then have rows: "st = OK \<Longrightarrow> rows_of vw (db_meta (?d4\<lparr>db_meta := Some s'\<rparr>))
        = (if payload rec \<noteq> [] then (rows_of vw (db_meta d))(?i \<mapsto> payload rec) else rows_of vw (db_meta d))" using T(7) by simp
      have "replayed rec d (db_writes_update Suc (?d4\<lparr>db_meta := Some s'\<rparr>))" if st: "st = OK"
      proof -
        note I = insertFresh_effect [OF ok V fit(1,2) _ fit(3) ix(1) _ _ _ _ _ _ rows [OF st], where lg = "de_lg E" and w = "decoded (recbytes rec)"]
        have "ok (?d4\<lparr>db_meta := Some s'\<rparr>)" "view (?d4\<lparr>db_meta := Some s'\<rparr>) = v_store ?r ?i None (payload rec) (decoded (recbytes rec)) (view d)"
          by (rule I; use F(5) T(8,9) ix(2-4) fits(2) ids2 same2 in \<open>simp only: db.simps stored_index.simps\<close>; simp)+
        then show ?thesis using fits(2) T(10) by (simp add: replayed_def v_apply_def)
      qed
      then show "if st \<noteq> OK then P st (?d4\<lparr>db_meta := Some s'\<rparr>)
          else wp (bnd (modify (db_writes_update Suc)) (\<lambda>_. ret OK)) (?d4\<lparr>db_meta := Some s'\<rparr>) P Q"
        by (rule replay_end) (assumption, rule P)
    qed
    then show ?thesis using meta by (intro wp_bnd wp_modify wp_get) (simp add: wp_ok_then)
  qed
  have "wp (ok_then (try_insert E ?i (vs_decode (ev_vs (de_ix E)) (recbytes rec)) (Some (recbytes rec)))
     (bnd (modify (db_live_update (\<lambda>n. n + 1))) (\<lambda>_. bnd (get (\<lambda>d. db_meta d = None)) (\<lambda>none.
      ok_then (if none then ret OK else replay_payload E rec) (bnd (modify (db_writes_update Suc)) (\<lambda>_. ret OK)))))) ?d2 P Q"
    by (rule wp_replay_node [OF _ _ F(2) _ fit(5) step]) (use F(1) T room fits(2) in \<open>auto intro: P\<close>)
  moreover have "\<not> alive_in E ?r d1" using T(4) alive_view [OF ok] fit(2) by simp
  ultimately show ?thesis unfolding replay_put_def using fit(4,5) fits(2)
    by (cases "is_update_id ?i") (simp_all add: step_eqs)
qed

lemma wp_replay_update:
  assumes ok: "ok d" and V: "view_ok (view d)" and fits: "rec_fits (ev_dim (de_ix E)) rec (view d)" "op rec = kOpUpdate"
    and room: "length (ps_pages (ix_vs (db_ix d))) < 2 ^ 31" and d1: "ids_taken rec d d1"
    and P: "\<And>st d'. (st = OK \<Longrightarrow> replayed rec d d') \<Longrightarrow> P st d'"
  shows "wp (replay_put E rec) d1 P Q"
proof -
  let ?i = "internal_id rec" and ?r = "real_id rec"
  note F = fits_free [OF ok V fits(1)] and T = takenD [OF d1 ok]
  obtain s0 where meta: "db_meta d1 = Some s0" using T(8) by blast
  have fit: "v_alive (view d) ?r" "?i = next_update_internal_id (db_ids d)" "aux rec = resolve_internal (db_ids d) ?r"
    "encoding rec = kEncodingSQ8" "length (recbytes rec) = ev_dim (de_ix E) + 8"
    using fits by (simp_all add: rec_fits_def db_view_def)
  have u: "is_update_id ?i" using fit(2) view_okD(4) [OF V] by (simp add: db_view_def)
  have ids1: "db_ids d1 = (db_ids d)\<lparr>next_update_internal_id := ?i + 1\<rparr>" by (rule T(5) [OF u fit(2)])
  have step: "wp (bnd (bnd (on_ids (record_update_mapping (de_lg E) ?r ?i)) (\<lambda>_. on_ids (tombstone (aux rec)))) (\<lambda>_.
      bnd (get (\<lambda>d. db_meta d = None)) (\<lambda>none. ok_then (if none then ret OK else replay_payload E rec)
      (bnd (modify (db_writes_update Suc)) (\<lambda>_. ret OK))))) (set_ix ix d1) P Q"
    if ix: "engine_ok (de_ix E) (de_medium E) vertex sound ix" "ix_ids ix = db_ids d1"
      "contents (de_ix E) ix = (contents (de_ix E) (db_ix d1))(?i \<mapsto> decoded (recbytes rec))"
      "\<And>m. vs_exists (ev_vs (de_ix E)) m (ix_vs ix) \<longleftrightarrow> m = ?i \<or> vs_exists (ev_vs (de_ix E)) m (ix_vs (db_ix d1))" for ix
  proof -
    let ?ix = "ix_ids_update (tombstone (aux rec)) (ix_ids_update (record_update_mapping (de_lg E) ?r ?i) ix)"
    let ?d4 = "set_ix ?ix d1"
    have "wp (replay_payload E rec) ?d4 (\<lambda>st d'. if st \<noteq> OK then P st d' else wp (bnd (modify (db_writes_update Suc)) (\<lambda>_. ret OK)) d' P Q) Q"
    proof (rule wp_replay_payload_update [OF _ _ fits(2)])
      show "db_meta ?d4 \<noteq> None" "rows_of vw (db_meta ?d4) ?i = None" using T(7,8) F(3) fits(2) by simp_all
      fix st s' assume "st = OK \<Longrightarrow> rows_of vw (Some s') = (rows_of vw (db_meta ?d4))
        (?i := (if payload rec \<noteq> [] then Some (payload rec) else rows_of vw (db_meta ?d4) (aux rec)), aux rec := None)"
      then have rows: "st = OK \<Longrightarrow> rows_of vw (db_meta (?d4\<lparr>db_meta := Some s'\<rparr>)) = (rows_of vw (db_meta d))
        (?i := (if payload rec \<noteq> [] then Some (payload rec) else rows_of vw (db_meta d) (aux rec)), aux rec := None)" using T(7) by simp
      have "replayed rec d (db_writes_update Suc (?d4\<lparr>db_meta := Some s'\<rparr>))" if st: "st = OK"
      proof -
        note I = update_effect [OF ok V fit(1) _ fit(2,3) _ _ _ _ _ _ _ rows [OF st], where ix = ?ix and lg = "de_lg E" and w = "decoded (recbytes rec)"]
        have "ok (?d4\<lparr>db_meta := Some s'\<rparr>)"
          "view (?d4\<lparr>db_meta := Some s'\<rparr>) = v_store ?r ?i (Some (aux rec)) (payload rec) (decoded (recbytes rec)) (view d)"
          by (rule I; use F(5) T(1,2,8,9) ix fits(2) ids1 in simp)+
        then show ?thesis using fits(2) T(10) by (simp add: replayed_def v_apply_def)
      qed
      then show "if st \<noteq> OK then P st (?d4\<lparr>db_meta := Some s'\<rparr>)
          else wp (bnd (modify (db_writes_update Suc)) (\<lambda>_. ret OK)) (?d4\<lparr>db_meta := Some s'\<rparr>) P Q"
        by (rule replay_end) (assumption, rule P)
    qed
    then show ?thesis using meta by (intro wp_bnd wp_on_ids wp_get) (simp add: wp_ok_then o_def)
  qed
  have "wp (ok_then (try_insert E ?i (vs_decode (ev_vs (de_ix E)) (recbytes rec)) (Some (recbytes rec)))
     (bnd (bnd (on_ids (record_update_mapping (de_lg E) ?r ?i)) (\<lambda>_. on_ids (tombstone (aux rec)))) (\<lambda>_.
      bnd (get (\<lambda>d. db_meta d = None)) (\<lambda>none. ok_then (if none then ret OK else replay_payload E rec)
      (bnd (modify (db_writes_update Suc)) (\<lambda>_. ret OK)))))) d1 P Q"
    by (rule wp_replay_node [OF _ _ F(2) _ fit(5) step]) (use F(1) T room fits(2) in \<open>auto intro: P\<close>)
  moreover have "alive_in E ?r d1" using T(4) alive_view [OF ok] fit(1) by simp
  ultimately show ?thesis unfolding replay_put_def using fit(4,5) fits(2)
    by (simp add: step_eqs)
qed

lemma wp_replayRecord:
  assumes ok: "ok d" and V: "view_ok (view d)" and fits: "rec_fits (ev_dim (de_ix E)) rec (view d)"
    and room: "length (ps_pages (ix_vs (db_ix d))) < 2 ^ 31"
    and P: "\<And>st d'. (st = OK \<Longrightarrow> replayed rec d d') \<Longrightarrow> P st d'"
  shows "wp (replayRecord E rec False) d P Q"
proof (cases "op rec = kOpDelete")
  case True
  then have i: "internal_id rec = v_resolve (view d) (real_id rec)" using fits by (simp add: rec_fits_def)
  have "wp (bnd (modify (db_writes_update Suc)) (\<lambda>_. ret OK)) d' P Q"
    if "ok d'" "view d' = v_delete (real_id rec) (internal_id rec) (view d)" "db_oplog d' = db_oplog d" for d'
    by (intro wp_bnd wp_modify wp_ret P) (use that True in \<open>simp add: replayed_def v_apply_def\<close>)
  note K = this
  have no: "op rec \<noteq> kOpAbort" "\<not> (op rec = kOpInsert \<or> op rec = kOpUpdate)" using True by simp_all
  show ?thesis unfolding replayRecord_def if_not_P [OF no(1)] if_not_P [OF no(2)] if_P [OF True] if_False
    by (rule wp_bnd, rule wp_get, rule wp_delete_steps [OF ok V i refl refl refl alive_view [OF ok]]) (auto intro: P K)
next
  case False
  then have t: "op rec = kOpInsert \<or> op rec = kOpUpdate" using fits by (simp add: rec_fits_def split: if_splits)
  have "wp (ok_then (replay_ids E rec) (replay_put E rec)) d P Q"
    by (rule wp_ok_then, rule wp_replay_ids [OF ok])
      (use t in \<open>auto intro: P wp_replay_insert [OF ok V fits _ room] wp_replay_update [OF ok V fits _ room]\<close>)
  moreover have "op rec \<noteq> kOpAbort" using t by auto
  ultimately show ?thesis unfolding replayRecord_def using t by simp
qed

end

end
