(* ===== verification/Db_Runs.thy ===== *)
theory Db_Runs
  imports Db_Replay
begin

text \<open>
  Sequences of calls on dense ids. A sequence of successful calls acts on the documents of a store as
  on a finite map, and replaying what the log has of it on the state it started from gives the
  documents of a prefix of the sequence, of all of it when the log lost nothing.
\<close>

subsection \<open>Calls and their records\<close>

datatype db_call =
    CallPut bool node_id vec bytes bytes
  | CallDelete node_id

primrec call :: "('g, 'db) db_env \<Rightarrow> db_call \<Rightarrow> ('g, 'db, status) dba" where
  "call E (CallPut update r v js key) = (if update then updateDense E r v js key else insertDense E r v js key)"
| "call E (CallDelete r) = deleteDense E r"

primrec call_id :: "db_call \<Rightarrow> node_id" where
  "call_id (CallPut update r v js key) = r"
| "call_id (CallDelete r) = r"

text \<open>What a call does to the documents: the vector is the one the store's encoding keeps; a payload
  that is not given stays.\<close>

primrec doc_step :: "float_ops \<Rightarrow> db_call \<Rightarrow> (real_id \<rightharpoonup> vec \<times> bytes option) \<Rightarrow> (real_id \<rightharpoonup> vec \<times> bytes option)" where
  "doc_step F (CallPut update r v js key) m =
     m(r \<mapsto> (disk_dequantize F (disk_quantize F v), if js \<noteq> [] then Some js else Option.bind (m r) snd))"
| "doc_step F (CallDelete r) m = m(r := None)"

text \<open>Successful calls in a row, each with room for one more record.\<close>

inductive runs :: "('g, 'db) db_env \<Rightarrow> ('g, 'db) db \<Rightarrow> db_call list \<Rightarrow> ('g, 'db) db \<Rightarrow> bool" for E where
  runs_nil: "runs E d [] d"
| runs_cons: "has_room d \<Longrightarrow> is_direct_id (call_id c) \<Longrightarrow> call E c d = Some (Inr OK, d1) \<Longrightarrow> runs E d1 cs d' \<Longrightarrow> runs E d (c # cs) d'"

inductive_cases runs_NilE: "runs E d [] d'"
inductive_cases runs_ConsE: "runs E d (c # cs) d'"

definition unnumbered :: "op_record \<Rightarrow> op_record" where
  "unnumbered r = r\<lparr>lsn := 0\<rparr>"

text \<open>The log grew by these records, but for their numbers.\<close>

definition log_grows :: "op_record list \<Rightarrow> ('g, 'db) db \<Rightarrow> ('g, 'db) db \<Rightarrow> bool" where
  "log_grows rs d d' \<longleftrightarrow> (\<forall>b xs. log_holds b d xs \<longrightarrow> (\<exists>ys. log_holds b d' (xs @ ys) \<and> map unnumbered ys = map unnumbered rs))"

primrec all_fit :: "nat \<Rightarrow> float_ops \<Rightarrow> op_record list \<Rightarrow> dview \<Rightarrow> bool" where
  "all_fit dims F [] V \<longleftrightarrow> True"
| "all_fit dims F (r # rs) V \<longleftrightarrow> rec_fits dims r V \<and> all_fit dims F rs (v_apply F r V)"

text \<open>The replay has room in the page table.\<close>

primrec replay_room :: "('g, 'db) db_env \<Rightarrow> op_record list \<Rightarrow> ('g, 'db) db \<Rightarrow> bool" where
  "replay_room E [] d \<longleftrightarrow> True"
| "replay_room E (r # rs) d \<longleftrightarrow> length (ps_pages (ix_vs (db_ix d))) < 2 ^ 31
     \<and> (case replayRecord E r False d of Some (Inr st, d') \<Rightarrow> replay_room E rs d' | _ \<Rightarrow> True)"

lemma unnumbered_sel [simp]:
  "v_apply F (unnumbered r) = v_apply F r" "rec_fits n (unnumbered r) = rec_fits n r" "op (unnumbered r) = op r"
  "docs_apply F (unnumbered r) = docs_apply F r"
  by (simp_all add: unnumbered_def v_apply_def rec_fits_def docs_apply_def fun_eq_iff)

lemma fits_unnumbered:
  assumes "map unnumbered rs = map unnumbered rs'"
  shows "all_fit n F rs V = all_fit n F rs' V" "fold (v_apply F) rs V = fold (v_apply F) rs' V"
proof -
  have "\<forall>V. all_fit n F rs V = all_fit n F rs' V \<and> fold (v_apply F) rs V = fold (v_apply F) rs' V"
    using assms
  proof (induction rs arbitrary: rs')
    case (Cons r rs)
    then obtain q qs where q: "rs' = q # qs" "unnumbered r = unnumbered q" "map unnumbered rs = map unnumbered qs" by auto
    have "v_apply F r = v_apply F q" "rec_fits n r = rec_fits n q" using q(2) unnumbered_sel(1,2) by metis+
    then show ?case using Cons.IH [OF q(3)] q(1) by simp
  qed simp
  then show "all_fit n F rs V = all_fit n F rs' V" "fold (v_apply F) rs V = fold (v_apply F) rs' V" by blast+
qed

lemma all_fit_apply:
  "view_ok V \<Longrightarrow> all_fit n F rs V \<Longrightarrow> view_ok (fold (v_apply F) rs V) \<and> v_docs (fold (v_apply F) rs V) = fold (docs_apply F) rs (v_docs V)"
proof (induction rs arbitrary: V)
  case (Cons r rs)
  note A = fits_apply [OF Cons.prems(1), of n r F]
  show ?case using Cons.IH [of "v_apply F r V"] Cons.prems A by simp
qed simp

lemma all_fit_append: "all_fit n F (rs @ rs') V \<longleftrightarrow> all_fit n F rs V \<and> all_fit n F rs' (fold (v_apply F) rs V)"
  by (induction rs arbitrary: V) auto

lemma logged_grows: "logged r d d' \<Longrightarrow> log_grows [r] d d'"
  by (fastforce simp: logged_def log_grows_def unnumbered_def)

lemma grows_trans: "log_grows rs d d1 \<Longrightarrow> log_grows rs' d1 d2 \<Longrightarrow> log_grows (rs @ rs') d d2"
proof -
  assume g: "log_grows rs d d1" "log_grows rs' d1 d2"
  show ?thesis unfolding log_grows_def
  proof (intro allI impI)
    fix b xs assume "log_holds b d xs"
    then obtain ys where y: "log_holds b d1 (xs @ ys)" "map unnumbered ys = map unnumbered rs" using g(1) by (auto simp: log_grows_def)
    then obtain zs where "log_holds b d2 ((xs @ ys) @ zs)" "map unnumbered zs = map unnumbered rs'" using g(2) unfolding log_grows_def by blast
    then show "\<exists>ys. log_holds b d2 (xs @ ys) \<and> map unnumbered ys = map unnumbered (rs @ rs')"
      using y(2) by (intro exI [of _ "ys @ zs"]) simp
  qed
qed

context database begin

lemma count_docs: "ok d \<Longrightarrow> view_ok (view d) \<Longrightarrow> VectorCount d = card (dom (v_docs (view d)))"
proof -
  assume "view_ok (view d)"
  then have "v_live (view d) = int (card (dom (v_docs (view d))))" by (rule view_okD(7))
  moreover have "VectorCount d = nat (v_live (view d))" by (simp add: VectorCount_def db_view_def)
  ultimately show ?thesis by simp
qed

text \<open>A call returns; where it reports success, it acted as its record, if it logged one.\<close>

lemma wp_call:
  assumes "ok d" "view_ok (view d)" "has_room d" "is_direct_id (call_id c)"
    and P: "\<And>st d'. (st = OK \<Longrightarrow> \<exists>rs. length rs \<le> 1 \<and> all_fit (ev_dim (de_ix E)) (ev_fl (de_ix E)) rs (view d) \<and> ok d'
        \<and> view d' = fold (v_apply (ev_fl (de_ix E))) rs (view d) \<and> log_grows rs d d'
        \<and> fold (docs_apply (ev_fl (de_ix E))) rs (v_docs (view d)) = doc_step (ev_fl (de_ix E)) c (v_docs (view d))) \<Longrightarrow> P st d'"
  shows "wp (call E c) d P Q"
proof (cases c)
  case (CallPut update r v js key)
  have n: "v_next (view d) \<noteq> - 1" using assms(3) by (simp add: has_room_def db_view_def)
  have "wp (putDense E update r v js key) d P Q"
  proof (rule wp_putDense [OF assms(1-3)])
    show r: "is_direct_id r" using assms(4) CallPut by simp
    fix st d' assume e: "st = OK \<Longrightarrow> length v = ev_dim (de_ix E) \<and> effect (put_record r v js key (view d)) d d'"
    show "P st d'"
    proof (rule P)
      assume st: "st = OK"
      let ?r = "put_record r v js key (view d)"
      have l: "length v = ev_dim (de_ix E)" "effect ?r d d'" using e [OF st] by blast+
      have "v \<noteq> []" using l(1) dims by auto
      then have "docs_apply (ev_fl (de_ix E)) ?r (v_docs (view d)) = doc_step (ev_fl (de_ix E)) c (v_docs (view d))"
        by (simp add: docs_apply_def put_record_def CallPut)
      moreover have "rec_fits (ev_dim (de_ix E)) ?r (view d)" by (rule put_record_fits [OF r l(1) n])
      moreover have "log_grows [?r] d d'" by (rule logged_grows) (use l(2) in \<open>simp add: effect_def\<close>)
      ultimately show "\<exists>rs. length rs \<le> 1 \<and> all_fit (ev_dim (de_ix E)) (ev_fl (de_ix E)) rs (view d) \<and> ok d'
        \<and> view d' = fold (v_apply (ev_fl (de_ix E))) rs (view d) \<and> log_grows rs d d'
        \<and> fold (docs_apply (ev_fl (de_ix E))) rs (v_docs (view d)) = doc_step (ev_fl (de_ix E)) c (v_docs (view d))"
        using l(2) by (intro exI [of _ "[?r]"]) (simp add: effect_def)
    qed
  qed
  then show ?thesis using CallPut by (cases update) (simp_all add: insertDense_def updateDense_def)
next
  case (CallDelete r)
  let ?i = "v_resolve (view d) r" and ?r = "make_record E kOpDelete r (v_resolve (view d) r) 0 [] [] []"
  have r: "is_direct_id r" using assms(4) CallDelete by simp
  have "wp (deleteDense E r) d P Q"
  proof (rule wp_deleteDense [OF assms(1-3)])
    fix st d' assume e: "st = OK \<Longrightarrow> if v_vec (view d) ?i = None then view d' = view d \<and> ok d' \<and> db_oplog d' = db_oplog d else effect ?r d d'"
    show "P st d'"
    proof (rule P)
      assume st: "st = OK"
      show "\<exists>rs. length rs \<le> 1 \<and> all_fit (ev_dim (de_ix E)) (ev_fl (de_ix E)) rs (view d) \<and> ok d'
        \<and> view d' = fold (v_apply (ev_fl (de_ix E))) rs (view d) \<and> log_grows rs d d'
        \<and> fold (docs_apply (ev_fl (de_ix E))) rs (v_docs (view d)) = doc_step (ev_fl (de_ix E)) c (v_docs (view d))"
      proof (cases "v_vec (view d) ?i = None")
        case True
        have "v_docs (view d) r = None" using True by (simp add: v_docs_def v_alive_def)
        then have "doc_step (ev_fl (de_ix E)) c (v_docs (view d)) = v_docs (view d)" by (auto simp: CallDelete fun_eq_iff)
        moreover have "log_grows [] d d'" using e [OF st] True by (simp add: log_grows_def log_holds_def)
        ultimately show ?thesis using e [OF st] True by (intro exI [of _ "[]"]) simp
      next
        case False
        have "rec_fits (ev_dim (de_ix E)) ?r (view d)" using False r by (simp add: rec_fits_def)
        moreover have "effect ?r d d'" using e [OF st] False by (simp split: if_splits)
        moreover have "log_grows [?r] d d'" by (rule logged_grows) (use calculation in \<open>simp add: effect_def\<close>)
        ultimately show ?thesis
          by (intro exI [of _ "[?r]"]) (simp add: effect_def docs_apply_def CallDelete)
      qed
    qed
  qed
  then show ?thesis using CallDelete by simp
qed

lemma runs_effect:
  assumes "runs E d cs d'" "ok d" "view_ok (view d)"
  shows "ok d' \<and> view_ok (view d') \<and> v_docs (view d') = fold (doc_step (ev_fl (de_ix E))) cs (v_docs (view d))
    \<and> (\<exists>rs. all_fit (ev_dim (de_ix E)) (ev_fl (de_ix E)) rs (view d) \<and> log_grows rs d d'
        \<and> fold (docs_apply (ev_fl (de_ix E))) rs (v_docs (view d)) = fold (doc_step (ev_fl (de_ix E))) cs (v_docs (view d))
        \<and> (\<forall>n. \<exists>k \<le> length cs. fold (docs_apply (ev_fl (de_ix E))) (take n rs) (v_docs (view d))
              = fold (doc_step (ev_fl (de_ix E))) (take k cs) (v_docs (view d))))"
  using assms
proof (induction rule: runs.induct)
  case (runs_nil d)
  show ?case using runs_nil by (auto intro!: exI [of _ "[]"] simp: log_grows_def)
next
  case (runs_cons d c d1 cs d')
  let ?F = "ev_fl (de_ix E)" and ?n = "ev_dim (de_ix E)"
  obtain rs where rs: "length rs \<le> 1" "all_fit ?n ?F rs (view d)" "ok d1" "view d1 = fold (v_apply ?F) rs (view d)" "log_grows rs d d1"
    "fold (docs_apply ?F) rs (v_docs (view d)) = doc_step ?F c (v_docs (view d))"
    using wp_call [OF runs_cons.prems(1,2) runs_cons.hyps(1,2),
        of "\<lambda>st d'. st = OK \<longrightarrow> (\<exists>rs. length rs \<le> 1 \<and> all_fit ?n ?F rs (view d) \<and> ok d' \<and> view d' = fold (v_apply ?F) rs (view d)
          \<and> log_grows rs d d' \<and> fold (docs_apply ?F) rs (v_docs (view d)) = doc_step ?F c (v_docs (view d)))" no_throw]
      runs_cons.hyps(3) by (auto simp: wp_def)
  note A = all_fit_apply [OF runs_cons.prems(2) rs(2)]
  have V1: "view_ok (view d1)" "v_docs (view d1) = doc_step ?F c (v_docs (view d))" using A rs(4,6) by simp_all
  obtain rs' where rs': "all_fit ?n ?F rs' (view d1)" "log_grows rs' d1 d'"
    "fold (docs_apply ?F) rs' (v_docs (view d1)) = fold (doc_step ?F) cs (v_docs (view d1))"
    "\<And>n. \<exists>k \<le> length cs. fold (docs_apply ?F) (take n rs') (v_docs (view d1)) = fold (doc_step ?F) (take k cs) (v_docs (view d1))"
    using runs_cons.IH [OF rs(3) V1(1)] by blast
  have pre: "\<exists>k \<le> length (c # cs). fold (docs_apply ?F) (take n (rs @ rs')) (v_docs (view d)) = fold (doc_step ?F) (take k (c # cs)) (v_docs (view d))" for n
  proof (cases "n < length rs")
    case True
    then have "n = 0" using rs(1) by simp
    then show ?thesis by (intro exI [of _ 0]) simp
  next
    case False
    then have t: "take n (rs @ rs') = rs @ take (n - length rs) rs'" by simp
    obtain k where k: "k \<le> length cs" "fold (docs_apply ?F) (take (n - length rs) rs') (v_docs (view d1)) = fold (doc_step ?F) (take k cs) (v_docs (view d1))"
      using rs'(4) by blast
    then show ?thesis unfolding t by (intro exI [of _ "Suc k"]) (simp add: rs(6) V1(2))
  qed
  have "all_fit ?n ?F (rs @ rs') (view d)" using rs(2,4) rs'(1) by (simp add: all_fit_append)
  moreover have "log_grows (rs @ rs') d d'" using rs(5) rs'(2) by (rule grows_trans)
  moreover have "fold (docs_apply ?F) (rs @ rs') (v_docs (view d)) = fold (doc_step ?F) (c # cs) (v_docs (view d))"
    using rs(6) rs'(3) V1(2) by simp
  ultimately show ?case using runs_cons.IH [OF rs(3) V1(1)] V1(2) pre by (intro conjI exI [of _ "rs @ rs'"]) auto
qed

subsection \<open>Replaying the log\<close>

lemma fit_no_abort: "all_fit n F rs V \<Longrightarrow> r \<in> set rs \<Longrightarrow> op r \<noteq> kOpAbort"
  by (induction rs arbitrary: V) (auto simp: rec_fits_def split: if_splits)

lemma collect_no_abort: "\<forall>r \<in> set rs. op r \<noteq> kOpAbort \<Longrightarrow> deliver collect_abort rs as = (OK, as)"
  by (induction rs) (simp_all add: collect_abort_def)

lemma deliver_replay:
  assumes "ok d" "view_ok (view d)" "all_fit (ev_dim (de_ix E)) (ev_fl (de_ix E)) rs (view d)" "replay_room E rs d"
    and "deliver (replay_call E []) rs (Some d) = (st, s')"
  shows "\<exists>d'. s' = Some d' \<and> (st = OK \<longrightarrow> ok d' \<and> view d' = fold (v_apply (ev_fl (de_ix E))) rs (view d))"
  using assms
proof (induction rs arbitrary: d)
  case (Cons r rs)
  have fit: "rec_fits (ev_dim (de_ix E)) r (view d)" using Cons.prems(3) by simp
  have "wp (replayRecord E r False) d (\<lambda>st d'. st = OK \<longrightarrow> replayed r d d') no_throw"
    by (rule wp_replayRecord [OF Cons.prems(1,2) fit]) (use Cons.prems(4) in auto)
  then obtain st1 d1 where r: "replayRecord E r False d = Some (Inr st1, d1)" "st1 = OK \<longrightarrow> replayed r d d1"
    by (auto simp: wp_value)
  then have c: "replay_call E [] r (Some d) = (st1, Some d1)" by (simp add: replay_call_def)
  show ?case
  proof (cases "st1 = OK")
    case True
    then have v: "ok d1" "view d1 = v_apply (ev_fl (de_ix E)) r (view d)" using r(2) by (simp_all add: replayed_def)
    show ?thesis
      using Cons.IH [OF v(1)] fits_apply(1) [OF Cons.prems(2) fit, of "ev_fl (de_ix E)"] Cons.prems(3-5) c r(1) True v(2)
      by simp
  qed (use c Cons.prems(5) in auto)
qed auto

lemma replay_log_ok:
  assumes "ok d" "view_ok (view d)" "b = si_lsn (db_index d) + 1"
    and "all_fit (ev_dim (de_ix E)) (ev_fl (de_ix E)) (log_accepted b segs) (view d)" "replay_room E (log_accepted b segs) d"
    and reads: "\<forall>f. de_log_read E f"
  shows "\<exists>res d'. replay_log E segs d = Some (Inr res, d')
    \<and> (\<forall>l. res = Inr l \<longrightarrow> ok d' \<and> view d' = fold (v_apply (ev_fl (de_ix E))) (log_accepted b segs) (view d))"
proof -
  have rd: "\<forall>(f, c) \<in> set (relevant b segs). de_log_read E f" using reads by auto
  obtain st1 stats1 as where p1: "log_scan (de_log_read E) segs b collect_abort [] = (st1, stats1, as)" by (metis prod_cases3)
  have "deliver collect_abort (log_accepted b segs) [] = (OK, [])"
    by (rule collect_no_abort) (use fit_no_abort [OF assms(4)] in blast)
  then have as: "st1 = OK" "as = []" using log_scan_deliver [OF rd p1] by simp_all
  obtain st2 stats2 s2 where p2: "log_scan (de_log_read E) segs b (replay_call E []) (Some d) = (st2, stats2, s2)" by (metis prod_cases3)
  obtain d' where d': "s2 = Some d'" "st2 = OK \<longrightarrow> ok d' \<and> view d' = fold (v_apply (ev_fl (de_ix E))) (log_accepted b segs) (view d)"
    using deliver_replay [OF assms(1,2,4,5) log_scan_deliver [OF rd p2]] by blast
  show ?thesis using p1 p2 as d' assms(3) by (auto simp: replay_log_def Let_def)
qed

text \<open>After a crash the log holds a prefix of the records of the calls.\<close>

lemma crash_records:
  assumes "log_holds b d1 xs" "db_oplog d1 = Some lg" "log_segs lg = segs @ [(f, c)]"
  shows "\<exists>n. log_accepted b (segs @ [(f, take k c)]) = take n xs \<and> (length c \<le> k \<longrightarrow> n = length xs)"
proof -
  have l: "log_ok b lg" "log_accepted b (log_segs lg) = xs" using assms(1,2) by (auto simp: log_holds_def)
  show ?thesis
  proof (cases "length c \<le> k")
    case True
    then show ?thesis using l(2) assms(3) by (intro exI [of _ "length xs"]) simp
  next
    case False
    obtain t where "xs = log_accepted b (segs @ [(f, take k c)]) @ t"
      using crash_prefix(1) [OF l(1) assms(3) refl] l(2) by metis
    then show ?thesis using False by (intro exI [of _ "length (log_accepted b (segs @ [(f, take k c)]))"]) simp
  qed
qed

lemma replay_recovers:
  assumes d: "ok d" "view_ok (view d)" "log_holds b d []" "b = si_lsn (db_index d) + 1"
    and run: "runs E d cs d1" "db_oplog d1 = Some lg" "log_segs lg = segs @ [(f, c)]"
    and d2: "ok d2" "view d2 = view d" "si_lsn (db_index d2) = si_lsn (db_index d)"
    and reads: "\<forall>f. de_log_read E f" and room: "replay_room E (log_accepted b (segs @ [(f, take k c)])) d2"
  shows "\<exists>res d3. replay_log E (segs @ [(f, take k c)]) d2 = Some (Inr res, d3)
    \<and> (\<forall>l. res = Inr l \<longrightarrow> ok d3 \<and> view_ok (view d3)
        \<and> (\<exists>n \<le> length cs. v_docs (view d3) = fold (doc_step (ev_fl (de_ix E))) (take n cs) (v_docs (view d)) \<and> (length c \<le> k \<longrightarrow> n = length cs)))"
proof -
  let ?F = "ev_fl (de_ix E)" and ?n = "ev_dim (de_ix E)" and ?segs = "segs @ [(f, take k c)]"
  obtain rs where rs: "all_fit ?n ?F rs (view d)" "log_grows rs d d1"
    "fold (docs_apply ?F) rs (v_docs (view d)) = fold (doc_step ?F) cs (v_docs (view d))"
    "\<And>n. \<exists>k \<le> length cs. fold (docs_apply ?F) (take n rs) (v_docs (view d)) = fold (doc_step ?F) (take k cs) (v_docs (view d))"
    using runs_effect [OF run(1) d(1,2)] by blast
  obtain ys where ys: "log_holds b d1 ys" "map unnumbered ys = map unnumbered rs" 
    using rs(2) [unfolded log_grows_def, rule_format, OF d(3)] by auto
  obtain n where n: "log_accepted b ?segs = take n ys" "length c \<le> k \<longrightarrow> n = length ys" using crash_records [OF ys(1) run(2,3)] by blast
  have tk: "map unnumbered (take n ys) = map unnumbered (take n rs)" using ys(2) by (metis take_map)
  have "all_fit ?n ?F (take n rs) (view d)" using rs(1) all_fit_append [of ?n ?F "take n rs" "drop n rs"] by simp
  then have fit: "all_fit ?n ?F (log_accepted b ?segs) (view d2)" and
    v: "fold (v_apply ?F) (log_accepted b ?segs) (view d2) = fold (v_apply ?F) (take n rs) (view d)"
    using fits_unnumbered [OF tk] n(1) d2(2) by simp_all
  note A = all_fit_apply [OF d(2) \<open>all_fit ?n ?F (take n rs) (view d)\<close>]
  have V2: "view_ok (view d2)" "b = si_lsn (db_index d2) + 1" using d(2,4) d2(2,3) by simp_all
  obtain res d3 where r: "replay_log E ?segs d2 = Some (Inr res, d3)"
    "\<forall>l. res = Inr l \<longrightarrow> ok d3 \<and> view d3 = fold (v_apply ?F) (log_accepted b ?segs) (view d2)"
    using replay_log_ok [OF d2(1) V2 fit room reads] by blast
  have len: "length ys = length rs" using ys(2) by (metis length_map)
  have "\<exists>m \<le> length cs. fold (docs_apply ?F) (take n rs) (v_docs (view d)) = fold (doc_step ?F) (take m cs) (v_docs (view d))
      \<and> (length c \<le> k \<longrightarrow> m = length cs)"
  proof (cases "length c \<le> k")
    case True
    then show ?thesis using n(2) len rs(3) by (intro exI [of _ "length cs"]) simp
  qed (use rs(4) [of n] in simp)
  then show ?thesis using r v A by (intro exI [of _ res] exI [of _ d3]) auto
qed

end

end
