(* ===== verification/Db_Laws.thy ===== *)
theory Db_Laws
  imports Db_Runs
begin

text \<open>
  What the engine promises of its documents, its count, its recovery and its checkpoint file, and a
  small store on which the interface is instantiated.
\<close>

subsection \<open>A small store\<close>

text \<open>One vector under id 0, no payloads, an empty log.\<close>

definition tiny_disk :: disk where
  "tiny_disk = \<lparr>dk_open = True, dk_limit = None, dk_sync = True, dk_link = True, dk_rename = True, dk_sync_dir = True,
     dk_sync_payloads = OK, dk_count = True\<rparr>"

definition tiny_db_env :: "(mem_graph, ((cf \<times> bytes) \<times> bytes) list) db_env" where
  "tiny_db_env =
     \<lparr>de_ix = tiny_env, de_medium = (\<lambda>_. None), de_kv = mem_kv, de_parse = (\<lambda>_. None), de_dump = (\<lambda>_. []), de_lg = ln,
      de_level = (\<lambda>_. 0), de_log_io = (\<lambda>_. io_good), de_log_read = (\<lambda>_. True), de_disk = (\<lambda>_. tiny_disk),
      de_encoding = 1, de_metric = True, de_interval = 0, de_oplog = True, de_segment_bytes = kDefaultSegmentBytes\<rparr>"

definition tiny_db :: "(mem_graph, ((cf \<times> bytes) \<times> bytes) list) db" where
  "tiny_db =
     \<lparr>db_index = \<lparr>si_ix = tiny_index\<lparr>ix_ids := id_map_init ln\<rparr>, si_lsn = 0, si_live = 1, si_mode = 0\<rparr>,
      db_meta = Some \<lparr>ms_db = [], has_id_map = False, point_gets = 0, parses = 0\<rparr>, db_oplog = Some fresh_log,
      db_live = 1, db_next_dense = 0, db_writes = 0, db_ops = 0, db_due = False, db_keyed = False, db_closed = False,
      db_main_lsn = 0, db_files = \<lparr>f_meta = None, f_prev = None, f_tmp = None, f_count = None, f_oplog = None\<rparr>,
      db_log_calls = 0, db_checkpoints = 0\<rparr>"

lemma tiny_db_fields [simp]:
  "de_ix tiny_db_env = tiny_env" "de_medium tiny_db_env = (\<lambda>_. None)" "de_kv tiny_db_env = mem_kv" "de_lg tiny_db_env = ln"
  "de_level tiny_db_env = (\<lambda>_. 0)" "de_log_io tiny_db_env = (\<lambda>_. io_good)" "de_log_read tiny_db_env = (\<lambda>_. True)"
  "de_interval tiny_db_env = 0" "de_metric tiny_db_env"
  by (simp_all add: tiny_db_env_def)

interpretation mem_db: database tiny_db_env mem_rocks mem_vertex "\<lambda>_. True" mem_view
proof (rule database.intro)
  show "rocks_graph mem_rocks mem_vertex (\<lambda>_. True)" by (rule mem.rocks_graph_axioms)
  show "kv_get (de_kv tiny_db_env) s c k = Inl e \<Longrightarrow> e = NotFound" for s c k e
    by (simp add: mem_kv_def split: option.splits)
  show "fst (kv_write (de_kv tiny_db_env) ops s) \<noteq> NotFound" for ops s by (simp add: mem_kv_def)
qed (simp_all add: tiny_engine mem_kv_contract)

lemma tiny_db_contents: "contents tiny_env (db_ix tiny_db) n \<noteq> None \<longleftrightarrow> n = 0"
  by (simp add: contents_def tiny_db_def paged_view_def buffered_page_of)

lemma tiny_db_ids: "db_ids tiny_db = id_map_init ln" "db_live tiny_db = 1" "db_oplog tiny_db = Some fresh_log" "ix_vs (db_ix tiny_db) = buffered_paged"
  "db_meta tiny_db \<noteq> None" "rows_of mem_view (db_meta tiny_db) = Map.empty" "si_lsn (db_index tiny_db) = 0"
  by (simp_all add: tiny_db_def rows_of_def mem_view_def row_def fun_eq_iff)

lemma id_init: "resolve_internal (id_map_init ln) r = r" "\<not> is_tombstoned (id_map_init ln) r" "next_update_internal_id (id_map_init ln) = kFirstUpdateId"
  by (simp_all add: id_map_init_def resolve_internal_def is_tombstoned_def)

lemma tiny_db_ok: "store_ok tiny_db_env mem_vertex (\<lambda>_. True) tiny_db"
proof -
  have "engine_ok tiny_env (\<lambda>_. None) mem_vertex (\<lambda>_. True) (db_ix tiny_db)"
    using tiny_ok by (simp add: tiny_db_def)
  moreover have "id_map_ok (db_ids tiny_db)" using id_map_init_ok by (simp add: tiny_db_ids)
  moreover have "vs_exists (ev_vs tiny_env) n (ix_vs (db_ix tiny_db)) \<longleftrightarrow> n = 0" for n
    by (simp add: tiny_env_def paged_ops_def tiny_db_ids paged_exists_def buffered_page_of is_deleted_at_def)
      (simp add: buffered_paged_def new_paged_def paged_open_def Let_def kPageSize_def ensureDeleteFileSize_def patch_def zero_fill_def nth_append)
  ultimately show ?thesis using tiny_db_contents tiny_db_ids(5) by (simp add: store_ok_def)
qed

lemma one_document:
  assumes "\<And>n. contents tiny_env (db_ix d) n \<noteq> None \<longleftrightarrow> n = 0" "db_ids d = id_map_init ln" "db_live d = 1"
    "rows_of mem_view (db_meta d) = Map.empty"
  shows "v_alive (db_view tiny_db_env mem_view d) r \<longleftrightarrow> r = 0" "view_ok (db_view tiny_db_env mem_view d)"
    "dom (v_docs (db_view tiny_db_env mem_view d)) = {0}"
proof -
  let ?V = "db_view tiny_db_env mem_view d"
  have V: "v_resolve ?V r = r" "\<not> v_dead ?V r" "v_vec ?V r \<noteq> None \<longleftrightarrow> r = 0" "v_row ?V r = None" "v_live ?V = 1" "v_next ?V = kFirstUpdateId" for r
    using assms(1) by (simp_all add: db_view_def assms(2-4) id_init)
  have al: "v_alive ?V r \<longleftrightarrow> r = 0" for r using V by (auto simp: v_alive_def)
  then show "v_alive ?V r \<longleftrightarrow> r = 0" .
  show dom: "dom (v_docs ?V) = {0}" unfolding dom_docs al using id_ranges(1) by blast
  then have c: "v_live ?V = int (card (dom (v_docs ?V)))" using V(5) by simp
  have z: "\<not> is_update_id (0 :: node_id)" by (simp add: is_update_id_def)
  show "view_ok ?V" unfolding view_ok_def c V(1,6)
    using V(2-4) z id_ranges(3) by (intro conjI allI impI) metis+
qed

lemmas tiny_document = one_document [where d = tiny_db, OF tiny_db_contents tiny_db_ids(1,2,6)]

lemmas tiny_view = tiny_document(1)

lemmas tiny_view_ok = tiny_document(2)

lemmas tiny_docs = tiny_document(3)

subsection \<open>Calls\<close>

text \<open>C6: Every insert, update and delete of a dense id returns a status, whatever the log, the graph or
  the payload store report; where it is success, the store is in order and its documents and count are
  those of the call.\<close>

theorem db_call_returns:
  assumes "database E rg vertex sound vw" "store_ok E vertex sound d" "view_ok (db_view E vw d)" "has_room d" "is_direct_id (call_id c)"
  shows "\<exists>st d'. call E c d = Some (Inr st, d') \<and> (st = OK \<longrightarrow> store_ok E vertex sound d' \<and> view_ok (db_view E vw d')
    \<and> v_docs (db_view E vw d') = doc_step (ev_fl (de_ix E)) c (v_docs (db_view E vw d))
    \<and> VectorCount d' = card (dom (v_docs (db_view E vw d'))))"
proof -
  note D = assms(1)
  let ?P = "\<lambda>st d'. st = OK \<longrightarrow> store_ok E vertex sound d' \<and> view_ok (db_view E vw d')
    \<and> v_docs (db_view E vw d') = doc_step (ev_fl (de_ix E)) c (v_docs (db_view E vw d))"
  have "wp (call E c) d ?P no_throw"
  proof (rule database.wp_call [OF D assms(2-5)])
    fix st d' assume e: "st = OK \<Longrightarrow> \<exists>rs. length rs \<le> 1 \<and> all_fit (ev_dim (de_ix E)) (ev_fl (de_ix E)) rs (db_view E vw d) \<and> store_ok E vertex sound d'
      \<and> db_view E vw d' = fold (v_apply (ev_fl (de_ix E))) rs (db_view E vw d) \<and> log_grows rs d d'
      \<and> fold (docs_apply (ev_fl (de_ix E))) rs (v_docs (db_view E vw d)) = doc_step (ev_fl (de_ix E)) c (v_docs (db_view E vw d))"
    show "?P st d'" using e all_fit_apply [OF assms(3)] by metis
  qed
  then obtain st d' where "call E c d = Some (Inr st, d')" "?P st d'" by (auto simp: wp_value)
  then show ?thesis using database.count_docs [OF D] by blast
qed

lemma tiny_room: "has_room tiny_db"
  by (simp add: has_room_def tiny_db_ids id_init kFirstUpdateId_def kUpdateIdBit_def fresh_log_def buffered_paged_def)

theorem db_call_returns_witness:
  "\<exists>st d'. deleteDense tiny_db_env 0 tiny_db = Some (Inr st, d') \<and> (st = OK \<longrightarrow> VectorCount d' = 0)"
  using db_call_returns [OF mem_db.database_axioms tiny_db_ok tiny_view_ok tiny_room, of "CallDelete 0"] tiny_docs
  by (auto simp: id_ranges(1))

lemma tiny_meta: "db_meta tiny_db = Some \<lparr>ms_db = [], has_id_map = False, point_gets = 0, parses = 0\<rparr>"
  by (simp add: tiny_db_def)

lemma tiny_write: "kv_write mem_kv ops db = (OK, fold mem_op ops db)"
  by (simp add: mem_kv_def)

lemma tiny_delete: "\<exists>d' lg'. deleteDense tiny_db_env 0 tiny_db = Some (Inr OK, d') \<and> db_oplog d' = Some lg' \<and> length (log_segs lg') = 1"
proof -
  have ex: "vs_exists (ev_vs tiny_env) 0 buffered_paged"
    using mem_db.okD(3) [OF tiny_db_ok, of 0] tiny_db_contents [of 0] by (simp add: tiny_db_ids)
  have al: "alive_in tiny_db_env 0 d" if "db_ix d = db_ix tiny_db" for d
    using mem_db.alive_view [OF tiny_db_ok, of 0] tiny_view that by (simp add: alive_in_def)
  show ?thesis using ex al
    by (simp add: deleteDense_def in_scope_def bnd_def modify_def get_def tiny_db_ids id_init got_then_def ok_then_def ret_def logOp_def
        count_op_def on_log_def log_append_def fresh_log_def io_good_def kDefaultSegmentBytes_def kMaxBodyBytes_def body_size_def
        make_record_def kFixedBody_def on_ids_eq on_meta_def ms_delete_def tiny_write tiny_meta Let_def write_last_def)
qed

text \<open>C5: Successful calls in a row act on the documents of the store as on a finite map from ids to a
  vector and a payload, and the count is the number of its entries.\<close>

theorem db_runs_documents:
  assumes "database E rg vertex sound vw" "store_ok E vertex sound d" "view_ok (db_view E vw d)" "runs E d cs d'"
  shows "store_ok E vertex sound d' \<and> view_ok (db_view E vw d')
    \<and> v_docs (db_view E vw d') = fold (doc_step (ev_fl (de_ix E))) cs (v_docs (db_view E vw d))
    \<and> VectorCount d' = card (dom (v_docs (db_view E vw d')))"
  using database.runs_effect [OF assms(1,4,2,3)] database.count_docs [OF assms(1)] by blast

lemma tiny_run:
  assumes "deleteDense tiny_db_env 0 tiny_db = Some (Inr OK, d')"
  shows "runs tiny_db_env tiny_db [CallDelete 0] d'"
  by (rule runs_cons [OF tiny_room _ _ runs_nil]) (use assms id_ranges(1) in simp_all)

theorem db_runs_documents_witness: "\<exists>d'. runs tiny_db_env tiny_db [CallDelete 0] d' \<and> VectorCount d' = 0"
proof -
  obtain d' where d': "deleteDense tiny_db_env 0 tiny_db = Some (Inr OK, d')" using tiny_delete by blast
  show ?thesis using db_runs_documents [OF mem_db.database_axioms tiny_db_ok tiny_view_ok tiny_run [OF d']] tiny_run [OF d'] tiny_docs
    by auto
qed

text \<open>C7: A lookup of a dense id returns what the documents say: the stored vector and the payload, or
  the empty object for none; an id without a document is reported as not found. The documents stay as they are.\<close>

theorem db_get_document:
  assumes "database E rg vertex sound vw" "store_ok E vertex sound d" "view_ok (db_view E vw d)" "is_direct_id r"
  shows "(\<exists>d'. getDense E r d = Some (Inr (case v_docs (db_view E vw d) r of None \<Rightarrow> Inl NotFound | Some (v, p) \<Rightarrow> Inr v), d')
      \<and> db_view E vw d' = db_view E vw d \<and> store_ok E vertex sound d')
    \<and> (\<exists>d'. getPayloadDense E r d = Some (Inr (Inr (case Option.bind (v_docs (db_view E vw d) r) snd of None \<Rightarrow> no_document | Some js \<Rightarrow> js)), d')
      \<and> db_view E vw d' = db_view E vw d \<and> store_ok E vertex sound d')"
proof -
  let ?V = "db_view E vw d"
  have doc: "v_docs ?V r = (if v_alive ?V r then Some (the (v_vec ?V (v_resolve ?V r)), v_row ?V (v_resolve ?V r)) else None)"
    using assms(4) by (simp add: v_docs_def)
  have row: "v_row ?V (v_resolve ?V r) = None" if "\<not> v_alive ?V r"
    using that view_okD(6) [OF assms(3), of "v_resolve ?V r"] unfolding v_alive_def by metis
  have "Option.bind (v_docs ?V r) snd = v_row ?V (v_resolve ?V r)" using row by (simp add: doc)
  then show ?thesis
    using database.wp_getDense [OF assms(1,2), of r no_throw] database.wp_getPayloadDense [OF assms(1,2), of r no_throw]
    by (auto simp: wp_value doc)
qed

theorem db_get_document_witness:
  "\<exists>v d'. getDense tiny_db_env 0 tiny_db = Some (Inr (Inr v), d')"
proof -
  obtain v p where "v_docs (db_view tiny_db_env mem_view tiny_db) 0 = Some (v, p)"
    using tiny_docs domD [of 0 "v_docs (db_view tiny_db_env mem_view tiny_db)"] by auto
  then show ?thesis using db_get_document [OF mem_db.database_axioms tiny_db_ok tiny_view_ok id_ranges(1)] by auto
qed

subsection \<open>Recovery\<close>

text \<open>C4: After a crash, replaying the log on the state of the last checkpoint returns; where it succeeds,
  the documents are those of the successful calls since, of all of them when the last segment is whole,
  and of the first ones otherwise.\<close>

theorem db_replay_recovers:
  assumes "database E rg vertex sound vw" "store_ok E vertex sound d" "view_ok (db_view E vw d)" "log_holds b d []"
    and "b = si_lsn (db_index d) + 1" "runs E d cs d1" "db_oplog d1 = Some lg" "log_segs lg = segs @ [(f, c)]"
    and "store_ok E vertex sound d2" "db_view E vw d2 = db_view E vw d" "si_lsn (db_index d2) = si_lsn (db_index d)"
    and "\<forall>f. de_log_read E f" "replay_room E (log_accepted b (segs @ [(f, take k c)])) d2"
  shows "\<exists>res d3. replay_log E (segs @ [(f, take k c)]) d2 = Some (Inr res, d3)
    \<and> (\<forall>l. res = Inr l \<longrightarrow> store_ok E vertex sound d3 \<and> view_ok (db_view E vw d3)
        \<and> (\<exists>n \<le> length cs. v_docs (db_view E vw d3) = fold (doc_step (ev_fl (de_ix E))) (take n cs) (v_docs (db_view E vw d))
            \<and> (length c \<le> k \<longrightarrow> n = length cs)))"
  by (rule database.replay_recovers [OF assms])

lemma dom_one: "dom m = {a} \<Longrightarrow> m(a := None) = Map.empty"
  by (auto simp: fun_eq_iff)

theorem db_replay_recovers_witness:
  "\<exists>lg :: oplog. \<exists>res d3. replay_log tiny_db_env (log_segs lg) tiny_db = Some (Inr res, d3)
    \<and> (\<forall>l. res = Inr l \<longrightarrow> v_docs (db_view tiny_db_env mem_view d3) = Map.empty)"
proof -
  obtain d1 lg where d1: "deleteDense tiny_db_env 0 tiny_db = Some (Inr OK, d1)" "db_oplog d1 = Some lg" "length (log_segs lg) = 1"
    using tiny_delete by blast
  obtain f c where segs: "log_segs lg = [] @ [(f, c)]" using d1(3) by (auto simp: length_Suc_conv)
  have h: "log_holds 1 tiny_db []" using fresh_log_ok fresh_log_empty by (simp add: log_holds_def tiny_db_ids)
  have "wp (call tiny_db_env (CallDelete 0)) tiny_db (\<lambda>st d'. st = OK \<longrightarrow> (\<exists>rs. length rs \<le> 1 \<and> log_grows rs tiny_db d')) no_throw"
    by (rule mem_db.wp_call [OF tiny_db_ok tiny_view_ok tiny_room]) (simp add: id_ranges(1), blast)
  then obtain rs where rs: "length rs \<le> 1" "log_grows rs tiny_db d1" using d1(1) by (auto simp: wp_def)
  obtain ys where ys: "log_holds 1 d1 ys" "map unnumbered ys = map unnumbered rs"
    using rs(2) [unfolded log_grows_def, rule_format, OF h] by auto
  have "length ys \<le> 1" using rs(1) ys(2) by (metis length_map)
  moreover have "log_accepted 1 ([] @ [(f, take (length c) c)]) = ys" using ys(1) d1(2) segs by (auto simp: log_holds_def)
  ultimately have room: "replay_room tiny_db_env (log_accepted 1 ([] @ [(f, take (length c) c)])) tiny_db"
    by (cases ys) (auto simp: tiny_db_ids buffered_paged_def split: option.splits sum.splits)
  have one: "(1 :: u64) = si_lsn (db_index tiny_db) + 1" by (simp add: tiny_db_ids)
  have reads: "\<forall>f. de_log_read tiny_db_env f" by simp
  note R = db_replay_recovers [OF mem_db.database_axioms tiny_db_ok tiny_view_ok h one tiny_run [OF d1(1)] d1(2) segs tiny_db_ok refl refl reads room]
  obtain res d3 where r: "replay_log tiny_db_env ([] @ [(f, take (length c) c)]) tiny_db = Some (Inr res, d3)"
    "\<forall>l. res = Inr l \<longrightarrow> (\<exists>n \<le> length [CallDelete 0]. v_docs (db_view tiny_db_env mem_view d3)
        = fold (doc_step (ev_fl (de_ix tiny_db_env))) (take n [CallDelete 0]) (v_docs (db_view tiny_db_env mem_view tiny_db)) \<and> (length c \<le> length c \<longrightarrow> n = length [CallDelete 0]))"
    using R by blast
  have "(v_docs (db_view tiny_db_env mem_view tiny_db))(0 := None) = Map.empty" using tiny_docs by (rule dom_one)
  then have "\<forall>l. res = Inr l \<longrightarrow> v_docs (db_view tiny_db_env mem_view d3) = Map.empty" using r(2) by auto
  moreover have "replay_log tiny_db_env (log_segs lg) tiny_db = Some (Inr res, d3)" using r(1) segs by simp
  ultimately show ?thesis by blast
qed

end
