(* ===== verification/Db_Durable.thy ===== *)
theory Db_Durable
  imports Db_Laws Index_Reopen
begin

text \<open>
  The checkpoint file: it is replaced in one step, a damaged one is noticed and the previous one taken,
  and a loaded one shows what was written.
\<close>

subsection \<open>Replacing the file\<close>

lemma install_files:
  assumes "install_metadata dk bs f0 = (st, f)"
  shows "f_meta f = f_meta f0 \<or> f_meta f = Some bs \<and> (\<forall>old. f_meta f0 = Some old \<longrightarrow> f_prev f = Some old)"
    "st = OK \<Longrightarrow> f_meta f = Some bs \<and> (\<forall>old. f_meta f0 = Some old \<longrightarrow> f_prev f = Some old)"
  using assms by (auto simp: install_metadata_def Let_def split: if_splits)

text \<open>What a checkpoint may do to the file.\<close>

definition replaced :: "('g, 'db) db_env \<Rightarrow> files \<Rightarrow> ('g, 'db) db \<Rightarrow> bool" where
  "replaced E f0 d \<longleftrightarrow> (\<exists>si. f_meta (db_files d) = Some (snd (SerializeMetadata (de_ix E) (de_encoding E) None si))
     \<and> si = db_index d \<and> (\<forall>old. f_meta f0 = Some old \<longrightarrow> f_prev (db_files d) = Some old))"

lemma serialize_limit:
  "SerializeMetadata E enc limit si = (OK, bs) \<Longrightarrow> bs = snd (SerializeMetadata E enc None si)"
  by (auto simp: SerializeMetadata_def Let_def split: option.splits if_splits)

lemma wp_writeMetadataFile:
  assumes "\<And>st d'. db_index d' = db_index d \<Longrightarrow> db_meta d' = db_meta d \<Longrightarrow> db_live d' = db_live d \<Longrightarrow> db_oplog d' = db_oplog d \<Longrightarrow>
      f_meta (db_files d') = f_meta (db_files d) \<or> replaced E (db_files d) d' \<Longrightarrow> (st = OK \<Longrightarrow> replaced E (db_files d) d') \<Longrightarrow> P st d'"
  shows "wp (writeMetadataFile E dk) d P Q"
proof (cases "dk_open dk")
  case False
  then show ?thesis unfolding writeMetadataFile_def using assms [of d IOError] by (simp add: wp_ret)
next
  case True
  obtain st bs where s: "SerializeMetadata (de_ix E) (de_encoding E) (dk_limit dk) (db_index d) = (st, bs)" by (cases "SerializeMetadata (de_ix E) (de_encoding E) (dk_limit dk) (db_index d)")
  show ?thesis
  proof (cases "st = OK")
    case False
    have "P st (db_files_update (f_tmp_update (\<lambda>_. Some bs)) d)" by (rule assms) (use False in simp_all)
    then show ?thesis using True s False
      by (simp add: writeMetadataFile_def wp_def bnd_def get_def on_files_def modify_def ret_def)
  next
    case ok: True
    obtain st' f where i: "install_metadata dk bs (db_files d) = (st', f)" by (cases "install_metadata dk bs (db_files d)")
    have b: "bs = snd (SerializeMetadata (de_ix E) (de_encoding E) None (db_index d))" using s ok serialize_limit by metis
    have "P st' (d\<lparr>db_files := f\<rparr>)"
      by (rule assms) (use install_files [OF i] b in \<open>auto simp: replaced_def\<close>)
    then show ?thesis using True s ok i
      by (simp add: writeMetadataFile_def wp_def bnd_def get_def upd_def)
  qed
qed

subsection \<open>Checkpoints\<close>

lemma ticked:
  assumes "paged_ok dims io s"
  shows "paged_ok dims io (s\<lparr>ps_clock := c\<rparr>)" "same_bytes s (s\<lparr>ps_clock := c\<rparr>)"
proof -
  let ?t = "s\<lparr>ps_clock := c\<rparr>"
  have inv: "paged_inv io unpatched s" and d: "ps_dim s = dims" using assms by (simp_all add: paged_ok_def)
  have C: "core ?t = core s" by (simp add: core_def shard_of_def)
  have P: "page_bytes ?t q = page_bytes s q" for q by (rule page_bytes_cong, rule holding_cong) simp_all
  have I: "pages_ok s" "bufs_ok s" "page_cache_ok unpatched s" using inv by (simp_all add: paged_inv_def)
  have "bufs_ok ?t" using I(2) bufs_ok_cong [of ?t s] by simp
  moreover have "page_cache_ok unpatched ?t" using I(3) by (simp add: page_cache_ok_def P)
  moreover have "pages_ok ?t" using I(1) by (simp add: pages_ok_def core_locs [OF C])
  ultimately have "paged_inv io unpatched ?t" using inv by (simp add: paged_inv_def core_ok [OF C])
  then show "paged_ok dims io ?t" using d by (simp add: paged_ok_def)
  show "same_bytes s ?t" using C P by (simp add: same_bytes_def)
qed

lemma wp_syncData:
  assumes "paged_ok dims io s"
  shows "wp (syncData io) s (\<lambda>ok s'. ok \<and> paged_ok dims io s' \<and> same_bytes s s') Q"
proof -
  have inv: "paged_inv io unpatched s" and d: "ps_dim s = dims" using assms by (simp_all add: paged_ok_def)
  have st: "steady io" using inv by (simp add: paged_inv_def)
  show ?thesis unfolding syncData_def
  proof (rule wp_bnd, rule wp_conseq [OF wp_flushWrites [OF inv]])
    fix u :: unit and s' assume s': "paged_inv io unpatched s' \<and> same_bytes s s' \<and> (\<forall>p. holding s' p = None)"
    then have "core s' = core s" by (simp add: same_bytes_def)
    then have "ps_dim s' = ps_dim s" by (simp add: core_def)
    then have "paged_ok dims io s'" using s' d by (simp add: paged_ok_def)
    moreover have "same_bytes s s'" using s' by blast
    ultimately have p: "paged_ok dims io (s'\<lparr>ps_clock := c\<rparr>)" "same_bytes s (s'\<lparr>ps_clock := c\<rparr>)" for c
      using ticked [of dims io s' c] same_bytes_trans by blast+
    show "wp (bnd (io_step io) (\<lambda>r1. if r1 \<noteq> None then ret False else bnd (io_step io) (\<lambda>r2. ret (r2 = None)))) s'
        (\<lambda>ok s'. ok \<and> paged_ok dims io s' \<and> same_bytes s s') Q"
      by (rule wp_bnd, rule steady_step [OF st], simp, rule wp_bnd, rule steady_step [OF st], simp add: wp_ret p)
  qed
qed

lemma wp_on_index: "wp m (db_ix d) (\<lambda>a ix. P a (set_ix ix d)) (\<lambda>ix. Q (set_ix ix d)) \<Longrightarrow> wp (on_index m) d P Q"
  by (auto simp: wp_def on_index_def split: option.splits sum.splits)

lemma wp_on_vectors:
  "wp m (ix_vs (db_ix d)) (\<lambda>a s. P a (set_ix ((db_ix d)\<lparr>ix_vs := s\<rparr>) d)) (\<lambda>s. Q (set_ix ((db_ix d)\<lparr>ix_vs := s\<rparr>) d))
    \<Longrightarrow> wp (on_index (on_store m)) d P Q"
  by (rule wp_on_index) (auto simp: wp_def on_store_def split: option.splits sum.splits)

lemma wp_truncate_log:
  assumes "\<And>d'. db_index d' = db_index d \<Longrightarrow> db_meta d' = db_meta d \<Longrightarrow> db_live d' = db_live d \<Longrightarrow> db_files d' = db_files d \<Longrightarrow> P () d'"
  shows "wp (truncate_log E) d P Q"
proof (cases "db_oplog d")
  case None
  then show ?thesis unfolding truncate_log_def using assms [of d] by (intro wp_bnd wp_get) (simp add: wp_ret)
next
  case (Some lg)
  have "wp (on_log E (\<lambda>io. log_truncate_below io (db_main_lsn d + 1))) d (\<lambda>_ d'. P () d') Q"
    by (rule wp_on_log [OF Some]) (rule assms, simp_all)
  then show ?thesis unfolding truncate_log_def using Some
    by (intro wp_bnd wp_get) (simp, intro wp_bnd wp_get, erule wp_conseq, simp_all add: wp_ret)
qed

text \<open>What a checkpoint leaves alone, and what it may do to the file.\<close>

definition checkpointed :: "('g, 'db) db_env \<Rightarrow> ('g, 'db) db \<Rightarrow> status \<Rightarrow> ('g, 'db) db \<Rightarrow> bool" where
  "checkpointed E d st d' \<longleftrightarrow> db_meta d' = db_meta d \<and> db_live d' = db_live d
     \<and> (f_meta (db_files d') = f_meta (db_files d) \<or> replaced E (db_files d) d') \<and> (st = OK \<longrightarrow> replaced E (db_files d) d' \<and> si_live (db_index d') = db_live d')"

lemma wp_install_checkpoint:
  assumes P: "\<And>st d'. db_ix d' = db_ix d \<Longrightarrow> checkpointed E d st d' \<Longrightarrow> P st d'"
  shows "wp (install_checkpoint E dk) d P Q"
proof -
  have w: "wp (ok_then (writeMetadataFile E dk) (bnd (modify (persistCount dk)) (\<lambda>_. bnd (modify (\<lambda>d. d\<lparr>db_writes := 0, db_ops := 0\<rparr>)) (\<lambda>_.
      bnd (truncate_log E) (\<lambda>_. bnd (modify (\<lambda>d. d\<lparr>db_main_lsn := si_lsn (db_index d)\<rparr>)) (\<lambda>_. ret OK)))))) d1 P Q"
    if d1: "db_ix d1 = db_ix d" "db_meta d1 = db_meta d" "db_live d1 = db_live d" "db_files d1 = db_files d" "si_live (db_index d1) = db_live d" for d1
  proof (rule wp_ok_then, rule wp_writeMetadataFile)
    fix st d2
    assume d2: "db_index d2 = db_index d1" "db_meta d2 = db_meta d1" "db_live d2 = db_live d1"
      "f_meta (db_files d2) = f_meta (db_files d1) \<or> replaced E (db_files d1) d2" "st = OK \<Longrightarrow> replaced E (db_files d1) d2"
    have "P st d2" by (rule P) (use d1 d2 in \<open>simp_all add: checkpointed_def\<close>)
    moreover have "wp (bnd (modify (persistCount dk)) (\<lambda>_. bnd (modify (\<lambda>d. d\<lparr>db_writes := 0, db_ops := 0\<rparr>)) (\<lambda>_.
      bnd (truncate_log E) (\<lambda>_. bnd (modify (\<lambda>d. d\<lparr>db_main_lsn := si_lsn (db_index d)\<rparr>)) (\<lambda>_. ret OK))))) d2 P Q" if "st = OK"
      using d1 d2 that by (intro wp_bnd wp_modify wp_truncate_log wp_ret P) (auto simp: checkpointed_def persistCount_def replaced_def)
    ultimately show "if st \<noteq> OK then P st d2 else wp (bnd (modify (persistCount dk)) (\<lambda>_. bnd (modify (\<lambda>d. d\<lparr>db_writes := 0, db_ops := 0\<rparr>)) (\<lambda>_.
      bnd (truncate_log E) (\<lambda>_. bnd (modify (\<lambda>d. d\<lparr>db_main_lsn := si_lsn (db_index d)\<rparr>)) (\<lambda>_. ret OK))))) d2 P Q" by simp
  qed
  show ?thesis unfolding install_checkpoint_def
    by (intro wp_bnd wp_get) (cases "db_oplog d"; simp add: on_stored_def; intro wp_bnd wp_modify wp_ret w; simp)
qed

lemma wp_checkpointLocked:
  assumes ok: "store_ok E vertex sound d"
    and P: "\<And>st d'. db_view E vw d' = db_view E vw d \<Longrightarrow> (db_writes d = 0 \<and> f_meta (db_files d) \<noteq> None \<and> st = OK \<and> d' = d) \<or> checkpointed E d st d' \<Longrightarrow> P st d'"
  shows "wp (checkpointLocked E) d P Q"
proof (cases "db_writes d = 0 \<and> f_meta (db_files d) \<noteq> None")
  case True
  then show ?thesis unfolding checkpointLocked_def by (intro wp_bnd wp_get) (simp add: wp_ret P)
next
  case False
  have pk: "paged_ok (ev_dim (de_ix E)) (de_medium E) (ix_vs (db_ix d))" using ok by (simp add: store_ok_def engine_ok_def index_ok_def)
  let ?dk = "de_disk E (db_checkpoints d)" and ?d1 = "d\<lparr>db_checkpoints := db_checkpoints d + 1\<rparr>"
  have seen: "db_view E vw d' = db_view E vw d"
    if "db_ix d' = ix" "ix_ids ix = db_ids d" "same_bytes (ix_vs (db_ix d)) (ix_vs ix)" "db_meta d' = db_meta d" "db_live d' = db_live d" for d' ix
    using that same_bytes_view [OF that(3), of "ev_fl (de_ix E)"] pk by (simp add: db_view_def contents_def paged_ok_def paged_inv_def)
  have rest: "wp (ok_then (on_index (syncGraph (de_ix E))) (bnd (get (\<lambda>d. db_meta d = None)) (\<lambda>none.
      ok_then (ret (if none then OK else dk_sync_payloads ?dk)) (install_checkpoint E ?dk)))) (set_ix ix ?d1) P Q"
    if ix: "ix_ids ix = db_ids d" "same_bytes (ix_vs (db_ix d)) (ix_vs ix)" for ix
  proof (rule wp_ok_then, rule wp_conseq)
    show "wp (on_index (syncGraph (de_ix E))) (set_ix ix ?d1) (\<lambda>_ d2. \<exists>ix'. d2 = set_ix ix' (set_ix ix ?d1) \<and> ix_ids ix' = db_ids d
        \<and> same_bytes (ix_vs (db_ix d)) (ix_vs ix')) Q"
      unfolding syncGraph_def by (rule wp_on_index, rule wp_upd) (use ix in \<open>auto split: prod.splits\<close>)
  next
    fix st d2 assume "\<exists>ix'. d2 = set_ix ix' (set_ix ix ?d1) \<and> ix_ids ix' = db_ids d \<and> same_bytes (ix_vs (db_ix d)) (ix_vs ix')"
    then obtain ix' where d2: "d2 = set_ix ix' (set_ix ix ?d1)" and ix': "ix_ids ix' = db_ids d" "same_bytes (ix_vs (db_ix d)) (ix_vs ix')" by blast
    let ?d2 = "set_ix ix' (set_ix ix ?d1)"
    have fin: "P st d3" if "db_ix d3 = ix'" "checkpointed E ?d2 st d3" for st d3
      by (rule P, rule seen [OF that(1) ix']) (use that(2) in \<open>simp_all add: checkpointed_def\<close>)
    have stop: "P st ?d2" if "st \<noteq> OK" for st by (rule fin) (use that in \<open>simp_all add: checkpointed_def\<close>)
    have "wp (bnd (get (\<lambda>d. db_meta d = None)) (\<lambda>none. ok_then (ret (if none then OK else dk_sync_payloads ?dk)) (install_checkpoint E ?dk))) ?d2 P Q"
      by (rule wp_bnd, rule wp_get, rule wp_ok_then, rule wp_ret) (use stop wp_install_checkpoint [of ?d2 E P, OF fin] in \<open>simp split: if_split\<close>)
    then show "if st \<noteq> OK then P st d2 else wp (bnd (get (\<lambda>d. db_meta d = None)) (\<lambda>none.
      ok_then (ret (if none then OK else dk_sync_payloads ?dk)) (install_checkpoint E ?dk))) d2 P Q" using stop d2 by simp
  qed
  have sync: "wp (on_index (on_store (syncData (de_medium E)))) ?d1 (\<lambda>ok d2. if \<not> ok then P IOError d2 else
      wp (ok_then (on_index (syncGraph (de_ix E))) (bnd (get (\<lambda>d. db_meta d = None)) (\<lambda>none.
      ok_then (ret (if none then OK else dk_sync_payloads ?dk)) (install_checkpoint E ?dk)))) d2 P Q) Q"
  proof -
    have p1: "paged_ok (ev_dim (de_ix E)) (de_medium E) (ix_vs (db_ix ?d1))" using pk by simp
    show ?thesis
      by (rule wp_on_vectors, rule wp_conseq [OF wp_syncData [OF p1, of no_throw]])
        (auto simp: no_throw_def intro!: rest [of "(db_ix d)\<lparr>ix_vs := s\<rparr>" for s, simplified])
  qed
  have nd: "wp (next_disk E) d P' Q \<longleftrightarrow> P' ?dk ?d1" for P' by (simp add: next_disk_def upd_def wp_def)
  show ?thesis unfolding checkpointLocked_def
    by (rule wp_bnd, rule wp_get, subst if_not_P, rule False, rule wp_bnd, unfold nd, rule wp_bnd)
      (rule wp_conseq [OF sync], auto simp: wp_ret split: if_splits)
qed

subsection \<open>Loading\<close>

lemma damaged_file:
  fixes E :: "(paged_store, 'g) env"
  assumes "snd (SerializeMetadata E enc None si) = pre @ v @ post" "length v = length w" "length v \<le> 4" "v \<noteq> w" "12 \<le> length pre" "4 \<le> length post"
  shows "DeserializeMetadata E lg io enc' (pre @ w @ post) si0 = Some (Corruption, si0)"
proof -
  let ?b = "SerializeMetadataImpl E enc si" and ?q = "take (length post - 4) post"
  have p: "drop 8 ?b = put_le 4 kMetadataVersion @ drop 12 ?b" "12 \<le> length ?b"
    by (simp_all add: SerializeMetadataImpl_def Let_def kMetadataMagic_def)
  have f: "?b @ put_le 4 (crc_value ?b) = pre @ v @ post" using assms(1) by (simp add: SerializeMetadata_def Let_def)
  have "length (?b @ put_le 4 (crc_value ?b)) = length (pre @ v @ post)" using f by simp
  then have lb: "length ?b = length pre + length v + (length post - 4)" using assms(6) by simp
  have "take (length ?b) (?b @ put_le 4 (crc_value ?b)) = take (length ?b) (pre @ v @ post)" using f by simp
  then have b: "?b = pre @ v @ ?q" using lb by simp
  have "drop (length ?b) (?b @ put_le 4 (crc_value ?b)) = drop (length ?b) (pre @ v @ post)" using f by simp
  then have c: "drop (length post - 4) post = put_le 4 (crc_value ?b)" using lb by simp
  have h: "take 4 (drop 8 (pre @ xs)) = take 4 (drop 8 pre)" for xs using assms(5) by simp
  have "take 4 (drop 8 ?b) = put_le 4 kMetadataVersion" by (subst p(1)) simp
  then have "take 4 (drop 8 (pre @ w @ post)) = put_le 4 kMetadataVersion" using h [of "v @ ?q"] h [of "w @ post"] b by metis
  then have ver: "get_le (take 4 (drop 8 (pre @ w @ post))) = kMetadataVersion" by simp
  have n: "length (pre @ w @ post) - 4 = length (pre @ w @ ?q)" using assms(6) by simp
  have cut: "take (length (pre @ w @ post) - 4) (pre @ w @ post) = pre @ w @ ?q"
    "drop (length (pre @ w @ post) - 4) (pre @ w @ post) = put_le 4 (crc_value ?b)" unfolding n using c assms(6) by simp_all
  have "crc_value (pre @ w @ ?q) \<noteq> crc_value ?b"
    using crc_update_burst [OF assms(2-4), of kInit pre ?q] by (simp add: b crc_value_def crc_finish_inj)
  then show ?thesis unfolding DeserializeMetadata_def Let_def ver cut using assms(5) by (simp add: kMetadataVersion_def)
qed

lemma load_intact:
  assumes "f_meta (db_files d) = Some bs"
    "DeserializeMetadata (de_ix E) (de_lg E) (de_medium E) (de_encoding E) bs (db_index d) = Some (OK, si)"
  shows "load_checkpoint E d = Some (Inr OK, d\<lparr>db_index := si, db_main_lsn := si_lsn si\<rparr>)"
  using assms by (simp add: load_checkpoint_def load_file_def ok_then_def bnd_def get_def ret_def modify_def split: option.splits)

lemma load_fallback:
  assumes "f_meta (db_files d) = Some bs" "f_prev (db_files d) = Some ps"
    "DeserializeMetadata (de_ix E) (de_lg E) (de_medium E) (de_encoding E) bs (db_index d) = Some (Corruption, db_index d)"
    "DeserializeMetadata (de_ix E) (de_lg E) (de_medium E) (de_encoding E) ps (db_index d) = Some (OK, si)"
  shows "load_checkpoint E d = Some (Inr OK, d\<lparr>db_index := si, db_main_lsn := si_lsn si, db_files := (db_files d)\<lparr>f_meta := None\<rparr>\<rparr>)"
proof -
  have "d\<lparr>db_index := db_index d\<rparr> = d" by (cases d) simp
  then show ?thesis using assms
    by (simp add: load_checkpoint_def load_file_def ok_then_def bnd_def get_def ret_def modify_def on_files_def)
qed

text \<open>The parts of a store as \<open>Open\<close> finds them: the vector files under fresh tables, the graph, an
  empty edge cache.\<close>

definition opened_on :: "('g, 'db) db_env \<Rightarrow> ('g \<Rightarrow> bool) \<Rightarrow> 'g stored_index \<Rightarrow> 'g stored_index \<Rightarrow> bool" where
  "opened_on E sound si si0 \<longleftrightarrow> index_fits (de_ix E) si \<and> fits (ix_vs (si_ix si)) \<and> at_rest (ix_vs (si_ix si))
     \<and> (\<exists>capacity cached buf_cap.
          paged_open (ev_dim (de_ix E)) capacity cached buf_cap (ps_file (ix_vs (si_ix si))) (ps_del (ix_vs (si_ix si))) = Some (ix_vs (si_ix si0))
          \<and> 0 < capacity \<and> capacity \<le> ps_total (ix_vs (si_ix si))
          \<and> double_to capacity (ps_total (ix_vs (si_ix si))) = ps_total (ix_vs (si_ix si)))
     \<and> sound (ix_gs (si_ix si0)) \<and> fresh_cache (ev_varint (de_ix E)) (ix_cache (si_ix si0))
     \<and> scratch_ok (ev_dense (de_ix E)) (ix_scratch (si_ix si0))"

text \<open>\<open>Open\<close> up to the replay of the log.\<close>

definition open_loaded ::
  "('g, 'db) db_env \<Rightarrow> bool option \<Rightarrow> (bool \<Rightarrow> status + 'db meta_store) \<Rightarrow> ('g, 'db, status) dba" where
  "open_loaded E mode ms =
     ok_then (load_checkpoint E) (
     ok_then (check_mode mode) (
     ok_then (bnd (get db_keyed) (\<lambda>keyed.
       case ms keyed of
         Inl st \<Rightarrow> ret st
       | Inr s \<Rightarrow> bnd (modify (db_meta_update (\<lambda>_. Some s))) (\<lambda>_. load_dense_counter E))) (
     bnd (modify load_live) (\<lambda>_. ret OK))))"

lemma seq_assoc: "bnd (bnd m f) g = bnd m (\<lambda>a. bnd (f a) g)"
  by (simp add: fun_eq_iff bnd_def split: option.splits sum.splits prod.splits)

lemma bnd_ret [simp]: "bnd (ret a) f = f a"
  by (simp add: fun_eq_iff bnd_def ret_def)

lemma bnd_if [simp]: "bnd (if b then m else m') f = (if b then bnd m f else bnd m' f)"
  by simp

lemma ok_then_assoc: "ok_then (ok_then m k) h = ok_then m (ok_then k h)"
  unfolding ok_then_def seq_assoc by (rule arg_cong [where f = "bnd m"]) (auto simp: fun_eq_iff)

lemma open_existing_split: "open_existing E mode ms = ok_then (open_loaded E mode ms) (recoverFromOpLog E)"
proof -
  have "bnd (modify load_live) (\<lambda>_. recoverFromOpLog E) = ok_then (bnd (modify load_live) (\<lambda>_. ret OK)) (recoverFromOpLog E)"
    by (simp add: ok_then_def seq_assoc)
  then show ?thesis by (simp add: open_existing_def open_loaded_def ok_then_assoc)
qed

context database
begin

lemma checkpoint_loads:
  assumes ok: "ok (d\<lparr>db_index := si\<rparr>)" and on: "opened_on E sound si si0"
  obtains si' where
    "DeserializeMetadata (de_ix E) (de_lg E) (de_medium E) (de_encoding E) (snd (SerializeMetadata (de_ix E) (de_encoding E) None si)) si0 = Some (OK, si')"
    "si_lsn si' = si_lsn si" "si_live si' = si_live si" "si_mode si' = si_mode si"
    "\<And>d'. db_index d' = si' \<Longrightarrow> db_meta d' \<noteq> None \<Longrightarrow> rows_of vw (db_meta d') = rows_of vw (db_meta d) \<Longrightarrow> db_live d' = db_live d \<Longrightarrow>
       ok d' \<and> view d' = view (d\<lparr>db_index := si\<rparr>)"
proof -
  let ?E = "de_ix E" and ?ix = "(si_ix si)\<lparr>ix_gs := ix_gs (si_ix si0), ix_cache := None\<rparr>"
  let ?si = "si\<lparr>si_ix := ?ix\<rparr>"
  have eng: "engine_ok ?E (de_medium E) vertex sound (si_ix ?si)"
    using ok on by (simp add: store_ok_def opened_on_def engine_ok_def index_ok_def cache_ok_def)
  have ids: "id_map_ok (ix_ids (si_ix ?si))" using ok by (simp add: store_ok_def)
  have fit: "index_fits ?E ?si" using on by (simp add: opened_on_def index_fits_def)
  have same: "SerializeMetadata ?E enc None ?si = SerializeMetadata ?E enc None si" for enc
    by (simp add: SerializeMetadata_def SerializeMetadataImpl_def header_of_def Let_def)
  obtain capacity cached buf_cap where cap:
    "paged_open (ev_dim ?E) capacity cached buf_cap (ps_file (ix_vs (si_ix ?si))) (ps_del (ix_vs (si_ix ?si))) = Some (ix_vs (si_ix si0))"
    "0 < capacity" "capacity \<le> ps_total (ix_vs (si_ix ?si))" "double_to capacity (ps_total (ix_vs (si_ix ?si))) = ps_total (ix_vs (si_ix ?si))"
    using on by (auto simp: opened_on_def)
  obtain si' where si': "DeserializeMetadata ?E (de_lg E) (de_medium E) (de_encoding E) (snd (SerializeMetadata ?E (de_encoding E) None ?si)) si0 = Some (OK, si')"
      "engine_ok ?E (de_medium E) vertex sound (si_ix si')" "id_map_ok (ix_ids (si_ix si'))" "same_index ?E vertex (si_ix ?si) (si_ix si')"
      "si_lsn si' = si_lsn si" "si_live si' = si_live si" "si_mode si' = si_mode si"
    using index_loads [OF eng ids fit _ _ cap, of "de_lg E" "de_encoding E"] on by (auto simp: opened_on_def)
  have S: "contents ?E (si_ix si') = contents ?E (si_ix si)" "paged_exists n (ix_vs (si_ix si')) = paged_exists n (ix_vs (si_ix si))"
    "resolve_internal (ix_ids (si_ix si')) = resolve_internal (ix_ids (si_ix si))" "is_tombstoned (ix_ids (si_ix si')) = is_tombstoned (ix_ids (si_ix si))"
    "next_update_internal_id (ix_ids (si_ix si')) = next_update_internal_id (ix_ids (si_ix si))" for n
    using si'(4) by (simp_all add: same_index_def contents_def)
  have ex: "vs_exists (ev_vs ?E) n s = paged_exists n s" for n s by (simp add: stores paged_ops_sel)
  have "ok d' \<and> view d' = view (d\<lparr>db_index := si\<rparr>)"
    if "db_index d' = si'" "db_meta d' \<noteq> None" "rows_of vw (db_meta d') = rows_of vw (db_meta d)" "db_live d' = db_live d" for d'
    using that si'(2,3) ok by (simp add: store_ok_def db_view_def S ex)
  then show thesis using that [OF si'(1,5-7) [unfolded same]] by blast
qed

lemma wp_open_log:
  assumes "\<And>st d'. db_index d' = db_index d \<Longrightarrow> db_meta d' = db_meta d \<Longrightarrow> db_live d' = db_live d \<Longrightarrow> P st d'"
  shows "wp (open_log E l) d P Q"
  using assms by (simp add: wp_def open_log_def split: prod.splits)

lemma replay_log_error: "replay_log E segs d = Some (Inr (Inl st), d') \<Longrightarrow> st \<noteq> OK"
  by (auto simp: replay_log_def Let_def split: prod.splits option.splits if_splits)

lemma wp_recoverFromOpLog:
  assumes dir: "f_oplog (db_files d) = Some segs" and r: "replay_log E segs d = Some (Inr res, d1)" "\<And>l. res = Inr l \<Longrightarrow> ok d1"
    and P: "\<And>st d'. (st = OK \<Longrightarrow> (\<exists>l. res = Inr l) \<and> view d' = view d1) \<Longrightarrow> P st d'"
  shows "wp (recoverFromOpLog E) d P Q"
proof -
  have stop: "P st d'" if "st \<noteq> OK" for st d' by (rule P) (use that in simp)
  have fin: "wp (if \<not> de_oplog E then bnd (on_files (f_oplog_update (\<lambda>_. None))) (\<lambda>_. ret OK) else ret OK) d3 P Q"
    if "\<exists>l. res = Inr l" "view d3 = view d1" for d3
    by (cases "de_oplog E") (use that in \<open>auto simp: on_files_def db_view_def intro!: wp_bnd wp_modify wp_ret P\<close>)
  have cp: "wp (ok_then (if l \<noteq> si_lsn (db_index d) + 1 then
          bnd (modify (\<lambda>d. d\<lparr>db_index := (db_index d)\<lparr>si_lsn := l - 1\<rparr>, db_writes := db_writes d + 1\<rparr>)) (\<lambda>_. checkpointLocked E)
        else ret OK) (if \<not> de_oplog E then bnd (on_files (f_oplog_update (\<lambda>_. None))) (\<lambda>_. ret OK) else ret OK)) d2 P Q"
    if d2: "res = Inr l" "ok d2" "view d2 = view d1" for d2 l
  proof (rule wp_ok_then, rule wp_if)
    let ?d = "d2\<lparr>db_index := (db_index d2)\<lparr>si_lsn := l - 1\<rparr>, db_writes := db_writes d2 + 1\<rparr>"
    have o: "ok ?d" "view ?d = view d1" using d2(2,3) by (simp_all add: store_ok_def db_view_def)
    show "wp (bnd (modify (\<lambda>d. d\<lparr>db_index := (db_index d)\<lparr>si_lsn := l - 1\<rparr>, db_writes := db_writes d + 1\<rparr>)) (\<lambda>_. checkpointLocked E)) d2
      (\<lambda>st d'. if st \<noteq> OK then P st d' else wp (if \<not> de_oplog E then bnd (on_files (f_oplog_update (\<lambda>_. None))) (\<lambda>_. ret OK) else ret OK) d' P Q) Q"
      by (rule wp_bnd, rule wp_modify, rule wp_checkpointLocked [OF o(1), of vw]) (use fin stop d2(1) o(2) in auto)
    show "wp (ret OK) d2
      (\<lambda>st d'. if st \<noteq> OK then P st d' else wp (if \<not> de_oplog E then bnd (on_files (f_oplog_update (\<lambda>_. None))) (\<lambda>_. ret OK) else ret OK) d' P Q) Q"
      by (rule wp_ret) (use fin d2 in simp)
  qed
  have lg: "wp (ok_then (if de_oplog E then open_log E l else ret OK) (ok_then (if l \<noteq> si_lsn (db_index d) + 1 then
          bnd (modify (\<lambda>d. d\<lparr>db_index := (db_index d)\<lparr>si_lsn := l - 1\<rparr>, db_writes := db_writes d + 1\<rparr>)) (\<lambda>_. checkpointLocked E)
        else ret OK) (if \<not> de_oplog E then bnd (on_files (f_oplog_update (\<lambda>_. None))) (\<lambda>_. ret OK) else ret OK))) d1 P Q"
    if l: "res = Inr l" for l
  proof (rule wp_ok_then, rule wp_if, rule wp_open_log)
    fix st and d2 :: "('g, 'db) db" assume "db_index d2 = db_index d1" "db_meta d2 = db_meta d1" "db_live d2 = db_live d1"
    then have "ok d2" "view d2 = view d1" using r(2) [OF l] by (simp_all add: store_ok_def db_view_def)
    then show "if st \<noteq> OK then P st d2 else wp (ok_then (if l \<noteq> si_lsn (db_index d) + 1 then
          bnd (modify (\<lambda>d. d\<lparr>db_index := (db_index d)\<lparr>si_lsn := l - 1\<rparr>, db_writes := db_writes d + 1\<rparr>)) (\<lambda>_. checkpointLocked E)
        else ret OK) (if \<not> de_oplog E then bnd (on_files (f_oplog_update (\<lambda>_. None))) (\<lambda>_. ret OK) else ret OK)) d2 P Q"
      using cp [OF l] stop by (cases "st = OK") simp_all
  next
    show "wp (ret OK) d1 (\<lambda>st d2. if st \<noteq> OK then P st d2 else wp (ok_then (if l \<noteq> si_lsn (db_index d) + 1 then
          bnd (modify (\<lambda>d. d\<lparr>db_index := (db_index d)\<lparr>si_lsn := l - 1\<rparr>, db_writes := db_writes d + 1\<rparr>)) (\<lambda>_. checkpointLocked E)
        else ret OK) (if \<not> de_oplog E then bnd (on_files (f_oplog_update (\<lambda>_. None))) (\<lambda>_. ret OK) else ret OK)) d2 P Q) Q"
      by (rule wp_ret) (use cp [OF l r(2) [OF l] refl] in simp)
  qed
  have rl: "wp (replay_log E segs) d P' Q \<longleftrightarrow> P' res d1" for P' by (simp add: wp_def r(1))
  show ?thesis unfolding recoverFromOpLog_def
    by (rule wp_bnd, rule wp_get, unfold prod.case dir option.case, rule wp_got_then, unfold rl)
      (use lg stop replay_log_error r(1) in \<open>cases res; auto\<close>)
qed

lemma loaded:
  assumes d: "ok (d\<lparr>db_index := si\<rparr>)" "view (d\<lparr>db_index := si\<rparr>) = view d" "si_live si = db_live d" "si_mode si = 0" "0 \<le> db_live d"
    and f: "f_meta (db_files d0) = Some (snd (SerializeMetadata (de_ix E) (de_encoding E) None si))" "opened_on E sound si (db_index d0)"
    and m: "mode \<noteq> Some True" "ms False = Inr s" "rows_of vw (Some s) = rows_of vw (db_meta d)"
  shows "\<exists>d2. open_loaded E mode ms d0 = Some (Inr OK, d2) \<and> ok d2 \<and> view d2 = view d \<and> si_lsn (db_index d2) = si_lsn si
    \<and> db_files d2 = db_files d0"
proof -
  obtain si' where si': "DeserializeMetadata (de_ix E) (de_lg E) (de_medium E) (de_encoding E)
        (snd (SerializeMetadata (de_ix E) (de_encoding E) None si)) (db_index d0) = Some (OK, si')"
      "si_lsn si' = si_lsn si" "si_live si' = si_live si" "si_mode si' = si_mode si"
      "\<And>d'. db_index d' = si' \<Longrightarrow> db_meta d' \<noteq> None \<Longrightarrow> rows_of vw (db_meta d') = rows_of vw (db_meta d) \<Longrightarrow> db_live d' = db_live d \<Longrightarrow>
         ok d' \<and> view d' = view (d\<lparr>db_index := si\<rparr>)"
    using checkpoint_loads [OF d(1) f(2)] by metis
  let ?d2 = "load_live (d0\<lparr>db_index := si', db_main_lsn := si_lsn si', db_keyed := False, db_meta := Some s\<rparr>)"
  have L: "db_index ?d2 = si'" "db_meta ?d2 = Some s" "db_live ?d2 = db_live d" "db_files ?d2 = db_files d0"
    using d(3,5) si'(3) by (simp_all add: load_live_def loadCount_def Let_def)
  have mode: "mode = None \<or> mode = Some False" using m(1) by (cases mode) auto
  have "open_loaded E mode ms d0 = Some (Inr OK, ?d2)"
    using si'(4) d(4) m(2) mode unfolding open_loaded_def
    by (auto simp: ok_then_def bnd_def load_intact [OF f(1) si'(1)] check_mode_def get_def modify_def ret_def load_dense_counter_def)
  moreover have "ok ?d2 \<and> view ?d2 = view d" using si'(5) [of ?d2] L m(3) d(2) by simp
  moreover have "si_lsn (db_index ?d2) = si_lsn si" using L si'(2) by simp
  ultimately show ?thesis using L(4) by blast
qed

lemma opens:
  assumes d: "ok d" "view_ok (view d)" "log_holds b d []" "b = si_lsn (db_index d) + 1"
    and run: "runs E d cs d1" "db_oplog d1 = Some lg" "log_segs lg = segs @ [(f, c)]"
    and si: "ok (d\<lparr>db_index := si\<rparr>)" "view (d\<lparr>db_index := si\<rparr>) = view d" "si_lsn si = si_lsn (db_index d)" "si_live si = db_live d" "si_mode si = 0"
    and d0: "f_meta (db_files d0) = Some (snd (SerializeMetadata (de_ix E) (de_encoding E) None si))" "opened_on E sound si (db_index d0)"
      "f_oplog (db_files d0) = Some (segs @ [(f, take k c)])"
    and ms: "mode \<noteq> Some True" "ms False = Inr s" "rows_of vw (Some s) = rows_of vw (db_meta d)"
    and reads: "\<forall>f. de_log_read E f"
    and room: "\<And>d2. open_loaded E mode ms d0 = Some (Inr OK, d2) \<Longrightarrow> replay_room E (log_accepted b (segs @ [(f, take k c)])) d2"
  shows "\<exists>st d3. open_existing E mode ms d0 = Some (Inr st, d3) \<and> (st = OK \<longrightarrow> view_ok (view d3)
    \<and> (\<exists>n \<le> length cs. v_docs (view d3) = fold (doc_step (ev_fl (de_ix E))) (take n cs) (v_docs (view d)) \<and> (length c \<le> k \<longrightarrow> n = length cs)))"
proof -
  have "0 \<le> v_live (view d)" using view_okD(7) [OF d(2)] by simp
  then have live: "0 \<le> db_live d" by (simp add: db_view_def)
  have "\<exists>d2. open_loaded E mode ms d0 = Some (Inr OK, d2) \<and> ok d2 \<and> view d2 = view d \<and> si_lsn (db_index d2) = si_lsn si
    \<and> db_files d2 = db_files d0"
    by (rule loaded) (fact si live d0 ms)+
  then obtain d2 where d2: "open_loaded E mode ms d0 = Some (Inr OK, d2)" "ok d2" "view d2 = view d" "si_lsn (db_index d2) = si_lsn si" "db_files d2 = db_files d0"
    by blast
  have l: "si_lsn (db_index d2) = si_lsn (db_index d)" using d2(4) si(3) by simp
  let ?fin = "\<lambda>d3. view_ok (view d3) \<and> (\<exists>n \<le> length cs. v_docs (view d3) = fold (doc_step (ev_fl (de_ix E))) (take n cs) (v_docs (view d)) \<and> (length c \<le> k \<longrightarrow> n = length cs))"
  obtain res d3 where d3: "replay_log E (segs @ [(f, take k c)]) d2 = Some (Inr res, d3)" "\<And>l. res = Inr l \<Longrightarrow> ok d3 \<and> ?fin d3"
    using replay_recovers [OF d run d2(2,3) l reads room [OF d2(1)]] by blast
  have dir: "f_oplog (db_files d2) = Some (segs @ [(f, take k c)])" using d0(3) d2(5) by simp
  have "wp (recoverFromOpLog E) d2 (\<lambda>st d'. st = OK \<longrightarrow> ?fin d') no_throw"
  proof (rule wp_recoverFromOpLog [OF dir d3(1)])
    show "ok d3" if "res = Inr l" for l using d3(2) [OF that] by blast
    show "st = OK \<longrightarrow> ?fin d'" if "st = OK \<Longrightarrow> (\<exists>l. res = Inr l) \<and> view d' = view d3" for st d'
    proof
      assume "st = OK"
      then have *: "\<exists>l. res = Inr l" "view d' = view d3" using that by blast+
      show "?fin d'" unfolding *(2) using *(1) d3(2) by blast
    qed
  qed
  then obtain st d4 where "recoverFromOpLog E d2 = Some (Inr st, d4)" "st = OK \<longrightarrow> ?fin d4" unfolding wp_value by blast
  moreover have "open_existing E mode ms d0 = recoverFromOpLog E d2"
    by (simp add: open_existing_split ok_then_def bnd_def d2(1))
  ultimately show ?thesis by metis
qed

end

subsection \<open>What the checkpoints promise\<close>

lemma counted: "view_ok (db_view E vw d) \<Longrightarrow> VectorCount d = card (dom (v_docs (db_view E vw d)))"
proof -
  assume "view_ok (db_view E vw d)"
  then have "v_live (db_view E vw d) = int (card (dom (v_docs (db_view E vw d))))" by (rule view_okD(7))
  moreover have "VectorCount d = nat (v_live (db_view E vw d))" by (simp add: VectorCount_def db_view_def)
  ultimately show ?thesis by simp
qed


text \<open>The store of the examples with its vectors written out, and its files opened again.\<close>

definition rest_db :: "(mem_graph, ((cf \<times> bytes) \<times> bytes) list) db" where
  "rest_db = tiny_db\<lparr>db_index := (tiny_stored rested_paged)\<lparr>si_lsn := 0\<rparr>\<rparr>"

definition rest_file :: bytes where
  "rest_file = snd (SerializeMetadata tiny_env 1 None (db_index rest_db))"

definition rest_open :: "paged_store \<Rightarrow> bytes \<Rightarrow> bytes option \<Rightarrow> (mem_graph, ((cf \<times> bytes) \<times> bytes) list) db" where
  "rest_open st file prev = rest_db\<lparr>db_index := tiny_stored st,
     db_files := \<lparr>f_meta = Some file, f_prev = prev, f_tmp = None, f_count = None, f_oplog = Some [(1, [])]\<rparr>\<rparr>"

lemma rest_ids: "db_ids rest_db = id_map_init ln" "db_live rest_db = 1" "rows_of mem_view (db_meta rest_db) = Map.empty"
  "db_oplog rest_db = Some fresh_log" "ix_vs (db_ix rest_db) = rested_paged" "si_lsn (db_index rest_db) = 0" "si_live (db_index rest_db) = 1"
  "si_mode (db_index rest_db) = 0" "db_meta rest_db \<noteq> None" "rest_db\<lparr>db_index := db_index rest_db\<rparr> = rest_db" "de_encoding tiny_db_env = 1"
  using tiny_db_ids by (simp_all add: rest_db_def tiny_stored_def tiny_db_env_def)

lemma rest_contents: "contents tiny_env (db_ix rest_db) n \<noteq> None \<longleftrightarrow> n = 0"
  by (simp add: contents_def paged_view_def rest_ids rested_page_of)

lemmas rest_document = one_document [where d = rest_db, OF rest_contents rest_ids(1-3)]

lemma rest_ok: "store_ok tiny_db_env mem_vertex (\<lambda>_. True) rest_db"
proof -
  have "engine_ok tiny_env (\<lambda>_. None) mem_vertex (\<lambda>_. True) (db_ix rest_db)" using tiny_stored_ok(1) by (simp add: rest_db_def)
  moreover have "id_map_ok (db_ids rest_db)" using id_map_init_ok by (simp add: rest_ids)
  moreover have "vs_exists (ev_vs tiny_env) n (ix_vs (db_ix rest_db)) \<longleftrightarrow> n = 0" for n
    by (simp add: tiny_env_def paged_ops_def rest_ids paged_exists_def rested_page_of is_deleted_at_def)
      (simp add: rested_paged_def buffered_paged_def new_paged_def paged_open_def Let_def kPageSize_def ensureDeleteFileSize_def patch_def zero_fill_def nth_append)
  ultimately show ?thesis using rest_contents rest_ids(9) by (simp add: store_ok_def)
qed

lemma rest_opened:
  obtains st where "paged_open 1 2 0 0 (ps_file rested_paged) (ps_del rested_paged) = Some st"
    "opened_on tiny_db_env (\<lambda>_. True) (db_index rest_db) (tiny_stored st)"
proof -
  have t: "ps_total rested_paged = 4"
    by (simp add: rested_paged_def buffered_paged_def new_paged_def paged_open_def Let_def kPageSize_def)
  have d: "double_to 2 4 = 4" by (simp add: double_to.simps)
  obtain st where st: "paged_open 1 2 0 0 (ps_file rested_paged) (ps_del rested_paged) = Some st"
    by (simp add: paged_open_def kPageSize_def Let_def)
  have "index_fits tiny_env (db_index rest_db)" using tiny_stored_ok(3) by (simp add: rest_db_def index_fits_def)
  moreover have "ev_dim tiny_env = 1" by (simp add: tiny_env_def)
  moreover have "\<exists>capacity cached buf_cap. paged_open 1 capacity cached buf_cap (ps_file rested_paged) (ps_del rested_paged) = Some st
      \<and> 0 < capacity \<and> capacity \<le> ps_total rested_paged \<and> double_to capacity (ps_total rested_paged) = ps_total rested_paged"
    by (intro exI [of _ 2] exI [of _ 0]) (use st t d in simp)
  ultimately have "opened_on tiny_db_env (\<lambda>_. True) (db_index rest_db) (tiny_stored st)"
    using rested_paged_ok(2,3) unfolding opened_on_def rest_ids
    by (simp add: fresh_cache_def scratch_ok_init tiny_stored_def tiny_index_def)
  then show thesis using that st by blast
qed

lemma rest_log: "log_holds 1 rest_db []" "log_segs fresh_log = [] @ [(1, [])]" "log_accepted 1 ([] @ [(1, take 0 [])]) = []"
proof -
  show h: "log_holds 1 rest_db []" using fresh_log_ok fresh_log_empty by (simp add: log_holds_def rest_ids)
  show s: "log_segs fresh_log = [] @ [(1, [])]" by (simp add: fresh_log_def)
  show "log_accepted 1 ([] @ [(1, take 0 [])]) = []" using h s by (simp add: log_holds_def rest_ids)
qed



lemma cut_at: "12 \<le> n \<Longrightarrow> n < length xs \<Longrightarrow> xs = take n xs @ [xs ! n] @ drop (Suc n) xs"
  by (simp add: id_take_nth_drop [symmetric])

lemma rest_file_long: "17 \<le> length rest_file"
  by (simp add: rest_file_def SerializeMetadata_def SerializeMetadataImpl_def Let_def kMetadataMagic_def)




end
