(* ===== verification/Spec2Isabelle.thy ===== *)
theory Spec2Isabelle
  imports Ids Crc32 Point_Id Bloom Id_Map Edge_Cache Search_Scratch Op_Log Meta_Filter Metadata_Store
    Vector_Store Paged_Sync Graph_Store Index_Reopen Db_Durable
begin

text \<open>Header.\<close>

end
